(* ===== verification/Queue_Model.thy ===== *)
theory Queue_Model
  imports Prelude
begin

text \<open>
  The queue v2 state model (\<^verbatim>\<open>crates/softfig-ipc/src/queue_v2/mod.rs\<close>): the typed shape of
  the three TOML files that hold the growlight backlog, their schema check, and the paths
  derived from a milestone identity. The TOML crate is a parameter: a \<open>toml_codec\<close> holds the
  deserialiser and the serialiser of one file shape.
\<close>

section \<open>The closed vocabularies\<close>

datatype entry_kind = Milestone | Task | Restack

datatype lane = Urgent | Normal

datatype entry_status = EQueued | EActive | EPaused | EBlocked | EDeferred

datatype final_status = FDone | FDropped

datatype slice_kind = Slice | Sub

datatype slice_status = SQueued | SActive | SDone | SSplit | SBlocked | SDeferred

fun show_entry_kind :: "entry_kind \<Rightarrow> string" where
  "show_entry_kind Milestone = ''milestone''"
| "show_entry_kind Task = ''task''"
| "show_entry_kind Restack = ''restack''"

fun show_lane :: "lane \<Rightarrow> string" where
  "show_lane Urgent = ''urgent''"
| "show_lane Normal = ''normal''"

fun show_entry_status :: "entry_status \<Rightarrow> string" where
  "show_entry_status EQueued = ''queued''"
| "show_entry_status EActive = ''active''"
| "show_entry_status EPaused = ''paused''"
| "show_entry_status EBlocked = ''blocked''"
| "show_entry_status EDeferred = ''deferred''"

fun show_final_status :: "final_status \<Rightarrow> string" where
  "show_final_status FDone = ''done''"
| "show_final_status FDropped = ''dropped''"

fun show_slice_kind :: "slice_kind \<Rightarrow> string" where
  "show_slice_kind Slice = ''slice''"
| "show_slice_kind Sub = ''sub''"

fun show_slice_status :: "slice_status \<Rightarrow> string" where
  "show_slice_status SQueued = ''queued''"
| "show_slice_status SActive = ''active''"
| "show_slice_status SDone = ''done''"
| "show_slice_status SSplit = ''split''"
| "show_slice_status SBlocked = ''blocked''"
| "show_slice_status SDeferred = ''deferred''"

section \<open>The rows and the files\<close>

record project =
  p_name :: string
  p_repo :: string
  p_main :: string

record entry =
  e_id :: string
  e_kind :: entry_kind
  e_title :: string
  e_project :: string
  e_lane :: lane
  e_status :: entry_status
  e_after :: "string list"
  e_added :: string
  e_branch :: string
  e_parent :: string
  e_base :: string
  e_claimed :: string
  e_follow_ups :: u64
  e_pending_status :: "entry_status option"

record queue_toml =
  q_schema :: u32
  q_projects :: "project list"
  q_entries :: "entry list"

record archived_entry =
  a_row :: entry
  a_finished :: string
  a_final_status :: final_status
  a_reason :: "string option"

record queue_archive_toml =
  a_schema :: u32
  a_entries :: "archived_entry list"

record slice_item =
  i_kind :: slice_kind
  i_id :: string
  i_status :: slice_status
  i_follow_ups :: "u64 option"

record slices_toml =
  s_schema :: u32
  s_milestone :: string
  s_items :: "slice_item list"

definition schema_version :: u32 where
  "schema_version = 1"

definition queue_new :: "project list \<Rightarrow> entry list \<Rightarrow> queue_toml" where
  "queue_new projects entries =
     \<lparr>q_schema = schema_version, q_projects = projects, q_entries = entries\<rparr>"

definition archive_new :: "archived_entry list \<Rightarrow> queue_archive_toml" where
  "archive_new entries = \<lparr>a_schema = schema_version, a_entries = entries\<rparr>"

definition slices_new :: "string \<Rightarrow> slice_item list \<Rightarrow> slices_toml" where
  "slices_new milestone items =
     \<lparr>s_schema = schema_version, s_milestone = milestone, s_items = items\<rparr>"

section \<open>Paths\<close>

definition queue_file :: string where
  "queue_file = ''growlight/backlog/queue.toml''"

definition queue_archive_file :: string where
  "queue_archive_file = ''growlight/backlog/queue-archive.toml''"

definition milestones_dir :: string where
  "milestones_dir = ''growlight/backlog/milestones''"

definition milestone_path :: "string \<Rightarrow> string" where
  "milestone_path milestone =
     (case split_on (CHR ''/'') milestone of
        [] \<Rightarrow> milestones_dir @ ''/''
      | head # subs \<Rightarrow>
          fold (\<lambda>sub path. path @ ''/subs/'' @ sub) subs (milestones_dir @ ''/'' @ head))"

definition slices_file :: "string \<Rightarrow> string" where
  "slices_file milestone = milestone_path milestone @ ''/slices.toml''"

section \<open>Parsing and printing\<close>

text \<open>The messages of the TOML crate are carried as text.\<close>

datatype queue_v2_error =
    InvalidToml string
  | UnsupportedSchema u32
  | Serialize string

fun show_queue_v2_error :: "queue_v2_error \<Rightarrow> string" where
  "show_queue_v2_error (InvalidToml e) = ''invalid TOML: '' @ e"
| "show_queue_v2_error (UnsupportedSchema found) =
     ''unsupported schema '' @ show_nat (unat found) @ '' (this build writes ''
       @ show_nat (unat schema_version) @ '')''"
| "show_queue_v2_error (Serialize e) = ''serialize: '' @ e"

definition check_schema :: "u32 \<Rightarrow> queue_v2_error + unit" where
  "check_schema schema =
     (if schema = schema_version then Inr () else Inl (UnsupportedSchema schema))"

text \<open>
  \<^verbatim>\<open>toml::from_str\<close> and \<^verbatim>\<open>toml::to_string_pretty\<close> at one shape; \<open>Inl\<close> is the crate's error.
\<close>

record 'f toml_codec =
  from_str :: "string \<Rightarrow> string + 'f"
  to_string_pretty :: "'f \<Rightarrow> string + string"

definition parse_file :: "'f toml_codec \<Rightarrow> ('f \<Rightarrow> u32) \<Rightarrow> string \<Rightarrow> queue_v2_error + 'f" where
  "parse_file codec schema raw =
     try_with (map_err InvalidToml (from_str codec raw)) (\<lambda>parsed.
     try_with (check_schema (schema parsed)) (\<lambda>_.
     Inr parsed))"

definition print_file :: "'f toml_codec \<Rightarrow> ('f \<Rightarrow> u32) \<Rightarrow> 'f \<Rightarrow> queue_v2_error + string" where
  "print_file codec schema file =
     try_with (check_schema (schema file)) (\<lambda>_.
     map_err Serialize (to_string_pretty codec file))"

definition queue_parse :: "queue_toml toml_codec \<Rightarrow> string \<Rightarrow> queue_v2_error + queue_toml" where
  "queue_parse codec raw = parse_file codec q_schema raw"

definition queue_to_toml :: "queue_toml toml_codec \<Rightarrow> queue_toml \<Rightarrow> queue_v2_error + string" where
  "queue_to_toml codec file = print_file codec q_schema file"

definition archive_parse ::
  "queue_archive_toml toml_codec \<Rightarrow> string \<Rightarrow> queue_v2_error + queue_archive_toml" where
  "archive_parse codec raw = parse_file codec a_schema raw"

definition archive_to_toml ::
  "queue_archive_toml toml_codec \<Rightarrow> queue_archive_toml \<Rightarrow> queue_v2_error + string" where
  "archive_to_toml codec file = print_file codec a_schema file"

definition slices_parse :: "slices_toml toml_codec \<Rightarrow> string \<Rightarrow> queue_v2_error + slices_toml" where
  "slices_parse codec raw = parse_file codec s_schema raw"

definition slices_to_toml ::
  "slices_toml toml_codec \<Rightarrow> slices_toml \<Rightarrow> queue_v2_error + string" where
  "slices_to_toml codec file = print_file codec s_schema file"

text \<open>What the code relies on of the crate: a printed file reads back as itself.\<close>

definition codec_round_trips :: "'f toml_codec \<Rightarrow> bool" where
  "codec_round_trips codec \<longleftrightarrow>
     (\<forall>file txt. to_string_pretty codec file = Inr txt \<longrightarrow> from_str codec txt = Inr file)"

lemma parse_file_Inr [res_simps]:
  "parse_file codec schema raw = Inr f \<longleftrightarrow> from_str codec raw = Inr f \<and> schema f = schema_version"
  by (auto simp: parse_file_def check_schema_def res_simps)

lemma print_file_Inr [res_simps]:
  "print_file codec schema f = Inr txt \<longleftrightarrow>
     to_string_pretty codec f = Inr txt \<and> schema f = schema_version"
  by (auto simp: print_file_def check_schema_def res_simps)

lemma parse_printed_file:
  "codec_round_trips codec \<Longrightarrow> print_file codec schema f = Inr txt \<Longrightarrow>
     parse_file codec schema txt = Inr f"
  by (auto simp: res_simps codec_round_trips_def)

lemmas codec_defs = queue_parse_def queue_to_toml_def archive_parse_def archive_to_toml_def
  slices_parse_def slices_to_toml_def

end
