(* ===== verification/Queue_Invariant.thy ===== *)
theory Queue_Invariant
  imports Queue_Validate
begin

text \<open>
  What the queue v2 file check means: each pass is shown equivalent to the clause of the
  invariant it stands for (\<open>queue_ok\<close>, \<open>slices_ok\<close>), the depth-first search is shown to
  terminate with the fuel it is given and to find a cycle exactly when the links have one, and
  each refusal is shown to name a real violation (\<open>refusal_justified\<close>).
\<close>

section \<open>What each pass establishes\<close>

named_theorems check_simps \<open>a pass of the check as the clause it stands for\<close>

definition lanes_ordered :: "entry list \<Rightarrow> bool" where
  "lanes_ordered es \<longleftrightarrow>
     sorted_wrt (\<lambda>a b. e_lane a = Normal \<longrightarrow> e_lane b = Normal) es"

definition restacks_urgent :: "entry list \<Rightarrow> bool" where
  "restacks_urgent es \<longleftrightarrow> (\<forall>e \<in> set es. e_kind e = Restack \<longrightarrow> e_lane e = Urgent)"

lemma lane_cases: "e_lane e = Urgent \<or> e_lane e = Normal"
  by (cases "e_lane e") auto

lemma check_lanes_seen:
  "check_lanes seen es = Inr () \<longleftrightarrow>
     restacks_urgent es \<and> lanes_ordered es \<and> (seen \<longrightarrow> (\<forall>e \<in> set es. e_lane e = Normal))"
proof (induction es arbitrary: seen)
  case Nil
  then show ?case by (simp add: restacks_urgent_def lanes_ordered_def)
next
  case (Cons e es)
  show ?case
    using Cons.IH lane_cases [of e] by (auto simp: restacks_urgent_def lanes_ordered_def)
qed

lemma check_lanes_ok [check_simps]:
  "check_lanes False es = Inr () \<longleftrightarrow> restacks_urgent es \<and> lanes_ordered es"
  by (simp add: check_lanes_seen)

lemma check_unique_seen:
  "check_unique seen is = Inr () \<longleftrightarrow> distinct is \<and> set is \<inter> seen = {}"
  by (induction "is" arbitrary: seen) auto

lemma check_unique_ok [check_simps]: "check_unique {} is = Inr () \<longleftrightarrow> distinct is"
  by (simp add: check_unique_seen)

lemma check_links_ok [check_simps]:
  "check_links live dn ls = Inr () \<longleftrightarrow> (\<forall>l \<in> set ls. live l \<noteq> None \<or> l \<in> dn)"
  by (induction ls) auto

lemma live_index_Some:
  assumes "distinct (map e_id es)"
  shows "live_index es l = Some j \<longleftrightarrow> j < length es \<and> e_id (es ! j) = l"
proof -
  let ?z = "zip (map e_id es) [0..<length es]"
  have fst: "map fst ?z = map e_id es" by simp
  have "distinct (map fst (rev ?z))" by (simp only: rev_map [symmetric] fst distinct_rev assms)
  then have "map_of (rev ?z) l = Some j \<longleftrightarrow> (l, j) \<in> set (rev ?z)"
    by (rule map_of_eq_Some_iff)
  also have "\<dots> \<longleftrightarrow> j < length es \<and> e_id (es ! j) = l"
    by (force simp: set_zip)
  finally show ?thesis by (simp add: live_index_def)
qed

lemma live_index_dom: "live_index es l \<noteq> None \<longleftrightarrow> l \<in> set (map e_id es)"
proof -
  have "dom (live_index es) = fst ` set (zip (map e_id es) [0..<length es])"
    by (simp add: live_index_def dom_map_of_conv_image_fst)
  also have "\<dots> = set (map fst (zip (map e_id es) [0..<length es]))" by (simp only: set_map)
  also have "\<dots> = set (map e_id es)" by simp
  finally show ?thesis by (auto simp: dom_def)
qed

lemma live_index_range: "live_index es l = Some j \<Longrightarrow> j < length es"
  by (auto simp: live_index_def dest!: map_of_SomeD in_set_zipE)

definition holds_repo :: "entry \<Rightarrow> bool" where
  "holds_repo e \<longleftrightarrow> e_lane e = Normal \<and> is_started (e_status e)"

definition held_repos :: "(string \<Rightarrow> string option) \<Rightarrow> entry list \<Rightarrow> string option list" where
  "held_repos repo_of es = map (\<lambda>e. repo_of (e_project e)) (filter holds_repo es)"

lemma check_repos_started:
  "check_repos repo_of started es = Inr () \<longleftrightarrow>
     (\<forall>e \<in> set es. repo_of (e_project e) \<noteq> None) \<and> distinct (held_repos repo_of es) \<and>
     (\<forall>r. Some r \<in> set (held_repos repo_of es) \<longrightarrow> started r = None)"
proof (induction es arbitrary: started)
  case Nil
  then show ?case by (simp add: held_repos_def)
next
  case (Cons e es)
  show ?case
  proof (cases "repo_of (e_project e)")
    case None
    then show ?thesis by simp
  next
    case (Some repo)
    show ?thesis
    proof (cases "holds_repo e")
      case True
      then have step: "check_repos repo_of started (e # es) = Inr () \<longleftrightarrow>
          started repo = None \<and> check_repos repo_of (started(repo \<mapsto> e_id e)) es = Inr ()"
        using Some by (simp add: holds_repo_def)
      have held: "held_repos repo_of (e # es) = Some repo # held_repos repo_of es"
        using True Some by (simp add: held_repos_def)
      show ?thesis unfolding step held Cons.IH using Some by auto
    next
      case False
      then have "check_repos repo_of started (e # es) = check_repos repo_of started es"
        using Some by (auto simp: holds_repo_def)
      then show ?thesis using Some False Cons.IH [of started] by (simp add: held_repos_def)
    qed
  qed
qed

lemma check_repos_ok [check_simps]:
  "check_repos repo_of Map.empty es = Inr () \<longleftrightarrow>
     (\<forall>e \<in> set es. repo_of (e_project e) \<noteq> None) \<and> distinct (held_repos repo_of es)"
  by (simp add: check_repos_started)

section \<open>The cycle search\<close>

text \<open>The link graph on row indices, as the search walks it.\<close>

definition link_graph :: "entry list \<Rightarrow> (string \<Rightarrow> nat option) \<Rightarrow> (nat \<times> nat) set" where
  "link_graph es live =
     {(i, j). i < length es \<and> (\<exists>l \<in> set (e_after (es ! i)). live l = Some j)}"

definition live_ok :: "entry list \<Rightarrow> (string \<Rightarrow> nat option) \<Rightarrow> bool" where
  "live_ok es live \<longleftrightarrow> (\<forall>l j. live l = Some j \<longrightarrow> j < length es)"

definition unvisited :: "nat list \<Rightarrow> nat set" where
  "unvisited st = {i. i < length st \<and> st ! i \<noteq> 1 \<and> st ! i \<noteq> 2}"

lemma finite_unvisited [simp]: "finite (unvisited st)"
  by (simp add: unvisited_def)

lemma unvisited_mark:
  "i \<in> unvisited st \<Longrightarrow> card (unvisited (st[i := 1])) < card (unvisited st)"
  by (rule psubset_card_mono) (auto simp: unvisited_def nth_list_update)

lemma unvisited_finish: "card (unvisited (st[i := 2])) \<le> card (unvisited st)"
  by (rule card_mono)
    (auto simp: unvisited_def, (metis One_nat_def nth_list_update_eq nth_list_update_neq)+)

text \<open>Enough fuel: more than the unvisited rows.\<close>

lemma dfs_total:
  shows "card (unvisited st) < fuel \<Longrightarrow> live_ok es live \<Longrightarrow> idx < length es \<Longrightarrow>
      length st = length es \<Longrightarrow>
      \<exists>c st'. dfs_cycle fuel es live idx st = Some (c, st') \<and> length st' = length es
        \<and> card (unvisited st') \<le> card (unvisited st)"
    and "card (unvisited st) < fuel \<Longrightarrow> live_ok es live \<Longrightarrow> length st = length es \<Longrightarrow>
      \<exists>c st'. dfs_links fuel es live links st = Some (c, st') \<and> length st' = length es
        \<and> card (unvisited st') \<le> card (unvisited st)"
proof (induction fuel es live idx st and fuel es live links st rule: dfs_cycle_dfs_links.induct)
  case (1 es live idx st)
  then show ?case by simp
next
  case (2 fuel es live idx st)
  show ?case
  proof (cases "st ! idx = 1 \<or> st ! idx = 2")
    case True
    then show ?thesis using 2 by auto
  next
    case False
    then have "idx \<in> unvisited st" using 2 by (simp add: unvisited_def)
    then have less: "card (unvisited (st[idx := 1])) < card (unvisited st)"
      by (rule unvisited_mark)
    have "\<exists>c st'. dfs_links fuel es live (e_after (es ! idx)) (st[idx := 1]) = Some (c, st')
        \<and> length st' = length es \<and> card (unvisited st') \<le> card (unvisited (st[idx := 1]))"
      using 2 False less by simp
    then obtain c st' where r: "dfs_links fuel es live (e_after (es ! idx)) (st[idx := 1])
        = Some (c, st')" and l: "length st' = length es"
        and u: "card (unvisited st') \<le> card (unvisited (st[idx := 1]))" by blast
    have "card (unvisited (st'[idx := 2])) \<le> card (unvisited st)"
      using unvisited_finish [of st' idx] u less by linarith
    then show ?thesis using False r l u less by (cases c) simp_all
  qed
next
  case (3 fuel es live st)
  then show ?case by simp
next
  case (4 fuel es live link links st)
  show ?case
  proof (cases "live link")
    case None
    then show ?thesis using 4 by simp
  next
    case (Some nxt)
    then have "nxt < length es" using 4 by (auto simp: live_ok_def)
    then obtain c st' where r: "dfs_cycle fuel es live nxt st = Some (c, st')"
        and l: "length st' = length es" and u: "card (unvisited st') \<le> card (unvisited st)"
      using 4 Some by blast
    show ?thesis
    proof (cases c)
      case None
      have "\<exists>c st''. dfs_links fuel es live links st' = Some (c, st'') \<and> length st'' = length es
          \<and> card (unvisited st'') \<le> card (unvisited st')"
        using 4 Some r None l u by simp
      then show ?thesis using Some r None u by fastforce
    next
      case (Some a)
      then show ?thesis using \<open>live link = Some nxt\<close> r l u by simp
    qed
  qed
qed

text \<open>
  What the search keeps: the successors of a finished row are finished, and no finished row
  lies on a cycle.
\<close>

definition dfs_inv :: "(nat \<times> nat) set \<Rightarrow> nat list \<Rightarrow> bool" where
  "dfs_inv E st \<longleftrightarrow>
     (\<forall>i j. (i, j) \<in> E \<longrightarrow> st ! i = 2 \<longrightarrow> st ! j = 2) \<and> (\<forall>i. st ! i = 2 \<longrightarrow> (i, i) \<notin> E\<^sup>+)"

lemma dfs_inv_reach: "(i, j) \<in> E\<^sup>+ \<Longrightarrow> dfs_inv E st \<Longrightarrow> st ! i = 2 \<Longrightarrow> st ! j = 2"
  by (induction rule: trancl.induct) (auto simp: dfs_inv_def)

definition same_grey :: "nat list \<Rightarrow> nat list \<Rightarrow> bool" where
  "same_grey st st' \<longleftrightarrow>
     length st' = length st \<and> (\<forall>i < length st. (st' ! i = 1 \<longleftrightarrow> st ! i = 1))
       \<and> (\<forall>i < length st. st ! i = 2 \<longrightarrow> st' ! i = 2)"

lemma same_grey_refl [simp]: "same_grey st st"
  by (simp add: same_grey_def)

lemma same_grey_trans: "same_grey a b \<Longrightarrow> same_grey b c \<Longrightarrow> same_grey a c"
  by (auto simp: same_grey_def)


lemma dfs_finish:
  assumes inv: "dfs_inv E st" and grey: "st ! i = 1" and len: "i < length st"
    and succ: "\<forall>j. (i, j) \<in> E \<longrightarrow> st ! j = 2"
  shows "dfs_inv E (st[i := 2])"
proof -
  have no_loop: "(i, i) \<notin> E\<^sup>+"
  proof
    assume "(i, i) \<in> E\<^sup>+"
    then obtain j where j: "(i, j) \<in> E" and r: "j = i \<or> (j, i) \<in> E\<^sup>+"
      by (meson converse_tranclE)
    from succ j have "st ! j = 2" by blast
    with r inv have "st ! i = 2" by (auto dest: dfs_inv_reach)
    with grey show False by simp
  qed
  have closed: "st[i := 2] ! b = 2" if "(a, b) \<in> E" "st[i := 2] ! a = 2" for a b
  proof (cases "a = i")
    case True
    then show ?thesis using that succ len by (cases "b = i") auto
  next
    case False
    then show ?thesis using that inv len by (cases "b = i") (auto simp: dfs_inv_def)
  qed
  have loops: "(a, a) \<notin> E\<^sup>+" if "st[i := 2] ! a = 2" for a
    using that inv no_loop len by (cases "a = i") (auto simp: dfs_inv_def)
  from closed loops show ?thesis unfolding dfs_inv_def by blast
qed

lemma dfs_start:
  "dfs_inv E st \<Longrightarrow> i < length st \<Longrightarrow> st ! i \<noteq> 2 \<Longrightarrow> dfs_inv E (st[i := 1])"
  unfolding dfs_inv_def
  by (metis nth_list_update_eq nth_list_update_neq numeral_eq_one_iff semiring_norm(85))

definition grey_path :: "(nat \<times> nat) set \<Rightarrow> nat list \<Rightarrow> nat \<Rightarrow> bool" where
  "grey_path E st v \<longleftrightarrow> (\<forall>g < length st. st ! g = 1 \<longrightarrow> (g, v) \<in> E\<^sup>+)"

definition dfs_result :: "(nat \<times> nat) set \<Rightarrow> nat list \<Rightarrow> nat option \<Rightarrow> nat list \<Rightarrow> bool" where
  "dfs_result E st c st' \<longleftrightarrow>
     (case c of Some v \<Rightarrow> v < length st \<and> (v, v) \<in> E\<^sup>+ | None \<Rightarrow> dfs_inv E st' \<and> same_grey st st')"

lemma grey_path_same: "grey_path E st v \<Longrightarrow> same_grey st st' \<Longrightarrow> grey_path E st' v"
  by (auto simp: grey_path_def same_grey_def)

lemma grey_path_mark:
  assumes "grey_path E st i" "(i, j) \<in> E" "i < length st"
  shows "grey_path E (st[i := 1]) j"
  unfolding grey_path_def
proof (intro allI impI)
  fix g
  assume g: "g < length (st[i := 1])" "st[i := 1] ! g = 1"
  show "(g, j) \<in> E\<^sup>+"
  proof (cases "g = i")
    case True
    then show ?thesis using assms(2) by auto
  next
    case False
    then have "(g, i) \<in> E\<^sup>+" using g assms(1) by (simp add: grey_path_def)
    then show ?thesis using assms(2) by (rule trancl_into_trancl)
  qed
qed

lemma same_grey_finish:
  "same_grey (st[i := 1]) st' \<Longrightarrow> st ! i \<noteq> 1 \<Longrightarrow> st ! i \<noteq> 2 \<Longrightarrow> i < length st \<Longrightarrow>
     same_grey st (st'[i := 2])"
  by (auto simp: same_grey_def nth_list_update)

lemma dfs_sound:
  shows "dfs_cycle fuel es live idx st = Some (c, st') \<Longrightarrow> live_ok es live \<Longrightarrow>
      length st = length es \<Longrightarrow> idx < length es \<Longrightarrow> dfs_inv (link_graph es live) st \<Longrightarrow>
      grey_path (link_graph es live) st idx \<Longrightarrow>
      dfs_result (link_graph es live) st c st' \<and> (c = None \<longrightarrow> st' ! idx = 2)"
    and "dfs_links fuel es live links st = Some (c, st') \<Longrightarrow> live_ok es live \<Longrightarrow>
      length st = length es \<Longrightarrow> dfs_inv (link_graph es live) st \<Longrightarrow>
      \<forall>l \<in> set links. \<forall>j. live l = Some j \<longrightarrow> grey_path (link_graph es live) st j \<Longrightarrow>
      dfs_result (link_graph es live) st c st'
        \<and> (c = None \<longrightarrow> (\<forall>l \<in> set links. \<forall>j. live l = Some j \<longrightarrow> st' ! j = 2))"
proof (induction fuel es live idx st and fuel es live links st
    arbitrary: c st' and c st' rule: dfs_cycle_dfs_links.induct)
  case (1 es live idx st)
  then show ?case by simp
next
  case (2 fuel es live idx st)
  let ?E = "link_graph es live"
  show ?case
  proof (cases "st ! idx = 1 \<or> st ! idx = 2")
    case True
    then show ?thesis using 2 by (auto simp: dfs_result_def grey_path_def)
  next
    case False
    then obtain c' s' where r: "dfs_links fuel es live (e_after (es ! idx)) (st[idx := 1])
        = Some (c', s')" and res: "(c, st') = (c', case c' of None \<Rightarrow> s'[idx := 2] | Some _ \<Rightarrow> s')"
      using 2 by (auto split: option.splits)
    have succ_path: "\<forall>l \<in> set (e_after (es ! idx)). \<forall>j. live l = Some j \<longrightarrow>
        grey_path ?E (st[idx := 1]) j"
    proof (intro ballI allI impI)
      fix l j
      assume "l \<in> set (e_after (es ! idx))" "live l = Some j"
      then have "(idx, j) \<in> ?E" using 2 by (auto simp: link_graph_def)
      then show "grey_path ?E (st[idx := 1]) j" using 2 by (intro grey_path_mark) simp_all
    qed
    have start: "dfs_inv ?E (st[idx := 1])" using 2 False by (intro dfs_start) simp_all
    have ih: "dfs_result ?E (st[idx := 1]) c' s' \<and> (c' = None \<longrightarrow>
        (\<forall>l \<in> set (e_after (es ! idx)). \<forall>j. live l = Some j \<longrightarrow> s' ! j = 2))"
      using 2 False r succ_path start by simp
    show ?thesis
    proof (cases c')
      case (Some v)
      then show ?thesis using ih res 2 by (auto simp: dfs_result_def)
    next
      case None
      then have inv: "dfs_inv ?E s'" and grey: "same_grey (st[idx := 1]) s'"
        and succ: "\<forall>j. (idx, j) \<in> ?E \<longrightarrow> s' ! j = 2"
        using ih by (auto simp: dfs_result_def link_graph_def)
      have "s' ! idx = 1" "idx < length s'" using grey 2 by (auto simp: same_grey_def)
      then have "dfs_inv ?E (s'[idx := 2])" using inv succ by (auto intro: dfs_finish)
      then show ?thesis
        using None res False grey 2 \<open>idx < length s'\<close>
        by (auto simp: dfs_result_def intro: same_grey_finish)
    qed
  qed
next
  case (3 fuel es live st)
  then show ?case by (simp add: dfs_result_def)
next
  case (4 fuel es live link links st)
  let ?E = "link_graph es live"
  show ?case
  proof (cases "live link")
    case None
    then show ?thesis using 4 by simp
  next
    case (Some nxt)
    note live_nxt = this
    have nxt: "nxt < length es" "grey_path ?E st nxt"
      using 4 Some by (auto simp: live_ok_def)
    obtain c1 s1 where r1: "dfs_cycle fuel es live nxt st = Some (c1, s1)"
      using 4 Some by (auto split: option.splits)
    have ih1: "dfs_result ?E st c1 s1 \<and> (c1 = None \<longrightarrow> s1 ! nxt = 2)"
      using 4 Some r1 nxt by blast
    show ?thesis
    proof (cases c1)
      case (Some v)
      then show ?thesis using ih1 r1 4 live_nxt by (auto simp: dfs_result_def)
    next
      case None
      then have inv: "dfs_inv ?E s1" and grey: "same_grey st s1" and fin: "s1 ! nxt = 2"
        using ih1 by (auto simp: dfs_result_def)
      have r2: "dfs_links fuel es live links s1 = Some (c, st')"
        using 4 live_nxt r1 None by simp
      have paths: "\<forall>l \<in> set links. \<forall>j. live l = Some j \<longrightarrow> grey_path ?E s1 j"
        using "4.prems"(5) grey_path_same [OF _ grey] by simp
      have ih2: "dfs_result ?E s1 c st' \<and>
          (c = None \<longrightarrow> (\<forall>l \<in> set links. \<forall>j. live l = Some j \<longrightarrow> st' ! j = 2))"
        using 4 live_nxt r1 None r2 inv grey paths by (simp add: same_grey_def)
      have "st' ! nxt = 2" if "c = None"
        using ih2 fin that grey nxt 4 by (auto simp: dfs_result_def same_grey_def)
      then show ?thesis
        using ih2 grey live_nxt
        by (auto simp: dfs_result_def same_grey_def split: option.splits)
    qed
  qed
qed

lemma dfs_all_result:
  assumes "live_ok es live"
  shows "length st = length es \<Longrightarrow> set is \<subseteq> {..<length es} \<Longrightarrow> dfs_inv (link_graph es live) st \<Longrightarrow>
    \<forall>i < length es. st ! i \<noteq> 1 \<Longrightarrow>
    (\<exists>v < length es. dfs_all es live is st = Some (Some v) \<and> (v, v) \<in> (link_graph es live)\<^sup>+) \<or>
    (dfs_all es live is st = Some None \<and> (\<forall>i \<in> set is. (i, i) \<notin> (link_graph es live)\<^sup>+))"
proof (induction "is" arbitrary: st)
  case Nil
  then show ?case by simp
next
  case (Cons i "is")
  let ?E = "link_graph es live"
  have i: "i < length es" using Cons.prems by simp
  have "card (unvisited st) \<le> card {..<length st}"
    by (rule card_mono) (auto simp: unvisited_def)
  then have "card (unvisited st) < Suc (length es)" using Cons.prems(1) by simp
  then obtain c st' where r: "dfs_cycle (Suc (length es)) es live i st = Some (c, st')"
      and len: "length st' = length es"
    using dfs_total(1) [OF _ assms i Cons.prems(1)] by blast
  have "grey_path ?E st i" using Cons.prems by (simp add: grey_path_def)
  then have res: "dfs_result ?E st c st' \<and> (c = None \<longrightarrow> st' ! i = 2)"
    using dfs_sound(1) [OF r assms Cons.prems(1) i Cons.prems(3)] by simp
  show ?case
  proof (cases c)
    case (Some v)
    then show ?thesis using res r Cons.prems(1) by (auto simp: dfs_result_def)
  next
    case None
    then have inv: "dfs_inv ?E st'" and grey: "same_grey st st'" and fin: "st' ! i = 2"
      using res by (auto simp: dfs_result_def)
    have "(i, i) \<notin> ?E\<^sup>+" using inv fin by (auto simp: dfs_inv_def)
    moreover have "\<forall>i < length es. st' ! i \<noteq> 1"
      using grey Cons.prems by (auto simp: same_grey_def)
    ultimately show ?thesis
      using Cons.IH [OF len _ inv] Cons.prems(2) r None by auto
  qed
qed

text \<open>The links on ids, and their acyclicity.\<close>

definition after_links :: "entry list \<Rightarrow> (string \<times> string) set" where
  "after_links es = {(e_id e, l) | e l. e \<in> set es \<and> l \<in> set (e_after e)}"

lemma link_graph_edge:
  assumes "distinct (map e_id es)"
  shows "(i, j) \<in> link_graph es (live_index es) \<longleftrightarrow>
    i < length es \<and> j < length es \<and> e_id (es ! j) \<in> set (e_after (es ! i))"
  by (auto simp: link_graph_def live_index_Some [OF assms])

lemma link_graph_links:
  assumes d: "distinct (map e_id es)"
  shows "(i, j) \<in> (link_graph es (live_index es))\<^sup>+ \<Longrightarrow>
    (e_id (es ! i), e_id (es ! j)) \<in> (after_links es)\<^sup>+"
proof (induction rule: trancl_induct)
  case (base j)
  then have "(e_id (es ! i), e_id (es ! j)) \<in> after_links es"
    by (auto simp: link_graph_edge [OF d] after_links_def)
  then show ?case by (rule r_into_trancl)
next
  case (step j k)
  then have "(e_id (es ! j), e_id (es ! k)) \<in> after_links es"
    by (auto simp: link_graph_edge [OF d] after_links_def)
  with step.IH show ?case by (rule trancl_into_trancl)
qed

lemma id_index_unique:
  "distinct (map e_id es) \<Longrightarrow> i < length es \<Longrightarrow> j < length es \<Longrightarrow>
     e_id (es ! i) = e_id (es ! j) \<Longrightarrow> i = j"
  by (metis length_map nth_eq_iff_index_eq nth_map)

lemma links_link_graph:
  assumes d: "distinct (map e_id es)"
  shows "(x, y) \<in> (after_links es)\<^sup>+ \<Longrightarrow> j < length es \<Longrightarrow> e_id (es ! j) = y \<Longrightarrow>
    \<exists>i < length es. e_id (es ! i) = x \<and> (i, j) \<in> (link_graph es (live_index es))\<^sup>+"
proof (induction arbitrary: j rule: trancl_induct)
  case (base y)
  then obtain e where e: "e \<in> set es" "x = e_id e" "y \<in> set (e_after e)"
    by (auto simp: after_links_def)
  then obtain i where i: "i < length es" "e = es ! i" by (auto simp: in_set_conv_nth)
  with e base.prems have "(i, j) \<in> link_graph es (live_index es)"
    by (auto simp: link_graph_edge [OF d])
  with i e show ?case by (blast intro: r_into_trancl)
next
  case (step y z)
  then obtain e where e: "e \<in> set es" "y = e_id e" "z \<in> set (e_after e)"
    by (auto simp: after_links_def)
  then obtain k where k: "k < length es" "e = es ! k" by (auto simp: in_set_conv_nth)
  with e step.prems have edge: "(k, j) \<in> link_graph es (live_index es)"
    by (auto simp: link_graph_edge [OF d])
  obtain i where "i < length es" "e_id (es ! i) = x" "(i, k) \<in> (link_graph es (live_index es))\<^sup>+"
    using step.IH [OF k(1)] e k by auto
  with edge show ?case by (blast intro: trancl_into_trancl)
qed

lemma acyclic_link_graph:
  assumes d: "distinct (map e_id es)"
  shows "acyclic (after_links es) \<longleftrightarrow>
    (\<forall>i < length es. (i, i) \<notin> (link_graph es (live_index es))\<^sup>+)"
proof
  assume "acyclic (after_links es)"
  then show "\<forall>i < length es. (i, i) \<notin> (link_graph es (live_index es))\<^sup>+"
    by (auto simp: acyclic_def dest: link_graph_links [OF d])
next
  assume none: "\<forall>i < length es. (i, i) \<notin> (link_graph es (live_index es))\<^sup>+"
  show "acyclic (after_links es)"
    unfolding acyclic_def
  proof (intro allI notI)
    fix x
    assume loop: "(x, x) \<in> (after_links es)\<^sup>+"
    then obtain y where "(x, y) \<in> after_links es" by (meson converse_tranclE)
    then obtain j where j: "j < length es" "e_id (es ! j) = x"
      by (auto simp: after_links_def in_set_conv_nth)
    then obtain i where i: "i < length es" "e_id (es ! i) = x"
        "(i, j) \<in> (link_graph es (live_index es))\<^sup>+"
      using links_link_graph [OF d loop] by blast
    then have "i = j" using j id_index_unique [OF d] by simp
    with i none show False by auto
  qed
qed

lemma live_ok_live_index: "live_ok es (live_index es)"
  by (auto simp: live_ok_def dest: live_index_range)

lemma dfs_inv_start: "dfs_inv (link_graph es live) (replicate (length es) 0)" if "live_ok es live"
proof -
  have dom: "i < length es" if "(i, j) \<in> (link_graph es live)\<^sup>+" for i j
    using that by (auto elim!: converse_tranclE simp: link_graph_def)
  have edge: "i < length es" if "(i, j) \<in> link_graph es live" for i j
    using that by (simp add: link_graph_def)
  show ?thesis unfolding dfs_inv_def using dom edge by fastforce
qed

lemma dfs_all_cases:
  "(\<exists>v < length es. dfs_all es (live_index es) [0..<length es] (replicate (length es) 0) = Some (Some v)
      \<and> (v, v) \<in> (link_graph es (live_index es))\<^sup>+) \<or>
   (dfs_all es (live_index es) [0..<length es] (replicate (length es) 0) = Some None
      \<and> (\<forall>i < length es. (i, i) \<notin> (link_graph es (live_index es))\<^sup>+))"
  using dfs_all_result [OF live_ok_live_index, of "replicate (length es) 0" es "[0..<length es]"]
    dfs_inv_start [OF live_ok_live_index, of es]
  by (auto simp: atLeast0LessThan)

lemma check_cycle_ok [check_simps]:
  "distinct (map e_id es) \<Longrightarrow> check_cycle es = Inr () \<longleftrightarrow> acyclic (after_links es)"
  using dfs_all_cases [of es] by (auto simp: check_cycle_def acyclic_link_graph)

lemma check_cycle_refusal:
  assumes "distinct (map e_id es)" "check_cycle es = Inl r"
  shows "\<exists>i. r = LinkCycle i \<and> (i, i) \<in> (after_links es)\<^sup>+"
  using dfs_all_cases [of es] assms(2)
  by (auto simp: check_cycle_def dest: link_graph_links [OF assms(1)])

section \<open>The invariant\<close>

text \<open>The writer invariants 1 to 5 of a queue file against its archive.\<close>

definition links_resolve :: "queue_toml \<Rightarrow> queue_archive_toml \<Rightarrow> bool" where
  "links_resolve q ar \<longleftrightarrow>
     (\<forall>e \<in> set (q_entries q). set (e_after e) \<subseteq> e_id ` set (q_entries q) \<union> done_ids ar)"

definition projects_exist :: "queue_toml \<Rightarrow> bool" where
  "projects_exist q \<longleftrightarrow> (\<forall>e \<in> set (q_entries q). e_project e \<in> p_name ` set (q_projects q))"

definition queue_ok :: "queue_toml \<Rightarrow> queue_archive_toml \<Rightarrow> bool" where
  "queue_ok q ar \<longleftrightarrow>
     restacks_urgent (q_entries q) \<and> lanes_ordered (q_entries q) \<and>
     distinct (queue_ids q ar) \<and>
     links_resolve q ar \<and> acyclic (after_links (q_entries q)) \<and>
     projects_exist q \<and> distinct (held_repos (repo_map (q_projects q)) (q_entries q))"

lemma repo_map_dom: "repo_map ps n \<noteq> None \<longleftrightarrow> n \<in> p_name ` set ps"
  by (simp add: repo_map_def map_of_eq_None_iff image_image)

lemma links_resolve_check:
  "links_resolve q ar \<longleftrightarrow>
     (\<forall>l \<in> set (concat (map e_after (q_entries q))).
        live_index (q_entries q) l \<noteq> None \<or> l \<in> done_ids ar)"
  unfolding links_resolve_def live_index_dom by auto

lemma distinct_queue_ids: "distinct (queue_ids q ar) \<Longrightarrow> distinct (map e_id (q_entries q))"
  by (simp add: queue_ids_def)

lemma validate_ok: "validate q ar = Inr () \<longleftrightarrow> queue_ok q ar"
proof (cases "distinct (queue_ids q ar)")
  case True
  then have ids: "distinct (map e_id (q_entries q))" by (rule distinct_queue_ids)
  show ?thesis
    unfolding validate_def queue_ok_def projects_exist_def repo_map_dom [symmetric]
    by (auto simp: res_simps check_simps ids links_resolve_check)
next
  case False
  then show ?thesis by (auto simp: validate_def queue_ok_def res_simps check_simps)
qed

section \<open>What a refusal says\<close>

lemma check_lanes_refusal:
  "check_lanes seen es = Inl r \<Longrightarrow>
     \<exists>pre e post. es = pre @ e # post \<and> r = LaneMismatch (e_id e) \<and>
       (e_kind e = Restack \<and> e_lane e \<noteq> Urgent \<or>
        e_lane e = Urgent \<and> (seen \<or> (\<exists>x \<in> set pre. e_lane x = Normal)))"
proof (induction es arbitrary: seen)
  case Nil
  then show ?case by simp
next
  case (Cons e es)
  show ?case
  proof (cases "e_kind e = Restack \<and> e_lane e \<noteq> Urgent \<or> e_lane e = Urgent \<and> seen")
    case True
    then have "r = LaneMismatch (e_id e)" using Cons.prems by (auto split: if_splits)
    then show ?thesis using True by (intro exI [of _ "[]"] exI [of _ e] exI [of _ es]) auto
  next
    case False
    then have "check_lanes (seen \<or> e_lane e = Normal) es = Inl r"
      using Cons.prems by (auto split: if_splits)
    then obtain pre x post where "es = pre @ x # post" "r = LaneMismatch (e_id x)"
        "e_kind x = Restack \<and> e_lane x \<noteq> Urgent \<or>
         e_lane x = Urgent \<and> ((seen \<or> e_lane e = Normal) \<or> (\<exists>y \<in> set pre. e_lane y = Normal))"
      using Cons.IH by blast
    then show ?thesis by (intro exI [of _ "e # pre"] exI [of _ x] exI [of _ post]) auto
  qed
qed

lemma check_unique_refusal:
  "check_unique seen is = Inl r \<Longrightarrow>
     \<exists>pre i post. is = pre @ i # post \<and> r = Exists i \<and> (i \<in> seen \<or> i \<in> set pre)"
proof (induction "is" arbitrary: seen)
  case Nil
  then show ?case by simp
next
  case (Cons i "is")
  show ?case
  proof (cases "i \<in> seen")
    case True
    then show ?thesis using Cons.prems by (intro exI [of _ "[]"] exI [of _ i] exI [of _ "is"]) auto
  next
    case False
    then obtain pre j post where "is = pre @ j # post" "r = Exists j"
        "j \<in> insert i seen \<or> j \<in> set pre"
      using Cons by (auto split: if_splits) blast
    then show ?thesis by (intro exI [of _ "i # pre"] exI [of _ j] exI [of _ post]) auto
  qed
qed

lemma check_links_refusal:
  "check_links live dn ls = Inl r \<Longrightarrow> \<exists>l \<in> set ls. r = UnknownId l \<and> live l = None \<and> l \<notin> dn"
  by (induction ls) (auto split: if_splits)

lemma check_repos_refusal:
  "check_repos repo_of started es = Inl r \<Longrightarrow>
     (\<exists>e \<in> set es. r = UnknownProject (e_project e) \<and> repo_of (e_project e) = None) \<or>
     (\<exists>pre e post repo. es = pre @ e # post \<and> r = Started (e_id e) \<and> holds_repo e \<and>
        repo_of (e_project e) = Some repo \<and>
        (started repo \<noteq> None \<or> (\<exists>x \<in> set pre. holds_repo x \<and> repo_of (e_project x) = Some repo)))"
proof (induction es arbitrary: started)
  case Nil
  then show ?case by simp
next
  case (Cons e es)
  show ?case
  proof (cases "repo_of (e_project e)")
    case None
    then show ?thesis using Cons.prems by auto
  next
    case (Some repo)
    show ?thesis
    proof (cases "holds_repo e \<and> started repo \<noteq> None")
      case True
      then have "r = Started (e_id e)" using Some Cons.prems by (auto simp: holds_repo_def)
      then show ?thesis using True Some
        by (intro disjI2 exI [of _ "[]"] exI [of _ e] exI [of _ es] exI [of _ repo]) auto
    next
      case False
      define started' where "started' = (if holds_repo e then started(repo \<mapsto> e_id e) else started)"
      have "check_repos repo_of started' es = Inl r"
        using Cons.prems Some False
        by (auto simp: started'_def holds_repo_def split: if_splits)
      from Cons.IH [OF this] consider
          (project) "\<exists>x \<in> set es. r = UnknownProject (e_project x) \<and> repo_of (e_project x) = None"
        | (held) pre x post rp where "es = pre @ x # post" "r = Started (e_id x)" "holds_repo x"
            "repo_of (e_project x) = Some rp"
            "started' rp \<noteq> None \<or> (\<exists>y \<in> set pre. holds_repo y \<and> repo_of (e_project y) = Some rp)"
        by blast
      then show ?thesis
      proof cases
        case project
        then show ?thesis by auto
      next
        case held
        then show ?thesis using Some
          by (intro disjI2 exI [of _ "e # pre"] exI [of _ x] exI [of _ post] exI [of _ rp])
            (auto simp: started'_def split: if_splits)
      qed
    qed
  qed
qed

text \<open>The violation that each refusal of the file check stands for.\<close>

fun refusal_justified :: "queue_toml \<Rightarrow> queue_archive_toml \<Rightarrow> queue_refusal \<Rightarrow> bool" where
  "refusal_justified q ar (LaneMismatch i) =
     (\<exists>pre e post. q_entries q = pre @ e # post \<and> e_id e = i \<and>
        (e_kind e = Restack \<and> e_lane e \<noteq> Urgent \<or>
         e_lane e = Urgent \<and> (\<exists>x \<in> set pre. e_lane x = Normal)))"
| "refusal_justified q ar (Exists i) =
     (\<exists>pre post. queue_ids q ar = pre @ i # post \<and> i \<in> set pre)"
| "refusal_justified q ar (UnknownId l) =
     ((\<exists>e \<in> set (q_entries q). l \<in> set (e_after e)) \<and>
      l \<notin> e_id ` set (q_entries q) \<and> l \<notin> done_ids ar)"
| "refusal_justified q ar (LinkCycle i) = ((i, i) \<in> (after_links (q_entries q))\<^sup>+)"
| "refusal_justified q ar (UnknownProject p) =
     ((\<exists>e \<in> set (q_entries q). e_project e = p) \<and> p \<notin> p_name ` set (q_projects q))"
| "refusal_justified q ar (Started i) =
     (\<exists>pre e post x. q_entries q = pre @ e # post \<and> e_id e = i \<and> x \<in> set pre \<and>
        holds_repo e \<and> holds_repo x \<and>
        repo_map (q_projects q) (e_project x) = repo_map (q_projects q) (e_project e))"
| "refusal_justified q ar _ = False"

lemma validate_refusal_justified:
  assumes "validate q ar = Inl r"
  shows "refusal_justified q ar r"
proof -
  consider (lanes) "check_lanes False (q_entries q) = Inl r"
    | (unique) "check_unique {} (queue_ids q ar) = Inl r"
    | (links) "check_links (live_index (q_entries q)) (done_ids ar)
        (concat (map e_after (q_entries q))) = Inl r"
    | (cycle) "distinct (queue_ids q ar)" "check_cycle (q_entries q) = Inl r"
    | (repos) "check_repos (repo_map (q_projects q)) Map.empty (q_entries q) = Inl r"
    using assms by (auto simp: validate_def res_simps check_simps)
  then show ?thesis
  proof cases
    case lanes
    then show ?thesis by (auto dest!: check_lanes_refusal) blast+
  next
    case unique
    then show ?thesis by (auto dest!: check_unique_refusal) blast
  next
    case links
    then obtain l where l: "l \<in> set (concat (map e_after (q_entries q)))" "r = UnknownId l"
        "live_index (q_entries q) l = None" "l \<notin> done_ids ar"
      by (auto dest!: check_links_refusal)
    have "l \<notin> set (map e_id (q_entries q))"
      using l(3) live_index_dom [of "q_entries q" l] by simp
    with l show ?thesis by auto
  next
    case cycle
    then show ?thesis using check_cycle_refusal [OF distinct_queue_ids] by fastforce
  next
    case repos
    then consider e where "e \<in> set (q_entries q)" "r = UnknownProject (e_project e)"
        "repo_map (q_projects q) (e_project e) = None"
      | pre e post x where "q_entries q = pre @ e # post" "r = Started (e_id e)" "holds_repo e"
        "x \<in> set pre" "holds_repo x"
        "repo_map (q_projects q) (e_project x) = repo_map (q_projects q) (e_project e)"
      by (auto dest!: check_repos_refusal)
    then show ?thesis
    proof cases
      case 1
      then show ?thesis using repo_map_dom [of "q_projects q" "e_project e"] by auto
    next
      case 2
      then show ?thesis unfolding 2(2) refusal_justified.simps by blast
    qed
  qed
qed

text \<open>
  C5. The file check accepts a queue and its archive exactly when the five file invariants
  hold: urgent rows first and restacks urgent, ids unique over both files, every link resolves
  to a live or a done-archived row, the links have no cycle, every project exists, and at most
  one normal-lane row per repo is active or paused. When it refuses, the refusal names a real
  violation: the row that is out of lane, the id that occurs twice, the link that resolves to
  nothing, an id on a link cycle, the missing project, or the second started row of a repo.
\<close>

theorem validate_verdict:
  "case validate q ar of
     Inr _ \<Rightarrow> queue_ok q ar
   | Inl r \<Rightarrow> \<not> queue_ok q ar \<and> refusal_justified q ar r"
  using validate_ok [of q ar] validate_refusal_justified [of q ar]
  by (auto split: sum.splits)

section \<open>The slices invariant\<close>

definition item_shape_ok :: "slice_item \<Rightarrow> bool" where
  "item_shape_ok it \<longleftrightarrow> (i_kind it = Slice \<longleftrightarrow> i_follow_ups it \<noteq> None)"

definition slices_ok :: "slices_toml \<Rightarrow> string \<Rightarrow> bool" where
  "slices_ok s expected \<longleftrightarrow>
     s_milestone s = expected \<and> distinct (map i_id (s_items s)) \<and> list_all item_shape_ok (s_items s)"

lemma check_items_seen:
  "check_items seen its = Inr () \<longleftrightarrow>
     distinct (map i_id its) \<and> i_id ` set its \<inter> seen = {} \<and> list_all item_shape_ok its"
proof (induction its arbitrary: seen)
  case Nil
  then show ?case by simp
next
  case (Cons it its)
  show ?case
    by (cases "i_kind it"; cases "i_follow_ups it")
      (auto simp: Cons.IH item_shape_ok_def)
qed

lemma slices_validate_ok: "slices_validate s expected = Inr () \<longleftrightarrow> slices_ok s expected"
  by (auto simp: slices_validate_def slices_ok_def check_items_seen)

fun item_refusal_justified :: "slices_toml \<Rightarrow> string \<Rightarrow> queue_refusal \<Rightarrow> bool" where
  "item_refusal_justified s expected (MilestoneMismatch found ex) =
     (found = s_milestone s \<and> ex = expected \<and> found \<noteq> expected)"
| "item_refusal_justified s expected (Exists i) =
     (\<exists>pre it post. s_items s = pre @ it # post \<and> i_id it = i \<and> i \<in> i_id ` set pre)"
| "item_refusal_justified s expected (InvalidItemShape i) =
     (\<exists>it \<in> set (s_items s). i_id it = i \<and> \<not> item_shape_ok it)"
| "item_refusal_justified s expected _ = False"

lemma check_items_refusal:
  "check_items seen its = Inl r \<Longrightarrow>
     (\<exists>pre it post. its = pre @ it # post \<and> r = Exists (i_id it) \<and>
        (i_id it \<in> seen \<or> i_id it \<in> i_id ` set pre)) \<or>
     (\<exists>it \<in> set its. r = InvalidItemShape (i_id it) \<and> \<not> item_shape_ok it)"
proof (induction its arbitrary: seen)
  case Nil
  then show ?case by simp
next
  case (Cons it its)
  show ?case
  proof (cases "i_id it \<in> seen \<or> \<not> item_shape_ok it")
    case True
    then show ?thesis
    proof (cases "i_id it \<in> seen")
      case True
      then have "r = Exists (i_id it)" using Cons.prems by simp
      with True show ?thesis by (intro disjI1 exI [of _ "[]"] exI [of _ it] exI [of _ its]) simp
    next
      case False
      with True have "\<not> item_shape_ok it" by simp
      moreover from this False have "r = InvalidItemShape (i_id it)"
        using Cons.prems
        by (cases "i_kind it"; cases "i_follow_ups it") (simp_all add: item_shape_ok_def)
      ultimately show ?thesis by auto
    qed
  next
    case False
    then have "check_items (insert (i_id it) seen) its = Inl r"
      using Cons.prems
      by (cases "i_kind it"; cases "i_follow_ups it") (simp_all add: item_shape_ok_def)
    from Cons.IH [OF this] show ?thesis
    proof
      assume "\<exists>pre x post. its = pre @ x # post \<and> r = Exists (i_id x) \<and>
        (i_id x \<in> insert (i_id it) seen \<or> i_id x \<in> i_id ` set pre)"
      then obtain pre x post where "its = pre @ x # post" "r = Exists (i_id x)"
          "i_id x \<in> insert (i_id it) seen \<or> i_id x \<in> i_id ` set pre" by blast
      then show ?thesis
        by (intro disjI1 exI [of _ "it # pre"] exI [of _ x] exI [of _ post]) auto
    qed auto
  qed
qed

text \<open>
  The check of a slices file accepts it exactly when it names the folder it was read from,
  its item ids are unique, and follow-up counters sit on slice rows and on no sub row; its
  refusal names the folder mismatch, the id that occurs twice or the row of the wrong shape.
\<close>

lemma slices_validate_verdict:
  "case slices_validate s expected of
     Inr _ \<Rightarrow> slices_ok s expected
   | Inl r \<Rightarrow> \<not> slices_ok s expected \<and> item_refusal_justified s expected r"
proof (cases "slices_validate s expected")
  case (Inr u)
  then show ?thesis using slices_validate_ok [of s expected] by simp
next
  case (Inl r)
  then have "\<not> slices_ok s expected" using slices_validate_ok [of s expected] by auto
  moreover have "item_refusal_justified s expected r"
  proof (cases "s_milestone s = expected")
    case True
    then have "check_items {} (s_items s) = Inl r" using Inl by (simp add: slices_validate_def)
    then show ?thesis by (auto dest!: check_items_refusal) blast
  next
    case False
    then show ?thesis using Inl by (auto simp: slices_validate_def)
  qed
  ultimately show ?thesis by (simp add: Inl)
qed

end
