(* ===== verification/Text_Lib.thy ===== *)
theory Text_Lib
  imports Prelude "HOL-Library.Char_ord" "HOL-Library.List_Lexorder"
begin

text \<open>
  More of the text functions the code takes from the standard library: lines, words, the
  first occurrence of a separator, substring search and ASCII case folding, with the lemmas
  the parsers of the repository rest on. Strings are UTF-8 byte lists; only the ASCII white
  space characters count as space.
\<close>

section \<open>Lines and words\<close>

definition newline :: char where
  "newline = CHR 0x0A"

definition strip_cr :: "string \<Rightarrow> string" where
  "strip_cr s = (if s \<noteq> [] \<and> last s = CHR 0x0D then butlast s else s)"

text \<open>
  \<^verbatim>\<open>str::lines\<close>: a line ends with a line feed or a carriage return and a line feed; a final
  line without one keeps its carriage return, and an empty one does not count.
\<close>

definition text_lines :: "string \<Rightarrow> string list" where
  "text_lines s =
     (let ws = split_on newline s
      in map strip_cr (butlast ws) @ (if last ws = [] then [] else [last ws]))"

text \<open>\<^verbatim>\<open>split_whitespace\<close>: the maximal runs of other characters; \<open>acc\<close> is the run so far.\<close>

fun words_from :: "string \<Rightarrow> string \<Rightarrow> string list" where
  "words_from acc [] = (if acc = [] then [] else [rev acc])"
| "words_from acc (c # cs) =
     (if is_space c then (if acc = [] then words_from [] cs else rev acc # words_from [] cs)
      else words_from (c # acc) cs)"

definition split_whitespace :: "string \<Rightarrow> string list" where
  "split_whitespace s = words_from [] s"

lemma words_from_word:
  "list_all (\<lambda>c. \<not> is_space c) w \<Longrightarrow> words_from acc (w @ s) = words_from (rev w @ acc) s"
  by (induction w arbitrary: acc) auto

lemma split_whitespace_word:
  "w \<noteq> [] \<Longrightarrow> list_all (\<lambda>c. \<not> is_space c) w \<Longrightarrow> split_whitespace w = [w]"
  using words_from_word [of w "[]" "[]"] by (simp add: split_whitespace_def)

lemma split_whitespace_cons:
  "w \<noteq> [] \<Longrightarrow> list_all (\<lambda>c. \<not> is_space c) w \<Longrightarrow>
     split_whitespace (w @ CHR '' '' # s) = w # split_whitespace s"
  using words_from_word [of w "[]" "CHR '' '' # s"] by (simp add: split_whitespace_def is_space_def)

lemma words_from_no_space:
  "list_all (\<lambda>c. \<not> is_space c) acc \<Longrightarrow>
     list_all (\<lambda>w. w \<noteq> [] \<and> list_all (\<lambda>c. \<not> is_space c) w) (words_from acc s)"
proof (induction acc s rule: words_from.induct)
  case (1 acc)
  then show ?case by (simp add: list_all_rev)
next
  case (2 acc c cs)
  then show ?case by (cases "is_space c"; cases "acc = []") (simp_all add: list_all_rev)
qed

lemma split_whitespace_no_space:
  "w \<in> set (split_whitespace s) \<Longrightarrow> w \<noteq> [] \<and> list_all (\<lambda>c. \<not> is_space c) w"
  using words_from_no_space [of "[]" s] by (simp add: split_whitespace_def list_all_iff)

section \<open>Separators and substrings\<close>

fun split_once :: "char \<Rightarrow> string \<Rightarrow> (string \<times> string) option" where
  "split_once c [] = None"
| "split_once c (x # xs) =
     (if x = c then Some ([], xs)
      else map_option (\<lambda>(a, b). (x # a, b)) (split_once c xs))"

lemma split_once_None: "split_once c s = None \<longleftrightarrow> c \<notin> set s"
  by (induction s) auto

lemma split_once_Some:
  "split_once c s = Some (a, b) \<longleftrightarrow> s = a @ c # b \<and> c \<notin> set a"
proof (induction s arbitrary: a)
  case Nil
  then show ?case by simp
next
  case (Cons x xs)
  then show ?case by (cases a) auto
qed

fun contains_str :: "string \<Rightarrow> string \<Rightarrow> bool" where
  "contains_str needle [] = (needle = [])"
| "contains_str needle (x # xs) = (starts_with needle (x # xs) \<or> contains_str needle xs)"

definition strip_suffix :: "string \<Rightarrow> string \<Rightarrow> string option" where
  "strip_suffix suf s =
     (if ends_with suf s then Some (take (length s - length suf) s) else None)"

lemma ends_with_conv: "ends_with suf s \<longleftrightarrow> (\<exists>t. s = t @ suf)"
  by (metis ends_with_def rev_append rev_rev_ident starts_with_conv)

lemma strip_suffix_Some: "strip_suffix suf s = Some t \<longleftrightarrow> s = t @ suf"
  by (auto simp: strip_suffix_def ends_with_conv)

lemma strip_suffix_None: "strip_suffix suf s = None \<longleftrightarrow> (\<nexists>t. s = t @ suf)"
  by (auto simp: strip_suffix_def ends_with_conv)

lemma strip_prefix_None: "strip_prefix pre s = None \<longleftrightarrow> (\<nexists>t. s = pre @ t)"
  by (auto simp: strip_prefix_def starts_with_conv)

text \<open>\<^verbatim>\<open>{:0>3}\<close>: pad on the left with zeros to three characters.\<close>

definition pad_03 :: "string \<Rightarrow> string" where
  "pad_03 s = replicate (3 - length s) (CHR ''0'') @ s"

section \<open>ASCII case\<close>

definition is_upper :: "char \<Rightarrow> bool" where
  "is_upper c \<longleftrightarrow> 65 \<le> (of_char c :: nat) \<and> (of_char c :: nat) \<le> 90"

definition is_lower :: "char \<Rightarrow> bool" where
  "is_lower c \<longleftrightarrow> 97 \<le> (of_char c :: nat) \<and> (of_char c :: nat) \<le> 122"

definition lower_char :: "char \<Rightarrow> char" where
  "lower_char c = (if is_upper c then char_of ((of_char c :: nat) + 32) else c)"

definition ascii_lower :: "string \<Rightarrow> string" where
  "ascii_lower s = map lower_char s"

definition upper_char :: "char \<Rightarrow> char" where
  "upper_char c = (if is_lower c then char_of ((of_char c :: nat) - 32) else c)"

definition eq_ignore_case :: "string \<Rightarrow> string \<Rightarrow> bool" where
  "eq_ignore_case a b \<longleftrightarrow> ascii_lower a = ascii_lower b"

lemma not_upper_lower_char: "\<not> is_upper (lower_char c)"
proof (cases "is_upper c")
  case True
  then have "(of_char c :: nat) + 32 < 256" by (simp add: is_upper_def)
  with True show ?thesis by (simp add: lower_char_def is_upper_def)
qed (simp add: lower_char_def)

lemma ascii_lower_id: "list_all (\<lambda>c. \<not> is_upper c) s \<Longrightarrow> ascii_lower s = s"
  by (induction s) (auto simp: ascii_lower_def lower_char_def)

lemma ascii_lower_idem [simp]: "ascii_lower (ascii_lower s) = ascii_lower s"
  by (rule ascii_lower_id) (simp add: ascii_lower_def list_all_iff not_upper_lower_char)

lemma ascii_lower_append: "ascii_lower (a @ b) = ascii_lower a @ ascii_lower b"
  by (simp add: ascii_lower_def)

lemma length_ascii_lower [simp]: "length (ascii_lower s) = length s"
  by (simp add: ascii_lower_def)

lemma eq_ignore_case_refl [simp]: "eq_ignore_case a a"
  by (simp add: eq_ignore_case_def)

lemma lower_char_eq:
  assumes "\<not> is_upper x" "\<not> is_lower x"
  shows "lower_char c = x \<longleftrightarrow> c = x"
proof (cases "is_upper c")
  case True
  then have "(of_char c :: nat) + 32 < 256" by (simp add: is_upper_def)
  with True have "is_lower (lower_char c)" by (simp add: lower_char_def is_upper_def is_lower_def)
  with True assms show ?thesis by auto
next
  case False
  then show ?thesis by (simp add: lower_char_def)
qed

lemma ascii_lower_mem:
  "\<not> is_upper x \<Longrightarrow> \<not> is_lower x \<Longrightarrow> x \<in> set (ascii_lower s) \<longleftrightarrow> x \<in> set s"
  using lower_char_eq [of x] by (auto simp: ascii_lower_def image_iff) metis+

end
