(* ===== verification/Item_Meta.thy ===== *)
theory Item_Meta
  imports Text_Lib
begin

text \<open>
  The metadata lines of an item document (\<^verbatim>\<open>crates/softfig-ipc/src/item_meta.rs\<close>): the
  shape of a line, the resolver's read (the first line of a key outside fenced code), the
  guard's read (every line of a set of keys, fenced or not) and the test for a document whose
  metadata the redacted view may hide. The lemmas show that the guard sees every line a
  resolver can read, and that a line written at the head of a document reads back.
\<close>

section \<open>Keys\<close>

definition meta_model :: string where "meta_model = ''model''"

definition meta_fleet :: string where "meta_fleet = ''fleet''"

definition meta_grants :: string where "meta_grants = ''grants''"

definition meta_worktree :: string where "meta_worktree = ''worktree''"

definition meta_not_before :: string where "meta_not_before = ''not before''"

section \<open>The line shape\<close>

definition metadata_line :: "string \<Rightarrow> (string \<times> string) option" where
  "metadata_line line =
     (case strip_prefix ''>'' (trim_start line) of
        None \<Rightarrow> None
      | Some rest \<Rightarrow>
          (case split_once (CHR '':'') (trim rest) of
             None \<Rightarrow> None
           | Some (key, value) \<Rightarrow> Some (trim key, trim value)))"

text \<open>A fence is three backquotes (byte 0x60) or three tildes.\<close>

definition is_fence :: "string \<Rightarrow> bool" where
  "is_fence line =
     (let trimmed = trim_start line
      in starts_with [CHR 0x60, CHR 0x60, CHR 0x60] trimmed \<or> starts_with ''~~~'' trimmed)"

section \<open>The resolver's read\<close>

fun field_in :: "bool \<Rightarrow> string \<Rightarrow> string list \<Rightarrow> string option" where
  "field_in fenced key [] = None"
| "field_in fenced key (line # lines) =
     (if is_fence line then field_in (\<not> fenced) key lines
      else if fenced then field_in fenced key lines
      else (case metadata_line line of
              Some (k, value) \<Rightarrow>
                if eq_ignore_case k key then Some value else field_in fenced key lines
            | None \<Rightarrow> field_in fenced key lines))"

definition field :: "string \<Rightarrow> string \<Rightarrow> string option" where
  "field doc key = field_in False key (text_lines doc)"

section \<open>The guard's read\<close>

definition reserved_key :: "string list \<Rightarrow> string \<Rightarrow> string option" where
  "reserved_key keys line =
     (case metadata_line line of
        None \<Rightarrow> None
      | Some (key, _) \<Rightarrow> find (eq_ignore_case key) keys)"

definition reserved_field :: "string \<Rightarrow> string list \<Rightarrow> string option" where
  "reserved_field text keys = find_map (reserved_key keys) (text_lines text)"

definition reserved_lines :: "string \<Rightarrow> string list \<Rightarrow> string list" where
  "reserved_lines text keys =
     map trim (filter (\<lambda>line. reserved_field line keys \<noteq> None) (text_lines text))"

section \<open>Documents whose metadata cannot be read\<close>

datatype unreadable_reason = WholeFileSealed | VaultTagsMalformed | SealedRegion

definition unreadable_metadata :: "string \<Rightarrow> unreadable_reason option" where
  "unreadable_metadata doc =
     (let first = (case text_lines doc of [] \<Rightarrow> [] | l # _ \<Rightarrow> l)
      in if starts_with ''[sealed:'' first \<and> ends_with '']'' first then Some WholeFileSealed
         else if starts_with ''[malformed vault tag in '' first then Some VaultTagsMalformed
         else if contains_str ''[encrypted]</vault>'' doc then Some SealedRegion
         else None)"

definition display_key :: "string \<Rightarrow> string" where
  "display_key key = (case key of [] \<Rightarrow> [] | c # cs \<Rightarrow> upper_char c # cs)"

section \<open>Lemmas\<close>

lemma newline_strip_cr: "newline \<notin> set w \<Longrightarrow> newline \<notin> set (strip_cr w)"
  by (auto simp: strip_cr_def dest: in_set_butlastD)

lemma text_lines_no_newline:
  assumes "l \<in> set (text_lines s)"
  shows "newline \<notin> set l"
proof -
  let ?ws = "split_on newline s"
  have "\<exists>w \<in> set ?ws. l = w \<or> l = strip_cr w"
    using assms last_in_set [OF split_on_not_Nil [of newline s]]
    by (auto simp: text_lines_def Let_def dest: in_set_butlastD split: if_splits)
  then show ?thesis using split_on_no_sep newline_strip_cr by blast
qed

lemma text_lines_single: "newline \<notin> set l \<Longrightarrow> text_lines l = (if l = [] then [] else [l])"
  by (simp add: text_lines_def Let_def split_on_word)

lemma text_lines_cons:
  "newline \<notin> set l \<Longrightarrow> text_lines (l @ newline # s) = strip_cr l # text_lines s"
  by (simp add: text_lines_def Let_def split_on_append)

lemma metadata_line_Nil [simp]: "metadata_line [] = None"
  by (simp add: metadata_line_def trim_start_def strip_prefix_def starts_with_def)

lemma reserved_field_line:
  "newline \<notin> set l \<Longrightarrow> reserved_field l keys = reserved_key keys l"
  by (auto simp: reserved_field_def text_lines_single reserved_key_def split: option.splits)

lemma field_in_line:
  "field_in fenced key ls = Some v \<Longrightarrow>
     \<exists>l k. l \<in> set ls \<and> metadata_line l = Some (k, v) \<and> eq_ignore_case k key"
proof (induction ls arbitrary: fenced)
  case Nil
  then show ?case by simp
next
  case (Cons line ls)
  show ?case
  proof (cases "\<exists>f. field_in f key ls = Some v")
    case True
    then show ?thesis using Cons.IH by (meson list.set_intros(2))
  next
    case False
    then have "metadata_line line \<noteq> None \<and>
        (\<exists>k. metadata_line line = Some (k, v) \<and> eq_ignore_case k key)"
      using Cons.prems by (simp split: if_splits option.splits prod.splits)
    then show ?thesis by auto
  qed
qed

lemma find_eq_ignore_case:
  "eq_ignore_case k key \<Longrightarrow> key \<in> set keys \<Longrightarrow> find (eq_ignore_case k) keys \<noteq> None"
  by (auto simp: find_None_iff)

lemma field_reserved_line:
  assumes "field doc key = Some v" "key \<in> set keys"
  shows "\<exists>l k. l \<in> set (text_lines doc) \<and> metadata_line l = Some (k, v) \<and>
    eq_ignore_case k key \<and> reserved_key keys l \<noteq> None"
proof -
  obtain l k where l: "l \<in> set (text_lines doc)" "metadata_line l = Some (k, v)"
      "eq_ignore_case k key"
    using field_in_line assms(1) unfolding field_def by blast
  with assms(2) have "reserved_key keys l \<noteq> None"
    using find_eq_ignore_case by (simp add: reserved_key_def)
  with l show ?thesis by blast
qed

lemma reserved_lines_iff:
  "reserved_lines text keys = [] \<longleftrightarrow> reserved_field text keys = None"
proof -
  have "reserved_lines text keys = [] \<longleftrightarrow>
      (\<forall>l \<in> set (text_lines text). reserved_field l keys = None)"
    by (auto simp: reserved_lines_def filter_empty_conv)
  also have "\<dots> \<longleftrightarrow> (\<forall>l \<in> set (text_lines text). reserved_key keys l = None)"
    using text_lines_no_newline by (simp add: reserved_field_line)
  also have "\<dots> \<longleftrightarrow> reserved_field text keys = None"
    by (simp add: reserved_field_def find_map_None)
  finally show ?thesis .
qed

lemma no_reserved_line_no_field:
  "reserved_lines doc keys = [] \<Longrightarrow> key \<in> set keys \<Longrightarrow> field doc key = None"
  using field_reserved_line [of doc key _ keys]
  by (cases "field doc key") (auto simp: reserved_lines_iff reserved_field_def find_map_None)

text \<open>A text with no space at either end trims to itself.\<close>

definition trimmed :: "string \<Rightarrow> bool" where
  "trimmed s \<longleftrightarrow> s \<noteq> [] \<and> \<not> is_space (hd s) \<and> \<not> is_space (last s)"

lemma dropWhile_not_hd: "s \<noteq> [] \<Longrightarrow> \<not> p (hd s) \<Longrightarrow> dropWhile p s = s"
  by (cases s) auto

lemma trim_trimmed: "trimmed s \<Longrightarrow> trim s = s"
  by (simp add: trimmed_def trim_def trim_start_def trim_end_matches_def dropWhile_not_hd
      hd_rev)

lemma trim_space: "trim (CHR '' '' # s) = trim s"
  by (simp add: trim_def trim_start_def is_space_def)

lemma trim_start_quote [simp]: "trim_start (CHR ''>'' # s) = CHR ''>'' # s"
  by (simp add: trim_start_def is_space_def)

lemma metadata_line_built:
  assumes "trimmed k" "CHR '':'' \<notin> set k" "trimmed v"
  shows "metadata_line (''> '' @ k @ '': '' @ v) = Some (k, v)"
proof -
  let ?body = "k @ '': '' @ v"
  have body: "trimmed ?body" using assms by (simp add: trimmed_def)
  then have t: "trim (CHR '' '' # ?body) = ?body" by (simp only: trim_space trim_trimmed)
  have s: "split_once (CHR '':'') ?body = Some (k, CHR '' '' # v)"
    using assms(2) by (simp add: split_once_Some)
  have "strip_prefix ''>'' (trim_start (''> '' @ ?body)) = Some (CHR '' '' # ?body)"
    by (simp add: strip_prefix_def starts_with_def)
  then show ?thesis
    using t s by (simp add: metadata_line_def trim_space trim_trimmed assms)
qed

lemma not_fence_quote: "\<not> is_fence (''> '' @ s)"
  by (simp add: is_fence_def starts_with_def)

lemma field_in_head:
  assumes "metadata_line l = Some (k, v)" "eq_ignore_case k key" "\<not> is_fence l"
  shows "field_in False key (l # ls) = Some v"
  using assms by simp

lemma trimmed_no_cr:
  assumes "trimmed v"
  shows "strip_cr (p @ v) = p @ v"
proof -
  have "v \<noteq> []" "last v \<noteq> CHR 0x0D" using assms by (auto simp: trimmed_def is_space_def)
  then show ?thesis by (simp add: strip_cr_def)
qed

section \<open>Properties\<close>

text \<open>
  Whatever value a resolver reads for a key, the guard that watches this key sees the line
  the value stands on: a line of the document that parses to that key and value, whose
  trimmed text is one of the reserved lines. So a document with no reserved line declares
  nothing.
\<close>

lemma resolved_line_reserved:
  "field doc key = Some v \<Longrightarrow> key \<in> set keys \<Longrightarrow>
     (\<exists>l k. l \<in> set (text_lines doc) \<and> metadata_line l = Some (k, v) \<and> eq_ignore_case k key \<and>
        trim l \<in> set (reserved_lines doc keys))"
  using field_reserved_line [of doc key v keys] text_lines_no_newline
  by (fastforce simp: reserved_lines_def reserved_field_line)

lemma resolved_line_reserved_instance:
  "\<exists>l k. l \<in> set (text_lines ''> Model: flash'') \<and> metadata_line l = Some (k, ''flash'') \<and>
     eq_ignore_case k ''model'' \<and>
     trim l \<in> set (reserved_lines ''> Model: flash'' [''fleet'', ''model''])"
  by (rule resolved_line_reserved) code_simp+

text \<open>
  A metadata line written at the head of a document reads back: for a key without a colon
  and a value, both free of outer white space and of line feeds, the resolver returns the value
  whatever follows, under any capitalisation of the key.
\<close>

lemma field_of_written_line:
  assumes "trimmed k" "CHR '':'' \<notin> set k" "trimmed v" "newline \<notin> set k" "newline \<notin> set v"
    and "eq_ignore_case k key"
  shows "field (''> '' @ k @ '': '' @ v @ newline # doc) key = Some v"
proof -
  let ?l = "''> '' @ k @ '': '' @ v"
  have nl: "newline \<notin> set ?l" using assms by (simp add: newline_def)
  have "strip_cr ?l = ?l" using trimmed_no_cr [OF assms(3), of "''> '' @ k @ '': ''"] by simp
  with text_lines_cons [OF nl, of doc]
  have "text_lines (''> '' @ k @ '': '' @ v @ newline # doc) = ?l # text_lines doc" by simp
  then show ?thesis
    using field_in_head [OF metadata_line_built [OF assms(1-3)] assms(6)] not_fence_quote
    by (simp add: field_def del: append.simps)
qed

lemma field_of_written_line_instance:
  "field (''> '' @ ''Worktree'' @ '': '' @ ''codebase/main'' @ newline # ''body'') ''worktree''
     = Some ''codebase/main''"
  by (rule field_of_written_line) code_simp+

end
