(* ===== verification/Model_Choice.thy ===== *)
theory Model_Choice
  imports Item_Meta Queue_Model
begin

text \<open>
  The \<^verbatim>\<open>> Model:\<close> grammar and its resolution (\<^verbatim>\<open>crates/softfig-ipc/src/model_choice.rs\<close>):
  model choices, the specification parser, ordered model lists, the rules on a model change and
  on a declared list, and the chain of documents a declaration is looked up in. The mount the
  documents are read from is a \<open>mount\<close>: what the three file system calls of the code observe.
\<close>

section \<open>Choices\<close>

datatype backend = Claude | Opencode

record model_choice =
  mc_backend :: backend
  mc_model :: "string option"
  mc_variant :: "string option"

definition deepseek_reasoning :: string where
  "deepseek_reasoning = ''deepseek/deepseek-v4-pro''"

definition deepseek_flash :: string where
  "deepseek_flash = ''deepseek/deepseek-flash''"

fun show_backend :: "backend \<Rightarrow> string" where
  "show_backend Claude = ''claude''"
| "show_backend Opencode = ''opencode''"

definition parse_backend :: "string \<Rightarrow> backend option" where
  "parse_backend s =
     (if ascii_lower s = ''claude'' then Some Claude
      else if ascii_lower s = ''opencode'' then Some Opencode else None)"

definition claude_on :: "string option \<Rightarrow> string option \<Rightarrow> model_choice" where
  "claude_on model effort = \<lparr>mc_backend = Claude, mc_model = model, mc_variant = effort\<rparr>"

definition claude_default :: model_choice where
  "claude_default = claude_on None None"

definition opencode_on :: "string \<Rightarrow> model_choice" where
  "opencode_on model = \<lparr>mc_backend = Opencode, mc_model = Some model, mc_variant = None\<rparr>"

definition claude_argv :: "model_choice \<Rightarrow> string list" where
  "claude_argv c =
     (if mc_backend c \<noteq> Claude then []
      else (case mc_model c of Some m \<Rightarrow> [''--model'', m] | None \<Rightarrow> [])
         @ (case mc_variant c of Some e \<Rightarrow> [''--effort'', e] | None \<Rightarrow> []))"

definition opencode_model :: "model_choice \<Rightarrow> string" where
  "opencode_model c = (case mc_model c of Some m \<Rightarrow> m | None \<Rightarrow> deepseek_flash)"

definition opencode_model_ref :: "model_choice \<Rightarrow> string" where
  "opencode_model_ref c =
     (case mc_variant c of
        Some variant \<Rightarrow> opencode_model c @ ''#'' @ variant
      | None \<Rightarrow> opencode_model c)"

definition choice_matches :: "model_choice \<Rightarrow> model_choice \<Rightarrow> bool" where
  "choice_matches a b \<longleftrightarrow>
     mc_backend a = mc_backend b \<and>
     (case (mc_model a, mc_model b) of
        (Some x, Some y) \<Rightarrow> x = y
      | (None, None) \<Rightarrow> True
      | _ \<Rightarrow> False)"

section \<open>The specification grammar\<close>

datatype model_spec = Auto | Fixed model_choice

datatype spec_error =
    EmptySpec
  | ExpectedKeyValue string
  | NoValue string
  | ValueHasHash string string
  | UnknownKey string
  | EffortNotInSet string
  | ClaudeNoModel
  | ClaudeNoModelBeforeSuffix
  | ClaudeHasSlash
  | ClaudeHasHash
  | ClaudeUnknownModel string
  | AutoTakesNoVariant
  | HashSuffix string string
  | UnknownModel string

definition claude_aliases :: "string list" where
  "claude_aliases = [''opus'', ''sonnet'', ''haiku'', ''fable'']"

definition claude_efforts :: "string list" where
  "claude_efforts = [''low'', ''medium'', ''high'', ''xhigh'', ''max'']"

definition one_m_suffix :: string where
  "one_m_suffix = ''[1m]''"

fun full_id_loop :: "bool \<Rightarrow> string \<Rightarrow> bool" where
  "full_id_loop chunk_has_char [] = chunk_has_char"
| "full_id_loop chunk_has_char (c # cs) =
     (if c = CHR ''-'' then (if \<not> chunk_has_char then False else full_id_loop False cs)
      else if is_lower c \<or> is_digit c then full_id_loop True cs
      else False)"

definition is_full_claude_id :: "string \<Rightarrow> bool" where
  "is_full_claude_id stem =
     (case strip_prefix ''claude-'' stem of
        None \<Rightarrow> False
      | Some rest \<Rightarrow> if rest = [] then False else full_id_loop False rest)"

definition parse_claude_model :: "string \<Rightarrow> spec_error + string" where
  "parse_claude_model suffix =
     (if suffix = [] then Inl ClaudeNoModel
      else
        let (stem, one_m) = (case strip_suffix one_m_suffix suffix of
                               Some s \<Rightarrow> (s, True) | None \<Rightarrow> (suffix, False))
        in if stem = [] then Inl ClaudeNoModelBeforeSuffix
           else if CHR ''/'' \<in> set stem then Inl ClaudeHasSlash
           else if CHR ''#'' \<in> set stem then Inl ClaudeHasHash
           else if stem \<notin> set claude_aliases \<and> \<not> is_full_claude_id stem
             then Inl (ClaudeUnknownModel suffix)
           else Inr (if one_m then stem @ one_m_suffix else stem))"

fun parse_pairs :: "string option \<Rightarrow> string list \<Rightarrow> spec_error + string option" where
  "parse_pairs variant [] = Inr variant"
| "parse_pairs variant (pair # pairs) =
     (case split_once (CHR ''='') pair of
        None \<Rightarrow> Inl (ExpectedKeyValue pair)
      | Some (key, value) \<Rightarrow>
          if key \<in> {''variant'', ''effort''} then
            (if value = [] then Inl (NoValue key)
             else if CHR ''#'' \<in> set value then Inl (ValueHasHash key value)
             else parse_pairs (Some value) pairs)
          else Inl (UnknownKey key))"

text \<open>The claude arm of the parser, and the arms after it.\<close>

definition check_effort :: "string option \<Rightarrow> spec_error + unit" where
  "check_effort variant =
     (case variant of
        Some effort \<Rightarrow> guard (effort \<in> set claude_efforts) (EffortNotInSet effort)
      | None \<Rightarrow> Inr ())"

definition claude_spec :: "string option \<Rightarrow> string \<Rightarrow> spec_error + model_spec" where
  "claude_spec variant token_lower =
     try_with (check_effort variant) (\<lambda>_.
     try_with
       (case strip_prefix ''claude:'' token_lower of
          Some suffix \<Rightarrow> try_with (parse_claude_model suffix) (\<lambda>m. Inr (Some m))
        | None \<Rightarrow> Inr None) (\<lambda>model.
     Inr (Fixed (claude_on model variant))))"

definition opencode_spec :: "string option \<Rightarrow> string \<Rightarrow> string \<Rightarrow> spec_error + model_spec" where
  "opencode_spec variant token token_lower =
     (if token_lower = ''auto'' then
        (if variant \<noteq> None then Inl AutoTakesNoVariant else Inr Auto)
      else if token_lower \<in> {''reasoning'', ''deepseek-reasoning''} then
        Inr (Fixed (opencode_on deepseek_reasoning \<lparr>mc_variant := variant\<rparr>))
      else if token_lower \<in> {''flash'', ''deepseek-flash''} then
        Inr (Fixed (opencode_on deepseek_flash \<lparr>mc_variant := variant\<rparr>))
      else if CHR ''#'' \<in> set token_lower then
        (case split_once (CHR ''#'') token of
           Some (m, v) \<Rightarrow> Inl (HashSuffix m v)
         | None \<Rightarrow> Inl (HashSuffix token []))
      else if CHR ''/'' \<in> set token_lower then
        Inr (Fixed (opencode_on token \<lparr>mc_variant := variant\<rparr>))
      else Inl (UnknownModel token_lower))"

definition parse_model_spec :: "string \<Rightarrow> spec_error + model_spec" where
  "parse_model_spec spec =
     (case split_whitespace spec of
        [] \<Rightarrow> Inl EmptySpec
      | token # pairs \<Rightarrow>
          try_with (parse_pairs None pairs) (\<lambda>variant.
          let token_lower = ascii_lower token in
          if token_lower = ''claude'' \<or> starts_with ''claude:'' token_lower
          then claude_spec variant token_lower
          else opencode_spec variant token token_lower))"

definition item_model_field :: "string \<Rightarrow> string option" where
  "item_model_field doc =
     (case field doc meta_model of
        Some v \<Rightarrow> if v = [] then None else Some v
      | None \<Rightarrow> None)"

section \<open>Model lists\<close>

type_synonym model_list = "model_choice list"

definition list_first :: "model_list \<Rightarrow> model_choice" where
  "list_first ms = ms ! 0"

definition first_for_backend :: "model_list \<Rightarrow> backend \<Rightarrow> model_choice option" where
  "first_for_backend ms b = find (\<lambda>e. mc_backend e = b) ms"

definition backend_can_run :: "model_list \<Rightarrow> backend \<Rightarrow> bool" where
  "backend_can_run ms b \<longleftrightarrow> first_for_backend ms b \<noteq> None"

definition list_contains :: "model_list \<Rightarrow> model_choice \<Rightarrow> bool" where
  "list_contains ms other = list_ex (\<lambda>e. choice_matches e other) ms"

datatype model_decl = DAuto | DList model_list

datatype list_error =
    EmptyListEntry nat
  | InListEntry nat spec_error
  | AutoInList

text \<open>The loop over the entries; \<open>n\<close> is the number of entries, \<open>i\<close> the index.\<close>

fun declaration_loop ::
  "nat \<Rightarrow> nat \<Rightarrow> model_list \<Rightarrow> string list \<Rightarrow> list_error + model_decl" where
  "declaration_loop n i specs [] = Inr (DList specs)"
| "declaration_loop n i specs (entry # entries) =
     (case parse_model_spec entry of
        Inl e \<Rightarrow> Inl (InListEntry (i + 1) e)
      | Inr (Fixed choice) \<Rightarrow> declaration_loop n (i + 1) (specs @ [choice]) entries
      | Inr Auto \<Rightarrow> if n = 1 then Inr DAuto else Inl AutoInList)"

definition parse_declaration :: "string \<Rightarrow> list_error + model_decl" where
  "parse_declaration decl =
     (let entries = map trim (split_on (CHR '','') decl)
      in case position (\<lambda>e. e = []) entries of
           Some empty_at \<Rightarrow> Inl (EmptyListEntry (empty_at + 1))
         | None \<Rightarrow> declaration_loop (length entries) 0 [] entries)"

definition member_default :: "backend \<Rightarrow> string option \<Rightarrow> string option \<Rightarrow> model_list" where
  "member_default b roster_model roster_variant =
     (case b of
        Claude \<Rightarrow> [claude_on roster_model roster_variant]
      | Opencode \<Rightarrow>
          [opencode_on (case roster_model of Some m \<Rightarrow> m | None \<Rightarrow> deepseek_flash)
             \<lparr>mc_variant := roster_variant\<rparr>])"

section \<open>The model rules\<close>

datatype model_rule_error = NotAllowed | DeclaresWithoutInheritance

definition validate_model_change ::
  "model_list \<Rightarrow> model_choice \<Rightarrow> bool \<Rightarrow> model_rule_error + unit" where
  "validate_model_change allowed requested declared =
     (if declared \<and> list_contains allowed requested then Inr () else Inl NotAllowed)"

definition validate_declared_subset ::
  "model_list option \<Rightarrow> model_list \<Rightarrow> model_rule_error + unit" where
  "validate_declared_subset inherited declared =
     (case inherited of
        None \<Rightarrow> Inl DeclaresWithoutInheritance
      | Some inh \<Rightarrow>
          if list_all (list_contains inh) declared then Inr () else Inl NotAllowed)"

section \<open>The resolution chain\<close>

text \<open>
  What the code observes of the mount through \<^verbatim>\<open>std::fs\<close>, with paths relative to the garden
  root: whether a path is a directory, the names in a directory in listing order (\<open>None\<close> when
  it cannot be listed), and the text of a file.
\<close>

datatype read_result = ReadText string | ReadNotFound | ReadFailed string

record mount =
  m_is_dir :: "string \<Rightarrow> bool"
  m_list :: "string \<Rightarrow> string list option"
  m_read :: "string \<Rightarrow> read_result"

datatype number_error = SharedNumber string "string list"

definition unique_numbered :: "string list \<Rightarrow> string \<Rightarrow> number_error + string option" where
  "unique_numbered names number =
     (let matches = filter (\<lambda>n. starts_with (number @ ''-'') n \<and> ends_with ''.md'' n) names
      in case matches of
           [] \<Rightarrow> Inr None
         | [n] \<Rightarrow> Inr (Some n)
         | _ \<Rightarrow> Inl (SharedNumber number (sort matches)))"

definition find_by_number ::
  "mount \<Rightarrow> string \<Rightarrow> string \<Rightarrow> (string \<times> number_error) + string option" where
  "find_by_number m dir number =
     (case m_list m dir of
        None \<Rightarrow> Inr None
      | Some names \<Rightarrow>
          (case unique_numbered names number of
             Inl e \<Rightarrow> Inl (dir, e)
           | Inr found \<Rightarrow> Inr (map_option (\<lambda>name. dir @ ''/'' @ name) found)))"

definition backlog_dir :: string where
  "backlog_dir = ''growlight/backlog''"

text \<open>The enclosing \<^verbatim>\<open>CLAUDE.md\<close> files, for depth \<open>length parts - 1\<close> down to 0.\<close>

definition enclosing_docs :: "string \<Rightarrow> string list" where
  "enclosing_docs item =
     (let parts = split_on (CHR ''/'') item
      in map (\<lambda>depth. milestone_path (join ''/'' (take (Suc depth) parts)) @ ''/CLAUDE.md'')
           (rev [0..<length parts]))"

definition item_doc_candidates ::
  "mount \<Rightarrow> string \<Rightarrow> string option \<Rightarrow> (string \<times> number_error) + string list" where
  "item_doc_candidates m item slice_no =
     (let top = hd (split_on (CHR ''/'') item)
      in if \<not> m_is_dir m (backlog_dir @ ''/milestones/'' @ top) then
           try_with (find_by_number m (backlog_dir @ ''/tasks'') item) (\<lambda>doc.
           Inr (case doc of Some d \<Rightarrow> [d] | None \<Rightarrow> []))
         else
           try_with
             (case slice_no of
                None \<Rightarrow> Inr []
              | Some s \<Rightarrow>
                  try_with (find_by_number m (milestone_path item @ ''/slices'')
                              (pad_03 (trim s))) (\<lambda>doc.
                  Inr (case doc of Some d \<Rightarrow> [d] | None \<Rightarrow> []))) (\<lambda>own.
           Inr (own @ enclosing_docs item)))"

record declared_models =
  dm_list :: model_list
  dm_origin :: string
  dm_field :: string

datatype resolve_error =
    MetadataUnreadable string unreadable_reason
  | BadDeclaration string list_error

fun resolve_item_models ::
  "(string \<times> string option) list \<Rightarrow> resolve_error + declared_models option" where
  "resolve_item_models [] = Inr None"
| "resolve_item_models ((label, content) # docs) =
     (case content of
        None \<Rightarrow> resolve_item_models docs
      | Some doc \<Rightarrow>
          (case unreadable_metadata doc of
             Some why \<Rightarrow> Inl (MetadataUnreadable label why)
           | None \<Rightarrow>
               (case item_model_field doc of
                  None \<Rightarrow> resolve_item_models docs
                | Some fld \<Rightarrow>
                    (case parse_declaration fld of
                       Inl e \<Rightarrow> Inl (BadDeclaration label e)
                     | Inr DAuto \<Rightarrow> resolve_item_models docs
                     | Inr (DList ms) \<Rightarrow>
                         Inr (Some \<lparr>dm_list = ms, dm_origin = label, dm_field = fld\<rparr>)))))"

end
