(* ===== verification/Model_Grammar.thy ===== *)
theory Model_Grammar
  imports Model_Choice
begin

text \<open>
  What the \<^verbatim>\<open>> Model:\<close> grammar and its rules guarantee: the image of the specification parser,
  the accepted claude identifiers, the unambiguous spelling of an opencode choice, declared
  lists entry by entry, the rule that a declared list never widens what a unit may run, and the
  resolution chain with its lookup by number.
\<close>

section \<open>The image of the specification parser\<close>

definition id_char :: "char \<Rightarrow> bool" where
  "id_char c \<longleftrightarrow> is_lower c \<or> is_digit c"

lemma full_id_loop_chunks:
  "full_id_loop b cs \<longleftrightarrow>
     (let ws = split_on (CHR ''-'') cs
      in list_all (list_all id_char) ws \<and> (b \<or> hd ws \<noteq> []) \<and> list_all (\<lambda>w. w \<noteq> []) (tl ws))"
proof (induction cs arbitrary: b)
  case Nil
  then show ?case by simp
next
  case (Cons c cs)
  obtain w ws where s: "split_on (CHR ''-'') cs = w # ws"
    using split_on_not_Nil [of "CHR ''-''" cs] by (cases "split_on (CHR ''-'') cs") auto
  show ?case
    by (auto simp: Cons.IH s Let_def id_char_def)
qed

text \<open>
  The character loop accepts exactly the documented identifier grammar: the prefix
  \<^verbatim>\<open>claude-\<close>, then dash-separated chunks, each a non-empty run of lower-case letters and
  digits.
\<close>

lemma is_full_claude_id_grammar:
  "is_full_claude_id stem \<longleftrightarrow>
     (\<exists>rest. stem = ''claude-'' @ rest \<and>
        list_all (\<lambda>chunk. chunk \<noteq> [] \<and> list_all id_char chunk) (split_on (CHR ''-'') rest))"
proof -
  have "full_id_loop False rest \<longleftrightarrow>
      list_all (\<lambda>chunk. chunk \<noteq> [] \<and> list_all id_char chunk) (split_on (CHR ''-'') rest)" for rest
    using split_on_not_Nil [of "CHR ''-''" rest]
    by (cases "split_on (CHR ''-'') rest") (auto simp: full_id_loop_chunks list_all_iff)
  then show ?thesis
    by (auto simp: is_full_claude_id_def strip_prefix_Some strip_prefix_None split: option.splits)
qed

definition word_ok :: "string \<Rightarrow> bool" where
  "word_ok w \<longleftrightarrow> w \<noteq> [] \<and> list_all (\<lambda>c. \<not> is_space c) w"

definition claude_id_ok :: "string \<Rightarrow> bool" where
  "claude_id_ok m \<longleftrightarrow>
     (\<exists>stem. (stem \<in> set claude_aliases \<or> is_full_claude_id stem) \<and>
        (m = stem \<or> m = stem @ one_m_suffix))"

definition opencode_id_ok :: "string \<Rightarrow> bool" where
  "opencode_id_ok m \<longleftrightarrow>
     word_ok m \<and> CHR ''/'' \<in> set m \<and> CHR ''#'' \<notin> set m \<and>
     \<not> starts_with ''claude:'' (ascii_lower m)"

definition choice_ok :: "model_choice \<Rightarrow> bool" where
  "choice_ok c \<longleftrightarrow>
     (case mc_backend c of
        Claude \<Rightarrow>
          (case mc_model c of None \<Rightarrow> True | Some m \<Rightarrow> claude_id_ok m) \<and>
          (case mc_variant c of None \<Rightarrow> True | Some e \<Rightarrow> e \<in> set claude_efforts)
      | Opencode \<Rightarrow>
          (case mc_model c of None \<Rightarrow> False | Some m \<Rightarrow> opencode_id_ok m) \<and>
          (case mc_variant c of None \<Rightarrow> True | Some v \<Rightarrow> word_ok v \<and> CHR ''#'' \<notin> set v))"

text \<open>The canonical specification of a choice.\<close>

definition spec_token :: "model_choice \<Rightarrow> string" where
  "spec_token c =
     (case (mc_backend c, mc_model c) of
        (Claude, None) \<Rightarrow> ''claude''
      | (Claude, Some m) \<Rightarrow> ''claude:'' @ m
      | (Opencode, None) \<Rightarrow> []
      | (Opencode, Some m) \<Rightarrow> m)"

definition render_spec :: "model_choice \<Rightarrow> string" where
  "render_spec c =
     (case mc_variant c of
        None \<Rightarrow> spec_token c
      | Some v \<Rightarrow> spec_token c @ '' variant='' @ v)"

definition plain_char :: "char \<Rightarrow> bool" where
  "plain_char c \<longleftrightarrow>
     \<not> is_space c \<and> \<not> is_upper c \<and> c \<noteq> CHR ''/'' \<and> c \<noteq> CHR ''#'' \<and> c \<noteq> CHR '']''"

lemma id_char_plain: "id_char c \<Longrightarrow> plain_char c"
  by (auto simp: plain_char_def id_char_def is_lower_def is_digit_def is_space_def is_upper_def)

definition plain :: "string \<Rightarrow> bool" where
  "plain s \<longleftrightarrow> s \<noteq> [] \<and> list_all plain_char s"

lemma full_id_loop_plain: "full_id_loop b cs \<Longrightarrow> list_all plain_char cs"
proof (induction cs arbitrary: b)
  case Nil
  then show ?case by simp
next
  case (Cons c cs)
  have dash: "plain_char (CHR ''-'')" by code_simp
  show ?case
  proof (cases "c = CHR ''-''")
    case True
    then have "full_id_loop False cs" using Cons.prems by (simp split: if_splits)
    with True dash Cons.IH show ?thesis by simp
  next
    case False
    then have "id_char c" "full_id_loop True cs"
      using Cons.prems by (simp_all add: id_char_def split: if_splits)
    with Cons.IH id_char_plain show ?thesis by simp
  qed
qed

lemma stem_plain:
  assumes "stem \<in> set claude_aliases \<or> is_full_claude_id stem"
  shows "plain stem"
proof (cases "is_full_claude_id stem")
  case True
  then obtain rest where r: "stem = ''claude-'' @ rest" "full_id_loop False rest"
    by (auto simp: is_full_claude_id_def strip_prefix_Some split: option.splits if_splits)
  have "plain ''claude-''" by code_simp
  then show ?thesis using full_id_loop_plain [OF r(2)] by (simp add: plain_def r(1))
next
  case False
  have "list_all plain claude_aliases" by code_simp
  with False assms show ?thesis by (simp add: list_all_iff)
qed

lemma parse_claude_model_ok:
  assumes "parse_claude_model suffix = Inr m"
  shows "claude_id_ok m"
proof -
  obtain stem one_m where c: "(case strip_suffix one_m_suffix suffix of
      Some s \<Rightarrow> (s, True) | None \<Rightarrow> (suffix, False)) = (stem, one_m)" by force
  from assms c have "stem \<in> set claude_aliases \<or> is_full_claude_id stem"
    and "m = (if one_m then stem @ one_m_suffix else stem)"
    unfolding parse_claude_model_def c Let_def
    by (simp_all only: prod.case split: if_split_asm) simp_all
  then show ?thesis unfolding claude_id_ok_def by (intro exI [of _ stem]) simp
qed

lemma strip_one_m_plain:
  assumes "plain stem"
  shows "strip_suffix one_m_suffix stem = None"
proof -
  have "CHR '']'' \<notin> set stem" using assms by (auto simp: plain_def plain_char_def list_all_iff)
  moreover have "CHR '']'' \<in> set (t @ one_m_suffix)" for t by (simp add: one_m_suffix_def)
  ultimately show ?thesis by (metis strip_suffix_None)
qed

lemma claude_id_parses: "claude_id_ok m \<Longrightarrow> parse_claude_model m = Inr m"
proof -
  assume "claude_id_ok m"
  then obtain stem where s: "stem \<in> set claude_aliases \<or> is_full_claude_id stem"
      "m = stem \<or> m = stem @ one_m_suffix"
    by (auto simp: claude_id_ok_def)
  have p: "plain stem" by (rule stem_plain [OF s(1)])
  then have c: "stem \<noteq> []" "CHR ''/'' \<notin> set stem" "CHR ''#'' \<notin> set stem"
    by (auto simp: plain_def plain_char_def list_all_iff)
  have one: "strip_suffix one_m_suffix (stem @ one_m_suffix) = Some stem"
    by (simp add: strip_suffix_Some)
  from s(2) show ?thesis
  proof
    assume "m = stem"
    then show ?thesis using s(1) c strip_one_m_plain [OF p] by (auto simp: parse_claude_model_def)
  next
    assume "m = stem @ one_m_suffix"
    then show ?thesis using s(1) c one by (auto simp: parse_claude_model_def)
  qed
qed

lemma claude_id_word:
  assumes "claude_id_ok m"
  shows "list_all (\<lambda>c. \<not> is_space c \<and> \<not> is_upper c) m" "m \<noteq> []"
proof -
  obtain stem where s: "plain stem" "m = stem \<or> m = stem @ one_m_suffix"
    using assms stem_plain by (auto simp: claude_id_ok_def)
  have suf: "list_all (\<lambda>c. \<not> is_space c \<and> \<not> is_upper c) one_m_suffix" by code_simp
  have stem: "list_all (\<lambda>c. \<not> is_space c \<and> \<not> is_upper c) stem" "stem \<noteq> []"
    using s(1) by (simp_all add: plain_def plain_char_def list_all_iff)
  show "list_all (\<lambda>c. \<not> is_space c \<and> \<not> is_upper c) m" "m \<noteq> []"
    using s(2) stem suf by (metis list_all_append, metis append_is_Nil_conv)
qed

lemma effort_word: "e \<in> set claude_efforts \<Longrightarrow> word_ok e \<and> CHR ''#'' \<notin> set e"
  by (auto simp: claude_efforts_def word_ok_def is_space_def)

lemma parse_pairs_ok:
  "parse_pairs v ps = Inr r \<Longrightarrow> list_all word_ok ps \<Longrightarrow>
     (case v of None \<Rightarrow> True | Some x \<Rightarrow> word_ok x \<and> CHR ''#'' \<notin> set x) \<Longrightarrow>
     (case r of None \<Rightarrow> True | Some x \<Rightarrow> word_ok x \<and> CHR ''#'' \<notin> set x)"
proof (induction ps arbitrary: v)
  case Nil
  then show ?case by simp
next
  case (Cons p ps)
  then obtain k x where p: "split_once (CHR ''='') p = Some (k, x)"
    by (auto split: option.splits)
  then have r: "parse_pairs (Some x) ps = Inr r" "x \<noteq> []" "CHR ''#'' \<notin> set x"
    using Cons.prems by (auto split: if_splits)
  have "word_ok x"
    using p Cons.prems(2) r(2) by (auto simp: split_once_Some word_ok_def)
  with r Cons show ?case by auto
qed

lemma claude_spec_ok:
  "claude_spec v t = Inr (Fixed c) \<Longrightarrow> choice_ok c"
  by (auto simp: claude_spec_def check_effort_def res_simps choice_ok_def claude_on_def
      dest: parse_claude_model_ok split: option.splits)

lemma deepseek_ids_ok: "opencode_id_ok deepseek_reasoning" "opencode_id_ok deepseek_flash"
  by code_simp+

lemma opencode_spec_ok:
  assumes "opencode_spec v t (ascii_lower t) = Inr (Fixed c)"
    and "\<not> starts_with ''claude:'' (ascii_lower t)" "word_ok t"
    and "case v of None \<Rightarrow> True | Some x \<Rightarrow> word_ok x \<and> CHR ''#'' \<notin> set x"
  shows "choice_ok c"
proof -
  have mem: "CHR ''#'' \<in> set (ascii_lower t) \<longleftrightarrow> CHR ''#'' \<in> set t"
      "CHR ''/'' \<in> set (ascii_lower t) \<longleftrightarrow> CHR ''/'' \<in> set t"
    by (simp_all add: ascii_lower_mem is_upper_def is_lower_def)
  consider "c = opencode_on deepseek_reasoning \<lparr>mc_variant := v\<rparr>"
    | "c = opencode_on deepseek_flash \<lparr>mc_variant := v\<rparr>"
    | "c = opencode_on t \<lparr>mc_variant := v\<rparr>" "CHR ''#'' \<notin> set t" "CHR ''/'' \<in> set t"
    using assms(1) mem by (auto simp: opencode_spec_def split: if_splits option.splits)
  then show ?thesis
    using assms(2-4) deepseek_ids_ok
    by cases (simp_all add: choice_ok_def opencode_on_def opencode_id_ok_def)
qed

lemma parse_model_spec_ok:
  assumes "parse_model_spec s = Inr (Fixed c)"
  shows "choice_ok c"
proof -
  obtain t ps v where w: "split_whitespace s = t # ps" and v: "parse_pairs None ps = Inr v"
    and r: "(if ascii_lower t = ''claude'' \<or> starts_with ''claude:'' (ascii_lower t)
       then claude_spec v (ascii_lower t) else opencode_spec v t (ascii_lower t)) = Inr (Fixed c)"
    using assms by (auto simp: parse_model_spec_def res_simps Let_def split: list.splits)
  have words: "word_ok t" "list_all word_ok ps"
    using split_whitespace_no_space [of _ s] w by (auto simp: word_ok_def list_all_iff)
  have "case v of None \<Rightarrow> True | Some x \<Rightarrow> word_ok x \<and> CHR ''#'' \<notin> set x"
    by (rule parse_pairs_ok [OF v words(2)]) simp
  then show ?thesis
    using r words(1) opencode_spec_ok claude_spec_ok by (auto split: if_splits)
qed

lemma spec_token_word:
  assumes "choice_ok c"
  shows "word_ok (spec_token c)"
proof (cases "mc_backend c"; cases "mc_model c")
  fix m
  assume "mc_backend c = Claude" "mc_model c = Some m"
  then have "list_all (\<lambda>c. \<not> is_space c \<and> \<not> is_upper c) m"
    using claude_id_word(1) assms by (simp add: choice_ok_def)
  moreover have "list_all (\<lambda>c. \<not> is_space c) ''claude:''" by code_simp
  ultimately show ?thesis
    using \<open>mc_backend c = Claude\<close> \<open>mc_model c = Some m\<close>
    by (simp add: spec_token_def word_ok_def list_all_iff)
next
  assume "mc_backend c = Claude" "mc_model c = None"
  moreover have "word_ok ''claude''" by code_simp
  ultimately show ?thesis by (simp add: spec_token_def)
qed (use assms in \<open>simp_all add: choice_ok_def spec_token_def opencode_id_ok_def\<close>)

lemma split_render:
  assumes "choice_ok c"
  shows "split_whitespace (render_spec c) = spec_token c #
    (case mc_variant c of None \<Rightarrow> [] | Some v \<Rightarrow> [''variant='' @ v])"
proof (cases "mc_variant c")
  case None
  then show ?thesis using spec_token_word [OF assms]
    by (simp add: render_spec_def word_ok_def split_whitespace_word)
next
  case (Some v)
  have "word_ok v"
    using assms Some effort_word by (auto simp: choice_ok_def split: backend.splits option.splits)
  then have "split_whitespace (''variant='' @ v) = [''variant='' @ v]"
    by (intro split_whitespace_word) (auto simp: word_ok_def is_space_def)
  then show ?thesis using Some spec_token_word [OF assms]
    split_whitespace_cons [of "spec_token c" "''variant='' @ v"]
    by (simp add: render_spec_def word_ok_def)
qed

lemma pairs_render:
  assumes "choice_ok c"
  shows "parse_pairs None (case mc_variant c of None \<Rightarrow> [] | Some v \<Rightarrow> [''variant='' @ v])
    = Inr (mc_variant c)"
proof (cases "mc_variant c")
  case None
  then show ?thesis by simp
next
  case (Some v)
  have "word_ok v \<and> CHR ''#'' \<notin> set v"
    using assms Some effort_word by (auto simp: choice_ok_def split: backend.splits option.splits)
  moreover have "split_once (CHR ''='') (''variant='' @ v) = Some (''variant'', v)"
    by (simp add: split_once_Some)
  ultimately show ?thesis using Some by (simp add: word_ok_def)
qed

lemma render_claude:
  assumes "choice_ok c" "mc_backend c = Claude"
  shows "ascii_lower (spec_token c) = spec_token c \<and>
    (spec_token c = ''claude'' \<or> starts_with ''claude:'' (spec_token c)) \<and>
    claude_spec (mc_variant c) (spec_token c) = Inr (Fixed c)"
proof -
  have eff: "check_effort (mc_variant c) = Inr ()"
    using assms by (auto simp: choice_ok_def check_effort_def split: option.splits)
  show ?thesis
  proof (cases "mc_model c")
    case None
    then show ?thesis using assms eff
      by (cases c) (simp add: spec_token_def claude_spec_def strip_prefix_def starts_with_def
          claude_on_def ascii_lower_def lower_char_def is_upper_def)
  next
    case (Some m)
    then have m: "claude_id_ok m" using assms by (simp add: choice_ok_def)
    have "ascii_lower (''claude:'' @ m) = ''claude:'' @ m"
      by (rule ascii_lower_id) (use claude_id_word(1) [OF m] in \<open>simp add: list_all_iff is_upper_def\<close>)
    moreover have "strip_prefix ''claude:'' (''claude:'' @ m) = Some m"
      by (simp only: strip_prefix_Some)
    ultimately show ?thesis using assms Some eff claude_id_parses [OF m]
      by (cases c) (simp add: spec_token_def claude_spec_def starts_with_def claude_on_def)
  qed
qed

lemma render_opencode:
  assumes "choice_ok c" "mc_backend c = Opencode"
  shows "\<not> (ascii_lower (spec_token c) = ''claude'' \<or> starts_with ''claude:'' (ascii_lower (spec_token c))) \<and>
    opencode_spec (mc_variant c) (spec_token c) (ascii_lower (spec_token c)) = Inr (Fixed c)"
proof -
  obtain m where m: "mc_model c = Some m" "opencode_id_ok m"
    using assms by (auto simp: choice_ok_def split: option.splits)
  have mem: "CHR ''#'' \<notin> set (ascii_lower m)" "CHR ''/'' \<in> set (ascii_lower m)"
    using m(2) by (simp_all add: opencode_id_ok_def ascii_lower_mem is_upper_def is_lower_def)
  then have "ascii_lower m \<noteq> ''claude''" "ascii_lower m \<noteq> ''auto''"
      "ascii_lower m \<notin> {''reasoning'', ''deepseek-reasoning''}"
      "ascii_lower m \<notin> {''flash'', ''deepseek-flash''}" by auto
  with m mem assms show ?thesis
    by (cases c) (simp add: opencode_spec_def spec_token_def opencode_on_def opencode_id_ok_def)
qed

lemma render_spec_parses:
  assumes "choice_ok c"
  shows "parse_model_spec (render_spec c) = Inr (Fixed c)"
  using render_claude [OF assms] render_opencode [OF assms] pairs_render [OF assms]
  by (cases "mc_backend c") (auto simp: parse_model_spec_def split_render [OF assms])

text \<open>
  C35. The model choices the specification parser can produce are exactly the well-formed ones:
  a claude choice carries an alias or a full identifier (each optionally with the 1M suffix) or
  none, and an effort of the closed set or none; an opencode choice carries a
  provider/model identifier without a variant suffix, and a variant without a hash. Every
  well-formed choice has a specification that parses to it.
\<close>

theorem parse_model_spec_image:
  "(\<exists>s. parse_model_spec s = Inr (Fixed c)) \<longleftrightarrow> choice_ok c"
  using parse_model_spec_ok render_spec_parses by blast

text \<open>
  The single-value spelling of an opencode choice, \<^verbatim>\<open>provider/model#variant\<close>, is never
  ambiguous for a choice that came out of the parser: cutting it at its first hash gives back
  the model and the variant.
\<close>

lemma opencode_model_ref_unambiguous:
  assumes "parse_model_spec s = Inr (Fixed c)" "mc_backend c = Opencode"
  shows "split_once (CHR ''#'') (opencode_model_ref c) =
           (case mc_variant c of None \<Rightarrow> None | Some v \<Rightarrow> Some (opencode_model c, v))
         \<and> mc_model c = Some (opencode_model c)"
proof -
  obtain m where "mc_model c = Some m" "CHR ''#'' \<notin> set m"
    using parse_model_spec_ok [OF assms(1)] assms(2)
    by (auto simp: choice_ok_def opencode_id_ok_def split: option.splits)
  then show ?thesis
    by (auto simp: opencode_model_ref_def opencode_model_def split_once_None split_once_Some
        split: option.splits)
qed

lemma opencode_model_ref_unambiguous_instance:
  "split_once (CHR ''#'')
       (opencode_model_ref \<lparr>mc_backend = Opencode, mc_model = Some deepseek_flash,
                            mc_variant = Some ''high''\<rparr>) =
     Some (deepseek_flash, ''high'')"
proof -
  let ?c = "\<lparr>mc_backend = Opencode, mc_model = Some deepseek_flash, mc_variant = Some ''high''\<rparr>"
  have "parse_model_spec ''flash effort=high'' = Inr (Fixed ?c)" by code_simp
  from opencode_model_ref_unambiguous [OF this] show ?thesis by (simp add: opencode_model_def)
qed

section \<open>Declared lists\<close>

definition entry_parses :: "string \<Rightarrow> model_choice \<Rightarrow> bool" where
  "entry_parses e c \<longleftrightarrow> parse_model_spec e = Inr (Fixed c)"

lemma parse_empty_spec [simp]: "parse_model_spec [] = Inl EmptySpec"
  by (simp add: parse_model_spec_def split_whitespace_def)

lemma declaration_loop_list:
  "declaration_loop n i specs es = Inr (DList ms) \<longleftrightarrow>
     (\<exists>cs. ms = specs @ cs \<and> list_all2 entry_parses es cs)"
proof (induction es arbitrary: i specs)
  case Nil
  then show ?case by auto
next
  case (Cons e es)
  show ?case
  proof (cases "parse_model_spec e")
    case (Inl x)
    then show ?thesis by (auto simp: entry_parses_def list_all2_Cons1)
  next
    case (Inr sp)
    then show ?thesis
      by (cases sp) (auto simp: Cons.IH entry_parses_def list_all2_Cons1)
  qed
qed

lemma declaration_loop_auto:
  "declaration_loop n i specs es = Inr DAuto \<Longrightarrow>
     n = 1 \<and> (\<exists>pre e post. es = pre @ e # post \<and> parse_model_spec e = Inr Auto)"
proof (induction es arbitrary: i specs)
  case Nil
  then show ?case by simp
next
  case (Cons e es)
  show ?case
  proof (cases "parse_model_spec e = Inr Auto")
    case True
    then have "n = 1" using Cons.prems by (simp split: if_splits)
    with True show ?thesis by (metis append_Nil)
  next
    case False
    then have "\<exists>i specs. declaration_loop n i specs es = Inr DAuto"
      using Cons.prems by (auto split: sum.splits model_spec.splits)
    then show ?thesis using Cons.IH by (metis append_Cons)
  qed
qed

lemma list_all2_parses_nonempty:
  "list_all2 entry_parses es cs \<Longrightarrow> position (\<lambda>e. e = []) es = None"
  by (induction rule: list_all2_induct) (auto simp: entry_parses_def)

lemma list_all2_parses_length:
  "list_all2 entry_parses (map f (split_on c d)) cs \<Longrightarrow> cs \<noteq> []"
  by auto

text \<open>
  A declaration parses to a list exactly when every comma-separated entry, trimmed, is a
  fixed model specification; the list then has one choice per entry, in the order written, so
  an empty entry or an \<^verbatim>\<open>auto\<close> among several is refused and the list is never empty. It parses
  to \<^verbatim>\<open>auto\<close> exactly when it is that one specification alone.
\<close>

lemma parse_declaration_iff:
  "(parse_declaration decl = Inr (DList ms) \<longleftrightarrow>
     list_all2 entry_parses (map trim (split_on (CHR '','') decl)) ms) \<and>
   (parse_declaration decl = Inr DAuto \<longleftrightarrow>
     CHR '','' \<notin> set decl \<and> parse_model_spec (trim decl) = Inr Auto) \<and>
   parse_declaration decl \<noteq> Inr (DList [])"
proof (intro conjI)
  let ?es = "map trim (split_on (CHR '','') decl)"
  show list_case: "parse_declaration decl = Inr (DList ms) \<longleftrightarrow> list_all2 entry_parses ?es ms" for ms
    using list_all2_parses_nonempty [of ?es]
    by (auto simp: parse_declaration_def Let_def declaration_loop_list split: option.splits)
  show "parse_declaration decl \<noteq> Inr (DList [])"
    using list_case [of "[]"] by simp
  have one: "split_on (CHR '','') decl = [decl]" if "length (split_on (CHR '','') decl) = 1"
    using that join_split_on [of "CHR '',''" decl]
    by (cases "split_on (CHR '','') decl") auto
  show "parse_declaration decl = Inr DAuto \<longleftrightarrow>
      CHR '','' \<notin> set decl \<and> parse_model_spec (trim decl) = Inr Auto"
  proof
    assume "parse_declaration decl = Inr DAuto"
    then have "declaration_loop (length ?es) 0 [] ?es = Inr DAuto"
      by (auto simp: parse_declaration_def Let_def split: option.splits)
    then obtain pre e post where d: "length ?es = 1" "?es = pre @ e # post"
        "parse_model_spec e = Inr Auto"
      using declaration_loop_auto by blast
    from d(1) have "split_on (CHR '','') decl = [decl]" by (intro one) simp
    with d show "CHR '','' \<notin> set decl \<and> parse_model_spec (trim decl) = Inr Auto"
      using split_on_no_sep [of decl "CHR '',''" decl] by (simp add: Cons_eq_append_conv)
  next
    assume a: "CHR '','' \<notin> set decl \<and> parse_model_spec (trim decl) = Inr Auto"
    then have "trim decl \<noteq> []" by auto
    with a show "parse_declaration decl = Inr DAuto"
      by (simp add: parse_declaration_def Let_def split_on_word)
  qed
qed

section \<open>The rules on lists\<close>

lemma choice_matches_iff:
  "choice_matches a b \<longleftrightarrow> mc_backend a = mc_backend b \<and> mc_model a = mc_model b"
  by (auto simp: choice_matches_def split: option.splits)

definition identities :: "model_list \<Rightarrow> (backend \<times> string option) set" where
  "identities ms = (\<lambda>e. (mc_backend e, mc_model e)) ` set ms"

lemma list_contains_iff: "list_contains ms c \<longleftrightarrow> (mc_backend c, mc_model c) \<in> identities ms"
  unfolding list_contains_def list_ex_iff choice_matches_iff identities_def image_iff
  by (metis prod.inject)

lemma subset_identities:
  "list_all (list_contains inh) decl \<longleftrightarrow> identities decl \<subseteq> identities inh"
  by (auto simp: list_all_iff list_contains_iff) (auto simp: identities_def)

lemma list_contains_trans:
  "list_all (list_contains inh) decl \<Longrightarrow> list_contains decl req \<Longrightarrow> list_contains inh req"
  unfolding subset_identities list_contains_iff by blast

lemma backend_can_run_iff: "backend_can_run ms b \<longleftrightarrow> b \<in> fst ` identities ms"
  by (auto simp: backend_can_run_def first_for_backend_def find_None_iff identities_def
      image_image)

text \<open>
  A slice whose declared list passed the subset rule cannot widen what its unit may run:
  every model change its own list allows is allowed by the list it would have inherited, and
  every backend that can run one of its models can run one of the inherited ones.
\<close>

lemma declared_subset_never_widens:
  assumes "validate_declared_subset (Some inherited) decl = Inr ()"
  shows "(validate_model_change decl req True = Inr () \<longrightarrow>
            validate_model_change inherited req True = Inr ()) \<and>
         (backend_can_run decl b \<longrightarrow> backend_can_run inherited b)"
proof
  have sub: "list_all (list_contains inherited) decl"
    using assms by (simp add: validate_declared_subset_def split: if_splits)
  then show "validate_model_change decl req True = Inr () \<longrightarrow>
      validate_model_change inherited req True = Inr ()"
    using list_contains_trans by (simp add: validate_model_change_def)
  show "backend_can_run decl b \<longrightarrow> backend_can_run inherited b"
    using sub unfolding subset_identities backend_can_run_iff by blast
qed

lemma declared_subset_never_widens_instance:
  "validate_model_change [claude_default, opencode_on deepseek_flash] (opencode_on deepseek_flash)
       True = Inr () \<and>
   backend_can_run [claude_default, opencode_on deepseek_flash] Opencode"
proof -
  have "validate_declared_subset (Some [claude_default, opencode_on deepseek_flash])
      [opencode_on deepseek_flash] = Inr ()" by code_simp
  note widen = declared_subset_never_widens [OF this]
  have "validate_model_change [opencode_on deepseek_flash] (opencode_on deepseek_flash) True = Inr ()"
    "backend_can_run [opencode_on deepseek_flash] Opencode" by code_simp+
  with widen show ?thesis by blast
qed

section \<open>The resolution chain\<close>

text \<open>A document the chain passes through.\<close>

definition declares_nothing :: "string option \<Rightarrow> bool" where
  "declares_nothing content =
     (case content of
        None \<Rightarrow> True
      | Some doc \<Rightarrow> unreadable_metadata doc = None \<and>
          (case item_model_field doc of
             None \<Rightarrow> True | Some f \<Rightarrow> parse_declaration f = Inr DAuto))"

lemma resolve_skip:
  "declares_nothing content \<Longrightarrow>
     resolve_item_models ((label, content) # docs) = resolve_item_models docs"
  by (auto simp: declares_nothing_def split: option.splits)

lemma resolve_stop:
  "\<not> declares_nothing content \<Longrightarrow>
     resolve_item_models ((label, content) # docs) =
       (case content of
          None \<Rightarrow> Inr None
        | Some doc \<Rightarrow>
            (case unreadable_metadata doc of
               Some why \<Rightarrow> Inl (MetadataUnreadable label why)
             | None \<Rightarrow>
                 (case parse_declaration (the (item_model_field doc)) of
                    Inl e \<Rightarrow> Inl (BadDeclaration label e)
                  | Inr d \<Rightarrow>
                      Inr (Some \<lparr>dm_list = (case d of DList ms \<Rightarrow> ms | DAuto \<Rightarrow> []),
                                 dm_origin = label, dm_field = the (item_model_field doc)\<rparr>))))"
  by (auto simp: declares_nothing_def split: option.splits sum.splits model_decl.splits)

definition nearest_declaration ::
  "(string \<times> string option) list \<Rightarrow> declared_models \<Rightarrow> bool" where
  "nearest_declaration docs d \<longleftrightarrow>
     (\<exists>pre doc post. docs = pre @ (dm_origin d, Some doc) # post \<and>
        list_all (\<lambda>(_, content). declares_nothing content) pre \<and>
        unreadable_metadata doc = None \<and> item_model_field doc = Some (dm_field d) \<and>
        parse_declaration (dm_field d) = Inr (DList (dm_list d)))"

lemma nearest_Nil: "\<not> nearest_declaration [] d"
  by (simp add: nearest_declaration_def)

lemma nearest_skip:
  assumes "declares_nothing content"
  shows "nearest_declaration ((label, content) # docs) d \<longleftrightarrow> nearest_declaration docs d"
proof
  assume "nearest_declaration ((label, content) # docs) d"
  then obtain pre doc post where p: "(label, content) # docs = pre @ (dm_origin d, Some doc) # post"
      "list_all (\<lambda>(_, content). declares_nothing content) pre" "unreadable_metadata doc = None"
      "item_model_field doc = Some (dm_field d)"
      "parse_declaration (dm_field d) = Inr (DList (dm_list d))"
    unfolding nearest_declaration_def by blast
  then have "pre \<noteq> []" using assms by (auto simp: declares_nothing_def)
  then obtain pre' where "pre = (label, content) # pre'" "docs = pre' @ (dm_origin d, Some doc) # post"
    using p(1) by (cases pre) auto
  with p show "nearest_declaration docs d" unfolding nearest_declaration_def by auto
next
  assume "nearest_declaration docs d"
  then obtain pre doc post where p: "docs = pre @ (dm_origin d, Some doc) # post"
      "list_all (\<lambda>(_, content). declares_nothing content) pre" "unreadable_metadata doc = None"
      "item_model_field doc = Some (dm_field d)"
      "parse_declaration (dm_field d) = Inr (DList (dm_list d))"
    unfolding nearest_declaration_def by blast
  then show "nearest_declaration ((label, content) # docs) d"
    unfolding nearest_declaration_def using assms
    by (intro exI [of _ "(label, content) # pre"] exI [of _ doc] exI [of _ post]) simp
qed

lemma nearest_stop:
  assumes "\<not> declares_nothing (Some doc)"
  shows "nearest_declaration ((label, Some doc) # docs) d \<longleftrightarrow>
    label = dm_origin d \<and> unreadable_metadata doc = None \<and>
    item_model_field doc = Some (dm_field d) \<and>
    parse_declaration (dm_field d) = Inr (DList (dm_list d))"
proof
  assume "nearest_declaration ((label, Some doc) # docs) d"
  then show "label = dm_origin d \<and> unreadable_metadata doc = None \<and>
    item_model_field doc = Some (dm_field d) \<and>
    parse_declaration (dm_field d) = Inr (DList (dm_list d))"
    unfolding nearest_declaration_def using assms by (auto simp: Cons_eq_append_conv)
next
  assume "label = dm_origin d \<and> unreadable_metadata doc = None \<and>
    item_model_field doc = Some (dm_field d) \<and>
    parse_declaration (dm_field d) = Inr (DList (dm_list d))"
  then show "nearest_declaration ((label, Some doc) # docs) d"
    unfolding nearest_declaration_def
    by (intro exI [of _ "[]"] exI [of _ doc] exI [of _ docs]) simp
qed

text \<open>
  The nearest declaring document decides: the chain answers with a list exactly when every
  document before the origin declares nothing and the origin is readable and declares that
  list; it answers none exactly when no document declares anything. A document that hides its
  metadata or does not parse therefore stops the chain with an error and is never passed over.
\<close>

lemma resolve_nearest_declaration:
  "(resolve_item_models docs = Inr (Some d) \<longleftrightarrow> nearest_declaration docs d) \<and>
   (resolve_item_models docs = Inr None \<longleftrightarrow>
     list_all (\<lambda>(_, content). declares_nothing content) docs)"
proof (induction docs)
  case Nil
  then show ?case by (simp add: nearest_Nil)
next
  case (Cons ld docs)
  obtain label content where ld: "ld = (label, content)" by force
  show ?case
  proof (cases "declares_nothing content")
    case True
    then show ?thesis using Cons.IH
      by (simp add: ld resolve_skip nearest_skip del: resolve_item_models.simps)
  next
    case False
    then obtain doc where c: "content = Some doc"
      by (auto simp: declares_nothing_def split: option.splits)
    show ?thesis
      using False unfolding ld c nearest_stop [OF False [unfolded c]] resolve_stop [OF False [unfolded c]]
      by (cases d) (auto simp: declares_nothing_def split: option.splits sum.splits model_decl.splits)
  qed
qed

text \<open>
  Two documents that claim one number make every reader's answer a guess: the lookup by
  number answers with a file exactly when it is the only one of its directory with this number
  prefix, and answers none exactly when there is no such file.
\<close>

lemma unique_numbered_iff:
  "(unique_numbered names number = Inr (Some n) \<longleftrightarrow>
     filter (\<lambda>n. starts_with (number @ ''-'') n \<and> ends_with ''.md'' n) names = [n]) \<and>
   (unique_numbered names number = Inr None \<longleftrightarrow>
     filter (\<lambda>n. starts_with (number @ ''-'') n \<and> ends_with ''.md'' n) names = [])"
  by (auto simp: unique_numbered_def Let_def split: list.splits)

end
