(* ===== verification/Scheduler.thy ===== *)
theory Scheduler
  imports Model_Choice Queue_Validate
begin

text \<open>
  The selection policy of the fleet (\<^verbatim>\<open>crates/softfig-growlightd/src/scheduler_v2.rs\<close>): the
  snapshot of the backlog, the walk of a milestone's slice trees, eligibility, and the
  four-step pick with its report of skipped entries.
\<close>

section \<open>The snapshot\<close>

record member =
  mb_id :: string
  mb_backend :: backend
  mb_pin :: "string option"

record project_view =
  pv_name :: string
  pv_repo :: string

record entry_view =
  ev_id :: string
  ev_kind :: entry_kind
  ev_project :: string
  ev_lane :: lane
  ev_status :: entry_status
  ev_after :: "string list"
  ev_claimed :: string
  ev_follow_ups :: u64
  ev_pending :: "entry_status option"
  ev_holder :: "string option"
  ev_models :: "model_list option"

record item_view =
  iv_kind :: slice_kind
  iv_id :: string
  iv_status :: slice_status
  iv_models :: "model_list option"
  iv_follow_ups :: u64

record tree_view =
  tv_items :: "item_view list"
  tv_models :: "model_list option"

text \<open>
  The \<^verbatim>\<open>BTreeMap\<close> of trees is an association list with at most one row per key; only lookups
  read it. The \<^verbatim>\<open>BTreeSet\<close> of done ids is the list of its elements; only membership reads it.
\<close>

type_synonym trees = "(string \<times> tree_view) list"

record snapshot =
  sn_projects :: "project_view list"
  sn_entries :: "entry_view list"
  sn_trees :: trees
  sn_done_ids :: "string list"

datatype work_unit =
    USlice string string
  | UCloseOut string
  | UEntry

datatype skip_reason =
    NotEligible
  | AfterNotDone
  | RepoHeld
  | Held
  | Remote
  | NoUnit
  | BlockedWalk
  | BackendMismatch
  | NotPinned

fun show_skip_reason :: "skip_reason \<Rightarrow> string" where
  "show_skip_reason NotEligible = ''not_eligible''"
| "show_skip_reason AfterNotDone = ''after_not_done''"
| "show_skip_reason RepoHeld = ''repo_held''"
| "show_skip_reason Held = ''held''"
| "show_skip_reason Remote = ''remote''"
| "show_skip_reason NoUnit = ''no_unit''"
| "show_skip_reason BlockedWalk = ''blocked_walk''"
| "show_skip_reason BackendMismatch = ''backend_mismatch''"
| "show_skip_reason NotPinned = ''not_pinned''"

record pick =
  pk_entry :: string
  pk_unit :: work_unit
  pk_declared :: "model_list option"

record skip =
  sk_entry :: string
  sk_reason :: skip_reason

record pick_outcome =
  po_picked :: "pick option"
  po_skips :: "skip list"

section \<open>The unit walk\<close>

datatype walk_outcome =
    WUnit work_unit "model_list option"
  | WBlocked string
  | WNoUnit

definition repo_of :: "snapshot \<Rightarrow> entry_view \<Rightarrow> string option" where
  "repo_of s e = map_option pv_repo (find (\<lambda>p. pv_name p = ev_project e) (sn_projects s))"

text \<open>The statuses the loop over the items rolls past.\<close>

definition rolled_past :: "slice_status \<Rightarrow> bool" where
  "rolled_past st \<longleftrightarrow> st \<in> {SDone, SSplit, SDeferred}"

definition max_key :: "trees \<Rightarrow> nat" where
  "max_key ts = Max (insert 0 (length ` fst ` set ts))"

lemma map_of_max_key: "map_of ts m = Some t \<Longrightarrow> length m \<le> max_key ts"
  unfolding max_key_def by (intro Max_ge) (auto dest!: map_of_SomeD intro: rev_image_eqI)

text \<open>
  The recursion into a sub-milestone asks for a longer key, so it ends: no key of the map is
  longer than the longest one.
\<close>

function walk_tree :: "trees \<Rightarrow> string \<Rightarrow> walk_outcome" where
  "walk_tree ts m =
     (case map_of ts m of
        None \<Rightarrow> WNoUnit
      | Some tree \<Rightarrow>
          (case find (\<lambda>it. \<not> rolled_past (iv_status it)) (tv_items tree) of
             None \<Rightarrow> WUnit (UCloseOut m) (tv_models tree)
           | Some it \<Rightarrow>
               (if iv_status it = SBlocked then WBlocked (m @ '':'' @ iv_id it)
                else (case iv_kind it of
                        Slice \<Rightarrow> WUnit (USlice m (iv_id it)) (iv_models it)
                      | Sub \<Rightarrow> walk_tree ts (m @ ''/'' @ iv_id it)))))"
  by pat_completeness auto
termination
  by (relation "measure (\<lambda>(ts, m). Suc (max_key ts) - length m)")
    (auto dest!: map_of_max_key)

declare walk_tree.simps [simp del]

definition next_unit :: "snapshot \<Rightarrow> entry_view \<Rightarrow> walk_outcome" where
  "next_unit s e =
     (case ev_kind e of
        Milestone \<Rightarrow> walk_tree (sn_trees s) (ev_id e)
      | _ \<Rightarrow> WUnit UEntry (ev_models e))"

section \<open>Eligibility\<close>

definition eligible ::
  "snapshot \<Rightarrow> member \<Rightarrow> entry_view \<Rightarrow> skip_reason + (work_unit \<times> model_list option)" where
  "eligible s mb e =
     (if ev_status e \<notin> {EQueued, EActive, EPaused} then Inl NotEligible
      else if list_ex (\<lambda>i. i \<notin> set (sn_done_ids s)) (ev_after e) then Inl AfterNotDone
      else
        try_with (ok_or NotEligible (repo_of s e)) (\<lambda>repo.
        if ev_lane e = Normal \<and>
           list_ex (\<lambda>other. ev_id other \<noteq> ev_id e \<and> ev_lane other = Normal \<and>
             is_started (ev_status other) \<and> repo_of s other = Some repo) (sn_entries s)
        then Inl RepoHeld
        else if ev_status e = EActive \<and>
           (case ev_holder e of None \<Rightarrow> False | Some h \<Rightarrow> h \<noteq> mb_id mb)
        then Inl Held
        else if mb_backend mb = Opencode \<and> CHR '':'' \<in> set repo then Inl Remote
        else
          (case next_unit s e of
             WUnit unit models \<Rightarrow>
               (case models of
                  Some ms \<Rightarrow>
                    if \<not> backend_can_run ms (mb_backend mb) then Inl BackendMismatch
                    else Inr (unit, models)
                | None \<Rightarrow> Inr (unit, models))
           | WBlocked _ \<Rightarrow> Inl BlockedWalk
           | WNoUnit \<Rightarrow> Inl NoUnit)))"

section \<open>The scans\<close>

type_synonym reasons = "skip_reason option list"
type_synonym found = "(nat \<times> work_unit \<times> model_list option) option"

definition record_skip :: "reasons \<Rightarrow> nat \<Rightarrow> skip_reason \<Rightarrow> reasons" where
  "record_skip rs i r =
     (if (case rs ! i of None \<Rightarrow> True | Some x \<Rightarrow> x = NotPinned \<and> r \<noteq> NotPinned)
      then rs[i := Some r] else rs)"

text \<open>The loop of \<open>scan_lane\<close> over the indices still to come.\<close>

fun scan_from ::
  "snapshot \<Rightarrow> member \<Rightarrow> lane \<Rightarrow> string option \<Rightarrow> nat list \<Rightarrow> reasons \<Rightarrow> found \<times> reasons" where
  "scan_from s mb ln pin [] rs = (None, rs)"
| "scan_from s mb ln pin (i # is) rs =
     (let e = sn_entries s ! i in
      if ev_lane e \<noteq> ln then scan_from s mb ln pin is rs
      else if (case pin of Some p \<Rightarrow> ev_project e \<noteq> p | None \<Rightarrow> False)
      then scan_from s mb ln pin is (record_skip rs i NotPinned)
      else (case eligible s mb e of
              Inr (unit, models) \<Rightarrow> (Some (i, unit, models), rs)
            | Inl r \<Rightarrow> scan_from s mb ln pin is (record_skip rs i r)))"

definition scan_lane ::
  "snapshot \<Rightarrow> member \<Rightarrow> lane \<Rightarrow> string option \<Rightarrow> reasons \<Rightarrow> found \<times> reasons" where
  "scan_lane s mb ln pin rs = scan_from s mb ln pin [0..<length (sn_entries s)] rs"

section \<open>The pick\<close>

definition own_entries :: "snapshot \<Rightarrow> member \<Rightarrow> nat list" where
  "own_entries s mb =
     filter (\<lambda>i. ev_holder (sn_entries s ! i) = Some (mb_id mb) \<and>
         is_started (ev_status (sn_entries s ! i)))
       [0..<length (sn_entries s)]"

definition resume_order :: "snapshot \<Rightarrow> member \<Rightarrow> nat list" where
  "resume_order s mb =
     (let own = own_entries s mb
      in (case find (\<lambda>i. ev_status (sn_entries s ! i) = EActive) (rev own) of
            Some i \<Rightarrow> [i] | None \<Rightarrow> [])
         @ filter (\<lambda>i. ev_status (sn_entries s ! i) = EPaused) (rev own))"

fun resume_from :: "snapshot \<Rightarrow> member \<Rightarrow> nat list \<Rightarrow> reasons \<Rightarrow> found \<times> reasons" where
  "resume_from s mb [] rs = (None, rs)"
| "resume_from s mb (i # is) rs =
     (case eligible s mb (sn_entries s ! i) of
        Inr (unit, models) \<Rightarrow> (Some (i, unit, models), rs)
      | Inl r \<Rightarrow> resume_from s mb is (record_skip rs i r))"

text \<open>\<open>otherwise p f\<close> runs \<open>f\<close> when nothing is picked so far.\<close>

definition otherwise :: "found \<times> reasons \<Rightarrow> (reasons \<Rightarrow> found \<times> reasons) \<Rightarrow> found \<times> reasons" where
  "otherwise p f = (case p of (None, rs) \<Rightarrow> f rs | (Some _, _) \<Rightarrow> p)"

definition pick_steps :: "snapshot \<Rightarrow> member \<Rightarrow> reasons \<Rightarrow> found \<times> reasons" where
  "pick_steps s mb rs =
     (let p1 = scan_lane s mb Urgent (mb_pin mb) rs;
          p2 = otherwise p1 (resume_from s mb (resume_order s mb));
          p3 = otherwise p2 (scan_lane s mb Normal (mb_pin mb));
          p4 = (if mb_pin mb \<noteq> None then otherwise p3 (scan_lane s mb Urgent None) else p3)
      in if mb_pin mb \<noteq> None then otherwise p4 (scan_lane s mb Normal None) else p4)"

fun report :: "entry_view list \<Rightarrow> reasons \<Rightarrow> skip list" where
  "report (e # es) (Some r # rs) = \<lparr>sk_entry = ev_id e, sk_reason = r\<rparr> # report es rs"
| "report (e # es) (None # rs) = report es rs"
| "report _ _ = []"

definition pick_v2 :: "snapshot \<Rightarrow> member \<Rightarrow> pick_outcome" where
  "pick_v2 s mb =
     (case pick_steps s mb (replicate (length (sn_entries s)) None) of
        (None, rs) \<Rightarrow> \<lparr>po_picked = None, po_skips = report (sn_entries s) rs\<rparr>
      | (Some (i, unit, declared), rs) \<Rightarrow>
          \<lparr>po_picked = Some \<lparr>pk_entry = ev_id (sn_entries s ! i), pk_unit = unit,
                             pk_declared = declared\<rparr>,
           po_skips = report (sn_entries s) (rs[i := None])\<rparr>)"

end
