(* ===== verification/Scheduler_Props.thy ===== *)
theory Scheduler_Props
  imports Scheduler
begin

text \<open>
  What the selection policy guarantees: eligibility as the conjunction of its clauses, the walk
  as a path through open sub-milestones, the four-step pick as the first eligible entry of one
  preference order, and the report of skipped entries.
\<close>

section \<open>The unit walk\<close>

definition first_open :: "tree_view \<Rightarrow> item_view option" where
  "first_open tree = find (\<lambda>it. \<not> rolled_past (iv_status it)) (tv_items tree)"

text \<open>The trees the walk opens: from one into its first open item when that is a sub.\<close>

inductive opens :: "trees \<Rightarrow> string \<Rightarrow> string \<Rightarrow> bool" for ts where
  here: "opens ts m m"
| into: "map_of ts m = Some tree \<Longrightarrow> first_open tree = Some it \<Longrightarrow> iv_kind it = Sub \<Longrightarrow>
    iv_status it \<in> {SQueued, SActive} \<Longrightarrow> opens ts (m @ ''/'' @ iv_id it) m' \<Longrightarrow> opens ts m m'"

fun walk_justified :: "trees \<Rightarrow> string \<Rightarrow> walk_outcome \<Rightarrow> bool" where
  "walk_justified ts m (WUnit (USlice m' i) ms) =
     (opens ts m m' \<and> (\<exists>tree it. map_of ts m' = Some tree \<and> first_open tree = Some it \<and>
        iv_kind it = Slice \<and> iv_id it = i \<and> iv_status it \<in> {SQueued, SActive} \<and>
        ms = iv_models it))"
| "walk_justified ts m (WUnit (UCloseOut m') ms) =
     (opens ts m m' \<and> (\<exists>tree. map_of ts m' = Some tree \<and>
        list_all (\<lambda>it. rolled_past (iv_status it)) (tv_items tree) \<and> ms = tv_models tree))"
| "walk_justified ts m (WUnit UEntry ms) = False"
| "walk_justified ts m (WBlocked at) =
     (\<exists>m' tree it. opens ts m m' \<and> map_of ts m' = Some tree \<and> first_open tree = Some it \<and>
        iv_status it = SBlocked \<and> at = m' @ '':'' @ iv_id it)"
| "walk_justified ts m WNoUnit = (\<exists>m'. opens ts m m' \<and> map_of ts m' = None)"

lemma first_open_None:
  "first_open tree = None \<longleftrightarrow> list_all (\<lambda>it. rolled_past (iv_status it)) (tv_items tree)"
  by (auto simp: first_open_def find_None_iff list_all_iff)

lemma first_open_status:
  "first_open tree = Some it \<Longrightarrow> iv_status it \<in> {SQueued, SActive, SBlocked}"
  by (cases "iv_status it") (auto simp: first_open_def find_Some_iff rolled_past_def)

lemma walk_justified_into:
  assumes "map_of ts m = Some tree" "first_open tree = Some it" "iv_kind it = Sub"
    "iv_status it \<in> {SQueued, SActive}" "walk_justified ts (m @ ''/'' @ iv_id it) w"
  shows "walk_justified ts m w"
  using assms(5) into [OF assms(1-4)]
  by (cases "(ts, m @ ''/'' @ iv_id it, w)" rule: walk_justified.cases) auto

text \<open>
  The unit the walk hands out is justified by the trees: the walk only enters sub-milestones
  that are the first open item of their parent; a slice is the first open item of the tree it
  is in and is queued or active; a close-out comes only from a tree whose items are all done,
  split or deferred; a stop names a blocked first open item; and no unit means that a tree on
  the way is missing.
\<close>

lemma walk_tree_justified: "walk_justified ts m (walk_tree ts m)"
proof (induction ts m rule: walk_tree.induct)
  case (1 ts m)
  show ?case
  proof (cases "map_of ts m")
    case None
    then show ?thesis using here by (subst walk_tree.simps) auto
  next
    case (Some tree)
    show ?thesis
    proof (cases "first_open tree")
      case None
      have step: "walk_tree ts m = WUnit (UCloseOut m) (tv_models tree)"
        by (subst walk_tree.simps) (use Some None in \<open>simp add: first_open_def\<close>)
      show ?thesis unfolding step using Some here None by (auto simp: first_open_None)
    next
      case fo: (Some it)
      have step: "walk_tree ts m =
          (if iv_status it = SBlocked then WBlocked (m @ '':'' @ iv_id it)
           else (case iv_kind it of Slice \<Rightarrow> WUnit (USlice m (iv_id it)) (iv_models it)
                 | Sub \<Rightarrow> walk_tree ts (m @ ''/'' @ iv_id it)))"
        by (subst walk_tree.simps) (use Some fo in \<open>simp add: first_open_def\<close>)
      show ?thesis
      proof (cases "iv_status it = SBlocked")
        case True
        then show ?thesis unfolding step using Some fo here by auto
      next
        case False
        then have st: "iv_status it \<in> {SQueued, SActive}" using first_open_status [OF fo] by auto
        show ?thesis
        proof (cases "iv_kind it")
          case Slice
          then show ?thesis unfolding step using False Some fo here st by auto
        next
          case Sub
          have "walk_justified ts (m @ ''/'' @ iv_id it) (walk_tree ts (m @ ''/'' @ iv_id it))"
            by (rule "1.IH" [OF Some]) (use fo False Sub in \<open>auto simp: first_open_def\<close>)
          then show ?thesis unfolding step using False Sub
            walk_justified_into [OF Some fo Sub st] by simp
        qed
      qed
    qed
  qed
qed

section \<open>Eligibility\<close>

text \<open>Another normal-lane entry of the repo is active or paused.\<close>

definition repo_taken :: "snapshot \<Rightarrow> entry_view \<Rightarrow> string \<Rightarrow> bool" where
  "repo_taken s e repo \<longleftrightarrow>
     (\<exists>other \<in> set (sn_entries s). ev_id other \<noteq> ev_id e \<and> ev_lane other = Normal \<and>
        is_started (ev_status other) \<and> repo_of s other = Some repo)"

text \<open>
  A member may take an entry exactly when every clause holds: the status is queued, active
  or paused; every link is archived done; the project exists; a normal-lane entry finds its repo
  free; an active entry is not held by another member; an opencode member is not offered a
  remote repo; and the walk yields the unit, whose declared models, if any, include one the
  member's backend runs.
\<close>

lemma eligible_iff:
  "eligible s mb e = Inr (unit, models) \<longleftrightarrow>
     ev_status e \<in> {EQueued, EActive, EPaused} \<and>
     set (ev_after e) \<subseteq> set (sn_done_ids s) \<and>
     (\<exists>repo. repo_of s e = Some repo \<and>
        \<not> (ev_lane e = Normal \<and> repo_taken s e repo) \<and>
        \<not> (mb_backend mb = Opencode \<and> CHR '':'' \<in> set repo)) \<and>
     \<not> (ev_status e = EActive \<and> ev_holder e \<notin> {None, Some (mb_id mb)}) \<and>
     next_unit s e = WUnit unit models \<and>
     (case models of None \<Rightarrow> True | Some ms \<Rightarrow> backend_can_run ms (mb_backend mb))"
proof (cases "ev_status e \<in> {EQueued, EActive, EPaused} \<and> set (ev_after e) \<subseteq> set (sn_done_ids s)")
  case False
  then show ?thesis by (auto simp: eligible_def list_ex_iff)
next
  case True
  then have after: "\<not> list_ex (\<lambda>i. i \<notin> set (sn_done_ids s)) (ev_after e)"
    by (auto simp: list_ex_iff)
  show ?thesis
  proof (cases "repo_of s e")
    case None
    then show ?thesis using True after by (simp add: eligible_def)
  next
    case (Some repo)
    have taken: "list_ex (\<lambda>other. ev_id other \<noteq> ev_id e \<and> ev_lane other = Normal \<and>
        is_started (ev_status other) \<and> repo_of s other = Some repo) (sn_entries s)
        \<longleftrightarrow> repo_taken s e repo"
      by (simp add: list_ex_iff repo_taken_def)
    have held: "(case ev_holder e of None \<Rightarrow> False | Some h \<Rightarrow> h \<noteq> mb_id mb) \<longleftrightarrow>
        ev_holder e \<notin> {None, Some (mb_id mb)}"
      by (cases "ev_holder e") auto
    show ?thesis
      using True after Some
      by (auto simp: eligible_def taken held split: walk_outcome.splits option.splits)
  qed
qed

lemma eligible_not_pinned: "eligible s mb e \<noteq> Inl NotPinned"
  by (auto simp: eligible_def res_simps split: walk_outcome.splits option.splits)

section \<open>The pick\<close>

text \<open>The assignment of an index, and the order in which the four steps try the indices.\<close>

definition take_unit :: "snapshot \<Rightarrow> member \<Rightarrow> nat \<Rightarrow> (nat \<times> work_unit \<times> model_list option) option" where
  "take_unit s mb i =
     (case eligible s mb (sn_entries s ! i) of Inr u \<Rightarrow> Some (i, u) | Inl _ \<Rightarrow> None)"

definition in_pin :: "string option \<Rightarrow> entry_view \<Rightarrow> bool" where
  "in_pin pin e = (case pin of Some p \<Rightarrow> ev_project e = p | None \<Rightarrow> True)"

definition lane_order :: "snapshot \<Rightarrow> lane \<Rightarrow> string option \<Rightarrow> nat list" where
  "lane_order s ln pin =
     filter (\<lambda>i. ev_lane (sn_entries s ! i) = ln \<and> in_pin pin (sn_entries s ! i))
       [0..<length (sn_entries s)]"

definition preference_order :: "snapshot \<Rightarrow> member \<Rightarrow> nat list" where
  "preference_order s mb =
     lane_order s Urgent (mb_pin mb) @ resume_order s mb @ lane_order s Normal (mb_pin mb)
       @ (if mb_pin mb = None then [] else lane_order s Urgent None @ lane_order s Normal None)"

lemma fst_scan_from:
  "fst (scan_from s mb ln pin is rs) =
     find_map (take_unit s mb)
       (filter (\<lambda>i. ev_lane (sn_entries s ! i) = ln \<and> in_pin pin (sn_entries s ! i)) is)"
proof (induction "is" arbitrary: rs)
  case Nil
  then show ?case by simp
next
  case (Cons i "is")
  have pin: "(case pin of Some p \<Rightarrow> ev_project (sn_entries s ! i) \<noteq> p | None \<Rightarrow> False) \<longleftrightarrow>
      \<not> in_pin pin (sn_entries s ! i)"
    by (simp add: in_pin_def split: option.splits)
  show ?case
    using Cons.IH by (auto simp: Let_def pin take_unit_def split: sum.splits)
qed

lemma fst_scan_lane:
  "fst (scan_lane s mb ln pin rs) = find_map (take_unit s mb) (lane_order s ln pin)"
  by (simp add: scan_lane_def fst_scan_from lane_order_def)

lemma fst_resume_from: "fst (resume_from s mb is rs) = find_map (take_unit s mb) is"
  by (induction "is" arbitrary: rs) (auto simp: take_unit_def split: sum.splits)

lemma fst_otherwise:
  "fst (otherwise p f) = (case fst p of Some x \<Rightarrow> Some x | None \<Rightarrow> fst (f (snd p)))"
  by (cases p) (auto simp: otherwise_def split: option.splits)

lemma fst_pick_steps:
  "fst (pick_steps s mb rs) = find_map (take_unit s mb) (preference_order s mb)"
  by (auto simp: pick_steps_def Let_def preference_order_def fst_otherwise fst_scan_lane
      fst_resume_from find_map_append split: option.splits)

definition as_pick :: "snapshot \<Rightarrow> nat \<times> work_unit \<times> model_list option \<Rightarrow> pick" where
  "as_pick s f = (case f of (i, unit, declared) \<Rightarrow>
     \<lparr>pk_entry = ev_id (sn_entries s ! i), pk_unit = unit, pk_declared = declared\<rparr>)"

lemma picked_conv:
  "po_picked (pick_v2 s mb) =
     map_option (as_pick s) (find_map (take_unit s mb) (preference_order s mb))"
  unfolding fst_pick_steps [of s mb "replicate (length (sn_entries s)) None", symmetric]
  by (auto simp: pick_v2_def as_pick_def split: option.splits prod.splits)

text \<open>
  C11. The four steps pick the first eligible entry of one preference order: the urgent lane in
  file order, within the pin if the member has one; the member's own entries, the active one
  and then the paused ones, most recent first; the normal lane in file order, within the pin;
  and for a pinned member the urgent and the normal lane again without it.
\<close>

theorem pick_is_first_eligible:
  "po_picked (pick_v2 s mb) =
     map_option (as_pick s) (find_map (take_unit s mb) (preference_order s mb))"
  by (rule picked_conv)

lemma own_entries_range: "set (own_entries s mb) \<subseteq> {..<length (sn_entries s)}"
  by (auto simp: own_entries_def)

lemma resume_order_own: "set (resume_order s mb) \<subseteq> set (own_entries s mb)"
  by (auto simp: resume_order_def Let_def dest: find_in_set [OF sym]
      split: option.splits)

lemma lane_order_range: "set (lane_order s ln pin) \<subseteq> {..<length (sn_entries s)}"
  by (auto simp: lane_order_def)

lemma preference_order_set:
  "set (preference_order s mb) = {..<length (sn_entries s)}"
proof
  have "set (resume_order s mb) \<subseteq> {..<length (sn_entries s)}"
    using resume_order_own own_entries_range by (rule subset_trans)
  then show "set (preference_order s mb) \<subseteq> {..<length (sn_entries s)}"
    using lane_order_range by (simp add: preference_order_def)
next
  have all: "{..<length (sn_entries s)} \<subseteq>
      set (lane_order s Urgent None) \<union> set (lane_order s Normal None)"
  proof
    fix i
    assume "i \<in> {..<length (sn_entries s)}"
    then show "i \<in> set (lane_order s Urgent None) \<union> set (lane_order s Normal None)"
      by (cases "ev_lane (sn_entries s ! i)") (simp_all add: lane_order_def in_pin_def)
  qed
  show "{..<length (sn_entries s)} \<subseteq> set (preference_order s mb)"
    using all by (cases "mb_pin mb") (auto simp: preference_order_def)
qed

lemma picked_none:
  "po_picked (pick_v2 s mb) = None \<longleftrightarrow>
     list_all (\<lambda>e. \<not> is_ok (eligible s mb e)) (sn_entries s)"
proof -
  have "take_unit s mb i = None \<longleftrightarrow> \<not> is_ok (eligible s mb (sn_entries s ! i))" for i
    by (simp add: take_unit_def is_ok_def split: sum.splits)
  then show ?thesis
    by (auto simp: picked_conv find_map_None preference_order_set list_all_length)
qed

section \<open>The report\<close>

definition skip_justified :: "snapshot \<Rightarrow> member \<Rightarrow> entry_view \<Rightarrow> skip_reason \<Rightarrow> bool" where
  "skip_justified s mb e r \<longleftrightarrow>
     eligible s mb e = Inl r \<or> (r = NotPinned \<and> \<not> in_pin (mb_pin mb) e)"

definition reasons_ok :: "snapshot \<Rightarrow> member \<Rightarrow> reasons \<Rightarrow> bool" where
  "reasons_ok s mb rs \<longleftrightarrow> length rs = length (sn_entries s) \<and>
     (\<forall>i < length rs. \<forall>r. rs ! i = Some r \<longrightarrow> skip_justified s mb (sn_entries s ! i) r)"

definition recorded :: "snapshot \<Rightarrow> member \<Rightarrow> reasons \<Rightarrow> nat \<Rightarrow> bool" where
  "recorded s mb rs i \<longleftrightarrow>
     (\<exists>r. eligible s mb (sn_entries s ! i) = Inl r \<and> rs ! i = Some r)"

lemma record_skip_ok:
  "reasons_ok s mb rs \<Longrightarrow> skip_justified s mb (sn_entries s ! i) r \<Longrightarrow>
     reasons_ok s mb (record_skip rs i r)"
  by (cases "i < length rs")
    (auto simp: reasons_ok_def record_skip_def nth_list_update split: if_splits)

lemma record_skip_keeps:
  assumes "recorded s mb rs j"
  shows "recorded s mb (record_skip rs i r) j"
proof -
  obtain x where x: "eligible s mb (sn_entries s ! j) = Inl x" "rs ! j = Some x"
    using assms by (auto simp: recorded_def)
  then have "x \<noteq> NotPinned" using eligible_not_pinned by metis
  then have "record_skip rs i r ! j = Some x"
    using x by (cases "i = j") (auto simp: record_skip_def)
  with x show ?thesis by (simp add: recorded_def)
qed

lemma record_skip_records:
  assumes "reasons_ok s mb rs" "i < length (sn_entries s)"
    "eligible s mb (sn_entries s ! i) = Inl r"
  shows "recorded s mb (record_skip rs i r) i"
proof -
  have "r \<noteq> NotPinned" using assms(3) eligible_not_pinned by metis
  moreover have "rs ! i = None \<or> rs ! i = Some NotPinned \<or> rs ! i = Some r"
    using assms by (cases "rs ! i") (auto simp: reasons_ok_def skip_justified_def)
  ultimately show ?thesis
    using assms by (auto simp: recorded_def record_skip_def reasons_ok_def)
qed

text \<open>What every scan does to the reasons, whatever it finds.\<close>

definition scan_fact :: "snapshot \<Rightarrow> member \<Rightarrow> nat list \<Rightarrow> reasons \<Rightarrow> found \<times> reasons \<Rightarrow> bool" where
  "scan_fact s mb is rs res \<longleftrightarrow>
     reasons_ok s mb (snd res) \<and> (\<forall>j. recorded s mb rs j \<longrightarrow> recorded s mb (snd res) j) \<and>
     (fst res = None \<longrightarrow> (\<forall>i \<in> set is. recorded s mb (snd res) i))"

lemma scan_factI:
  assumes "scan_fact s mb is (record_skip rs i r) res" "reasons_ok s mb rs"
    "i < length (sn_entries s)" "eligible s mb (sn_entries s ! i) = Inl r"
  shows "scan_fact s mb (i # is) rs res"
  using assms record_skip_keeps record_skip_records [OF assms(2-4)]
  by (auto simp: scan_fact_def)

lemma scan_fact_skip:
  assumes "scan_fact s mb is (record_skip rs i r) res"
  shows "scan_fact s mb is rs res"
  using assms record_skip_keeps by (auto simp: scan_fact_def)

lemma scan_fact_found:
  "reasons_ok s mb rs \<Longrightarrow> scan_fact s mb is rs (Some f, rs)"
  by (simp add: scan_fact_def)

lemma scan_from_fact:
  assumes "pin = None \<or> pin = mb_pin mb"
  shows "reasons_ok s mb rs \<Longrightarrow> set is \<subseteq> {..<length (sn_entries s)} \<Longrightarrow>
    scan_fact s mb
      (filter (\<lambda>i. ev_lane (sn_entries s ! i) = ln \<and> in_pin pin (sn_entries s ! i)) is) rs
      (scan_from s mb ln pin is rs)"
proof (induction "is" arbitrary: rs)
  case Nil
  then show ?case by (simp add: scan_fact_def)
next
  case (Cons i "is")
  let ?e = "sn_entries s ! i"
  have out: "(case pin of Some p \<Rightarrow> ev_project ?e \<noteq> p | None \<Rightarrow> False) \<longleftrightarrow> \<not> in_pin pin ?e"
    by (simp add: in_pin_def split: option.splits)
  consider (lane) "ev_lane ?e \<noteq> ln" | (pin) "ev_lane ?e = ln" "\<not> in_pin pin ?e"
    | (found) u m where "ev_lane ?e = ln" "in_pin pin ?e" "eligible s mb ?e = Inr (u, m)"
    | (skip) r where "ev_lane ?e = ln" "in_pin pin ?e" "eligible s mb ?e = Inl r"
    by (cases "eligible s mb ?e") auto
  then show ?case
  proof cases
    case lane
    then show ?thesis using Cons by simp
  next
    case pin
    then have "skip_justified s mb ?e NotPinned"
      using assms by (auto simp: skip_justified_def in_pin_def)
    then have "reasons_ok s mb (record_skip rs i NotPinned)"
      using Cons.prems record_skip_ok by simp
    from Cons.IH [OF this] Cons.prems show ?thesis
      using pin by (auto simp: out Let_def intro: scan_fact_skip)
  next
    case found
    then show ?thesis using Cons.prems by (simp add: out Let_def scan_fact_found)
  next
    case skip
    then have "reasons_ok s mb (record_skip rs i r)"
      using Cons.prems record_skip_ok by (simp add: skip_justified_def)
    from Cons.IH [OF this] Cons.prems show ?thesis
      using skip by (auto simp: out Let_def intro: scan_factI)
  qed
qed

lemma scan_lane_fact:
  "pin = None \<or> pin = mb_pin mb \<Longrightarrow> reasons_ok s mb rs \<Longrightarrow>
     scan_fact s mb (lane_order s ln pin) rs (scan_lane s mb ln pin rs)"
  using scan_from_fact [of pin mb s rs "[0..<length (sn_entries s)]" ln]
  by (simp add: scan_lane_def lane_order_def atLeast0LessThan)

lemma resume_from_fact:
  "reasons_ok s mb rs \<Longrightarrow> set is \<subseteq> {..<length (sn_entries s)} \<Longrightarrow>
     scan_fact s mb is rs (resume_from s mb is rs)"
proof (induction "is" arbitrary: rs)
  case Nil
  then show ?case by (simp add: scan_fact_def)
next
  case (Cons i "is")
  show ?case
  proof (cases "eligible s mb (sn_entries s ! i)")
    case (Inl r)
    then have "reasons_ok s mb (record_skip rs i r)"
      using Cons.prems record_skip_ok by (simp add: skip_justified_def)
    from Cons.IH [OF this] Cons.prems Inl show ?thesis by (auto intro: scan_factI)
  next
    case (Inr u)
    then show ?thesis using Cons.prems by (cases u) (simp add: scan_fact_found)
  qed
qed

lemma otherwise_fact:
  assumes "scan_fact s mb is rs p"
    and "\<And>rs'. reasons_ok s mb rs' \<Longrightarrow> scan_fact s mb js rs' (f rs')"
  shows "scan_fact s mb (is @ js) rs (otherwise p f)"
proof (cases "fst p")
  case None
  then obtain rs' where p: "p = (None, rs')" by (cases p) auto
  then show ?thesis using assms(1) assms(2) [of rs'] by (auto simp: otherwise_def scan_fact_def)
next
  case (Some x)
  then obtain rs' where p: "p = (Some x, rs')" by (cases p) auto
  then show ?thesis using assms(1) by (simp add: otherwise_def scan_fact_def)
qed

lemma pick_steps_fact:
  assumes "reasons_ok s mb rs"
  shows "scan_fact s mb (preference_order s mb) rs (pick_steps s mb rs)"
proof -
  have resume: "set (resume_order s mb) \<subseteq> {..<length (sn_entries s)}"
    using resume_order_own own_entries_range by (rule subset_trans)
  let ?pin = "mb_pin mb"
  have p1: "scan_fact s mb (lane_order s Urgent ?pin) rs (scan_lane s mb Urgent ?pin rs)"
    by (rule scan_lane_fact) (simp_all add: assms)
  note p2 = otherwise_fact [OF p1 resume_from_fact [OF _ resume]]
  note p3 = otherwise_fact [OF p2 scan_lane_fact [of ?pin mb s _ Normal]]
  note p4 = otherwise_fact [OF p3 scan_lane_fact [of None mb s _ Urgent]]
  note p5 = otherwise_fact [OF p4 scan_lane_fact [of None mb s _ Normal]]
  show ?thesis
    using p3 p5 by (auto simp: pick_steps_def Let_def preference_order_def)
qed

lemma reasons_ok_start: "reasons_ok s mb (replicate (length (sn_entries s)) None)"
  by (simp add: reasons_ok_def)

lemma nth_update_None: "xs[j := None] ! i = Some r \<Longrightarrow> xs ! i = Some r \<or> length xs \<le> i"
  by (cases "j = i"; cases "i < length xs") auto

lemma report_some:
  "length rs = length es \<Longrightarrow>
     report es rs = map (\<lambda>(e, x). \<lparr>sk_entry = ev_id e, sk_reason = the x\<rparr>)
       (filter (\<lambda>(_, x). x \<noteq> None) (zip es rs))"
  by (induction es rs rule: list_induct2') (auto split: option.splits)

text \<open>
  C34. A member gets nothing exactly when the report names every entry of the list, in file
  order, each with the clause of eligibility it really fails.
\<close>

theorem nothing_picked_iff_all_skipped:
  "po_picked (pick_v2 s mb) = None \<longleftrightarrow>
     list_all2 (\<lambda>e sk. sk_entry sk = ev_id e \<and> eligible s mb e = Inl (sk_reason sk))
       (sn_entries s) (po_skips (pick_v2 s mb))"
proof
  let ?start = "replicate (length (sn_entries s)) None"
  assume none: "po_picked (pick_v2 s mb) = None"
  then obtain rs where p: "pick_steps s mb ?start = (None, rs)"
    by (auto simp: pick_v2_def split: prod.splits option.splits)
  then have ok: "reasons_ok s mb rs" and all: "\<forall>i < length (sn_entries s). recorded s mb rs i"
    using pick_steps_fact [OF reasons_ok_start, of s mb]
    by (auto simp: scan_fact_def preference_order_set)
  have skips: "po_skips (pick_v2 s mb) = report (sn_entries s) rs" by (simp add: pick_v2_def p)
  have len: "length rs = length (sn_entries s)" using ok by (simp add: reasons_ok_def)
  have "filter (\<lambda>(_, x). x \<noteq> None) (zip (sn_entries s) rs) = zip (sn_entries s) rs"
    using all len by (auto simp: filter_id_conv set_zip recorded_def)
  then have eq: "report (sn_entries s) rs =
      map (\<lambda>(e, x). \<lparr>sk_entry = ev_id e, sk_reason = the x\<rparr>) (zip (sn_entries s) rs)"
    by (simp add: report_some [OF len])
  show "list_all2 (\<lambda>e sk. sk_entry sk = ev_id e \<and> eligible s mb e = Inl (sk_reason sk))
       (sn_entries s) (po_skips (pick_v2 s mb))"
    unfolding skips eq list_all2_conv_all_nth using all len by (auto simp: recorded_def)
next
  assume "list_all2 (\<lambda>e sk. sk_entry sk = ev_id e \<and> eligible s mb e = Inl (sk_reason sk))
       (sn_entries s) (po_skips (pick_v2 s mb))"
  then show "po_picked (pick_v2 s mb) = None"
    by (auto simp: picked_none list_all_length list_all2_conv_all_nth)
qed

text \<open>
  The report never lies: the skipped entries are listed in file order, the picked one is
  not among them, and each reason is the clause the entry fails or, for a pinned member only,
  that the entry is outside its pin.
\<close>

lemma skips_justified:
  "\<exists>is. sorted_wrt (<) is \<and> set is \<subseteq> {..<length (sn_entries s)} \<and>
     list_all2 (\<lambda>i sk. sk_entry sk = ev_id (sn_entries s ! i) \<and>
         skip_justified s mb (sn_entries s ! i) (sk_reason sk))
       is (po_skips (pick_v2 s mb)) \<and>
     (case find_map (take_unit s mb) (preference_order s mb) of
        None \<Rightarrow> True | Some (i, _) \<Rightarrow> i \<notin> set is)"
proof -
  let ?start = "replicate (length (sn_entries s)) None"
  let ?n = "length (sn_entries s)"
  obtain f rs where p: "pick_steps s mb ?start = (f, rs)" by (cases "pick_steps s mb ?start") auto
  define rs' where "rs' = (case f of None \<Rightarrow> rs | Some (i, _) \<Rightarrow> rs[i := None])"
  have f: "f = find_map (take_unit s mb) (preference_order s mb)"
    using fst_pick_steps [of s mb ?start] p by simp
  have ok: "reasons_ok s mb rs"
    using pick_steps_fact [OF reasons_ok_start, of s mb] p by (simp add: scan_fact_def)
  then have len: "length rs' = ?n" by (auto simp: rs'_def reasons_ok_def split: option.splits)
  have sub: "rs' ! i = Some r \<Longrightarrow> i < ?n \<Longrightarrow> skip_justified s mb (sn_entries s ! i) r" for i r
    using ok by (auto simp: rs'_def reasons_ok_def dest!: nth_update_None split: option.splits)
  have skips: "po_skips (pick_v2 s mb) = report (sn_entries s) rs'"
    by (auto simp: pick_v2_def p rs'_def split: option.splits)
  let ?is = "filter (\<lambda>i. rs' ! i \<noteq> None) [0..<?n]"
  have zip: "zip (sn_entries s) rs' = map (\<lambda>i. (sn_entries s ! i, rs' ! i)) [0..<?n]"
    using len by (auto intro!: nth_equalityI)
  have rep: "report (sn_entries s) rs' =
      map (\<lambda>i. \<lparr>sk_entry = ev_id (sn_entries s ! i), sk_reason = the (rs' ! i)\<rparr>) ?is"
    by (simp add: report_some [OF len] zip filter_map comp_def)
  have out: "case f of None \<Rightarrow> True | Some (i, _) \<Rightarrow> i \<notin> set ?is"
  proof (cases f)
    case (Some x)
    then obtain i u where x: "f = Some (i, u)" by (cases x) auto
    then have "rs' ! i = None \<or> \<not> i < ?n"
      using len by (auto simp: rs'_def)
    then show ?thesis by (auto simp: x)
  qed simp
  show ?thesis
    unfolding skips rep f [symmetric]
    by (intro exI [of _ ?is] conjI)
      (use sub out in \<open>auto simp: list.rel_map list_all2_same sorted_wrt_filter\<close>)
qed

end
