(* ===== verification/V2_Source.thy ===== *)
theory V2_Source
  imports Scheduler "HOL-Library.AList"
begin

text \<open>
  The fleet's reader of the backlog (\<^verbatim>\<open>crates/softfig-growlightd/src/v2_source.rs\<close>): the
  files read through the mount, parsed, validated and reduced to the snapshot of the
  scheduler, and the per-tick load with its alert-once memory.
\<close>

section \<open>Errors\<close>

datatype decl_error =
    AmbiguousDoc string number_error
  | Unresolved resolve_error

datatype v2_source_error =
    Unreadable string string
  | InvalidFile string queue_v2_error
  | InvalidState string queue_refusal
  | InvalidModelDecl string decl_error

text \<open>The rendering; \<open>decl_text\<close> renders what the model parser reports through its error crate.\<close>

fun show_v2_error :: "(decl_error \<Rightarrow> string) \<Rightarrow> v2_source_error \<Rightarrow> string" where
  "show_v2_error decl_text (Unreadable rel cause) = rel @ '': unreadable ('' @ cause @ '')''"
| "show_v2_error decl_text (InvalidFile rel source) = rel @ '': '' @ show_queue_v2_error source"
| "show_v2_error decl_text (InvalidState rel refusal) = rel @ '': '' @ show_refusal refusal"
| "show_v2_error decl_text (InvalidModelDecl context message) =
     context @ '': invalid '' @ [CHR 0x60] @ ''> Model:'' @ [CHR 0x60] @ '' declaration (''
       @ decl_text message @ '')''"

section \<open>Reading\<close>

text \<open>The mount and the deserialisers of the three file shapes.\<close>

record source =
  src_mount :: mount
  src_queue :: "queue_toml toml_codec"
  src_archive :: "queue_archive_toml toml_codec"
  src_slices :: "slices_toml toml_codec"

definition read_v2_file :: "mount \<Rightarrow> string \<Rightarrow> v2_source_error + string option" where
  "read_v2_file m rel =
     (case m_read m rel of
        ReadText txt \<Rightarrow> Inr (Some txt)
      | ReadNotFound \<Rightarrow> Inr None
      | ReadFailed cause \<Rightarrow> Inl (Unreadable rel cause))"

definition read_to_string_ok :: "mount \<Rightarrow> string \<Rightarrow> string option" where
  "read_to_string_ok m path = (case m_read m path of ReadText txt \<Rightarrow> Some txt | _ \<Rightarrow> None)"

definition quoted2 :: "string \<Rightarrow> string" where
  "quoted2 s = [CHR 0x22] @ s @ [CHR 0x22]"

definition chain_context :: "string \<Rightarrow> string option \<Rightarrow> string" where
  "chain_context item slice_no =
     (case slice_no of
        Some s \<Rightarrow> ''milestone '' @ quoted2 item @ '' slice '' @ quoted2 s
      | None \<Rightarrow> ''entry '' @ quoted2 item)"

definition file_name :: "string \<Rightarrow> string" where
  "file_name path = last (split_on (CHR ''/'') path)"

definition resolve_chain ::
  "mount \<Rightarrow> string \<Rightarrow> string option \<Rightarrow> v2_source_error + model_list option" where
  "resolve_chain m item slice_no =
     (let context = chain_context item slice_no
      in try_with
           (map_err (\<lambda>(dir, e). InvalidModelDecl context (AmbiguousDoc dir e))
              (item_doc_candidates m item slice_no)) (\<lambda>candidates.
         (case resolve_item_models
                 (map (\<lambda>path. (file_name path, read_to_string_ok m path)) candidates) of
            Inr (Some declared) \<Rightarrow> Inr (Some (dm_list declared))
          | Inr None \<Rightarrow> Inr None
          | Inl e \<Rightarrow> Inl (InvalidModelDecl context (Unresolved e)))))"

section \<open>The slice trees\<close>

definition slashes :: "string \<Rightarrow> nat" where
  "slashes m = count_list m (CHR ''/'')"

lemma slashes_sub: "slashes (m @ CHR ''/'' # i) = Suc (slashes m + slashes i)"
  by (simp add: slashes_def)

lemma sub_depth_ok: "sub_depth m = Inr () \<longleftrightarrow> slashes m < 3"
  by (auto simp: sub_depth_def slashes_def)

definition item_of :: "slice_item \<Rightarrow> model_list option \<Rightarrow> u64 \<Rightarrow> item_view" where
  "item_of it models follow_ups =
     \<lparr>iv_kind = i_kind it, iv_id = i_id it, iv_status = i_status it, iv_models = models,
      iv_follow_ups = follow_ups\<rparr>"

text \<open>
  \<open>load_tree\<close> and the loop over the items of one file. The recursion ends because a nested
  identity has one more slash and \<open>sub_depth\<close> refuses the third.
\<close>

function load_tree :: "source \<Rightarrow> string \<Rightarrow> trees \<Rightarrow> v2_source_error + trees"
  and load_items ::
    "source \<Rightarrow> string \<Rightarrow> slice_item list \<Rightarrow> trees \<Rightarrow> v2_source_error + (item_view list \<times> trees)"
  where
  "load_tree src m ts =
     (let rel = slices_file m in
      try_with (read_v2_file (src_mount src) rel) (\<lambda>raw.
      (case raw of
         None \<Rightarrow> Inr ts
       | Some txt \<Rightarrow>
           try_with (map_err (InvalidFile rel) (slices_parse (src_slices src) txt)) (\<lambda>slices.
           try_with (map_err (InvalidState rel) (slices_validate slices m)) (\<lambda>_.
           try_with (load_items src m (s_items slices) ts) (\<lambda>(items, ts').
           try_with (resolve_chain (src_mount src) m None) (\<lambda>models.
           Inr (AList.update m \<lparr>tv_items = items, tv_models = models\<rparr> ts'))))))))"
| "load_items src m [] ts = Inr ([], ts)"
| "load_items src m (it # its) ts =
     (case i_kind it of
        Slice \<Rightarrow>
          try_with (resolve_chain (src_mount src) m (Some (i_id it))) (\<lambda>models.
          try_with (load_items src m its ts) (\<lambda>(items, ts').
          Inr (item_of it models (case i_follow_ups it of Some n \<Rightarrow> n | None \<Rightarrow> 0) # items, ts')))
      | Sub \<Rightarrow>
          (case sub_depth (m @ ''/'' @ i_id it) of
             Inl refusal \<Rightarrow> Inl (InvalidState (slices_file m) refusal)
           | Inr _ \<Rightarrow>
               try_with (load_tree src (m @ ''/'' @ i_id it) ts) (\<lambda>ts1.
               try_with (load_items src m its ts1) (\<lambda>(items, ts').
               Inr (item_of it None 0 # items, ts')))))"
  by pat_completeness auto
termination
  by (relation "measures
      [\<lambda>x. case x of Inl (src, m, ts) \<Rightarrow> 3 - slashes m | Inr (src, m, its, ts) \<Rightarrow> 3 - slashes m,
       \<lambda>x. case x of Inl (src, m, ts) \<Rightarrow> 1 | Inr (src, m, its, ts) \<Rightarrow> 0,
       \<lambda>x. case x of Inl (src, m, ts) \<Rightarrow> 0 | Inr (src, m, its, ts) \<Rightarrow> length its]")
    (auto simp: slashes_sub sub_depth_ok)

declare load_tree.simps [simp del] load_items.simps [simp del]

section \<open>The snapshot\<close>

definition entry_view_of :: "entry \<Rightarrow> model_list option \<Rightarrow> entry_view" where
  "entry_view_of e models =
     \<lparr>ev_id = e_id e, ev_kind = e_kind e, ev_project = e_project e, ev_lane = e_lane e,
      ev_status = e_status e, ev_after = e_after e, ev_claimed = e_claimed e,
      ev_follow_ups = e_follow_ups e, ev_pending = e_pending_status e, ev_holder = None,
      ev_models = models\<rparr>"

fun load_entries :: "source \<Rightarrow> entry list \<Rightarrow> trees \<Rightarrow> v2_source_error + (entry_view list \<times> trees)" where
  "load_entries src [] ts = Inr ([], ts)"
| "load_entries src (e # es) ts =
     (case e_kind e of
        Milestone \<Rightarrow>
          try_with (load_tree src (e_id e) ts) (\<lambda>ts1.
          try_with (load_entries src es ts1) (\<lambda>(views, ts').
          Inr (entry_view_of e None # views, ts')))
      | _ \<Rightarrow>
          try_with (resolve_chain (src_mount src) (e_id e) None) (\<lambda>models.
          try_with (load_entries src es ts) (\<lambda>(views, ts').
          Inr (entry_view_of e models # views, ts'))))"

definition load_archive :: "source \<Rightarrow> v2_source_error + queue_archive_toml" where
  "load_archive src =
     try_with (read_v2_file (src_mount src) queue_archive_file) (\<lambda>raw.
     (case raw of
        Some txt \<Rightarrow> map_err (InvalidFile queue_archive_file) (archive_parse (src_archive src) txt)
      | None \<Rightarrow> Inr (archive_new [])))"

definition assemble :: "source \<Rightarrow> v2_source_error + snapshot option" where
  "assemble src =
     try_with (read_v2_file (src_mount src) queue_file) (\<lambda>raw.
     (case raw of
        None \<Rightarrow> Inr None
      | Some txt \<Rightarrow>
          try_with (map_err (InvalidFile queue_file) (queue_parse (src_queue src) txt)) (\<lambda>q.
          try_with (load_archive src) (\<lambda>ar.
          try_with (map_err (InvalidState queue_file) (validate q ar)) (\<lambda>_.
          try_with (load_entries src (q_entries q) []) (\<lambda>(views, ts).
          Inr (Some
            \<lparr>sn_projects = map (\<lambda>p. \<lparr>pv_name = p_name p, pv_repo = p_repo p\<rparr>) (q_projects q),
             sn_entries = views, sn_trees = ts,
             sn_done_ids = map (e_id \<circ> a_row)
               (filter (\<lambda>a. a_final_status a = FDone) (a_entries ar))\<rparr>)))))))"

section \<open>The tick\<close>

datatype v2_load =
    Snapshot snapshot
  | Absent
  | Failed v2_source_error bool

text \<open>One tick over the alert memory \<open>prev\<close>: the verdict and the new memory.\<close>

definition load_tick ::
  "(decl_error \<Rightarrow> string) \<Rightarrow> source \<Rightarrow> string option \<Rightarrow> v2_load \<times> string option" where
  "load_tick decl_text src prev =
     (case assemble src of
        Inr (Some snapshot) \<Rightarrow> (Snapshot snapshot, None)
      | Inr None \<Rightarrow> (Absent, None)
      | Inl e \<Rightarrow>
          (let rendered = show_v2_error decl_text e
           in (Failed e (prev \<noteq> Some rendered), Some rendered)))"

fun load_ticks ::
  "(decl_error \<Rightarrow> string) \<Rightarrow> source list \<Rightarrow> string option \<Rightarrow> v2_load list" where
  "load_ticks decl_text [] prev = []"
| "load_ticks decl_text (src # srcs) prev =
     (case load_tick decl_text src prev of
        (verdict, prev') \<Rightarrow> verdict # load_ticks decl_text srcs prev')"

end
