(* ===== verification/V2_Source_Props.thy ===== *)
theory V2_Source_Props
  imports V2_Source Queue_Invariant Scheduler_Props
begin

text \<open>
  What the reader guarantees: a snapshot is only ever made of valid files and mirrors them, a
  tree is missing from it only when its slices file is, and the failure alert fires exactly
  when the rendered failure differs from the one of the tick before.
\<close>

section \<open>The trees\<close>

text \<open>
  An item of the tree of a milestone shows the kind, the id and the status of the file's item. A
  slice also carries what the documents of its number declare as its models and its number of
  follow-ups; a sub-milestone has neither, its own tree says them.
\<close>

definition mirrors_item :: "source \<Rightarrow> string \<Rightarrow> slice_item \<Rightarrow> item_view \<Rightarrow> bool" where
  "mirrors_item src m it v \<longleftrightarrow>
     iv_kind v = i_kind it \<and> iv_id v = i_id it \<and> iv_status v = i_status it \<and>
     (if i_kind it = Slice
      then resolve_chain (src_mount src) m (Some (i_id it)) = Inr (iv_models v) \<and>
           iv_follow_ups v = (case i_follow_ups it of Some n \<Rightarrow> n | None \<Rightarrow> 0)
      else iv_models v = None \<and> iv_follow_ups v = 0)"

text \<open>A tree of the map mirrors a valid slices file, read from its own folder.\<close>

definition tree_ok :: "source \<Rightarrow> string \<Rightarrow> tree_view \<Rightarrow> bool" where
  "tree_ok src m tree \<longleftrightarrow>
     (\<exists>body slices. m_read (src_mount src) (slices_file m) = ReadText body \<and>
        slices_parse (src_slices src) body = Inr slices \<and> slices_ok slices m \<and>
        list_all2 (mirrors_item src m) (s_items slices) (tv_items tree) \<and>
        resolve_chain (src_mount src) m None = Inr (tv_models tree))"

definition present_or_absent :: "source \<Rightarrow> trees \<Rightarrow> string \<Rightarrow> bool" where
  "present_or_absent src ts m \<longleftrightarrow>
     map_of ts m \<noteq> None \<or> m_read (src_mount src) (slices_file m) = ReadNotFound"

definition subs_loaded :: "source \<Rightarrow> trees \<Rightarrow> string \<Rightarrow> item_view list \<Rightarrow> bool" where
  "subs_loaded src ts m items \<longleftrightarrow>
     (\<forall>it \<in> set items. iv_kind it = Sub \<longrightarrow> present_or_absent src ts (m @ ''/'' @ iv_id it))"

definition trees_ok :: "source \<Rightarrow> trees \<Rightarrow> bool" where
  "trees_ok src ts \<longleftrightarrow>
     (\<forall>m tree. map_of ts m = Some tree \<longrightarrow> tree_ok src m tree \<and> subs_loaded src ts m (tv_items tree))"

definition grows :: "trees \<Rightarrow> trees \<Rightarrow> bool" where
  "grows ts ts' \<longleftrightarrow> (\<forall>m. map_of ts m \<noteq> None \<longrightarrow> map_of ts' m \<noteq> None)"

lemma grows_refl [simp]: "grows ts ts"
  by (simp add: grows_def)

lemma grows_trans: "grows a b \<Longrightarrow> grows b c \<Longrightarrow> grows a c"
  by (simp add: grows_def)

lemma grows_update: "grows ts (AList.update m tree ts)"
  by (simp add: grows_def update_conv)

lemma present_grows: "grows ts ts' \<Longrightarrow> present_or_absent src ts m \<Longrightarrow> present_or_absent src ts' m"
  by (auto simp: grows_def present_or_absent_def)

lemma subs_loaded_grows: "grows ts ts' \<Longrightarrow> subs_loaded src ts m its \<Longrightarrow> subs_loaded src ts' m its"
  using present_grows by (auto simp: subs_loaded_def)

lemma trees_ok_update:
  assumes "trees_ok src ts" "tree_ok src m tree" "subs_loaded src ts m (tv_items tree)"
  shows "trees_ok src (AList.update m tree ts)"
  unfolding trees_ok_def
proof (intro allI impI)
  fix k t
  assume "map_of (AList.update m tree ts) k = Some t"
  then have "k = m \<and> t = tree \<or> map_of ts k = Some t" by (auto simp: update_conv split: if_splits)
  then show "tree_ok src k t \<and> subs_loaded src (AList.update m tree ts) k (tv_items t)"
    using assms subs_loaded_grows [OF grows_update] by (auto simp: trees_ok_def)
qed

lemma read_v2_file_Inr [res_simps]:
  "read_v2_file m rel = Inr (Some body) \<longleftrightarrow> m_read m rel = ReadText body"
  "read_v2_file m rel = Inr None \<longleftrightarrow> m_read m rel = ReadNotFound"
  by (auto simp: read_v2_file_def split: read_result.splits)

lemma item_of_sels [simp]:
  "iv_kind (item_of it mods n) = i_kind it" "iv_id (item_of it mods n) = i_id it"
  "iv_status (item_of it mods n) = i_status it" "iv_models (item_of it mods n) = mods"
  "iv_follow_ups (item_of it mods n) = n"
  by (simp_all add: item_of_def)

lemma mirrors_item_of:
  "mirrors_item src m it (item_of it mods n) \<longleftrightarrow>
     (if i_kind it = Slice
      then resolve_chain (src_mount src) m (Some (i_id it)) = Inr mods \<and>
           n = (case i_follow_ups it of Some k \<Rightarrow> k | None \<Rightarrow> 0)
      else mods = None \<and> n = 0)"
  by (simp add: mirrors_item_def)

lemma load_tree_read:
  "load_tree src m ts = Inr ts' \<Longrightarrow> \<exists>raw. read_v2_file (src_mount src) (slices_file m) = Inr raw"
  by (cases "read_v2_file (src_mount src) (slices_file m)") (simp_all add: load_tree.simps Let_def)

lemma load_tree_file:
  assumes "load_tree src m ts = Inr ts'"
    and "read_v2_file (src_mount src) (slices_file m) = Inr (Some body)"
  shows "\<exists>slices items ts1 mods. slices_parse (src_slices src) body = Inr slices \<and>
    slices_validate slices m = Inr () \<and>
    load_items src m (s_items slices) ts = Inr (items, ts1) \<and>
    resolve_chain (src_mount src) m None = Inr mods \<and>
    ts' = AList.update m \<lparr>tv_items = items, tv_models = mods\<rparr> ts1"
proof -
  have eq: "load_tree src m ts =
      try_with (map_err (InvalidFile (slices_file m)) (slices_parse (src_slices src) body)) (\<lambda>slices.
      try_with (map_err (InvalidState (slices_file m)) (slices_validate slices m)) (\<lambda>_.
      try_with (load_items src m (s_items slices) ts) (\<lambda>(items, ts').
      try_with (resolve_chain (src_mount src) m None) (\<lambda>mods.
      Inr (AList.update m \<lparr>tv_items = items, tv_models = mods\<rparr> ts')))))"
    by (simp add: load_tree.simps Let_def assms(2))
  show ?thesis
    using assms(1) unfolding eq try_with_Inr map_err_Inr by (auto simp: try_with_Inr)
qed

lemma load_items_slice:
  assumes "load_items src m (it # its) ts = Inr (items, ts')" "i_kind it = Slice"
  shows "\<exists>mods rest. load_items src m its ts = Inr (rest, ts') \<and>
    resolve_chain (src_mount src) m (Some (i_id it)) = Inr mods \<and>
    items = item_of it mods (case i_follow_ups it of Some n \<Rightarrow> n | None \<Rightarrow> 0) # rest"
  using assms(1) unfolding load_items.simps assms(2) slice_kind.case try_with_Inr
  by (auto simp: try_with_Inr)

lemma load_items_sub:
  assumes "load_items src m (it # its) ts = Inr (items, ts')" "i_kind it = Sub"
  shows "\<exists>u ts1 rest. sub_depth (m @ ''/'' @ i_id it) = Inr u \<and>
    load_tree src (m @ ''/'' @ i_id it) ts = Inr ts1 \<and>
    load_items src m its ts1 = Inr (rest, ts') \<and> items = item_of it None 0 # rest"
  using assms(1) unfolding load_items.simps assms(2) slice_kind.case
  by (cases "sub_depth (m @ ''/'' @ i_id it)") (auto simp: try_with_Inr)

lemma load_ok:
  shows "load_tree src m ts = Inr ts' \<Longrightarrow> trees_ok src ts \<Longrightarrow>
      trees_ok src ts' \<and> grows ts ts' \<and> present_or_absent src ts' m"
    and "load_items src m its ts = Inr (items, ts') \<Longrightarrow> trees_ok src ts \<Longrightarrow>
      trees_ok src ts' \<and> grows ts ts' \<and> list_all2 (mirrors_item src m) its items \<and>
      subs_loaded src ts' m items"
proof (induction src m ts and src m its ts arbitrary: ts' and items ts'
    rule: load_tree_load_items.induct)
  case (1 src m ts)
  show ?case
  proof (cases "read_v2_file (src_mount src) (slices_file m) = Inr None")
    case True
    then have "ts' = ts" using "1.prems"(1) by (simp add: load_tree.simps Let_def)
    then show ?thesis using True "1.prems"(2) by (simp add: present_or_absent_def res_simps)
  next
    case False
    then obtain body where b: "read_v2_file (src_mount src) (slices_file m) = Inr (Some body)"
      using load_tree_read [OF "1.prems"(1)] by (metis not_Some_eq)
    from load_tree_file [OF "1.prems"(1) b] obtain slices items ts1 mods where
        r: "slices_parse (src_slices src) body = Inr slices" "slices_validate slices m = Inr ()"
        "load_items src m (s_items slices) ts = Inr (items, ts1)"
        "resolve_chain (src_mount src) m None = Inr mods"
        "ts' = AList.update m \<lparr>tv_items = items, tv_models = mods\<rparr> ts1"
      by blast
    have its: "trees_ok src ts1 \<and> grows ts ts1 \<and> list_all2 (mirrors_item src m) (s_items slices) items \<and>
        subs_loaded src ts1 m items"
      by (rule "1.IH" [OF refl r(3) "1.prems"(2)])
    have "tree_ok src m \<lparr>tv_items = items, tv_models = mods\<rparr>"
      using b r its by (auto simp: tree_ok_def read_v2_file_Inr slices_validate_ok)
    then have "trees_ok src ts'" "grows ts ts'"
      using its trees_ok_update grows_trans [OF _ grows_update] by (simp_all add: r(5))
    then show ?thesis by (simp add: present_or_absent_def update_conv r(5))
  qed
next
  case (2 src m ts)
  then show ?case by (simp add: load_items.simps subs_loaded_def)
next
  case (3 src m it its ts)
  show ?case
  proof (cases "i_kind it")
    case Slice
    from load_items_slice [OF "3.prems"(1) Slice] obtain mods rest where
        r: "load_items src m its ts = Inr (rest, ts')"
        "items = item_of it mods (case i_follow_ups it of Some n \<Rightarrow> n | None \<Rightarrow> 0) # rest"
        "resolve_chain (src_mount src) m (Some (i_id it)) = Inr mods"
      by blast
    have "trees_ok src ts' \<and> grows ts ts' \<and> list_all2 (mirrors_item src m) its rest \<and>
        subs_loaded src ts' m rest"
      by (rule "3.IH"(1) [OF Slice r(1) "3.prems"(2)])
    then show ?thesis
      using Slice r(3) by (simp add: r(2) mirrors_item_of subs_loaded_def)
  next
    case Sub
    from load_items_sub [OF "3.prems"(1) Sub] obtain u ts1 rest where
        r: "sub_depth (m @ ''/'' @ i_id it) = Inr u"
        "load_tree src (m @ ''/'' @ i_id it) ts = Inr ts1"
        "load_items src m its ts1 = Inr (rest, ts')" "items = item_of it None 0 # rest"
      by blast
    have t: "trees_ok src ts1 \<and> grows ts ts1 \<and> present_or_absent src ts1 (m @ ''/'' @ i_id it)"
      by (rule "3.IH"(2) [OF Sub r(1,2) "3.prems"(2)])
    then have i: "trees_ok src ts' \<and> grows ts1 ts' \<and> list_all2 (mirrors_item src m) its rest \<and>
        subs_loaded src ts' m rest"
      using "3.IH"(3) [OF Sub r(1,3)] by blast
    have "grows ts ts'" "present_or_absent src ts' (m @ ''/'' @ i_id it)"
      using i t grows_trans present_grows by blast+
    then show ?thesis using i Sub by (simp add: r(4) mirrors_item_of subs_loaded_def)
  qed
qed

section \<open>The snapshot\<close>

definition mirrors_entry :: "source \<Rightarrow> entry \<Rightarrow> entry_view \<Rightarrow> bool" where
  "mirrors_entry src e v \<longleftrightarrow>
     v = entry_view_of e (ev_models v) \<and>
     (if e_kind e = Milestone then ev_models v = None
      else resolve_chain (src_mount src) (e_id e) None = Inr (ev_models v))"

lemma entry_view_of_sels [simp]:
  "ev_id (entry_view_of e mods) = e_id e" "ev_kind (entry_view_of e mods) = e_kind e"
  "ev_project (entry_view_of e mods) = e_project e" "ev_lane (entry_view_of e mods) = e_lane e"
  "ev_status (entry_view_of e mods) = e_status e" "ev_after (entry_view_of e mods) = e_after e"
  "ev_holder (entry_view_of e mods) = None" "ev_models (entry_view_of e mods) = mods"
  by (simp_all add: entry_view_of_def)

lemma mirrors_entry_sels:
  assumes "mirrors_entry src e v"
  shows "ev_id v = e_id e" "ev_kind v = e_kind e" "ev_project v = e_project e"
    "ev_lane v = e_lane e" "ev_status v = e_status e" "ev_after v = e_after e"
proof -
  obtain mods where v: "v = entry_view_of e mods"
    using assms unfolding mirrors_entry_def by blast
  show "ev_id v = e_id e" "ev_kind v = e_kind e" "ev_project v = e_project e"
    "ev_lane v = e_lane e" "ev_status v = e_status e" "ev_after v = e_after e"
    by (simp_all add: v)
qed

lemma mirrors_entry_of:
  "mirrors_entry src e (entry_view_of e mods) \<longleftrightarrow>
     (if e_kind e = Milestone then mods = None
      else resolve_chain (src_mount src) (e_id e) None = Inr mods)"
  by (simp add: mirrors_entry_def)

lemma load_entries_ok:
  "load_entries src es ts = Inr (views, ts') \<Longrightarrow> trees_ok src ts \<Longrightarrow>
     trees_ok src ts' \<and> grows ts ts' \<and> list_all2 (mirrors_entry src) es views \<and>
     (\<forall>e \<in> set es. e_kind e = Milestone \<longrightarrow> present_or_absent src ts' (e_id e))"
proof (induction es arbitrary: ts views)
  case Nil
  then show ?case by simp
next
  case (Cons e es)
  show ?case
  proof (cases "e_kind e = Milestone")
    case True
    then obtain ts1 rest where r: "load_tree src (e_id e) ts = Inr ts1"
        "load_entries src es ts1 = Inr (rest, ts')" "views = entry_view_of e None # rest"
      using Cons.prems(1) by (auto simp: res_simps)
    have t: "trees_ok src ts1 \<and> grows ts ts1 \<and> present_or_absent src ts1 (e_id e)"
      by (rule load_ok(1) [OF r(1) Cons.prems(2)])
    then have i: "trees_ok src ts' \<and> grows ts1 ts' \<and> list_all2 (mirrors_entry src) es rest \<and>
        (\<forall>e \<in> set es. e_kind e = Milestone \<longrightarrow> present_or_absent src ts' (e_id e))"
      using Cons.IH [OF r(2)] by simp
    have "grows ts ts'" "present_or_absent src ts' (e_id e)"
      using i t grows_trans present_grows by blast+
    then show ?thesis using i True by (simp add: r(3) mirrors_entry_of)
  next
    case False
    then obtain mods rest where r: "resolve_chain (src_mount src) (e_id e) None = Inr mods"
        "load_entries src es ts = Inr (rest, ts')" "views = entry_view_of e mods # rest"
      using Cons.prems(1) by (cases "e_kind e") (auto simp: res_simps)
    then show ?thesis using Cons.IH [OF r(2) Cons.prems(2)] False
      by (simp add: mirrors_entry_of)
  qed
qed

definition mirrors_files :: "source \<Rightarrow> queue_toml \<Rightarrow> queue_archive_toml \<Rightarrow> snapshot \<Rightarrow> bool" where
  "mirrors_files src q ar s \<longleftrightarrow>
     queue_ok q ar \<and> list_all2 (mirrors_entry src) (q_entries q) (sn_entries s) \<and>
     sn_projects s = map (\<lambda>p. \<lparr>pv_name = p_name p, pv_repo = p_repo p\<rparr>) (q_projects q) \<and>
     set (sn_done_ids s) = done_ids ar \<and> trees_ok src (sn_trees s) \<and>
     (\<forall>e \<in> set (q_entries q). e_kind e = Milestone \<longrightarrow>
        present_or_absent src (sn_trees s) (e_id e))"

lemma assemble_mirrors:
  assumes "assemble src = Inr (Some s)"
  shows "\<exists>raw q ar. m_read (src_mount src) queue_file = ReadText raw \<and>
    queue_parse (src_queue src) raw = Inr q \<and> load_archive src = Inr ar \<and>
    mirrors_files src q ar s"
proof -
  obtain raw where raw: "read_v2_file (src_mount src) queue_file = Inr (Some raw)"
    using assms by (auto simp: assemble_def try_with_Inr split: option.splits)
  then obtain q ar views ts where r: "queue_parse (src_queue src) raw = Inr q"
      "load_archive src = Inr ar" "validate q ar = Inr ()"
      "load_entries src (q_entries q) [] = Inr (views, ts)"
      "s = \<lparr>sn_projects = map (\<lambda>p. \<lparr>pv_name = p_name p, pv_repo = p_repo p\<rparr>) (q_projects q),
            sn_entries = views, sn_trees = ts,
            sn_done_ids = map (e_id \<circ> a_row)
              (filter (\<lambda>a. a_final_status a = FDone) (a_entries ar))\<rparr>"
    using assms by (auto simp: assemble_def raw try_with_Inr map_err_Inr)
  have "trees_ok src []" by (simp add: trees_ok_def)
  with load_entries_ok [OF r(4)] have "mirrors_files src q ar s"
    using r by (simp add: mirrors_files_def validate_ok done_ids_def)
  with raw r show ?thesis by (auto simp: res_simps)
qed

section \<open>Properties\<close>

text \<open>
  C33. The reader is fail-closed: a snapshot exists only when the queue file parses, the archive
  loads and both satisfy the file invariants, and then it mirrors them: every entry in file
  order with all its fields and its declared models, every project, exactly the ids archived as
  done, and slice trees that each mirror a valid slices file of their own folder: item by item the
  kind, the id and the status, for a slice also its follow-ups and the models its own documents
  declare, and for the tree the models of its milestone. The tree of a milestone entry or of a sub
  item is missing only when its slices file is. No entry has a holder yet.
\<close>

theorem assemble_sound:
  "assemble src = Inr (Some s) \<Longrightarrow>
     (\<exists>raw q ar. m_read (src_mount src) queue_file = ReadText raw \<and>
        queue_parse (src_queue src) raw = Inr q \<and> load_archive src = Inr ar \<and>
        mirrors_files src q ar s)"
  by (rule assemble_mirrors)

lemma opens_missing:
  assumes "opens (sn_trees s) m m'" "present_or_absent src (sn_trees s) m"
    "trees_ok src (sn_trees s)"
  shows "present_or_absent src (sn_trees s) m'"
  using assms
proof (induction rule: opens.induct)
  case (here m)
  then show ?case by simp
next
  case (into m tree it m')
  have "it \<in> set (tv_items tree)"
    using into.hyps(2) by (auto simp: first_open_def dest: find_in_set)
  then have "present_or_absent src (sn_trees s) (m @ ''/'' @ iv_id it)"
    using into.prems(2) into.hyps(1,3) by (auto simp: trees_ok_def subs_loaded_def)
  then show ?case using into by simp
qed

text \<open>
  Over a snapshot the reader assembled, the walk of a live milestone ends without a unit
  only because a slices file on its way does not exist: no read error, parse error or invalid
  file can turn into a skipped milestone.
\<close>

lemma no_unit_means_no_file:
  assumes "assemble src = Inr (Some s)" "e \<in> set (sn_entries s)" "next_unit s e = WNoUnit"
  shows "\<exists>m. opens (sn_trees s) (ev_id e) m \<and>
    m_read (src_mount src) (slices_file m) = ReadNotFound"
proof -
  obtain q ar where q: "mirrors_files src q ar s"
    using assemble_mirrors [OF assms(1)] by blast
  obtain e' where e': "e' \<in> set (q_entries q)" "mirrors_entry src e' e"
    using q assms(2) by (auto simp: mirrors_files_def dest: list_all2_in_right)
  have kind: "ev_kind e = Milestone" and walk: "walk_tree (sn_trees s) (ev_id e) = WNoUnit"
    using assms(3) by (auto simp: next_unit_def split: entry_kind.splits)
  have v: "ev_kind e = e_kind e'" "ev_id e = e_id e'"
    using mirrors_entry_sels [OF e'(2)] by simp_all
  obtain m where m: "opens (sn_trees s) (ev_id e) m" "map_of (sn_trees s) m = None"
    using walk_tree_justified [of "sn_trees s" "ev_id e"] walk by auto
  have "present_or_absent src (sn_trees s) m"
    using opens_missing [OF m(1)] q e'(1) kind v by (simp add: mirrors_files_def)
  with m show ?thesis by (auto simp: present_or_absent_def)
qed

definition failure_text :: "(decl_error \<Rightarrow> string) \<Rightarrow> source \<Rightarrow> string option" where
  "failure_text decl_text src =
     (case assemble src of Inl e \<Rightarrow> Some (show_v2_error decl_text e) | Inr _ \<Rightarrow> None)"

text \<open>
  The alert fires once per incident: over any sequence of ticks the verdict of a tick
  depends only on what it reads and on the rendered failure, if any, of the tick just before;
  it alerts exactly when the two failures differ, so a persisting failure alerts at its first
  tick only and a failure after a recovery alerts again.
\<close>

lemma alerts_once_per_incident:
  "load_ticks decl_text srcs prev =
     map2 (\<lambda>before src. case assemble src of
             Inr (Some s) \<Rightarrow> Snapshot s
           | Inr None \<Rightarrow> Absent
           | Inl e \<Rightarrow> Failed e (before \<noteq> failure_text decl_text src))
       (prev # map (failure_text decl_text) srcs) srcs"
proof (induction srcs arbitrary: prev)
  case Nil
  then show ?case by simp
next
  case (Cons src srcs)
  have "snd (load_tick decl_text src prev) = failure_text decl_text src"
    by (auto simp: load_tick_def failure_text_def Let_def split: sum.splits option.splits)
  then show ?case
    by (auto simp: Cons.IH load_tick_def failure_text_def Let_def split: sum.splits option.splits)
qed

section \<open>A concrete source\<close>

definition demo_entry :: entry where
  "demo_entry = \<lparr>e_id = ''m1'', e_kind = Milestone, e_title = ''Demo'', e_project = ''p'',
     e_lane = Normal, e_status = EQueued, e_after = [], e_added = [], e_branch = [],
     e_parent = [], e_base = [], e_claimed = [], e_follow_ups = 0, e_pending_status = None\<rparr>"

definition demo_queue :: queue_toml where
  "demo_queue =
     queue_new [\<lparr>p_name = ''p'', p_repo = ''r'', p_main = ''main''\<rparr>] [demo_entry]"

text \<open>A mount with a queue file only, and a deserialiser that knows its text.\<close>

definition demo_source :: source where
  "demo_source =
     \<lparr>src_mount = \<lparr>m_is_dir = \<lambda>p. True, m_list = \<lambda>p. None,
        m_read = \<lambda>p. if p = queue_file then ReadText ''q'' else ReadNotFound\<rparr>,
      src_queue = \<lparr>from_str = \<lambda>s. if s = ''q'' then Inr demo_queue else Inl [],
                   to_string_pretty = \<lambda>_. Inr ''q''\<rparr>,
      src_archive = \<lparr>from_str = \<lambda>_. Inl [], to_string_pretty = \<lambda>_. Inl []\<rparr>,
      src_slices = \<lparr>from_str = \<lambda>_. Inl [], to_string_pretty = \<lambda>_. Inl []\<rparr>\<rparr>"

definition demo_snapshot :: snapshot where
  "demo_snapshot =
     \<lparr>sn_projects = [\<lparr>pv_name = ''p'', pv_repo = ''r''\<rparr>],
      sn_entries = [entry_view_of demo_entry None], sn_trees = [], sn_done_ids = []\<rparr>"

lemma demo_assembles: "assemble demo_source = Inr (Some demo_snapshot)"
  by code_simp

theorem assemble_sound_witness:
  "\<exists>raw q ar. m_read (src_mount demo_source) queue_file = ReadText raw \<and>
     queue_parse (src_queue demo_source) raw = Inr q \<and> load_archive demo_source = Inr ar \<and>
     mirrors_files demo_source q ar demo_snapshot"
  by (rule assemble_sound [OF demo_assembles])

lemma no_unit_means_no_file_instance:
  "\<exists>m. opens (sn_trees demo_snapshot) ''m1'' m \<and>
     m_read (src_mount demo_source) (slices_file m) = ReadNotFound"
proof -
  have e: "entry_view_of demo_entry None \<in> set (sn_entries demo_snapshot)"
    by (simp add: demo_snapshot_def)
  have w: "next_unit demo_snapshot (entry_view_of demo_entry None) = WNoUnit" by code_simp
  show ?thesis
    using no_unit_means_no_file [OF demo_assembles e w] by (simp add: demo_entry_def)
qed

end
