(* ===== verification/Conventions.thy ===== *)
theory Conventions
  imports Text_Lib
begin

text \<open>
  Names and numbers of garden documents (\<^verbatim>\<open>crates/softfig-keeperd/src/actions/conventions.rs\<close>):
  the slug check, the numbered file name with its inverse, and the stamped body of a note.
\<close>

definition slug_max :: nat where
  "slug_max = 64"

definition seq_file :: string where
  "seq_file = ''.seq''"

datatype slug_error = SlugLength nat | SlugCharset string

definition slug_char :: "char \<Rightarrow> bool" where
  "slug_char c \<longleftrightarrow> is_lower c \<or> is_digit c \<or> c = CHR ''-''"

definition validate_slug :: "string \<Rightarrow> slug_error + unit" where
  "validate_slug slug =
     (if slug = [] \<or> length slug > slug_max then Inl (SlugLength (length slug))
      else if \<not> list_all slug_char slug then Inl (SlugCharset slug)
      else Inr ())"

definition md :: string where
  "md = ''.md''"

definition note_filename :: "nat \<Rightarrow> string \<Rightarrow> string" where
  "note_filename number slug = show_03 number @ ''-'' @ slug @ md"

definition parse_note_number :: "string \<Rightarrow> nat option" where
  "parse_note_number name =
     (if ends_with md name \<and> length name \<ge> 5 \<and> name ! 3 = CHR ''-'' \<and>
         list_all is_digit (take 3 name)
      then parse_u32 (take 3 name) else None)"

definition trim_newlines_end :: "string \<Rightarrow> string" where
  "trim_newlines_end s = trim_end_matches (\<lambda>c. c = newline) s"

definition note_doc :: "string \<Rightarrow> string \<Rightarrow> string \<Rightarrow> string" where
  "note_doc title date body =
     ''# '' @ title @ [newline, newline] @ ''> Last reviewed: '' @ date @ [newline, newline]
       @ trim_newlines_end body @ [newline]"

text \<open>
  \<open>slugify\<close>: \<open>pending\<close> is the flag \<^verbatim>\<open>pending_dash\<close>, \<open>out\<close> the slug so far. Bytes outside ASCII
  count as separators, as the code's characters outside ASCII do.
\<close>

fun slugify_loop :: "bool \<Rightarrow> string \<Rightarrow> string \<Rightarrow> string" where
  "slugify_loop pending out [] = out"
| "slugify_loop pending out (ch # chs) =
     (let c = lower_char ch in
      if is_lower c \<or> is_digit c
      then slugify_loop False ((if pending \<and> out \<noteq> [] then out @ ''-'' else out) @ [c]) chs
      else slugify_loop True out chs)"

definition slugify :: "string \<Rightarrow> string" where
  "slugify txt =
     (let out = slugify_loop False [] txt;
          cut = (if length out > slug_max
                 then trim_end_matches (\<lambda>c. c = CHR ''-'') (take slug_max out) else out)
      in if cut = [] then ''note'' else cut)"

section \<open>Lemmas\<close>

lemma validate_slug_ok:
  "validate_slug s = Inr () \<longleftrightarrow> s \<noteq> [] \<and> length s \<le> 64 \<and> list_all slug_char s"
  by (auto simp: validate_slug_def slug_max_def)

lemma length_show_nat: "n < 10 ^ Suc k \<Longrightarrow> length (show_nat n) \<le> Suc k"
proof (induction k arbitrary: n)
  case 0
  then show ?case by (subst show_nat.simps) simp
next
  case (Suc k)
  then have "n div 10 < 10 ^ Suc k" by (simp add: less_mult_imp_div_less)
  from Suc.IH [OF this] show ?case by (subst show_nat.simps) simp
qed

lemma length_show_03: "n < 1000 \<Longrightarrow> length (show_03 n) = 3"
  using length_show_nat [of n 2] by (simp add: show_03_def)

lemma show_nat_long: "1000 \<le> n \<Longrightarrow> 4 \<le> length (show_nat n)"
proof -
  assume n: "1000 \<le> n"
  have step: "m \<ge> 10 \<Longrightarrow> length (show_nat m) = Suc (length (show_nat (m div 10)))" for m
    by (subst show_nat.simps) simp
  have "length (show_nat n) = Suc (Suc (Suc (length (show_nat (n div 10 div 10 div 10)))))"
    using n step [of n] step [of "n div 10"] step [of "n div 10 div 10"] by simp
  moreover have "show_nat (n div 10 div 10 div 10) \<noteq> []" by simp
  then have "Suc 0 \<le> length (show_nat (n div 10 div 10 div 10))"
    by (cases "show_nat (n div 10 div 10 div 10)") simp_all
  ultimately show ?thesis by linarith
qed

lemma ends_with_md: "ends_with md (note_filename n slug)"
  unfolding ends_with_conv note_filename_def by (intro exI [of _ "show_03 n @ ''-'' @ slug"]) simp

lemma parse_note_filename_small:
  assumes "n < 1000" "slug \<noteq> []"
  shows "parse_note_number (note_filename n slug) = Some n"
proof -
  have len: "length (show_03 n) = 3" by (rule length_show_03 [OF assms(1)])
  then have ne: "show_03 n \<noteq> []" by auto
  from len have t: "take 3 (note_filename n slug) = show_03 n" by (simp add: note_filename_def)
  have dash: "note_filename n slug ! 3 = CHR ''-''"
    using len by (simp add: note_filename_def nth_append)
  have "length (note_filename n slug) \<ge> 5"
    using len assms(2) by (cases slug) (simp_all add: note_filename_def md_def)
  moreover have "parse_u32 (show_03 n) = Some n"
    using parse_u32_digits [OF ne show_03_digits] assms(1) by simp
  ultimately show ?thesis
    using t dash by (simp add: parse_note_number_def ends_with_md show_03_digits)
qed

lemma parse_note_filename_large:
  assumes "1000 \<le> n"
  shows "parse_note_number (note_filename n slug) = None"
proof -
  have len: "4 \<le> length (show_03 n)" using show_nat_long [OF assms] by (simp add: show_03_def)
  then have "note_filename n slug ! 3 \<in> set (show_03 n)"
    by (simp add: note_filename_def nth_append)
  then have "is_digit (note_filename n slug ! 3)"
    using show_03_digits [of n] by (simp add: list_all_iff)
  then have "note_filename n slug ! 3 \<noteq> CHR ''-''" by (auto simp: is_digit_def)
  then show ?thesis by (simp add: parse_note_number_def)
qed

lemma slugify_loop_ok:
  "list_all slug_char out \<Longrightarrow> list_all slug_char (slugify_loop pending out s)"
proof (induction pending out s rule: slugify_loop.induct)
  case (1 pending out)
  then show ?case by simp
next
  case (2 pending out ch chs)
  have dash: "slug_char (CHR ''-'')" by (simp add: slug_char_def)
  show ?case
    using 2 dash by (auto simp: Let_def slug_char_def)
qed

lemma set_trim_end: "set (trim_end_matches p s) \<subseteq> set s"
  using set_dropWhileD [of _ p "rev s"] by (auto simp: trim_end_matches_def)

lemma length_trim_end: "length (trim_end_matches p s) \<le> length s"
  using length_dropWhile_le [of p "rev s"] by (simp add: trim_end_matches_def)

section \<open>Properties\<close>

text \<open>
  A slug derived from free text always passes the slug check: it is non-empty, at most 64
  bytes long and of the slug alphabet, whatever the text.
\<close>

lemma slugify_validates: "validate_slug (slugify txt) = Inr ()"
proof -
  let ?out = "slugify_loop False [] txt"
  let ?cut = "if length ?out > 64 then trim_end_matches (\<lambda>c. c = CHR ''-'') (take 64 ?out) else ?out"
  have out: "list_all slug_char ?out" by (rule slugify_loop_ok) simp
  have len: "length ?cut \<le> 64"
    using length_trim_end [of "\<lambda>c. c = CHR ''-''" "take 64 ?out"] by auto
  have chars: "list_all slug_char ?cut"
    using out set_trim_end [of "\<lambda>c. c = CHR ''-''" "take 64 ?out"] set_take_subset [of 64 ?out]
    by (auto simp: list_all_iff)
  have fallback: "validate_slug ''note'' = Inr ()" by code_simp
  show ?thesis
    using len chars fallback unfolding slugify_def Let_def slug_max_def
    by (auto simp: validate_slug_ok)
qed

text \<open>
  C36. The number of a document is read back from its file name exactly for the numbers that fit
  the three digits of the name; from 1000 on the name is written but its number is not
  recognised.
\<close>

theorem note_number_roundtrip:
  "slug \<noteq> [] \<Longrightarrow>
     parse_note_number (note_filename n slug) = (if n < 1000 then Some n else None)"
  by (simp add: parse_note_filename_small parse_note_filename_large)

theorem note_number_roundtrip_witness:
  "parse_note_number (note_filename 7 ''plan'') = Some 7 \<and>
   parse_note_number (note_filename 1000 ''plan'') = None"
  using note_number_roundtrip [of "''plan''" 7] note_number_roundtrip [of "''plan''" 1000] by simp

end
