(* ===== verification/Managed.thy ===== *)
theory Managed
  imports Text_Lib Item_Meta
begin

text \<open>
  Managed regions (\<^verbatim>\<open>crates/softfig-keeperd/src/actions/managed.rs\<close>): the daemon-owned blocks
  of a document between two comment markers, found outside fenced code, read back, inserted or
  replaced, and removed.
\<close>

section \<open>Markers\<close>

definition open_marker :: "string \<Rightarrow> string" where
  "open_marker tag = ''<!-- softfig:'' @ tag @ '' -->''"

definition close_marker :: "string \<Rightarrow> string" where
  "close_marker tag = ''<!-- /softfig:'' @ tag @ '' -->''"

definition open_tag :: "string \<Rightarrow> string option" where
  "open_tag line =
     (case strip_prefix ''<!-- softfig:'' (trim line) of
        None \<Rightarrow> None
      | Some t \<Rightarrow>
          (case strip_suffix ''-->'' t of
             None \<Rightarrow> None
           | Some tag \<Rightarrow> if trim tag \<noteq> [] then Some (trim tag) else None))"

section \<open>The scanner\<close>

record span =
  sp_tag :: string
  sp_open :: nat
  sp_close :: nat

fun fence_mask :: "bool \<Rightarrow> string list \<Rightarrow> bool list" where
  "fence_mask inside [] = []"
| "fence_mask inside (l # ls) =
     (if is_fence l then True # fence_mask (\<not> inside) ls else inside # fence_mask inside ls)"

text \<open>
  The loop over the lines from index \<open>i\<close>, each with its fence flag. A close marker is looked
  for in the lines after the open one.
\<close>

function spans_from :: "nat \<Rightarrow> (string \<times> bool) list \<Rightarrow> span list" where
  "spans_from i [] = []"
| "spans_from i ((line, fenced) # rest) =
     (case (if fenced then None else open_tag line) of
        None \<Rightarrow> spans_from (i + 1) rest
      | Some tag \<Rightarrow>
          (case position (\<lambda>(l, f). \<not> f \<and> trim l = close_marker tag) rest of
             None \<Rightarrow> spans_from (i + 1) rest
           | Some j \<Rightarrow>
               \<lparr>sp_tag = tag, sp_open = i, sp_close = i + 1 + j\<rparr>
                 # spans_from (i + 2 + j) (drop (j + 1) rest)))"
  by pat_completeness auto
termination by (relation "measure (\<lambda>(i, ls). length ls)") auto

declare spans_from.simps(2) [simp del]

definition mask_lines :: "string list \<Rightarrow> (string \<times> bool) list" where
  "mask_lines ls = zip ls (fence_mask False ls)"

definition spans_of :: "string list \<Rightarrow> span list" where
  "spans_of ls = spans_from 0 (mask_lines ls)"

definition doc_lines :: "string \<Rightarrow> string list" where
  "doc_lines doc = split_on newline doc"

definition locate :: "string list \<Rightarrow> string \<Rightarrow> (nat \<times> nat) option" where
  "locate ls tag =
     map_option (\<lambda>s. (sp_open s, sp_close s)) (find (\<lambda>s. sp_tag s = tag) (spans_of ls))"

definition has_region :: "string \<Rightarrow> string \<Rightarrow> bool" where
  "has_region doc tag \<longleftrightarrow> locate (doc_lines doc) tag \<noteq> None"

definition blank :: "string \<Rightarrow> bool" where
  "blank l \<longleftrightarrow> trim l = []"

definition strip_blank :: "string list \<Rightarrow> string list" where
  "strip_blank ls = rev (dropWhile blank (rev (dropWhile blank ls)))"

definition between :: "string list \<Rightarrow> nat \<Rightarrow> nat \<Rightarrow> string list" where
  "between ls a b = take (b - (a + 1)) (drop (a + 1) ls)"

definition region_body :: "string \<Rightarrow> string \<Rightarrow> string option" where
  "region_body doc tag =
     (case locate (doc_lines doc) tag of
        None \<Rightarrow> None
      | Some (a, b) \<Rightarrow> Some (join [newline] (strip_blank (between (doc_lines doc) a b))))"

definition overlapping_region :: "string \<Rightarrow> nat \<Rightarrow> nat \<Rightarrow> string option" where
  "overlapping_region doc start end_line =
     map_option sp_tag
       (find (\<lambda>s. start < sp_close s + 1 \<and> end_line > sp_open s) (spans_of (doc_lines doc)))"

definition regions :: "string \<Rightarrow> (string \<times> string) list" where
  "regions doc =
     map (\<lambda>s. (sp_tag s, join [newline] (strip_blank (between (doc_lines doc) (sp_open s) (sp_close s)))))
       (spans_of (doc_lines doc))"

definition bodies :: "(string \<times> string) list \<Rightarrow> string \<Rightarrow> string list" where
  "bodies rs tag = map snd (filter (\<lambda>(t, _). t = tag) rs)"

fun collect_tags :: "(string \<Rightarrow> bool) \<Rightarrow> string list \<Rightarrow> string list \<Rightarrow> string list" where
  "collect_tags p acc [] = acc"
| "collect_tags p acc (t # ts) =
     collect_tags p (if t \<notin> set acc \<and> p t then acc @ [t] else acc) ts"

definition changed_regions :: "string \<Rightarrow> string \<Rightarrow> string list" where
  "changed_regions before after =
     (let b = regions before; a = regions after in
      if b = a then []
      else
        (let out = collect_tags (\<lambda>t. bodies b t \<noteq> bodies a t) [] (map fst b @ map fst a) in
         if out = [] then collect_tags (\<lambda>_. True) [] (map fst b) else out))"

section \<open>The edits\<close>

definition trim_newlines :: "string \<Rightarrow> string" where
  "trim_newlines s = trim_end_matches (\<lambda>c. c = newline) s"

definition upsert :: "string \<Rightarrow> string \<Rightarrow> string \<Rightarrow> string" where
  "upsert doc tag body =
     (let ls = doc_lines doc in
      case locate ls tag of
        Some (a, b) \<Rightarrow>
          join [newline] (take (a + 1) ls @ [[]] @ doc_lines body @ [[]] @ drop b ls)
      | None \<Rightarrow>
          (let core = trim_newlines doc in
           (if core = [] then [] else core @ [newline, newline])
             @ open_marker tag @ [newline, newline] @ body @ [newline, newline]
             @ close_marker tag @ [newline]))"

definition remove_region :: "string \<Rightarrow> string \<Rightarrow> string" where
  "remove_region doc tag =
     (let ls = doc_lines doc in
      case locate ls tag of
        None \<Rightarrow> doc
      | Some (a, b) \<Rightarrow>
          (let end_line = b + 1;
               before = (0 < a \<and> blank (ls ! (a - 1)));
               start = (if before then a - 1 else a);
               stop = (if \<not> before \<and> end_line < length ls \<and> blank (ls ! end_line)
                       then end_line + 1 else end_line)
           in join [newline] (take start ls @ drop stop ls)))"

section \<open>The scanner on a replaced body\<close>

text \<open>A line that no marker search stops at.\<close>

definition quiet :: "string \<Rightarrow> bool" where
  "quiet l \<longleftrightarrow> \<not> is_fence l \<and> \<not> starts_with ''<!-- /softfig:'' (trim l)"

abbreviation closes :: "string \<Rightarrow> string \<times> bool \<Rightarrow> bool" where
  "closes tag \<equiv> \<lambda>(l, f). \<not> f \<and> trim l = close_marker tag"

lemma quiet_no_close: "quiet l \<Longrightarrow> trim l \<noteq> close_marker tag"
  by (auto simp: quiet_def close_marker_def starts_with_def)

lemma position_quiet:
  "list_all quiet (map fst mid) \<Longrightarrow> position (closes tag) mid = None"
  by (auto simp: position_None list_all_iff) (metis fst_conv quiet_no_close)

lemma length_fence_mask [simp]: "length (fence_mask b ls) = length ls"
  by (induction ls arbitrary: b) auto

fun fence_after :: "bool \<Rightarrow> string list \<Rightarrow> bool" where
  "fence_after inside [] = inside"
| "fence_after inside (l # ls) = fence_after (if is_fence l then \<not> inside else inside) ls"

lemma fence_mask_append:
  "fence_mask b (xs @ ys) = fence_mask b xs @ fence_mask (fence_after b xs) ys"
  by (induction xs arbitrary: b) auto

lemma fence_after_quiet: "list_all quiet ls \<Longrightarrow> fence_after b ls = b"
  by (induction ls arbitrary: b) (auto simp: quiet_def)

lemma fence_mask_quiet: "list_all quiet ls \<Longrightarrow> fence_mask b ls = replicate (length ls) b"
  by (induction ls arbitrary: b) (auto simp: quiet_def)

text \<open>
  Replacing the lines between a region's markers by quiet ones keeps the spans before it, keeps
  its open line, and leaves the scan after its close line as it was.
\<close>

lemma spans_from_lower: "s \<in> set (spans_from i ls) \<Longrightarrow> i \<le> sp_open s"
proof (induction i ls rule: spans_from.induct)
  case (1 i)
  then show ?case by simp
next
  case (2 i line fenced rest)
  show ?case
  proof (cases "if fenced then None else open_tag line")
    case None
    then show ?thesis using 2 by (fastforce simp: spans_from.simps(2))
  next
    case (Some tag)
    then show ?thesis
      using 2 by (cases "position (closes tag) rest") (fastforce simp: spans_from.simps(2))+
  qed
qed

lemma spans_from_skip:
  assumes "(if f then None else open_tag l) = None \<or>
    (\<exists>t. (if f then None else open_tag l) = Some t \<and> position (closes t) rest = None)"
  shows "spans_from i ((l, f) # rest) = spans_from (i + 1) rest"
  using assms by (auto simp: spans_from.simps(2))

lemma spans_from_take:
  assumes "(if f then None else open_tag l) = Some t" "position (closes t) rest = Some j"
  shows "spans_from i ((l, f) # rest) =
    \<lparr>sp_tag = t, sp_open = i, sp_close = i + 1 + j\<rparr> # spans_from (i + 2 + j) (drop (j + 1) rest)"
  using assms by (simp add: spans_from.simps(2))

lemma position_replace:
  assumes "list_all quiet (map fst mid')"
  shows "position (closes t) (pre @ x # mid @ y # post) = None \<Longrightarrow>
      position (closes t) (pre @ x # mid' @ y # post) = None"
    and "position (closes t) (pre @ x # mid @ y # post) = Some j \<Longrightarrow> j < length pre \<Longrightarrow>
      position (closes t) (pre @ x # mid' @ y # post) = Some j"
proof -
  show "position (closes t) (pre @ x # mid @ y # post) = None \<Longrightarrow>
      position (closes t) (pre @ x # mid' @ y # post) = None"
    using position_quiet [OF assms, of t] by (auto simp: position_None)
  show "position (closes t) (pre @ x # mid @ y # post) = Some j \<Longrightarrow> j < length pre \<Longrightarrow>
      position (closes t) (pre @ x # mid' @ y # post) = Some j"
    by (cases "position (closes t) pre") (auto simp: position_append split: option.splits if_splits)
qed

lemma spans_from_replace:
  assumes "spans_from i (pre @ (ol, False) # mid @ (cl, False) # post) =
      A @ \<lparr>sp_tag = tag, sp_open = i + length pre, sp_close = i + length pre + 1 + length mid\<rparr> # B"
    and quiet: "list_all quiet (map fst mid')"
  shows "spans_from i (pre @ (ol, False) # mid' @ (cl, False) # post) =
      A @ \<lparr>sp_tag = tag, sp_open = i + length pre, sp_close = i + length pre + 1 + length mid'\<rparr>
        # spans_from (i + length pre + 2 + length mid') post \<and>
    B = spans_from (i + length pre + 2 + length mid) post"
  using assms(1)
proof (induction "length pre" arbitrary: i pre A rule: less_induct)
  case less
  show ?case
  proof (cases pre)
    case Nil
    let ?rest = "mid @ (cl, False) # post"
    have eq: "spans_from i ((ol, False) # ?rest) =
        A @ \<lparr>sp_tag = tag, sp_open = i, sp_close = i + 1 + length mid\<rparr> # B"
      using less.prems Nil by simp
    have taken: "\<exists>t j. open_tag ol = Some t \<and> position (closes t) ?rest = Some j"
    proof (rule ccontr)
      assume none: "\<not> ?thesis"
      then have "(if False then None else open_tag ol) = None \<or> (\<exists>t.
          (if False then None else open_tag ol) = Some t \<and> position (closes t) ?rest = None)"
        by (cases "open_tag ol") auto
      from spans_from_skip [OF this]
      have "\<lparr>sp_tag = tag, sp_open = i, sp_close = i + 1 + length mid\<rparr> \<in> set (spans_from (i + 1) ?rest)"
        using eq by simp
      from spans_from_lower [OF this] show False by simp
    qed
    then obtain t j where t: "open_tag ol = Some t" and j: "position (closes t) ?rest = Some j" by blast
    have out: "spans_from i ((ol, False) # ?rest) =
        \<lparr>sp_tag = t, sp_open = i, sp_close = i + 1 + j\<rparr>
          # spans_from (i + 2 + j) (drop (j + 1) ?rest)"
      using spans_from_take [of False ol t] t j by simp
    have "A = []"
    proof (rule ccontr)
      assume "A \<noteq> []"
      then have "\<lparr>sp_tag = tag, sp_open = i, sp_close = i + 1 + length mid\<rparr>
          \<in> set (spans_from (i + 2 + j) (drop (j + 1) ?rest))"
        using eq out by (cases A) auto
      from spans_from_lower [OF this] show False by simp
    qed
    with eq out have h: "t = tag" "j = length mid" "B = spans_from (i + 2 + j) (drop (j + 1) ?rest)"
      by auto
    have "closes tag (cl, False)" using position_Some [OF j] h by (auto simp: nth_append)
    then have "position (closes tag) (mid' @ (cl, False) # post) = Some (length mid')"
      using position_quiet [OF quiet] by (simp add: position_append)
    then have "spans_from i ((ol, False) # mid' @ (cl, False) # post) =
        \<lparr>sp_tag = tag, sp_open = i, sp_close = i + 1 + length mid'\<rparr>
          # spans_from (i + 2 + length mid') (drop (length mid' + 1) (mid' @ (cl, False) # post))"
      using spans_from_take [of False ol tag] t h by simp
    then show ?thesis using Nil \<open>A = []\<close> h by simp
  next
    case (Cons x pre')
    obtain l f where x: "x = (l, f)" by force
    let ?rest = "pre' @ (ol, False) # mid @ (cl, False) # post"
    let ?rest' = "pre' @ (ol, False) # mid' @ (cl, False) # post"
    show ?thesis
    proof (cases "\<exists>t j. (if f then None else open_tag l) = Some t \<and> position (closes t) ?rest = Some j")
      case False
      then have skip: "(if f then None else open_tag l) = None \<or> (\<exists>t.
          (if f then None else open_tag l) = Some t \<and> position (closes t) ?rest = None)"
        by (cases "if f then None else open_tag l") auto
      then have skip': "(if f then None else open_tag l) = None \<or> (\<exists>t.
          (if f then None else open_tag l) = Some t \<and> position (closes t) ?rest' = None)"
        using position_replace(1) [OF quiet] by blast
      show ?thesis
        using less.hyps [of pre' "i + 1" A] less.prems Cons
        by (simp add: x spans_from_skip [OF skip] spans_from_skip [OF skip'])
    next
      case True
      then obtain t j where t: "(if f then None else open_tag l) = Some t"
          and j: "position (closes t) ?rest = Some j" by blast
      have out: "spans_from i (x # ?rest) = \<lparr>sp_tag = t, sp_open = i, sp_close = i + 1 + j\<rparr>
          # spans_from (i + 2 + j) (drop (j + 1) ?rest)"
        unfolding x by (rule spans_from_take [OF t j])
      obtain A' where A: "A = \<lparr>sp_tag = t, sp_open = i, sp_close = i + 1 + j\<rparr> # A'"
          and rest: "spans_from (i + 2 + j) (drop (j + 1) ?rest) =
            A' @ \<lparr>sp_tag = tag, sp_open = i + length pre, sp_close = i + length pre + 1 + length mid\<rparr> # B"
        using less.prems out Cons by (cases A) auto
      have "\<lparr>sp_tag = tag, sp_open = i + length pre, sp_close = i + length pre + 1 + length mid\<rparr>
          \<in> set (spans_from (i + 2 + j) (drop (j + 1) ?rest))"
        unfolding rest by simp
      from spans_from_lower [OF this] have inside: "j + 1 \<le> length pre'" by (simp add: Cons)
      then have j': "position (closes t) ?rest' = Some j"
        using position_replace(2) [OF quiet j] by simp
      have out': "spans_from i (x # ?rest') = \<lparr>sp_tag = t, sp_open = i, sp_close = i + 1 + j\<rparr>
          # spans_from (i + 2 + j) (drop (j + 1) ?rest')"
        unfolding x by (rule spans_from_take [OF t j'])
      have len: "i + 2 + j + length (drop (j + 1) pre') = i + length pre"
        using inside by (simp add: Cons)
      have "length (drop (j + 1) pre') < length pre" by (simp add: Cons)
      note ih = less.hyps [OF this, of "i + 2 + j" A']
      have d: "drop (j + 1) ?rest = drop (j + 1) pre' @ (ol, False) # mid @ (cl, False) # post"
        "drop (j + 1) ?rest' = drop (j + 1) pre' @ (ol, False) # mid' @ (cl, False) # post"
        using inside by simp_all
      have "spans_from (i + 2 + j) (drop (j + 1) ?rest') =
          A' @ \<lparr>sp_tag = tag, sp_open = i + length pre, sp_close = i + length pre + 1 + length mid'\<rparr>
            # spans_from (i + length pre + 2 + length mid') post \<and>
          B = spans_from (i + length pre + 2 + length mid) post"
        unfolding d(2) by (rule ih [unfolded len, OF rest [unfolded d(1)]])
      then show ?thesis unfolding A using out' Cons by simp
    qed
  qed
qed

section \<open>The shape of a span\<close>

lemma nth_Cons_shift: "i + 1 \<le> k \<Longrightarrow> (x # xs) ! (k - i) = xs ! (k - (i + 1))"
  by (cases "k - i") (simp_all, metis diff_Suc_1 diff_diff_eq add.commute plus_1_eq_Suc)

lemma spans_from_shape:
  "s \<in> set (spans_from i ls) \<Longrightarrow>
     i \<le> sp_open s \<and> sp_open s < sp_close s \<and> sp_close s < i + length ls \<and>
     \<not> snd (ls ! (sp_open s - i)) \<and> \<not> snd (ls ! (sp_close s - i))"
proof (induction i ls rule: spans_from.induct)
  case (1 i)
  then show ?case by simp
next
  case (2 i line fenced rest)
  show ?case
  proof (cases "\<exists>t j. (if fenced then None else open_tag line) = Some t \<and> position (closes t) rest = Some j")
    case False
    then have "(if fenced then None else open_tag line) = None \<or> (\<exists>t.
        (if fenced then None else open_tag line) = Some t \<and> position (closes t) rest = None)"
      by (cases "if fenced then None else open_tag line") auto
    then have "s \<in> set (spans_from (i + 1) rest)" and ih: "s \<in> set (spans_from (i + 1) rest) \<Longrightarrow>
        i + 1 \<le> sp_open s \<and> sp_open s < sp_close s \<and> sp_close s < i + 1 + length rest \<and>
        \<not> snd (rest ! (sp_open s - (i + 1))) \<and> \<not> snd (rest ! (sp_close s - (i + 1)))"
      using "2.prems" "2.IH" by (auto simp: spans_from_skip)
    then have r: "i + 1 \<le> sp_open s \<and> sp_open s < sp_close s \<and> sp_close s < i + 1 + length rest \<and>
        \<not> snd (rest ! (sp_open s - (i + 1))) \<and> \<not> snd (rest ! (sp_close s - (i + 1)))" by blast
    then show ?thesis
      using nth_Cons_shift [of i "sp_open s" "(line, fenced)" rest]
        nth_Cons_shift [of i "sp_close s" "(line, fenced)" rest] by simp
  next
    case True
    then obtain t j where t: "(if fenced then None else open_tag line) = Some t"
        and j: "position (closes t) rest = Some j" by blast
    have unf: "\<not> fenced" using t by (simp split: if_splits)
    have cj: "j < length rest" "\<not> snd (rest ! j)" using position_Some [OF j] by auto
    show ?thesis
    proof (cases "s = \<lparr>sp_tag = t, sp_open = i, sp_close = i + 1 + j\<rparr>")
      case True
      then show ?thesis using unf cj by simp
    next
      case False
      then have mem: "s \<in> set (spans_from (i + 2 + j) (drop (j + 1) rest))"
        using "2.prems" spans_from_take [OF t j] by simp
      have "i + 2 + j \<le> sp_open s \<and> sp_open s < sp_close s \<and>
          sp_close s < i + 2 + j + length (drop (j + 1) rest) \<and>
          \<not> snd (drop (j + 1) rest ! (sp_open s - (i + 2 + j))) \<and>
          \<not> snd (drop (j + 1) rest ! (sp_close s - (i + 2 + j)))"
        by (rule "2.IH"(3) [OF t j mem])
      moreover have "drop (j + 1) rest ! (k - (i + 2 + j)) = rest ! (k - (i + 1))"
        if "i + 2 + j \<le> k" for k
      proof -
        have k: "j + 1 + (k - (i + 2 + j)) = k - (i + 1)" using that by linarith
        have "drop (j + 1) rest ! (k - (i + 2 + j)) = rest ! (j + 1 + (k - (i + 2 + j)))"
          using cj by (intro nth_drop) simp
        then show ?thesis unfolding k .
      qed
      ultimately have r: "i + 2 + j \<le> sp_open s" "sp_open s < sp_close s"
        "sp_close s < i + 1 + length rest"
        "\<not> snd (rest ! (sp_open s - (i + 1)))" "\<not> snd (rest ! (sp_close s - (i + 1)))"
        using cj by auto
      then show ?thesis
        using nth_Cons_shift [of i "sp_open s" "(line, fenced)" rest]
          nth_Cons_shift [of i "sp_close s" "(line, fenced)" rest] by simp
    qed
  qed
qed

lemma spans_from_order:
  "spans_from i ls = A @ s # B \<Longrightarrow> x \<in> set A \<Longrightarrow> sp_close x < sp_open s"
proof (induction i ls arbitrary: A rule: spans_from.induct)
  case (1 i)
  then show ?case by simp
next
  case (2 i line fenced rest)
  show ?case
  proof (cases "\<exists>t j. (if fenced then None else open_tag line) = Some t \<and> position (closes t) rest = Some j")
    case False
    then have "(if fenced then None else open_tag line) = None \<or> (\<exists>t.
        (if fenced then None else open_tag line) = Some t \<and> position (closes t) rest = None)"
      by (cases "if fenced then None else open_tag line") auto
    then show ?thesis using 2 by (auto simp: spans_from_skip)
  next
    case True
    then obtain t j where t: "(if fenced then None else open_tag line) = Some t"
        and j: "position (closes t) rest = Some j" by blast
    obtain y A' where A: "A = y # A'" using "2.prems"(2) by (cases A) auto
    then have y: "y = \<lparr>sp_tag = t, sp_open = i, sp_close = i + 1 + j\<rparr>"
      and r: "spans_from (i + 2 + j) (drop (j + 1) rest) = A' @ s # B"
      using "2.prems"(1) spans_from_take [OF t j] by auto
    then have "s \<in> set (spans_from (i + 2 + j) (drop (j + 1) rest))" by simp
    then have "i + 2 + j \<le> sp_open s" by (rule spans_from_lower)
    then show ?thesis using "2.IH"(3) [OF t j r] "2.prems"(2) A y by auto
  qed
qed

definition shift_span :: "nat \<Rightarrow> span \<Rightarrow> span" where
  "shift_span d s = s\<lparr>sp_open := sp_open s + d, sp_close := sp_close s + d\<rparr>"

lemma spans_from_shift: "spans_from (i + d) ls = map (shift_span d) (spans_from i ls)"
proof (induction i ls rule: spans_from.induct)
  case (1 i)
  then show ?case by simp
next
  case (2 i line fenced rest)
  show ?case
  proof (cases "\<exists>t j. (if fenced then None else open_tag line) = Some t \<and> position (closes t) rest = Some j")
    case False
    then have "(if fenced then None else open_tag line) = None \<or> (\<exists>t.
        (if fenced then None else open_tag line) = Some t \<and> position (closes t) rest = None)"
      by (cases "if fenced then None else open_tag line") auto
    then show ?thesis using 2 by (auto simp: spans_from_skip)
  next
    case True
    then obtain t j where t: "(if fenced then None else open_tag line) = Some t"
        and j: "position (closes t) rest = Some j" by blast
    have "spans_from (i + 2 + j + d) (drop (j + 1) rest) =
        map (shift_span d) (spans_from (i + 2 + j) (drop (j + 1) rest))"
      by (rule "2.IH"(3) [OF t j])
    then show ?thesis
      by (simp add: spans_from_take [OF t j] shift_span_def ac_simps)
  qed
qed

section \<open>Replacing the body of a present region\<close>

lemma mask_split:
  "mask_lines (pre @ ol # mid @ cl # post) =
     zip pre (fence_mask False pre) @
     zip (ol # mid @ cl # post) (fence_mask (fence_after False pre) (ol # mid @ cl # post))"
  by (simp add: mask_lines_def fence_mask_append del: fence_mask.simps)

text \<open>
  The lines around a located region: the state of the fences is outside at both markers, so
  quiet lines between them leave every other flag as it is.
\<close>

lemma region_split:
  assumes "spans_of ls = A @ s # B"
  obtains pre ol mid cl post where
    "ls = pre @ ol # mid @ cl # post" "sp_open s = length pre"
    "sp_close s = length pre + 1 + length mid"
    "\<And>mid'. list_all quiet mid' \<or> mid' = mid \<Longrightarrow>
       mask_lines (pre @ ol # mid' @ cl # post) =
         zip pre (fence_mask False pre) @ (ol, False) # zip mid' (fence_mask False mid')
           @ (cl, False) # zip post (fence_mask False post)"
proof -
  have s: "s \<in> set (spans_from 0 (mask_lines ls))" using assms by (simp add: spans_of_def)
  have len: "length (mask_lines ls) = length ls" by (simp add: mask_lines_def)
  note shape = spans_from_shape [OF s]
  let ?a = "sp_open s" and ?b = "sp_close s"
  have ab: "?a < ?b" "?b < length ls" using shape len by auto
  define pre where "pre = take ?a ls"
  define mid where "mid = take (?b - (?a + 1)) (drop (?a + 1) ls)"
  define post where "post = drop (?b + 1) ls"
  have split1: "ls = pre @ ls ! ?a # drop (?a + 1) ls"
    unfolding pre_def using ab by (simp add: id_take_nth_drop)
  have "drop (?a + 1) ls = mid @ drop ?b ls"
    unfolding mid_def using ab
    by (metis append_take_drop_id drop_drop le_add_diff_inverse2 Suc_eq_plus1 Suc_leI)
  also have "drop ?b ls = ls ! ?b # post" unfolding post_def using ab by (simp add: Cons_nth_drop_Suc)
  finally have ls: "ls = pre @ ls ! ?a # mid @ ls ! ?b # post" using split1 by simp
  have lens: "length pre = ?a" "length mid = ?b - (?a + 1)"
    using ab by (simp_all add: pre_def mid_def)
  have mask: "mask_lines ls = zip pre (fence_mask False pre) @
      zip (ls ! ?a # mid @ ls ! ?b # post)
        (fence_mask (fence_after False pre) (ls ! ?a # mid @ ls ! ?b # post))"
    using mask_split [of pre "ls ! ?a" mid "ls ! ?b" post] ls by simp
  have fa: "fence_after False pre = False \<and> \<not> is_fence (ls ! ?a)"
  proof -
    have "\<not> snd (mask_lines ls ! ?a)" using shape by simp
    then show ?thesis unfolding mask using lens by (auto simp: nth_append split: if_splits)
  qed
  have fb: "fence_after False mid = False \<and> \<not> is_fence (ls ! ?b)"
  proof -
    have "\<not> snd (mask_lines ls ! ?b)" using shape by simp
    moreover have "mask_lines ls ! ?b =
        (ls ! ?b, if is_fence (ls ! ?b) then True else fence_after False mid)"
      unfolding mask using lens ab fa
      by (auto simp: nth_append nth_Cons fence_mask_append split: nat.splits)
    ultimately show ?thesis by (auto split: if_splits)
  qed
  have masks: "mask_lines (pre @ ls ! ?a # mid' @ ls ! ?b # post) =
         zip pre (fence_mask False pre) @ (ls ! ?a, False) # zip mid' (fence_mask False mid')
           @ (ls ! ?b, False) # zip post (fence_mask False post)"
    if "list_all quiet mid' \<or> mid' = mid" for mid'
  proof -
    have "fence_after False mid' = False" using that fb fence_after_quiet by auto
    then show ?thesis using fa fb by (simp add: mask_split fence_mask_append)
  qed
  show ?thesis
    by (rule that [OF ls _ _ masks]) (use lens ab in auto)
qed

text \<open>The spans of the document whose located region got a quiet body.\<close>

lemma spans_of_replace:
  assumes "spans_of (pre @ ol # mid @ cl # post) = A @ s # B"
    and "sp_open s = length pre" "sp_close s = length pre + 1 + length mid"
    and masks: "\<And>mid'. list_all quiet mid' \<or> mid' = mid \<Longrightarrow>
       mask_lines (pre @ ol # mid' @ cl # post) =
         zip pre (fence_mask False pre) @ (ol, False) # zip mid' (fence_mask False mid')
           @ (cl, False) # zip post (fence_mask False post)"
    and quiet: "list_all quiet mid'"
  shows "spans_of (pre @ ol # mid' @ cl # post) =
      A @ s\<lparr>sp_close := length pre + 1 + length mid'\<rparr>
        # spans_from (length pre + 2 + length mid') (zip post (fence_mask False post)) \<and>
    B = spans_from (length pre + 2 + length mid) (zip post (fence_mask False post))"
proof -
  have len: "length (zip pre (fence_mask False pre)) = length pre"
    "length (zip mid (fence_mask False mid)) = length mid"
    "length (zip mid' (fence_mask False mid')) = length mid'" by simp_all
  have s: "s = \<lparr>sp_tag = sp_tag s, sp_open = 0 + length pre, sp_close = 0 + length pre + 1 + length mid\<rparr>"
    using assms(2,3) by (cases s) simp
  have old: "spans_from 0 (zip pre (fence_mask False pre) @ (ol, False) # zip mid (fence_mask False mid)
      @ (cl, False) # zip post (fence_mask False post)) =
      A @ \<lparr>sp_tag = sp_tag s, sp_open = 0 + length pre, sp_close = 0 + length pre + 1 + length mid\<rparr> # B"
    using assms(1) masks [of mid] s by (simp add: spans_of_def)
  have q: "list_all quiet (map fst (zip mid' (fence_mask False mid')))" using quiet by simp
  note r = spans_from_replace [of 0 "zip pre (fence_mask False pre)" ol "zip mid (fence_mask False mid)"
      cl "zip post (fence_mask False post)" A "sp_tag s" B, unfolded len, OF old q]
  have "s\<lparr>sp_close := length pre + 1 + length mid'\<rparr> =
      \<lparr>sp_tag = sp_tag s, sp_open = length pre, sp_close = length pre + 1 + length mid'\<rparr>"
    using assms(2) by (cases s) simp
  then show ?thesis using r masks [of mid'] quiet len(3) by (simp add: spans_of_def)
qed

lemma locate_split:
  assumes "locate ls tag = Some (a, b)"
  obtains A s B where "spans_of ls = A @ s # B" "sp_tag s = tag" "sp_open s = a" "sp_close s = b"
    "\<forall>x \<in> set A. sp_tag x \<noteq> tag"
proof -
  obtain s where f: "find (\<lambda>s. sp_tag s = tag) (spans_of ls) = Some s" "sp_open s = a" "sp_close s = b"
    using assms by (auto simp: locate_def)
  then have "position (\<lambda>s. sp_tag s = tag) (spans_of ls) \<noteq> None"
    by (auto simp: position_None dest!: find_in_set)
  obtain i where i: "i < length (spans_of ls)" "sp_tag (spans_of ls ! i) = tag"
      "s = spans_of ls ! i" "\<forall>j < i. sp_tag (spans_of ls ! j) \<noteq> tag"
    using f(1) by (auto simp: find_Some_iff)
  show ?thesis
  proof (rule that)
    show "spans_of ls = take i (spans_of ls) @ s # drop (Suc i) (spans_of ls)"
      using i by (simp add: id_take_nth_drop)
    show "\<forall>x \<in> set (take i (spans_of ls)). sp_tag x \<noteq> tag"
      using i(1,4) by (auto simp: in_set_conv_nth) blast
  qed (use i f in auto)
qed

lemma locate_first:
  assumes "spans_of ls = A @ s # B" "sp_tag s = tag" "\<forall>x \<in> set A. sp_tag x \<noteq> tag"
  shows "locate ls tag = Some (sp_open s, sp_close s)"
proof -
  have "find (\<lambda>s. sp_tag s = tag) (A @ s # B) = Some s"
    using assms(2,3) by (induction A) auto
  then show ?thesis by (simp add: locate_def assms(1))
qed

lemma locate_region_split:
  assumes "locate ls tag = Some (a, b)"
  obtains A s B pre ol mid cl post where
    "ls = pre @ ol # mid @ cl # post" "a = length pre" "b = length pre + 1 + length mid"
    "spans_of ls = A @ s # B" "sp_tag s = tag" "\<forall>x \<in> set A. sp_tag x \<noteq> tag"
    "sp_open s = length pre" "sp_close s = length pre + 1 + length mid"
    "\<And>mid'. list_all quiet mid' \<Longrightarrow>
       spans_of (pre @ ol # mid' @ cl # post) =
         A @ s\<lparr>sp_close := length pre + 1 + length mid'\<rparr>
           # spans_from (length pre + 2 + length mid') (zip post (fence_mask False post))"
    "B = spans_from (length pre + 2 + length mid) (zip post (fence_mask False post))"
proof -
  obtain A s B where s: "spans_of ls = A @ s # B" "sp_tag s = tag" "sp_open s = a" "sp_close s = b"
      "\<forall>x \<in> set A. sp_tag x \<noteq> tag"
    using locate_split [OF assms] by metis
  obtain pre ol mid cl post where r: "ls = pre @ ol # mid @ cl # post" "sp_open s = length pre"
      "sp_close s = length pre + 1 + length mid" and
      masks: "\<And>mid'. list_all quiet mid' \<or> mid' = mid \<Longrightarrow>
       mask_lines (pre @ ol # mid' @ cl # post) =
         zip pre (fence_mask False pre) @ (ol, False) # zip mid' (fence_mask False mid')
           @ (cl, False) # zip post (fence_mask False post)"
    using region_split [OF s(1)] by metis
  note sp = spans_of_replace [OF s(1) [unfolded r(1)] r(2,3) masks]
  have q: "list_all quiet []" by simp
  show ?thesis
  proof (rule that)
    show "B = spans_from (length pre + 2 + length mid) (zip post (fence_mask False post))"
      using sp [OF _ q] by blast
    show "spans_of (pre @ ol # mid' @ cl # post) =
         A @ s\<lparr>sp_close := length pre + 1 + length mid'\<rparr>
           # spans_from (length pre + 2 + length mid') (zip post (fence_mask False post))"
      if "list_all quiet mid'" for mid'
      using sp [OF _ that] by blast
  qed (use s r in auto)
qed

definition padded :: "string \<Rightarrow> string list" where
  "padded body = [] # doc_lines body @ [[]]"

definition quiet_body :: "string \<Rightarrow> bool" where
  "quiet_body body = list_all quiet (doc_lines body)"

lemma quiet_padded: "quiet_body body \<Longrightarrow> list_all quiet (padded body)"
  by (simp add: quiet_body_def padded_def)
    (simp add: quiet_def is_fence_def trim_def trim_start_def trim_end_matches_def starts_with_def)

lemma doc_lines_join:
  "ls \<noteq> [] \<Longrightarrow> list_all (\<lambda>l. newline \<notin> set l) ls \<Longrightarrow> doc_lines (join [newline] ls) = ls"
  unfolding doc_lines_def by (rule split_on_join) (auto simp: list_all_iff)

lemma doc_lines_no_newline: "list_all (\<lambda>l. newline \<notin> set l) (doc_lines doc)"
  by (auto simp: doc_lines_def list_all_iff dest: split_on_no_sep)

lemma doc_lines_upsert:
  assumes "doc_lines doc = pre @ ol # mid @ cl # post"
    and "locate (doc_lines doc) tag = Some (length pre, length pre + 1 + length mid)"
  shows "doc_lines (upsert doc tag body) = pre @ ol # padded body @ cl # post"
proof -
  have "upsert doc tag body = join [newline] (pre @ ol # padded body @ cl # post)"
    using assms by (simp add: upsert_def Let_def padded_def)
  moreover have "list_all (\<lambda>l. newline \<notin> set l) (pre @ ol # padded body @ cl # post)"
    using doc_lines_no_newline [of doc] doc_lines_no_newline [of body] assms(1)
    by (simp add: padded_def)
  ultimately show ?thesis by (simp add: doc_lines_join)
qed

lemma between_middle: "between (pre @ x # mid @ y # post) (length pre) (length pre + 1 + length mid) = mid"
  by (simp add: between_def)

lemma between_middle_Suc [simp]:
  "between (pre @ x # mid @ y # post) (length pre) (Suc (length pre + length mid)) = mid"
  using between_middle [of pre x mid y post] by simp

lemma strip_blank_padded: "strip_blank (padded body) = strip_blank (doc_lines body)"
proof -
  have b: "blank []" by (simp add: blank_def trim_def trim_start_def trim_end_matches_def)
  show ?thesis
  proof (cases "\<exists>l \<in> set (doc_lines body). \<not> blank l")
    case True
    then have "dropWhile blank (doc_lines body @ [[]]) = dropWhile blank (doc_lines body) @ [[]]"
      by (auto simp: dropWhile_append1)
    then show ?thesis using b by (simp add: strip_blank_def padded_def)
  next
    case False
    then have all: "\<forall>l \<in> set (doc_lines body). blank l" "\<forall>l \<in> set (doc_lines body @ [[]]). blank l"
      using b by auto
    then have "dropWhile blank (doc_lines body @ [[]]) = []" "dropWhile blank (doc_lines body) = []"
      by (simp_all only: dropWhile_eq_Nil_conv)
    then have "strip_blank (padded body) = []" "strip_blank (doc_lines body) = []"
      using b by (simp_all only: strip_blank_def padded_def) simp_all
    then show ?thesis by simp
  qed
qed

lemma region_body_located:
  "locate (doc_lines doc) tag = Some (a, b) \<Longrightarrow>
     region_body doc tag = Some (join [newline] (strip_blank (between (doc_lines doc) a b)))"
  by (simp add: region_body_def)

text \<open>
  The region of an unterminated open marker: the first write appends, the second one takes the
  stale marker for the region's start and drops the text after it.
\<close>

lemma upsert_stale_marker:
  "let doc = join [newline] [open_marker ''q'', ''kept text'']; once = upsert doc ''q'' ''new'';
       twice = upsert once ''q'' ''new''
   in \<not> has_region doc ''q'' \<and> ''kept text'' \<in> set (doc_lines once) \<and>
      ''kept text'' \<notin> set (doc_lines twice)"
  by code_simp

lemma upsert_located:
  assumes "locate (doc_lines doc) tag = Some (a, b)" "quiet_body body"
  shows "region_body (upsert doc tag body) tag = Some (join [newline] (strip_blank (doc_lines body))) \<and>
    upsert (upsert doc tag body) tag body = upsert doc tag body \<and>
    doc_lines (upsert doc tag body) =
      take (a + 1) (doc_lines doc) @ padded body @ drop b (doc_lines doc)"
proof -
  obtain A s B pre ol mid cl post where
    r: "doc_lines doc = pre @ ol # mid @ cl # post" "a = length pre" "b = length pre + 1 + length mid"
      "sp_tag s = tag" "\<forall>x \<in> set A. sp_tag x \<noteq> tag" "sp_open s = length pre"
    and sp: "\<And>mid'. list_all quiet mid' \<Longrightarrow>
       spans_of (pre @ ol # mid' @ cl # post) =
         A @ s\<lparr>sp_close := length pre + 1 + length mid'\<rparr>
           # spans_from (length pre + 2 + length mid') (zip post (fence_mask False post))"
    using locate_region_split [OF assms(1)] by metis
  have at: "locate (doc_lines doc) tag = Some (length pre, length pre + 1 + length mid)"
    using assms(1) r(2,3) by simp
  let ?new = "pre @ ol # padded body @ cl # post"
  have new: "doc_lines (upsert doc tag body) = ?new" by (rule doc_lines_upsert [OF r(1) at])
  have at': "locate ?new tag = Some (length pre, length pre + 1 + length (padded body))"
    using locate_first [OF sp [OF quiet_padded [OF assms(2)]], of tag] r(4,5,6) by simp
  have body: "region_body (upsert doc tag body) tag = Some (join [newline] (strip_blank (doc_lines body)))"
    using region_body_located [of "upsert doc tag body" tag] at'
    by (simp add: new strip_blank_padded)
  have "doc_lines (upsert (upsert doc tag body) tag body) = ?new"
    using doc_lines_upsert [OF new] at' new by simp
  then have idem: "upsert (upsert doc tag body) tag body = upsert doc tag body"
    using new by (metis doc_lines_def join_split_on)
  show ?thesis using body idem new by (simp add: r(1-3))
qed

text \<open>
  A body that holds the close marker on a line of its own is not quiet: its tail lands outside
  the region and stays there, once more with every write.
\<close>

lemma upsert_unquiet_body:
  "let doc = join [newline] [open_marker ''q'', close_marker ''q''];
       body = join [newline] [''a'', close_marker ''q'', ''z''];
       once = upsert doc ''q'' body; twice = upsert once ''q'' body
   in region_body once ''q'' = Some ''a'' \<and>
      count_list (doc_lines once) ''z'' = 1 \<and> count_list (doc_lines twice) ''z'' = 2"
  by code_simp

text \<open>
  A managed region that is present is replaced exactly: after the write its body reads back
  as the one written, up to outer blank lines, a second write of the same body changes nothing,
  and every line up to the open marker and from the close marker on is preserved. The body must
  be quiet: no fence line and no close marker.
\<close>

lemma upsert_present:
  assumes "locate (doc_lines doc) tag = Some (a, b)" "quiet_body body"
  shows "region_body (upsert doc tag body) tag = Some (join [newline] (strip_blank (doc_lines body))) \<and>
    upsert (upsert doc tag body) tag body = upsert doc tag body \<and>
    doc_lines (upsert doc tag body) =
      take (a + 1) (doc_lines doc) @ padded body @ drop b (doc_lines doc)"
  by (rule upsert_located [OF assms])

lemma upsert_present_instance:
  "region_body (upsert (join [newline] [''t'', open_marker ''q'', ''old'', close_marker ''q'', ''u'']) ''q'' ''new'') ''q''
     = Some ''new''"
proof -
  have 1: "locate (doc_lines (join [newline] [''t'', open_marker ''q'', ''old'', close_marker ''q'', ''u''])) ''q'' = Some (1, 3)"
    by code_simp
  have 2: "quiet_body ''new''" by code_simp
  have 3: "join [newline] (strip_blank (doc_lines ''new'')) = ''new''" by code_simp
  show ?thesis using upsert_present [OF 1 2] 3 by simp
qed

end
