(* ===== verification/Section_Edit.thy ===== *)
theory Section_Edit
  imports Managed
begin

text \<open>
  The section edits of markdown documents (the module \<^verbatim>\<open>edit\<close> of
  \<^verbatim>\<open>crates/softfig-keeperd/src/actions/sections.rs\<close>): headings outside fenced code, the line
  ranges they own, and the verbs that replace, extend, add and delete a section of a document
  held as the list of its lines.
\<close>

section \<open>Headings\<close>

datatype section_error =
    SectionNotFound
  | SectionAmbiguous
  | SectionAlreadyExists
  | EmptyHeading
  | LastSection
  | ManagedRegion

record heading =
  hd_line :: nat
  hd_level :: nat
  hd_text :: string

abbreviation hash_char :: char where
  "hash_char \<equiv> CHR ''#''"

definition leading_hashes :: "string \<Rightarrow> nat" where
  "leading_hashes s = length (takeWhile (\<lambda>c. c = hash_char) s)"

definition parse_heading_arg :: "string \<Rightarrow> nat option \<times> string" where
  "parse_heading_arg arg =
     (let trimmed = trim arg;
          hashes = leading_hashes trimmed
      in (if 0 < hashes then Some (min hashes 6) else None, trim (drop hashes trimmed)))"

definition parse_heading_line :: "string \<Rightarrow> (nat \<times> string) option" where
  "parse_heading_line line =
     (let t = trim_start line;
          hashes = leading_hashes t;
          rest = drop hashes t
      in if hashes = 0 \<or> 6 < hashes then None
         else if rest = [] then Some (hashes, [])
         else if \<not> starts_with '' '' rest then None
         else Some (hashes, trim rest))"

text \<open>The loop over the lines from index \<open>i\<close>, with the fence flag.\<close>

fun headings_from :: "nat \<Rightarrow> bool \<Rightarrow> string list \<Rightarrow> heading list" where
  "headings_from i in_fence [] = []"
| "headings_from i in_fence (l # ls) =
     (if is_fence l then headings_from (i + 1) (\<not> in_fence) ls
      else if in_fence then headings_from (i + 1) in_fence ls
      else (case parse_heading_line l of
              Some (level, t) \<Rightarrow>
                \<lparr>hd_line = i, hd_level = level, hd_text = t\<rparr> # headings_from (i + 1) in_fence ls
            | None \<Rightarrow> headings_from (i + 1) in_fence ls))"

definition headings :: "string list \<Rightarrow> heading list" where
  "headings ls = headings_from 0 False ls"

definition find_unique :: "heading list \<Rightarrow> string \<Rightarrow> section_error + heading" where
  "find_unique hs want =
     (case filter (\<lambda>h. hd_text h = want) hs of
        [] \<Rightarrow> Inl SectionNotFound
      | [h] \<Rightarrow> Inr h
      | _ \<Rightarrow> Inl SectionAmbiguous)"

definition body_range :: "nat \<Rightarrow> heading list \<Rightarrow> heading \<Rightarrow> nat \<times> nat" where
  "body_range line_count hs target =
     (hd_line target + 1,
      case find (\<lambda>h. hd_line h > hd_line target \<and> hd_level h \<le> hd_level target) hs of
        Some h \<Rightarrow> hd_line h
      | None \<Rightarrow> line_count)"

definition own_body_end :: "heading list \<Rightarrow> heading \<Rightarrow> nat \<Rightarrow> nat" where
  "own_body_end hs target span_end =
     (case find (\<lambda>h. hd_line h > hd_line target) hs of
        Some h \<Rightarrow> min (hd_line h) span_end
      | None \<Rightarrow> span_end)"

section \<open>Bodies\<close>

definition trim_end :: "string \<Rightarrow> string" where
  "trim_end s = trim_end_matches is_space s"

definition trim_start_newlines :: "string \<Rightarrow> string" where
  "trim_start_newlines s = dropWhile (\<lambda>c. c = newline) s"

definition body_block :: "string \<Rightarrow> string list" where
  "body_block body = [[]] @ split_on newline (trim_end (trim_start_newlines body)) @ [[]]"

definition is_thematic_break :: "string \<Rightarrow> bool" where
  "is_thematic_break line =
     (let t = filter (\<lambda>c. \<not> is_space c) line
      in 3 \<le> length t \<and>
         (list_all (\<lambda>c. c = CHR ''-'') t \<or> list_all (\<lambda>c. c = CHR ''*'') t
            \<or> list_all (\<lambda>c. c = CHR ''_'') t))"

definition trailing_rule :: "string list \<Rightarrow> nat \<Rightarrow> nat \<Rightarrow> nat option" where
  "trailing_rule ls start stop =
     (case find (\<lambda>i. \<not> blank (ls ! i)) (rev [start..<stop]) of
        None \<Rightarrow> None
      | Some l \<Rightarrow>
          (if is_thematic_break (ls ! l) \<and> (l = 0 \<or> blank (ls ! (l - 1))) then Some l else None))"

definition strip_repeated_heading :: "string \<Rightarrow> string \<Rightarrow> string" where
  "strip_repeated_heading body want =
     (let trimmed = dropWhile (\<lambda>c. c = newline \<or> c = CHR 0x0D) body;
          first_end = length (takeWhile (\<lambda>c. c \<noteq> newline) trimmed)
      in case parse_heading_line (take first_end trimmed) of
           Some (_, t) \<Rightarrow> if t = want then drop first_end trimmed else body
         | None \<Rightarrow> body)"

definition keep_regions :: "string \<Rightarrow> string \<Rightarrow> section_error + string" where
  "keep_regions before after =
     (if changed_regions before after = [] then Inr after else Inl ManagedRegion)"

section \<open>The edits\<close>

text \<open>
  \<^verbatim>\<open>section_range\<close>'s address resolution, which every edit starts with: the target heading and
  the headings of the document.
\<close>

definition find_target :: "string \<Rightarrow> string \<Rightarrow> section_error + heading" where
  "find_target content heading_arg =
     (let want = snd (parse_heading_arg heading_arg)
      in if want = [] then Inl EmptyHeading
         else find_unique (headings (doc_lines content)) want)"

definition kept_regions :: "string list \<Rightarrow> string \<Rightarrow> nat \<Rightarrow> nat \<Rightarrow> string \<Rightarrow> string" where
  "kept_regions ls body bstart bend acc =
     foldl (\<lambda>out s.
         if has_region body (sp_tag s) then out
         else (if out = [] then out else out @ [newline, newline])
                @ join [newline] (take (sp_close s + 1 - sp_open s) (drop (sp_open s) ls)))
       acc (filter (\<lambda>s. bstart \<le> sp_open s \<and> sp_close s < bend) (spans_of ls))"

definition edit_section :: "string \<Rightarrow> string \<Rightarrow> string \<Rightarrow> section_error + string" where
  "edit_section content heading_arg body0 =
     try_with (find_target content heading_arg) (\<lambda>target.
     let want = snd (parse_heading_arg heading_arg);
         ls = doc_lines content;
         hs = headings ls;
         body = strip_repeated_heading body0 want;
         body_lines = split_on newline body;
         (bstart, span_end) = body_range (length ls) hs target;
         bend = (if headings body_lines = [] then own_body_end hs target span_end else span_end);
         spans = spans_of ls
     in if list_ex (\<lambda>s. (sp_open s < bstart \<and> bstart \<le> sp_close s)
                          \<or> (sp_open s < bend \<and> bend \<le> sp_close s)) spans
        then Inl ManagedRegion
        else
          (let text1 = kept_regions ls body bstart bend (trim_end (trim_start_newlines body));
               body_has_rule = (trailing_rule body_lines 0 (length body_lines) \<noteq> None);
               text2 = (case trailing_rule ls bstart bend of
                          Some rule \<Rightarrow>
                            if body_has_rule then text1
                            else text1 @ [newline, newline] @ trim (ls ! rule)
                        | None \<Rightarrow> text1)
           in keep_regions content
                (join [newline] (take bstart ls @ body_block text2 @ drop bend ls))))"

definition trim_newlines_both :: "string \<Rightarrow> string" where
  "trim_newlines_both s = trim_newlines (trim_start_newlines s)"

definition append_to_section :: "string \<Rightarrow> string \<Rightarrow> string \<Rightarrow> section_error + string" where
  "append_to_section content heading_arg text0 =
     try_with (find_target content heading_arg) (\<lambda>target.
     let ls = doc_lines content;
         (bstart, bend) = body_range (length ls) (headings ls) target;
         txt_s = trim_newlines_both text0;
         txt_lines = split_on newline txt_s;
         spans = spans_of ls;
         in_region = (\<lambda>i. list_ex (\<lambda>s. sp_open s \<le> i \<and> i \<le> sp_close s) spans);
         rule = trailing_rule ls bstart bend;
         last_content =
           find (\<lambda>i. \<not> blank (ls ! i) \<and> \<not> in_region i \<and> rule \<noteq> Some i) (rev [bstart..<bend]);
         has_boundary = (rule \<noteq> None \<or> list_ex (\<lambda>s. bstart \<le> sp_open s \<and> sp_open s < bend) spans)
     in keep_regions content (join [newline]
          (case last_content of
             Some i \<Rightarrow> take (i + 1) ls @ txt_lines @ drop (i + 1) ls
           | None \<Rightarrow>
               if has_boundary then take bstart ls @ [[]] @ txt_lines @ drop bstart ls
               else take bstart ls @ body_block txt_s @ drop bend ls)))"

definition add_section :: "string \<Rightarrow> string \<Rightarrow> string \<Rightarrow> section_error + string" where
  "add_section content heading_arg body0 =
     (let (level_opt, want) = parse_heading_arg heading_arg
      in if want = [] then Inl EmptyHeading
         else if list_ex (\<lambda>h. hd_text h = want) (headings (doc_lines content))
         then Inl SectionAlreadyExists
         else
           (let level = (case level_opt of Some l \<Rightarrow> l | None \<Rightarrow> 2);
                heading_line = replicate level hash_char @ '' '' @ want;
                body = trim_end (trim_start_newlines (strip_repeated_heading body0 want));
                core = trim_newlines content
            in keep_regions content
                 ((if core = [] then [] else core @ [newline, newline])
                    @ heading_line @ [newline, newline] @ body @ [newline])))"

definition section_range :: "string \<Rightarrow> string \<Rightarrow> section_error + (nat \<times> nat)" where
  "section_range content heading_arg =
     try_with (find_target content heading_arg) (\<lambda>target.
     let ls = doc_lines content
     in Inr (hd_line target, snd (body_range (length ls) (headings ls) target)))"

definition remove_section :: "string \<Rightarrow> string \<Rightarrow> section_error + string" where
  "remove_section content heading_arg =
     try_with (section_range content heading_arg) (\<lambda>(start, stop).
     let ls = doc_lines content;
         hs = headings ls
     in if length (filter (\<lambda>h. start \<le> hd_line h \<and> hd_line h < stop) hs) = length hs
        then Inl LastSection
        else
          (let at_end = (length ls \<le> stop);
               start' = (if at_end \<and> 0 < start \<and> blank (ls ! (start - 1)) then start - 1 else start);
               stop' = (if at_end \<and> last ls = [] then stop - 1 else stop)
           in Inr (join [newline] (take start' ls @ drop stop' ls))))"

text \<open>\<^verbatim>\<open>reviewed_prefix_len\<close> and \<^verbatim>\<open>set_reviewed\<close>; \<open>str_find\<close> is \<^verbatim>\<open>str::find\<close> of a substring.\<close>

fun str_find :: "string \<Rightarrow> string \<Rightarrow> nat option" where
  "str_find needle [] = (if needle = [] then Some 0 else None)"
| "str_find needle (x # xs) =
     (if starts_with needle (x # xs) then Some 0 else map_option Suc (str_find needle xs))"

definition reviewed_prefix_len :: "string \<Rightarrow> nat option" where
  "reviewed_prefix_len line =
     (case str_find ''Last reviewed:'' line of
        None \<Rightarrow> None
      | Some i \<Rightarrow>
          (if list_all (\<lambda>c. c = CHR '' '' \<or> c = CHR 0x09 \<or> c = CHR ''>'') (take i line)
           then Some i else None))"

fun stamp_reviewed :: "string \<Rightarrow> string list \<Rightarrow> string list option" where
  "stamp_reviewed today [] = None"
| "stamp_reviewed today (l # ls) =
     (case reviewed_prefix_len l of
        Some i \<Rightarrow> Some ((take i l @ ''Last reviewed: '' @ today) # ls)
      | None \<Rightarrow> map_option ((#) l) (stamp_reviewed today ls))"

definition set_reviewed :: "string \<Rightarrow> string \<Rightarrow> string option" where
  "set_reviewed content today =
     map_option (join [newline]) (stamp_reviewed today (doc_lines content))"

section \<open>Content versions\<close>

definition section_slice :: "string list \<Rightarrow> heading list \<Rightarrow> heading \<Rightarrow> string" where
  "section_slice ls hs target =
     (let bend = snd (body_range (length ls) hs target)
      in join [newline] (take (bend - hd_line target) (drop (hd_line target) ls)))"

text \<open>\<open>version_of\<close> is the content hash, a parameter.\<close>

definition section_version :: "(string \<Rightarrow> string) \<Rightarrow> string \<Rightarrow> string \<Rightarrow> string option" where
  "section_version version_of content heading_arg =
     (case find_target content heading_arg of
        Inl _ \<Rightarrow> None
      | Inr target \<Rightarrow>
          Some (version_of
            (section_slice (doc_lines content) (headings (doc_lines content)) target)))"

definition section_versions :: "(string \<Rightarrow> string) \<Rightarrow> string \<Rightarrow> (string \<times> string) list" where
  "section_versions version_of content =
     (let ls = doc_lines content; hs = headings ls
      in map (\<lambda>h. (hd_text h, version_of (section_slice ls hs h))) hs)"

section \<open>Headings of a document put together from parts\<close>

lemma headings_from_append:
  "headings_from i f (xs @ ys) =
     headings_from i f xs @ headings_from (i + length xs) (fence_after f xs) ys"
  by (induction xs arbitrary: i f) (auto split: option.splits)

lemma headings_from_shift:
  "headings_from (i + k) f ls = map (\<lambda>h. h\<lparr>hd_line := hd_line h + k\<rparr>) (headings_from i f ls)"
proof (induction ls arbitrary: i f)
  case Nil
  then show ?case by simp
next
  case (Cons l ls)
  from Cons [of "Suc i"] show ?case by (simp split: option.splits)
qed

lemma headings_from_line:
  "h \<in> set (headings_from i f ls) \<Longrightarrow> i \<le> hd_line h \<and> hd_line h < i + length ls"
  by (induction ls arbitrary: i f) (fastforce split: if_splits option.splits)+

lemma headings_from_at:
  "h \<in> set (headings_from i f ls) \<Longrightarrow>
     \<not> fence_after f (take (hd_line h - i) ls) \<and> \<not> is_fence (ls ! (hd_line h - i)) \<and>
     parse_heading_line (ls ! (hd_line h - i)) = Some (hd_level h, hd_text h)"
proof (induction ls arbitrary: i f)
  case Nil
  then show ?case by simp
next
  case (Cons l ls)
  show ?case
  proof (cases "h \<in> set (headings_from (Suc i) (if is_fence l then \<not> f else f) ls)")
    case True
    from headings_from_line [OF this] obtain k where k: "hd_line h - i = Suc k" "hd_line h - Suc i = k"
      by (metis Suc_diff_Suc Suc_le_lessD)
    show ?thesis using Cons.IH [OF True] by (auto simp: k split: if_splits)
  next
    case False
    then have "\<not> is_fence l \<and> \<not> f \<and> hd_line h = i \<and> parse_heading_line l = Some (hd_level h, hd_text h)"
      using Cons.prems by (auto split: if_splits option.splits)
    then show ?thesis by simp
  qed
qed

lemma headings_blank [simp]: "headings_from i f [[]] = []"
  by (simp add: is_fence_def trim_start_def starts_with_def parse_heading_line_def leading_hashes_def)

lemma trim_start_space: "trim l = [] \<Longrightarrow> trim_start l = []"
  unfolding trim_def trim_end_matches_def trim_start_def
  by (metis dropWhile_eq_Nil_conv hd_dropWhile hd_in_set rev_is_Nil_conv set_rev)

lemma blank_plain: "blank l \<Longrightarrow> \<not> is_fence l \<and> parse_heading_line l = None"
  by (simp add: blank_def is_fence_def parse_heading_line_def Let_def leading_hashes_def
      starts_with_def trim_start_space)

lemma headings_from_texts:
  "map (\<lambda>h. (hd_level h, hd_text h)) (headings_from i f ls) =
     map (\<lambda>h. (hd_level h, hd_text h)) (headings_from 0 f ls)"
  using headings_from_shift [of 0 i f ls] by (simp add: comp_def)

lemma headings_window:
  assumes "s \<le> e" "e \<le> length ls"
  shows "headings ls = headings (take s ls)
      @ headings_from s (fence_after False (take s ls)) (take (e - s) (drop s ls))
      @ headings_from e (fence_after False (take e ls)) (drop e ls)"
proof -
  have e: "take e ls = take s ls @ take (e - s) (drop s ls)"
    using assms by (metis le_add_diff_inverse take_add)
  have "headings ls = headings (take e ls @ drop e ls)" by simp
  also have "\<dots> = headings (take e ls) @ headings_from e (fence_after False (take e ls)) (drop e ls)"
    using assms by (simp only: headings_def headings_from_append) simp
  also have "headings (take e ls) = headings (take s ls)
      @ headings_from s (fence_after False (take s ls)) (take (e - s) (drop s ls))"
    using assms by (simp only: headings_def headings_from_append e) simp
  finally show ?thesis by simp
qed

lemma filter_outside:
  assumes "s \<le> e" "e \<le> length ls"
  shows "filter (\<lambda>h. \<not> (s \<le> hd_line h \<and> hd_line h < e)) (headings ls) =
      headings (take s ls) @ headings_from e (fence_after False (take e ls)) (drop e ls)"
proof -
  have 1: "filter (\<lambda>h. \<not> (s \<le> hd_line h \<and> hd_line h < e)) (headings (take s ls)) = headings (take s ls)"
    unfolding headings_def using assms by (auto simp: filter_id_conv dest!: headings_from_line)
  have 2: "filter (\<lambda>h. \<not> (s \<le> hd_line h \<and> hd_line h < e))
      (headings_from s (fence_after False (take s ls)) (take (e - s) (drop s ls))) = []"
    using assms by (auto simp: filter_empty_conv dest!: headings_from_line)
  have 3: "filter (\<lambda>h. \<not> (s \<le> hd_line h \<and> hd_line h < e))
      (headings_from e (fence_after False (take e ls)) (drop e ls)) =
      headings_from e (fence_after False (take e ls)) (drop e ls)"
    using assms by (auto simp: filter_id_conv dest!: headings_from_line)
  show ?thesis by (subst headings_window [OF assms]) (simp only: filter_append 1 2 3 append_Nil)
qed

lemma headings_join:
  "list_all (\<lambda>l. newline \<notin> set l) ls \<Longrightarrow> headings (doc_lines (join [newline] ls)) = headings ls"
proof (cases "ls = []")
  case True
  then show ?thesis by (simp add: doc_lines_def headings_def del: headings_from.simps(2))
next
  case False
  assume "list_all (\<lambda>l. newline \<notin> set l) ls"
  from doc_lines_join [OF False this] show ?thesis by (rule arg_cong)
qed

lemma find_target_Inr:
  "find_target content arg = Inr h \<Longrightarrow>
     h \<in> set (headings (doc_lines content)) \<and> hd_text h = snd (parse_heading_arg arg) \<and>
     snd (parse_heading_arg arg) \<noteq> [] \<and>
     filter (\<lambda>k. hd_text k = hd_text h) (headings (doc_lines content)) = [h]"
proof -
  assume a: "find_target content arg = Inr h"
  then have "snd (parse_heading_arg arg) \<noteq> []"
    and f: "filter (\<lambda>k. hd_text k = snd (parse_heading_arg arg)) (headings (doc_lines content)) = [h]"
    by (auto simp: find_target_def find_unique_def Let_def split: if_splits list.splits)
  moreover have "h \<in> set (filter (\<lambda>k. hd_text k = snd (parse_heading_arg arg)) (headings (doc_lines content)))"
    unfolding f by simp
  then have "h \<in> set (headings (doc_lines content)) \<and> hd_text h = snd (parse_heading_arg arg)"
    by (simp only: set_filter mem_Collect_eq)
  ultimately show ?thesis using f by simp
qed

lemma body_range_bounds:
  assumes "h \<in> set (headings ls)" "body_range (length ls) (headings ls) h = (a, b)"
  shows "a = hd_line h + 1" "hd_line h < b" "b \<le> length ls"
    and "b < length ls \<Longrightarrow> \<not> fence_after False (take b ls)"
proof -
  show "a = hd_line h + 1" using assms(2) by (simp add: body_range_def)
  have h: "hd_line h < length ls" using headings_from_line [of h 0 False ls] assms(1) by (simp add: headings_def)
  have *: "hd_line h < b \<and> b \<le> length ls \<and> (b < length ls \<longrightarrow> \<not> fence_after False (take b ls))"
  proof (cases "find (\<lambda>k. hd_line k > hd_line h \<and> hd_level k \<le> hd_level h) (headings ls)")
    case None
    then show ?thesis using assms(2) h by (simp add: body_range_def)
  next
    case (Some k)
    then have b: "b = hd_line k" using assms(2) by (simp add: body_range_def)
    from find_in_set [OF Some] have k: "k \<in> set (headings_from 0 False ls)" "hd_line h < hd_line k"
      by (simp_all add: headings_def)
    show ?thesis using headings_from_line [OF k(1)] headings_from_at [OF k(1)] k(2) b by simp
  qed
  show "hd_line h < b" "b \<le> length ls" "b < length ls \<Longrightarrow> \<not> fence_after False (take b ls)"
    using * by blast+
qed

section \<open>Deleting a section\<close>

lemma doc_lines_no_newline_part:
  "list_all (\<lambda>l. newline \<notin> set l) (take a (doc_lines doc) @ drop b (doc_lines doc))"
  using doc_lines_no_newline [of doc] by (auto simp: list_all_iff dest: in_set_takeD in_set_dropD)

abbreviation outline :: "heading list \<Rightarrow> (nat \<times> string) list" where
  "outline hs \<equiv> map (\<lambda>h. (hd_level h, hd_text h)) hs"

lemma fence_after_heading:
  "h \<in> set (headings ls) \<Longrightarrow> \<not> fence_after False (take (hd_line h) ls)"
  using headings_from_at [of h 0 False ls] by (simp add: headings_def)

lemma headings_take_blank:
  assumes "0 < s" "s \<le> length ls" "blank (ls ! (s - 1))"
  shows "headings (take (s - 1) ls) = headings (take s ls)"
proof -
  have "take s ls = take (s - 1) ls @ [ls ! (s - 1)]"
    using assms by (metis Suc_diff_1 Suc_le_lessD take_Suc_conv_app_nth)
  then show ?thesis using blank_plain [OF assms(3)] by (simp add: headings_def headings_from_append)
qed

lemma remove_section_outline:
  assumes "section_range content arg = Inr (s, e)" "remove_section content arg = Inr out"
  shows "outline (headings (doc_lines out)) =
    outline (filter (\<lambda>h. \<not> (s \<le> hd_line h \<and> hd_line h < e)) (headings (doc_lines content)))"
proof -
  let ?ls = "doc_lines content"
  obtain h where h: "find_target content arg = Inr h" "s = hd_line h"
      and r: "body_range (length ?ls) (headings ?ls) h = (s + 1, e)"
    using assms(1) by (auto simp: section_range_def Let_def res_simps body_range_def)
  have hin: "h \<in> set (headings ?ls)" using find_target_Inr [OF h(1)] by simp
  note b = body_range_bounds [OF hin r]
  have se: "s \<le> e" "e \<le> length ?ls" using b h(2) by auto
  have fs: "\<not> fence_after False (take s ?ls)" using fence_after_heading [OF hin] h(2) by simp
  define s' where "s' = (if length ?ls \<le> e \<and> 0 < s \<and> blank (?ls ! (s - 1)) then s - 1 else s)"
  define e' where "e' = (if length ?ls \<le> e \<and> last ?ls = [] then e - 1 else e)"
  have out: "out = join [newline] (take s' ?ls @ drop e' ?ls)"
    using assms(2) unfolding remove_section_def assms(1) s'_def e'_def
    by (auto simp: Let_def split: if_splits)
  have new: "headings (doc_lines out) = headings (take s' ?ls @ drop e' ?ls)"
    unfolding out by (rule headings_join [OF doc_lines_no_newline_part])
  show ?thesis
  proof (cases "e < length ?ls")
    case True
    then have "s' = s" "e' = e" by (simp_all add: s'_def e'_def)
    then have "headings (doc_lines out) =
        headings (take s ?ls) @ headings_from (min (length ?ls) s) False (drop e ?ls)"
      using new fs by (simp add: headings_def headings_from_append)
    then show ?thesis
      using filter_outside [OF se] b(4) [OF True]
        headings_from_texts [of "min (length ?ls) s"] headings_from_texts [of e] by simp
  next
    case False
    then have e: "e = length ?ls" using se by simp
    have ne: "?ls \<noteq> []" using b h(2) by auto
    have tail: "drop e' ?ls = [] \<or> drop e' ?ls = [[]]"
    proof (cases "last ?ls = []")
      case True
      then have "?ls = butlast ?ls @ [[]]" using ne by (metis append_butlast_last_id)
      then have "drop (length ?ls - 1) ?ls = [[]]" by (metis append_eq_conv_conj length_butlast)
      then show ?thesis using True e by (simp add: e'_def)
    qed (use e in \<open>simp add: e'_def\<close>)
    have "headings (take s' ?ls @ drop e' ?ls) = headings (take s' ?ls)"
      using tail by (auto simp: headings_def headings_from_append simp del: headings_from.simps(2))
    also have "\<dots> = headings (take s ?ls)"
      using headings_take_blank [of s ?ls] se by (auto simp: s'_def)
    finally show ?thesis using new filter_outside [OF se] e by simp
  qed
qed

text \<open>
  Deleting a section deletes exactly the headings of its span: the outline of the new
  document is the old outline without the headings between the section's first line and the next
  heading of the same or a higher level, and the address no longer resolves.
\<close>

lemma remove_section_deletes_span:
  assumes "section_range content arg = Inr (s, e)" "remove_section content arg = Inr out"
  shows "outline (headings (doc_lines out)) =
      outline (filter (\<lambda>h. \<not> (s \<le> hd_line h \<and> hd_line h < e)) (headings (doc_lines content))) \<and>
    headings (doc_lines out) \<noteq> [] \<and> find_target out arg = Inl SectionNotFound"
proof -
  let ?hs = "headings (doc_lines content)"
  let ?outside = "\<lambda>h. \<not> (s \<le> hd_line h \<and> hd_line h < e)"
  note o = remove_section_outline [OF assms]
  obtain h where h: "find_target content arg = Inr h" "s = hd_line h"
      and r: "body_range (length (doc_lines content)) ?hs h = (s + 1, e)"
    using assms(1) by (auto simp: section_range_def Let_def res_simps body_range_def)
  note t = find_target_Inr [OF h(1)]
  have "hd_line h < e" using body_range_bounds(2) [OF _ r] t by simp
  have "want \<noteq> snd (parse_heading_arg arg)" if "want \<in> snd ` set (outline (headings (doc_lines out)))" for want
  proof -
    obtain k where k: "k \<in> set ?hs" "?outside k" "want = hd_text k" using \<open>want \<in> _\<close> unfolding o by auto
    have "k \<noteq> h" using k(2) h(2) \<open>hd_line h < e\<close> by auto
    moreover have "filter (\<lambda>k. hd_text k = hd_text h) ?hs = [h]" using t by blast
    ultimately have "k \<notin> set (filter (\<lambda>k. hd_text k = hd_text h) ?hs)" by (simp only: list.set) simp
    then have "hd_text k \<noteq> hd_text h" using k(1) by (simp only: set_filter mem_Collect_eq) simp
    then show ?thesis using k t by simp
  qed
  then have none: "filter (\<lambda>k. hd_text k = snd (parse_heading_arg arg)) (headings (doc_lines out)) = []"
    by (force simp: filter_empty_conv)
  have less: "length (filter (\<lambda>h. s \<le> hd_line h \<and> hd_line h < e) ?hs) \<noteq> length ?hs"
    using assms(2) unfolding remove_section_def assms(1) by (auto simp: Let_def split: if_splits)
  have "filter ?outside ?hs \<noteq> []"
  proof
    assume "filter ?outside ?hs = []"
    then have "\<forall>h \<in> set ?hs. s \<le> hd_line h \<and> hd_line h < e" by (simp only: filter_empty_conv) blast
    then have "filter (\<lambda>h. s \<le> hd_line h \<and> hd_line h < e) ?hs = ?hs" by (simp only: filter_id_conv)
    with less show False by simp
  qed
  then have "headings (doc_lines out) \<noteq> []" using o 
    by (metis (no_types, lifting) map_is_Nil_conv)
  then show ?thesis using o none t by (simp add: find_target_def find_unique_def Let_def)
qed

lemma remove_section_deletes_span_instance:
  "find_target (join [newline] [''# T'', '''', ''# B'']) ''## A'' = Inl SectionNotFound"
proof -
  let ?doc = "join [newline] [''# T'', '''', ''## A'', ''x'', ''### S'', ''# B'']"
  have d: "doc_lines ?doc = [''# T'', '''', ''## A'', ''x'', ''### S'', ''# B'']" by code_simp
  have h: "headings [''# T'', '''', ''## A'', ''x'', ''### S'', ''# B''] =
      [\<lparr>hd_line = 0, hd_level = 1, hd_text = ''T''\<rparr>, \<lparr>hd_line = 2, hd_level = 2, hd_text = ''A''\<rparr>,
       \<lparr>hd_line = 4, hd_level = 3, hd_text = ''S''\<rparr>, \<lparr>hd_line = 5, hd_level = 1, hd_text = ''B''\<rparr>]"
    by code_simp
  have a: "parse_heading_arg ''## A'' = (Some 2, ''A'')" by code_simp
  have 1: "section_range ?doc ''## A'' = Inr (2, 5)"
    unfolding section_range_def find_target_def d h a
    by (simp add: find_unique_def body_range_def Let_def h)
  have 2: "remove_section ?doc ''## A'' = Inr (join [newline] [''# T'', '''', ''# B''])"
    unfolding remove_section_def 1 try_with_simps Let_def d h by simp
  show ?thesis using remove_section_deletes_span [OF 1 2] by blast
qed

section \<open>Replacing and extending a section\<close>

lemma keep_regions_Inr [res_simps]:
  "keep_regions before after = Inr out \<longleftrightarrow> out = after \<and> changed_regions before after = []"
  by (auto simp: keep_regions_def)

lemma doc_lines_parts:
  assumes "list_all (\<lambda>l. newline \<notin> set l) mid" "mid \<noteq> []"
  shows "doc_lines (join [newline] (take a (doc_lines doc) @ mid @ drop b (doc_lines doc))) =
    take a (doc_lines doc) @ mid @ drop b (doc_lines doc)"
  using assms doc_lines_no_newline [of doc]
  by (intro doc_lines_join) (auto simp: list_all_iff dest: in_set_takeD in_set_dropD)

lemma split_on_lines: "list_all (\<lambda>l. newline \<notin> set l) (split_on newline s)"
  by (auto simp: list_all_iff dest: split_on_no_sep)

lemma body_block_lines: "list_all (\<lambda>l. newline \<notin> set l) (body_block s)" "body_block s \<noteq> []"
  using split_on_lines by (simp_all add: body_block_def)

lemma own_body_end_bounds:
  assumes "hd_line h < e"
  shows "hd_line h < own_body_end hs h e" "own_body_end hs h e \<le> e"
  using assms by (auto simp: own_body_end_def split: option.splits dest: find_in_set)

text \<open>The window \<open>[start, stop)\<close> that an edit replaces.\<close>

definition edit_window :: "string \<Rightarrow> heading \<Rightarrow> string \<Rightarrow> nat \<times> nat" where
  "edit_window content target body =
     (let ls = doc_lines content; (a, b) = body_range (length ls) (headings ls) target
      in (a, if headings (split_on newline body) = [] then own_body_end (headings ls) target b else b))"

lemma edit_section_shape:
  assumes "edit_section content arg body = Inr out" "find_target content arg = Inr h"
    and "edit_window content h (strip_repeated_heading body (snd (parse_heading_arg arg))) = (a, b)"
  shows "\<exists>s. doc_lines out = take a (doc_lines content) @ body_block s @ drop b (doc_lines content)"
    and "changed_regions content out = []"
proof -
  obtain s where "out = join [newline] (take a (doc_lines content) @ body_block s @ drop b (doc_lines content))
      \<and> changed_regions content out = []"
    using assms unfolding edit_section_def edit_window_def
    by (auto simp: Let_def res_simps split: prod.splits if_splits)
  then show "\<exists>s. doc_lines out = take a (doc_lines content) @ body_block s @ drop b (doc_lines content)"
    and "changed_regions content out = []"
    using doc_lines_parts [OF body_block_lines] by auto
qed

text \<open>
  An edit of a section touches that section only: the new document consists of the old lines
  up to and including the heading, one new block, and the old lines from a line inside or at the
  end of the section's span on, and every managed region is what it was.
\<close>

lemma edit_section_local:
  assumes "section_range content arg = Inr (s, e)" "edit_section content arg body = Inr out"
  shows "\<exists>block stop. s < stop \<and> stop \<le> e \<and> e \<le> length (doc_lines content) \<and>
      doc_lines out = take (s + 1) (doc_lines content) @ block @ drop stop (doc_lines content) \<and>
      changed_regions content out = []"
proof -
  let ?ls = "doc_lines content"
  obtain h where h: "find_target content arg = Inr h" "s = hd_line h"
      and r: "body_range (length ?ls) (headings ?ls) h = (s + 1, e)"
    using assms(1) by (auto simp: section_range_def Let_def res_simps body_range_def)
  have hin: "h \<in> set (headings ?ls)" using find_target_Inr [OF h(1)] by simp
  note b = body_range_bounds [OF hin r]
  obtain stop where w: "edit_window content h (strip_repeated_heading body (snd (parse_heading_arg arg)))
      = (s + 1, stop)" "s < stop" "stop \<le> e"
    using own_body_end_bounds [of h e "headings ?ls"] b(2) h(2) r
    by (simp add: edit_window_def Let_def split: if_splits)
  obtain blk where "doc_lines out = take (s + 1) ?ls @ body_block blk @ drop stop ?ls"
    using edit_section_shape(1) [OF assms(2) h(1) w(1)] by blast
  then show ?thesis using w b(3) edit_section_shape(2) [OF assms(2) h(1) w(1)] by blast
qed

text \<open>
  Appending keeps every line: the new document is the old one with new lines put in inside
  the section, where at most blank lines or lines of a managed region make room for them, and
  every managed region is what it was.
\<close>

lemma append_keeps_lines:
  assumes "section_range content arg = Inr (s, e)" "append_to_section content arg body = Inr out"
  shows "\<exists>k k' new. s < k \<and> k \<le> k' \<and> k' \<le> e \<and>
      doc_lines out = take k (doc_lines content) @ new @ drop k' (doc_lines content) \<and>
      list_all (\<lambda>i. blank (doc_lines content ! i) \<or>
        list_ex (\<lambda>sp. sp_open sp \<le> i \<and> i \<le> sp_close sp) (spans_of (doc_lines content))) [k..<k'] \<and>
      changed_regions content out = []"
proof -
  let ?ls = "doc_lines content"
  obtain h where h: "find_target content arg = Inr h" "s = hd_line h"
      and r: "body_range (length ?ls) (headings ?ls) h = (s + 1, e)"
    using assms(1) by (auto simp: section_range_def Let_def res_simps body_range_def)
  have hin: "h \<in> set (headings ?ls)" using find_target_Inr [OF h(1)] by simp
  note b = body_range_bounds [OF hin r]
  let ?in = "\<lambda>i. list_ex (\<lambda>sp. sp_open sp \<le> i \<and> i \<le> sp_close sp) (spans_of ?ls)"
  let ?rule = "trailing_rule ?ls (s + 1) e"
  let ?find = "find (\<lambda>i. \<not> blank (?ls ! i) \<and> \<not> ?in i \<and> ?rule \<noteq> Some i) (rev [s + 1..<e])"
  let ?t = "trim_newlines_both body"
  have t: "list_all (\<lambda>l. newline \<notin> set l) (split_on newline ?t)" by (rule split_on_lines)
  have out: "out = join [newline] (case ?find of
        Some i \<Rightarrow> take (i + 1) ?ls @ split_on newline ?t @ drop (i + 1) ?ls
      | None \<Rightarrow> if ?rule \<noteq> None \<or> list_ex (\<lambda>sp. s + 1 \<le> sp_open sp \<and> sp_open sp < e) (spans_of ?ls)
          then take (s + 1) ?ls @ [[]] @ split_on newline ?t @ drop (s + 1) ?ls
          else take (s + 1) ?ls @ body_block ?t @ drop e ?ls)"
    and keep: "changed_regions content out = []"
    using assms(2) unfolding append_to_section_def h(1) r try_with_simps Let_def prod.case
      keep_regions_Inr by (simp_all only:)
  show ?thesis
  proof (cases ?find)
    case (Some i)
    from find_in_set [OF Some] have i: "s < i" "i < e" by auto
    have "doc_lines out = take (i + 1) ?ls @ split_on newline ?t @ drop (i + 1) ?ls"
      using doc_lines_parts [OF t split_on_not_Nil] by (simp only: out Some option.case)
    then show ?thesis using i keep by (intro exI [of _ "i + 1"] exI) auto
  next
    case None
    show ?thesis
    proof (cases "?rule \<noteq> None \<or> list_ex (\<lambda>sp. s + 1 \<le> sp_open sp \<and> sp_open sp < e) (spans_of ?ls)")
      case True
      have "doc_lines out = take (s + 1) ?ls @ ([] # split_on newline ?t) @ drop (s + 1) ?ls"
        using doc_lines_parts [of "[] # split_on newline ?t" "s + 1" content "s + 1"] t True None
        by (simp add: out)
      then show ?thesis using b h(2) keep by (intro exI [of _ "s + 1"] exI) auto
    next
      case False
      have "doc_lines out = take (s + 1) ?ls @ body_block ?t @ drop e ?ls"
        using doc_lines_parts [OF body_block_lines] False None by (simp add: out)
      moreover have "list_all (\<lambda>i. blank (?ls ! i) \<or> ?in i) [s + 1..<e]"
        using None False by (auto simp: list_all_iff find_None_iff)
      ultimately show ?thesis using b h(2) keep
        by (intro exI [of _ "s + 1"] exI [of _ e] exI [of _ "body_block ?t"]) auto
    qed
  qed
qed

section \<open>Edits of different sections never collide\<close>

text \<open>
  Replacing a heading-free part \<open>X\<close> of the lines by a heading-free part \<open>Y\<close> moves the later
  headings and keeps every other one.
\<close>

definition moved :: "nat \<Rightarrow> nat \<Rightarrow> nat \<Rightarrow> nat \<Rightarrow> nat" where
  "moved p x y l = (if l < p then l else l + y - x)"

abbreviation move_heading :: "nat \<Rightarrow> nat \<Rightarrow> nat \<Rightarrow> heading \<Rightarrow> heading" where
  "move_heading p x y h \<equiv> h\<lparr>hd_line := moved p x y (hd_line h)\<rparr>"

definition replaceable :: "string list \<Rightarrow> string list \<Rightarrow> string list \<Rightarrow> string list \<Rightarrow> bool" where
  "replaceable P X Y S \<longleftrightarrow>
     (S = [] \<or> fence_after (fence_after False P) X = fence_after (fence_after False P) Y) \<and>
     headings_from (length P) (fence_after False P) X = [] \<and>
     headings_from (length P) (fence_after False P) Y = []"

lemma headings_around:
  "replaceable P X Y S \<Longrightarrow> headings (P @ X @ S) =
     headings P @ headings_from (length P + length X) (fence_after (fence_after False P) X) S"
  by (simp add: replaceable_def headings_def headings_from_append)

lemma headings_outside:
  assumes "replaceable P X Y S" "h \<in> set (headings (P @ X @ S))"
  shows "hd_line h < length P \<or> length P + length X \<le> hd_line h"
proof -
  have "h \<in> set (headings_from 0 False P) \<or>
      h \<in> set (headings_from (length P + length X) (fence_after (fence_after False P) X) S)"
    using assms(2) unfolding headings_around [OF assms(1)] by (simp add: headings_def)
  then show ?thesis by (auto dest: headings_from_line)
qed

lemma headings_moved:
  assumes "replaceable P X Y S"
  shows "headings (P @ Y @ S) = map (move_heading (length P) (length X) (length Y)) (headings (P @ X @ S))"
proof -
  let ?mh = "move_heading (length P) (length X) (length Y)"
  have 1: "map ?mh (headings P) = headings P"
    unfolding headings_def by (rule map_idI) (auto simp: moved_def dest!: headings_from_line)
  have 2: "headings_from (length P + length Y) f S = map ?mh (headings_from (length P + length X) f S)" for f
    using headings_from_shift [of 0 "length P + length X" f S] headings_from_shift [of 0 "length P + length Y" f S]
    by (simp add: moved_def)
  have "headings (P @ Y @ S) =
      headings P @ headings_from (length P + length Y) (fence_after (fence_after False P) Y) S"
    using assms by (simp add: replaceable_def headings_def headings_from_append)
  also have "\<dots> = headings P @ headings_from (length P + length Y) (fence_after (fence_after False P) X) S"
    using assms by (cases "S = []") (simp_all add: replaceable_def)
  finally show ?thesis by (simp only: headings_around [OF assms] map_append 1 2)
qed

lemma moved_less:
  assumes "replaceable P X Y S" "h \<in> set (headings (P @ X @ S))" "k \<in> set (headings (P @ X @ S))"
  shows "moved (length P) (length X) (length Y) (hd_line h) < moved (length P) (length X) (length Y) (hd_line k)
    \<longleftrightarrow> hd_line h < hd_line k"
  using headings_outside [OF assms(1,2)] headings_outside [OF assms(1,3)] by (auto simp: moved_def)

lemma find_map_cong:
  "(\<And>x. x \<in> set xs \<Longrightarrow> p (g x) = q x) \<Longrightarrow> find p (map g xs) = map_option g (find q xs)"
  by (induction xs) auto

lemma body_range_moved:
  assumes "replaceable P X Y S" "k \<in> set (headings (P @ X @ S))"
    and "body_range (length (P @ X @ S)) (headings (P @ X @ S)) k = (a, b)"
  shows "snd (body_range (length (P @ Y @ S)) (headings (P @ Y @ S))
      (move_heading (length P) (length X) (length Y) k)) = moved (length P) (length X) (length Y) b"
proof -
  let ?mh = "move_heading (length P) (length X) (length Y)"
  let ?p = "\<lambda>h. hd_line k < hd_line h \<and> hd_level h \<le> hd_level k"
  have "find (\<lambda>h. hd_line (?mh k) < hd_line h \<and> hd_level h \<le> hd_level (?mh k)) (headings (P @ Y @ S)) =
      map_option ?mh (find ?p (headings (P @ X @ S)))"
    unfolding headings_moved [OF assms(1)]
    by (rule find_map_cong) (simp add: moved_less [OF assms(1,2)])
  moreover have "moved (length P) (length X) (length Y) (length (P @ X @ S)) = length (P @ Y @ S)"
    by (simp add: moved_def)
  ultimately show ?thesis using assms(3) by (auto simp: body_range_def split: option.splits)
qed

lemma slice_moved:
  assumes "replaceable P X Y S" "k \<in> set (headings (P @ X @ S))"
    and r: "body_range (length (P @ X @ S)) (headings (P @ X @ S)) k = (a, b)"
    and apart: "length P + length X \<le> hd_line k \<or> b < length P"
  shows "section_slice (P @ Y @ S) (headings (P @ Y @ S)) (move_heading (length P) (length X) (length Y) k) =
    section_slice (P @ X @ S) (headings (P @ X @ S)) k"
proof -
  let ?mv = "moved (length P) (length X) (length Y)"
  note bounds = body_range_bounds [OF assms(2) r]
  have "take (?mv b - ?mv (hd_line k)) (drop (?mv (hd_line k)) (P @ Y @ S)) =
      take (b - hd_line k) (drop (hd_line k) (P @ X @ S))"
    using apart
  proof
    assume h: "length P + length X \<le> hd_line k"
    obtain d where d: "hd_line k = length P + length X + d" using h by (metis le_Suc_ex)
    have mvs: "?mv (length P + length X + d) = length P + length Y + d" "?mv b = b + length Y - length X"
      using d bounds by (auto simp: moved_def)
    have "drop (length P + length Y + d) (P @ Y @ S) = drop d S"
      "drop (length P + length X + d) (P @ X @ S) = drop d S" by simp_all
    then show ?thesis unfolding d mvs using bounds(2) d by (simp add: add.commute add.left_commute)
  next
    assume "b < length P"
    then show ?thesis using bounds(2) by (simp add: moved_def)
  qed
  then show ?thesis using body_range_moved [OF assms(1-3)] r by (simp add: section_slice_def Let_def)
qed

text \<open>Lines that are neither fences nor headings.\<close>

definition plain_line :: "string \<Rightarrow> bool" where
  "plain_line l \<longleftrightarrow> \<not> is_fence l \<and> parse_heading_line l = None"

lemma plain_lines:
  "list_all plain_line ls \<Longrightarrow> headings_from i f ls = [] \<and> fence_after f ls = f"
  by (induction ls arbitrary: i f) (auto simp: plain_line_def split: option.splits)

lemma set_trim: "set (trim l) \<subseteq> set l"
  by (auto simp: trim_def trim_end_matches_def trim_start_def dest!: set_dropWhileD)

lemma plain_rule:
  assumes "is_thematic_break l"
  shows "plain_line (trim l)"
proof -
  have c: "c = CHR ''-'' \<or> c = CHR ''*'' \<or> c = CHR ''_'' \<or> is_space c" if "c \<in> set l" for c
    using assms that by (auto simp: is_thematic_break_def Let_def list_all_iff)
  have d: "c = CHR ''-'' \<or> c = CHR ''*'' \<or> c = CHR ''_'' \<or> is_space c" if "c \<in> set (trim_start (trim l))" for c
    using that set_trim [of l] c by (auto simp: trim_start_def dest: set_dropWhileD)
  show ?thesis
  proof (cases "trim_start (trim l)")
    case Nil
    then show ?thesis
      by (simp add: plain_line_def is_fence_def parse_heading_line_def leading_hashes_def starts_with_def)
  next
    case (Cons c cs)
    then have "c \<in> {CHR ''-'', CHR ''*'', CHR ''_''} \<or> is_space c" using d [of c] by auto
    then have "c \<noteq> hash_char" "c \<noteq> CHR 0x60" "c \<noteq> CHR ''~''" by (auto simp: is_space_def)
    then show ?thesis
      using Cons by (simp add: plain_line_def is_fence_def parse_heading_line_def leading_hashes_def starts_with_def)
  qed
qed

section \<open>The block an edit writes\<close>

definition plain_body :: "string \<Rightarrow> string \<Rightarrow> bool" where
  "plain_body want body \<longleftrightarrow>
     (let b = strip_repeated_heading body want;
          ls = split_on newline (trim_end (trim_start_newlines b))
      in headings (split_on newline b) = [] \<and> headings ls = [] \<and> \<not> fence_after False ls)"

definition blank_free :: "string \<Rightarrow> bool" where
  "blank_free t \<longleftrightarrow> t = [] \<or> (hd t \<noteq> newline \<and> \<not> is_space (last t))"

lemma trim_end_last: "s = [] \<or> \<not> is_space (last s) \<Longrightarrow> trim_end s = s"
  by (cases s rule: rev_cases) (auto simp: trim_end_def trim_end_matches_def)

lemma trim_end_no_space: "trim_end s = [] \<or> \<not> is_space (last (trim_end s))"
  by (cases "dropWhile is_space (rev s)")
    (use hd_dropWhile [of is_space "rev s"] in \<open>auto simp: trim_end_def trim_end_matches_def last_rev\<close>)

lemma trim_start_newlines_hd: "s = [] \<or> hd s \<noteq> newline \<Longrightarrow> trim_start_newlines s = s"
  by (cases s) (auto simp: trim_start_newlines_def)

lemma trim_end_prefix: "\<exists>t. s = trim_end s @ t"
  unfolding trim_end_def trim_end_matches_def
  by (metis rev_append rev_rev_ident takeWhile_dropWhile_id)

lemma blank_free_trim: "blank_free (trim_end (trim_start_newlines s))"
proof (cases "trim_end (trim_start_newlines s)")
  case Nil
  then show ?thesis by (simp add: blank_free_def)
next
  case (Cons c cs)
  have "hd (trim_start_newlines s) = c"
    using trim_end_prefix [of "trim_start_newlines s"] Cons by (metis append_Cons list.sel(1))
  moreover have "trim_start_newlines s \<noteq> []"
    using trim_end_prefix [of "trim_start_newlines s"] Cons by (metis append_is_Nil_conv list.distinct(1))
  then have "hd (trim_start_newlines s) \<noteq> newline"
    using hd_dropWhile [of "\<lambda>c. c = newline" s] by (simp add: trim_start_newlines_def)
  ultimately show ?thesis
    using trim_end_no_space [of "trim_start_newlines s"] Cons by (auto simp: blank_free_def)
qed

lemma blank_free_fixed: "blank_free t \<Longrightarrow> trim_end (trim_start_newlines t) = t"
  by (auto simp: blank_free_def trim_start_newlines_hd trim_end_last)

lemma split_on_app: "split_on c (a @ c # b) = split_on c a @ split_on c b"
  by (induction a) (auto split: list.splits)

lemma trim_ends:
  assumes "trim l \<noteq> []"
  shows "\<not> is_space (hd (trim l))" "\<not> is_space (last (trim l))"
proof -
  show "\<not> is_space (last (trim l))"
    using trim_end_no_space [of "trim_start l"] assms by (simp add: trim_def trim_end_def)
  obtain t where t: "trim_start l = trim l @ t"
    using trim_end_prefix [of "trim_start l"] by (auto simp: trim_def trim_end_def)
  then have "hd (trim l) = hd (trim_start l)" "trim_start l \<noteq> []" using assms by auto
  then show "\<not> is_space (hd (trim l))"
    using hd_dropWhile [of is_space l] by (simp add: trim_start_def)
qed

lemma plain_empty [simp]: "plain_line []"
  by (simp add: plain_line_def is_fence_def parse_heading_line_def leading_hashes_def
      starts_with_def trim_start_def)

lemma block_lines:
  assumes t: "blank_free t" and r: "trim r \<noteq> []" "newline \<notin> set r"
  shows "body_block t = [[]] @ split_on newline t @ [[]]"
    and "body_block (t @ [newline, newline] @ trim r) =
      [[]] @ (if t = [] then [] else split_on newline t @ [[]]) @ [trim r] @ [[]]"
proof -
  show "body_block t = [[]] @ split_on newline t @ [[]]"
    by (simp add: body_block_def blank_free_fixed [OF t])
  have nl: "is_space newline" by (simp add: is_space_def newline_def)
  have one: "split_on newline (trim r) = [trim r]"
    by (rule split_on_word) (use set_trim [of r] r(2) in blast)
  have tr: "blank_free (trim r)"
    using trim_ends [OF r(1)] nl by (auto simp: blank_free_def)
  show "body_block (t @ [newline, newline] @ trim r) =
      [[]] @ (if t = [] then [] else split_on newline t @ [[]]) @ [trim r] @ [[]]"
  proof (cases "t = []")
    case True
    have "trim_start_newlines ([newline, newline] @ trim r) = trim_start_newlines (trim r)"
      by (simp add: trim_start_newlines_def)
    then have "trim_end (trim_start_newlines ([newline, newline] @ trim r)) = trim r"
      by (simp only: blank_free_fixed [OF tr])
    then show ?thesis using True one by (simp add: body_block_def)
  next
    case False
    have "blank_free (t @ [newline, newline] @ trim r)"
      using False t trim_ends [OF r(1)] r(1) by (simp add: blank_free_def)
    then have "body_block (t @ [newline, newline] @ trim r) =
        [[]] @ split_on newline (t @ newline # newline # trim r) @ [[]]"
      by (simp add: body_block_def blank_free_fixed)
    moreover have "split_on newline (newline # trim r) = [[], trim r]" by (simp add: one)
    ultimately show ?thesis
      using False by (simp only: split_on_app) simp
  qed
qed

definition harmless :: "string list \<Rightarrow> bool" where
  "harmless ls \<longleftrightarrow> headings ls = [] \<and> \<not> fence_after False ls"

lemma fence_after_append: "fence_after f (xs @ ys) = fence_after (fence_after f xs) ys"
  by (induction xs arbitrary: f) auto

lemma headings_from_none: "headings ls = [] \<Longrightarrow> headings_from i False ls = []"
  using headings_from_texts [of i False ls] by (simp add: headings_def)

lemma harmless_append: "harmless xs \<Longrightarrow> harmless ys \<Longrightarrow> harmless (xs @ ys)"
  by (simp add: harmless_def fence_after_append)
    (simp add: headings_def headings_from_append headings_from_none [unfolded headings_def])

lemma harmless_plain: "list_all plain_line ls \<Longrightarrow> harmless ls"
  by (simp add: harmless_def headings_def plain_lines)

lemma harmless_block:
  assumes "blank_free t" "harmless (split_on newline t)"
    and "r \<noteq> None \<Longrightarrow> is_thematic_break (the r) \<and> \<not> blank (the r) \<and> newline \<notin> set (the r)"
  shows "harmless (body_block (case r of None \<Rightarrow> t | Some l \<Rightarrow> t @ [newline, newline] @ trim l))"
proof (cases r)
  case None
  have "body_block t = [[]] @ split_on newline t @ [[]]"
    by (simp add: body_block_def blank_free_fixed [OF assms(1)])
  then show ?thesis
    using None assms(2) harmless_append [OF harmless_plain [of "[[]]"] harmless_append
        [OF assms(2) harmless_plain [of "[[]]"]]] by simp
next
  case (Some l)
  then have l: "trim l \<noteq> []" "newline \<notin> set l" "plain_line (trim l)"
    using assms(3) plain_rule by (auto simp: blank_def)
  have b: "body_block (t @ [newline, newline] @ trim l) =
      [[]] @ (if t = [] then [] else split_on newline t @ [[]]) @ [trim l] @ [[]]"
    by (rule block_lines(2) [OF assms(1) l(1,2)])
  have e: "harmless [[]]" "harmless [trim l]" using l(3) by (auto intro: harmless_plain)
  have "harmless (if t = [] then [] else split_on newline t @ [[]])"
    using harmless_append [OF assms(2) e(1)] harmless_plain [of "[]"] by simp
  from harmless_append [OF e(1) harmless_append [OF this harmless_append [OF e(2,1)]]]
  show ?thesis unfolding Some option.case b .
qed

section \<open>The part an edit replaces\<close>

lemma headings_sorted: "sorted_wrt (\<lambda>a b. hd_line a < hd_line b) (headings_from i f ls)"
proof (induction ls arbitrary: i f)
  case Nil
  then show ?case by simp
next
  case (Cons l ls)
  have "hd_line h > i" if "h \<in> set (headings_from (Suc i) f ls)" for h f
    using headings_from_line [OF that] by simp
  then show ?case using Cons by (auto split: option.splits)
qed

lemma own_text_plain:
  assumes "h \<in> set (headings ls)" "own_body_end (headings ls) h e \<le> e"
    and "k \<in> set (headings ls)" "hd_line h < hd_line k"
  shows "own_body_end (headings ls) h e \<le> hd_line k"
proof (cases "find (\<lambda>h'. hd_line h' > hd_line h) (headings ls)")
  case None
  then show ?thesis using assms(3,4) by (auto simp: find_None_iff)
next
  case (Some k0)
  then obtain i where i: "i < length (headings ls)" "k0 = headings ls ! i"
      "\<forall>j < i. \<not> hd_line (headings ls ! j) > hd_line h"
    by (auto simp: find_Some_iff)
  obtain j where j: "j < length (headings ls)" "k = headings ls ! j"
    using assms(3) by (auto simp: in_set_conv_nth)
  then have "i \<le> j" using i(3) assms(4) not_le by blast
  then have "hd_line k0 \<le> hd_line k"
    using headings_sorted [of 0 False ls] i j
    by (cases "i = j") (auto simp: headings_def sorted_wrt_iff_nth_less intro: less_imp_le)
  then show ?thesis using Some by (simp add: own_body_end_def)
qed

lemma own_body_end_fence:
  assumes "h \<in> set (headings ls)" "body_range (length ls) (headings ls) h = (a, e)"
    and "own_body_end (headings ls) h e < length ls"
  shows "\<not> fence_after False (take (own_body_end (headings ls) h e) ls)"
proof (cases "find (\<lambda>h'. hd_line h' > hd_line h) (headings ls)")
  case None
  then show ?thesis using assms body_range_bounds(4) [OF assms(1,2)] by (simp add: own_body_end_def)
next
  case (Some k)
  then have "k \<in> set (headings ls)" using find_in_set by fastforce
  then show ?thesis
    using Some fence_after_heading assms(3) body_range_bounds(4) [OF assms(1,2)]
    by (auto simp: own_body_end_def min_def)
qed

lemma find_target_moved:
  assumes "find_target content arg = Inr k"
    and "headings (doc_lines out) = map (\<lambda>h. h\<lparr>hd_line := f (hd_line h)\<rparr>) (headings (doc_lines content))"
  shows "find_target out arg = Inr (k\<lparr>hd_line := f (hd_line k)\<rparr>)"
proof -
  have "filter (\<lambda>h. hd_text h = snd (parse_heading_arg arg)) (headings (doc_lines content)) = [k]"
    using find_target_Inr [OF assms(1)] by metis
  then show ?thesis
    using find_target_Inr [OF assms(1)] assms(2)
    by (simp add: find_target_def find_unique_def Let_def filter_map comp_def)
qed

text \<open>An edit with a plain body of a section without managed regions replaces its own text.\<close>

lemma edit_section_plain:
  assumes h: "find_target content arg = Inr h"
    and r: "body_range (length (doc_lines content)) (headings (doc_lines content)) h = (a, e)"
    and edit: "edit_section content arg body = Inr out"
    and plain: "plain_body (snd (parse_heading_arg arg)) body"
    and regions: "list_all (\<lambda>sp. sp_close sp < hd_line h \<or> e \<le> sp_open sp) (spans_of (doc_lines content))"
  shows "\<exists>Y. harmless Y \<and> doc_lines out = take a (doc_lines content) @ Y
      @ drop (own_body_end (headings (doc_lines content)) h e) (doc_lines content)"
proof -
  let ?ls = "doc_lines content" and ?b = "strip_repeated_heading body (snd (parse_heading_arg arg))"
  let ?bend = "own_body_end (headings ?ls) h e"
  let ?t = "trim_end (trim_start_newlines ?b)"
  have hin: "h \<in> set (headings ?ls)" using find_target_Inr [OF h] by simp
  note bb = body_range_bounds [OF hin r]
  have bend: "hd_line h < ?bend" "?bend \<le> e" using own_body_end_bounds [OF bb(2)] by auto
  have nohead: "headings (split_on newline ?b) = []" and t: "harmless (split_on newline ?t)"
    using plain by (simp_all add: plain_body_def harmless_def Let_def)
  have none: "filter (\<lambda>sp. a \<le> sp_open sp \<and> sp_close sp < ?bend) (spans_of ?ls) = []"
    using regions bend spans_from_shape [of _ 0 "mask_lines ?ls"]
    by (fastforce simp: filter_empty_conv list_all_iff spans_of_def bb(1))
  have kept: "kept_regions ?ls ?b a ?bend ?t = ?t" by (simp add: kept_regions_def none)
  let ?rule = "trailing_rule ?ls a ?bend"
  let ?has = "trailing_rule (split_on newline ?b) 0 (length (split_on newline ?b)) \<noteq> None"
  let ?r = "case ?rule of Some l \<Rightarrow> if ?has then None else Some (?ls ! l) | None \<Rightarrow> None"
  let ?txt = "case ?r of None \<Rightarrow> ?t | Some l \<Rightarrow> ?t @ [newline, newline] @ trim l"
  have same: "(case ?rule of Some l \<Rightarrow> if ?has then ?t else ?t @ [newline, newline] @ trim (?ls ! l)
      | None \<Rightarrow> ?t) = ?txt"
    by (simp split: option.splits)
  have "out = join [newline] (take a ?ls @ body_block ?txt @ drop ?bend ?ls)"
    using edit
    unfolding edit_section_def h r try_with_simps Let_def prod.case nohead simp_thms(6) if_True kept same
    by (simp add: res_simps split: if_split_asm del: append.simps)
  then have out: "doc_lines out = take a ?ls @ body_block ?txt @ drop ?bend ?ls"
    using doc_lines_parts [OF body_block_lines] by simp
  have "is_thematic_break (?ls ! l) \<and> \<not> blank (?ls ! l) \<and> newline \<notin> set (?ls ! l)" if "?rule = Some l" for l
  proof -
    have i: "find (\<lambda>i. \<not> blank (?ls ! i)) (rev [a..<?bend]) = Some l" "is_thematic_break (?ls ! l)"
      using that by (auto simp: trailing_rule_def split: option.splits if_splits)
    from find_in_set [OF i(1)] have "l < length ?ls" "\<not> blank (?ls ! l)" using bend bb(3) by auto
    then show ?thesis using i doc_lines_no_newline [of content] by (auto simp: list_all_length)
  qed
  then have "harmless (body_block ?txt)"
    by (intro harmless_block [OF blank_free_trim t]) (auto split: option.splits if_splits)
  with out show ?thesis by blast
qed

text \<open>
  C37. Edits of different sections do not collide when they are plain. Take an edit whose body brings
  no heading (of any level, a repeated own heading apart) and closes its fences, of a section that
  holds no managed region. It leaves the version of every section that does not contain the edited
  one unchanged, wherever that section stands in the document. A body with headings is outside this:
  it replaces subsections and can make another section's address ambiguous.
\<close>

theorem edit_section_frame:
  assumes edit: "edit_section content arg body = Inr out"
    and rng: "section_range content arg = Inr (s, e)"
    and plain: "plain_body (snd (parse_heading_arg arg)) body"
    and regions: "list_all (\<lambda>sp. sp_close sp < s \<or> e \<le> sp_open sp) (spans_of (doc_lines content))"
    and other: "section_range content arg' = Inr (s', e')" "\<not> (s' \<le> s \<and> s < e')"
  shows "section_version v out arg' = section_version v content arg'"
proof -
  let ?ls = "doc_lines content"
  obtain h where h: "find_target content arg = Inr h" "s = hd_line h"
      and r: "body_range (length ?ls) (headings ?ls) h = (s + 1, e)"
    using rng by (auto simp: section_range_def Let_def res_simps body_range_def)
  obtain k where k: "find_target content arg' = Inr k" "s' = hd_line k"
      and r': "body_range (length ?ls) (headings ?ls) k = (s' + 1, e')"
    using other(1) by (auto simp: section_range_def Let_def res_simps body_range_def)
  have hin: "h \<in> set (headings ?ls)" and kin: "k \<in> set (headings ?ls)"
    using find_target_Inr [OF h(1)] find_target_Inr [OF k(1)] by simp_all
  note bb = body_range_bounds [OF hin r]
  let ?bend = "own_body_end (headings ?ls) h e"
  have bend: "hd_line h < ?bend" "?bend \<le> e" using own_body_end_bounds [OF bb(2)] by auto
  obtain Y where Y: "harmless Y" "doc_lines out = take (s + 1) ?ls @ Y @ drop ?bend ?ls"
    using edit_section_plain [OF h(1) r edit plain regions [unfolded h(2)]] by blast
  define P where "P = take (s + 1) ?ls"
  define X where "X = take (?bend - (s + 1)) (drop (s + 1) ?ls)"
  define S where "S = drop ?bend ?ls"
  have le: "s + 1 \<le> ?bend" "?bend \<le> length ?ls" using bend bb h(2) by auto
  have ls: "?ls = P @ X @ S"
    unfolding P_def X_def S_def using le by (metis append_take_drop_id drop_drop le_add_diff_inverse2)
  have lens: "length P = s + 1" "length P + length X = ?bend"
    using le by (simp_all add: P_def X_def)
  have out: "doc_lines out = P @ Y @ S" using Y(2) by (simp add: P_def S_def)
  have fP: "\<not> fence_after False P"
  proof -
    have "P = take s ?ls @ [?ls ! s]" unfolding P_def using bb h(2)
      by (simp add: take_Suc_conv_app_nth)
    then show ?thesis
      using fence_after_heading [OF hin] headings_from_at [of h 0 False ?ls] hin h(2)
      by (simp add: fence_after_append headings_def)
  qed
  have fX: "\<not> fence_after False X" if "S \<noteq> []"
  proof -
    have "P @ X = take ?bend ?ls" using ls lens by (metis append_assoc append_eq_conv_conj length_append)
    then show ?thesis
      using own_body_end_fence [OF hin r] that fP fence_after_append [of False P X]
      by (simp add: S_def)
  qed
  have hX: "headings_from (length P) False X = []"
  proof (rule ccontr)
    assume "headings_from (length P) False X \<noteq> []"
    then obtain m where m: "m \<in> set (headings_from (length P) False X)"
      by (cases "headings_from (length P) False X") auto
    have "m \<in> set (headings ?ls)"
      using m fP by (subst ls) (simp add: headings_def headings_from_append)
    moreover have "hd_line h < hd_line m" "hd_line m < ?bend"
      using headings_from_line [OF m] lens h(2) by auto
    ultimately show False using own_text_plain [OF hin bend(2)] by fastforce
  qed
  have rep: "replaceable P X Y S"
    unfolding replaceable_def using fP fX hX Y(1) headings_from_none [of Y] by (auto simp: harmless_def)
  note new = headings_moved [OF rep]
  have k': "find_target out arg' = Inr (move_heading (length P) (length X) (length Y) k)"
    by (rule find_target_moved [OF k(1)]) (simp only: out new ls [symmetric])
  have "length P + length X \<le> hd_line k \<or> e' < length P"
    using headings_outside [OF rep, of k] kin ls other(2) k(2) lens by auto
  from slice_moved [OF rep _ _ this] have
    "section_slice (doc_lines out) (headings (doc_lines out)) (move_heading (length P) (length X) (length Y) k) =
      section_slice ?ls (headings ?ls) k"
    using kin r' by (simp only: out ls [symmetric])
  then show ?thesis using k(1) k' by (simp add: section_version_def)
qed

section \<open>A concrete document\<close>

definition demo_doc :: string where
  "demo_doc = join [newline] [''# T'', ''## A'', ''x'', ''## B'', ''y'']"

definition demo_edited :: string where
  "demo_edited = join [newline] [''# T'', ''## A'', '''', ''new'', '''', ''## B'', ''y'']"

lemma demo_lines: "doc_lines demo_doc = [''# T'', ''## A'', ''x'', ''## B'', ''y'']"
  by code_simp

lemma demo_headings: "headings [''# T'', ''## A'', ''x'', ''## B'', ''y''] =
  [\<lparr>hd_line = 0, hd_level = 1, hd_text = ''T''\<rparr>, \<lparr>hd_line = 1, hd_level = 2, hd_text = ''A''\<rparr>,
   \<lparr>hd_line = 3, hd_level = 2, hd_text = ''B''\<rparr>]"
  by code_simp

lemma demo_spans: "spans_of [''# T'', ''## A'', ''x'', ''## B'', ''y''] = []"
  by code_simp

lemma demo_edited_spans: "spans_of (doc_lines demo_edited) = []"
  by code_simp

lemma demo_args: "parse_heading_arg ''A'' = (None, ''A'')" "parse_heading_arg ''B'' = (None, ''B'')"
  by code_simp+

lemma demo_target:
  "find_target demo_doc ''A'' = Inr \<lparr>hd_line = 1, hd_level = 2, hd_text = ''A''\<rparr>"
  "find_target demo_doc ''B'' = Inr \<lparr>hd_line = 3, hd_level = 2, hd_text = ''B''\<rparr>"
  by (simp_all add: find_target_def find_unique_def demo_lines demo_headings demo_args)

lemma demo_range: "section_range demo_doc ''A'' = Inr (1, 3)" "section_range demo_doc ''B'' = Inr (3, 5)"
  by (simp_all add: section_range_def Let_def demo_target demo_lines demo_headings body_range_def)

lemma demo_edit: "edit_section demo_doc ''A'' ''new'' = Inr demo_edited"
  by code_simp

lemma demo_append: "append_to_section demo_doc ''A'' ''new'' =
   Inr (join [newline] [''# T'', ''## A'', ''x'', ''new'', ''## B'', ''y''])"
  by code_simp

lemma edit_section_local_instance:
  "changed_regions demo_doc demo_edited = []"
  using edit_section_local [OF demo_range(1) demo_edit] by blast

lemma append_keeps_lines_instance:
  "changed_regions demo_doc (join [newline] [''# T'', ''## A'', ''x'', ''new'', ''## B'', ''y'']) = []"
  using append_keeps_lines [OF demo_range(1) demo_append] by blast

theorem edit_section_frame_witness:
  "section_version (\<lambda>s. s) demo_edited ''B'' = Some (join [newline] [''## B'', ''y''])"
proof -
  have p: "plain_body (snd (parse_heading_arg ''A'')) ''new''" by code_simp
  have r: "list_all (\<lambda>sp. sp_close sp < 1 \<or> 3 \<le> sp_open sp) (spans_of (doc_lines demo_doc))"
    by (simp add: demo_lines demo_spans)
  have "section_version (\<lambda>s. s) demo_edited ''B'' = section_version (\<lambda>s. s) demo_doc ''B''"
    by (rule edit_section_frame [OF demo_edit demo_range(1) p r demo_range(2)]) simp
  also have "\<dots> = Some (join [newline] [''## B'', ''y''])"
    by (simp add: section_version_def demo_target section_slice_def demo_lines demo_headings body_range_def)
  finally show ?thesis .
qed

end
