(* ===== verification/Garden.thy ===== *)
theory Garden
  imports Text_Lib Queue_Validate "HOL-Library.AList"
begin

text \<open>
  The garden as an action of the daemon sees it
  (\<^verbatim>\<open>crates/softfig-keeperd/src/actions/worktree.rs\<close>, \<^verbatim>\<open>actions/mod.rs\<close>,
  \<^verbatim>\<open>handlers.rs\<close>): path canonicalisation, the working tree over the mount's overlay with its
  write checks, the whole-file compare-and-swap, the unlocked guard, and the single commit of an
  action. Every caller here is keeperd's own rendering, so the member guards are not part of it.
\<close>

section \<open>Errors\<close>

datatype error_kind =
    VaultLocked
  | BadArgs
  | Io
  | SqliteBusy
  | NotFound
  | AuthFailed
  | MasterPasswordRequired
  | SealedPathNotFound
  | IdleStatusOnly
  | MalformedVaultTag
  | DuplicateVaultId
  | InvalidSlug
  | InvalidProjectName
  | PathAlreadyExists
  | SourceNotFound
  | InvalidSnapshotPath
  | NotAccretiveDir
  | PairFailed
  | VaultProtected
  | RelockDisabled
  | Conflict
  | TextNotFound
  | TextAmbiguous
  | ReferencedElsewhere
  | SharedChainUnkeyed
  | Internal

datatype v2_file_error =
    V2Unreadable string
  | V2InvalidToml string queue_v2_error
  | V2InvalidState string queue_refusal

text \<open>
  An error of an operation: a typed refusal, a file that does not load, or a kind with the
  branch that raised it.
\<close>

datatype op_error =
    Refused queue_refusal
  | Corrupt v2_file_error
  | Failed_with error_kind string

fun refuse_kind :: "queue_refusal \<Rightarrow> error_kind" where
  "refuse_kind (Exists _) = PathAlreadyExists"
| "refuse_kind (BadName _) = InvalidSlug"
| "refuse_kind (UnknownProject _) = NotFound"
| "refuse_kind (UnknownId _) = NotFound"
| "refuse_kind _ = BadArgs"

fun error_kind_of :: "op_error \<Rightarrow> error_kind" where
  "error_kind_of (Refused r) = refuse_kind r"
| "error_kind_of (Corrupt _) = Internal"
| "error_kind_of (Failed_with k _) = k"

section \<open>Paths\<close>

text \<open>
  \<^verbatim>\<open>Path::components\<close> drops empty and \<^verbatim>\<open>.\<close> components; a leading slash is the root.
\<close>

definition path_parts :: "string \<Rightarrow> string list" where
  "path_parts rel = filter (\<lambda>c. c \<noteq> [] \<and> c \<noteq> ''.'') (split_on (CHR ''/'') rel)"

definition canonical_rel :: "string \<Rightarrow> string option" where
  "canonical_rel rel =
     (if starts_with ''/'' rel \<or> ''..'' \<in> set (path_parts rel) then None
      else Some (join ''/'' (path_parts rel)))"

section \<open>State\<close>

text \<open>The bytes of a file: text, or bytes that are not UTF-8.\<close>

datatype content = Utf8 string | Binary "nat list"

type_synonym files = "(string \<times> content) list"

datatype daemon_state = Unlocked | Locked | Stopping

text \<open>
  The overlay of the mount as an association list of canonical paths, the tree of the last
  commit, and the commits so far, newest first. A directory exists when a file lies below it.
\<close>

record garden =
  g_state :: daemon_state
  g_files :: files
  g_head :: files
  g_log :: "(string \<times> files) list"

text \<open>
  What the action takes from elsewhere: the content hash, the share that owns an unkeyed path,
  the sealed paths, the test that a document carries no vault region, the TOML crate at the
  three shapes, the backlink refresh, the identity of the tip, a failing commit, and the clock.
\<close>

record env =
  v_hash :: "content \<Rightarrow> string"
  v_unkeyed :: "string \<Rightarrow> string option"
  v_sealed :: "string \<Rightarrow> bool"
  v_region_free :: "string \<Rightarrow> content \<Rightarrow> bool"
  v_queue :: "queue_toml toml_codec"
  v_archive :: "queue_archive_toml toml_codec"
  v_slices :: "slices_toml toml_codec"
  v_backlinks :: "files \<Rightarrow> files"
  v_tip :: "(string \<times> files) list \<Rightarrow> string"
  v_commit_error :: "garden \<Rightarrow> string option"
  v_now :: string
  v_now_minute :: string
  v_today :: string

section \<open>The working tree\<close>

definition canonical_or_refuse :: "string \<Rightarrow> op_error + string" where
  "canonical_or_refuse rel = ok_or (Failed_with BadArgs ''not a garden-relative path'') (canonical_rel rel)"

definition refuse_unkeyed_shared :: "env \<Rightarrow> string \<Rightarrow> op_error + unit" where
  "refuse_unkeyed_shared v rel =
     (case v_unkeyed v rel of
        Some share \<Rightarrow> Inl (Failed_with SharedChainUnkeyed share)
      | None \<Rightarrow> Inr ())"

definition check_write :: "env \<Rightarrow> string \<Rightarrow> op_error + unit" where
  "check_write v rel =
     try_with (canonical_or_refuse rel) (\<lambda>rel'.
     refuse_unkeyed_shared v rel')"

definition wt_read :: "files \<Rightarrow> string \<Rightarrow> content option" where
  "wt_read fs rel = (case canonical_rel rel of None \<Rightarrow> None | Some p \<Rightarrow> map_of fs p)"

definition wt_read_to_string :: "files \<Rightarrow> string \<Rightarrow> string option" where
  "wt_read_to_string fs rel = (case wt_read fs rel of Some (Utf8 s) \<Rightarrow> Some s | _ \<Rightarrow> None)"

definition under_dir :: "string \<Rightarrow> string \<Rightarrow> bool" where
  "under_dir dir p \<longleftrightarrow> dir = [] \<or> starts_with (dir @ ''/'') p"

definition wt_exists :: "files \<Rightarrow> string \<Rightarrow> bool" where
  "wt_exists fs rel =
     (case canonical_rel rel of
        None \<Rightarrow> False
      | Some p \<Rightarrow> p = [] \<or> list_ex (\<lambda>(k, _). k = p \<or> under_dir p k) fs)"

text \<open>The names directly below a directory, each once, in overlay order.\<close>

definition wt_read_dir :: "files \<Rightarrow> string \<Rightarrow> string list" where
  "wt_read_dir fs rel =
     (case canonical_rel rel of
        None \<Rightarrow> []
      | Some p \<Rightarrow>
          remdups (map (\<lambda>(k, _). hd (split_on (CHR ''/'')
                      (drop (if p = [] then 0 else length p + 1) k)))
            (filter (\<lambda>(k, _). under_dir p k) fs)))"

definition stage :: "string \<Rightarrow> content \<Rightarrow> files \<Rightarrow> files" where
  "stage p c fs = AList.update p c fs"

definition write_structured ::
  "env \<Rightarrow> string \<Rightarrow> content \<Rightarrow> garden \<Rightarrow> (op_error + unit) \<times> garden" where
  "write_structured v rel c g =
     (case try_with (canonical_or_refuse rel) (\<lambda>p.
           try_with (check_write v p) (\<lambda>_. Inr p)) of
        Inl e \<Rightarrow> (Inl e, g)
      | Inr p \<Rightarrow> (Inr (), g\<lparr>g_files := stage p c (g_files g)\<rparr>))"

text \<open>A text read that refuses sealed paths and documents with vault regions.\<close>

definition read_if_unprotected :: "env \<Rightarrow> files \<Rightarrow> string \<Rightarrow> string option" where
  "read_if_unprotected v fs rel =
     (if v_sealed v rel then None
      else (case wt_read fs rel of
              None \<Rightarrow> None
            | Some c \<Rightarrow>
                (if v_region_free v rel c
                 then (case c of Utf8 s \<Rightarrow> Some s | Binary _ \<Rightarrow> None) else None)))"

definition cas_check_whole_file ::
  "env \<Rightarrow> files \<Rightarrow> string \<Rightarrow> string option \<Rightarrow> op_error + unit" where
  "cas_check_whole_file v fs rel expected =
     (case expected of
        None \<Rightarrow> Inr ()
      | Some want \<Rightarrow>
          (if map_option (v_hash v) (wt_read fs rel) \<noteq> Some want
           then Inl (Failed_with Conflict ''stale'') else Inr ()))"

definition require_unlocked :: "garden \<Rightarrow> op_error + unit" where
  "require_unlocked g =
     (case g_state g of
        Unlocked \<Rightarrow> Inr ()
      | Locked \<Rightarrow> Inl (Failed_with VaultLocked ''vault is locked'')
      | Stopping \<Rightarrow> Inl (Failed_with Internal ''daemon stopping''))"

section \<open>The commit\<close>

definition same_tree :: "files \<Rightarrow> files \<Rightarrow> bool" where
  "same_tree a b \<longleftrightarrow> list_all (\<lambda>k. map_of a k = map_of b k) (map fst a @ map fst b)"

text \<open>
  One intent on the device chain: a tree equal to the last one mints no commit and answers the
  untouched tip. A failing snapshot or store leaves the staged files in the overlay.
\<close>

definition commit_now :: "env \<Rightarrow> string \<Rightarrow> garden \<Rightarrow> (op_error + string) \<times> garden" where
  "commit_now v intent g =
     (case v_commit_error v g of
        Some e \<Rightarrow> (Inl (Failed_with Io e), g)
      | None \<Rightarrow>
          (if same_tree (g_files g) (g_head g) then (Inr (v_tip v (g_log g)), g)
           else
             (let log = (intent, g_files g) # g_log g
              in (Inr (v_tip v log), g\<lparr>g_head := g_files g, g_log := log\<rparr>))))"

section \<open>The overlay as a store\<close>

text \<open>
  What the writers rely on of the overlay: a path reads back what was last staged under it. The
  lemmas carry a whole list of writes.
\<close>

locale file_store =
  fixes get :: "'s \<Rightarrow> 'k \<Rightarrow> 'c option" and put :: "'k \<Rightarrow> 'c \<Rightarrow> 's \<Rightarrow> 's"
  assumes get_put: "get (put k c s) k' = (if k' = k then Some c else get s k')"
begin

lemma get_puts_other: "k \<notin> fst ` set ws \<Longrightarrow> get (fold (\<lambda>(k, c). put k c) ws s) k = get s k"
  by (induction ws arbitrary: s) (auto simp: get_put)

lemma get_puts: "distinct (map fst ws) \<Longrightarrow> (k, c) \<in> set ws \<Longrightarrow> get (fold (\<lambda>(k, c). put k c) ws s) k = Some c"
proof (induction ws arbitrary: s)
  case (Cons w ws)
  show ?case
  proof (cases "(k, c) \<in> set ws")
    case True
    then show ?thesis using Cons by simp
  next
    case False
    then have "w = (k, c)" using Cons.prems by auto
    then have "k \<notin> fst ` set ws" using Cons.prems by force
    with \<open>w = (k, c)\<close> show ?thesis by (simp add: get_puts_other get_put)
  qed
qed simp

lemma get_puts_cases:
  "get (fold (\<lambda>(k, c). put k c) ws s) k = get s k \<or>
     (\<exists>c. (k, c) \<in> set ws \<and> get (fold (\<lambda>(k, c). put k c) ws s) k = Some c)"
proof (induction ws arbitrary: s)
  case (Cons w ws)
  obtain k1 c1 where w: "w = (k1, c1)" by force
  show ?case using Cons [of "put k1 c1 s"] by (auto simp: w get_put split: if_splits)
qed simp

end

interpretation overlay: file_store "\<lambda>fs. map_of fs" stage
  by unfold_locales (simp add: stage_def update_conv' [THEN fun_cong])

section \<open>Paths: lemmas\<close>

lemma path_parts_ok: "w \<in> set (path_parts rel) \<Longrightarrow> w \<noteq> [] \<and> w \<noteq> ''.'' \<and> CHR ''/'' \<notin> set w"
  by (auto simp: path_parts_def dest: split_on_no_sep)

lemma path_parts_join:
  assumes "list_all (\<lambda>w. w \<noteq> [] \<and> w \<noteq> ''.'' \<and> CHR ''/'' \<notin> set w) ws"
  shows "path_parts (join ''/'' ws) = ws"
proof (cases "ws = []")
  case True
  then show ?thesis by (simp add: path_parts_def)
next
  case False
  then have "split_on (CHR ''/'') (join ''/'' ws) = ws"
    using assms by (intro split_on_join) (auto simp: list_all_iff)
  then show ?thesis using assms by (simp add: path_parts_def list_all_iff)
qed

lemma join_starts:
  assumes "list_all (\<lambda>w. w \<noteq> [] \<and> CHR ''/'' \<notin> set w) ws"
  shows "\<not> starts_with ''/'' (join ''/'' ws)"
proof (cases ws)
  case Nil
  then show ?thesis by (simp add: starts_with_def)
next
  case (Cons w rest)
  then obtain c cs where w: "w = c # cs" "c \<noteq> CHR ''/''" using assms by (cases w) auto
  then have "hd (join ''/'' ws) = c" "join ''/'' ws \<noteq> []"
    using Cons by (cases rest; simp)+
  with w show ?thesis by (cases "join ''/'' ws") (auto simp: starts_with_def)
qed

lemma canonical_idem:
  assumes "canonical_rel rel = Some p"
  shows "canonical_rel p = Some p"
proof -
  have p: "p = join ''/'' (path_parts rel)" and dots: "''..'' \<notin> set (path_parts rel)"
    using assms by (auto simp: canonical_rel_def split: if_splits)
  have ok: "list_all (\<lambda>w. w \<noteq> [] \<and> w \<noteq> ''.'' \<and> CHR ''/'' \<notin> set w) (path_parts rel)"
    by (auto simp: list_all_iff dest: path_parts_ok)
  then have "\<not> starts_with ''/'' p" unfolding p by (intro join_starts) (auto simp: list_all_iff)
  with dots show ?thesis by (simp add: canonical_rel_def p path_parts_join [OF ok])
qed

text \<open>
  Canonicalisation fixes one spelling per garden path: its result is a relative path with no
  empty, dot or dot-dot component, it is its own canonical form, and a path with a dot-dot
  component or a leading slash has none.
\<close>

lemma canonical_rel_normal:
  "canonical_rel rel = Some p \<Longrightarrow>
     canonical_rel p = Some p \<and> path_parts p = path_parts rel \<and>
     ''..'' \<notin> set (path_parts p) \<and> \<not> starts_with ''/'' p"
proof -
  assume c: "canonical_rel rel = Some p"
  have ok: "list_all (\<lambda>w. w \<noteq> [] \<and> w \<noteq> ''.'' \<and> CHR ''/'' \<notin> set w) (path_parts rel)"
    by (auto simp: list_all_iff dest: path_parts_ok)
  have "path_parts p = path_parts rel"
    using c path_parts_join [OF ok] by (auto simp: canonical_rel_def split: if_splits)
  with canonical_idem [OF c] c show ?thesis by (auto simp: canonical_rel_def split: if_splits)
qed

lemma canonical_rel_normal_instance:
  "canonical_rel ''growlight/backlog/x'' = Some ''growlight/backlog/x'' \<and>
   path_parts ''growlight/backlog/x'' = path_parts ''growlight/./backlog//x/'' \<and>
   ''..'' \<notin> set (path_parts ''growlight/backlog/x'') \<and> \<not> starts_with ''/'' ''growlight/backlog/x''"
proof -
  have "canonical_rel ''growlight/./backlog//x/'' = Some ''growlight/backlog/x''" by code_simp
  then show ?thesis by (rule canonical_rel_normal)
qed

end
