(* ===== verification/Queue_Views.thy ===== *)
theory Queue_Views
  imports Queue_Model Managed
begin

text \<open>
  The derived views of the queue v2 files
  (\<^verbatim>\<open>crates/softfig-keeperd/src/actions/growlight/v2/views.rs\<close> and the table helpers of
  \<^verbatim>\<open>growlight/queue.rs\<close>): the two-lane table of the backlog document and the slice-order table
  of a milestone document, with the tags and the documents that host them.
\<close>

section \<open>Tags and hosts\<close>

definition queue_v2_tag :: string where
  "queue_v2_tag = ''queue-v2''"

definition slices_v2_tag :: string where
  "slices_v2_tag = ''slices-v2''"

definition backlog_claude :: string where
  "backlog_claude = ''growlight/backlog/CLAUDE.md''"

definition tasks_dir :: string where
  "tasks_dir = ''growlight/backlog/tasks''"

definition queue_view_host :: string where
  "queue_view_host = backlog_claude"

definition slices_view_host :: "string \<Rightarrow> string" where
  "slices_view_host milestone = milestone_path milestone @ ''/CLAUDE.md''"

section \<open>Cells\<close>

definition pipe :: char where
  "pipe = CHR 0x7C"

definition backslash :: char where
  "backslash = CHR 0x5C"

definition escape :: "string \<Rightarrow> string" where
  "escape s = concat (map (\<lambda>c. if c = pipe then [backslash, pipe] else [c]) s)"

text \<open>The em dash is the three bytes \<^verbatim>\<open>E2 80 94\<close>; a code span is quoted by byte \<^verbatim>\<open>60\<close>.\<close>

definition em_dash :: string where
  "em_dash = [CHR 0xE2, CHR 0x80, CHR 0x94]"

definition code_span :: "string \<Rightarrow> string" where
  "code_span s = [CHR 0x60] @ s @ [CHR 0x60]"

definition table_row :: "string list \<Rightarrow> string" where
  "table_row cells = ''| '' @ join '' | '' cells @ '' |''"

section \<open>The queue view\<close>

definition queue_view_note :: string where
  "queue_view_note = ''The two-lane list below is derived from '' @ code_span ''queue.toml''
     @ '' (schema 1). keeperd re-renders it after every queue verb; the TOML is the source of truth ''
     @ ''and hand edits to this region are ignored.''"

definition slices_view_note :: string where
  "slices_view_note = ''The slice order below is derived from '' @ code_span ''slices.toml''
     @ '' (schema 1). keeperd re-renders it after every slices verb; the TOML is the source of truth ''
     @ ''and hand edits to this region are ignored.''"

definition queue_header :: string where
  "queue_header = ''| # | id | kind | title | project | status | after | branch |''"

definition queue_separator :: string where
  "queue_separator = ''|---|----|------|-------|---------|--------|-------|--------|''"

definition slices_header :: string where
  "slices_header = ''| # | kind | id | status | follow_ups |''"

definition slices_separator :: string where
  "slices_separator = ''|---|------|----|--------|------------|''"

definition entry_cells :: "nat \<Rightarrow> entry \<Rightarrow> string list" where
  "entry_cells n e =
     (let status = (case e_pending_status e of
                      Some p \<Rightarrow> show_entry_status (e_status e) @ '' (pending: '' @ show_entry_status p @ '')''
                    | None \<Rightarrow> show_entry_status (e_status e))
      in [show_nat n, escape (e_id e), escape (show_entry_kind (e_kind e)), escape (e_title e),
          escape (e_project e), escape status,
          (if e_after e = [] then em_dash else escape (join '', '' (e_after e))),
          (if e_branch e = [] then em_dash else escape (e_branch e))])"

definition lane_table :: "entry list \<Rightarrow> string" where
  "lane_table rows =
     queue_header @ [newline] @ queue_separator
       @ concat (map (\<lambda>(i, e). newline # table_row (entry_cells (i + 1) e)) (zip [0..<length rows] rows))
       @ [newline]"

definition queue_view :: "queue_toml \<Rightarrow> string" where
  "queue_view q =
     queue_view_note @ [newline, newline] @ ''### Urgent'' @ [newline, newline]
       @ lane_table (filter (\<lambda>e. e_lane e = Urgent) (q_entries q))
       @ ''### Normal'' @ [newline, newline]
       @ lane_table (filter (\<lambda>e. e_lane e = Normal) (q_entries q))"

section \<open>The slices view\<close>

definition item_cells :: "nat \<Rightarrow> slice_item \<Rightarrow> string list" where
  "item_cells n it =
     [show_nat n, escape (show_slice_kind (i_kind it)), escape (i_id it),
      escape (show_slice_status (i_status it)),
      (case i_follow_ups it of Some k \<Rightarrow> show_nat (unat k) | None \<Rightarrow> em_dash)]"

definition slices_view :: "slices_toml \<Rightarrow> string" where
  "slices_view s =
     slices_view_note @ [newline, newline] @ slices_header @ [newline] @ slices_separator
       @ concat (map (\<lambda>(i, it). newline # table_row (item_cells (i + 1) it))
           (zip [0..<length (s_items s)] (s_items s)))
       @ [newline]"

section \<open>The backlog document a first queue write creates\<close>

definition legacy_header :: string where
  "legacy_header = ''| # | id | type | title | status |''"

definition legacy_separator :: string where
  "legacy_separator = ''|---|----|------|-------|--------|''"

definition backlog_claude_stub :: string where
  "backlog_claude_stub =
     ''# growlight/backlog/'' @ [newline, newline]
       @ ''The growlight work queue. Each row is a backlog item the loop drains '' @ em_dash @ '' a ''
       @ ''milestone (with ordered slices) or a standalone task. One item is '' @ code_span ''active''
       @ '' at a time; the loop pulls the next '' @ code_span ''queued'' @ '' item by order.''
       @ [newline, newline]
       @ ''Item docs live in '' @ code_span ''milestones/<id>/'' @ '' and '' @ code_span ''tasks/NNN-<slug>.md''
       @ ''. Status + order are owned by the daemon-managed queue table below '' @ em_dash
       @ '' change it only via '' @ code_span ''add_backlog_item'' @ '' / '' @ code_span ''set_item_status''
       @ '', never by hand.'' @ [newline, newline]
       @ ''## Queue'' @ [newline, newline]
       @ open_marker ''queue'' @ [newline, newline]
       @ legacy_header @ [newline] @ legacy_separator @ [newline, newline]
       @ close_marker ''queue'' @ [newline]"

section \<open>Splitting a row into cells\<close>

text \<open>
  \<open>split_row\<close> of the queue tables: \<open>cur\<close> is the cell so far, reversed. The outer pipes of the
  line are trimmed first.
\<close>

fun split_cells :: "string \<Rightarrow> string \<Rightarrow> string list" where
  "split_cells cur [] = [trim (rev cur)]"
| "split_cells cur (c # cs) =
     (if c = backslash \<and> cs \<noteq> [] \<and> hd cs = pipe then split_cells (pipe # cur) (tl cs)
      else if c = pipe then trim (rev cur) # split_cells [] cs
      else split_cells (c # cur) cs)"

definition split_row :: "string \<Rightarrow> string list" where
  "split_row line =
     split_cells [] (trim_end_matches (\<lambda>c. c = pipe) (dropWhile (\<lambda>c. c = pipe) (trim line)))"

section \<open>Rows read back\<close>

lemma escape_simps [simp]:
  "escape [] = []"
  "escape (c # cs) = (if c = pipe then backslash # pipe # escape cs else c # escape cs)"
  by (simp_all add: escape_def)

lemma escape_plain: "pipe \<notin> set s \<Longrightarrow> escape s = s"
  by (induction s) auto

lemma special_distinct [simp]: "pipe \<noteq> backslash" "backslash \<noteq> pipe" "CHR '' '' \<noteq> pipe" "CHR '' '' \<noteq> backslash"
  by (simp_all add: pipe_def backslash_def)

lemma hd_escape: "hd (escape cs @ CHR '' '' # rest) \<noteq> pipe"
  by (cases cs) auto

lemma split_cells_escape:
  "split_cells cur (escape cs @ CHR '' '' # rest) = split_cells (CHR '' '' # rev cs @ cur) rest"
proof (induction cs arbitrary: cur)
  case Nil
  show ?case by simp
next
  case (Cons c cs)
  show ?case using Cons [of "c # cur"] hd_escape [of cs rest] by auto
qed

lemma trim_padded: "trim (CHR '' '' # s @ '' '') = trim s"
proof -
  have sp: "is_space (CHR '' '')" by (simp add: is_space_def)
  show ?thesis
  proof (cases "\<exists>c \<in> set s. \<not> is_space c")
    case True
    then have "dropWhile is_space (s @ '' '') = dropWhile is_space s @ '' ''"
      by (auto simp: dropWhile_append1)
    then show ?thesis using sp by (simp add: trim_def trim_start_def trim_end_matches_def)
  next
    case False
    then have "\<forall>c \<in> set s. is_space c" "\<forall>c \<in> set (CHR '' '' # s @ '' ''). is_space c"
      using sp by auto
    then have "dropWhile is_space s = []" "dropWhile is_space (CHR '' '' # s @ '' '') = []"
      by (simp_all only: dropWhile_eq_Nil_conv)
    then show ?thesis unfolding trim_def trim_start_def by (simp only:)
  qed
qed

lemma split_cells_row:
  "cells \<noteq> [] \<Longrightarrow> split_cells '' '' (join '' | '' (map escape cells) @ '' '') = map trim cells"
proof (induction cells)
  case Nil
  then show ?case by simp
next
  case (Cons c cells)
  show ?case
  proof (cases cells)
    case Nil
    then show ?thesis using split_cells_escape [of "'' ''" c "[]"] trim_padded [of c] by simp
  next
    case (Cons d ds)
    have "join '' | '' (map escape (c # cells)) @ '' '' =
        escape c @ CHR '' '' # pipe # CHR '' '' # join '' | '' (map escape cells) @ '' ''"
      by (simp add: Cons pipe_def)
    then have "split_cells '' '' (join '' | '' (map escape (c # cells)) @ '' '') =
        split_cells (CHR '' '' # rev c @ '' '') (pipe # CHR '' '' # join '' | '' (map escape cells) @ '' '')"
      by (simp only: split_cells_escape)
    also have "\<dots> = trim c # split_cells '' '' (join '' | '' (map escape cells) @ '' '')"
      using trim_padded [of c] by simp
    finally show ?thesis using Cons.IH Cons by simp
  qed
qed

lemma split_table_row:
  assumes "cells \<noteq> []"
  shows "split_row (table_row (map escape cells)) = map trim cells"
proof -
  let ?mid = "join '' | '' (map escape cells)"
  have "trim (table_row (map escape cells)) = table_row (map escape cells)"
    by (simp add: table_row_def trim_def trim_start_def trim_end_matches_def is_space_def)
  moreover have "dropWhile (\<lambda>c. c = pipe) (table_row (map escape cells)) = CHR '' '' # ?mid @ '' '' @ [pipe]"
    by (simp add: table_row_def pipe_def)
  moreover have "trim_end_matches (\<lambda>c. c = pipe) (CHR '' '' # ?mid @ '' '' @ [pipe]) = CHR '' '' # ?mid @ '' ''"
    by (simp add: trim_end_matches_def)
  ultimately have "split_row (table_row (map escape cells)) = split_cells [] (CHR '' '' # ?mid @ '' '')"
    by (simp only: split_row_def)
  then show ?thesis using split_cells_row [OF assms] by simp
qed

lemma pipe_free: "pipe \<notin> set em_dash" "pipe \<notin> set (show_nat n)"
  using show_nat_digits [of n] by (auto simp: pipe_def em_dash_def list_all_iff is_digit_def)

definition entry_texts :: "nat \<Rightarrow> entry \<Rightarrow> string list" where
  "entry_texts n e =
     [show_nat n, e_id e, show_entry_kind (e_kind e), e_title e, e_project e,
      (case e_pending_status e of
         Some p \<Rightarrow> show_entry_status (e_status e) @ '' (pending: '' @ show_entry_status p @ '')''
       | None \<Rightarrow> show_entry_status (e_status e)),
      (if e_after e = [] then em_dash else join '', '' (e_after e)),
      (if e_branch e = [] then em_dash else e_branch e)]"

lemma entry_cells_escape: "entry_cells n e = map escape (entry_texts n e)"
  by (simp add: entry_cells_def entry_texts_def Let_def escape_plain [OF pipe_free(1)]
      escape_plain [OF pipe_free(2)])

section \<open>Views in their host documents\<close>

lemma join_append:
  "xs \<noteq> [] \<Longrightarrow> ys \<noteq> [] \<Longrightarrow> join sep (xs @ ys) = join sep xs @ sep @ join sep ys"
proof (induction xs)
  case (Cons x xs)
  show ?case
  proof (cases xs)
    case Nil
    then show ?thesis using Cons.prems by (cases ys) simp_all
  next
    case (Cons y zs)
    then show ?thesis using Cons.IH Cons.prems by simp
  qed
qed simp

lemma join_rows:
  "join [newline] (x # map f xs) = x @ concat (map (\<lambda>y. newline # f y) xs)"
proof (induction xs arbitrary: x)
  case (Cons y ys)
  then show ?case by simp
qed simp

definition lane_lines :: "entry list \<Rightarrow> string list" where
  "lane_lines rows = queue_header # queue_separator
     # map (\<lambda>(i, e). table_row (entry_cells (i + 1) e)) (zip [0..<length rows] rows)"

definition queue_view_lines :: "queue_toml \<Rightarrow> string list" where
  "queue_view_lines q =
     [queue_view_note, [], ''### Urgent'', []] @ lane_lines (filter (\<lambda>e. e_lane e = Urgent) (q_entries q))
       @ [''### Normal'', []] @ lane_lines (filter (\<lambda>e. e_lane e = Normal) (q_entries q)) @ [[]]"

lemma lane_table_lines: "lane_table rows = join [newline] (lane_lines rows) @ [newline]"
  by (simp add: lane_table_def lane_lines_def join_rows [of queue_separator] case_prod_unfold)

lemma lane_lines_not_Nil [simp]: "lane_lines rows \<noteq> []"
  by (simp add: lane_lines_def)

lemma queue_view_join: "queue_view q = join [newline] (queue_view_lines q)"
proof -
  have "join [newline] (queue_view_lines q) =
      join [newline] [queue_view_note, [], ''### Urgent'', []] @ [newline]
        @ join [newline] (lane_lines (filter (\<lambda>e. e_lane e = Urgent) (q_entries q))) @ [newline]
        @ join [newline] [''### Normal'', []] @ [newline]
        @ join [newline] (lane_lines (filter (\<lambda>e. e_lane e = Normal) (q_entries q))) @ [newline]
        @ join [newline] [[]]"
    unfolding queue_view_lines_def
    by (simp only: join_append append_is_Nil_conv lane_lines_not_Nil list.distinct simp_thms append_assoc)
  then show ?thesis by (simp add: queue_view_def lane_table_lines)
qed

definition one_line :: "entry \<Rightarrow> bool" where
  "one_line e \<longleftrightarrow> list_all (\<lambda>s. newline \<notin> set s)
     [e_id e, e_title e, e_project e, join '', '' (e_after e), e_branch e]"

lemma escape_newline: "newline \<in> set (escape s) \<longleftrightarrow> newline \<in> set s"
proof -
  have "newline \<noteq> backslash" "newline \<noteq> pipe" by (simp_all add: newline_def backslash_def pipe_def)
  then show ?thesis by (induction s) auto
qed

lemma join_newline_free:
  "newline \<notin> set sep \<Longrightarrow> list_all (\<lambda>c. newline \<notin> set c) cs \<Longrightarrow> newline \<notin> set (join sep cs)"
proof (induction cs)
  case (Cons c cs)
  then show ?case by (cases cs) auto
qed simp

lemma show_words_newline:
  "newline \<notin> set (show_entry_kind k)" "newline \<notin> set (show_entry_status s)"
  by (cases k; simp add: newline_def) (cases s; simp add: newline_def)

lemma show_nat_newline: "newline \<notin> set (show_nat n)"
  using show_nat_digits [of n] by (auto simp: list_all_iff is_digit_def newline_def)

lemma entry_texts_newline: "one_line e \<Longrightarrow> list_all (\<lambda>s. newline \<notin> set s) (entry_texts n e)"
  using show_words_newline show_nat_newline
  by (simp add: one_line_def entry_texts_def em_dash_def newline_def split: option.splits)

lemma row_newline: "one_line e \<Longrightarrow> newline \<notin> set (table_row (entry_cells n e))"
proof -
  assume "one_line e"
  then have "list_all (\<lambda>c. newline \<notin> set c) (entry_cells n e)"
    using entry_texts_newline [of e n] by (simp add: entry_cells_escape list_all_iff escape_newline)
  then have "newline \<notin> set (join '' | '' (entry_cells n e))"
    by (rule join_newline_free [rotated]) (simp add: newline_def)
  then show ?thesis by (simp add: table_row_def newline_def)
qed

text \<open>A line that starts with a letter, a number sign or a pipe is quiet.\<close>

definition view_line :: "string \<Rightarrow> bool" where
  "view_line l \<longleftrightarrow> l = [] \<or> hd l \<in> {CHR ''T'', CHR ''#'', pipe}"

lemma view_line_quiet: "view_line l \<Longrightarrow> quiet l"
proof (cases l)
  case (Cons c cs)
  assume "view_line l"
  then have c: "c \<in> {CHR ''T'', CHR ''#'', pipe}" using Cons by (simp add: view_line_def)
  have p: "is_fence (c # cs) = False" if "\<not> is_space c" "c \<noteq> CHR 0x60" "c \<noteq> CHR ''~''"
    using that by (simp add: is_fence_def trim_start_def starts_with_def)
  have t: "trim l = [] \<or> hd (trim l) = c"
  proof -
    have "trim_start l = l" using c Cons by (auto simp: trim_start_def is_space_def pipe_def)
    then obtain t where "l = trim l @ t"
      unfolding trim_def trim_end_matches_def
      by (metis rev_append rev_rev_ident takeWhile_dropWhile_id)
    then show ?thesis using Cons by (cases "trim l") auto
  qed
  have "\<not> is_fence l" using p c Cons by (auto simp: is_space_def pipe_def)
  moreover have "\<not> starts_with ''<!-- /softfig:'' (trim l)"
    using t c by (cases "trim l") (auto simp: starts_with_def pipe_def)
  ultimately show ?thesis by (simp add: quiet_def)
qed (simp add: quiet_def is_fence_def trim_def trim_start_def trim_end_matches_def starts_with_def)

lemma lane_lines_ok:
  assumes "list_all one_line rows"
  shows "list_all (\<lambda>l. view_line l \<and> newline \<notin> set l) (lane_lines rows)"
proof -
  have "view_line (table_row cs)" for cs by (simp add: view_line_def table_row_def pipe_def)
  moreover have "one_line e" if "(i, e) \<in> set (zip [0..<length rows] rows)" for i e
    using assms set_zip_rightD [OF that] by (simp add: list_all_iff)
  ultimately show ?thesis
    by (auto simp: lane_lines_def list_all_iff view_line_def queue_header_def queue_separator_def
        pipe_def newline_def row_newline [unfolded newline_def])
qed

lemma queue_view_lines_ok:
  assumes "list_all one_line (q_entries q)"
  shows "list_all (\<lambda>l. view_line l \<and> newline \<notin> set l) (queue_view_lines q)"
proof -
  have f: "list_all one_line (filter p (q_entries q))" for p using assms by (simp add: list_all_iff)
  have hdr: "view_line queue_view_note \<and> newline \<notin> set queue_view_note"
    by (simp add: view_line_def queue_view_note_def code_span_def newline_def)
  have rest: "list_all (\<lambda>l. view_line l \<and> newline \<notin> set l) [[], ''### Urgent'', ''### Normal'']"
    by (simp add: view_line_def newline_def)
  show ?thesis
    using lane_lines_ok [OF f [of "\<lambda>e. e_lane e = Urgent"]] lane_lines_ok [OF f [of "\<lambda>e. e_lane e = Normal"]]
      hdr rest
    by (simp add: queue_view_lines_def)
qed

lemma queue_view_doc_lines:
  "list_all one_line (q_entries q) \<Longrightarrow> doc_lines (queue_view q) = queue_view_lines q"
  unfolding queue_view_join
  by (rule doc_lines_join) (use queue_view_lines_ok [of q] in \<open>auto simp: queue_view_lines_def list_all_iff\<close>)

lemma queue_view_quiet: "list_all one_line (q_entries q) \<Longrightarrow> quiet_body (queue_view q)"
  using queue_view_lines_ok [of q]
  by (auto simp: quiet_body_def queue_view_doc_lines list_all_iff view_line_quiet)

text \<open>
  A queue view of one-line entries settles in its host: writing it into the managed region
  twice changes nothing the second time, and every line outside the region is preserved. An entry
  whose title holds a line break is not covered: its view can hold the region's close marker.
\<close>

lemma queue_view_settles:
  assumes "list_all one_line (q_entries q)" "locate (doc_lines host) queue_v2_tag = Some (a, b)"
  shows "upsert (upsert host queue_v2_tag (queue_view q)) queue_v2_tag (queue_view q) =
      upsert host queue_v2_tag (queue_view q) \<and>
    doc_lines (upsert host queue_v2_tag (queue_view q)) =
      take (a + 1) (doc_lines host) @ [[]] @ queue_view_lines q @ [[]] @ drop b (doc_lines host)"
  using upsert_located [OF assms(2) queue_view_quiet [OF assms(1)]]
  by (simp add: padded_def queue_view_doc_lines [OF assms(1)])

lemma queue_view_settles_instance:
  "upsert (upsert (join [newline] [open_marker ''queue-v2'', close_marker ''queue-v2'']) ''queue-v2'' (queue_view (queue_new [] [])))
     ''queue-v2'' (queue_view (queue_new [] [])) =
   upsert (join [newline] [open_marker ''queue-v2'', close_marker ''queue-v2'']) ''queue-v2'' (queue_view (queue_new [] []))"
proof -
  have 1: "list_all one_line (q_entries (queue_new [] []))" by (simp add: queue_new_def)
  have 2: "locate (doc_lines (join [newline] [open_marker ''queue-v2'', close_marker ''queue-v2''])) queue_v2_tag = Some (0, 1)"
    by code_simp
  show ?thesis using queue_view_settles [OF 1 2] by (simp add: queue_v2_tag_def)
qed

end
