(* ===== verification/Queue_Files.thy ===== *)
theory Queue_Files
  imports Garden Queue_Views
begin

text \<open>
  The file layer of the queue v2 state
  (\<^verbatim>\<open>crates/softfig-keeperd/src/actions/growlight/v2/state.rs\<close> and \<^verbatim>\<open>write.rs\<close>): the
  fail-closed loaders with the content version of what they read, and the one writer, which
  checks every file of a verb before it stages the first, renders the views into their host
  documents and commits once.
\<close>

section \<open>The loaders\<close>

record 'f loaded =
  l_model :: 'f
  l_version :: "string option"

record queue_state =
  qs_queue :: "queue_toml loaded"
  qs_archive :: "queue_archive_toml loaded"

definition version_of :: "env \<Rightarrow> string \<Rightarrow> string" where
  "version_of v txt_s = v_hash v (Utf8 txt_s)"

definition read_file :: "env \<Rightarrow> files \<Rightarrow> string \<Rightarrow> v2_file_error + string option" where
  "read_file v fs rel =
     (if \<not> wt_exists fs rel then Inr None
      else try_with (ok_or (V2Unreadable rel) (read_if_unprotected v fs rel)) (\<lambda>s. Inr (Some s)))"

definition load_queue_state :: "env \<Rightarrow> files \<Rightarrow> v2_file_error + queue_state option" where
  "load_queue_state v fs =
     try_with (read_file v fs queue_file) (\<lambda>r.
     case r of
       None \<Rightarrow> Inr None
     | Some s \<Rightarrow>
         try_with (map_err (V2InvalidToml queue_file) (queue_parse (v_queue v) s)) (\<lambda>q.
         try_with (read_file v fs queue_archive_file) (\<lambda>ra.
         try_with
           (case ra of
              Some t \<Rightarrow>
                try_with (map_err (V2InvalidToml queue_archive_file) (archive_parse (v_archive v) t)) (\<lambda>a.
                Inr \<lparr>l_model = a, l_version = Some (version_of v t)\<rparr>)
            | None \<Rightarrow> Inr \<lparr>l_model = archive_new [], l_version = None\<rparr>) (\<lambda>a.
         try_with (map_err (V2InvalidState queue_file) (validate q (l_model a))) (\<lambda>_.
         Inr (Some \<lparr>qs_queue = \<lparr>l_model = q, l_version = Some (version_of v s)\<rparr>,
                    qs_archive = a\<rparr>))))))"

definition load_slices :: "env \<Rightarrow> files \<Rightarrow> string \<Rightarrow> v2_file_error + slices_toml loaded option" where
  "load_slices v fs milestone =
     (let rel = slices_file milestone in
      try_with (read_file v fs rel) (\<lambda>r.
      case r of
        None \<Rightarrow> Inr None
      | Some s \<Rightarrow>
          try_with (map_err (V2InvalidToml rel) (slices_parse (v_slices v) s)) (\<lambda>m.
          try_with (map_err (V2InvalidState rel) (slices_validate m milestone)) (\<lambda>_.
          Inr (Some \<lparr>l_model = m, l_version = Some (version_of v s)\<rparr>)))))"

section \<open>The writer\<close>

text \<open>The bytes of every write are rendered text.\<close>

record file_write =
  f_rel :: string
  f_expected :: "string option"
  f_bytes :: string

record view_write =
  w_host :: string
  w_tag :: string
  w_body :: "string option"

record extra_writes =
  x_writes :: "file_write list"
  x_refresh_backlinks :: bool

definition no_extras :: extra_writes where
  "no_extras = \<lparr>x_writes = [], x_refresh_backlinks = False\<rparr>"

text \<open>Pass 1: the checks of one file.\<close>

definition check_file :: "env \<Rightarrow> files \<Rightarrow> file_write \<Rightarrow> op_error + unit" where
  "check_file v fs f =
     try_with (check_write v (f_rel f)) (\<lambda>_.
     case f_expected f of
       Some _ \<Rightarrow> cas_check_whole_file v fs (f_rel f) (f_expected f)
     | None \<Rightarrow>
         (if wt_exists fs (f_rel f) then Inl (Failed_with Conflict ''expected absent'') else Inr ()))"

fun check_files :: "env \<Rightarrow> files \<Rightarrow> file_write list \<Rightarrow> op_error + unit" where
  "check_files v fs [] = Inr ()"
| "check_files v fs (f # rest) = try_with (check_file v fs f) (\<lambda>_. check_files v fs rest)"

definition read_view_host ::
  "env \<Rightarrow> files \<Rightarrow> string \<Rightarrow> bool \<Rightarrow> file_write list \<Rightarrow> op_error + string option" where
  "read_view_host v fs host upserting extras =
     (case read_if_unprotected v fs host of
        Some content \<Rightarrow> Inr (Some content)
      | None \<Rightarrow>
          (case find (\<lambda>f. f_rel f = host) extras of
             Some extra \<Rightarrow> Inr (Some (f_bytes extra))
           | None \<Rightarrow>
               (if wt_exists fs host then Inl (Failed_with VaultProtected host)
                else if \<not> upserting then Inr None
                else if host = backlog_claude then Inr (Some backlog_claude_stub)
                else Inl (Failed_with NotFound host))))"

fun read_hosts :: "env \<Rightarrow> files \<Rightarrow> file_write list \<Rightarrow> view_write list \<Rightarrow> op_error + string option list" where
  "read_hosts v fs extras [] = Inr []"
| "read_hosts v fs extras (w # ws) =
     try_with (read_view_host v fs (w_host w) (w_body w \<noteq> None) extras) (\<lambda>h.
     try_with (read_hosts v fs extras ws) (\<lambda>hs.
     Inr (h # hs)))"

text \<open>Pass 2: the writes, each on the garden the one before left.\<close>

fun write_files :: "env \<Rightarrow> file_write list \<Rightarrow> garden \<Rightarrow> (op_error + unit) \<times> garden" where
  "write_files v [] g = (Inr (), g)"
| "write_files v (f # fs) g =
     (case write_structured v (f_rel f) (Utf8 (f_bytes f)) g of
        (Inl e, g') \<Rightarrow> (Inl e, g')
      | (Inr _, g') \<Rightarrow> write_files v fs g')"

definition view_text :: "view_write \<Rightarrow> string \<Rightarrow> string" where
  "view_text w content =
     (case w_body w of
        Some body \<Rightarrow> upsert content (w_tag w) body
      | None \<Rightarrow> remove_region content (w_tag w))"

fun write_views ::
  "env \<Rightarrow> (view_write \<times> string option) list \<Rightarrow> garden \<Rightarrow> (op_error + unit) \<times> garden" where
  "write_views v [] g = (Inr (), g)"
| "write_views v ((w, host) # rest) g =
     (case host of
        None \<Rightarrow> write_views v rest g
      | Some content \<Rightarrow>
          (let new = view_text w content in
           if new = content then write_views v rest g
           else (case check_write v (w_host w) of
                   Inl e \<Rightarrow> (Inl e, g)
                 | Inr _ \<Rightarrow>
                     (case write_structured v (w_host w) (Utf8 new) g of
                        (Inl e, g') \<Rightarrow> (Inl e, g')
                      | (Inr _, g') \<Rightarrow> write_views v rest g'))))"

definition refresh_backlinks :: "env \<Rightarrow> bool \<Rightarrow> garden \<Rightarrow> garden" where
  "refresh_backlinks v wanted g =
     (if wanted then g\<lparr>g_files := v_backlinks v (g_files g)\<rparr> else g)"

definition apply_writes ::
  "env \<Rightarrow> string \<Rightarrow> file_write list \<Rightarrow> view_write list \<Rightarrow> extra_writes \<Rightarrow> garden \<Rightarrow>
     (op_error + string) \<times> garden" where
  "apply_writes v intent files views extras g =
     (case try_with (require_unlocked g) (\<lambda>_.
           try_with (check_files v (g_files g) (files @ x_writes extras)) (\<lambda>_.
           read_hosts v (g_files g) (x_writes extras) views)) of
        Inl e \<Rightarrow> (Inl e, g)
      | Inr hosts \<Rightarrow>
          (case write_files v files g of
             (Inl e, g1) \<Rightarrow> (Inl e, g1)
           | (Inr _, g1) \<Rightarrow>
               (case write_files v (x_writes extras) g1 of
                  (Inl e, g2) \<Rightarrow> (Inl e, g2)
                | (Inr _, g2) \<Rightarrow>
                    (case write_views v (zip views hosts) g2 of
                       (Inl e, g3) \<Rightarrow> (Inl e, g3)
                     | (Inr _, g3) \<Rightarrow>
                         commit_now v intent
                           (refresh_backlinks v (x_refresh_backlinks extras) g3)))))"

section \<open>What the writer does\<close>

lemma check_write_Inr:
  "check_write v rel = Inr u \<longleftrightarrow> (\<exists>p. canonical_rel rel = Some p \<and> v_unkeyed v p = None)"
  by (auto simp: check_write_def canonical_or_refuse_def ok_or_def refuse_unkeyed_shared_def
      split: option.splits)

text \<open>The overlay path of a checked path.\<close>

definition at_path :: "string \<Rightarrow> string" where
  "at_path rel = the (canonical_rel rel)"

lemma write_structured_ok:
  assumes "check_write v rel = Inr ()"
  shows "write_structured v rel c g = (Inr (), g\<lparr>g_files := stage (at_path rel) c (g_files g)\<rparr>)"
proof -
  obtain p where p: "canonical_rel rel = Some p" "v_unkeyed v p = None"
    using assms by (auto simp: check_write_Inr)
  then have "check_write v p = Inr ()" by (simp add: check_write_Inr canonical_idem [OF p(1)])
  then show ?thesis
    using p by (simp add: write_structured_def canonical_or_refuse_def ok_or_def at_path_def)
qed

abbreviation put_all :: "(string \<times> content) list \<Rightarrow> files \<Rightarrow> files" where
  "put_all ws fs \<equiv> fold (\<lambda>(k, c). stage k c) ws fs"

abbreviation staged :: "file_write list \<Rightarrow> (string \<times> content) list" where
  "staged \<equiv> map (\<lambda>f. (at_path (f_rel f), Utf8 (f_bytes f)))"

lemma write_files_ok:
  "list_all (\<lambda>f. check_write v (f_rel f) = Inr ()) fs \<Longrightarrow>
     write_files v fs g = (Inr (), g\<lparr>g_files := put_all (staged fs) (g_files g)\<rparr>)"
  by (induction fs arbitrary: g) (simp_all add: write_structured_ok)

lemma check_files_Inr:
  "check_files v fs ws = Inr u \<longleftrightarrow> list_all (\<lambda>f. check_file v fs f = Inr ()) ws"
  by (induction ws) (auto simp: res_simps)

lemma check_file_write: "check_file v fs f = Inr () \<Longrightarrow> check_write v (f_rel f) = Inr ()"
  by (auto simp: check_file_def res_simps)

lemma write_views_Cons:
  "write_views v ((w, host) # rest) g =
     (case host of
        None \<Rightarrow> write_views v rest g
      | Some content \<Rightarrow>
          if view_text w content = content then write_views v rest g
          else (case check_write v (w_host w) of
                  Inl e \<Rightarrow> (Inl e, g)
                | Inr _ \<Rightarrow> write_views v rest
                    (g\<lparr>g_files := stage (at_path (w_host w)) (Utf8 (view_text w content)) (g_files g)\<rparr>)))"
  by (auto simp: Let_def write_structured_ok split: option.splits sum.splits)

lemma write_views_Inr:
  "write_views v ws g = (Inr (), g') \<Longrightarrow>
     \<exists>ps. g' = g\<lparr>g_files := put_all ps (g_files g)\<rparr> \<and> fst ` set ps \<subseteq> (at_path \<circ> w_host) ` fst ` set ws"
proof (induction ws arbitrary: g)
  case Nil
  then show ?case by (intro exI [of _ "[]"]) simp
next
  case (Cons wh rest)
  obtain w host where wh: "wh = (w, host)" by force
  show ?case
  proof (cases "write_views v rest g = (Inr (), g')")
    case True
    from Cons.IH [OF this] obtain ps where "g' = g\<lparr>g_files := put_all ps (g_files g)\<rparr>"
        "fst ` set ps \<subseteq> (at_path \<circ> w_host) ` fst ` set rest" by blast
    then show ?thesis by (intro exI [of _ ps]) auto
  next
    case False
    then obtain c where c: "write_views v rest
        (g\<lparr>g_files := stage (at_path (w_host w)) c (g_files g)\<rparr>) = (Inr (), g')"
      using Cons.prems by (auto simp: wh write_views_Cons simp del: write_views.simps(2)
          split: option.splits if_splits sum.splits)
    from Cons.IH [OF this] obtain ps where
      "g' = g\<lparr>g_files := put_all ps (stage (at_path (w_host w)) c (g_files g))\<rparr>"
      "fst ` set ps \<subseteq> (at_path \<circ> w_host) ` fst ` set rest" by auto
    then show ?thesis by (intro exI [of _ "(at_path (w_host w), c) # ps"]) (auto simp: wh)
  qed
qed

lemma write_views_Inl:
  "write_views v ws g = (Inl e, g') \<Longrightarrow> list_ex (\<lambda>w. check_write v (w_host w) = Inl e) (map fst ws)"
proof (induction ws arbitrary: g)
  case (Cons wh rest)
  obtain w host where wh: "wh = (w, host)" by force
  show ?case
    using Cons.prems Cons.IH by (auto simp: wh write_views_Cons simp del: write_views.simps(2)
        split: option.splits if_splits sum.splits)
qed simp

lemma read_hosts_length: "read_hosts v fs extras ws = Inr hs \<Longrightarrow> length hs = length ws"
  by (induction ws arbitrary: hs) (auto simp: res_simps)

text \<open>The garden just before the commit.\<close>

lemma apply_writes_cases:
  assumes "apply_writes v intent files views extras g = (r, g')"
  obtains (refused) e where "r = Inl e" "g' = g"
    "try_with (require_unlocked g) (\<lambda>_. try_with (check_files v (g_files g) (files @ x_writes extras))
       (\<lambda>_. read_hosts v (g_files g) (x_writes extras) views)) = Inl e"
  | (view) e where "r = Inl e" "list_ex (\<lambda>w. check_write v (w_host w) = Inl e) views"
  | (commit) hosts ps where
    "require_unlocked g = Inr ()" "check_files v (g_files g) (files @ x_writes extras) = Inr ()"
    "read_hosts v (g_files g) (x_writes extras) views = Inr hosts"
    "fst ` set ps \<subseteq> (at_path \<circ> w_host) ` set views"
    "commit_now v intent (refresh_backlinks v (x_refresh_backlinks extras)
       (g\<lparr>g_files := put_all (staged (files @ x_writes extras) @ ps) (g_files g)\<rparr>)) = (r, g')"
proof (cases "try_with (require_unlocked g) (\<lambda>_. try_with (check_files v (g_files g) (files @ x_writes extras))
       (\<lambda>_. read_hosts v (g_files g) (x_writes extras) views))")
  case (Inl e)
  with assms show thesis by (intro refused) (simp_all add: apply_writes_def)
next
  case (Inr hosts)
  then have ok: "require_unlocked g = Inr ()" "check_files v (g_files g) (files @ x_writes extras) = Inr ()"
      "read_hosts v (g_files g) (x_writes extras) views = Inr hosts"
    by (auto simp: res_simps)
  then have cw: "list_all (\<lambda>f. check_write v (f_rel f) = Inr ()) files"
      "list_all (\<lambda>f. check_write v (f_rel f) = Inr ()) (x_writes extras)"
    using check_file_write by (auto simp: check_files_Inr list_all_iff)
  let ?g2 = "g\<lparr>g_files := put_all (staged (files @ x_writes extras)) (g_files g)\<rparr>"
  have run: "apply_writes v intent files views extras g =
      (case write_views v (zip views hosts) ?g2 of
         (Inl e, g3) \<Rightarrow> (Inl e, g3)
       | (Inr _, g3) \<Rightarrow> commit_now v intent (refresh_backlinks v (x_refresh_backlinks extras) g3))"
    using Inr by (simp add: apply_writes_def write_files_ok [OF cw(1)] write_files_ok [OF cw(2)])
  have fstz: "map fst (zip views hosts) = views" using read_hosts_length [OF ok(3)] by simp
  obtain r3 g3 where w: "write_views v (zip views hosts) ?g2 = (r3, g3)" by force
  show thesis
  proof (cases r3)
    case (Inl e)
    show thesis
      by (rule view [of e]) (use assms run w Inl write_views_Inl [of v "zip views hosts" ?g2 e g3] fstz in auto)
  next
    case (Inr u)
    then have "write_views v (zip views hosts) ?g2 = (Inr (), g3)" using w by simp
    from write_views_Inr [OF this] obtain ps where
      ps: "g3 = ?g2\<lparr>g_files := put_all ps (g_files ?g2)\<rparr>"
        "fst ` set ps \<subseteq> (at_path \<circ> w_host) ` fst ` set (zip views hosts)" by blast
    have g3: "g3 = g\<lparr>g_files := put_all (staged (files @ x_writes extras) @ ps) (g_files g)\<rparr>"
      unfolding ps(1) by simp
    have sub: "fst ` set ps \<subseteq> (at_path \<circ> w_host) ` set views"
      using ps(2) fstz by (metis list.set_map)
    show thesis
      by (rule commit [OF ok sub]) (use assms run w Inr g3 in simp)
  qed
qed

section \<open>Refusals and commits\<close>

lemma commit_now_Inl: "commit_now v intent g = (Inl e, g') \<Longrightarrow> v_commit_error v g \<noteq> None \<and> g' = g"
  by (auto simp: commit_now_def Let_def split: option.splits if_splits)

lemma same_tree_refl [simp]: "same_tree a a"
  by (simp add: same_tree_def list_all_iff)

lemma same_tree_map_of: "same_tree a b \<longleftrightarrow> map_of a = map_of b"
proof
  assume "same_tree a b"
  then have "map_of a k = map_of b k" if "k \<in> fst ` (set a \<union> set b)" for k
    using that by (auto simp: same_tree_def list_all_iff)
  moreover have "map_of a k = map_of b k" if "k \<notin> fst ` (set a \<union> set b)" for k
    using that by (metis image_Un UnI1 UnI2 map_of_eq_None_iff)
  ultimately show "map_of a = map_of b" by blast
qed (simp add: same_tree_def list_all_iff)

lemma commit_now_Inr:
  "commit_now v intent g = (Inr h, g') \<Longrightarrow>
     g_files g' = g_files g \<and> g_state g' = g_state g \<and> map_of (g_head g') = map_of (g_files g') \<and>
     (g_log g' = g_log g \<or> g_log g' = (intent, g_files g') # g_log g) \<and> h = v_tip v (g_log g')"
  by (auto simp: commit_now_def Let_def same_tree_map_of split: option.splits if_splits)

text \<open>
  C24. A refused write changes nothing: as long as no commit fails and the view hosts lie on
  writable paths, an error of the writer leaves the garden exactly as it was, with no file staged
  and no commit minted.
\<close>

theorem apply_refusal_changes_nothing:
  assumes "apply_writes v intent files views extras g = (Inl e, g')"
    and "list_all (\<lambda>w. check_write v (w_host w) = Inr ()) views"
    and "v_commit_error v = (\<lambda>_. None)"
  shows "g' = g"
  using assms(1)
proof (cases rule: apply_writes_cases)
  case (view e)
  then show ?thesis using assms(2) by (auto simp: list_ex_iff list_all_iff)
next
  case (commit hosts ps)
  then show ?thesis using commit_now_Inl [OF commit(5)] assms(3) by simp
qed simp

text \<open>
  C20. The writer never clobbers: it succeeds only when every file it replaces still read the
  content version the verb loaded, and every file it creates was absent.
\<close>

theorem apply_compare_and_swap:
  assumes "apply_writes v intent files views extras g = (Inr h, g')"
  shows "list_all (\<lambda>f. case f_expected f of
      Some version \<Rightarrow> map_option (v_hash v) (wt_read (g_files g) (f_rel f)) = Some version
    | None \<Rightarrow> \<not> wt_exists (g_files g) (f_rel f)) (files @ x_writes extras)"
  using assms
proof (cases rule: apply_writes_cases)
  case (commit hosts ps)
  have ok: "check_file v (g_files g) f = Inr ()" if "f \<in> set (files @ x_writes extras)" for f
    using that commit(2) unfolding check_files_Inr by (simp only: list_all_iff)
  show ?thesis
    unfolding list_all_iff
  proof
    fix f assume "f \<in> set (files @ x_writes extras)"
    from ok [OF this] show "case f_expected f of
        Some version \<Rightarrow> map_option (v_hash v) (wt_read (g_files g) (f_rel f)) = Some version
      | None \<Rightarrow> \<not> wt_exists (g_files g) (f_rel f)"
      by (auto simp: check_file_def cas_check_whole_file_def res_simps split: option.splits if_splits)
  qed
qed simp_all

text \<open>
  The files of a successful write. The refresh of the backlinks is documented to rewrite markdown
  documents only.
\<close>

lemma apply_writes_lands:
  assumes "apply_writes v intent files views extras g = (Inr h, g')"
  obtains ps where "fst ` set ps \<subseteq> (at_path \<circ> w_host) ` set views"
    "g_files g' = (if x_refresh_backlinks extras then v_backlinks v else id)
       (put_all (staged (files @ x_writes extras) @ ps) (g_files g))"
    "g_state g' = g_state g" "map_of (g_head g') = map_of (g_files g')"
    "g_log g' = g_log g \<or> g_log g' = (intent, g_files g') # g_log g" "h = v_tip v (g_log g')"
  using assms
proof (cases rule: apply_writes_cases)
  case (commit hosts ps)
  show thesis
    using commit_now_Inr [OF commit(5)] commit(4)
    by (intro that [of ps]) (auto simp: refresh_backlinks_def)
qed simp_all

text \<open>
  C21. A successful write of a verb that asks for no backlink refresh and whose written paths are
  pairwise distinct lands whole and in one commit: every file of the verb reads back the bytes it
  was given, unless a view of the same verb is rendered into it; no path outside the written files
  and the view hosts changed; and the log grew by at most one commit, which holds exactly the
  garden's files.
\<close>

theorem apply_lands_in_one_commit:
  assumes "apply_writes v intent files views extras g = (Inr h, g')"
    and "distinct (map (at_path \<circ> f_rel) (files @ x_writes extras))" "\<not> x_refresh_backlinks extras"
  shows "list_all (\<lambda>f. at_path (f_rel f) \<in> (at_path \<circ> w_host) ` set views \<or>
      map_of (g_files g') (at_path (f_rel f)) = Some (Utf8 (f_bytes f))) (files @ x_writes extras) \<and>
    (p \<in> (at_path \<circ> f_rel) ` set (files @ x_writes extras) \<union> (at_path \<circ> w_host) ` set views \<or>
      map_of (g_files g') p = map_of (g_files g) p) \<and>
    map_of (g_head g') = map_of (g_files g') \<and>
    (g_log g' = g_log g \<or> g_log g' = (intent, g_files g') # g_log g)"
proof -
  let ?fs = "files @ x_writes extras"
  obtain ps where ps: "fst ` set ps \<subseteq> (at_path \<circ> w_host) ` set views"
      "g_files g' = put_all (staged ?fs @ ps) (g_files g)" "map_of (g_head g') = map_of (g_files g')"
      "g_log g' = g_log g \<or> g_log g' = (intent, g_files g') # g_log g"
  proof (rule apply_writes_lands [OF assms(1)])
    fix ps assume "fst ` set ps \<subseteq> (at_path \<circ> w_host) ` set views"
      "g_files g' = (if x_refresh_backlinks extras then v_backlinks v else id)
         (put_all (staged (files @ x_writes extras) @ ps) (g_files g))"
      "map_of (g_head g') = map_of (g_files g')"
      "g_log g' = g_log g \<or> g_log g' = (intent, g_files g') # g_log g"
    then show thesis by (intro that [of ps]) (simp_all only: assms(3) if_False id_apply)
  qed
  have d: "distinct (map fst (staged ?fs))" using assms(2) by (simp add: comp_def)
  have 1: "at_path (f_rel f) \<in> (at_path \<circ> w_host) ` set views \<or>
      map_of (g_files g') (at_path (f_rel f)) = Some (Utf8 (f_bytes f))" if "f \<in> set ?fs" for f
  proof (cases "at_path (f_rel f) \<in> fst ` set ps")
    case True
    then show ?thesis using ps(1) by blast
  next
    case False
    have "(at_path (f_rel f), Utf8 (f_bytes f)) \<in> set (staged ?fs)" using that by auto
    from overlay.get_puts [OF d this, of "g_files g"] show ?thesis
      using overlay.get_puts_other [OF False] by (simp add: ps(2))
  qed
  have 2: "map_of (g_files g') p = map_of (g_files g) p"
    if "p \<notin> (at_path \<circ> f_rel) ` set ?fs \<union> (at_path \<circ> w_host) ` set views"
  proof -
    have "p \<notin> fst ` set (staged ?fs @ ps)" using that ps(1) by force
    from overlay.get_puts_other [OF this] show ?thesis by (simp only: ps(2))
  qed
  have 3: "list_all (\<lambda>f. at_path (f_rel f) \<in> (at_path \<circ> w_host) ` set views \<or>
      map_of (g_files g') (at_path (f_rel f)) = Some (Utf8 (f_bytes f))) ?fs"
    unfolding list_all_iff using 1 by (intro ballI)
  have 4: "p \<in> (at_path \<circ> f_rel) ` set ?fs \<union> (at_path \<circ> w_host) ` set views \<or>
      map_of (g_files g') p = map_of (g_files g) p"
    using 2 by (cases "p \<in> (at_path \<circ> f_rel) ` set ?fs \<union> (at_path \<circ> w_host) ` set views") simp_all
  show ?thesis by (intro conjI 3 4 ps(3,4))
qed

section \<open>A concrete garden\<close>

definition plain_hash :: "content \<Rightarrow> string" where
  "plain_hash c = (case c of Utf8 s \<Rightarrow> s | Binary _ \<Rightarrow> [])"

text \<open>An environment over given codecs: no shares, no vault, a hash that is the text itself.\<close>

definition plain_env ::
  "queue_toml toml_codec \<Rightarrow> queue_archive_toml toml_codec \<Rightarrow> slices_toml toml_codec \<Rightarrow> env" where
  "plain_env cq ca cs =
     \<lparr>v_hash = plain_hash, v_unkeyed = (\<lambda>_. None), v_sealed = (\<lambda>_. False),
      v_region_free = (\<lambda>_ _. True), v_queue = cq, v_archive = ca, v_slices = cs,
      v_backlinks = (\<lambda>fs. fs), v_tip = (\<lambda>log. show_nat (length log)),
      v_commit_error = (\<lambda>_. None), v_now = ''2026-01-01T00:00:00Z'',
      v_now_minute = ''2026-01-01T00:00Z'', v_today = ''2026-01-01''\<rparr>"

definition no_codec :: "'f toml_codec" where
  "no_codec = \<lparr>from_str = (\<lambda>_. Inl ''toml''), to_string_pretty = (\<lambda>_. Inl ''toml'')\<rparr>"

definition bare_env :: env where
  "bare_env = plain_env no_codec no_codec no_codec"

definition one_file_garden :: garden where
  "one_file_garden = \<lparr>g_state = Unlocked, g_files = [(''a'', Utf8 ''x'')], g_head = [(''a'', Utf8 ''x'')], g_log = []\<rparr>"

definition a_write :: "string \<Rightarrow> file_write" where
  "a_write expected = \<lparr>f_rel = ''a'', f_expected = Some expected, f_bytes = ''y''\<rparr>"

definition a_written :: garden where
  "a_written = \<lparr>g_state = Unlocked, g_files = [(''a'', Utf8 ''y'')], g_head = [(''a'', Utf8 ''y'')],
     g_log = [(''t'', [(''a'', Utf8 ''y'')])]\<rparr>"

lemma stale_write_refused:
  "apply_writes bare_env ''t'' [a_write ''z''] [] no_extras one_file_garden =
     (Inl (Failed_with Conflict ''stale''), one_file_garden)"
  by code_simp

lemma fresh_write_lands:
  "apply_writes bare_env ''t'' [a_write ''x''] [] no_extras one_file_garden = (Inr ''1'', a_written)"
  by code_simp

theorem apply_refusal_changes_nothing_witness:
  "snd (apply_writes bare_env ''t'' [a_write ''z''] [] no_extras one_file_garden) = one_file_garden"
proof -
  have "snd (Inl (Failed_with Conflict ''stale'') :: op_error + string, one_file_garden) = one_file_garden"
    using apply_refusal_changes_nothing [OF stale_write_refused] by (simp add: bare_env_def plain_env_def)
  then show ?thesis by (simp only: stale_write_refused)
qed

theorem apply_compare_and_swap_witness:
  "map_option (v_hash bare_env) (wt_read (g_files one_file_garden) ''a'') = Some ''x''"
  using apply_compare_and_swap [OF fresh_write_lands] by (simp add: a_write_def no_extras_def)

lemma at_a: "at_path ''a'' = ''a''"
  by code_simp

theorem apply_lands_in_one_commit_witness: "map_of (g_files a_written) ''a'' = Some (Utf8 ''y'')"
  using apply_lands_in_one_commit [OF fresh_write_lands, of "''b''"]
  by (simp add: a_write_def no_extras_def at_a)

end
