(* ===== verification/Numbering.thy ===== *)
theory Numbering
  imports Garden Conventions
begin

text \<open>
  The numbered documents of a folder (\<^verbatim>\<open>crates/softfig-keeperd/src/actions/numbering.rs\<close>): the
  next number from the \<^verbatim>\<open>.seq\<close> file and the live files, the lookup by number and the content
  version of \<^verbatim>\<open>.seq\<close>. Numbers are 32 bits wide; the increment wraps.
\<close>

definition in_dir :: "string \<Rightarrow> string \<Rightarrow> string" where
  "in_dir dir name = dir @ ''/'' @ name"

definition read_seq :: "files \<Rightarrow> string \<Rightarrow> u32" where
  "read_seq fs dir =
     (case wt_read_to_string fs (in_dir dir seq_file) of
        None \<Rightarrow> 0
      | Some s \<Rightarrow> (case parse_u32 (trim s) of Some n \<Rightarrow> of_nat n | None \<Rightarrow> 0))"

definition live_numbers :: "files \<Rightarrow> string \<Rightarrow> nat list" where
  "live_numbers fs dir =
     concat (map (\<lambda>name. case parse_note_number name of Some n \<Rightarrow> [n] | None \<Rightarrow> [])
       (wt_read_dir fs dir))"

definition highest_live_number :: "files \<Rightarrow> string \<Rightarrow> u32" where
  "highest_live_number fs dir = of_nat (foldl max 0 (live_numbers fs dir))"

definition next_number :: "files \<Rightarrow> string \<Rightarrow> u32" where
  "next_number fs dir = max (read_seq fs dir) (highest_live_number fs dir) + 1"

definition find_by_id :: "files \<Rightarrow> string \<Rightarrow> nat \<Rightarrow> string option" where
  "find_by_id fs dir n =
     find_map (\<lambda>name.
         if starts_with (show_03 n @ ''-'') name \<and> ends_with md name then Some (in_dir dir name) else None)
       (wt_read_dir fs dir)"

definition seq_version :: "env \<Rightarrow> files \<Rightarrow> string \<Rightarrow> string option" where
  "seq_version v fs dir = map_option (v_hash v) (wt_read fs (in_dir dir seq_file))"

section \<open>Lemmas\<close>

lemma foldl_max: "foldl max a xs \<ge> (a :: nat) \<and> (x \<in> set xs \<longrightarrow> x \<le> foldl max a xs)"
proof (induction xs arbitrary: a)
  case (Cons y ys)
  have h: "max a y \<le> foldl max (max a y) ys" "x \<in> set ys \<longrightarrow> x \<le> foldl max (max a y) ys"
    using Cons [of "max a y"] by blast+
  have "a \<le> foldl max (max a y) ys" "y \<le> foldl max (max a y) ys"
    using order_trans [OF max.cobounded1 h(1)] order_trans [OF max.cobounded2 h(1)] .
  with h(2) show ?case by auto
qed simp

lemma digits_val_bound: "list_all is_digit s \<Longrightarrow> digits_val s < 10 ^ length s"
proof (induction s rule: rev_induct)
  case (snoc c cs)
  then have "digit_val c < 10" by (auto simp: digit_val_def is_digit_def)
  with snoc show ?case by (simp add: digits_val_snoc)
qed (simp add: digits_val_def)

lemma parse_note_number_small: "parse_note_number name = Some n \<Longrightarrow> n < 1000"
proof -
  assume a: "parse_note_number name = Some n"
  then have d: "list_all is_digit (take 3 name)" "parse_u32 (take 3 name) = Some n" "5 \<le> length name"
    by (auto simp: parse_note_number_def split: if_splits)
  then have ne: "take 3 name \<noteq> []" by auto
  have c: "hd (take 3 name) \<noteq> CHR ''+''" using d(1) ne by (cases "take 3 name") (auto simp: is_digit_def)
  have "n = digits_val (take 3 name)"
    using d(2) c ne by (cases "take 3 name") (auto simp: parse_u32_def Let_def split: if_splits)
  then show ?thesis using digits_val_bound [OF d(1)] d(3) by (simp add: min_def)
qed

lemma foldl_max_small: "list_all (\<lambda>x. x < b) xs \<Longrightarrow> a < b \<Longrightarrow> foldl max a xs < (b :: nat)"
  by (induction xs arbitrary: a) auto

lemma live_numbers_small: "list_all (\<lambda>n. n < 1000) (live_numbers fs dir)"
  by (auto simp: live_numbers_def list_all_iff split: option.splits dest: parse_note_number_small [OF sym])

lemma unat_max: "unat (- 1 :: u32) = 4294967295"
  by (simp add: unsigned_minus_1_eq_mask mask_eq_exp_minus_1)

lemma unat_increment:
  assumes "m < (- 1 :: u32)"
  shows "unat (m + 1) = Suc (unat m)"
proof -
  have "1 + m \<noteq> 0" using assms by (metis add.commute eq_neg_iff_add_eq_0 order_less_irrefl)
  from unatSuc [OF this] show ?thesis by (simp only: add.commute [of m 1])
qed

text \<open>A file that sits directly in a folder is listed by its name.\<close>

lemma file_listed:
  assumes "canonical_rel dir = Some d" "d \<noteq> []" "(in_dir d name, c) \<in> set fs" "CHR ''/'' \<notin> set name"
  shows "name \<in> set (wt_read_dir fs dir)"
proof -
  have "hd (split_on (CHR ''/'') (drop (length d + 1) (in_dir d name))) = name"
    using assms(4) by (simp add: in_dir_def split_on_word)
  moreover have "under_dir d (in_dir d name)" by (simp add: under_dir_def starts_with_def in_dir_def)
  ultimately show ?thesis
    using assms(1-3) by (force simp: wt_read_dir_def)
qed

lemma live_number: "name \<in> set (wt_read_dir fs dir) \<Longrightarrow> parse_note_number name = Some n \<Longrightarrow> n \<in> set (live_numbers fs dir)"
  by (force simp: live_numbers_def)

lemma number_lookup_parses:
  assumes "n < 1000" "starts_with (show_03 n @ ''-'') name" "ends_with md name"
  shows "parse_note_number name = Some n"
proof -
  have len: "length (show_03 n) = 3" by (rule length_show_03 [OF assms(1)])
  obtain rest where name: "name = show_03 n @ CHR ''-'' # rest"
  proof
    show "name = show_03 n @ CHR ''-'' # drop 4 name"
      using assms(2) append_take_drop_id [of 4 name] len by (simp add: starts_with_def)
  qed
  have "rest \<noteq> []" using assms(3) name len by (auto simp: ends_with_def starts_with_def md_def)
  then have "5 \<le> length name" using name len by (cases rest) simp_all
  moreover have "parse_u32 (show_03 n) = Some n"
    using parse_u32_digits [of "show_03 n"] len show_03_digits assms(1) by (cases "show_03 n = []") simp_all
  ultimately show ?thesis
    using assms(3) len by (simp add: parse_note_number_def name show_03_digits nth_append)
qed

lemma above_live:
  assumes "read_seq fs dir < (- 1 :: u32)"
  shows "read_seq fs dir < next_number fs dir"
    "n \<in> set (live_numbers fs dir) \<Longrightarrow> n < unat (next_number fs dir)"
proof -
  let ?h = "foldl max 0 (live_numbers fs dir)"
  have h: "?h < 1000" by (rule foldl_max_small [OF live_numbers_small]) simp
  have uh: "unat (highest_live_number fs dir) = ?h"
    unfolding highest_live_number_def using h by (simp add: unat_of_nat)
  let ?m = "max (read_seq fs dir) (highest_live_number fs dir)"
  have "highest_live_number fs dir < - 1"
    using h uh by (simp add: word_less_nat_alt unat_max)
  then have m: "?m < - 1" using assms by simp
  then have nxt: "unat (next_number fs dir) = Suc (unat ?m)"
    unfolding next_number_def by (rule unat_increment)
  show "read_seq fs dir < next_number fs dir"
    unfolding word_less_nat_alt nxt by (simp add: max_def word_le_nat_alt)
  assume "n \<in> set (live_numbers fs dir)"
  then have "n \<le> ?h" using foldl_max [of 0 "live_numbers fs dir" n] by simp
  also have "\<dots> \<le> unat ?m" unfolding uh [symmetric] by (simp add: max_def word_le_nat_alt)
  finally show "n < unat (next_number fs dir)" by (simp add: nxt)
qed

text \<open>
  C38. The next number of a folder is free, as long as the counter has not reached the 32-bit
  maximum. It lies above the counter and above the number of every document that sits in the folder
  under the name its number and slug print to, for numbers below 1000; and below 1000 the lookup
  by number finds nothing under it. Documents numbered 1000 and above print a name that the
  numbering does not read, so only the counter protects their numbers.
\<close>

theorem next_number_fresh:
  assumes "read_seq fs dir < (- 1 :: u32)" "canonical_rel dir = Some d" "d \<noteq> []"
  shows "read_seq fs dir < next_number fs dir \<and>
    (\<forall>n slug c. n < 1000 \<and> slug \<noteq> [] \<and> CHR ''/'' \<notin> set slug \<and> (in_dir d (note_filename n slug), c) \<in> set fs \<longrightarrow>
       n < unat (next_number fs dir)) \<and>
    (unat (next_number fs dir) < 1000 \<longrightarrow> find_by_id fs dir (unat (next_number fs dir)) = None)"
proof (intro conjI allI impI above_live(1) [OF assms(1)])
  fix n slug c
  assume n: "n < 1000 \<and> slug \<noteq> [] \<and> CHR ''/'' \<notin> set slug \<and> (in_dir d (note_filename n slug), c) \<in> set fs"
  have "CHR ''/'' \<notin> set (show_03 n)" using show_03_digits [of n] by (auto simp: list_all_iff is_digit_def)
  then have "CHR ''/'' \<notin> set (note_filename n slug)" using n by (simp add: note_filename_def md_def)
  then have "note_filename n slug \<in> set (wt_read_dir fs dir)"
    using file_listed [OF assms(2,3)] n by blast
  then show "n < unat (next_number fs dir)"
    using live_number parse_note_filename_small above_live(2) [OF assms(1)] n by blast
next
  assume small: "unat (next_number fs dir) < 1000"
  show "find_by_id fs dir (unat (next_number fs dir)) = None"
  proof (rule ccontr)
    assume "find_by_id fs dir (unat (next_number fs dir)) \<noteq> None"
    then obtain rel where rel: "find_by_id fs dir (unat (next_number fs dir)) = Some rel" by blast
    have "\<exists>name \<in> set (wt_read_dir fs dir). starts_with (show_03 (unat (next_number fs dir)) @ ''-'') name \<and>
        ends_with md name"
      using find_map_SomeD [OF rel [unfolded find_by_id_def]] by (auto split: if_splits)
    then have "unat (next_number fs dir) \<in> set (live_numbers fs dir)"
      using live_number number_lookup_parses [OF small] by blast
    then show False using above_live(2) [OF assms(1)] by blast
  qed
qed

theorem next_number_fresh_witness:
  "6 < unat (next_number [(''d/.seq'', Utf8 ''4''), (''d/006-x.md'', Utf8 [])] ''d'')"
proof -
  let ?fs = "[(''d/.seq'', Utf8 ''4''), (''d/006-x.md'', Utf8 [])]"
  have r: "wt_read_to_string ?fs (in_dir ''d'' seq_file) = Some ''4''" by code_simp
  have t: "trim ''4'' = ''4''" "show_nat 4 = ''4''" by code_simp+
  have "read_seq ?fs ''d'' = 4"
    using parse_u32_show_nat [of 4] by (simp add: read_seq_def r t)
  then have seq: "read_seq ?fs ''d'' < - 1" by (simp add: word_less_nat_alt unat_max)
  have dir: "canonical_rel ''d'' = Some ''d''" by code_simp
  have doc: "in_dir ''d'' (note_filename 6 ''x'') = ''d/006-x.md''" by code_simp
  show ?thesis
    using spec [OF spec [OF spec [OF conjunct1 [OF conjunct2 [OF next_number_fresh [OF seq dir]]], of 6], of "''x''"],
        of "Utf8 []"] doc
    by simp
qed

end
