(* ===== verification/Sub_Doc.thy ===== *)
theory Sub_Doc
  imports Item_Meta
begin

text \<open>
  The rule for the text a fleet member supplies to a new sub-milestone
  (\<^verbatim>\<open>crates/softfig-ipc/src/queue_v2/sub_doc.rs\<close>): none of it may carry the reserved metadata
  lines, except a slice body's model declaration.
\<close>

definition sub_doc_reserved :: "string list" where
  "sub_doc_reserved = [''model'', ''grants'', ''worktree'']"

definition slice_body_reserved :: "string list" where
  "slice_body_reserved = [''grants'', ''worktree'']"

record sub_slice_text =
  t_title :: string
  t_body :: string

record field_violation =
  fv_field :: string
  fv_key :: string

definition violation_message :: "field_violation \<Rightarrow> string" where
  "violation_message fv =
     [CHR 0x60] @ fv_field fv @ [CHR 0x60] @ '' carries a '' @ [CHR 0x60] @ ''> ''
       @ display_key (fv_key fv) @ '':'' @ [CHR 0x60] @ '' line '' @ [CHR 0xE2, CHR 0x80, CHR 0x94]
       @ '' keeperd writes a sub-milestone's docs from its fields, and a member may not set ''
       @ (if fv_key fv = ''model'' then ''its model''
          else if fv_key fv = ''grants'' then ''its folder grants'' else ''its worktree'')
       @ '' there''
       @ (if fv_key fv = ''model'' \<and> \<not> ends_with ''.body'' (fv_field fv)
          then '' (a slice body may declare '' @ [CHR 0x60] @ ''> Model:'' @ [CHR 0x60]
                 @ '', a subset of what it inherits)''
          else [])"

definition hit :: "string \<Rightarrow> string \<Rightarrow> string list \<Rightarrow> field_violation option" where
  "hit fld txt_s keys =
     map_option (\<lambda>key. \<lparr>fv_field = fld, fv_key = key\<rparr>) (reserved_field txt_s keys)"

definition or_else :: "'a option \<Rightarrow> 'a option \<Rightarrow> 'a option" where
  "or_else a b = (case a of Some x \<Rightarrow> Some x | None \<Rightarrow> b)"

definition slice_field :: "nat \<Rightarrow> string \<Rightarrow> string" where
  "slice_field i part = ''slices['' @ show_nat i @ '']'' @ part"

definition slice_violation :: "nat \<times> sub_slice_text \<Rightarrow> field_violation option" where
  "slice_violation = (\<lambda>(i, s).
     or_else (hit (slice_field i ''.title'') (t_title s) sub_doc_reserved)
       (hit (slice_field i ''.body'') (t_body s) slice_body_reserved))"

definition sub_doc_violation ::
  "string \<Rightarrow> string \<Rightarrow> sub_slice_text list \<Rightarrow> field_violation option" where
  "sub_doc_violation mission finish_criteria slices =
     or_else (hit ''mission'' mission sub_doc_reserved)
       (or_else (hit ''finish_criteria'' finish_criteria sub_doc_reserved)
         (find_map slice_violation (zip [0..<length slices] slices)))"

section \<open>Lemmas\<close>

lemma or_else_None [simp]: "or_else a b = None \<longleftrightarrow> a = None \<and> b = None"
  by (simp add: or_else_def split: option.splits)

lemma hit_None [simp]: "hit f s keys = None \<longleftrightarrow> reserved_field s keys = None"
  by (simp add: hit_def)

text \<open>
  Text passes the rule exactly when no reserved line occurs: none of model, grants and
  worktree in the mission, the finish criteria or a slice title, and no grants or worktree in a
  slice body.
\<close>

lemma sub_doc_clean_iff:
  "sub_doc_violation mission finish_criteria slices = None \<longleftrightarrow>
     reserved_field mission sub_doc_reserved = None \<and>
     reserved_field finish_criteria sub_doc_reserved = None \<and>
     list_all (\<lambda>s. reserved_field (t_title s) sub_doc_reserved = None \<and>
       reserved_field (t_body s) slice_body_reserved = None) slices"
proof -
  let ?ok = "\<lambda>s. reserved_field (t_title s) sub_doc_reserved = None \<and>
    reserved_field (t_body s) slice_body_reserved = None"
  let ?z = "zip [0..<length slices] slices"
  have "slice_violation p = None \<longleftrightarrow> ?ok (snd p)" for p
    by (cases p) (simp add: slice_violation_def)
  then have "find_map slice_violation ?z = None \<longleftrightarrow> (\<forall>p \<in> set ?z. ?ok (snd p))"
    by (simp only: find_map_None)
  also have "\<dots> \<longleftrightarrow> list_all ?ok (map snd ?z)"
    by (simp only: list_all_iff set_map ball_simps(9))
  also have "map snd ?z = slices" by simp
  finally have "find_map slice_violation ?z = None \<longleftrightarrow> list_all ?ok slices" .
  then show ?thesis by (simp add: sub_doc_violation_def)
qed

end
