(* ===== verification/Queue_Ops.thy ===== *)
theory Queue_Ops
  imports Queue_Files Numbering Sub_Doc Section_Edit
begin

text \<open>
  The daemon operations on the queue v2 files
  (\<^verbatim>\<open>crates/softfig-keeperd/src/actions/growlight/v2/ops.rs\<close>): the claim, the status write at
  both levels, the follow-up counter, the session log line, the deferred verification section and
  the sub-milestone. Each operation loads and checks, builds new models and calls the writer
  once; what it does before the write is its plan, an error or the files of one commit.
\<close>

section \<open>Requests and replies\<close>

datatype daemon_status = DPaused | DBlocked | DDeferred | DQueued | DDone | DSplit

record claim_args =
  c_entry :: string
  c_unit :: "string option"

record set_status_args =
  ss_entry :: string
  ss_unit :: "string option"
  ss_new :: daemon_status

record follow_ups_args =
  fu_entry :: string
  fu_unit :: "string option"
  fu_count :: u64

record session_log_args =
  sl_entry :: string
  sl_unit :: "string option"
  sl_line :: string

record deferred_test =
  dt_what :: string
  dt_expected :: string

record deferred_args =
  df_entry :: string
  df_tests :: "deferred_test list"

record slice_spec =
  sp_slug :: string
  sp_title :: "string option"
  sp_body :: string

record add_sub_args =
  as_milestone :: string
  as_slice :: string
  as_slug :: string
  as_title :: string
  as_mission :: string
  as_finish_criteria :: string
  as_slices :: "slice_spec list"
  as_at_end :: bool

record unit_reply =
  r_entry :: string
  r_unit :: "string option"
  r_hash :: string

record status_reply = unit_reply +
  r_status :: string

record doc_reply = unit_reply +
  r_path :: string

record sub_reply =
  sr_milestone :: string
  sr_slices :: "string list"
  sr_path :: string
  sr_hash :: string

section \<open>Running a plan\<close>

text \<open>
  A plan without a write answers the untouched tip; one with a write answers the hash of the
  commit.
\<close>

datatype plan =
    Keep
  | Write string "file_write list" "view_write list" extra_writes

definition run_plan ::
  "env \<Rightarrow> op_error + ((string \<Rightarrow> 'r) \<times> plan) \<Rightarrow> garden \<Rightarrow> (op_error + 'r) \<times> garden" where
  "run_plan v m g =
     (case m of
        Inl e \<Rightarrow> (Inl e, g)
      | Inr (reply, Keep) \<Rightarrow> (Inr (reply (v_tip v (g_log g))), g)
      | Inr (reply, Write intent files views extras) \<Rightarrow>
          (case apply_writes v intent files views extras g of
             (Inl e, g') \<Rightarrow> (Inl e, g')
           | (Inr h, g') \<Rightarrow> (Inr (reply h), g')))"

section \<open>Shared steps\<close>

definition bad :: "string \<Rightarrow> op_error" where
  "bad msg = Failed_with BadArgs msg"

definition require_text :: "string \<Rightarrow> string \<Rightarrow> op_error + unit" where
  "require_text s msg = guard (trim s \<noteq> []) (bad msg)"

definition require_unit :: "string option \<Rightarrow> op_error + unit" where
  "require_unit u = (case u of Some s \<Rightarrow> require_text s ''unit must be non-empty'' | None \<Rightarrow> Inr ())"

definition row_id_of :: "string \<Rightarrow> string" where
  "row_id_of entry = hd (split_on (CHR ''/'') entry)"

record loaded_entry =
  le_queue :: queue_toml
  le_queue_version :: "string option"
  le_archive :: queue_archive_toml
  le_archive_version :: "string option"
  le_idx :: nat

definition load_entry_row :: "env \<Rightarrow> files \<Rightarrow> string \<Rightarrow> op_error + loaded_entry" where
  "load_entry_row v fs entry =
     (let row_id = row_id_of entry in
      try_with (map_err Corrupt (load_queue_state v fs)) (\<lambda>loaded.
      try_with (ok_or (Refused (UnknownId row_id)) loaded) (\<lambda>qs.
      try_with (ok_or (Refused (UnknownId row_id))
          (position (\<lambda>e. e_id e = row_id) (q_entries (l_model (qs_queue qs))))) (\<lambda>i.
      Inr \<lparr>le_queue = l_model (qs_queue qs), le_queue_version = l_version (qs_queue qs),
           le_archive = l_model (qs_archive qs), le_archive_version = l_version (qs_archive qs),
           le_idx = i\<rparr>))))"

text \<open>The slices file of a milestone, which must exist, and the index of one of its items.\<close>

definition load_tree_item ::
  "env \<Rightarrow> files \<Rightarrow> string \<Rightarrow> string \<Rightarrow> op_error + (slices_toml loaded \<times> nat)" where
  "load_tree_item v fs entry unit =
     try_with (map_err Corrupt (load_slices v fs entry)) (\<lambda>loaded.
     try_with (ok_or (Refused (UnknownId entry)) loaded) (\<lambda>l.
     try_with (ok_or (Refused (UnknownId unit))
         (position (\<lambda>i. i_id i = unit) (s_items (l_model l)))) (\<lambda>i.
     Inr (l, i))))"

definition set_row :: "queue_toml \<Rightarrow> nat \<Rightarrow> entry \<Rightarrow> queue_toml" where
  "set_row q i row = q\<lparr>q_entries := (q_entries q)[i := row]\<rparr>"

definition set_item :: "slices_toml \<Rightarrow> nat \<Rightarrow> slice_item \<Rightarrow> slices_toml" where
  "set_item s i it = s\<lparr>s_items := (s_items s)[i := it]\<rparr>"

definition codec_err :: "queue_v2_error \<Rightarrow> op_error" where
  "codec_err e = Failed_with Internal (show_queue_v2_error e)"

definition queue_write :: "env \<Rightarrow> queue_toml \<Rightarrow> string option \<Rightarrow> op_error + file_write" where
  "queue_write v q version =
     try_with (map_err codec_err (queue_to_toml (v_queue v) q)) (\<lambda>bytes.
     Inr \<lparr>f_rel = queue_file, f_expected = version, f_bytes = bytes\<rparr>)"

definition archive_write :: "env \<Rightarrow> queue_archive_toml \<Rightarrow> string option \<Rightarrow> op_error + file_write" where
  "archive_write v a version =
     try_with (map_err codec_err (archive_to_toml (v_archive v) a)) (\<lambda>bytes.
     Inr \<lparr>f_rel = queue_archive_file, f_expected = version, f_bytes = bytes\<rparr>)"

definition slices_write :: "env \<Rightarrow> string \<Rightarrow> slices_toml \<Rightarrow> string option \<Rightarrow> op_error + file_write" where
  "slices_write v milestone s version =
     try_with (map_err codec_err (slices_to_toml (v_slices v) s)) (\<lambda>bytes.
     Inr \<lparr>f_rel = slices_file milestone, f_expected = version, f_bytes = bytes\<rparr>)"

definition queue_view_write :: "queue_toml \<Rightarrow> view_write" where
  "queue_view_write q = \<lparr>w_host = queue_view_host, w_tag = queue_v2_tag, w_body = Some (queue_view q)\<rparr>"

definition slices_view_write :: "string \<Rightarrow> slices_toml \<Rightarrow> view_write" where
  "slices_view_write milestone s =
     \<lparr>w_host = slices_view_host milestone, w_tag = slices_v2_tag, w_body = Some (slices_view s)\<rparr>"

definition unit_doc_rel :: "files \<Rightarrow> entry_kind \<Rightarrow> string \<Rightarrow> string option \<Rightarrow> op_error + string" where
  "unit_doc_rel fs kind entry unit =
     (case kind of
        Milestone \<Rightarrow>
          (case unit of
             None \<Rightarrow> Inr (milestone_path entry @ ''/CLAUDE.md'')
           | Some uid \<Rightarrow>
               try_with (ok_or (bad ''unit must be the slice's NNN'') (parse_u32 uid)) (\<lambda>n.
               ok_or (Failed_with NotFound ''no slice doc'')
                 (find_by_id fs (milestone_path entry @ ''/slices'') n)))
      | _ \<Rightarrow>
          (if unit \<noteq> None then Inl (bad ''entries have no slices'')
           else
             try_with (ok_or (bad ''entry id must be its NNN'') (parse_u32 entry)) (\<lambda>n.
             ok_or (Failed_with NotFound ''no entry doc'') (find_by_id fs tasks_dir n))))"

definition load_unit_doc :: "env \<Rightarrow> files \<Rightarrow> string \<Rightarrow> op_error + (string \<times> string)" where
  "load_unit_doc v fs rel =
     (if \<not> wt_exists fs rel then Inl (Failed_with NotFound ''unit doc missing'')
      else
        try_with (ok_or (Failed_with VaultProtected rel) (read_if_unprotected v fs rel)) (\<lambda>content.
        Inr (content, v_hash v (Utf8 content))))"

fun entry_status_of :: "daemon_status \<Rightarrow> entry_status option" where
  "entry_status_of DPaused = Some EPaused"
| "entry_status_of DBlocked = Some EBlocked"
| "entry_status_of DDeferred = Some EDeferred"
| "entry_status_of DQueued = Some EQueued"
| "entry_status_of DDone = None"
| "entry_status_of DSplit = None"

fun slice_status_of :: "daemon_status \<Rightarrow> slice_status option" where
  "slice_status_of DDone = Some SDone"
| "slice_status_of DSplit = Some SSplit"
| "slice_status_of DBlocked = Some SBlocked"
| "slice_status_of DDeferred = Some SDeferred"
| "slice_status_of DQueued = Some SQueued"
| "slice_status_of DPaused = None"

section \<open>The claim\<close>

fun claim_entry :: "entry_status \<Rightarrow> op_error + bool" where
  "claim_entry EQueued = Inr True"
| "claim_entry EPaused = Inr True"
| "claim_entry EActive = Inr False"
| "claim_entry _ = Inl (bad ''the daemon claim requires queued, paused, or active'')"

definition claim_unit ::
  "env \<Rightarrow> files \<Rightarrow> string \<Rightarrow> entry_kind \<Rightarrow> string \<Rightarrow> op_error + (slices_toml \<times> string option) option" where
  "claim_unit v fs entry kind unit =
     (if kind \<noteq> Milestone then Inl (bad ''only milestones have slices'')
      else
        try_with (load_tree_item v fs entry unit) (\<lambda>(l, sidx).
        let items = s_items (l_model l) in
        case find (\<lambda>i. i \<noteq> sidx \<and> i_status (items ! i) = SActive) [0..<length items] of
          Some other \<Rightarrow> Inl (Refused (Started (i_id (items ! other))))
        | None \<Rightarrow>
            (case i_status (items ! sidx) of
               SQueued \<Rightarrow>
                 Inr (Some (set_item (l_model l) sidx ((items ! sidx)\<lparr>i_status := SActive\<rparr>), l_version l))
             | SActive \<Rightarrow> Inr None
             | _ \<Rightarrow> Inl (bad ''the daemon claim requires queued or active''))))"

definition claim_plan :: "env \<Rightarrow> garden \<Rightarrow> claim_args \<Rightarrow> op_error + ((string \<Rightarrow> unit_reply) \<times> plan)" where
  "claim_plan v g args =
     try_with (require_text (c_entry args) ''entry must be non-empty'') (\<lambda>_.
     try_with (require_unit (c_unit args)) (\<lambda>_.
     try_with (require_unlocked g) (\<lambda>_.
     try_with (load_entry_row v (g_files g) (c_entry args)) (\<lambda>le.
     let row = q_entries (le_queue le) ! le_idx le in
     try_with (claim_entry (e_status row)) (\<lambda>entry_changed.
     let q = (if entry_changed then set_row (le_queue le) (le_idx le) (row\<lparr>e_status := EActive\<rparr>)
              else le_queue le) in
     try_with (case c_unit args of
         Some unit \<Rightarrow> claim_unit v (g_files g) (c_entry args) (e_kind row) unit
       | None \<Rightarrow> Inr None) (\<lambda>slices.
     try_with (map_err Refused (validate q (le_archive le))) (\<lambda>_.
     let reply = (\<lambda>h. \<lparr>r_entry = c_entry args, r_unit = c_unit args, r_hash = h\<rparr>) in
     if \<not> entry_changed \<and> slices = None then Inr (reply, Keep)
     else
       try_with (if entry_changed
           then try_with (queue_write v q (le_queue_version le)) (\<lambda>f. Inr ([f], [queue_view_write q]))
           else Inr ([], [])) (\<lambda>(files1, views1).
       try_with (case slices of
           Some (s, version) \<Rightarrow>
             try_with (slices_write v (c_entry args) s version) (\<lambda>f.
             Inr ([f], [slices_view_write (c_entry args) s]))
         | None \<Rightarrow> Inr ([], [])) (\<lambda>(files2, views2).
       Inr (reply, Write ''queue_v2_claimed'' (files1 @ files2) (views1 @ views2) no_extras))))))))))"

definition queue_v2_claim :: "env \<Rightarrow> claim_args \<Rightarrow> garden \<Rightarrow> (op_error + unit_reply) \<times> garden" where
  "queue_v2_claim v args g = run_plan v (claim_plan v g args) g"

section \<open>The status write\<close>

definition slice_open :: "slice_status \<Rightarrow> bool" where
  "slice_open st \<longleftrightarrow> \<not> (st = SDone \<or> st = SSplit \<or> st = SDeferred)"

definition check_sub_close ::
  "env \<Rightarrow> files \<Rightarrow> string \<Rightarrow> string \<Rightarrow> slice_status \<Rightarrow> slice_status \<Rightarrow> op_error + unit" where
  "check_sub_close v fs parent sub from_st to_st =
     (if \<not> (to_st = SDone \<or> to_st = SDeferred) then Inl (bad ''closes to done or deferred only'')
      else if \<not> (from_st = SQueued \<or> from_st = SActive) then Inl (bad ''only an open sub closes'')
      else
        (let identity = parent @ ''/'' @ sub in
         try_with (map_err Corrupt (load_slices v fs identity)) (\<lambda>loaded.
         try_with (ok_or (Refused (UnknownId identity)) loaded) (\<lambda>l.
         guard (filter (\<lambda>i. slice_open (i_status i)) (s_items (l_model l)) = []) (bad ''open_items'')))))"

definition set_slice_plan ::
  "env \<Rightarrow> garden \<Rightarrow> set_status_args \<Rightarrow> string \<Rightarrow> op_error + ((string \<Rightarrow> status_reply) \<times> plan)" where
  "set_slice_plan v g args unit =
     try_with (load_tree_item v (g_files g) (ss_entry args) unit) (\<lambda>(l, sidx).
     let it = s_items (l_model l) ! sidx in
     try_with (ok_or (bad ''not a slice status'') (slice_status_of (ss_new args))) (\<lambda>new.
     try_with (case i_kind it of
         Slice \<Rightarrow> guard (i_status it = SActive) (bad ''the daemon status write requires active'')
       | Sub \<Rightarrow> check_sub_close v (g_files g) (ss_entry args) unit (i_status it) new) (\<lambda>_.
     let it1 = it\<lparr>i_status := new\<rparr>;
         it2 = (if new = SDone \<and> i_kind it = Slice then it1\<lparr>i_follow_ups := Some 0\<rparr> else it1);
         s = set_item (l_model l) sidx it2 in
     try_with (map_err Refused (slices_validate s (ss_entry args))) (\<lambda>_.
     try_with (slices_write v (ss_entry args) s (l_version l)) (\<lambda>f.
     Inr (\<lambda>h. \<lparr>r_entry = ss_entry args, r_unit = ss_unit args, r_hash = h, r_status = show_slice_status new\<rparr>,
          Write ''queue_v2_status_set'' [f] [slices_view_write (ss_entry args) s] no_extras))))))"

text \<open>
  The status that lands on an entry: a pending human change wins over the requested status,
  except over \<open>blocked\<close>.
\<close>

definition applied_status :: "entry_status option \<Rightarrow> entry_status \<Rightarrow> entry_status" where
  "applied_status pending new =
     (case pending of
        Some p \<Rightarrow> if new = EBlocked then new else p
      | None \<Rightarrow> new)"

definition set_entry_plan ::
  "env \<Rightarrow> garden \<Rightarrow> set_status_args \<Rightarrow> op_error + ((string \<Rightarrow> status_reply) \<times> plan)" where
  "set_entry_plan v g args =
     try_with (load_entry_row v (g_files g) (ss_entry args)) (\<lambda>le.
     let i = le_idx le; row = q_entries (le_queue le) ! i in
     try_with (guard (e_status row = EActive) (bad ''the daemon status write requires active'')) (\<lambda>_.
     try_with (guard (ss_new args \<noteq> DSplit) (bad ''not an entry status'')) (\<lambda>_.
     let reply = (\<lambda>st h. \<lparr>r_entry = ss_entry args, r_unit = ss_unit args, r_hash = h, r_status = st\<rparr>);
         finish = (\<lambda>q ar files st.
           try_with (map_err Refused (validate q ar)) (\<lambda>_.
           try_with (queue_write v q (le_queue_version le)) (\<lambda>f.
           Inr (reply st, Write ''queue_v2_status_set'' (files @ [f]) [queue_view_write q] no_extras)))) in
     case entry_status_of (ss_new args) of
       None \<Rightarrow>
         (let q = (le_queue le)\<lparr>q_entries := remove_at i (q_entries (le_queue le))\<rparr>;
              ar = (le_archive le)\<lparr>a_entries := a_entries (le_archive le) @
                     [\<lparr>a_row = row\<lparr>e_pending_status := None\<rparr>, a_finished = v_now v,
                       a_final_status = FDone, a_reason = None\<rparr>]\<rparr> in
          try_with (archive_write v ar (le_archive_version le)) (\<lambda>fa.
          finish q ar [fa] ''done''))
     | Some new \<Rightarrow>
         (let applied = applied_status (e_pending_status row) new;
              q = set_row (le_queue le) i (row\<lparr>e_pending_status := None, e_status := applied\<rparr>) in
          if e_status row \<noteq> applied \<or> e_pending_status row \<noteq> None
          then finish q (le_archive le) [] (show_entry_status applied)
          else Inr (reply (show_entry_status applied), Keep)))))"

definition set_status_plan ::
  "env \<Rightarrow> garden \<Rightarrow> set_status_args \<Rightarrow> op_error + ((string \<Rightarrow> status_reply) \<times> plan)" where
  "set_status_plan v g args =
     try_with (require_text (ss_entry args) ''entry must be non-empty'') (\<lambda>_.
     try_with (require_unit (ss_unit args)) (\<lambda>_.
     try_with (require_unlocked g) (\<lambda>_.
     case ss_unit args of
       Some unit \<Rightarrow> set_slice_plan v g args unit
     | None \<Rightarrow> set_entry_plan v g args)))"

definition queue_v2_set_status ::
  "env \<Rightarrow> set_status_args \<Rightarrow> garden \<Rightarrow> (op_error + status_reply) \<times> garden" where
  "queue_v2_set_status v args g = run_plan v (set_status_plan v g args) g"

section \<open>The follow-up counter\<close>

definition follow_ups_plan ::
  "env \<Rightarrow> garden \<Rightarrow> follow_ups_args \<Rightarrow> op_error + ((string \<Rightarrow> unit_reply) \<times> plan)" where
  "follow_ups_plan v g args =
     try_with (require_text (fu_entry args) ''entry must be non-empty'') (\<lambda>_.
     try_with (require_unit (fu_unit args)) (\<lambda>_.
     try_with (require_unlocked g) (\<lambda>_.
     let reply = (\<lambda>h. \<lparr>r_entry = fu_entry args, r_unit = fu_unit args, r_hash = h\<rparr>) in
     case fu_unit args of
       Some unit \<Rightarrow>
         try_with (load_tree_item v (g_files g) (fu_entry args) unit) (\<lambda>(l, sidx).
         let it = s_items (l_model l) ! sidx in
         try_with (guard (i_kind it = Slice) (bad ''follow_ups is slice-only'')) (\<lambda>_.
         if i_follow_ups it = Some (fu_count args) then Inr (reply, Keep)
         else
           (let s = set_item (l_model l) sidx (it\<lparr>i_follow_ups := Some (fu_count args)\<rparr>) in
            try_with (map_err Refused (slices_validate s (fu_entry args))) (\<lambda>_.
            try_with (slices_write v (fu_entry args) s (l_version l)) (\<lambda>f.
            Inr (reply, Write ''queue_v2_follow_ups_set'' [f]
                   [slices_view_write (fu_entry args) s] no_extras))))))
     | None \<Rightarrow>
         try_with (load_entry_row v (g_files g) (fu_entry args)) (\<lambda>le.
         let row = q_entries (le_queue le) ! le_idx le in
         if e_follow_ups row = fu_count args then Inr (reply, Keep)
         else
           (let q = set_row (le_queue le) (le_idx le) (row\<lparr>e_follow_ups := fu_count args\<rparr>) in
            try_with (map_err Refused (validate q (le_archive le))) (\<lambda>_.
            try_with (queue_write v q (le_queue_version le)) (\<lambda>f.
            Inr (reply, Write ''queue_v2_follow_ups_set'' [f] [queue_view_write q] no_extras)))))))) "

definition queue_v2_follow_ups ::
  "env \<Rightarrow> follow_ups_args \<Rightarrow> garden \<Rightarrow> (op_error + unit_reply) \<times> garden" where
  "queue_v2_follow_ups v args g = run_plan v (follow_ups_plan v g args) g"

section \<open>The session log\<close>

text \<open>\<open>section_err\<close> of \<^verbatim>\<open>sections.rs\<close>: the wire error of a failed section edit.\<close>

fun section_err :: "string \<Rightarrow> section_error \<Rightarrow> op_error" where
  "section_err rel SectionNotFound = Failed_with NotFound rel"
| "section_err rel SectionAmbiguous = Failed_with BadArgs rel"
| "section_err rel SectionAlreadyExists = Failed_with PathAlreadyExists rel"
| "section_err rel EmptyHeading = Failed_with BadArgs ''heading must be non-empty''"
| "section_err rel LastSection = Failed_with BadArgs rel"
| "section_err rel ManagedRegion = Failed_with BadArgs rel"

text \<open>An edit that adds the section when it is not there.\<close>

definition edit_or_add ::
  "string \<Rightarrow> (section_error + string) \<Rightarrow> (section_error + string) \<Rightarrow> op_error + string" where
  "edit_or_add rel edited added =
     (case edited of
        Inr s \<Rightarrow> Inr s
      | Inl e \<Rightarrow> if e = SectionNotFound then map_err (section_err rel) added else Inl (section_err rel e))"

text \<open>The middle dot is the two bytes \<^verbatim>\<open>C2 B7\<close>.\<close>

definition middle_dot :: string where
  "middle_dot = [CHR 0xC2, CHR 0xB7]"

definition sessions_heading :: string where
  "sessions_heading = ''## Sessions''"

definition session_line :: "env \<Rightarrow> string \<Rightarrow> string" where
  "session_line v line = ''- '' @ v_now_minute v @ '' '' @ middle_dot @ '' '' @ trim line"

definition unit_doc_of ::
  "env \<Rightarrow> files \<Rightarrow> string \<Rightarrow> string option \<Rightarrow> op_error + (string \<times> string \<times> string)" where
  "unit_doc_of v fs entry unit =
     try_with (load_entry_row v fs entry) (\<lambda>le.
     try_with (unit_doc_rel fs (e_kind (q_entries (le_queue le) ! le_idx le)) entry unit) (\<lambda>rel.
     try_with (load_unit_doc v fs rel) (\<lambda>(content, version).
     Inr (rel, content, version))))"

definition session_log_plan ::
  "env \<Rightarrow> garden \<Rightarrow> session_log_args \<Rightarrow> op_error + ((string \<Rightarrow> doc_reply) \<times> plan)" where
  "session_log_plan v g args =
     try_with (require_text (sl_entry args) ''entry must be non-empty'') (\<lambda>_.
     try_with (require_text (sl_line args) ''line must be non-empty'') (\<lambda>_.
     try_with (require_unlocked g) (\<lambda>_.
     try_with (unit_doc_of v (g_files g) (sl_entry args) (sl_unit args)) (\<lambda>(rel, content, version).
     let stamped = session_line v (sl_line args) in
     try_with (edit_or_add rel (append_to_section content sessions_heading stamped)
         (add_section content sessions_heading stamped)) (\<lambda>new.
     Inr (\<lambda>h. \<lparr>r_entry = sl_entry args, r_unit = sl_unit args, r_hash = h, r_path = rel\<rparr>,
          Write ''queue_v2_session_logged''
            [\<lparr>f_rel = rel, f_expected = Some version, f_bytes = new\<rparr>] [] no_extras))))))"

definition queue_v2_session_log ::
  "env \<Rightarrow> session_log_args \<Rightarrow> garden \<Rightarrow> (op_error + doc_reply) \<times> garden" where
  "queue_v2_session_log v args g = run_plan v (session_log_plan v g args) g"

section \<open>Deferred verification\<close>

definition deferred_heading :: string where
  "deferred_heading = ''## Deferred verification''"

definition deferred_body :: "deferred_test list \<Rightarrow> string" where
  "deferred_body tests =
     trim_end (concat (map (\<lambda>t. ''- '' @ trim (dt_what t) @ '' '' @ em_dash @ '' expected: ''
       @ trim (dt_expected t) @ [newline]) tests))"

definition deferred_plan ::
  "env \<Rightarrow> garden \<Rightarrow> deferred_args \<Rightarrow> op_error + ((string \<Rightarrow> doc_reply) \<times> plan)" where
  "deferred_plan v g args =
     try_with (require_text (df_entry args) ''entry must be non-empty'') (\<lambda>_.
     try_with (guard (df_tests args \<noteq> []) (bad ''tests must not be empty'')) (\<lambda>_.
     try_with (guard (list_all (\<lambda>t. trim (dt_what t) \<noteq> [] \<and> trim (dt_expected t) \<noteq> []) (df_tests args))
         (bad ''each deferred test needs a non-empty what and expected'')) (\<lambda>_.
     try_with (require_unlocked g) (\<lambda>_.
     try_with (unit_doc_of v (g_files g) (df_entry args) None) (\<lambda>(rel, content, version).
     let body = deferred_body (df_tests args) in
     try_with (edit_or_add rel (edit_section content deferred_heading body)
         (add_section content deferred_heading body)) (\<lambda>new.
     Inr (\<lambda>h. \<lparr>r_entry = df_entry args, r_unit = None, r_hash = h, r_path = rel\<rparr>,
          Write ''queue_v2_deferred_set''
            [\<lparr>f_rel = rel, f_expected = Some version, f_bytes = new\<rparr>] [] no_extras)))))))"

definition queue_v2_deferred ::
  "env \<Rightarrow> deferred_args \<Rightarrow> garden \<Rightarrow> (op_error + doc_reply) \<times> garden" where
  "queue_v2_deferred v args g = run_plan v (deferred_plan v g args) g"

section \<open>The sub-milestone\<close>

definition sub_doc :: "string \<Rightarrow> string \<Rightarrow> string \<Rightarrow> string \<Rightarrow> string \<Rightarrow> string \<Rightarrow> string" where
  "sub_doc identity parent slc title mission finish =
     ''# backlog: '' @ title @ [newline, newline]
       @ ''> Sub-milestone '' @ code_span identity @ '', filed from slice '' @ slc @ '' of ''
       @ code_span parent @ '' when its work outgrew it (spec-growlight-queue ''
       @ [CHR 0xC2, CHR 0xA7] @ ''7). It runs inside its top-level entry and ''
       @ ''shares that entry's baton; its status is its item in '' @ code_span parent
       @ [CHR 0x27] @ ''s '' @ code_span ''slices.toml'' @ '', ''
       @ ''its slices run in the order of the derived table below, and it is done when its ''
       @ ''close-out completes.'' @ [newline, newline]
       @ ''## Mission'' @ [newline, newline] @ trim_newlines mission @ [newline, newline]
       @ ''## Finish criteria'' @ [newline, newline] @ trim_newlines finish @ [newline]"

fun check_specs :: "slice_spec list \<Rightarrow> op_error + unit" where
  "check_specs [] = Inr ()"
| "check_specs (s # ss) =
     (if \<not> is_ok (validate_slug (sp_slug s)) then Inl (Refused (BadName (sp_slug s)))
      else if trim (sp_body s) = [] then Inl (bad ''slices: body must be non-empty'')
      else check_specs ss)"

definition spec_title :: "slice_spec \<Rightarrow> string" where
  "spec_title s = (case sp_title s of Some t \<Rightarrow> t | None \<Rightarrow> sp_slug s)"

definition spec_text :: "slice_spec \<Rightarrow> sub_slice_text" where
  "spec_text s = \<lparr>t_title = spec_title s, t_body = sp_body s\<rparr>"

definition slice_doc_write :: "env \<Rightarrow> string \<Rightarrow> nat \<times> slice_spec \<Rightarrow> file_write" where
  "slice_doc_write v dir = (\<lambda>(n, s).
     \<lparr>f_rel = in_dir dir (note_filename n (sp_slug s)), f_expected = None,
      f_bytes = note_doc (spec_title s) (v_today v) (sp_body s)\<rparr>)"

definition new_item :: "nat \<times> slice_spec \<Rightarrow> slice_item" where
  "new_item = (\<lambda>(n, s).
     \<lparr>i_kind = Slice, i_id = show_03 n, i_status = SQueued, i_follow_ups = Some 0\<rparr>)"

definition numbered :: "slice_spec list \<Rightarrow> (nat \<times> slice_spec) list" where
  "numbered specs = zip [1..<length specs + 1] specs"

definition check_add_sub :: "add_sub_args \<Rightarrow> op_error + unit" where
  "check_add_sub args =
     try_with (require_text (as_milestone args) ''milestone must be non-empty'') (\<lambda>_.
     try_with (require_text (as_slice args) ''slice must be non-empty'') (\<lambda>_.
     try_with (require_text (as_title args) ''title must be non-empty'') (\<lambda>_.
     try_with (require_text (as_mission args) ''mission must be non-empty'') (\<lambda>_.
     try_with (require_text (as_finish_criteria args) ''finish_criteria must be non-empty'') (\<lambda>_.
     try_with (guard (is_ok (validate_slug (as_slug args))) (Refused (BadName (as_slug args)))) (\<lambda>_.
     try_with (guard (as_slices args \<noteq> []) (bad ''a sub-milestone needs at least one slice'')) (\<lambda>_.
     try_with (check_specs (as_slices args)) (\<lambda>_.
     try_with (map_err Refused (sub_depth (as_milestone args @ ''/'' @ as_slug args))) (\<lambda>_.
     case sub_doc_violation (as_mission args) (as_finish_criteria args)
            (map spec_text (as_slices args)) of
       Some fv \<Rightarrow> Inl (bad (''field_not_allowed: '' @ violation_message fv))
     | None \<Rightarrow> Inr ())))))))))"

definition split_parent :: "slices_toml \<Rightarrow> nat \<Rightarrow> add_sub_args \<Rightarrow> slices_toml" where
  "split_parent s i args =
     (let items = (s_items s)[i := (s_items s ! i)\<lparr>i_status := SSplit\<rparr>];
          at = (if as_at_end args then length items else i + 1)
      in s\<lparr>s_items := insert_at at
            \<lparr>i_kind = Sub, i_id = as_slug args, i_status = SQueued, i_follow_ups = None\<rparr> items\<rparr>)"

definition add_sub_plan ::
  "env \<Rightarrow> garden \<Rightarrow> add_sub_args \<Rightarrow> op_error + ((string \<Rightarrow> sub_reply) \<times> plan)" where
  "add_sub_plan v g args =
     try_with (check_add_sub args) (\<lambda>_.
     try_with (require_unlocked g) (\<lambda>_.
     let fs = g_files g;
         identity = as_milestone args @ ''/'' @ as_slug args;
         doc_rel = slices_view_host identity;
         slices_dir = milestone_path identity @ ''/slices'' in
     try_with (guard (\<not> wt_exists fs doc_rel) (Refused (Exists identity))) (\<lambda>_.
     try_with (load_tree_item v fs (as_milestone args) (as_slice args)) (\<lambda>(l, sidx).
     let item = s_items (l_model l) ! sidx in
     try_with (guard (i_kind item = Slice \<and> i_status item = SActive)
         (bad ''only an active slice splits into a sub-milestone'')) (\<lambda>_.
     let parent = split_parent (l_model l) sidx args in
     try_with (map_err Refused (slices_validate parent (as_milestone args))) (\<lambda>_.
     let specs = numbered (as_slices args);
         items = map new_item specs;
         sub = slices_new identity items in
     try_with (map_err Refused (slices_validate sub identity)) (\<lambda>_.
     try_with (slices_write v (as_milestone args) parent (l_version l)) (\<lambda>f1.
     try_with (slices_write v identity sub None) (\<lambda>f2.
     Inr (\<lambda>h. \<lparr>sr_milestone = identity, sr_slices = map i_id items, sr_path = doc_rel, sr_hash = h\<rparr>,
          Write ''queue_v2_sub_added'' [f1, f2]
            [slices_view_write (as_milestone args) parent, slices_view_write identity sub]
            \<lparr>x_writes =
               [\<lparr>f_rel = doc_rel, f_expected = None,
                 f_bytes = sub_doc identity (as_milestone args) (as_slice args) (as_title args)
                             (as_mission args) (as_finish_criteria args)\<rparr>,
                \<lparr>f_rel = in_dir slices_dir seq_file, f_expected = None,
                 f_bytes = show_nat (length (as_slices args)) @ [newline]\<rparr>]
               @ map (slice_doc_write v slices_dir) specs,
             x_refresh_backlinks = True\<rparr>)))))))))) "

definition queue_v2_add_sub :: "env \<Rightarrow> add_sub_args \<Rightarrow> garden \<Rightarrow> (op_error + sub_reply) \<times> garden" where
  "queue_v2_add_sub v args g = run_plan v (add_sub_plan v g args) g"

end
