(* ===== verification/Queue_Step.thy ===== *)
theory Queue_Step
  imports Queue_Ops Queue_Invariant
begin

text \<open>
  The effect of a write on the two queue files, whatever it answers, and the queue they store as
  an abstraction of the garden. A step changes the row of one id; every step keeps the validated
  form. The lemmas here carry the properties of the daemon operations.
\<close>

section \<open>Paths of the queue files\<close>

definition base_name :: "string \<Rightarrow> string" where
  "base_name p = last (split_on (CHR ''/'') p)"

lemma split_on_sep_append: "split_on c (a @ c # b) = split_on c a @ split_on c b"
  by (induction a) (auto split: list.splits)

lemma base_name_in_dir:
  assumes "canonical_rel (dir @ ''/'' @ name) = Some p"
    and "CHR ''/'' \<notin> set name" "name \<noteq> []" "name \<noteq> ''.''"
  shows "base_name p = name"
proof -
  have parts: "path_parts (dir @ ''/'' @ name) = path_parts dir @ [name]"
    using assms(2-4) by (simp add: path_parts_def split_on_sep_append split_on_word)
  have p: "p = join ''/'' (path_parts dir @ [name])"
    using assms(1) parts by (simp add: canonical_rel_def split: if_splits)
  have "split_on (CHR ''/'') p = path_parts dir @ [name]"
    unfolding p using assms(2) by (intro split_on_join) (auto dest: path_parts_ok)
  then show ?thesis by (simp add: base_name_def)
qed

definition toml_paths :: "string set" where
  "toml_paths = {queue_file, queue_archive_file}"

lemma toml_base: "p \<in> toml_paths \<Longrightarrow> base_name p \<in> {''queue.toml'', ''queue-archive.toml''}"
proof -
  have "base_name queue_file = ''queue.toml''" "base_name queue_archive_file = ''queue-archive.toml''"
    by code_simp+
  then show "p \<in> toml_paths \<Longrightarrow> ?thesis" by (auto simp: toml_paths_def)
qed

text \<open>A path that names neither queue file, whatever its directory.\<close>

definition off_queue :: "string \<Rightarrow> bool" where
  "off_queue rel \<longleftrightarrow> (\<exists>dir name. rel = dir @ ''/'' @ name \<and> CHR ''/'' \<notin> set name \<and>
     name \<notin> {[], ''.'', ''queue.toml'', ''queue-archive.toml''})"

lemma off_queue_path: "off_queue rel \<Longrightarrow> check_write v rel = Inr () \<Longrightarrow> at_path rel \<notin> toml_paths"
proof
  assume off: "off_queue rel" and ok: "check_write v rel = Inr ()" and t: "at_path rel \<in> toml_paths"
  obtain p where p: "canonical_rel rel = Some p" using ok by (auto simp: check_write_Inr)
  obtain dir name where n: "rel = dir @ ''/'' @ name" "CHR ''/'' \<notin> set name"
      "name \<notin> {[], ''.'', ''queue.toml'', ''queue-archive.toml''}"
    using off by (auto simp: off_queue_def)
  have "base_name p = name" using base_name_in_dir [of dir name p] p n by auto
  then show False using toml_base [OF t] n(3) p by (auto simp: at_path_def)
qed

lemma off_queueI:
  "CHR ''/'' \<notin> set name \<Longrightarrow> name \<notin> {[], ''.'', ''queue.toml'', ''queue-archive.toml''} \<Longrightarrow>
     off_queue (dir @ ''/'' @ name)"
  unfolding off_queue_def by blast

lemma at_queue [simp]: "at_path queue_file = queue_file" "at_path queue_archive_file = queue_archive_file"
  "canonical_rel queue_file = Some queue_file" "canonical_rel queue_archive_file = Some queue_archive_file"
  by code_simp+

lemma toml_distinct [simp]: "queue_file \<noteq> queue_archive_file" "queue_archive_file \<noteq> queue_file"
  by (simp_all add: queue_file_def queue_archive_file_def)

lemma off_slices_file: "off_queue (slices_file m)"
  unfolding slices_file_def using off_queueI [of "''slices.toml''" "milestone_path m"] by simp

lemma off_host: "off_queue (slices_view_host m)" "off_queue queue_view_host"
proof -
  show "off_queue (slices_view_host m)"
    unfolding slices_view_host_def using off_queueI [of "''CLAUDE.md''" "milestone_path m"] by simp
  have "queue_view_host = ''growlight/backlog'' @ ''/'' @ ''CLAUDE.md''"
    by (simp add: queue_view_host_def backlog_claude_def)
  then show "off_queue queue_view_host" using off_queueI [of "''CLAUDE.md''" "''growlight/backlog''"] by simp
qed

section \<open>What a write does to the files, whatever it answers\<close>

lemma write_views_effect:
  "write_views v ws g = (r, g') \<Longrightarrow>
     \<exists>ps. g' = g\<lparr>g_files := put_all ps (g_files g)\<rparr> \<and>
       fst ` set ps \<subseteq> (at_path \<circ> w_host) ` {w \<in> fst ` set ws. check_write v (w_host w) = Inr ()}"
proof (induction ws arbitrary: g)
  case Nil
  then show ?case by (intro exI [of _ "[]"]) auto
next
  case (Cons wh rest)
  obtain w host where wh: "wh = (w, host)" by force
  consider "write_views v rest g = (r, g')" | "g' = g"
    | c where "check_write v (w_host w) = Inr ()" "write_views v rest
        (g\<lparr>g_files := stage (at_path (w_host w)) c (g_files g)\<rparr>) = (r, g')"
    using Cons.prems by (auto simp: wh write_views_Cons simp del: write_views.simps(2)
        split: option.splits if_splits sum.splits)
  then show ?case
  proof cases
    case 1
    from Cons.IH [OF this] obtain ps where "g' = g\<lparr>g_files := put_all ps (g_files g)\<rparr>"
      "fst ` set ps \<subseteq> (at_path \<circ> w_host) ` {w \<in> fst ` set rest. check_write v (w_host w) = Inr ()}" by blast
    then show ?thesis by (intro exI [of _ ps]) auto
  next
    case 2
    then show ?thesis by (intro exI [of _ "[]"]) auto
  next
    case (3 c)
    from Cons.IH [OF 3(2)] obtain ps where
      "g' = g\<lparr>g_files := put_all ps (stage (at_path (w_host w)) c (g_files g))\<rparr>"
      "fst ` set ps \<subseteq> (at_path \<circ> w_host) ` {w \<in> fst ` set rest. check_write v (w_host w) = Inr ()}" by auto
    then show ?thesis using 3(1) by (intro exI [of _ "(at_path (w_host w), c) # ps"]) (auto simp: wh)
  qed
qed

lemma commit_now_files: "commit_now v intent g = (r, g') \<Longrightarrow> g_files g' = g_files g"
  by (auto simp: commit_now_def Let_def split: option.splits if_splits)

lemma apply_writes_effect:
  assumes "apply_writes v intent files views extras g = (r, g')"
  obtains (unchanged) e where "r = Inl e" "g' = g"
  | (staged) ps b where
      "list_all (\<lambda>f. check_write v (f_rel f) = Inr ()) (files @ x_writes extras)"
      "fst ` set ps \<subseteq> (at_path \<circ> w_host) ` {w \<in> set views. check_write v (w_host w) = Inr ()}"
      "b \<longrightarrow> x_refresh_backlinks extras"
      "g_files g' = (if b then v_backlinks v else id)
         (put_all (staged (files @ x_writes extras) @ ps) (g_files g))"
proof (cases "try_with (require_unlocked g) (\<lambda>_. try_with (check_files v (g_files g) (files @ x_writes extras))
       (\<lambda>_. read_hosts v (g_files g) (x_writes extras) views))")
  case (Inl e)
  with assms show thesis by (intro unchanged [of e]) (simp_all add: apply_writes_def)
next
  case (Inr hosts)
  then have cw: "list_all (\<lambda>f. check_write v (f_rel f) = Inr ()) files"
      "list_all (\<lambda>f. check_write v (f_rel f) = Inr ()) (x_writes extras)"
    using check_file_write by (auto simp: check_files_Inr list_all_iff res_simps)
  have "length hosts = length views" using Inr read_hosts_length by (auto simp: res_simps)
  then have fstz: "fst ` set (zip views hosts) = set views" by (metis list.set_map map_fst_zip)
  let ?g2 = "g\<lparr>g_files := put_all (staged (files @ x_writes extras)) (g_files g)\<rparr>"
  have run: "apply_writes v intent files views extras g =
      (case write_views v (zip views hosts) ?g2 of
         (Inl e, g3) \<Rightarrow> (Inl e, g3)
       | (Inr _, g3) \<Rightarrow> commit_now v intent (refresh_backlinks v (x_refresh_backlinks extras) g3))"
    using Inr by (simp add: apply_writes_def write_files_ok [OF cw(1)] write_files_ok [OF cw(2)])
  obtain r3 g3 where w: "write_views v (zip views hosts) ?g2 = (r3, g3)" by force
  from write_views_effect [OF w] obtain ps where
    ps: "g_files g3 = put_all (staged (files @ x_writes extras) @ ps) (g_files g)"
      "fst ` set ps \<subseteq> (at_path \<circ> w_host) ` {w \<in> set views. check_write v (w_host w) = Inr ()}"
    unfolding fstz by auto
  show thesis
  proof (cases r3)
    case (Inl e)
    then have "g' = g3" using assms run w by simp
    then show thesis using staged [of ps False] cw ps by simp
  next
    case (Inr u)
    then have "g_files g' = g_files (refresh_backlinks v (x_refresh_backlinks extras) g3)"
      using assms run w commit_now_files by fastforce
    then show thesis
      using staged [of ps "x_refresh_backlinks extras"] cw ps by (simp add: refresh_backlinks_def)
  qed
qed

section \<open>The stored queue\<close>

text \<open>
  What the bytes at the two paths say, without the checks of the loader: the abstraction of a
  garden to its queue and archive.
\<close>

definition stored_archive :: "env \<Rightarrow> files \<Rightarrow> queue_archive_toml option" where
  "stored_archive v fs =
     (case map_of fs queue_archive_file of
        None \<Rightarrow> Some (archive_new [])
      | Some (Utf8 t) \<Rightarrow> (case archive_parse (v_archive v) t of Inr a \<Rightarrow> Some a | Inl _ \<Rightarrow> None)
      | Some (Binary _) \<Rightarrow> None)"

definition stored_queue :: "env \<Rightarrow> files \<Rightarrow> (queue_toml \<times> queue_archive_toml) option" where
  "stored_queue v fs =
     (case map_of fs queue_file of
        Some (Utf8 s) \<Rightarrow>
          (case (queue_parse (v_queue v) s, stored_archive v fs) of
             (Inr q, Some a) \<Rightarrow> Some (q, a)
           | _ \<Rightarrow> None)
      | _ \<Rightarrow> None)"

lemma stored_cong:
  "(\<And>p. p \<in> toml_paths \<Longrightarrow> map_of fs p = map_of fs' p) \<Longrightarrow> stored_queue v fs = stored_queue v fs'"
proof -
  assume "\<And>p. p \<in> toml_paths \<Longrightarrow> map_of fs p = map_of fs' p"
  then have "map_of fs queue_file = map_of fs' queue_file"
    "map_of fs queue_archive_file = map_of fs' queue_archive_file" by (auto simp: toml_paths_def)
  then show ?thesis unfolding stored_queue_def stored_archive_def by presburger
qed

lemma read_if_unprotected_Some:
  "read_if_unprotected v fs rel = Some s \<Longrightarrow> wt_read fs rel = Some (Utf8 s)"
  by (auto simp: read_if_unprotected_def split: if_splits option.splits content.splits)

lemma read_file_Inr:
  "read_file v fs rel = Inr (Some s) \<Longrightarrow> wt_read fs rel = Some (Utf8 s)"
  "read_file v fs rel = Inr None \<Longrightarrow> \<not> wt_exists fs rel"
  by (auto simp: read_file_def res_simps ok_or_def read_if_unprotected_Some split: if_splits option.splits)

lemma not_exists_map_of: "\<not> wt_exists fs rel \<Longrightarrow> canonical_rel rel = Some p \<Longrightarrow> map_of fs p = None"
  by (auto simp: wt_exists_def list_ex_iff map_of_eq_None_iff)

lemma load_queue_stored:
  assumes "load_queue_state v fs = Inr (Some qs)"
  shows "stored_queue v fs = Some (l_model (qs_queue qs), l_model (qs_archive qs))"
    and "queue_ok (l_model (qs_queue qs)) (l_model (qs_archive qs))"
proof -
  obtain r where r: "read_file v fs queue_file = Inr r" and 1: "(case r of
       None \<Rightarrow> Inr None
     | Some s \<Rightarrow>
         try_with (map_err (V2InvalidToml queue_file) (queue_parse (v_queue v) s)) (\<lambda>q.
         try_with (read_file v fs queue_archive_file) (\<lambda>ra.
         try_with
           (case ra of
              Some t \<Rightarrow>
                try_with (map_err (V2InvalidToml queue_archive_file) (archive_parse (v_archive v) t)) (\<lambda>a.
                Inr \<lparr>l_model = a, l_version = Some (version_of v t)\<rparr>)
            | None \<Rightarrow> Inr \<lparr>l_model = archive_new [], l_version = None\<rparr>) (\<lambda>a.
         try_with (map_err (V2InvalidState queue_file) (validate q (l_model a))) (\<lambda>_.
         Inr (Some \<lparr>qs_queue = \<lparr>l_model = q, l_version = Some (version_of v s)\<rparr>,
                    qs_archive = a\<rparr>)))))) = Inr (Some qs)"
    using assms by (simp only: load_queue_state_def try_with_Inr) blast
  obtain s where rs: "r = Some s" using 1 by (cases r) simp_all
  note s = r [unfolded rs]
  from 1 [unfolded rs option.case try_with_Inr map_err_Inr] obtain q ra a where
    q': "queue_parse (v_queue v) s = Inr q" and ra: "read_file v fs queue_archive_file = Inr ra"
    and a: "(case ra of
              Some t \<Rightarrow>
                try_with (map_err (V2InvalidToml queue_archive_file) (archive_parse (v_archive v) t)) (\<lambda>a.
                Inr \<lparr>l_model = a, l_version = Some (version_of v t)\<rparr>)
            | None \<Rightarrow> Inr \<lparr>l_model = archive_new [], l_version = None\<rparr>) = Inr a"
    and ok': "validate q (l_model a) = Inr ()"
    and qs: "Some \<lparr>qs_queue = \<lparr>l_model = q, l_version = Some (version_of v s)\<rparr>, qs_archive = a\<rparr> = Some qs"
    by auto
  have q: "queue_parse (v_queue v) s = Inr (l_model (qs_queue qs))"
    and ok: "validate (l_model (qs_queue qs)) (l_model (qs_archive qs)) = Inr ()"
    and qa: "qs_archive qs = a"
    using q' ok' qs by auto
  have ar: "(\<exists>t. read_file v fs queue_archive_file = Inr (Some t) \<and>
        archive_parse (v_archive v) t = Inr (l_model (qs_archive qs))) \<or>
      (read_file v fs queue_archive_file = Inr None \<and> l_model (qs_archive qs) = archive_new [])"
    using ra a unfolding qa by (cases ra) (auto simp: res_simps)
  have "map_of fs queue_file = Some (Utf8 s)" using read_file_Inr(1) [OF s] by (simp add: wt_read_def)
  moreover have "stored_archive v fs = Some (l_model (qs_archive qs))"
    using ar read_file_Inr(1) [of v fs queue_archive_file] read_file_Inr(2) [of v fs queue_archive_file]
      not_exists_map_of [of fs queue_archive_file]
    by (auto simp: stored_archive_def wt_read_def)
  ultimately show "stored_queue v fs = Some (l_model (qs_queue qs), l_model (qs_archive qs))"
    using q by (simp add: stored_queue_def)
  show "queue_ok (l_model (qs_queue qs)) (l_model (qs_archive qs))" using ok validate_ok by simp
qed

lemma load_entry_row_Inr:
  assumes "load_entry_row v fs entry = Inr le"
  shows "stored_queue v fs = Some (le_queue le, le_archive le)" "queue_ok (le_queue le) (le_archive le)"
    and "le_idx le < length (q_entries (le_queue le))"
    and "e_id (q_entries (le_queue le) ! le_idx le) = row_id_of entry"
proof -
  obtain qs where qs: "load_queue_state v fs = Inr (Some qs)"
      "le_queue le = l_model (qs_queue qs)" "le_archive le = l_model (qs_archive qs)"
      "position (\<lambda>e. e_id e = row_id_of entry) (q_entries (le_queue le)) = Some (le_idx le)"
    using assms by (auto simp: load_entry_row_def Let_def res_simps map_err_def ok_or_def
        split: sum.splits option.splits)
  show "stored_queue v fs = Some (le_queue le, le_archive le)" "queue_ok (le_queue le) (le_archive le)"
    using load_queue_stored [OF qs(1)] qs(2,3) by simp_all
  show "le_idx le < length (q_entries (le_queue le))"
    "e_id (q_entries (le_queue le) ! le_idx le) = row_id_of entry"
    using position_Some [OF qs(4)] by simp_all
qed

section \<open>One step of the queue\<close>

text \<open>
  The changes the operations make to a queue and its archive, each on the row of one id: a claim,
  a status write, a close-out and a counter write.
\<close>

type_synonym queue_pair = "queue_toml \<times> queue_archive_toml"

inductive queue_step :: "string \<Rightarrow> queue_pair \<Rightarrow> queue_pair \<Rightarrow> bool" where
  claim: "i < length (q_entries q) \<Longrightarrow> e_id (q_entries q ! i) = r \<Longrightarrow>
     e_status (q_entries q ! i) = EQueued \<or> e_status (q_entries q ! i) = EPaused \<Longrightarrow>
     queue_step r (q, ar) (set_row q i ((q_entries q ! i)\<lparr>e_status := EActive\<rparr>), ar)"
| leave: "i < length (q_entries q) \<Longrightarrow> e_id (q_entries q ! i) = r \<Longrightarrow>
     e_status (q_entries q ! i) = EActive \<Longrightarrow>
     queue_step r (q, ar)
       (set_row q i ((q_entries q ! i)\<lparr>e_pending_status := None, e_status := st\<rparr>), ar)"
| finish: "i < length (q_entries q) \<Longrightarrow> e_id (q_entries q ! i) = r \<Longrightarrow>
     e_status (q_entries q ! i) = EActive \<Longrightarrow>
     queue_step r (q, ar)
       (q\<lparr>q_entries := remove_at i (q_entries q)\<rparr>,
        ar\<lparr>a_entries := a_entries ar @ [\<lparr>a_row = (q_entries q ! i)\<lparr>e_pending_status := None\<rparr>,
          a_finished = t, a_final_status = FDone, a_reason = None\<rparr>]\<rparr>)"
| count: "i < length (q_entries q) \<Longrightarrow> e_id (q_entries q ! i) = r \<Longrightarrow>
     queue_step r (q, ar) (set_row q i ((q_entries q ! i)\<lparr>e_follow_ups := n\<rparr>), ar)"

inductive_cases queue_stepE: "queue_step r (q, ar) (q', ar')"

text \<open>What a row keeps when its file is rewritten around it.\<close>

definition same_row :: "entry \<Rightarrow> entry \<Rightarrow> bool" where
  "same_row a b \<longleftrightarrow> e_id a = e_id b \<and> e_kind a = e_kind b \<and> e_lane a = e_lane b \<and>
     e_after a = e_after b \<and> e_project a = e_project b"

lemma same_row_updates [simp]:
  "same_row (e\<lparr>e_status := st\<rparr>) e"
  "same_row (e\<lparr>e_pending_status := p, e_status := st\<rparr>) e"
  "same_row (e\<lparr>e_follow_ups := n\<rparr>) e"
  by (simp_all add: same_row_def)

lemma set_row_simps [simp]:
  "q_entries (set_row q i row) = (q_entries q)[i := row]"
  "q_projects (set_row q i row) = q_projects q" "q_schema (set_row q i row) = q_schema q"
  by (simp_all add: set_row_def)

lemma map_update_same: "i < length xs \<Longrightarrow> f y = f (xs ! i) \<Longrightarrow> map f (xs[i := y]) = map f xs"
  by (metis list_update_id map_update nth_map)

lemma set_update_members:
  assumes "i < length xs" "x \<in> set (xs[i := y])"
  shows "x = y \<or> x \<in> set xs"
  using assms set_update_subset_insert by fastforce

lemma sorted_wrt_update:
  assumes "i < length xs" "\<And>a. P a y \<longleftrightarrow> P a (xs ! i)" "\<And>a. P y a \<longleftrightarrow> P (xs ! i) a"
    and "sorted_wrt P xs"
  shows "sorted_wrt P (xs[i := y])"
  using assms by (auto simp: sorted_wrt_iff_nth_less nth_list_update)

lemma sorted_wrt_skip: "sorted_wrt P (xs @ x # ys) \<Longrightarrow> sorted_wrt P (xs @ ys)"
  by (auto simp: sorted_wrt_append)

lemma after_linksI: "e \<in> set es \<Longrightarrow> l \<in> set (e_after e) \<Longrightarrow> i = e_id e \<Longrightarrow> (i, l) \<in> after_links es"
  by (auto simp: after_links_def)

lemma held_update:
  assumes "i < length es" "same_row row (es ! i)" "holds_repo row \<Longrightarrow> holds_repo (es ! i)"
    and "distinct (held_repos m es)"
  shows "distinct (held_repos m (es[i := row]))"
proof -
  have split: "es = take i es @ es ! i # drop (Suc i) es" using assms(1) by (rule id_take_nth_drop)
  have upd: "es[i := row] = take i es @ row # drop (Suc i) es" using assms(1) by (rule upd_conv_take_nth_drop)
  have p: "e_project row = e_project (es ! i)" using assms(2) by (simp add: same_row_def)
  have "distinct (held_repos m (take i es @ es ! i # drop (Suc i) es))" using assms(4) split by simp
  then show ?thesis
    unfolding upd using assms(3) by (auto simp: held_repos_def p split: if_splits)
qed

lemma queue_ok_update:
  assumes ok: "queue_ok q ar" and i: "i < length (q_entries q)" and same: "same_row row (q_entries q ! i)"
    and held: "distinct (held_repos (repo_map (q_projects q)) ((q_entries q)[i := row]))"
  shows "queue_ok (set_row q i row) ar"
proof -
  let ?es = "q_entries q" and ?es' = "(q_entries q)[i := row]"
  note s = same [unfolded same_row_def]
  have mem: "\<exists>e' \<in> set ?es. same_row e e'" if "e \<in> set ?es'" for e
    using set_update_members [OF i that] same i by (auto intro: nth_mem simp: same_row_def)
  have mem': "\<exists>e' \<in> set ?es'. same_row e' e" if e: "e \<in> set ?es" for e
  proof -
    obtain j where j: "j < length ?es" "?es ! j = e" using e unfolding in_set_conv_nth by blast
    have "?es' ! j \<in> set ?es'" using j by simp
    moreover have "same_row (?es' ! j) e" using same j by (cases "j = i") (auto simp: same_row_def)
    ultimately show ?thesis by blast
  qed
  have ids: "map e_id ?es' = map e_id ?es" using i s by (intro map_update_same) auto
  then have idset: "e_id ` set ?es' = e_id ` set ?es" by (metis list.set_map)
  have links: "after_links ?es' = after_links ?es"
  proof
    show "after_links ?es' \<subseteq> after_links ?es"
    proof
      fix l assume "l \<in> after_links ?es'"
      then obtain e k where e: "l = (e_id e, k)" "e \<in> set ?es'" "k \<in> set (e_after e)"
        by (auto simp: after_links_def)
      from mem [OF e(2)] obtain e' where "e' \<in> set ?es" "e_id e' = e_id e" "e_after e' = e_after e"
        by (auto simp: same_row_def)
      then show "l \<in> after_links ?es" using e by (auto intro: after_linksI)
    qed
    show "after_links ?es \<subseteq> after_links ?es'"
    proof
      fix l assume "l \<in> after_links ?es"
      then obtain e k where e: "l = (e_id e, k)" "e \<in> set ?es" "k \<in> set (e_after e)"
        by (auto simp: after_links_def)
      from mem' [OF e(2)] obtain e' where "e' \<in> set ?es'" "e_id e' = e_id e" "e_after e' = e_after e"
        by (auto simp: same_row_def)
      then show "l \<in> after_links ?es'" using e by (auto intro: after_linksI)
    qed
  qed
  have "restacks_urgent ?es'"
    using ok mem unfolding queue_ok_def restacks_urgent_def same_row_def by metis
  moreover have "lanes_ordered ?es'"
    using ok s i unfolding queue_ok_def lanes_ordered_def by (intro sorted_wrt_update) auto
  moreover have "distinct (queue_ids (set_row q i row) ar)"
    using ok ids by (simp add: queue_ok_def queue_ids_def)
  moreover have "links_resolve (set_row q i row) ar"
    using ok mem idset by (fastforce simp: queue_ok_def links_resolve_def same_row_def)
  moreover have "projects_exist (set_row q i row)"
    using ok mem by (fastforce simp: queue_ok_def projects_exist_def same_row_def)
  ultimately show ?thesis using ok held links by (simp add: queue_ok_def)
qed

lemma queue_ok_settle:
  assumes "queue_ok q ar" "i < length (q_entries q)" "same_row row (q_entries q ! i)"
    and "holds_repo row \<Longrightarrow> holds_repo (q_entries q ! i)"
  shows "queue_ok (set_row q i row) ar"
  using assms held_update [OF assms(2-4)] by (intro queue_ok_update) (auto simp: queue_ok_def)

lemma queue_ok_close:
  assumes ok: "queue_ok q ar" and i: "i < length (q_entries q)"
    and row: "e_id (a_row a) = e_id (q_entries q ! i)" "a_final_status a = FDone"
  shows "queue_ok (q\<lparr>q_entries := remove_at i (q_entries q)\<rparr>) (ar\<lparr>a_entries := a_entries ar @ [a]\<rparr>)"
proof -
  define pre post x where "pre = take i (q_entries q)" "post = drop (Suc i) (q_entries q)" "x = q_entries q ! i"
  note defs = this
  have es: "q_entries q = pre @ x # post" unfolding defs by (rule remove_at_split [OF i])
  have es': "remove_at i (q_entries q) = pre @ post" by (simp add: remove_at_def defs)
  have idx: "e_id (a_row a) = e_id x" using row(1) by (simp add: defs)
  let ?q = "q\<lparr>q_entries := pre @ post\<rparr>" and ?ar = "ar\<lparr>a_entries := a_entries ar @ [a]\<rparr>"
  note ok = ok [unfolded queue_ok_def es]
  have "restacks_urgent (pre @ post)" using ok by (simp add: restacks_urgent_def)
  moreover have "lanes_ordered (pre @ x # post)" using ok by simp
  then have "lanes_ordered (pre @ post)" unfolding lanes_ordered_def by (rule sorted_wrt_skip)
  moreover have "distinct (queue_ids ?q ?ar)" using ok idx by (auto simp: queue_ids_def es)
  moreover have "links_resolve ?q ?ar"
  proof -
    have d: "done_ids ?ar = insert (e_id x) (done_ids ar)" using row idx by (simp add: done_ids_def)
    have "set (e_after e) \<subseteq> e_id ` set (pre @ x # post) \<union> done_ids ar" if "e \<in> set (pre @ post)" for e
      using ok that by (simp add: links_resolve_def es)
    then show ?thesis unfolding links_resolve_def d by fastforce
  qed
  moreover have "acyclic (after_links (pre @ post))"
  proof -
    have "after_links (pre @ post) \<subseteq> after_links (pre @ x # post)" by (auto simp: after_links_def)
    then show ?thesis using ok acyclic_subset by blast
  qed
  moreover have "projects_exist ?q" using ok by (simp add: projects_exist_def es)
  moreover have "distinct (held_repos (repo_map (q_projects q)) (pre @ post))"
    using ok by (auto simp: held_repos_def split: if_splits)
  ultimately show ?thesis unfolding es' queue_ok_def by simp
qed

section \<open>What the code relies on\<close>

text \<open>
  The TOML crate reads back what it printed, and the backlink refresh rewrites markdown
  documents only, so it keeps the two queue files.
\<close>

definition env_ok :: "env \<Rightarrow> bool" where
  "env_ok v \<longleftrightarrow> codec_round_trips (v_queue v) \<and> codec_round_trips (v_archive v) \<and>
     (\<forall>fs. \<forall>p \<in> toml_paths. map_of (v_backlinks v fs) p = map_of fs p)"

section \<open>Steps keep the validated form\<close>

lemma queue_step_ok:
  assumes "queue_step r p p'" "p = (q, ar)" "queue_ok q ar"
    and "\<And>i. i < length (q_entries q) \<Longrightarrow> e_id (q_entries q ! i) = r \<Longrightarrow>
      e_status (q_entries q ! i) = EQueued \<or> e_status (q_entries q ! i) = EPaused \<Longrightarrow>
      queue_ok (set_row q i ((q_entries q ! i)\<lparr>e_status := EActive\<rparr>)) ar"
  shows "queue_ok (fst p') (snd p')"
  using assms(1)
proof cases
  case (claim i q1 ar1)
  then show ?thesis using assms by simp
next
  case (leave i q1 ar1 st)
  then show ?thesis
    using assms(2,3) by (auto intro!: queue_ok_settle simp: holds_repo_def is_started_def)
next
  case (finish i q1 ar1 t)
  then show ?thesis using assms by (simp add: queue_ok_close)
next
  case (count i q1 ar1 n)
  then show ?thesis
    using assms(2,3) by (auto intro!: queue_ok_settle simp: holds_repo_def)
qed

section \<open>From plans to stored queues\<close>

lemma run_plan_cases:
  assumes "run_plan v m g = (r, g')"
  obtains (unchanged) "g' = g"
  | (wrote) reply i ws vs x r' where "m = Inr (reply, Write i ws vs x)" "apply_writes v i ws vs x g = (r', g')"
proof (cases m)
  case (Inl e)
  then show thesis using assms unchanged by (simp add: run_plan_def)
next
  case (Inr rp)
  obtain reply p where rp: "rp = (reply, p)" by force
  show thesis
  proof (cases p)
    case Keep
    then show thesis using assms unchanged Inr rp by (simp add: run_plan_def)
  next
    case (Write i ws vs x)
    obtain r' g1 where a: "apply_writes v i ws vs x g = (r', g1)" by force
    then have "g1 = g'" using assms Inr rp Write by (simp add: run_plan_def split: sum.splits)
    with a show thesis using wrote Inr rp Write by blast
  qed
qed

abbreviation offs :: "file_write list \<Rightarrow> bool" where
  "offs ws \<equiv> list_all (\<lambda>f. off_queue (f_rel f)) ws"

lemma offs_paths:
  "offs ws \<Longrightarrow> list_all (\<lambda>f. check_write v (f_rel f) = Inr ()) ws \<Longrightarrow>
     fst ` set (staged ws) \<inter> toml_paths = {}"
  by (induction ws) (auto dest: off_queue_path)

lemma toml_effect:
  assumes "apply_writes v i ws vs x g = (r, g')" "env_ok v"
    and "list_all (\<lambda>w. off_queue (w_host w)) vs" "offs (x_writes x)"
  obtains (unchanged) e where "r = Inl e" "g' = g"
  | (staged) "list_all (\<lambda>f. check_write v (f_rel f) = Inr ()) ws"
      "\<And>p. p \<in> toml_paths \<Longrightarrow> map_of (g_files g') p = map_of (put_all (staged ws) (g_files g)) p"
  using assms(1)
proof (cases rule: apply_writes_effect)
  case unchanged
  then show thesis by (rule that(1))
next
  case (staged ps b)
  have cw: "list_all (\<lambda>f. check_write v (f_rel f) = Inr ()) ws"
      "list_all (\<lambda>f. check_write v (f_rel f) = Inr ()) (x_writes x)" using staged(1) by simp_all
  have ps: "k \<notin> toml_paths" if k: "k \<in> fst ` set ps" for k
  proof -
    from k staged(2) have "k \<in> (at_path \<circ> w_host) ` {w \<in> set vs. check_write v (w_host w) = Inr ()}" by (rule set_rev_mp)
    then obtain w where w: "k = at_path (w_host w)" "w \<in> set vs" "check_write v (w_host w) = Inr ()" by auto
    have "off_queue (w_host w)" using assms(3) w(2) by (simp add: list_all_iff)
    from off_queue_path [OF this w(3)] show ?thesis unfolding w(1) .
  qed
  show thesis
  proof (rule that(2) [OF cw(1)])
    fix p assume p: "p \<in> toml_paths"
    have "p \<notin> fst ` set (staged (x_writes x) @ ps)"
      using p ps [of p] offs_paths [OF assms(4) cw(2)] by auto
    from overlay.get_puts_other [OF this]
    have e: "map_of (put_all (staged (x_writes x) @ ps) fs) p = map_of fs p" for fs .
    have "map_of (g_files g') p = map_of (put_all (staged (ws @ x_writes x) @ ps) (g_files g)) p"
      using staged(4) assms(2) p by (simp add: env_ok_def)
    also have "\<dots> = map_of (put_all (staged (x_writes x) @ ps) (put_all (staged ws) (g_files g))) p"
      by simp
    finally show "map_of (g_files g') p = map_of (put_all (staged ws) (g_files g)) p" using e by simp
  qed
qed

text \<open>What the files of a plan do to the stored queue.\<close>

definition writes_queue :: "env \<Rightarrow> file_write list \<Rightarrow> queue_pair \<Rightarrow> queue_pair \<Rightarrow> bool" where
  "writes_queue v ws p p' \<longleftrightarrow>
     (\<exists>version fq rest. queue_write v (fst p') version = Inr fq \<and> offs rest \<and>
        ((ws = fq # rest \<and> snd p' = snd p) \<or>
         (\<exists>version' fa. archive_write v (snd p') version' = Inr fa \<and> (ws = [fa, fq] \<or> ws = [fq, fa]))))"

lemma queue_write_Inr:
  "queue_write v q version = Inr f \<longleftrightarrow> (\<exists>b. queue_to_toml (v_queue v) q = Inr b \<and>
     f = \<lparr>f_rel = queue_file, f_expected = version, f_bytes = b\<rparr>)"
  by (auto simp: queue_write_def res_simps)

lemma archive_write_Inr:
  "archive_write v q version = Inr f \<longleftrightarrow> (\<exists>b. archive_to_toml (v_archive v) q = Inr b \<and>
     f = \<lparr>f_rel = queue_archive_file, f_expected = version, f_bytes = b\<rparr>)"
  by (auto simp: archive_write_def res_simps)

lemma queue_reads_back:
  "env_ok v \<Longrightarrow> queue_to_toml (v_queue v) q = Inr b \<Longrightarrow> queue_parse (v_queue v) b = Inr q"
  unfolding env_ok_def codec_defs by (blast intro: parse_printed_file)

lemma archive_reads_back:
  "env_ok v \<Longrightarrow> archive_to_toml (v_archive v) q = Inr b \<Longrightarrow> archive_parse (v_archive v) b = Inr q"
  unfolding env_ok_def codec_defs by (blast intro: parse_printed_file)

lemma stored_after_write:
  assumes "env_ok v" "stored_queue v fs = Some p" "writes_queue v ws p p'"
    and "list_all (\<lambda>f. check_write v (f_rel f) = Inr ()) ws"
    and "\<And>k. k \<in> toml_paths \<Longrightarrow> map_of fs' k = map_of (put_all (staged ws) fs) k"
  shows "stored_queue v fs' = Some p'"
proof -
  have fs': "stored_queue v fs' = stored_queue v (put_all (staged ws) fs)" by (rule stored_cong [OF assms(5)])
  have old: "stored_archive v fs = Some (snd p)"
    using assms(2) by (auto simp: stored_queue_def split: option.splits content.splits sum.splits)
  obtain version fq rest where w: "queue_write v (fst p') version = Inr fq" "offs rest"
    "(ws = fq # rest \<and> snd p' = snd p) \<or>
      (\<exists>version' fa. archive_write v (snd p') version' = Inr fa \<and> (ws = [fa, fq] \<or> ws = [fq, fa]))"
    using assms(3) unfolding writes_queue_def by blast
  obtain b where b: "queue_to_toml (v_queue v) (fst p') = Inr b" "f_rel fq = queue_file" "f_bytes fq = b"
    using w(1) by (auto simp: queue_write_Inr)
  note q = queue_reads_back [OF assms(1) b(1)]
  from w(3) show ?thesis
  proof
    assume ws: "ws = fq # rest \<and> snd p' = snd p"
    have off: "k \<notin> fst ` set (staged rest)" if "k \<in> toml_paths" for k
      using offs_paths [OF w(2), of v] assms(4) ws that by auto
    have "map_of (put_all (staged ws) fs) k = map_of (stage queue_file (Utf8 b) fs) k"
      if "k \<in> toml_paths" for k
      using overlay.get_puts_other [OF off [OF that]] ws b by simp
    then have "stored_queue v fs' = stored_queue v (stage queue_file (Utf8 b) fs)"
      unfolding fs' by (rule stored_cong)
    also have "\<dots> = Some p'"
      using q old ws by (simp add: stored_queue_def stored_archive_def overlay.get_put prod_eq_iff)
    finally show ?thesis .
  next
    assume "\<exists>version' fa. archive_write v (snd p') version' = Inr fa \<and> (ws = [fa, fq] \<or> ws = [fq, fa])"
    then obtain version' fa where fa: "archive_write v (snd p') version' = Inr fa" "ws = [fa, fq] \<or> ws = [fq, fa]" by blast
    obtain c where c: "archive_to_toml (v_archive v) (snd p') = Inr c" "f_rel fa = queue_archive_file" "f_bytes fa = c"
      using fa(1) by (auto simp: archive_write_Inr)
    show ?thesis
      using fa(2)
    proof
      assume "ws = [fa, fq]"
      then show ?thesis
        using q archive_reads_back [OF assms(1) c(1)] c(2,3) b(2,3)
        unfolding fs' by (simp add: stored_queue_def stored_archive_def overlay.get_put)
    next
      assume "ws = [fq, fa]"
      then show ?thesis
        using q archive_reads_back [OF assms(1) c(1)] c(2,3) b(2,3)
        unfolding fs' by (simp add: stored_queue_def stored_archive_def overlay.get_put)
    qed
  qed
qed

text \<open>
  A plan is sound for a relation when every write of it leaves the stored queue or moves it along
  the relation, to a queue that is valid again.
\<close>

definition sound_write ::
  "env \<Rightarrow> files \<Rightarrow> (queue_pair \<Rightarrow> queue_pair \<Rightarrow> bool) \<Rightarrow> file_write list \<Rightarrow> view_write list \<Rightarrow>
     extra_writes \<Rightarrow> bool" where
  "sound_write v fs R ws vs x \<longleftrightarrow>
     list_all (\<lambda>w. off_queue (w_host w)) vs \<and> offs (x_writes x) \<and>
     (offs ws \<or> (\<exists>p p'. stored_queue v fs = Some p \<and> queue_ok (fst p) (snd p) \<and>
        R p p' \<and> queue_ok (fst p') (snd p') \<and> writes_queue v ws p p'))"

definition sound_plan ::
  "env \<Rightarrow> files \<Rightarrow> (queue_pair \<Rightarrow> queue_pair \<Rightarrow> bool) \<Rightarrow> op_error + ('r \<times> plan) \<Rightarrow> bool" where
  "sound_plan v fs R m \<longleftrightarrow>
     (\<forall>reply i ws vs x. m = Inr (reply, Write i ws vs x) \<longrightarrow> sound_write v fs R ws vs x)"

lemma sound_plan_run:
  assumes "env_ok v" "sound_plan v (g_files g) R m" "run_plan v m g = (res, g')"
  obtains (same) "stored_queue v (g_files g') = stored_queue v (g_files g)"
  | (step) p p' where "stored_queue v (g_files g) = Some p" "queue_ok (fst p) (snd p)"
      "R p p'" "stored_queue v (g_files g') = Some p'" "queue_ok (fst p') (snd p')"
  using assms(3)
proof (cases rule: run_plan_cases)
  case unchanged
  then show thesis using same by simp
next
  case (wrote reply i ws vs x r')
  note s = assms(2) [unfolded sound_plan_def, rule_format, OF wrote(1), unfolded sound_write_def]
  have o: "list_all (\<lambda>w. off_queue (w_host w)) vs" "offs (x_writes x)" using s by simp_all
  from wrote(2) assms(1) o show thesis
  proof (cases rule: toml_effect)
    case unchanged
    then show thesis using same by simp
  next
    case staged
    show thesis
    proof (cases "offs ws")
      case True
      have "map_of (g_files g') k = map_of (g_files g) k" if k: "k \<in> toml_paths" for k
      proof -
        have "k \<notin> fst ` set (staged ws)" using offs_paths [OF True staged(1)] k by auto
        from overlay.get_puts_other [OF this] show ?thesis using staged(2) [OF k] by simp
      qed
      then show thesis by (intro same stored_cong)
    next
      case False
      then obtain p p' where p: "stored_queue v (g_files g) = Some p" "queue_ok (fst p) (snd p)"
        "R p p'" "queue_ok (fst p') (snd p')" "writes_queue v ws p p'" using s by blast
      show thesis
        by (rule step [OF p(1,2,3) _ p(4)]) (rule stored_after_write [OF assms(1) p(1,5) staged])
    qed
  qed
qed

end
