(* ===== verification/Machine.thy ===== *)
theory Machine
  imports Main
begin

text \<open>
  State machines, as the contracts of every component whose operations run in any order. An
  invariant kept by each step carries over to runs; an abstraction that every step leaves alone or
  moves by a step of its own carries runs to runs.
\<close>

locale machine =
  fixes step :: "'s \<Rightarrow> 's \<Rightarrow> bool" and good :: "'s \<Rightarrow> bool"
  assumes step_good: "step s s' \<Longrightarrow> good s \<Longrightarrow> good s'"
begin

lemma run_good: "step\<^sup>*\<^sup>* s s' \<Longrightarrow> good s \<Longrightarrow> good s'"
  by (induction rule: rtranclp_induct) (auto dest: step_good)

end

locale refined = machine +
  fixes view :: "'s \<Rightarrow> 'a" and astep :: "'a \<Rightarrow> 'a \<Rightarrow> bool"
  assumes step_view: "step s s' \<Longrightarrow> good s \<Longrightarrow> view s' = view s \<or> astep (view s) (view s')"
begin

lemma run_refines: "step\<^sup>*\<^sup>* s s' \<Longrightarrow> good s \<Longrightarrow> astep\<^sup>*\<^sup>* (view s) (view s')"
proof (induction rule: rtranclp_induct)
  case (step y z)
  then have "good y" using run_good by blast
  with step_view [OF step(2)] step show ?case by (metis rtranclp.rtrancl_into_rtrancl)
qed simp

lemma run_fixes:
  assumes "step\<^sup>*\<^sup>* s s'" "good s" "P (view s)" "\<And>a a'. astep a a' \<Longrightarrow> P a \<Longrightarrow> P a'"
  shows "P (view s')"
proof -
  have "astep\<^sup>*\<^sup>* (view s) (view s')" using assms(1,2) by (rule run_refines)
  then show ?thesis by (induction rule: rtranclp_induct) (use assms(3,4) in auto)
qed

end

end
