(* ===== verification/Queue_Ops_Props.thy ===== *)
theory Queue_Ops_Props
  imports Queue_Step V2_Source_Props Machine
begin

text \<open>
  What the daemon operations guarantee. Each plan either leaves the two queue files alone or makes
  one queue step, so the daemon is a machine that keeps the queue valid and refines the life cycle
  of the entries. The last sections tie the operations to the scheduler: a claim that finds the repo
  free keeps the queue valid, and a split hands the turn to the new sub-milestone.
\<close>

section \<open>The plans of the operations\<close>

lemma slices_write_Inr:
  "slices_write v m s version = Inr f \<longleftrightarrow> (\<exists>b. slices_to_toml (v_slices v) s = Inr b \<and>
     f = \<lparr>f_rel = slices_file m, f_expected = version, f_bytes = b\<rparr>)"
  by (auto simp: slices_write_def res_simps)

lemma off_views [simp]:
  "off_queue (w_host (queue_view_write q))" "off_queue (w_host (slices_view_write m s))"
  by (simp_all add: queue_view_write_def slices_view_write_def off_host)

lemma off_slices_write: "slices_write v m s version = Inr f \<Longrightarrow> off_queue (f_rel f)"
  by (auto simp: slices_write_Inr off_slices_file)

lemma no_extra_writes [simp]: "x_writes no_extras = []"
  by (simp add: no_extras_def)

lemma sound_planI:
  "(\<And>reply i ws vs x. m = Inr (reply, Write i ws vs x) \<Longrightarrow> sound_write v fs R ws vs x) \<Longrightarrow> sound_plan v fs R m"
  unfolding sound_plan_def by blast

lemma sound_docs:
  "list_all (\<lambda>w. off_queue (w_host w)) vs \<Longrightarrow> offs (x_writes x) \<Longrightarrow> offs ws \<Longrightarrow> sound_write v fs R ws vs x"
  by (simp add: sound_write_def)

lemma sound_queue:
  assumes "list_all (\<lambda>w. off_queue (w_host w)) vs" "offs (x_writes x)" "stored_queue v fs = Some (q, ar)"
    and "queue_ok q ar" "R (q, ar) (q', ar')" "queue_ok q' ar'" "writes_queue v ws (q, ar) (q', ar')"
  shows "sound_write v fs R ws vs x"
  using assms unfolding sound_write_def by (metis fst_conv snd_conv)

lemma sound_after: "sound_plan v fs R m \<Longrightarrow> sound_plan v fs R (try_with (t :: op_error + unit) (\<lambda>_. m))"
  by (cases t) (simp_all add: sound_plan_def)

lemma writes_row:
  "queue_write v q version = Inr f \<Longrightarrow> offs rest \<Longrightarrow> writes_queue v (f # rest) (q0, ar) (q, ar)"
  unfolding writes_queue_def by auto

text \<open>
  The status write and the counter of a slice item, the session log and the deferred section
  write documents and slices only.
\<close>

lemma set_slice_sound: "sound_plan v fs R (set_slice_plan v g args unit)"
proof (rule sound_planI)
  fix reply i ws vs x assume "set_slice_plan v g args unit = Inr (reply, Write i ws vs x)"
  then obtain f s version where f: "slices_write v (ss_entry args) s version = Inr f" "ws = [f]"
      "vs = [slices_view_write (ss_entry args) s]" "x = no_extras"
    by (auto simp: set_slice_plan_def Let_def res_simps)
  then show "sound_write v fs R ws vs x"
    using off_slices_write [OF f(1)] by (simp add: sound_write_def)
qed

lemma set_entry_sound: "sound_plan v (g_files g) (queue_step (row_id_of (ss_entry args))) (set_entry_plan v g args)"
proof (rule sound_planI)
  let ?r = "row_id_of (ss_entry args)"
  fix reply k ws vs x assume a: "set_entry_plan v g args = Inr (reply, Write k ws vs x)"
  then obtain le where le: "load_entry_row v (g_files g) (ss_entry args) = Inr le"
    by (auto simp: set_entry_plan_def res_simps)
  let ?q = "le_queue le" and ?ar = "le_archive le" and ?i = "le_idx le"
  let ?row = "q_entries ?q ! ?i"
  note row = load_entry_row_Inr [OF le]
  have act: "e_status ?row = EActive"
    using a le by (auto simp: set_entry_plan_def res_simps Let_def)
  obtain q' ar' version f where w: "validate q' ar' = Inr ()" "queue_write v q' version = Inr f"
      "vs = [queue_view_write q']" "x = no_extras"
    and c: "(\<exists>st. q' = set_row ?q ?i (?row\<lparr>e_pending_status := None, e_status := st\<rparr>) \<and> ar' = ?ar \<and> ws = [f]) \<or>
      (\<exists>fa v'. q' = ?q\<lparr>q_entries := remove_at ?i (q_entries ?q)\<rparr> \<and>
        ar' = ?ar\<lparr>a_entries := a_entries ?ar @ [\<lparr>a_row = ?row\<lparr>e_pending_status := None\<rparr>,
          a_finished = v_now v, a_final_status = FDone, a_reason = None\<rparr>]\<rparr> \<and>
        archive_write v ar' v' = Inr fa \<and> ws = [fa, f])"
  proof (cases "entry_status_of (ss_new args)")
    case None
    let ?q1 = "?q\<lparr>q_entries := remove_at ?i (q_entries ?q)\<rparr>"
    let ?ar1 = "?ar\<lparr>a_entries := a_entries ?ar @ [\<lparr>a_row = ?row\<lparr>e_pending_status := None\<rparr>,
          a_finished = v_now v, a_final_status = FDone, a_reason = None\<rparr>]\<rparr>"
    obtain fa f where "validate ?q1 ?ar1 = Inr ()" "queue_write v ?q1 (le_queue_version le) = Inr f"
        "archive_write v ?ar1 (le_archive_version le) = Inr fa" "ws = [fa, f]"
        "vs = [queue_view_write ?q1]" "x = no_extras"
      using a le None by (auto simp: set_entry_plan_def res_simps Let_def)
    then show thesis by (intro that [of ?q1 ?ar1 "le_queue_version le" f]) auto
  next
    case (Some st)
    let ?q1 = "set_row ?q ?i (?row\<lparr>e_pending_status := None,
      e_status := applied_status (e_pending_status ?row) st\<rparr>)"
    obtain f where "validate ?q1 ?ar = Inr ()" "queue_write v ?q1 (le_queue_version le) = Inr f"
        "ws = [f]" "vs = [queue_view_write ?q1]" "x = no_extras"
      using a le Some by (auto simp: set_entry_plan_def res_simps Let_def split: if_splits)
    then show thesis by (intro that [of ?q1 ?ar "le_queue_version le" f]) auto
  qed
  have "queue_step ?r (?q, ?ar) (q', ar')"
    using c row(3,4) act by (auto intro: queue_step.leave queue_step.finish)
  moreover have "queue_ok q' ar'" using w(1) validate_ok by simp
  moreover have "writes_queue v ws (?q, ?ar) (q', ar')"
    using c
  proof (elim disjE exE conjE)
    fix st assume "ar' = ?ar" "ws = [f]"
    then show ?thesis using writes_row [OF w(2), of "[]"] by simp
  next
    fix fa v' assume "archive_write v ar' v' = Inr fa" "ws = [fa, f]"
    then show ?thesis
      using w(2) unfolding writes_queue_def
      by (intro exI [of _ version] exI [of _ f] exI [of _ "[]"]) auto
  qed
  ultimately show "sound_write v (g_files g) (queue_step ?r) ws vs x"
    using w(3,4) by (intro sound_queue [OF _ _ row(1,2)]) simp_all
qed

lemma set_status_sound: "sound_plan v (g_files g) (queue_step (row_id_of (ss_entry args))) (set_status_plan v g args)"
  unfolding set_status_plan_def
  by (intro sound_after) (auto split: option.splits intro: set_slice_sound set_entry_sound)

lemma follow_ups_sound: "sound_plan v (g_files g) (queue_step (row_id_of (fu_entry args))) (follow_ups_plan v g args)"
proof (rule sound_planI)
  let ?r = "row_id_of (fu_entry args)"
  fix reply k ws vs x assume a: "follow_ups_plan v g args = Inr (reply, Write k ws vs x)"
  show "sound_write v (g_files g) (queue_step ?r) ws vs x"
  proof (cases "fu_unit args")
    case (Some unit)
    with a obtain f s version where f: "slices_write v (fu_entry args) s version = Inr f" "ws = [f]"
        "vs = [slices_view_write (fu_entry args) s]" "x = no_extras"
      by (auto simp: follow_ups_plan_def Let_def res_simps split: if_splits)
    then show ?thesis using off_slices_write [OF f(1)] by (simp add: sound_write_def)
  next
    case None
    with a obtain le where le: "load_entry_row v (g_files g) (fu_entry args) = Inr le"
      by (auto simp: follow_ups_plan_def res_simps Let_def)
    let ?q = "le_queue le" and ?i = "le_idx le"
    let ?q1 = "set_row ?q ?i ((q_entries ?q ! ?i)\<lparr>e_follow_ups := fu_count args\<rparr>)"
    note row = load_entry_row_Inr [OF le]
    obtain f where f: "validate ?q1 (le_archive le) = Inr ()" "queue_write v ?q1 (le_queue_version le) = Inr f"
        "ws = [f]" "vs = [queue_view_write ?q1]" "x = no_extras"
      using a le None by (auto simp: follow_ups_plan_def res_simps Let_def split: if_splits)
    have "queue_step ?r (?q, le_archive le) (?q1, le_archive le)"
      using row(3,4) by (rule queue_step.count)
    moreover have "queue_ok ?q1 (le_archive le)" using f(1) validate_ok by simp
    moreover have "writes_queue v ws (?q, le_archive le) (?q1, le_archive le)"
      unfolding f(3) by (rule writes_row [OF f(2)]) simp
    ultimately show ?thesis
      using f(4,5) by (intro sound_queue [OF _ _ row(1,2)]) simp_all
  qed
qed

lemma claim_sound: "sound_plan v (g_files g) (queue_step (row_id_of (c_entry args))) (claim_plan v g args)"
proof (rule sound_planI)
  let ?r = "row_id_of (c_entry args)"
  fix reply k ws vs x assume a: "claim_plan v g args = Inr (reply, Write k ws vs x)"
  then obtain le where le: "load_entry_row v (g_files g) (c_entry args) = Inr le"
    by (auto simp: claim_plan_def res_simps)
  let ?q = "le_queue le" and ?ar = "le_archive le" and ?i = "le_idx le"
  let ?row = "q_entries ?q ! ?i"
  note row = load_entry_row_Inr [OF le]
  from a le obtain changed where ch: "claim_entry (e_status ?row) = Inr changed"
    by (auto simp: claim_plan_def res_simps Let_def)
  let ?q1 = "if changed then set_row ?q ?i (?row\<lparr>e_status := EActive\<rparr>) else ?q"
  from a le ch obtain slices ws1 vs1 ws2 vs2 where
    val: "validate ?q1 ?ar = Inr ()"
    and p1: "(if changed
           then try_with (queue_write v ?q1 (le_queue_version le)) (\<lambda>f. Inr ([f], [queue_view_write ?q1]))
           else Inr ([], [])) = Inr (ws1, vs1)"
    and p2: "(case slices of
           Some (s, version) \<Rightarrow>
             try_with (slices_write v (c_entry args) s version) (\<lambda>f.
             Inr ([f], [slices_view_write (c_entry args) s]))
         | None \<Rightarrow> Inr ([], [])) = Inr (ws2, vs2)"
    and out: "ws = ws1 @ ws2" "vs = vs1 @ vs2" "x = no_extras"
    by (auto simp: claim_plan_def res_simps Let_def split: if_splits)
  have off2: "offs ws2" "list_all (\<lambda>w. off_queue (w_host w)) vs2"
    using p2 by (cases slices; auto simp: res_simps dest: off_slices_write)+
  show "sound_write v (g_files g) (queue_step ?r) ws vs x"
  proof (cases changed)
    case False
    then show ?thesis using p1 out off2 by (simp add: sound_write_def)
  next
    case True
    then obtain f where f: "queue_write v ?q1 (le_queue_version le) = Inr f" "ws1 = [f]"
        "vs1 = [queue_view_write ?q1]"
      using p1 by (auto simp: res_simps)
    have "e_status ?row = EQueued \<or> e_status ?row = EPaused"
      using ch True by (cases "e_status ?row") auto
    then have "queue_step ?r (?q, ?ar) (?q1, ?ar)"
      using queue_step.claim [OF row(3,4)] True by simp
    moreover have "queue_ok ?q1 ?ar" using val validate_ok by simp
    moreover have "writes_queue v ws (?q, ?ar) (?q1, ?ar)"
      using writes_row [OF f(1) off2(1)] out f(2) by simp
    ultimately show ?thesis
      using f(3) out off2 by (intro sound_queue [OF _ _ row(1,2)]) simp_all
  qed
qed

section \<open>The document writers\<close>

lemma wt_read_dir_name: "name \<in> set (wt_read_dir fs dir) \<Longrightarrow> CHR ''/'' \<notin> set name"
proof -
  assume "name \<in> set (wt_read_dir fs dir)"
  then obtain s where "name = hd (split_on (CHR ''/'') s)"
    by (auto simp: wt_read_dir_def split: option.splits)
  then show ?thesis using split_on_no_sep [of name "CHR ''/''" s] by (cases "split_on (CHR ''/'') s") auto
qed

lemma md_name: "ends_with md name \<Longrightarrow> name \<notin> {[], ''.'', ''queue.toml'', ''queue-archive.toml''}"
  by (auto simp: md_def ends_with_def starts_with_def)

lemma off_found:
  assumes "find_by_id fs dir n = Some rel"
  shows "off_queue rel"
proof -
  obtain name where n: "name \<in> set (wt_read_dir fs dir)" "ends_with md name" "rel = in_dir dir name"
  proof -
    from find_map_SomeD [OF assms [unfolded find_by_id_def]] obtain pre x post where
      x: "wt_read_dir fs dir = pre @ x # post"
        "(if starts_with (show_03 n @ ''-'') x \<and> ends_with md x then Some (in_dir dir x) else None) = Some rel"
      by blast
    have "x \<in> set (wt_read_dir fs dir)" by (simp add: x(1))
    then show thesis using x(2) by (intro that [of x]) (auto split: if_splits)
  qed
  show ?thesis
    unfolding n(3) in_dir_def by (rule off_queueI [OF wt_read_dir_name [OF n(1)] md_name [OF n(2)]])
qed

lemma off_unit_doc: "unit_doc_rel fs kind entry unit = Inr rel \<Longrightarrow> off_queue rel"
proof (cases "kind = Milestone \<and> unit = None")
  case True
  assume "unit_doc_rel fs kind entry unit = Inr rel"
  then have "rel = milestone_path entry @ ''/'' @ ''CLAUDE.md''" using True by (simp add: unit_doc_rel_def)
  then show ?thesis using off_queueI [of "''CLAUDE.md''" "milestone_path entry"] by simp
next
  case False
  assume "unit_doc_rel fs kind entry unit = Inr rel"
  then show ?thesis using False
    by (auto simp: unit_doc_rel_def res_simps split: entry_kind.splits option.splits if_splits intro: off_found)
qed

lemma unit_doc_off: "unit_doc_of v fs entry unit = Inr (rel, content, version) \<Longrightarrow> off_queue rel"
  by (auto simp: unit_doc_of_def res_simps intro: off_unit_doc)

lemma session_log_sound: "sound_plan v fs R (session_log_plan v g args)"
proof (rule sound_planI)
  fix reply i ws vs x assume "session_log_plan v g args = Inr (reply, Write i ws vs x)"
  then obtain rel content version b where "unit_doc_of v (g_files g) (sl_entry args) (sl_unit args) = Inr (rel, content, version)"
      "ws = [\<lparr>f_rel = rel, f_expected = Some version, f_bytes = b\<rparr>]" "vs = []" "x = no_extras"
    by (auto simp: session_log_plan_def Let_def res_simps)
  then show "sound_write v fs R ws vs x"
    using unit_doc_off by (simp add: sound_write_def)
qed

lemma deferred_sound: "sound_plan v fs R (deferred_plan v g args)"
proof (rule sound_planI)
  fix reply i ws vs x assume "deferred_plan v g args = Inr (reply, Write i ws vs x)"
  then obtain rel content version b where "unit_doc_of v (g_files g) (df_entry args) None = Inr (rel, content, version)"
      "ws = [\<lparr>f_rel = rel, f_expected = Some version, f_bytes = b\<rparr>]" "vs = []" "x = no_extras"
    by (auto simp: deferred_plan_def Let_def res_simps)
  then show "sound_write v fs R ws vs x"
    using unit_doc_off by (simp add: sound_write_def)
qed

lemma off_note:
  assumes "validate_slug slug = Inr u"
  shows "off_queue (in_dir dir (note_filename n slug))"
proof -
  have s: "list_all slug_char slug" using assms validate_slug_ok by (cases u) simp
  have 1: "CHR ''/'' \<notin> set slug" using s by (auto simp: list_all_iff slug_char_def is_lower_def is_digit_def)
  have 2: "CHR ''/'' \<notin> set (show_03 n)" using show_03_digits [of n] by (auto simp: list_all_iff is_digit_def)
  have "CHR ''/'' \<notin> set (note_filename n slug)" using 1 2 by (auto simp: note_filename_def md_def)
  moreover have "ends_with md (note_filename n slug)" by (rule ends_with_md)
  ultimately show ?thesis unfolding in_dir_def by (intro off_queueI md_name)
qed

lemma check_specs_slugs: "check_specs ss = Inr u \<Longrightarrow> s \<in> set ss \<Longrightarrow> \<exists>u. validate_slug (sp_slug s) = Inr u"
  by (induction ss) (auto simp: res_simps split: if_splits)

lemma add_sub_sound: "sound_plan v fs R (add_sub_plan v g args)"
proof (rule sound_planI)
  let ?id = "as_milestone args @ ''/'' @ as_slug args"
  let ?dir = "milestone_path ?id @ ''/slices''"
  fix reply i ws vs x assume "add_sub_plan v g args = Inr (reply, Write i ws vs x)"
  then obtain f1 f2 s1 s2 version ex1 ex2 where ok: "check_add_sub args = Inr ()"
      and f: "slices_write v (as_milestone args) s1 version = Inr f1" "slices_write v ?id s2 None = Inr f2"
      and out: "ws = [f1, f2]" "vs = [slices_view_write (as_milestone args) s1, slices_view_write ?id s2]"
      and x: "x_writes x = [ex1, ex2] @ map (slice_doc_write v ?dir) (numbered (as_slices args))"
        "f_rel ex1 = slices_view_host ?id" "f_rel ex2 = in_dir ?dir seq_file"
    by (auto simp: add_sub_plan_def Let_def res_simps)
  have specs: "check_specs (as_slices args) = Inr ()" using ok by (auto simp: check_add_sub_def res_simps)
  have "off_queue (f_rel (slice_doc_write v ?dir p))" if "p \<in> set (numbered (as_slices args))" for p
  proof -
    obtain n s where p: "p = (n, s)" by force
    then have "s \<in> set (as_slices args)" using that by (auto simp: numbered_def dest: set_zip_rightD)
    then obtain u where "validate_slug (sp_slug s) = Inr u" using specs check_specs_slugs by blast
    from off_note [OF this] show ?thesis by (simp add: slice_doc_write_def p)
  qed
  moreover have "off_queue (in_dir ?dir seq_file)"
    unfolding in_dir_def by (rule off_queueI) (simp_all add: seq_file_def)
  ultimately have "offs (x_writes x)" using x off_host by (simp add: list_all_iff)
  then show "sound_write v fs R ws vs x"
    using out off_slices_write [OF f(1)] off_slices_write [OF f(2)] by (simp add: sound_write_def)
qed

section \<open>The life of an entry\<close>

datatype life = Unlisted | Live entry_status | Filed final_status

definition live_map :: "queue_toml \<Rightarrow> (string \<times> entry_status) list" where
  "live_map q = map (\<lambda>e. (e_id e, e_status e)) (q_entries q)"

definition filed_map :: "queue_archive_toml \<Rightarrow> (string \<times> final_status) list" where
  "filed_map ar = map (\<lambda>a. (e_id (a_row a), a_final_status a)) (a_entries ar)"

definition life_of :: "queue_pair \<Rightarrow> string \<Rightarrow> life" where
  "life_of p i =
     (case map_of (live_map (fst p)) i of
        Some st \<Rightarrow> Live st
      | None \<Rightarrow> (case map_of (filed_map (snd p)) i of Some f \<Rightarrow> Filed f | None \<Rightarrow> Unlisted))"

definition queue_life :: "env \<Rightarrow> garden \<Rightarrow> string \<Rightarrow> life" where
  "queue_life v g =
     (case stored_queue v (g_files g) of Some p \<Rightarrow> life_of p | None \<Rightarrow> (\<lambda>_. Unlisted))"

text \<open>
  The moves the daemon may make: claim a queued or paused entry, leave an active one in a status,
  file an active one as done.
\<close>

inductive life_step :: "(string \<Rightarrow> life) \<Rightarrow> (string \<Rightarrow> life) \<Rightarrow> bool" where
  claimed: "m r = Live EQueued \<or> m r = Live EPaused \<Longrightarrow> life_step m (m(r := Live EActive))"
| left: "m r = Live EActive \<Longrightarrow> life_step m (m(r := Live st))"
| filed: "m r = Live EActive \<Longrightarrow> life_step m (m(r := Filed FDone))"

lemma map_of_middle:
  assumes "k \<notin> fst ` set pre"
  shows "map_of (pre @ (k, v) # post) = (map_of (pre @ post))(k \<mapsto> v)"
  using assms by (induction pre) (auto simp: fun_upd_twist)

lemma ids_split:
  assumes "distinct (queue_ids q ar)" "i < length (q_entries q)"
  obtains pre post where "q_entries q = pre @ q_entries q ! i # post"
    "\<And>row. (q_entries q)[i := row] = pre @ row # post" "remove_at i (q_entries q) = pre @ post"
    "e_id (q_entries q ! i) \<notin> e_id ` set (pre @ post) \<union> (e_id \<circ> a_row) ` set (a_entries ar)"
proof -
  have es: "q_entries q = take i (q_entries q) @ q_entries q ! i # drop (Suc i) (q_entries q)"
    by (rule remove_at_split [OF assms(2)])
  have "distinct (map e_id (take i (q_entries q) @ q_entries q ! i # drop (Suc i) (q_entries q)) @
      map (e_id \<circ> a_row) (a_entries ar))"
    using assms(1) es by (simp only: queue_ids_def)
  then have out: "e_id (q_entries q ! i) \<notin> e_id ` set (take i (q_entries q) @ drop (Suc i) (q_entries q)) \<union>
      (e_id \<circ> a_row) ` set (a_entries ar)" by auto
  show thesis
    by (rule that [OF es upd_conv_take_nth_drop [OF assms(2)] _ out]) (simp add: remove_at_def)
qed

lemma live_set_row:
  assumes "distinct (queue_ids q ar)" "i < length (q_entries q)" "e_id row = e_id (q_entries q ! i)"
  shows "map_of (live_map (set_row q i row)) = (map_of (live_map q))(e_id row \<mapsto> e_status row)"
    and "map_of (live_map q) (e_id row) = Some (e_status (q_entries q ! i))"
proof -
  obtain pre post where s: "q_entries q = pre @ q_entries q ! i # post"
    "\<And>row. (q_entries q)[i := row] = pre @ row # post"
    "e_id (q_entries q ! i) \<notin> e_id ` set (pre @ post) \<union> (e_id \<circ> a_row) ` set (a_entries ar)"
    using ids_split [OF assms(1,2)] by metis
  let ?f = "\<lambda>e. (e_id e, e_status e)"
  have pre: "e_id (q_entries q ! i) \<notin> fst ` set (map ?f pre)" using s(3) by auto
  have old: "map_of (live_map q) = (map_of (map ?f pre @ map ?f post))(e_id row \<mapsto> e_status (q_entries q ! i))"
    unfolding live_map_def by (subst s(1)) (use map_of_middle [OF pre] assms(3) in simp)
  show "map_of (live_map q) (e_id row) = Some (e_status (q_entries q ! i))" by (simp add: old)
  show "map_of (live_map (set_row q i row)) = (map_of (live_map q))(e_id row \<mapsto> e_status row)"
    unfolding old using map_of_middle [OF pre] assms(3) by (simp add: live_map_def s(2))
qed

lemma life_set_row:
  assumes "distinct (queue_ids q ar)" "i < length (q_entries q)" "e_id row = e_id (q_entries q ! i)"
  shows "life_of (set_row q i row, ar) = (life_of (q, ar))(e_id row := Live (e_status row))"
    and "life_of (q, ar) (e_id row) = Live (e_status (q_entries q ! i))"
  using live_set_row [OF assms] by (auto simp: life_of_def fun_eq_iff split: option.split)

lemma life_close:
  assumes "distinct (queue_ids q ar)" "i < length (q_entries q)" "e_id (a_row a) = e_id (q_entries q ! i)"
  shows "life_of (q\<lparr>q_entries := remove_at i (q_entries q)\<rparr>, ar\<lparr>a_entries := a_entries ar @ [a]\<rparr>) =
    (life_of (q, ar))(e_id (a_row a) := Filed (a_final_status a))"
proof -
  obtain pre post where s: "q_entries q = pre @ q_entries q ! i # post"
    "remove_at i (q_entries q) = pre @ post"
    "e_id (q_entries q ! i) \<notin> e_id ` set (pre @ post) \<union> (e_id \<circ> a_row) ` set (a_entries ar)"
    using ids_split [OF assms(1,2)] by metis
  let ?f = "\<lambda>e. (e_id e, e_status e)"
  have pre: "e_id (a_row a) \<notin> fst ` set (map ?f pre)" "e_id (a_row a) \<notin> fst ` set (map ?f (pre @ post))"
    using s(3) assms(3) by auto
  have old: "map_of (live_map q) = (map_of (map ?f (pre @ post)))(e_id (a_row a) \<mapsto> e_status (q_entries q ! i))"
    unfolding live_map_def by (subst s(1)) (use map_of_middle [OF pre(1)] assms(3) in simp)
  have new: "map_of (live_map (q\<lparr>q_entries := remove_at i (q_entries q)\<rparr>)) = map_of (map ?f (pre @ post))"
    by (simp add: live_map_def s(2))
  have none: "map_of (map ?f (pre @ post)) (e_id (a_row a)) = None" using pre(2) unfolding map_of_eq_None_iff .
  have filed: "map_of (filed_map (ar\<lparr>a_entries := a_entries ar @ [a]\<rparr>)) =
      (map_of (filed_map ar))(e_id (a_row a) \<mapsto> a_final_status a)"
  proof -
    have "e_id (a_row a) \<notin> fst ` set (filed_map ar)" using s(3) assms(3) by (auto simp: filed_map_def)
    from map_of_middle [OF this, of "a_final_status a" "[]"] show ?thesis by (simp add: filed_map_def)
  qed
  show ?thesis
    using none unfolding life_of_def fst_conv snd_conv new old filed
    by (auto simp: fun_eq_iff simp del: map_append map_of_append split: option.split)
qed

lemma life_of_step:
  assumes "queue_step r p p'" "queue_ok (fst p) (snd p)"
  shows "life_of p' = life_of p \<or> life_step (life_of p) (life_of p')"
  using assms(1)
proof cases
  case (claim i q ar)
  then have d: "distinct (queue_ids q ar)" using assms(2) by (simp add: queue_ok_def)
  let ?row = "(q_entries q ! i)\<lparr>e_status := EActive\<rparr>"
  note l = life_set_row [OF d claim(3), of ?row]
  have "life_of p r = Live EQueued \<or> life_of p r = Live EPaused" "life_of p' = (life_of p)(r := Live EActive)"
    using l claim by auto
  then show ?thesis using life_step.claimed by metis
next
  case (leave i q ar st)
  then have d: "distinct (queue_ids q ar)" using assms(2) by (simp add: queue_ok_def)
  let ?row = "(q_entries q ! i)\<lparr>e_pending_status := None, e_status := st\<rparr>"
  note l = life_set_row [OF d leave(3), of ?row]
  have "life_of p r = Live EActive" "life_of p' = (life_of p)(r := Live st)"
    using l leave by auto
  then show ?thesis using life_step.left by metis
next
  case (finish i q ar t)
  then have d: "distinct (queue_ids q ar)" using assms(2) by (simp add: queue_ok_def)
  have "life_of p r = Live EActive" "life_of p' = (life_of p)(r := Filed FDone)"
    using life_close [OF d finish(3)] life_set_row(2) [OF d finish(3), of "q_entries q ! i"] finish by auto
  then show ?thesis using life_step.filed by metis
next
  case (count i q ar n)
  then have d: "distinct (queue_ids q ar)" using assms(2) by (simp add: queue_ok_def)
  let ?row = "(q_entries q ! i)\<lparr>e_follow_ups := n\<rparr>"
  note l = life_set_row [OF d count(3), of ?row]
  have "life_of p' = life_of p" using l count by (auto simp: fun_eq_iff)
  then show ?thesis by simp
qed

section \<open>The daemon as a machine\<close>

text \<open>
  One request of the daemon, with any arguments and whatever it answers, takes the garden to the
  garden after the operation.
\<close>

inductive daemon_step :: "env \<Rightarrow> garden \<Rightarrow> garden \<Rightarrow> bool" for v where
  claim: "daemon_step v g (snd (queue_v2_claim v c g))"
| status: "daemon_step v g (snd (queue_v2_set_status v s g))"
| counter: "daemon_step v g (snd (queue_v2_follow_ups v f g))"
| log: "daemon_step v g (snd (queue_v2_session_log v l g))"
| defer_tests: "daemon_step v g (snd (queue_v2_deferred v d g))"
| sub: "daemon_step v g (snd (queue_v2_add_sub v a g))"

inductive_cases daemon_stepE: "daemon_step v g g'"

lemma daemon_step_plan:
  assumes "daemon_step v g g'"
  obtains r and m :: "op_error + ((string \<Rightarrow> unit_reply) \<times> plan)" and res
    where "sound_plan v (g_files g) (queue_step r) m" "run_plan v m g = (res, g')"
  | r and m :: "op_error + ((string \<Rightarrow> status_reply) \<times> plan)" and res
    where "sound_plan v (g_files g) (queue_step r) m" "run_plan v m g = (res, g')"
  | r and m :: "op_error + ((string \<Rightarrow> doc_reply) \<times> plan)" and res
    where "sound_plan v (g_files g) (queue_step r) m" "run_plan v m g = (res, g')"
  | r and m :: "op_error + ((string \<Rightarrow> sub_reply) \<times> plan)" and res
    where "sound_plan v (g_files g) (queue_step r) m" "run_plan v m g = (res, g')"
  using assms
proof cases
  case (claim c)
  then show thesis
    using that(1) [OF claim_sound] by (metis queue_v2_claim_def prod.collapse)
next
  case (status s)
  then show thesis
    using that(2) [OF set_status_sound] by (metis queue_v2_set_status_def prod.collapse)
next
  case (counter f)
  then show thesis
    using that(1) [OF follow_ups_sound] by (metis queue_v2_follow_ups_def prod.collapse)
next
  case (log l)
  then show thesis
    using that(3) [OF session_log_sound] by (metis queue_v2_session_log_def prod.collapse)
next
  case (defer_tests d)
  then show thesis
    using that(3) [OF deferred_sound] by (metis queue_v2_deferred_def prod.collapse)
next
  case (sub a)
  then show thesis
    using that(4) [OF add_sub_sound] by (metis queue_v2_add_sub_def prod.collapse)
qed

lemma daemon_step_queue:
  assumes "daemon_step v g g'" "env_ok v"
  shows "stored_queue v (g_files g') = stored_queue v (g_files g) \<or>
    (\<exists>r p p'. stored_queue v (g_files g) = Some p \<and> queue_ok (fst p) (snd p) \<and> queue_step r p p' \<and>
       stored_queue v (g_files g') = Some p' \<and> queue_ok (fst p') (snd p'))"
  using assms(1) by (cases rule: daemon_step_plan) (erule (1) sound_plan_run [OF assms(2)]; blast)+

definition queue_good :: "env \<Rightarrow> garden \<Rightarrow> bool" where
  "queue_good v g \<longleftrightarrow> (case stored_queue v (g_files g) of
     Some (q, ar) \<Rightarrow> queue_ok q ar | None \<Rightarrow> False)"

lemma queue_good_Some: "queue_good v g \<longleftrightarrow>
  (\<exists>p. stored_queue v (g_files g) = Some p \<and> queue_ok (fst p) (snd p))"
  by (auto simp: queue_good_def split: option.splits)

interpretation daemon: refined "\<lambda>g g'. env_ok v \<and> daemon_step v g g'" "queue_good v" "queue_life v" life_step
  for v
proof
  fix g g'
  assume "env_ok v \<and> daemon_step v g g'" and good: "queue_good v g"
  then have s: "stored_queue v (g_files g') = stored_queue v (g_files g) \<or>
    (\<exists>r p p'. stored_queue v (g_files g) = Some p \<and> queue_ok (fst p) (snd p) \<and> queue_step r p p' \<and>
       stored_queue v (g_files g') = Some p' \<and> queue_ok (fst p') (snd p'))"
    using daemon_step_queue by blast
  show "queue_good v g'" using s good by (auto simp: queue_good_Some)
  show "queue_life v g' = queue_life v g \<or> life_step (queue_life v g) (queue_life v g')"
    using s
  proof
    assume "stored_queue v (g_files g') = stored_queue v (g_files g)"
    then show ?thesis by (simp add: queue_life_def)
  next
    assume "\<exists>r p p'. stored_queue v (g_files g) = Some p \<and> queue_ok (fst p) (snd p) \<and> queue_step r p p' \<and>
       stored_queue v (g_files g') = Some p' \<and> queue_ok (fst p') (snd p')"
    then obtain r p p' where "stored_queue v (g_files g) = Some p" "queue_ok (fst p) (snd p)"
      "queue_step r p p'" "stored_queue v (g_files g') = Some p'" by blast
    then show ?thesis using life_of_step [of r p p'] by (simp add: queue_life_def)
  qed
qed

lemma daemon_run: "env_ok v \<Longrightarrow> (daemon_step v)\<^sup>*\<^sup>* g g' \<Longrightarrow> (\<lambda>g g'. env_ok v \<and> daemon_step v g g')\<^sup>*\<^sup>* g g'"
  by (erule rtranclp_mono [THEN predicate2D, rotated]) auto

text \<open>
  Whatever the daemon is asked, in any order and with any outcome, a valid queue stays valid:
  from a garden whose stored queue and archive pass validation, every garden the six operations
  reach stores a queue and an archive that pass validation again.
\<close>

lemma daemon_keeps_queue_valid:
  assumes "env_ok v" "(daemon_step v)\<^sup>*\<^sup>* g g'"
    and "stored_queue v (g_files g) = Some (q, ar)" "validate q ar = Inr ()"
  shows "\<exists>q' ar'. stored_queue v (g_files g') = Some (q', ar') \<and> validate q' ar' = Inr ()"
proof -
  have "queue_good v g" using assms(3,4) validate_ok by (simp add: queue_good_def)
  from daemon.run_good [OF daemon_run [OF assms(1,2)] this]
  show ?thesis unfolding queue_good_Some using validate_ok by (metis prod.collapse)
qed

text \<open>
  C3. Every run of the daemon refines the life cycle of the entries: seen as a map from entry ids
  to their life, the operations only claim queued or paused entries, move active ones, or file
  active ones as done.
\<close>

theorem daemon_refines_life:
  assumes "env_ok v" "(daemon_step v)\<^sup>*\<^sup>* g g'"
    and "stored_queue v (g_files g) = Some (q, ar)" "validate q ar = Inr ()"
  shows "life_step\<^sup>*\<^sup>* (queue_life v g) (queue_life v g')"
proof -
  have "queue_good v g" using assms(3,4) validate_ok by (simp add: queue_good_def)
  from daemon.run_refines [OF daemon_run [OF assms(1,2)] this] show ?thesis .
qed

text \<open>
  The daemon neither invents nor revives: no run of it adds an entry, changes the final status
  of a filed one, or moves an entry that is blocked or deferred. Only a human does.
\<close>

lemma daemon_settled_entries_stay:
  assumes "env_ok v" "(daemon_step v)\<^sup>*\<^sup>* g g'"
    and "stored_queue v (g_files g) = Some (q, ar)" "validate q ar = Inr ()"
    and "queue_life v g i \<in> {Unlisted, Filed f, Live EBlocked, Live EDeferred}"
  shows "queue_life v g' i = queue_life v g i"
proof -
  have good: "queue_good v g" using assms(3,4) validate_ok by (simp add: queue_good_def)
  have inv: "life_step m m' \<Longrightarrow> m i = queue_life v g i \<Longrightarrow> m' i = queue_life v g i" for m m'
    using assms(5) by (auto elim!: life_step.cases)
  show ?thesis
    by (rule daemon.run_fixes [where v = v and P = "\<lambda>m. m i = queue_life v g i",
          OF daemon_run [OF assms(1,2)] good]) (use inv in auto)
qed

section \<open>The backstops\<close>

lemma load_entry_refused: "load_entry_row v fs entry = Inl (Refused r) \<Longrightarrow> r = UnknownId (row_id_of entry)"
  by (auto simp: load_entry_row_def Let_def res_simps)

lemma validated: "queue_ok q ar \<Longrightarrow> map_err Refused (validate q ar) = Inr ()"
  using validate_ok [of q ar] by simp

text \<open>
  C19. Leaving an active entry never breaks the queue: the only refusal of the status write of an
  entry is an id that is not live, whatever status is asked and whatever change is pending, since
  the new queue and archive always pass the validation that runs before the write.
\<close>

theorem set_entry_never_invalid:
  assumes "set_entry_plan v g args = Inl (Refused r)"
  shows "r = UnknownId (row_id_of (ss_entry args))"
proof (cases "load_entry_row v (g_files g) (ss_entry args)")
  case (Inl e)
  then show ?thesis using assms load_entry_refused by (auto simp: set_entry_plan_def)
next
  case (Inr le)
  let ?q = "le_queue le" and ?ar = "le_archive le" and ?i = "le_idx le"
  let ?row = "q_entries ?q ! ?i"
  let ?q1 = "?q\<lparr>q_entries := remove_at ?i (q_entries ?q)\<rparr>"
  let ?ar1 = "?ar\<lparr>a_entries := a_entries ?ar @ [\<lparr>a_row = ?row\<lparr>e_pending_status := None\<rparr>,
        a_finished = v_now v, a_final_status = FDone, a_reason = None\<rparr>]\<rparr>"
  note row = load_entry_row_Inr [OF Inr]
  have act: "e_status ?row = EActive"
    using assms Inr by (auto simp: set_entry_plan_def res_simps Let_def bad_def)
  have closed: "validate ?q1 ?ar1 = Inr ()"
    using queue_ok_close [OF row(2,3)] validate_ok by simp
  have settled: "validate (set_row ?q ?i (?row\<lparr>e_pending_status := None, e_status := st\<rparr>)) ?ar = Inr ()" for st
    unfolding validate_ok by (rule queue_ok_settle [OF row(2,3)]) (simp_all add: act holds_repo_def is_started_def)
  show ?thesis
    using assms Inr closed settled
    by (cases "entry_status_of (ss_new args)")
      (auto simp: set_entry_plan_def res_simps Let_def bad_def queue_write_def archive_write_def
        codec_err_def split: if_splits)
qed

section \<open>The scheduler's pick and the claim\<close>

lemma map_of_rev_distinct: "distinct (map fst xs) \<Longrightarrow> map_of (rev xs) k = map_of xs k"
proof (induction xs)
  case (Cons x xs)
  obtain a b where x: "x = (a, b)" by force
  have "a \<notin> fst ` set (rev xs)" using Cons.prems x by simp
  from map_of_middle [OF this, of b "[]"] show ?case using Cons x by simp
qed simp

lemma repo_of_projects:
  assumes "sn_projects s = map (\<lambda>p. \<lparr>pv_name = p_name p, pv_repo = p_repo p\<rparr>) ps"
    and "distinct (map p_name ps)"
  shows "repo_of s e = repo_map ps (ev_project e)"
proof -
  have "map_option pv_repo (find (\<lambda>p. pv_name p = n) (map (\<lambda>p. \<lparr>pv_name = p_name p, pv_repo = p_repo p\<rparr>) ps)) =
      map_of (map (\<lambda>p. (p_name p, p_repo p)) ps) n" for n
    by (induction ps) auto
  moreover have "map_of (rev (map (\<lambda>p. (p_name p, p_repo p)) ps)) = map_of (map (\<lambda>p. (p_name p, p_repo p)) ps)"
    using assms(2) by (intro ext map_of_rev_distinct) (simp add: comp_def)
  ultimately show ?thesis by (simp add: repo_of_def assms(1) repo_map_def)
qed

lemma held_claim:
  assumes "distinct (held_repos m (pre @ x # post))" "e_project row = e_project x" "e_lane row = e_lane x"
    and "e_lane x = Normal \<Longrightarrow> list_all (\<lambda>y. holds_repo y \<longrightarrow> m (e_project y) \<noteq> m (e_project x)) (pre @ post)"
  shows "distinct (held_repos m (pre @ row # post))"
  using assms by (auto simp: held_repos_def holds_repo_def list_all_iff split: if_splits)

lemma claimable:
  assumes ok: "queue_ok q ar" and i: "i < length (q_entries q)"
    and free: "e_lane (q_entries q ! i) = Normal \<Longrightarrow>
      \<forall>j < length (q_entries q). j \<noteq> i \<longrightarrow> holds_repo (q_entries q ! j) \<longrightarrow>
        repo_map (q_projects q) (e_project (q_entries q ! j)) \<noteq> repo_map (q_projects q) (e_project (q_entries q ! i))"
  shows "queue_ok (set_row q i ((q_entries q ! i)\<lparr>e_status := EActive\<rparr>)) ar"
proof (rule queue_ok_update [OF ok i])
  let ?es = "q_entries q"
  have es: "?es = take i ?es @ ?es ! i # drop (Suc i) ?es" by (rule remove_at_split [OF i])
  have d: "distinct (held_repos (repo_map (q_projects q)) (take i ?es @ ?es ! i # drop (Suc i) ?es))"
    using ok es by (simp only: queue_ok_def)
  have others: "\<exists>j < length ?es. j \<noteq> i \<and> ?es ! j = y" if "y \<in> set (take i ?es @ drop (Suc i) ?es)" for y
  proof -
    from that consider "y \<in> set (take i ?es)" | "y \<in> set (drop (Suc i) ?es)" by auto
    then show ?thesis
    proof cases
      case 1
      then obtain j where "j < i" "take i ?es ! j = y" unfolding in_set_conv_nth using i by auto
      then show ?thesis using i by (intro exI [of _ j]) auto
    next
      case 2
      then obtain j where j: "j < length ?es - Suc i" "drop (Suc i) ?es ! j = y"
        unfolding in_set_conv_nth by auto
      then show ?thesis using i by (intro exI [of _ "Suc i + j"]) auto
    qed
  qed
  show "distinct (held_repos (repo_map (q_projects q)) (?es[i := (?es ! i)\<lparr>e_status := EActive\<rparr>]))"
    unfolding upd_conv_take_nth_drop [OF i]
    by (rule held_claim [OF d]) (use free others in \<open>auto simp: list_all_iff\<close>)
qed simp

lemma eligible_repo:
  "eligible s mb e = Inr u \<Longrightarrow> \<exists>repo. repo_of s e = Some repo \<and>
     \<not> (ev_lane e = Normal \<and> repo_taken s e repo)"
  by (auto simp: eligible_def res_simps repo_taken_def list_ex_iff split: if_splits)

section \<open>The sub-milestone in the walk\<close>

lemma find_after: "find P xs = None \<Longrightarrow> find P (xs @ ys) = find P ys"
  by (induction xs) (auto split: if_splits)

text \<open>
  A slice that splits hands its turn to the sub-milestone: when everything before the slice is
  finished, the first open item of the parent afterwards is the new sub, queued, unless it was
  asked for at the end; every other item keeps its place and its status.
\<close>

lemma split_runs_sub_next:
  assumes "i < length (s_items s)" "\<not> as_at_end args"
    and "list_all (\<lambda>it. rolled_past (i_status it)) (take i (s_items s))"
  shows "find (\<lambda>it. \<not> rolled_past (i_status it)) (s_items (split_parent s i args)) =
      Some \<lparr>i_kind = Sub, i_id = as_slug args, i_status = SQueued, i_follow_ups = None\<rparr> \<and>
    remove_at (i + 1) (s_items (split_parent s i args)) =
      (s_items s)[i := (s_items s ! i)\<lparr>i_status := SSplit\<rparr>]"
proof -
  let ?sub = "\<lparr>i_kind = Sub, i_id = as_slug args, i_status = SQueued, i_follow_ups = None\<rparr>"
  let ?sp = "(s_items s ! i)\<lparr>i_status := SSplit\<rparr>"
  let ?items = "(s_items s)[i := ?sp]"
  have items: "s_items (split_parent s i args) = insert_at (i + 1) ?sub ?items"
    using assms(2) by (simp add: split_parent_def Let_def)
  have "take (i + 1) ?items = take i (s_items s) @ [?sp]"
    using assms(1) by (simp add: take_Suc_conv_app_nth)
  moreover have "find (\<lambda>it. \<not> rolled_past (i_status it)) (take i (s_items s)) = None"
    using assms(3) by (simp add: find_None_iff list_all_iff)
  ultimately have "find (\<lambda>it. \<not> rolled_past (i_status it)) (insert_at (i + 1) ?sub ?items) = Some ?sub"
    by (simp add: insert_at_def find_after rolled_past_def)
  then show ?thesis
    using items assms(1) remove_at_insert_at [of "i + 1" ?items ?sub] by simp
qed

section \<open>A concrete daemon\<close>

text \<open>A codec that knows a table of files.\<close>

definition table_codec :: "(string \<times> 'f) list \<Rightarrow> 'f toml_codec" where
  "table_codec tbl =
     \<lparr>from_str = (\<lambda>s. case map_of tbl s of Some f \<Rightarrow> Inr f | None \<Rightarrow> Inl ''toml''),
      to_string_pretty = (\<lambda>f. case find (\<lambda>(s, f'). f' = f) tbl of Some (s, _) \<Rightarrow> Inr s | None \<Rightarrow> Inl ''toml'')\<rparr>"

lemma table_codec_ok: "distinct (map fst tbl) \<Longrightarrow> codec_round_trips (table_codec tbl)"
  by (auto simp: codec_round_trips_def table_codec_def map_of_eq_Some_iff split: option.splits
      dest!: find_in_set dest: eq_key_imp_eq_value)

definition demo_task :: entry where
  "demo_task = demo_entry\<lparr>e_id := ''001'', e_kind := Task\<rparr>"

definition task_queue :: "entry_status \<Rightarrow> queue_toml" where
  "task_queue st = queue_new [\<lparr>p_name = ''p'', p_repo = ''r'', p_main = ''main''\<rparr>] [demo_task\<lparr>e_status := st\<rparr>]"

definition task_env :: env where
  "task_env = plain_env (table_codec [(''q'', task_queue EQueued), (''a'', task_queue EActive)]) no_codec no_codec"

definition task_garden :: garden where
  "task_garden = \<lparr>g_state = Unlocked, g_files = [(queue_file, Utf8 ''q'')],
     g_head = [(queue_file, Utf8 ''q'')], g_log = []\<rparr>"

definition task_claim :: claim_args where
  "task_claim = \<lparr>c_entry = ''001'', c_unit = None\<rparr>"

lemma task_env_ok: "env_ok task_env"
proof -
  have "codec_round_trips (no_codec :: queue_archive_toml toml_codec)"
    by (simp add: codec_round_trips_def no_codec_def)
  then show ?thesis
    by (simp add: env_ok_def task_env_def plain_env_def table_codec_ok)
qed

lemma task_stored: "stored_queue task_env (g_files task_garden) = Some (task_queue EQueued, archive_new [])"
  by code_simp

lemma task_valid: "validate (task_queue EQueued) (archive_new []) = Inr ()"
  by code_simp

lemma task_claimed: "fst (queue_v2_claim task_env task_claim task_garden) =
    Inr \<lparr>r_entry = ''001'', r_unit = None, r_hash = ''1''\<rparr>"
  by code_simp

lemma task_run: "(daemon_step task_env)\<^sup>*\<^sup>* task_garden (snd (queue_v2_claim task_env task_claim task_garden))"
  by (rule r_into_rtranclp) (rule daemon_step.claim)

lemma daemon_keeps_queue_valid_instance:
  "\<exists>q ar. stored_queue task_env (g_files (snd (queue_v2_claim task_env task_claim task_garden))) = Some (q, ar) \<and>
     validate q ar = Inr ()"
  by (rule daemon_keeps_queue_valid [OF task_env_ok task_run task_stored task_valid])

theorem daemon_refines_life_witness:
  "life_step\<^sup>*\<^sup>* (queue_life task_env task_garden)
     (queue_life task_env (snd (queue_v2_claim task_env task_claim task_garden)))"
  by (rule daemon_refines_life [OF task_env_ok task_run task_stored task_valid])

lemma daemon_settled_entries_stay_instance:
  "queue_life task_env (snd (queue_v2_claim task_env task_claim task_garden)) ''002'' = Unlisted"
proof -
  have "queue_life task_env task_garden ''002'' = Unlisted" by code_simp
  then show ?thesis
    using daemon_settled_entries_stay [OF task_env_ok task_run task_stored task_valid] by simp
qed

definition missing_entry :: set_status_args where
  "missing_entry = \<lparr>ss_entry = ''002'', ss_unit = None, ss_new = DDone\<rparr>"

lemma missing_refused: "set_entry_plan task_env task_garden missing_entry = Inl (Refused (UnknownId ''002''))"
proof -
  have "load_entry_row task_env (g_files task_garden) ''002'' = Inl (Refused (UnknownId ''002''))" by code_simp
  then show ?thesis by (simp add: set_entry_plan_def missing_entry_def)
qed

theorem set_entry_never_invalid_witness: "UnknownId ''002'' = UnknownId (row_id_of (ss_entry missing_entry))"
  by (rule set_entry_never_invalid [OF missing_refused])

definition demo_sub :: add_sub_args where
  "demo_sub = \<lparr>as_milestone = ''m1'', as_slice = ''001'', as_slug = ''deep'', as_title = ''Deep'',
     as_mission = ''m'', as_finish_criteria = ''f'', as_slices = [], as_at_end = False\<rparr>"

lemma split_runs_sub_next_instance:
  "remove_at 1 (s_items (split_parent (slices_new ''m1''
      [\<lparr>i_kind = Slice, i_id = ''001'', i_status = SActive, i_follow_ups = Some 0\<rparr>]) 0 demo_sub)) =
    [\<lparr>i_kind = Slice, i_id = ''001'', i_status = SSplit, i_follow_ups = Some 0\<rparr>]"
  using split_runs_sub_next [of 0 "slices_new ''m1''
      [\<lparr>i_kind = Slice, i_id = ''001'', i_status = SActive, i_follow_ups = Some 0\<rparr>]" demo_sub]
  by (simp add: slices_new_def demo_sub_def)

end
