(* ===== verification/V2_Overlay.thy ===== *)
theory V2_Overlay
  imports Scheduler Queue_Ops
begin

text \<open>
  The drive loop's runtime state over a snapshot
  (\<^verbatim>\<open>crates/softfig-growlightd/src/drive_loop.rs\<close>): who holds which entry and which model
  changes were accepted, laid over what the files say before the scheduler picks, and the claim the
  loop then asks the keeper for.
\<close>

section \<open>The overlay\<close>

record v2_hold =
  vh_entry :: string
  vh_agent :: string
  vh_status :: "entry_status option"

record v2_overlay =
  vo_holds :: "v2_hold list"
  vo_model_overrides :: "(string \<times> work_unit \<times> model_choice) list"

text \<open>\<^verbatim>\<open>iter_mut().find(p)\<close> followed by a change of what it found.\<close>

definition on_first :: "('a \<Rightarrow> bool) \<Rightarrow> ('a \<Rightarrow> 'a) \<Rightarrow> 'a list \<Rightarrow> 'a list" where
  "on_first P f xs = (case position P xs of Some i \<Rightarrow> xs[i := f (xs ! i)] | None \<Rightarrow> xs)"

definition apply_hold :: "v2_hold \<Rightarrow> snapshot \<Rightarrow> snapshot" where
  "apply_hold h s =
     s\<lparr>sn_entries :=
         on_first (\<lambda>e. ev_id e = vh_entry h \<and> (case vh_status h of None \<Rightarrow> True | Some st \<Rightarrow> ev_status e = st))
           (\<lambda>e. e\<lparr>ev_holder := Some (vh_agent h)\<rparr>) (sn_entries s)\<rparr>"

definition on_tree :: "string \<Rightarrow> (tree_view \<Rightarrow> tree_view) \<Rightarrow> snapshot \<Rightarrow> snapshot" where
  "on_tree m f s =
     (case map_of (sn_trees s) m of
        Some tree \<Rightarrow> s\<lparr>sn_trees := AList.update m (f tree) (sn_trees s)\<rparr>
      | None \<Rightarrow> s)"

fun overlay_unit_model :: "string \<times> work_unit \<times> model_choice \<Rightarrow> snapshot \<Rightarrow> snapshot" where
  "overlay_unit_model (entry, USlice m sl, choice) s =
     on_tree m (\<lambda>tree. tree\<lparr>tv_items :=
         on_first (\<lambda>it. iv_kind it = Slice \<and> iv_id it = sl) (\<lambda>it. it\<lparr>iv_models := Some [choice]\<rparr>)
           (tv_items tree)\<rparr>) s"
| "overlay_unit_model (entry, UCloseOut m, choice) s = on_tree m (\<lambda>tree. tree\<lparr>tv_models := Some [choice]\<rparr>) s"
| "overlay_unit_model (entry, UEntry, choice) s =
     s\<lparr>sn_entries := on_first (\<lambda>e. ev_id e = entry) (\<lambda>e. e\<lparr>ev_models := Some [choice]\<rparr>) (sn_entries s)\<rparr>"

definition apply_v2_overlay :: "v2_overlay \<Rightarrow> snapshot \<Rightarrow> snapshot" where
  "apply_v2_overlay ov s = fold overlay_unit_model (vo_model_overrides ov) (fold apply_hold (vo_holds ov) s)"

text \<open>
  The overlay of a tick, from the loop's tables in key order: assignments of the members that are
  registered, members that handed off, pauses that have not landed, and pausers.
\<close>

record v2_runtime =
  vr_assigned :: "(string \<times> string) list"
  vr_rolled :: "(string \<times> string) list"
  vr_to_pause :: "(string \<times> string) list"
  vr_paused_by :: "(string \<times> string) list"
  vr_overrides :: "(string \<times> work_unit \<times> model_choice) list"

definition hold_of :: "entry_status option \<Rightarrow> string \<Rightarrow> string \<Rightarrow> v2_hold" where
  "hold_of st entry agent = \<lparr>vh_entry = entry, vh_agent = agent, vh_status = st\<rparr>"

definition overlay_of :: "(string \<Rightarrow> bool) \<Rightarrow> v2_runtime \<Rightarrow> v2_overlay" where
  "overlay_of registered r =
     \<lparr>vo_holds =
        map (\<lambda>(agent, entry). hold_of None entry agent) (filter (registered \<circ> fst) (vr_assigned r)) @
        map (\<lambda>(agent, entry). hold_of (Some EActive) entry agent) (vr_rolled r) @
        map (\<lambda>(entry, agent). hold_of (Some EActive) entry agent) (vr_to_pause r) @
        map (\<lambda>(entry, agent). hold_of (Some EPaused) entry agent) (vr_paused_by r),
      vo_model_overrides = vr_overrides r\<rparr>"

section \<open>The claim of a pick\<close>

definition claim_of_pick :: "pick \<Rightarrow> claim_args" where
  "claim_of_pick pk =
     (case pk_unit pk of
        USlice m sl \<Rightarrow> \<lparr>c_entry = m, c_unit = Some sl\<rparr>
      | UCloseOut m \<Rightarrow> \<lparr>c_entry = m, c_unit = None\<rparr>
      | UEntry \<Rightarrow> \<lparr>c_entry = pk_entry pk, c_unit = None\<rparr>)"

section \<open>What the overlay leaves alone\<close>

text \<open>
  Everything but holders and models: the rows of the entries, the projects, the archived ids, and
  the items of the trees.
\<close>

definition bare_entry :: "entry_view \<Rightarrow> entry_view" where
  "bare_entry e = e\<lparr>ev_holder := None, ev_models := None\<rparr>"

definition bare_items :: "tree_view \<Rightarrow> item_view list" where
  "bare_items tree = map (\<lambda>it. it\<lparr>iv_models := None\<rparr>) (tv_items tree)"

definition same_files :: "snapshot \<Rightarrow> snapshot \<Rightarrow> bool" where
  "same_files s s' \<longleftrightarrow>
     map bare_entry (sn_entries s') = map bare_entry (sn_entries s) \<and>
     sn_projects s' = sn_projects s \<and> sn_done_ids s' = sn_done_ids s \<and>
     (\<forall>m. map_option bare_items (map_of (sn_trees s') m) = map_option bare_items (map_of (sn_trees s) m))"

lemma same_files_refl: "same_files s s"
  by (simp add: same_files_def)

lemma same_files_trans: "same_files s s' \<Longrightarrow> same_files s' s'' \<Longrightarrow> same_files s s''"
  by (simp add: same_files_def)

lemma on_first_map: "(\<And>x. g (f x) = g x) \<Longrightarrow> map g (on_first P f xs) = map g xs"
  using map_update [of g xs] by (auto simp: on_first_def list_update_same_conv dest!: position_Some split: option.splits)

lemma apply_hold_same: "same_files s (apply_hold h s)"
  unfolding same_files_def apply_hold_def by (simp add: on_first_map bare_entry_def)

lemma on_tree_same: "(\<And>tree. bare_items (f tree) = bare_items tree) \<Longrightarrow> same_files s (on_tree m f s)"
  by (auto simp: same_files_def on_tree_def update_conv split: option.splits)

lemma overlay_unit_same: "same_files s (overlay_unit_model u s)"
proof (cases "(u, s)" rule: overlay_unit_model.cases)
  case (1 entry m sl choice s')
  then show ?thesis by (auto simp: bare_items_def on_first_map intro: on_tree_same)
next
  case (2 entry m choice s')
  then show ?thesis by (auto simp: bare_items_def intro: on_tree_same)
next
  case (3 entry choice s')
  then show ?thesis by (simp add: same_files_def on_first_map bare_entry_def)
qed

lemma fold_same: "(\<And>x s. same_files s (f x s)) \<Longrightarrow> same_files s (fold f xs s)"
  by (induction xs arbitrary: s) (auto simp: same_files_refl intro: same_files_trans)

lemma overlay_same: "same_files s (apply_v2_overlay ov s)"
  unfolding apply_v2_overlay_def
  by (rule same_files_trans; rule fold_same) (simp_all add: apply_hold_same overlay_unit_same)

lemma same_files_entry:
  assumes "same_files s s'" "i < length (sn_entries s)"
  shows "length (sn_entries s') = length (sn_entries s)"
    "ev_id (sn_entries s' ! i) = ev_id (sn_entries s ! i)"
    "ev_kind (sn_entries s' ! i) = ev_kind (sn_entries s ! i)"
    "ev_project (sn_entries s' ! i) = ev_project (sn_entries s ! i)"
    "ev_lane (sn_entries s' ! i) = ev_lane (sn_entries s ! i)"
    "ev_status (sn_entries s' ! i) = ev_status (sn_entries s ! i)"
proof -
  have m: "map bare_entry (sn_entries s') = map bare_entry (sn_entries s)"
    using assms(1) by (simp add: same_files_def)
  then show len: "length (sn_entries s') = length (sn_entries s)" by (rule map_eq_imp_length_eq)
  have eq: "bare_entry (sn_entries s' ! i) = bare_entry (sn_entries s ! i)"
    using arg_cong [OF m, where f = "\<lambda>xs. xs ! i"] len assms(2) by simp
  show "ev_id (sn_entries s' ! i) = ev_id (sn_entries s ! i)"
    "ev_kind (sn_entries s' ! i) = ev_kind (sn_entries s ! i)"
    "ev_project (sn_entries s' ! i) = ev_project (sn_entries s ! i)"
    "ev_lane (sn_entries s' ! i) = ev_lane (sn_entries s ! i)"
    "ev_status (sn_entries s' ! i) = ev_status (sn_entries s ! i)"
    using eq by (cases "sn_entries s' ! i"; cases "sn_entries s ! i"; simp add: bare_entry_def)+
qed

lemma same_files_tree:
  assumes "same_files s s'" "map_of (sn_trees s') m = Some tree'"
  shows "\<exists>tree. map_of (sn_trees s) m = Some tree \<and>
    list_all2 (\<lambda>it it'. iv_kind it' = iv_kind it \<and> iv_id it' = iv_id it \<and> iv_status it' = iv_status it)
      (tv_items tree) (tv_items tree')"
proof -
  have "map_option bare_items (map_of (sn_trees s) m) = Some (bare_items tree')"
    using assms unfolding same_files_def by (metis option.simps(9))
  then obtain tree where t: "map_of (sn_trees s) m = Some tree"
      "map (\<lambda>it. it\<lparr>iv_models := None\<rparr>) (tv_items tree) = map (\<lambda>it. it\<lparr>iv_models := None\<rparr>) (tv_items tree')"
    by (auto simp: bare_items_def)
  have one: "iv_kind y = iv_kind x \<and> iv_id y = iv_id x \<and> iv_status y = iv_status x"
    if "x\<lparr>iv_models := None\<rparr> = y\<lparr>iv_models := None\<rparr>" for x y :: item_view
    using that by (cases x; cases y) simp
  have "list_all2 (=) (map (\<lambda>it. it\<lparr>iv_models := None\<rparr>) (tv_items tree))
      (map (\<lambda>it. it\<lparr>iv_models := None\<rparr>) (tv_items tree'))"
    by (simp add: t(2) list.rel_refl)
  then have "list_all2 (\<lambda>it it'. it\<lparr>iv_models := None\<rparr> = it'\<lparr>iv_models := None\<rparr>) (tv_items tree) (tv_items tree')"
    unfolding list_all2_map1 list_all2_map2 .
  then have "list_all2 (\<lambda>it it'. iv_kind it' = iv_kind it \<and> iv_id it' = iv_id it \<and> iv_status it' = iv_status it)
      (tv_items tree) (tv_items tree')"
    by (rule list_all2_mono) (rule one)
  then show ?thesis using t(1) by blast
qed

end
