(* ===== verification/Pick_Claim.thy ===== *)
theory Pick_Claim
  imports Queue_Ops_Props V2_Overlay
begin

text \<open>
  The pick of the fleet meets the claim of the keeper. The fleet picks over its own reading of the
  files with its runtime state laid over it; the keeper reads the same files again, checks the
  entry and the item, validates the queue and writes. The keeper refuses a pick only when another
  item of the same tree is active.
\<close>

section \<open>One store, two readers\<close>






section \<open>The address of a unit\<close>





section \<open>What the keeper may refuse\<close>




section \<open>The pick can be claimed\<close>







section \<open>A resumed milestone\<close>















end
