(* ===== verification/Queue_Table.thy ===== *)
theory Queue_Table
  imports Queue_Views
begin

text \<open>
  The two tables of the backlog document that are their own store
  (\<^verbatim>\<open>crates/softfig-keeperd/src/actions/growlight/queue.rs\<close> and
  \<^verbatim>\<open>queues.rs\<close>): the items of a named queue, whose status and order live only in this table, and
  the registry of the queues. Every verb parses the region, changes the rows and renders it again,
  so what a render followed by a parse loses is lost for good.
\<close>

section \<open>Rows\<close>

record queue_row =
  qr_id :: string
  qr_type :: string
  qr_title :: string
  qr_status :: string

record queue_def =
  qd_name :: string
  qd_repo :: string

definition row_cells :: "nat \<Rightarrow> queue_row \<Rightarrow> string list" where
  "row_cells i r =
     [show_nat (i + 1), escape (qr_id r), escape (qr_type r), escape (qr_title r), escape (qr_status r)]"

definition render_rows :: "queue_row list \<Rightarrow> string" where
  "render_rows rows =
     legacy_header @ [newline] @ legacy_separator @
     concat (map (\<lambda>(i, r). newline # table_row (row_cells i r)) (zip [0..<length rows] rows))"

definition registry_header :: string where
  "registry_header = ''| queue | repo |''"

definition registry_separator :: string where
  "registry_separator = ''|-------|------|''"

definition render_defs :: "queue_def list \<Rightarrow> string" where
  "render_defs ds =
     registry_header @ [newline] @ registry_separator @
     concat (map (\<lambda>d. newline # table_row [escape (qd_name d), escape (qd_repo d)]) ds)"

section \<open>Parsing\<close>

definition ruled :: "string \<Rightarrow> bool" where
  "ruled c \<longleftrightarrow> c \<noteq> [] \<and> list_all (\<lambda>ch. ch = CHR ''-'' \<or> ch = CHR '':'') c"

definition parse_row :: "string \<Rightarrow> queue_row option" where
  "parse_row raw =
     (let line = trim raw in
      if \<not> starts_with [pipe] line then None
      else
        let cells = split_row line in
        if length cells \<noteq> 5 then None
        else if cells ! 0 = ''#'' \<and> cells ! 1 = ''id'' then None
        else if list_all ruled cells then None
        else Some \<lparr>qr_id = cells ! 1, qr_type = cells ! 2, qr_title = cells ! 3, qr_status = cells ! 4\<rparr>)"

definition parse_rows :: "string \<Rightarrow> queue_row list" where
  "parse_rows body = List.map_filter parse_row (text_lines body)"

definition parse_def :: "string \<Rightarrow> queue_def option" where
  "parse_def raw =
     (let line = trim raw in
      if \<not> starts_with [pipe] line then None
      else
        let cells = split_row line in
        if length cells \<noteq> 2 then None
        else if cells ! 0 = ''queue'' \<and> cells ! 1 = ''repo'' then None
        else if list_all ruled cells then None
        else if cells ! 0 = [] then None
        else Some \<lparr>qd_name = cells ! 0, qd_repo = cells ! 1\<rparr>)"

definition parse_defs :: "string \<Rightarrow> queue_def list" where
  "parse_defs body = List.map_filter parse_def (text_lines body)"

section \<open>Reordering\<close>

datatype row_place = Place_Top | Place_Bottom | Place_Before string | Place_After string

datatype reorder_error = Ref_Not_Found string | Ref_Is_Self string

definition row_ref_index :: "queue_row list \<Rightarrow> string \<Rightarrow> string \<Rightarrow> reorder_error + nat" where
  "row_ref_index rest ref_id moved_id =
     (if ref_id = moved_id then Inl (Ref_Is_Self ref_id)
      else ok_or (Ref_Not_Found ref_id) (position (\<lambda>r. qr_id r = ref_id) rest))"

definition reordered :: "queue_row list \<Rightarrow> nat \<Rightarrow> row_place \<Rightarrow> reorder_error + queue_row list" where
  "reordered rows from_idx place =
     (let rest = remove_at from_idx rows; moved = rows ! from_idx in
      try_with
        (case place of
           Place_Top \<Rightarrow> Inr 0
         | Place_Bottom \<Rightarrow> Inr (length rest)
         | Place_Before ref_id \<Rightarrow> row_ref_index rest ref_id (qr_id moved)
         | Place_After ref_id \<Rightarrow> try_with (row_ref_index rest ref_id (qr_id moved)) (\<lambda>i. Inr (i + 1)))
        (\<lambda>target. Inr (insert_at target moved rest)))"

section \<open>Lines of a table\<close>

definition one_line_row :: "queue_row \<Rightarrow> bool" where
  "one_line_row r \<longleftrightarrow> list_all (\<lambda>s. newline \<notin> set s) [qr_id r, qr_type r, qr_title r, qr_status r]"

definition one_line_def :: "queue_def \<Rightarrow> bool" where
  "one_line_def d \<longleftrightarrow> newline \<notin> set (qd_name d) \<and> newline \<notin> set (qd_repo d)"

definition trim_row :: "queue_row \<Rightarrow> queue_row" where
  "trim_row r = \<lparr>qr_id = trim (qr_id r), qr_type = trim (qr_type r), qr_title = trim (qr_title r),
     qr_status = trim (qr_status r)\<rparr>"

definition trim_def_cells :: "queue_def \<Rightarrow> queue_def" where
  "trim_def_cells d = \<lparr>qd_name = trim (qd_name d), qd_repo = trim (qd_repo d)\<rparr>"

text \<open>What the registry can hold: not the words of its own header, not a ruled line, not a nameless queue.\<close>

definition registrable :: "queue_def \<Rightarrow> bool" where
  "registrable d \<longleftrightarrow> trim (qd_name d) \<noteq> [] \<and>
     \<not> (trim (qd_name d) = ''queue'' \<and> trim (qd_repo d) = ''repo'') \<and>
     \<not> (ruled (trim (qd_name d)) \<and> ruled (trim (qd_repo d)))"

lemma text_lines_rows:
  assumes "list_all (\<lambda>l. newline \<notin> set l \<and> l \<noteq> [] \<and> last l \<noteq> CHR 0x0D) (l # ls)"
  shows "text_lines (l @ concat (map (\<lambda>x. newline # x) ls)) = l # ls"
  using assms
proof (induction ls arbitrary: l)
  case Nil
  then show ?case by (simp add: text_lines_single)
next
  case (Cons m ls)
  then show ?case by (simp add: text_lines_cons strip_cr_def)
qed

lemma table_row_line:
  assumes "\<forall>c \<in> set cells. newline \<notin> set c"
  shows "newline \<notin> set (table_row cells) \<and> table_row cells \<noteq> [] \<and> last (table_row cells) \<noteq> CHR 0x0D"
proof -
  have "newline \<notin> set (join '' | '' cells)"
    using assms by (induction "'' | ''" cells rule: join.induct) (auto simp: newline_def)
  then show ?thesis by (simp add: table_row_def newline_def)
qed

lemma table_row_trim: "trim (table_row cells) = table_row cells" "starts_with [pipe] (table_row cells)"
  by (simp_all add: table_row_def trim_def trim_start_def trim_end_matches_def is_space_def starts_with_def pipe_def)

lemma show_nat_chars: "c \<in> set (show_nat n) \<Longrightarrow> is_digit c"
  using show_nat_digits [of n] by (simp add: list_all_iff)

lemma not_digits: "\<not> is_digit (CHR ''#'')" "\<not> is_digit (CHR ''-'')" "\<not> is_digit (CHR '':'')" "is_digit c \<Longrightarrow> \<not> is_space c"
  by (auto simp: is_digit_def is_space_def)

lemma number_cell:
  "trim (show_nat n) = show_nat n" "show_nat n \<noteq> ''#''" "\<not> ruled (show_nat n)" "escape (show_nat n) = show_nat n"
proof -
  show "show_nat n \<noteq> ''#''" using show_nat_chars [of "CHR ''#''" n] not_digits(1) by (metis list.set_intros(1))
  show "\<not> ruled (show_nat n)"
  proof
    assume ruled: "ruled (show_nat n)"
    then obtain c where "c \<in> set (show_nat n)" "c = CHR ''-'' \<or> c = CHR '':''"
      unfolding ruled_def list_all_iff by (metis hd_in_set)
    then show False using show_nat_chars [of c n] not_digits by blast
  qed
  show "escape (show_nat n) = show_nat n" by (rule escape_plain) (rule pipe_free)
  have "trimmed (show_nat n)"
    unfolding trimmed_def using show_nat_chars [of _ n] not_digits(4) show_nat_not_Nil [of n]
    by (metis hd_in_set last_in_set)
  then show "trim (show_nat n) = show_nat n" by (rule trim_trimmed)
qed

lemma parse_row_cells: "parse_row (table_row (row_cells i r)) = Some (trim_row r)"
proof -
  have cells: "row_cells i r = map escape [show_nat (i + 1), qr_id r, qr_type r, qr_title r, qr_status r]"
    by (simp add: row_cells_def number_cell)
  have split: "split_row (table_row (row_cells i r)) =
      map trim [show_nat (i + 1), qr_id r, qr_type r, qr_title r, qr_status r]"
    unfolding cells by (rule split_table_row) simp
  show ?thesis unfolding parse_row_def table_row_trim(1) split Let_def
    by (simp add: table_row_trim(2) number_cell trim_row_def)
qed

lemma parse_def_cells:
  "parse_def (table_row [escape (qd_name d), escape (qd_repo d)]) =
     (if registrable d then Some (trim_def_cells d) else None)"
proof -
  have cells: "[escape (qd_name d), escape (qd_repo d)] = map escape [qd_name d, qd_repo d]" by simp
  have split: "split_row (table_row [escape (qd_name d), escape (qd_repo d)]) = map trim [qd_name d, qd_repo d]"
    unfolding cells by (rule split_table_row) simp
  show ?thesis unfolding parse_def_def table_row_trim(1) split Let_def
    by (simp add: table_row_trim(2) registrable_def trim_def_cells_def)
qed

section \<open>Render, then parse\<close>

lemma parse_row_frame: "parse_row legacy_header = None" "parse_row legacy_separator = None"
  by code_simp+

lemma parse_def_frame: "parse_def registry_header = None" "parse_def registry_separator = None"
  by code_simp+

lemma render_rows_lines:
  assumes "list_all one_line_row rows"
  shows "text_lines (render_rows rows) =
    legacy_header # legacy_separator # map (\<lambda>(i, r). table_row (row_cells i r)) (zip [0..<length rows] rows)"
proof -
  let ?ls = "legacy_separator # map (\<lambda>(i, r). table_row (row_cells i r)) (zip [0..<length rows] rows)"
  have split: "render_rows rows = legacy_header @ concat (map (\<lambda>x. newline # x) ?ls)"
    by (simp add: render_rows_def split_beta' comp_def)
  have cell: "newline \<notin> set (show_nat n)" for n
    using show_nat_chars [of newline n] by (auto simp: newline_def is_digit_def)
  have "newline \<notin> set (table_row (row_cells i r)) \<and> table_row (row_cells i r) \<noteq> [] \<and>
      last (table_row (row_cells i r)) \<noteq> CHR 0x0D" if "r \<in> set rows" for i r
    by (rule table_row_line)
      (use assms that cell in \<open>auto simp: row_cells_def one_line_row_def list_all_iff escape_newline\<close>)
  then have "list_all (\<lambda>l. newline \<notin> set l \<and> l \<noteq> [] \<and> last l \<noteq> CHR 0x0D) (legacy_header # ?ls)"
    by (auto simp: list_all_iff legacy_header_def legacy_separator_def newline_def dest: set_zip_rightD)
  then show ?thesis unfolding split by (rule text_lines_rows)
qed

lemma render_defs_lines:
  assumes "list_all one_line_def ds"
  shows "text_lines (render_defs ds) =
    registry_header # registry_separator # map (\<lambda>d. table_row [escape (qd_name d), escape (qd_repo d)]) ds"
proof -
  let ?ls = "registry_separator # map (\<lambda>d. table_row [escape (qd_name d), escape (qd_repo d)]) ds"
  have split: "render_defs ds = registry_header @ concat (map (\<lambda>x. newline # x) ?ls)"
    by (simp add: render_defs_def comp_def)
  have "newline \<notin> set (table_row [escape (qd_name d), escape (qd_repo d)]) \<and>
      table_row [escape (qd_name d), escape (qd_repo d)] \<noteq> [] \<and>
      last (table_row [escape (qd_name d), escape (qd_repo d)]) \<noteq> CHR 0x0D" if "d \<in> set ds" for d
    by (rule table_row_line)
      (use assms that in \<open>auto simp: one_line_def_def list_all_iff escape_newline\<close>)
  then have "list_all (\<lambda>l. newline \<notin> set l \<and> l \<noteq> [] \<and> last l \<noteq> CHR 0x0D) (registry_header # ?ls)"
    by (auto simp: list_all_iff registry_header_def registry_separator_def newline_def)
  then show ?thesis unfolding split by (rule text_lines_rows)
qed

lemma map_filter_all: "(\<And>x. x \<in> set xs \<Longrightarrow> f x = Some (g x)) \<Longrightarrow> List.map_filter f xs = map g xs"
  by (induction xs) (simp_all add: List.map_filter_simps)

lemma map_filter_some:
  "(\<And>x. f x = (if P x then Some (g x) else None)) \<Longrightarrow> List.map_filter f xs = map g (filter P xs)"
  by (induction xs) (simp_all add: List.map_filter_simps)

lemma map_filter_map: "List.map_filter f (map h xs) = List.map_filter (f \<circ> h) xs"
  by (induction xs) (auto simp: List.map_filter_simps comp_def split: option.split)

text \<open>
  C39. The two tables of the backlog document survive a rewrite. When no text of a row holds a line
  break, parsing a rendered item table gives the rows back in order, each text trimmed at its ends:
  pipes and backslashes never split or join a cell, the row number is never taken for the header,
  and no row is dropped. The registry keeps under the same condition exactly the queues it can hold:
  it loses a nameless queue, a queue whose trimmed name and repo are the words of the header, and
  one whose name and repo consist of dashes and colons only.
\<close>

theorem queue_table_reads_back:
  assumes "list_all one_line_row rows" "list_all one_line_def ds"
  shows "parse_rows (render_rows rows) = map trim_row rows \<and>
    parse_defs (render_defs ds) = map trim_def_cells (filter registrable ds)"
proof -
  have "parse_rows (render_rows rows) = map (\<lambda>(i, r). trim_row r) (zip [0..<length rows] rows)"
    unfolding parse_rows_def render_rows_lines [OF assms(1)]
    by (auto simp: List.map_filter_simps parse_row_frame map_filter_map parse_row_cells intro!: map_filter_all)
  also have "\<dots> = map trim_row rows" by (intro nth_equalityI) simp_all
  finally have rows: "parse_rows (render_rows rows) = map trim_row rows" .
  have "parse_defs (render_defs ds) = map trim_def_cells (filter registrable ds)"
    unfolding parse_defs_def render_defs_lines [OF assms(2)]
    by (simp add: List.map_filter_simps parse_def_frame map_filter_map)
      (rule map_filter_some, simp add: parse_def_cells)
  with rows show ?thesis ..
qed

theorem queue_table_reads_back_witness:
  "parse_rows (render_rows [\<lparr>qr_id = ''001'', qr_type = ''task'', qr_title = ''a|b'', qr_status = '' queued''\<rparr>]) =
     [\<lparr>qr_id = ''001'', qr_type = ''task'', qr_title = ''a|b'', qr_status = ''queued''\<rparr>] \<and>
   parse_defs (render_defs [\<lparr>qd_name = ''queue'', qd_repo = ''repo''\<rparr>, \<lparr>qd_name = ''p'', qd_repo = ''r''\<rparr>]) =
     [\<lparr>qd_name = ''p'', qd_repo = ''r''\<rparr>]"
proof -
  let ?rows = "[\<lparr>qr_id = ''001'', qr_type = ''task'', qr_title = ''a|b'', qr_status = '' queued''\<rparr>]"
    and ?ds = "[\<lparr>qd_name = ''queue'', qd_repo = ''repo''\<rparr>, \<lparr>qd_name = ''p'', qd_repo = ''r''\<rparr>]"
  have "list_all one_line_row ?rows" "list_all one_line_def ?ds" by code_simp+
  note readback = queue_table_reads_back [OF this]
  have "map trim_row ?rows = [\<lparr>qr_id = ''001'', qr_type = ''task'', qr_title = ''a|b'', qr_status = ''queued''\<rparr>]"
    "map trim_def_cells (filter registrable ?ds) = [\<lparr>qd_name = ''p'', qd_repo = ''r''\<rparr>]"
    by code_simp+
  with readback show ?thesis by simp
qed

section \<open>Moves\<close>

text \<open>A move keeps every row and the order of the others, and puts the row where it was asked to.\<close>

lemma reordered_moves:
  assumes "from_idx < length rows" "reordered rows from_idx place = Inr rows'"
  shows "\<exists>t \<le> length rows - 1. rows' = insert_at t (rows ! from_idx) (remove_at from_idx rows) \<and> mset rows' = mset rows \<and>
    (case place of
       Place_Top \<Rightarrow> t = 0
     | Place_Bottom \<Rightarrow> t = length rows - 1
     | Place_Before ref_id \<Rightarrow> t < length (remove_at from_idx rows) \<and> qr_id (remove_at from_idx rows ! t) = ref_id
     | Place_After ref_id \<Rightarrow> 0 < t \<and> qr_id (remove_at from_idx rows ! (t - 1)) = ref_id)"
proof -
  let ?rest = "remove_at from_idx rows" and ?moved = "rows ! from_idx"
  have len: "length ?rest = length rows - 1" using assms(1) by (simp add: remove_at_def)
  have ms: "add_mset ?moved (mset ?rest) = mset rows"
    using arg_cong [OF remove_at_split [OF assms(1)], of mset] by (simp add: remove_at_def)
  have at: "row_ref_index ?rest ref_id mid = Inr i \<Longrightarrow> i < length ?rest \<and> qr_id (?rest ! i) = ref_id" for ref_id mid i
    by (auto simp: row_ref_index_def ok_or_Inr dest: position_Some split: if_splits)
  obtain t where t: "rows' = insert_at t ?moved ?rest" "t \<le> length ?rest"
      "case place of Place_Top \<Rightarrow> t = 0 | Place_Bottom \<Rightarrow> t = length ?rest
       | Place_Before ref_id \<Rightarrow> t < length ?rest \<and> qr_id (?rest ! t) = ref_id
       | Place_After ref_id \<Rightarrow> 0 < t \<and> qr_id (?rest ! (t - 1)) = ref_id"
  proof (cases place)
    case (Place_Before ref_id)
    then obtain t where "row_ref_index ?rest ref_id (qr_id ?moved) = Inr t" "rows' = insert_at t ?moved ?rest"
      using assms(2) by (auto simp: reordered_def Let_def try_with_Inr)
    then show ?thesis using that [of t] at Place_Before by (simp add: less_imp_le)
  next
    case (Place_After ref_id)
    then obtain t where "row_ref_index ?rest ref_id (qr_id ?moved) = Inr t" "rows' = insert_at (t + 1) ?moved ?rest"
      using assms(2) by (auto simp: reordered_def Let_def try_with_Inr)
    then show ?thesis using that [of "t + 1"] at Place_After by (simp add: Suc_le_eq)
  qed (use assms(2) that in \<open>auto simp: reordered_def Let_def\<close>)
  then show ?thesis using len ms by (intro exI [of _ t]) (simp add: mset_insert_at split: row_place.splits)
qed

end
