(* ===== verification/Queue_Verbs.thy ===== *)
theory Queue_Verbs
  imports Queue_Ops
begin

text \<open>
  The human verbs on the queue v2 files
  (\<^verbatim>\<open>crates/softfig-keeperd/src/actions/growlight/queue_verbs.rs\<close>): add a project, add an
  entry of each kind, edit an entry, insert and edit a slice, drop an entry. Each is again the plan
  before its one write; a dry run stops there and answers the untouched tip.
\<close>

section \<open>Requests and replies\<close>

record add_project_args =
  ap_name :: string
  ap_repo :: string
  ap_main :: "string option"
  ap_dry_run :: bool

record add_entry_args =
  ae_kind :: entry_kind
  ae_slug :: "string option"
  ae_title :: "string option"
  ae_mission :: "string option"
  ae_finish_criteria :: "string option"
  ae_project :: string
  ae_lane :: "lane option"
  ae_after :: "string list"
  ae_position :: "string option"
  ae_ref :: "string option"
  ae_slices :: "slice_spec list"
  ae_dry_run :: bool

datatype queue_status_arg = HQueued | HBlocked | HDeferred | HDone | HActive | HPaused | HSplit

record move_spec =
  mv_to :: string
  mv_ref :: "string option"

record update_entry_args =
  ue_id :: string
  ue_lane :: "lane option"
  ue_move :: "move_spec option"
  ue_after :: "string list option"
  ue_status :: "queue_status_arg option"
  ue_dry_run :: bool

record slice_insert_args =
  si_milestone :: string
  si_slug :: string
  si_title :: "string option"
  si_body :: string
  si_position :: "string option"
  si_ref :: "string option"
  si_dry_run :: bool

record slice_update_args =
  su_milestone :: string
  su_id :: string
  su_move :: "move_spec option"
  su_status :: "slice_status option"
  su_dry_run :: bool

record drop_args =
  qd_id :: string
  qd_reason :: string
  qd_dry_run :: bool

record list_reply =
  lr_id :: string
  lr_view :: string
  lr_hash :: string

record entry_reply = list_reply +
  lr_path :: string

record slice_reply = list_reply +
  lr_milestone :: string

record slice_doc_reply = slice_reply +
  lr_slice_path :: string

section \<open>Placement\<close>

datatype v2_position = PFront | PBack | PBefore string | PAfter string

definition parse_position :: "string option \<Rightarrow> string option \<Rightarrow> op_error + v2_position" where
  "parse_position pos ref_id =
     (let p = (case pos of Some s \<Rightarrow> s | None \<Rightarrow> ''back'');
          r = (case map_option trim ref_id of Some s \<Rightarrow> if s = [] then None else Some s | None \<Rightarrow> None) in
      if p = ''front'' \<or> p = ''back'' then
        (if r \<noteq> None then Inl (bad ''position takes no ref'')
         else Inr (if p = ''front'' then PFront else PBack))
      else if p = ''before'' \<or> p = ''after'' then
        try_with (ok_or (bad ''position requires ref'') r) (\<lambda>s.
        Inr (if p = ''before'' then PBefore s else PAfter s))
      else Inl (bad ''must be one of front / back / before / after''))"

definition lane_front :: "entry list \<Rightarrow> lane \<Rightarrow> nat" where
  "lane_front es l =
     (case position (\<lambda>e. e_lane e = l) es of
        Some i \<Rightarrow> i
      | None \<Rightarrow> (case l of Urgent \<Rightarrow> 0 | Normal \<Rightarrow> length es))"

definition ref_index :: "entry list \<Rightarrow> lane \<Rightarrow> string \<Rightarrow> queue_refusal + nat" where
  "ref_index es l r =
     try_with (ok_or (UnknownId r) (position (\<lambda>e. e_id e = r) es)) (\<lambda>i.
     if e_lane (es ! i) \<noteq> l then Inl (LaneMismatch r) else Inr i)"

fun place_entry :: "entry list \<Rightarrow> lane \<Rightarrow> v2_position \<Rightarrow> queue_refusal + nat" where
  "place_entry es l PFront = Inr (lane_front es l)"
| "place_entry es l PBack =
     Inr (case rposition (\<lambda>e. e_lane e = l) es of Some i \<Rightarrow> i + 1 | None \<Rightarrow> lane_front es l)"
| "place_entry es l (PBefore r) = ref_index es l r"
| "place_entry es l (PAfter r) = try_with (ref_index es l r) (\<lambda>i. Inr (i + 1))"

definition item_index :: "slice_item list \<Rightarrow> string \<Rightarrow> queue_refusal + nat" where
  "item_index its r = ok_or (UnknownId r) (position (\<lambda>i. i_id i = r) its)"

fun place_item :: "slice_item list \<Rightarrow> v2_position \<Rightarrow> queue_refusal + nat" where
  "place_item its PFront = Inr 0"
| "place_item its PBack = Inr (length its)"
| "place_item its (PBefore r) = item_index its r"
| "place_item its (PAfter r) = try_with (item_index its r) (\<lambda>i. Inr (i + 1))"

text \<open>The index of an id that is known to be there.\<close>

definition idx_of :: "queue_toml \<Rightarrow> string \<Rightarrow> nat" where
  "idx_of q ident = (case position (\<lambda>e. e_id e = ident) (q_entries q) of Some i \<Rightarrow> i | None \<Rightarrow> 0)"

definition slice_idx :: "slices_toml \<Rightarrow> string \<Rightarrow> nat" where
  "slice_idx s ident = (case position (\<lambda>i. i_id i = ident) (s_items s) of Some i \<Rightarrow> i | None \<Rightarrow> 0)"

definition insert_entry :: "queue_toml \<Rightarrow> nat \<Rightarrow> entry \<Rightarrow> queue_toml" where
  "insert_entry q i e = q\<lparr>q_entries := insert_at i e (q_entries q)\<rparr>"

section \<open>The documents\<close>

definition fresh_slice_item :: "nat \<Rightarrow> slice_item" where
  "fresh_slice_item n = \<lparr>i_kind = Slice, i_id = show_03 n, i_status = SQueued, i_follow_ups = Some 0\<rparr>"

definition projects_view :: "project list \<Rightarrow> string" where
  "projects_view ps =
     ''| name | repo | main |'' @ [newline] @ ''|---|------|------|''
       @ concat (map (\<lambda>p. [newline] @ ''| '' @ escape (p_name p) @ '' | '' @ escape (p_repo p) @ '' | ''
           @ escape (p_main p) @ '' |'') ps)
       @ [newline]"

definition mission_sections :: "string \<Rightarrow> string \<Rightarrow> string" where
  "mission_sections mission finish =
     ''## Mission'' @ [newline, newline] @ trim_newlines mission @ [newline, newline]
       @ ''## Finish criteria'' @ [newline, newline] @ trim_newlines finish @ [newline]"

definition milestone_doc_v2 :: "string \<Rightarrow> string \<Rightarrow> string \<Rightarrow> string \<Rightarrow> string" where
  "milestone_doc_v2 ident title mission finish =
     ''# backlog: '' @ title @ [newline, newline]
       @ ''> Milestone '' @ code_span ident @ ''. Status, lane, '' @ code_span ''after''
       @ '' links and branch live in '' @ code_span ''queue.toml'' @ '' (the derived ''
       @ code_span ''softfig:queue-v2'' @ '' table in '' @ code_span ''../../CLAUDE.md'' @ ''); ''
       @ ''slices run in '' @ code_span ''slices.toml''
       @ '' order (the derived table below) and this item is done only when all are done and ''
       @ ''integration is verified.'' @ [newline, newline]
       @ mission_sections mission finish"

text \<open>The en dash is the three bytes \<^verbatim>\<open>E2 80 93\<close>.\<close>

definition plan_slice_body :: "string \<Rightarrow> string" where
  "plan_slice_body mission =
     ''> Model: reasoning'' @ [newline, newline]
       @ ''This milestone was added without slices. Plan it:'' @ [newline, newline]
       @ ''1. Read the mission below (it lives in '' @ code_span ''../../CLAUDE.md''
       @ '') and the spec it names.'' @ [newline]
       @ ''2. Write the milestone's slices with '' @ code_span ''slice_insert''
       @ '', each sized to one session (the protocol's 25'' @ [CHR 0xE2, CHR 0x80, CHR 0x93]
       @ ''50% context band), each declaring a single-entry '' @ code_span ''> Model:'' @ ''.'' @ [newline]
       @ ''3. End with '' @ code_span ''growlight_complete_slice'' @ ''.'' @ [newline, newline]
       @ ''Mission:'' @ [newline, newline] @ trim_newlines mission"

definition task_doc_v2 :: "env \<Rightarrow> string \<Rightarrow> string \<Rightarrow> string \<Rightarrow> string \<Rightarrow> string" where
  "task_doc_v2 v ident title mission finish =
     ''# '' @ title @ [newline, newline]
       @ ''> Task '' @ code_span ident @ ''. Status, lane, '' @ code_span ''after''
       @ '' links and branch live in '' @ code_span ''queue.toml'' @ '' (the derived ''
       @ code_span ''softfig:queue-v2'' @ '' table in '' @ code_span ''../CLAUDE.md'' @ '').'' @ [newline, newline]
       @ ''> Last reviewed: '' @ v_today v @ [newline, newline]
       @ mission_sections mission finish"

definition restack_doc :: "string \<Rightarrow> string \<Rightarrow> string" where
  "restack_doc project date =
     ''# Restack '' @ project @ [newline, newline] @ ''> Last reviewed: '' @ date @ [newline, newline]
       @ ''> Generated restack entry for project '' @ code_span project @ '' (queue v2 ''
       @ [CHR 0xC2, CHR 0xA7] @ ''8). Lane, status and branch live in '' @ code_span ''queue.toml''
       @ '' (the derived '' @ code_span ''softfig:queue-v2'' @ '' table in '' @ code_span ''../CLAUDE.md''
       @ ''). The full doc '' @ em_dash @ '' the stack in order, the steps, the gate command ''
       @ em_dash @ '' is generated by '' @ code_span ''queue-v2-git'' @ ''.'' @ [newline]"

section \<open>Adding a project\<close>

definition add_project_plan ::
  "env \<Rightarrow> garden \<Rightarrow> add_project_args \<Rightarrow> op_error + ((string \<Rightarrow> list_reply) \<times> plan)" where
  "add_project_plan v g args =
     try_with (guard (is_ok (validate_slug (ap_name args))) (Refused (BadName (ap_name args)))) (\<lambda>_.
     try_with (require_text (ap_repo args) ''repo must be non-empty'') (\<lambda>_.
     let main = (case ap_main args of Some m \<Rightarrow> m | None \<Rightarrow> ''main'') in
     try_with (require_text main ''main must be non-empty'') (\<lambda>_.
     try_with (require_unlocked g) (\<lambda>_.
     try_with (map_err Corrupt (load_queue_state v (g_files g))) (\<lambda>loaded.
     try_with (case loaded of
         Some qs \<Rightarrow>
           try_with (guard (\<not> list_ex (\<lambda>p. p_name p = ap_name args) (q_projects (l_model (qs_queue qs))))
               (Refused (Exists (ap_name args)))) (\<lambda>_.
           Inr (l_model (qs_queue qs), l_version (qs_queue qs)))
       | None \<Rightarrow> Inr (queue_new [] [], None)) (\<lambda>(q0, version).
     let q = q0\<lparr>q_projects := q_projects q0 @
           [\<lparr>p_name = ap_name args, p_repo = ap_repo args, p_main = main\<rparr>]\<rparr> in
     try_with (queue_write v q version) (\<lambda>f.
     let reply = (\<lambda>h. \<lparr>lr_id = ap_name args, lr_view = projects_view (q_projects q), lr_hash = h\<rparr>) in
     Inr (reply, if ap_dry_run args then Keep
                 else Write ''queue_v2_updated'' [f] [queue_view_write q] no_extras))))))))"

definition queue_add_project ::
  "env \<Rightarrow> add_project_args \<Rightarrow> garden \<Rightarrow> (op_error + list_reply) \<times> garden" where
  "queue_add_project v args g = run_plan v (add_project_plan v g args) g"

section \<open>Adding an entry\<close>

definition member_reserved_field :: "add_entry_args \<Rightarrow> bool" where
  "member_reserved_field args \<longleftrightarrow>
     (let declares = (\<lambda>t. reserved_field t sub_doc_reserved \<noteq> None) in
      list_ex (\<lambda>t. case t of Some s \<Rightarrow> declares s | None \<Rightarrow> False)
        [ae_title args, ae_mission args, ae_finish_criteria args] \<or>
      list_ex (\<lambda>s. (case sp_title s of Some t \<Rightarrow> declares t | None \<Rightarrow> False) \<or> declares (sp_body s))
        (ae_slices args))"

definition required_arg :: "string option \<Rightarrow> string \<Rightarrow> op_error + string" where
  "required_arg x msg =
     (case x of
        Some s \<Rightarrow> if trim s \<noteq> [] then Inr s else Inl (bad msg)
      | None \<Rightarrow> Inl (bad msg))"

fun check_after :: "queue_toml \<Rightarrow> queue_archive_toml \<Rightarrow> string list \<Rightarrow> op_error + unit" where
  "check_after q ar [] = Inr ()"
| "check_after q ar (l # ls) =
     (if \<not> list_ex (\<lambda>e. e_id e = l) (q_entries q) \<and> l \<notin> done_ids ar
      then Inl (Refused (UnknownId l)) else check_after q ar ls)"

definition load_for_add ::
  "env \<Rightarrow> files \<Rightarrow> string \<Rightarrow> string list \<Rightarrow>
     op_error + (queue_toml \<times> string option \<times> queue_archive_toml)" where
  "load_for_add v fs project links =
     try_with (map_err Corrupt (load_queue_state v fs)) (\<lambda>loaded.
     case loaded of
       None \<Rightarrow> Inl (Refused (UnknownProject project))
     | Some qs \<Rightarrow>
         (let q = l_model (qs_queue qs); ar = l_model (qs_archive qs) in
          try_with (guard (list_ex (\<lambda>p. p_name p = project) (q_projects q))
              (Refused (UnknownProject project))) (\<lambda>_.
          try_with (check_after q ar links) (\<lambda>_.
          Inr (q, l_version (qs_queue qs), ar)))))"

definition new_entry ::
  "env \<Rightarrow> entry_kind \<Rightarrow> string \<Rightarrow> string \<Rightarrow> string \<Rightarrow> lane \<Rightarrow> string list \<Rightarrow> string \<Rightarrow> entry" where
  "new_entry v kind ident title project ln links branch =
     \<lparr>e_id = ident, e_kind = kind, e_title = title, e_project = project, e_lane = ln,
      e_status = EQueued, e_after = links, e_added = v_now v, e_branch = branch, e_parent = [],
      e_base = [], e_claimed = [], e_follow_ups = 0, e_pending_status = None\<rparr>"

definition lane_of :: "add_entry_args \<Rightarrow> lane" where
  "lane_of args = (case ae_lane args of Some l \<Rightarrow> l | None \<Rightarrow> Normal)"

text \<open>A milestone given no slices gets the planning slice.\<close>

definition milestone_slices ::
  "env \<Rightarrow> string \<Rightarrow> string \<Rightarrow> slice_spec list \<Rightarrow> file_write list \<times> slice_item list \<times> nat" where
  "milestone_slices v dir mission specs =
     (if specs = [] then
        ([\<lparr>f_rel = in_dir dir (note_filename 1 ''plan''), f_expected = None,
           f_bytes = note_doc ''Plan'' (v_today v) (plan_slice_body mission)\<rparr>], [fresh_slice_item 1], 1)
      else
        (map (slice_doc_write v dir) (numbered specs), map (\<lambda>(n, s). fresh_slice_item n) (numbered specs),
         length specs))"

definition seq_write :: "string \<Rightarrow> string option \<Rightarrow> nat \<Rightarrow> file_write" where
  "seq_write dir version n =
     \<lparr>f_rel = in_dir dir seq_file, f_expected = version, f_bytes = show_nat n @ [newline]\<rparr>"

definition new_file :: "string \<Rightarrow> string \<Rightarrow> file_write" where
  "new_file rel bytes = \<lparr>f_rel = rel, f_expected = None, f_bytes = bytes\<rparr>"

definition entry_text ::
  "add_entry_args \<Rightarrow> op_error + (string \<times> string \<times> string \<times> string)" where
  "entry_text args =
     try_with (required_arg (ae_slug args) ''slug must be non-empty'') (\<lambda>slug.
     try_with (required_arg (ae_title args) ''title must be non-empty'') (\<lambda>title.
     try_with (required_arg (ae_mission args) ''mission must be non-empty'') (\<lambda>mission.
     try_with (required_arg (ae_finish_criteria args) ''finish_criteria must be non-empty'') (\<lambda>finish.
     try_with (guard (is_ok (validate_slug slug)) (Refused (BadName slug))) (\<lambda>_.
     Inr (slug, title, mission, finish))))))"

definition add_milestone_plan ::
  "env \<Rightarrow> garden \<Rightarrow> add_entry_args \<Rightarrow> op_error + ((string \<Rightarrow> entry_reply) \<times> plan)" where
  "add_milestone_plan v g args =
     try_with (entry_text args) (\<lambda>(slug, title, mission, finish).
     try_with (parse_position (ae_position args) (ae_ref args)) (\<lambda>pos.
     try_with (check_specs (ae_slices args)) (\<lambda>_.
     try_with (require_unlocked g) (\<lambda>_.
     let doc_rel = slices_view_host slug; dir = milestone_path slug @ ''/slices'' in
     try_with (guard (\<not> wt_exists (g_files g) doc_rel) (Refused (Exists slug))) (\<lambda>_.
     try_with (load_for_add v (g_files g) (ae_project args) (ae_after args)) (\<lambda>(q0, version, ar).
     case milestone_slices v dir mission (ae_slices args) of (docs, items, seq) \<Rightarrow>
     let slices = slices_new slug items;
         e = new_entry v Milestone slug title (ae_project args) (lane_of args) (ae_after args)
               (''feat/'' @ slug) in
     try_with (map_err Refused (place_entry (q_entries q0) (lane_of args) pos)) (\<lambda>i.
     let q = insert_entry q0 i e in
     try_with (map_err Refused (validate q ar)) (\<lambda>_.
     try_with (queue_write v q version) (\<lambda>f1.
     try_with (slices_write v slug slices None) (\<lambda>f2.
     Inr (\<lambda>h. \<lparr>lr_id = slug, lr_view = queue_view q, lr_hash = h, lr_path = doc_rel\<rparr>,
          if ae_dry_run args then Keep
          else Write ''queue_v2_updated'' [f1, f2]
            [queue_view_write q, \<lparr>w_host = doc_rel, w_tag = slices_v2_tag, w_body = Some (slices_view slices)\<rparr>]
            \<lparr>x_writes = [new_file doc_rel (milestone_doc_v2 slug title mission finish),
                         seq_write dir None seq] @ docs,
             x_refresh_backlinks = True\<rparr>)))))))))))"

definition add_task_plan ::
  "env \<Rightarrow> garden \<Rightarrow> add_entry_args \<Rightarrow> op_error + ((string \<Rightarrow> entry_reply) \<times> plan)" where
  "add_task_plan v g args =
     try_with (entry_text args) (\<lambda>(slug, title, mission, finish).
     try_with (guard (ae_slices args = []) (bad ''task kind takes no slices'')) (\<lambda>_.
     try_with (parse_position (ae_position args) (ae_ref args)) (\<lambda>pos.
     try_with (require_unlocked g) (\<lambda>_.
     let n = unat (next_number (g_files g) tasks_dir); ident = show_03 n;
         rel = in_dir tasks_dir (note_filename n slug) in
     try_with (guard (\<not> wt_exists (g_files g) rel) (Refused (Exists ident))) (\<lambda>_.
     try_with (load_for_add v (g_files g) (ae_project args) (ae_after args)) (\<lambda>(q0, version, ar).
     let e = new_entry v Task ident title (ae_project args) (lane_of args) (ae_after args)
               (''fix/'' @ ident) in
     try_with (map_err Refused (place_entry (q_entries q0) (lane_of args) pos)) (\<lambda>i.
     let q = insert_entry q0 i e in
     try_with (map_err Refused (validate q ar)) (\<lambda>_.
     try_with (queue_write v q version) (\<lambda>f.
     Inr (\<lambda>h. \<lparr>lr_id = ident, lr_view = queue_view q, lr_hash = h, lr_path = rel\<rparr>,
          if ae_dry_run args then Keep
          else Write ''queue_v2_updated'' [f] [queue_view_write q]
            \<lparr>x_writes = [new_file rel (task_doc_v2 v ident title mission finish),
                         seq_write tasks_dir (seq_version v (g_files g) tasks_dir) n],
             x_refresh_backlinks = True\<rparr>))))))))))"

record restack_staged =
  rs_id :: string
  rs_number :: nat
  rs_rel :: string
  rs_content :: string

definition restack_core ::
  "env \<Rightarrow> files \<Rightarrow> queue_toml \<Rightarrow> string \<Rightarrow> nat \<Rightarrow> op_error + (restack_staged \<times> queue_toml)" where
  "restack_core v fs q project n =
     (let ident = show_03 n; rel = in_dir tasks_dir (note_filename n (''restack-'' @ project)) in
      try_with (guard (\<not> wt_exists fs rel) (Refused (Exists ident))) (\<lambda>_.
      try_with (map_err Refused (place_entry (q_entries q) Urgent PBack)) (\<lambda>i.
      Inr (\<lparr>rs_id = ident, rs_number = n, rs_rel = rel, rs_content = restack_doc project (v_today v)\<rparr>,
           insert_entry q i
             (new_entry v Restack ident (''Restack '' @ project) project Urgent [] [])))))"

definition restack_shape :: "add_entry_args \<Rightarrow> bool" where
  "restack_shape args \<longleftrightarrow>
     ae_slug args = None \<and> ae_title args = None \<and> ae_mission args = None \<and>
     ae_finish_criteria args = None \<and> ae_lane args = None \<and> ae_position args = None \<and>
     ae_ref args = None \<and> ae_after args = [] \<and> ae_slices args = []"

definition add_restack_plan ::
  "env \<Rightarrow> garden \<Rightarrow> add_entry_args \<Rightarrow> op_error + ((string \<Rightarrow> entry_reply) \<times> plan)" where
  "add_restack_plan v g args =
     try_with (guard (restack_shape args) (bad ''restack kind takes only kind + project'')) (\<lambda>_.
     try_with (require_text (ae_project args) ''project must be non-empty'') (\<lambda>_.
     try_with (require_unlocked g) (\<lambda>_.
     try_with (load_for_add v (g_files g) (ae_project args) []) (\<lambda>(q0, version, ar).
     try_with (restack_core v (g_files g) q0 (ae_project args)
         (unat (next_number (g_files g) tasks_dir))) (\<lambda>(rs, q).
     try_with (map_err Refused (validate q ar)) (\<lambda>_.
     try_with (queue_write v q version) (\<lambda>f.
     Inr (\<lambda>h. \<lparr>lr_id = rs_id rs, lr_view = queue_view q, lr_hash = h, lr_path = rs_rel rs\<rparr>,
          if ae_dry_run args then Keep
          else Write ''queue_v2_updated'' [f] [queue_view_write q]
            \<lparr>x_writes = [new_file (rs_rel rs) (rs_content rs),
                         seq_write tasks_dir (seq_version v (g_files g) tasks_dir) (rs_number rs)],
             x_refresh_backlinks = True\<rparr>))))))))"

text \<open>The caller is a fleet member or not; a member may not write reserved lines.\<close>

definition add_entry_plan ::
  "env \<Rightarrow> garden \<Rightarrow> string option \<Rightarrow> add_entry_args \<Rightarrow> op_error + ((string \<Rightarrow> entry_reply) \<times> plan)" where
  "add_entry_plan v g member args =
     (if member \<noteq> None \<and> member_reserved_field args then Inl (bad ''field_not_allowed'')
      else (case ae_kind args of
              Milestone \<Rightarrow> add_milestone_plan v g args
            | Task \<Rightarrow> add_task_plan v g args
            | Restack \<Rightarrow> add_restack_plan v g args))"

definition queue_add_entry ::
  "env \<Rightarrow> string option \<Rightarrow> add_entry_args \<Rightarrow> garden \<Rightarrow> (op_error + entry_reply) \<times> garden" where
  "queue_add_entry v member args g = run_plan v (add_entry_plan v g member args) g"

section \<open>Editing an entry\<close>

definition parse_move :: "move_spec option \<Rightarrow> op_error + v2_position option" where
  "parse_move mv =
     (case mv of
        Some m \<Rightarrow> try_with (parse_position (Some (mv_to m)) (mv_ref m)) (\<lambda>p. Inr (Some p))
      | None \<Rightarrow> Inr None)"

definition self_ref :: "v2_position \<Rightarrow> string \<Rightarrow> bool" where
  "self_ref pos ident \<longleftrightarrow> pos = PBefore ident \<or> pos = PAfter ident"

definition lane_edit :: "queue_toml \<Rightarrow> string \<Rightarrow> lane option \<Rightarrow> op_error + queue_toml" where
  "lane_edit q ident new_lane =
     (case new_lane of
        None \<Rightarrow> Inr q
      | Some l \<Rightarrow>
          (let i = idx_of q ident; e = q_entries q ! i in
           if e_lane e = l then Inr q
           else
             (let q1 = q\<lparr>q_entries := remove_at i (q_entries q)\<rparr> in
              try_with (map_err Refused (place_entry (q_entries q1) l
                  (case l of Urgent \<Rightarrow> PBack | Normal \<Rightarrow> PFront))) (\<lambda>at.
              Inr (insert_entry q1 at (e\<lparr>e_lane := l\<rparr>))))))"

definition move_edit :: "queue_toml \<Rightarrow> string \<Rightarrow> v2_position option \<Rightarrow> op_error + queue_toml" where
  "move_edit q ident mv =
     (case mv of
        None \<Rightarrow> Inr q
      | Some pos \<Rightarrow>
          try_with (guard (\<not> self_ref pos ident) (bad ''cannot move an entry relative to itself'')) (\<lambda>_.
          let i = idx_of q ident; e = q_entries q ! i in
          try_with (guard (e_claimed e = []) (Refused (Started ident))) (\<lambda>_.
          let q1 = q\<lparr>q_entries := remove_at i (q_entries q)\<rparr> in
          try_with (map_err Refused (place_entry (q_entries q1) (e_lane e) pos)) (\<lambda>at.
          Inr (insert_entry q1 at e)))))"

definition after_edit ::
  "queue_toml \<Rightarrow> queue_archive_toml \<Rightarrow> string \<Rightarrow> string list option \<Rightarrow> op_error + queue_toml" where
  "after_edit q ar ident links =
     (case links of
        None \<Rightarrow> Inr q
      | Some ls \<Rightarrow>
          try_with (check_after q ar ls) (\<lambda>_.
          let i = idx_of q ident in
          Inr (set_row q i ((q_entries q ! i)\<lparr>e_after := ls\<rparr>))))"

fun human_status :: "queue_status_arg \<Rightarrow> entry_status" where
  "human_status HQueued = EQueued"
| "human_status HBlocked = EBlocked"
| "human_status _ = EDeferred"

text \<open>The status edit, with the flag that the row moved to the archive.\<close>

definition status_edit ::
  "env \<Rightarrow> queue_toml \<Rightarrow> queue_archive_toml \<Rightarrow> string \<Rightarrow> queue_status_arg option \<Rightarrow>
     op_error + (queue_toml \<times> queue_archive_toml \<times> bool)" where
  "status_edit v q ar ident status =
     (case status of
        None \<Rightarrow> Inr (q, ar, False)
      | Some st \<Rightarrow>
          (let i = idx_of q ident; row = q_entries q ! i in
           if st = HActive \<or> st = HPaused \<or> st = HSplit then Inl (Refused (DaemonOwned ident))
           else if st = HDone then
             (if e_status row = EActive then Inl (Refused (Running ident))
              else Inr (q\<lparr>q_entries := remove_at i (q_entries q)\<rparr>,
                        ar\<lparr>a_entries := a_entries ar @
                          [\<lparr>a_row = row, a_finished = v_now v, a_final_status = FDone, a_reason = None\<rparr>]\<rparr>,
                        True))
           else if e_status row = EActive
             then Inr (set_row q i (row\<lparr>e_pending_status := Some (human_status st)\<rparr>), ar, False)
             else Inr (set_row q i (row\<lparr>e_status := human_status st\<rparr>), ar, False)))"

definition edit_entry ::
  "env \<Rightarrow> queue_toml \<Rightarrow> queue_archive_toml \<Rightarrow> update_entry_args \<Rightarrow> v2_position option \<Rightarrow>
     op_error + (queue_toml \<times> queue_archive_toml \<times> bool)" where
  "edit_entry v q ar args mv =
     try_with (lane_edit q (ue_id args) (ue_lane args)) (\<lambda>q1.
     try_with (move_edit q1 (ue_id args) mv) (\<lambda>q2.
     try_with (after_edit q2 ar (ue_id args) (ue_after args)) (\<lambda>q3.
     status_edit v q3 ar (ue_id args) (ue_status args))))"

definition update_entry_plan ::
  "env \<Rightarrow> garden \<Rightarrow> update_entry_args \<Rightarrow> op_error + ((string \<Rightarrow> list_reply) \<times> plan)" where
  "update_entry_plan v g args =
     try_with (require_text (ue_id args) ''id must be non-empty'') (\<lambda>_.
     try_with (parse_move (ue_move args)) (\<lambda>mv.
     try_with (require_unlocked g) (\<lambda>_.
     try_with (map_err Corrupt (load_queue_state v (g_files g))) (\<lambda>loaded.
     try_with (ok_or (Refused (UnknownId (ue_id args))) loaded) (\<lambda>qs.
     let q0 = l_model (qs_queue qs); ar0 = l_model (qs_archive qs) in
     try_with (guard (list_ex (\<lambda>e. e_id e = ue_id args) (q_entries q0))
         (Refused (UnknownId (ue_id args)))) (\<lambda>_.
     try_with (edit_entry v q0 ar0 args mv) (\<lambda>(q, ar, archived).
     let reply = (\<lambda>h. \<lparr>lr_id = ue_id args, lr_view = queue_view q, lr_hash = h\<rparr>) in
     if q = q0 \<and> ar = ar0 then Inr (reply, Keep)
     else
       try_with (map_err Refused (validate q ar)) (\<lambda>_.
       if ue_dry_run args then Inr (reply, Keep)
       else
         try_with (queue_write v q (l_version (qs_queue qs))) (\<lambda>f.
         try_with (if archived
             then try_with (archive_write v ar (l_version (qs_archive qs))) (\<lambda>fa. Inr [fa])
             else Inr []) (\<lambda>fas.
         Inr (reply, Write ''queue_v2_updated'' (f # fas) [queue_view_write q] no_extras))))))))))) "

definition queue_update_entry ::
  "env \<Rightarrow> update_entry_args \<Rightarrow> garden \<Rightarrow> (op_error + list_reply) \<times> garden" where
  "queue_update_entry v args g = run_plan v (update_entry_plan v g args) g"

section \<open>Slices\<close>

definition slice_insert_plan ::
  "env \<Rightarrow> garden \<Rightarrow> slice_insert_args \<Rightarrow> op_error + ((string \<Rightarrow> slice_doc_reply) \<times> plan)" where
  "slice_insert_plan v g args =
     try_with (guard (is_ok (validate_slug (si_slug args))) (Refused (BadName (si_slug args)))) (\<lambda>_.
     try_with (require_text (si_body args) ''body must be non-empty'') (\<lambda>_.
     try_with (require_text (si_milestone args) ''milestone must be non-empty'') (\<lambda>_.
     try_with (map_err Refused (sub_depth (si_milestone args))) (\<lambda>_.
     try_with (parse_position (si_position args) (si_ref args)) (\<lambda>pos.
     try_with (require_unlocked g) (\<lambda>_.
     let m = si_milestone args; dir = milestone_path m @ ''/slices'';
         title = (case si_title args of Some t \<Rightarrow> t | None \<Rightarrow> si_slug args) in
     try_with (map_err Corrupt (load_slices v (g_files g) m)) (\<lambda>loaded.
     try_with (ok_or (Refused (UnknownId m)) loaded) (\<lambda>l.
     let n = unat (next_number (g_files g) dir); ident = show_03 n;
         rel = in_dir dir (note_filename n (si_slug args)) in
     try_with (guard (\<not> wt_exists (g_files g) rel) (Refused (Exists ident))) (\<lambda>_.
     try_with (map_err Refused (place_item (s_items (l_model l)) pos)) (\<lambda>i.
     let s = (l_model l)\<lparr>s_items := insert_at i (fresh_slice_item n) (s_items (l_model l))\<rparr> in
     try_with (map_err Refused (slices_validate s m)) (\<lambda>_.
     let reply = (\<lambda>h. \<lparr>lr_id = ident, lr_view = slices_view s, lr_hash = h, lr_milestone = m,
                       lr_slice_path = rel\<rparr>) in
     if si_dry_run args then Inr (reply, Keep)
     else
       try_with (slices_write v m s (l_version l)) (\<lambda>f.
       Inr (reply, Write ''queue_v2_updated'' [f] [slices_view_write m s]
         \<lparr>x_writes = [new_file rel (note_doc title (v_today v) (si_body args)),
                      seq_write dir (seq_version v (g_files g) dir) n],
          x_refresh_backlinks = True\<rparr>)))))))))))))"

definition slice_insert ::
  "env \<Rightarrow> slice_insert_args \<Rightarrow> garden \<Rightarrow> (op_error + slice_doc_reply) \<times> garden" where
  "slice_insert v args g = run_plan v (slice_insert_plan v g args) g"

definition slice_move ::
  "slices_toml \<Rightarrow> string \<Rightarrow> v2_position option \<Rightarrow> op_error + slices_toml" where
  "slice_move s ident mv =
     (case mv of
        None \<Rightarrow> Inr s
      | Some pos \<Rightarrow>
          try_with (guard (\<not> self_ref pos ident) (bad ''cannot move a slice relative to itself'')) (\<lambda>_.
          let i = slice_idx s ident; it = s_items s ! i in
          try_with (guard (i_status it \<notin> {SActive, SDone, SSplit}) (Refused (Started ident))) (\<lambda>_.
          let rest = remove_at i (s_items s) in
          try_with (map_err Refused (place_item rest pos)) (\<lambda>at.
          Inr (s\<lparr>s_items := insert_at at it rest\<rparr>)))))"

definition slice_status_edit ::
  "slices_toml \<Rightarrow> string \<Rightarrow> slice_status option \<Rightarrow> op_error + slices_toml" where
  "slice_status_edit s ident status =
     (case status of
        None \<Rightarrow> Inr s
      | Some st \<Rightarrow>
          (let i = slice_idx s ident; it = (s_items s ! i)\<lparr>i_status := st\<rparr> in
           if st = SActive \<or> st = SSplit then Inl (Refused (DaemonOwned ident))
           else if st = SDone \<and> i_kind it = Slice then Inr (set_item s i (it\<lparr>i_follow_ups := Some 0\<rparr>))
           else Inr (set_item s i it)))"

definition slice_update_plan ::
  "env \<Rightarrow> garden \<Rightarrow> slice_update_args \<Rightarrow> op_error + ((string \<Rightarrow> slice_reply) \<times> plan)" where
  "slice_update_plan v g args =
     try_with (require_text (su_milestone args) ''milestone must be non-empty'') (\<lambda>_.
     try_with (require_text (su_id args) ''id must be non-empty'') (\<lambda>_.
     try_with (parse_move (su_move args)) (\<lambda>mv.
     try_with (require_unlocked g) (\<lambda>_.
     let m = su_milestone args in
     try_with (map_err Corrupt (load_slices v (g_files g) m)) (\<lambda>loaded.
     try_with (ok_or (Refused (UnknownId m)) loaded) (\<lambda>l.
     try_with (guard (list_ex (\<lambda>i. i_id i = su_id args) (s_items (l_model l)))
         (Refused (UnknownId (su_id args)))) (\<lambda>_.
     try_with (slice_move (l_model l) (su_id args) mv) (\<lambda>s1.
     try_with (slice_status_edit s1 (su_id args) (su_status args)) (\<lambda>s.
     let reply = (\<lambda>h. \<lparr>lr_id = su_id args, lr_view = slices_view s, lr_hash = h, lr_milestone = m\<rparr>) in
     if s = l_model l then Inr (reply, Keep)
     else
       try_with (map_err Refused (slices_validate s m)) (\<lambda>_.
       if su_dry_run args then Inr (reply, Keep)
       else
         try_with (slices_write v m s (l_version l)) (\<lambda>f.
         Inr (reply, Write ''queue_v2_updated'' [f] [slices_view_write m s] no_extras))))))))))))"

definition slice_update ::
  "env \<Rightarrow> slice_update_args \<Rightarrow> garden \<Rightarrow> (op_error + slice_reply) \<times> garden" where
  "slice_update v args g = run_plan v (slice_update_plan v g args) g"

section \<open>Dropping an entry\<close>

text \<open>
  The restacks of a drop, one per project of a child, in the iteration order \<open>order\<close> of the
  code's hash set, which is not specified. Their numbers count up from the next number.
\<close>

fun restack_all ::
  "env \<Rightarrow> files \<Rightarrow> queue_toml \<Rightarrow> u32 \<Rightarrow> string list \<Rightarrow> op_error + (restack_staged list \<times> queue_toml)" where
  "restack_all v fs q n [] = Inr ([], q)"
| "restack_all v fs q n (p # ps) =
     try_with (restack_core v fs q p (unat n)) (\<lambda>(rs, q1).
     try_with (restack_all v fs q1 (n + 1) ps) (\<lambda>(rss, q2).
     Inr (rs # rss, q2)))"

definition child_projects :: "queue_toml \<Rightarrow> string \<Rightarrow> string list" where
  "child_projects q ident = remdups (map e_project (filter (\<lambda>e. e_parent e = ident) (q_entries q)))"

definition drop_row :: "env \<Rightarrow> queue_toml \<Rightarrow> queue_archive_toml \<Rightarrow> drop_args \<Rightarrow> queue_toml \<times> queue_archive_toml" where
  "drop_row v q ar args =
     (let i = idx_of q (qd_id args) in
      (q\<lparr>q_entries := remove_at i (q_entries q)\<rparr>,
       ar\<lparr>a_entries := a_entries ar @ [\<lparr>a_row = q_entries q ! i, a_finished = v_now v,
         a_final_status = FDropped, a_reason = Some (qd_reason args)\<rparr>]\<rparr>))"

definition drop_plan ::
  "env \<Rightarrow> (string list \<Rightarrow> string list) \<Rightarrow> garden \<Rightarrow> drop_args \<Rightarrow>
     op_error + ((string \<Rightarrow> list_reply) \<times> plan)" where
  "drop_plan v order g args =
     try_with (require_text (qd_id args) ''id must be non-empty'') (\<lambda>_.
     try_with (require_text (qd_reason args) ''reason must be non-empty'') (\<lambda>_.
     try_with (require_unlocked g) (\<lambda>_.
     try_with (map_err Corrupt (load_queue_state v (g_files g))) (\<lambda>loaded.
     try_with (ok_or (Refused (UnknownId (qd_id args))) loaded) (\<lambda>qs.
     let q0 = l_model (qs_queue qs); ar0 = l_model (qs_archive qs) in
     try_with (guard (list_ex (\<lambda>e. e_id e = qd_id args) (q_entries q0))
         (Refused (UnknownId (qd_id args)))) (\<lambda>_.
     try_with (guard (\<not> list_ex (\<lambda>e. qd_id args \<in> set (e_after e)) (q_entries q0))
         (Refused (LinkedFrom (qd_id args)))) (\<lambda>_.
     try_with (guard (e_status (q_entries q0 ! idx_of q0 (qd_id args)) \<noteq> EActive)
         (Refused (Running (qd_id args)))) (\<lambda>_.
     case drop_row v q0 ar0 args of (q1, ar) \<Rightarrow>
     try_with (restack_all v (g_files g) q1 (next_number (g_files g) tasks_dir)
         (order (child_projects q0 (qd_id args)))) (\<lambda>(rss, q).
     try_with (map_err Refused (validate q ar)) (\<lambda>_.
     let reply = (\<lambda>h. \<lparr>lr_id = qd_id args, lr_view = queue_view q, lr_hash = h\<rparr>) in
     if qd_dry_run args then Inr (reply, Keep)
     else
       (let extras = (if rss = [] then []
                      else map (\<lambda>r. new_file (rs_rel r) (rs_content r)) rss
                        @ [seq_write tasks_dir (seq_version v (g_files g) tasks_dir) (rs_number (last rss))]) in
        try_with (queue_write v q (l_version (qs_queue qs))) (\<lambda>f.
        try_with (archive_write v ar (l_version (qs_archive qs))) (\<lambda>fa.
        Inr (reply, Write ''queue_v2_updated'' [f, fa] [queue_view_write q]
          \<lparr>x_writes = extras, x_refresh_backlinks = extras \<noteq> []\<rparr>)))))))))))))) "

definition queue_drop ::
  "env \<Rightarrow> (string list \<Rightarrow> string list) \<Rightarrow> drop_args \<Rightarrow> garden \<Rightarrow> (op_error + list_reply) \<times> garden" where
  "queue_drop v order args g = run_plan v (drop_plan v order g args) g"

end
