(* ===== verification/Queue_Verbs_Props.thy ===== *)
theory Queue_Verbs_Props
  imports Queue_Verbs Queue_Ops_Props
begin

text \<open>
  What the human verbs guarantee, alone and together with the daemon operations: placement keeps
  the lanes, every edit moves the lives of the entries by steps that never touch a running or a
  filed one, a valid queue stays valid under every writer, an add lands exactly one entry, and a
  dry run changes nothing.
\<close>

section \<open>Placement\<close>

lemma ref_index_Inr: "ref_index es l r = Inr i \<Longrightarrow> i < length es \<and> e_id (es ! i) = r \<and> e_lane (es ! i) = l"
  by (auto simp: ref_index_def res_simps dest: position_Some split: if_splits)

lemma lane_front_bound: "lane_front es l \<le> length es"
  by (auto simp: lane_front_def split: option.splits lane.splits dest: position_Some)

lemma place_entry_bound: "place_entry es l pos = Inr i \<Longrightarrow> i \<le> length es"
  using lane_front_bound [of es l]
  by (cases pos) (auto simp: res_simps split: option.splits dest: rposition_Some ref_index_Inr)

lemma lanes_ordered_nth:
  "lanes_ordered es \<longleftrightarrow> (\<forall>i j. i < j \<longrightarrow> j < length es \<longrightarrow> e_lane (es ! i) = Normal \<longrightarrow> e_lane (es ! j) = Normal)"
  unfolding lanes_ordered_def sorted_wrt_iff_nth_less by blast

text \<open>An index inside a lane: nothing of another lane is on the wrong side of it.\<close>

definition in_lane :: "entry list \<Rightarrow> lane \<Rightarrow> nat \<Rightarrow> bool" where
  "in_lane es l i \<longleftrightarrow>
     (l = Urgent \<longrightarrow> (\<forall>j < i. e_lane (es ! j) = Urgent)) \<and>
     (l = Normal \<longrightarrow> (\<forall>j. i \<le> j \<longrightarrow> j < length es \<longrightarrow> e_lane (es ! j) = Normal))"

lemma in_lane_at:
  assumes "lanes_ordered es" "k < length es" "e_lane (es ! k) = l"
  shows "in_lane es l k" "in_lane es l (k + 1)"
proof -
  note ord = assms(1) [unfolded lanes_ordered_nth, rule_format]
  have u: "e_lane (es ! j) = Urgent" if "j \<le> k" "l = Urgent" for j
    using ord [of j k] that assms(2,3) by (cases "e_lane (es ! j)"; cases "j = k") auto
  have n: "e_lane (es ! j) = Normal" if "k \<le> j" "j < length es" "l = Normal" for j
    using ord [of k j] that assms(3) by (cases "j = k") auto
  show "in_lane es l k" "in_lane es l (k + 1)"
    using u n by (auto simp: in_lane_def)
qed

lemma in_lane_front: "lanes_ordered es \<Longrightarrow> in_lane es l (lane_front es l)"
proof (cases "position (\<lambda>e. e_lane e = l) es")
  case None
  then show ?thesis by (cases l) (auto simp: lane_front_def in_lane_def)
next
  case (Some k)
  assume "lanes_ordered es"
  from in_lane_at(1) [OF this] position_Some [OF Some] show ?thesis by (simp add: lane_front_def Some)
qed

lemma place_entry_lane:
  assumes "lanes_ordered es" "place_entry es l pos = Inr i"
  shows "in_lane es l i"
proof (cases pos)
  case PFront
  then show ?thesis using assms in_lane_front by auto
next
  case PBack
  show ?thesis
  proof (cases "rposition (\<lambda>e. e_lane e = l) es")
    case None
    then show ?thesis using PBack assms in_lane_front by auto
  next
    case (Some k)
    then show ?thesis using PBack assms(2) in_lane_at(2) [OF assms(1), of k l] rposition_Some [OF Some] by auto
  qed
next
  case (PBefore r)
  then have "ref_index es l r = Inr i" using assms(2) by simp
  from ref_index_Inr [OF this] show ?thesis using in_lane_at(1) [OF assms(1)] by simp
next
  case (PAfter r)
  then obtain k where "ref_index es l r = Inr k" "i = k + 1" using assms(2) by (auto simp: res_simps)
  with ref_index_Inr [of es l r k] show ?thesis using in_lane_at(2) [OF assms(1)] by simp
qed

lemma lanes_insert:
  assumes "lanes_ordered es" "place_entry es l pos = Inr i" "e_lane e = l"
  shows "lanes_ordered (insert_at i e es)"
proof -
  have i: "i \<le> length es" by (rule place_entry_bound [OF assms(2)])
  have app: "sorted_wrt (\<lambda>a b. e_lane a = Normal \<longrightarrow> e_lane b = Normal) (take i es @ drop i es)"
    using assms(1) by (simp add: lanes_ordered_def)
  have pre: "l = Urgent \<Longrightarrow> a \<in> set (take i es) \<Longrightarrow> e_lane a = Urgent" for a
    using place_entry_lane [OF assms(1,2)] i by (auto simp: in_set_conv_nth in_lane_def)
  have post: "l = Normal \<Longrightarrow> b \<in> set (drop i es) \<Longrightarrow> e_lane b = Normal" for b
    using place_entry_lane [OF assms(1,2)] i by (auto simp: in_set_conv_nth in_lane_def)
  show ?thesis
    unfolding lanes_ordered_def insert_at_def
    using app pre post assms(3) by (cases l) (auto simp: sorted_wrt_append)
qed

section \<open>What the edits do to the lives\<close>

text \<open>
  The moves a human may make: add an entry, set one that is not running, close one that is not
  running.
\<close>

inductive human_life :: "(string \<Rightarrow> life) \<Rightarrow> (string \<Rightarrow> life) \<Rightarrow> bool" where
  added: "m r = Unlisted \<Longrightarrow> human_life m (m(r := Live EQueued))"
| set: "m r = Live st \<Longrightarrow> st \<noteq> EActive \<Longrightarrow> st' \<in> {EQueued, EBlocked, EDeferred} \<Longrightarrow>
     human_life m (m(r := Live st'))"
| closed: "m r = Live st \<Longrightarrow> st \<noteq> EActive \<Longrightarrow> human_life m (m(r := Filed f))"

definition human_step :: "queue_pair \<Rightarrow> queue_pair \<Rightarrow> bool" where
  "human_step p p' \<longleftrightarrow> human_life\<^sup>*\<^sup>* (life_of p) (life_of p')"

lemma mset_remove_at: "i < length xs \<Longrightarrow> add_mset (xs ! i) (mset (remove_at i xs)) = mset xs"
  by (subst (3) id_take_nth_drop [of i xs]) (simp_all add: remove_at_def)

lemma idx_of_ok:
  assumes "ident \<in> e_id ` set (q_entries q)"
  shows "idx_of q ident < length (q_entries q)" "e_id (q_entries q ! idx_of q ident) = ident"
proof -
  obtain i where i: "position (\<lambda>e. e_id e = ident) (q_entries q) = Some i"
    using assms by (cases "position (\<lambda>e. e_id e = ident) (q_entries q)") (auto simp: position_None)
  show "idx_of q ident < length (q_entries q)" "e_id (q_entries q ! idx_of q ident) = ident"
    using position_Some [OF i] i by (simp_all add: idx_of_def)
qed

text \<open>An edit that keeps every row's id and status, up to their order.\<close>

definition same_lives :: "queue_toml \<Rightarrow> queue_toml \<Rightarrow> bool" where
  "same_lives q q' \<longleftrightarrow> mset (live_map q') = mset (live_map q)"

lemma same_lives_trans: "same_lives a b \<Longrightarrow> same_lives b c \<Longrightarrow> same_lives a c"
  by (simp add: same_lives_def)

lemma same_lives_refl [simp]: "same_lives q q"
  by (simp add: same_lives_def)

lemma live_map_ids: "map fst (live_map q) = map e_id (q_entries q)"
  by (simp add: live_map_def comp_def)

lemma same_lives_ids:
  assumes "same_lives q q'"
  shows "mset (map e_id (q_entries q')) = mset (map e_id (q_entries q))"
  using arg_cong [OF assms [unfolded same_lives_def], of "image_mset fst"]
  by (simp only: mset_map [symmetric] live_map_ids)

lemma same_lives_queue_ids:
  "same_lives q q' \<Longrightarrow> distinct (queue_ids q' ar) \<longleftrightarrow> distinct (queue_ids q ar)"
  using same_lives_ids [of q q'] by (intro mset_eq_imp_distinct_iff) (simp add: queue_ids_def)

lemma same_lives_mem:
  "same_lives q q' \<Longrightarrow> e_id ` set (q_entries q') = e_id ` set (q_entries q)"
  using same_lives_ids [of q q'] mset_eq_setD [of "map e_id (q_entries q')"] by (metis list.set_map)

lemma life_same:
  assumes "same_lives q q'" "distinct (queue_ids q ar)"
  shows "life_of (q', ar) = life_of (q, ar)"
proof -
  have d: "distinct (map fst (live_map q))" "distinct (map fst (live_map q'))"
    using assms(2) same_lives_queue_ids [OF assms(1), of ar]
    by (simp_all add: live_map_ids queue_ids_def)
  have "set (live_map q') = set (live_map q)"
    using assms(1) mset_eq_setD unfolding same_lives_def by blast
  then have "map_of (live_map q') = map_of (live_map q)" using map_of_inject_set [OF d(2,1)] by blast
  then show ?thesis unfolding life_of_def fst_conv snd_conv by (simp add: fun_eq_iff)
qed

lemma same_lives_moved:
  assumes "i < length (q_entries q)" "e_id e = e_id (q_entries q ! i)" "e_status e = e_status (q_entries q ! i)"
  shows "same_lives q (insert_entry (q\<lparr>q_entries := remove_at i (q_entries q)\<rparr>) j e)"
proof -
  let ?f = "\<lambda>e. (e_id e, e_status e)"
  have "mset (map ?f (insert_at j e (remove_at i (q_entries q)))) =
      add_mset (?f e) (image_mset ?f (mset (remove_at i (q_entries q))))"
    by (simp add: mset_insert_at)
  also have "\<dots> = image_mset ?f (add_mset (q_entries q ! i) (mset (remove_at i (q_entries q))))"
    using assms(2,3) by simp
  also have "\<dots> = mset (map ?f (q_entries q))" unfolding mset_remove_at [OF assms(1)] by simp
  finally show ?thesis by (simp add: same_lives_def live_map_def insert_entry_def)
qed

lemma same_lives_row:
  assumes "i < length (q_entries q)" "e_id e = e_id (q_entries q ! i)" "e_status e = e_status (q_entries q ! i)"
  shows "same_lives q (set_row q i e)"
  using assms map_update_same [of i "q_entries q" "\<lambda>e. (e_id e, e_status e)" e]
  by (simp add: same_lives_def live_map_def)

lemma lane_edit_same:
  assumes "lane_edit q ident l = Inr q'" "ident \<in> e_id ` set (q_entries q)"
  shows "same_lives q q'"
  using assms(1) same_lives_moved [OF idx_of_ok(1) [OF assms(2)]]
  by (auto simp: lane_edit_def Let_def res_simps split: option.splits if_splits)

lemma move_edit_same:
  assumes "move_edit q ident mv = Inr q'" "ident \<in> e_id ` set (q_entries q)"
  shows "same_lives q q'"
  using assms(1) same_lives_moved [OF idx_of_ok(1) [OF assms(2)]]
  by (auto simp: move_edit_def Let_def res_simps split: option.splits)

lemma after_edit_same:
  assumes "after_edit q ar ident links = Inr q'" "ident \<in> e_id ` set (q_entries q)"
  shows "same_lives q q'"
  using assms(1) same_lives_row [OF idx_of_ok(1) [OF assms(2)]]
  by (auto simp: after_edit_def Let_def res_simps split: option.splits)

lemma status_edit_step:
  assumes "status_edit v q ar ident st = Inr (q', ar', b)" "ident \<in> e_id ` set (q_entries q)"
    and d: "distinct (queue_ids q ar)"
  shows "human_step (q, ar) (q', ar')" "ar' \<noteq> ar \<longrightarrow> b"
proof -
  let ?i = "idx_of q ident"
  let ?row = "q_entries q ! ?i"
  note i = idx_of_ok [OF assms(2)]
  note l = life_set_row [OF d i(1)]
  have live: "life_of (q, ar) ident = Live (e_status ?row)" using l(2) [of ?row] i(2) by simp
  consider (none) "q' = q" "ar' = ar"
    | (close) a where "e_status ?row \<noteq> EActive" "b" "a_row a = ?row"
        "q' = q\<lparr>q_entries := remove_at ?i (q_entries q)\<rparr>" "ar' = ar\<lparr>a_entries := a_entries ar @ [a]\<rparr>"
    | (pending) p where "q' = set_row q ?i (?row\<lparr>e_pending_status := p\<rparr>)" "ar' = ar"
    | (set) s where "e_status ?row \<noteq> EActive" "q' = set_row q ?i (?row\<lparr>e_status := human_status s\<rparr>)" "ar' = ar"
  proof (cases st)
    case None
    then show thesis using assms(1) by (intro none) (simp_all add: status_edit_def)
  next
    case (Some s)
    show thesis
    proof (cases "s = HDone")
      case True
      then show thesis
        using assms(1) Some by (intro close [of "\<lparr>a_row = ?row, a_finished = v_now v, a_final_status = FDone, a_reason = None\<rparr>"])
          (simp_all add: status_edit_def Let_def split: if_splits)
    next
      case False
      then show thesis
      proof (cases "e_status ?row = EActive")
        case True
        with False show thesis
          using assms(1) Some by (intro pending [of "Some (human_status s)"]) (simp_all add: status_edit_def Let_def split: if_splits)
      next
        case inactive: False
        with False show thesis
          using assms(1) Some by (intro set [of s]) (simp_all add: status_edit_def Let_def split: if_splits)
      qed
    qed
  qed
  note cs = this
  show "human_step (q, ar) (q', ar')"
    using cs
  proof cases
    case none
    then show ?thesis by (simp add: human_step_def)
  next
    case (close a)
    have "life_of (q', ar') = (life_of (q, ar))(ident := Filed (a_final_status a))"
      using life_close [OF d i(1), of a] close(3-5) i(2) by simp
    then show ?thesis
      unfolding human_step_def using human_life.closed [of "life_of (q, ar)" ident] live close(1) by auto
  next
    case (pending p)
    have "same_lives q q'" unfolding pending by (rule same_lives_row [OF i(1)]) simp_all
    then show ?thesis using life_same d pending(2) by (simp add: human_step_def)
  next
    case (set s)
    have "human_status s \<in> {EQueued, EBlocked, EDeferred}" by (cases s) simp_all
    moreover have "life_of (q', ar') = (life_of (q, ar))(ident := Live (human_status s))"
      using l(1) [of "?row\<lparr>e_status := human_status s\<rparr>"] set i(2) by simp
    ultimately show ?thesis
      unfolding human_step_def using human_life.set [of "life_of (q, ar)" ident] live set(1) by auto
  qed
  show "ar' \<noteq> ar \<longrightarrow> b" using cs by cases auto
qed

lemma edit_entry_step:
  assumes "edit_entry v q ar args mv = Inr (q', ar', b)" "ue_id args \<in> e_id ` set (q_entries q)"
    and d: "distinct (queue_ids q ar)"
  shows "human_step (q, ar) (q', ar')" "ar' \<noteq> ar \<longrightarrow> b"
proof -
  obtain q1 q2 q3 where e: "lane_edit q (ue_id args) (ue_lane args) = Inr q1"
      "move_edit q1 (ue_id args) mv = Inr q2" "after_edit q2 ar (ue_id args) (ue_after args) = Inr q3"
      "status_edit v q3 ar (ue_id args) (ue_status args) = Inr (q', ar', b)"
    using assms(1) by (auto simp: edit_entry_def res_simps)
  have 1: "same_lives q q1" by (rule lane_edit_same [OF e(1) assms(2)])
  have m1: "ue_id args \<in> e_id ` set (q_entries q1)" using same_lives_mem [OF 1] assms(2) by simp
  have 2: "same_lives q1 q2" by (rule move_edit_same [OF e(2) m1])
  have m2: "ue_id args \<in> e_id ` set (q_entries q2)" using same_lives_mem [OF 2] m1 by simp
  have 3: "same_lives q2 q3" by (rule after_edit_same [OF e(3) m2])
  have m3: "ue_id args \<in> e_id ` set (q_entries q3)" using same_lives_mem [OF 3] m2 by simp
  have all: "same_lives q q3" using 1 2 3 same_lives_trans by blast
  have d3: "distinct (queue_ids q3 ar)" using same_lives_queue_ids [OF all] d by simp
  note s = status_edit_step [OF e(4) m3 d3]
  show "human_step (q, ar) (q', ar')" using s(1) life_same [OF all d] by (simp add: human_step_def)
  show "ar' \<noteq> ar \<longrightarrow> b" by (rule s(2))
qed

section \<open>Insertions\<close>

lemma life_insert:
  assumes "distinct (queue_ids (insert_entry q i e) ar)"
  shows "life_of (insert_entry q i e, ar) = (life_of (q, ar))(e_id e := Live (e_status e))"
    and "life_of (q, ar) (e_id e) = Unlisted" "distinct (queue_ids q ar)"
proof -
  let ?f = "\<lambda>e. (e_id e, e_status e)"
  have m: "mset (queue_ids (insert_entry q i e) ar) = mset (e_id e # queue_ids q ar)"
    by (simp add: queue_ids_def insert_entry_def mset_insert_at map_insert_at)
  have "distinct (e_id e # queue_ids q ar)" using assms mset_eq_imp_distinct_iff [OF m] by simp
  then show "distinct (queue_ids q ar)" and fresh: "life_of (q, ar) (e_id e) = Unlisted"
    by (auto simp: life_of_def queue_ids_def live_map_def filed_map_def map_of_eq_None_iff image_image
        split: option.splits dest!: map_of_SomeD)
  have out: "e_id e \<notin> fst ` set (map ?f (take i (q_entries q)))"
    using \<open>distinct (e_id e # queue_ids q ar)\<close> by (auto simp: queue_ids_def dest: in_set_takeD)
  have "map_of (live_map (insert_entry q i e)) = (map_of (live_map q))(e_id e \<mapsto> e_status e)"
  proof -
    have all: "map ?f (take i (q_entries q)) @ map ?f (drop i (q_entries q)) = map ?f (q_entries q)"
      unfolding map_append [symmetric] append_take_drop_id ..
    have "live_map (insert_entry q i e) = map ?f (take i (q_entries q)) @ ?f e # map ?f (drop i (q_entries q))"
      by (simp add: live_map_def insert_entry_def insert_at_def)
    then show ?thesis
      using map_of_middle [OF out, of "e_status e" "map ?f (drop i (q_entries q))"] all
      by (simp only: live_map_def)
  qed
  then show "life_of (insert_entry q i e, ar) = (life_of (q, ar))(e_id e := Live (e_status e))"
    unfolding life_of_def fst_conv snd_conv by (simp add: fun_eq_iff)
qed

lemma insert_step:
  assumes "distinct (queue_ids (insert_entry q i e) ar)" "e_status e = EQueued"
  shows "human_step (q, ar) (insert_entry q i e, ar)"
  using human_life.added [of "life_of (q, ar)" "e_id e"] life_insert [OF assms(1)] assms(2)
  by (auto simp: human_step_def)

lemma restack_core_Inr:
  "restack_core v fs q p n = Inr (rs, q') \<Longrightarrow> \<exists>i e. q' = insert_entry q i e \<and> e_status e = EQueued \<and>
     e_kind e = Restack \<and> e_project e = p \<and> e_id e = rs_id rs \<and> rs_rel rs = in_dir tasks_dir (note_filename n (''restack-'' @ p))"
  by (cases "wt_exists fs (in_dir tasks_dir (note_filename n (''restack-'' @ p)))")
    (auto simp: restack_core_def Let_def new_entry_def intro!: exI)

lemma human_step_trans: "human_step a b \<Longrightarrow> human_step b c \<Longrightarrow> human_step a c"
  unfolding human_step_def by (rule rtranclp_trans)

lemma restack_all_step:
  "restack_all v fs q n ps = Inr (rss, q') \<Longrightarrow> distinct (queue_ids q' ar) \<Longrightarrow>
     human_step (q, ar) (q', ar) \<and> distinct (queue_ids q ar)"
proof (induction ps arbitrary: q n rss)
  case Nil
  then show ?case by (simp add: human_step_def)
next
  case (Cons p ps)
  from Cons.prems(1) obtain rs q1 rss1 where c: "restack_core v fs q p (unat n) = Inr (rs, q1)"
      "restack_all v fs q1 (n + 1) ps = Inr (rss1, q')"
    by (auto simp: res_simps)
  obtain i e where q1: "q1 = insert_entry q i e" "e_status e = EQueued" using restack_core_Inr [OF c(1)] by blast
  from Cons.IH [OF c(2) Cons.prems(2)] have "human_step (q1, ar) (q', ar)" "distinct (queue_ids q1 ar)" by blast+
  then show ?case
    using insert_step [of q i e ar] life_insert(3) [of q i e ar] q1 human_step_trans by blast
qed

section \<open>The plans of the verbs\<close>

lemma off_md:
  assumes "ends_with md name"
  shows "off_queue (in_dir dir name)"
proof -
  obtain x where x: "name = x @ md" using assms by (auto simp: ends_with_conv)
  have full: "in_dir dir name = (dir @ ''/'' @ x) @ md" by (simp add: in_dir_def x)
  have "CHR ''/'' \<in> set (dir @ ''/'' @ x)" by simp
  then obtain a b where ab: "dir @ ''/'' @ x = a @ CHR ''/'' # b" "CHR ''/'' \<notin> set b"
    using split_list_last by metis
  have "in_dir dir name = a @ ''/'' @ (b @ md)" using full ab(1) by simp
  moreover have "CHR ''/'' \<notin> set (b @ md)" using ab(2) by (simp add: md_def)
  moreover have "ends_with md (b @ md)" by (auto simp: ends_with_conv)
  ultimately show ?thesis using off_queueI md_name by metis
qed

lemma off_new_file [simp]: "off_queue (f_rel (new_file (in_dir dir (note_filename n slug)) bytes))"
  by (simp add: new_file_def off_md ends_with_md)

lemma off_seq_write [simp]: "off_queue (f_rel (seq_write dir version n))"
  unfolding seq_write_def in_dir_def file_write.select_convs
  by (rule off_queueI) (simp_all add: seq_file_def)

lemma off_doc_write [simp]: "off_queue (f_rel (slice_doc_write v dir p))"
  by (cases p) (simp add: slice_doc_write_def off_md ends_with_md)

lemma f_rel_new_file [simp]: "f_rel (new_file rel bytes) = rel"
  by (simp add: new_file_def)

lemma milestone_docs_off: "milestone_slices v dir mission specs = (docs, items, n) \<Longrightarrow> offs docs"
  by (auto simp: milestone_slices_def list_all_iff off_md ends_with_md split: if_splits)

lemma load_None_stored: "load_queue_state v fs = Inr None \<Longrightarrow> stored_queue v fs = None"
proof -
  assume a: "load_queue_state v fs = Inr None"
  have "read_file v fs queue_file = Inr None"
    using a by (auto simp: load_queue_state_def res_simps split: option.splits)
  then have "map_of fs queue_file = None" using read_file_Inr(2) not_exists_map_of by fastforce
  then show ?thesis by (simp add: stored_queue_def)
qed

lemma load_for_add_Inr:
  assumes "load_for_add v fs project links = Inr (q, version, ar)"
  shows "stored_queue v fs = Some (q, ar)" "queue_ok q ar"
proof -
  obtain qs where "load_queue_state v fs = Inr (Some qs)" "q = l_model (qs_queue qs)" "ar = l_model (qs_archive qs)"
    using assms by (auto simp: load_for_add_def Let_def res_simps split: option.splits)
  then show "stored_queue v fs = Some (q, ar)" "queue_ok q ar" using load_queue_stored by simp_all
qed

text \<open>The write of a verb that inserts one queued entry and answers its id.\<close>

definition inserts ::
  "env \<Rightarrow> files \<Rightarrow> add_entry_args \<Rightarrow> (string \<Rightarrow> entry_reply) \<Rightarrow> file_write list \<Rightarrow> view_write list \<Rightarrow>
     extra_writes \<Rightarrow> queue_pair \<Rightarrow> nat \<Rightarrow> entry \<Rightarrow> bool" where
  "inserts v fs args reply ws vs x p i e \<longleftrightarrow>
     stored_queue v fs = Some p \<and> queue_ok (fst p) (snd p) \<and>
     queue_ok (insert_entry (fst p) i e) (snd p) \<and> writes_queue v ws p (insert_entry (fst p) i e, snd p) \<and>
     list_all (\<lambda>w. off_queue (w_host w)) vs \<and> offs (x_writes x) \<and>
     e_kind e = ae_kind args \<and> e_status e = EQueued \<and> e_project e = ae_project args \<and>
     (\<forall>h. lr_id (reply h) = e_id e)"

lemma insertsI:
  assumes "load_for_add v fs project links = Inr (q, version, ar)"
    and "validate (insert_entry q i e) ar = Inr ()" "queue_write v (insert_entry q i e) version = Inr f"
    and "offs rest" "list_all (\<lambda>w. off_queue (w_host w)) vs" "offs (x_writes x)"
    and "e_kind e = ae_kind args" "e_status e = EQueued" "e_project e = ae_project args"
    and "\<And>h. lr_id (reply h) = e_id e"
  shows "inserts v fs args reply (f # rest) vs x (q, ar) i e"
  using assms load_for_add_Inr [OF assms(1)] writes_row [OF assms(3,4)] validate_ok by (simp add: inserts_def)

lemma inserts_sound: "inserts v fs args reply ws vs x p i e \<Longrightarrow> sound_write v fs human_step ws vs x"
proof -
  assume a: "inserts v fs args reply ws vs x p i e"
  then have "human_step (fst p, snd p) (insert_entry (fst p) i e, snd p)"
    by (intro insert_step) (simp_all add: inserts_def queue_ok_def)
  with a show ?thesis unfolding inserts_def sound_write_def by auto
qed

lemma add_milestone_inserts:
  assumes a: "add_milestone_plan v g args = Inr (reply, Write k ws vs x)" and kind: "ae_kind args = Milestone"
  shows "\<exists>p i e. inserts v (g_files g) args reply ws vs x p i e"
proof -
  from a obtain slug title mission finish where et: "entry_text args = Inr (slug, title, mission, finish)"
    by (auto simp: add_milestone_plan_def res_simps)
  obtain docs items n where
    ms: "milestone_slices v (milestone_path slug @ ''/slices'') mission (ae_slices args) = (docs, items, n)"
    by (rule prod_cases3)
  from a et ms obtain q0 version ar i f1 f2 where
    t: "load_for_add v (g_files g) (ae_project args) (ae_after args) = Inr (q0, version, ar)"
    and val: "validate (insert_entry q0 i (new_entry v Milestone slug title (ae_project args) (lane_of args)
        (ae_after args) (''feat/'' @ slug))) ar = Inr ()"
    and f: "queue_write v (insert_entry q0 i (new_entry v Milestone slug title (ae_project args) (lane_of args)
        (ae_after args) (''feat/'' @ slug))) version = Inr f1" "slices_write v slug (slices_new slug items) None = Inr f2"
    and out: "ws = [f1, f2]" "list_all (\<lambda>w. off_queue (w_host w)) vs"
      "x_writes x = [new_file (slices_view_host slug) (milestone_doc_v2 slug title mission finish),
         seq_write (milestone_path slug @ ''/slices'') None n] @ docs"
    and rep: "\<And>h. lr_id (reply h) = slug"
    by (auto simp: add_milestone_plan_def res_simps Let_def off_host split: if_splits)
  have "offs (x_writes x)" using out(3) milestone_docs_off [OF ms] off_host by simp
  moreover have "offs [f2]" using off_slices_write [OF f(2)] by simp
  ultimately show ?thesis
    unfolding out(1) using rep kind
    by (intro exI) (rule insertsI [OF t val f(1) _ out(2)]; simp add: new_entry_def)
qed

lemma add_task_inserts:
  assumes a: "add_task_plan v g args = Inr (reply, Write k ws vs x)" and kind: "ae_kind args = Task"
  shows "\<exists>p i e. inserts v (g_files g) args reply ws vs x p i e"
proof -
  obtain slug title mission finish q0 version ar i f n bytes sv where
    t: "load_for_add v (g_files g) (ae_project args) (ae_after args) = Inr (q0, version, ar)"
    and val: "validate (insert_entry q0 i (new_entry v Task (show_03 n) title (ae_project args) (lane_of args)
        (ae_after args) (''fix/'' @ show_03 n))) ar = Inr ()"
    and f: "queue_write v (insert_entry q0 i (new_entry v Task (show_03 n) title (ae_project args) (lane_of args)
        (ae_after args) (''fix/'' @ show_03 n))) version = Inr f"
    and out: "ws = [f]" "list_all (\<lambda>w. off_queue (w_host w)) vs"
      "x_writes x = [new_file (in_dir tasks_dir (note_filename n slug)) bytes, seq_write tasks_dir sv n]"
    and rep: "\<And>h. lr_id (reply h) = show_03 n"
    using a by (auto simp: add_task_plan_def res_simps Let_def split: if_splits)
  show ?thesis
    unfolding out(1) using rep kind
    by (intro exI) (rule insertsI [OF t val f _ out(2)]; simp add: new_entry_def out(3) off_md ends_with_md)
qed

lemma add_restack_inserts:
  assumes a: "add_restack_plan v g args = Inr (reply, Write k ws vs x)" and kind: "ae_kind args = Restack"
  shows "\<exists>p i e. inserts v (g_files g) args reply ws vs x p i e"
proof -
  obtain q0 version ar n rs q f sv where
    t: "load_for_add v (g_files g) (ae_project args) [] = Inr (q0, version, ar)"
    and rs: "restack_core v (g_files g) q0 (ae_project args) n = Inr (rs, q)"
    and val: "validate q ar = Inr ()" and f: "queue_write v q version = Inr f"
    and out: "ws = [f]" "list_all (\<lambda>w. off_queue (w_host w)) vs"
      "x_writes x = [new_file (rs_rel rs) (rs_content rs), seq_write tasks_dir sv (rs_number rs)]"
    and rep: "\<And>h. lr_id (reply h) = rs_id rs"
    using a by (auto simp: add_restack_plan_def res_simps split: if_splits)
  obtain i e where q: "q = insert_entry q0 i e" "e_status e = EQueued" "e_kind e = Restack"
      "e_project e = ae_project args" "e_id e = rs_id rs" "rs_rel rs = in_dir tasks_dir (note_filename n (''restack-'' @ ae_project args))"
    using restack_core_Inr [OF rs] by blast
  show ?thesis
    unfolding out(1) using rep kind q
    by (intro exI) (rule insertsI [OF t val [unfolded q(1)] f [unfolded q(1)] _ out(2)];
        simp add: out(3) off_md ends_with_md)
qed

lemma add_entry_inserts:
  assumes "add_entry_plan v g member args = Inr (reply, Write k ws vs x)"
  shows "\<exists>p i e. inserts v (g_files g) args reply ws vs x p i e"
proof (cases "ae_kind args")
  case Milestone
  then show ?thesis
    using assms by (intro add_milestone_inserts) (auto simp: add_entry_plan_def split: if_splits)
next
  case Task
  then show ?thesis
    using assms by (intro add_task_inserts) (auto simp: add_entry_plan_def split: if_splits)
next
  case Restack
  then show ?thesis
    using assms by (intro add_restack_inserts) (auto simp: add_entry_plan_def split: if_splits)
qed

lemma add_entry_sound: "sound_plan v (g_files g) human_step (add_entry_plan v g member args)"
  by (rule sound_planI) (auto dest: add_entry_inserts inserts_sound)

lemma writes_both:
  assumes "queue_write v q version = Inr f" "archive_write v ar version' = Inr fa"
  shows "writes_queue v [f, fa] p (q, ar)"
  unfolding writes_queue_def
  by (intro exI [of _ version] exI [of _ f] exI [of _ "[]"]) (use assms in auto)

lemma mem_ids: "list_ex (\<lambda>e. e_id e = x) es \<longleftrightarrow> x \<in> e_id ` set es"
  by (auto simp: list_ex_iff)

lemma update_entry_sound: "sound_plan v (g_files g) human_step (update_entry_plan v g args)"
proof (rule sound_planI)
  fix reply k ws vs x assume a: "update_entry_plan v g args = Inr (reply, Write k ws vs x)"
  obtain mv qs where qs: "load_queue_state v (g_files g) = Inr (Some qs)" "parse_move (ue_move args) = Inr mv"
    using a by (auto simp: update_entry_plan_def res_simps)
  let ?q0 = "l_model (qs_queue qs)" and ?ar0 = "l_model (qs_archive qs)"
  obtain q ar b where e: "list_ex (\<lambda>e. e_id e = ue_id args) (q_entries ?q0)"
      "edit_entry v ?q0 ?ar0 args mv = Inr (q, ar, b)"
    using a qs by (auto simp: update_entry_plan_def res_simps Let_def)
  obtain f fas where w: "validate q ar = Inr ()" "queue_write v q (l_version (qs_queue qs)) = Inr f"
      "(if b then try_with (archive_write v ar (l_version (qs_archive qs))) (\<lambda>fa. Inr [fa]) else Inr []) = Inr fas"
      "ws = f # fas" "vs = [queue_view_write q]" "x = no_extras"
    using a qs e by (auto simp: update_entry_plan_def res_simps Let_def split: if_splits)
  note st = load_queue_stored [OF qs(1)]
  have d: "distinct (queue_ids ?q0 ?ar0)" using st(2) by (simp add: queue_ok_def)
  have mem: "ue_id args \<in> e_id ` set (q_entries ?q0)" using e(1) unfolding mem_ids .
  note step = edit_entry_step [OF e(2) mem d]
  have "writes_queue v ws (?q0, ?ar0) (q, ar)"
  proof (cases b)
    case True
    then obtain fa where "archive_write v ar (l_version (qs_archive qs)) = Inr fa" "fas = [fa]"
      using w(3) by (auto simp: res_simps)
    then show ?thesis using writes_both [OF w(2)] w(4) by simp
  next
    case False
    then have "ar = ?ar0" "fas = []" using step(2) w(3) by auto
    then show ?thesis using writes_row [OF w(2), of "[]"] w(4) by simp
  qed
  then show "sound_write v (g_files g) human_step ws vs x"
    using sound_queue [where R = human_step, OF _ _ st(1,2) step(1)] w validate_ok by simp
qed

lemma drop_row_eq: "drop_row v q ar args = (q1, ar1) \<Longrightarrow>
  q1 = q\<lparr>q_entries := remove_at (idx_of q (qd_id args)) (q_entries q)\<rparr> \<and>
  (\<exists>a. a_row a = q_entries q ! idx_of q (qd_id args) \<and> ar1 = ar\<lparr>a_entries := a_entries ar @ [a]\<rparr>)"
  by (auto simp: drop_row_def Let_def intro!: exI [of _ "\<lparr>a_row = q_entries q ! idx_of q (qd_id args),
    a_finished = v_now v, a_final_status = FDropped, a_reason = Some (qd_reason args)\<rparr>"])

lemma drop_row_step:
  assumes "drop_row v q ar args = (q1, ar1)" "qd_id args \<in> e_id ` set (q_entries q)"
    and "distinct (queue_ids q ar)" "e_status (q_entries q ! idx_of q (qd_id args)) \<noteq> EActive"
  shows "human_step (q, ar) (q1, ar1)"
proof -
  let ?i = "idx_of q (qd_id args)"
  note i = idx_of_ok [OF assms(2)]
  obtain a where a: "q1 = q\<lparr>q_entries := remove_at ?i (q_entries q)\<rparr>" "a_row a = q_entries q ! ?i"
      "ar1 = ar\<lparr>a_entries := a_entries ar @ [a]\<rparr>"
    using drop_row_eq [OF assms(1)] by blast
  have "life_of (q1, ar1) = (life_of (q, ar))(qd_id args := Filed (a_final_status a))"
    using life_close [OF assms(3) i(1), of a] a i(2) by simp
  moreover have "life_of (q, ar) (qd_id args) = Live (e_status (q_entries q ! ?i))"
    using life_set_row(2) [OF assms(3) i(1), of "q_entries q ! ?i"] i(2) by simp
  ultimately show ?thesis
    unfolding human_step_def using human_life.closed [of "life_of (q, ar)" "qd_id args"] assms(4) by auto
qed

lemma restack_all_rels:
  "restack_all v fs q n ps = Inr (rss, q') \<Longrightarrow> list_all (\<lambda>r. off_queue (rs_rel r)) rss"
proof (induction ps arbitrary: q n rss)
  case (Cons p ps)
  then show ?case by (auto simp: res_simps off_md ends_with_md dest!: restack_core_Inr)
qed simp

lemma drop_sound: "sound_plan v (g_files g) human_step (drop_plan v order g args)"
proof (rule sound_planI)
  fix reply k ws vs x assume a: "drop_plan v order g args = Inr (reply, Write k ws vs x)"
  obtain qs where qs: "load_queue_state v (g_files g) = Inr (Some qs)"
    using a by (auto simp: drop_plan_def res_simps)
  let ?q0 = "l_model (qs_queue qs)" and ?ar0 = "l_model (qs_archive qs)"
  obtain q1 ar where dr: "drop_row v ?q0 ?ar0 args = (q1, ar)" by force
  obtain rss q where e: "list_ex (\<lambda>e. e_id e = qd_id args) (q_entries ?q0)"
      "e_status (q_entries ?q0 ! idx_of ?q0 (qd_id args)) \<noteq> EActive"
      "restack_all v (g_files g) q1 (next_number (g_files g) tasks_dir)
        (order (child_projects ?q0 (qd_id args))) = Inr (rss, q)"
    and val: "validate q ar = Inr ()"
    using a qs dr by (auto simp: drop_plan_def res_simps Let_def)
  obtain f fa where w: "queue_write v q (l_version (qs_queue qs)) = Inr f"
      "archive_write v ar (l_version (qs_archive qs)) = Inr fa" "ws = [f, fa]" "vs = [queue_view_write q]"
    and x: "x_writes x = [] \<or> (\<exists>s. x_writes x = map (\<lambda>r. new_file (rs_rel r) (rs_content r)) rss @ [s] \<and>
        off_queue (f_rel s))"
    using a qs dr e by (auto simp: drop_plan_def res_simps Let_def split: if_splits)
  note st = load_queue_stored [OF qs]
  have d: "distinct (queue_ids ?q0 ?ar0)" using st(2) by (simp add: queue_ok_def)
  have mem: "qd_id args \<in> e_id ` set (q_entries ?q0)" using e(1) unfolding mem_ids .
  have ok: "queue_ok q ar" using val validate_ok by simp
  then have d': "distinct (queue_ids q ar)" by (simp add: queue_ok_def)
  have "human_step (?q0, ?ar0) (q, ar)"
    using drop_row_step [OF dr mem d e(2)] restack_all_step [OF e(3) d'] human_step_trans by blast
  moreover have "offs (x_writes x)" using x restack_all_rels [OF e(3)] by (auto simp: list_all_iff)
  ultimately show "sound_write v (g_files g) human_step ws vs x"
    using sound_queue [where R = human_step, OF _ _ st _ ok] writes_both [OF w(1,2)] w(3,4) by simp
qed

lemma slice_insert_sound: "sound_plan v fs R (slice_insert_plan v g args)"
proof (rule sound_planI)
  fix reply k ws vs x assume a: "slice_insert_plan v g args = Inr (reply, Write k ws vs x)"
  obtain m s version f where w: "slices_write v m s version = Inr f" "ws = [f]" "vs = [slices_view_write m s]"
    and x: "offs (x_writes x)"
    using a by (auto simp: slice_insert_plan_def res_simps Let_def off_md ends_with_md split: if_splits)
  then show "sound_write v fs R ws vs x" using off_slices_write [OF w(1)] by (intro sound_docs) simp_all
qed

lemma slice_update_sound: "sound_plan v fs R (slice_update_plan v g args)"
proof (rule sound_planI)
  fix reply k ws vs x assume a: "slice_update_plan v g args = Inr (reply, Write k ws vs x)"
  obtain m s version f where w: "slices_write v m s version = Inr f" "ws = [f]" "vs = [slices_view_write m s]"
    and x: "x = no_extras"
    using a by (auto simp: slice_update_plan_def res_simps Let_def split: if_splits)
  then show "sound_write v fs R ws vs x" using off_slices_write [OF w(1)] by (intro sound_docs) simp_all
qed

section \<open>A new project\<close>

lemma repo_map_snoc: "repo_map (ps @ [p]) = (repo_map ps)(p_name p \<mapsto> p_repo p)"
  by (simp add: repo_map_def)

lemma queue_ok_project:
  assumes ok: "queue_ok q ar" and new: "p_name p \<notin> p_name ` set (q_projects q)"
  shows "queue_ok (q\<lparr>q_projects := q_projects q @ [p]\<rparr>) ar"
proof -
  let ?q = "q\<lparr>q_projects := q_projects q @ [p]\<rparr>"
  have pe: "e_project e \<noteq> p_name p" if "e \<in> set (q_entries q)" for e
    using ok that new unfolding queue_ok_def projects_exist_def by metis
  have "held_repos (repo_map (q_projects ?q)) (q_entries q) = held_repos (repo_map (q_projects q)) (q_entries q)"
    using pe by (auto simp: held_repos_def repo_map_snoc)
  moreover have "projects_exist ?q" using ok by (auto simp: queue_ok_def projects_exist_def)
  moreover have "queue_ids ?q ar = queue_ids q ar" "links_resolve ?q ar = links_resolve q ar"
    by (simp_all add: queue_ids_def links_resolve_def)
  ultimately show ?thesis using ok by (simp add: queue_ok_def)
qed

lemma add_project_sound:
  assumes "stored_queue v (g_files g) \<noteq> None"
  shows "sound_plan v (g_files g) human_step (add_project_plan v g args)"
proof (rule sound_planI)
  fix reply k ws vs x assume a: "add_project_plan v g args = Inr (reply, Write k ws vs x)"
  then obtain loaded where ld: "load_queue_state v (g_files g) = Inr loaded"
    by (auto simp: add_project_plan_def res_simps Let_def)
  with assms obtain qs where qs: "load_queue_state v (g_files g) = Inr (Some qs)"
    using load_None_stored by (cases loaded) auto
  let ?q = "l_model (qs_queue qs)" and ?ar = "l_model (qs_archive qs)"
  define p where "p = \<lparr>p_name = ap_name args, p_repo = ap_repo args,
    p_main = (case ap_main args of Some m \<Rightarrow> m | None \<Rightarrow> ''main'')\<rparr>"
  obtain f where p: "p_name p = ap_name args" "\<not> list_ex (\<lambda>p. p_name p = ap_name args) (q_projects ?q)"
    and w: "queue_write v (?q\<lparr>q_projects := q_projects ?q @ [p]\<rparr>) (l_version (qs_queue qs)) = Inr f"
      "ws = [f]" "vs = [queue_view_write (?q\<lparr>q_projects := q_projects ?q @ [p]\<rparr>)]" "x = no_extras"
    using a qs by (auto simp: add_project_plan_def res_simps Let_def p_def split: if_splits)
  note st = load_queue_stored [OF qs]
  have ok: "queue_ok (?q\<lparr>q_projects := q_projects ?q @ [p]\<rparr>) ?ar"
    using p by (intro queue_ok_project [OF st(2)]) (auto simp: list_ex_iff)
  have "human_step (?q, ?ar) (?q\<lparr>q_projects := q_projects ?q @ [p]\<rparr>, ?ar)"
  proof -
    have "same_lives ?q (?q\<lparr>q_projects := q_projects ?q @ [p]\<rparr>)" by (simp add: same_lives_def live_map_def)
    from life_same [OF this] st(2) show ?thesis by (simp add: human_step_def queue_ok_def)
  qed
  then show "sound_write v (g_files g) human_step ws vs x"
    using sound_queue [where R = human_step, OF _ _ st _ ok writes_row [OF w(1), of "[]"]] w by simp
qed

section \<open>The verbs as a machine\<close>

inductive verb_step :: "env \<Rightarrow> garden \<Rightarrow> garden \<Rightarrow> bool" for v where
  project: "verb_step v g (snd (queue_add_project v p g))"
| add: "verb_step v g (snd (queue_add_entry v member a g))"
| update: "verb_step v g (snd (queue_update_entry v u g))"
| insert_slice: "verb_step v g (snd (slice_insert v i g))"
| update_slice: "verb_step v g (snd (slice_update v s g))"
| drop: "verb_step v g (snd (queue_drop v order d g))"

inductive_cases verb_stepE: "verb_step v g g'"

lemma sound_plan_result:
  assumes "env_ok v" "sound_plan v (g_files g) R m" "g' = snd (run_plan v m g)"
  shows "stored_queue v (g_files g') = stored_queue v (g_files g) \<or>
    (\<exists>p p'. stored_queue v (g_files g) = Some p \<and> queue_ok (fst p) (snd p) \<and> R p p' \<and>
       stored_queue v (g_files g') = Some p' \<and> queue_ok (fst p') (snd p'))"
proof -
  have "run_plan v m g = (fst (run_plan v m g), g')" using assms(3) by simp
  then show ?thesis by (rule sound_plan_run [OF assms(1,2)]) blast+
qed

lemma verb_step_queue:
  assumes "verb_step v g g'" "env_ok v" "stored_queue v (g_files g) \<noteq> None"
  shows "stored_queue v (g_files g') = stored_queue v (g_files g) \<or>
    (\<exists>p p'. stored_queue v (g_files g) = Some p \<and> queue_ok (fst p) (snd p) \<and> human_step p p' \<and>
       stored_queue v (g_files g') = Some p' \<and> queue_ok (fst p') (snd p'))"
  using assms(1)
proof cases
  case (project p)
  then show ?thesis
    by (intro sound_plan_result [OF assms(2) add_project_sound [OF assms(3), of p]]) (simp add: queue_add_project_def)
next
  case (add member a)
  then show ?thesis
    by (intro sound_plan_result [OF assms(2) add_entry_sound [of v g member a]]) (simp add: queue_add_entry_def)
next
  case (update u)
  then show ?thesis
    by (intro sound_plan_result [OF assms(2) update_entry_sound [of v g u]]) (simp add: queue_update_entry_def)
next
  case (insert_slice i)
  then show ?thesis
    by (intro sound_plan_result [OF assms(2) slice_insert_sound [of v _ _ g i]]) (simp add: slice_insert_def)
next
  case (update_slice s)
  then show ?thesis
    by (intro sound_plan_result [OF assms(2) slice_update_sound [of v _ _ g s]]) (simp add: slice_update_def)
next
  case (drop order d)
  then show ?thesis
    by (intro sound_plan_result [OF assms(2) drop_sound [of v g order d]]) (simp add: queue_drop_def)
qed

lemma verb_step_good:
  assumes "env_ok v" "verb_step v g g'" "queue_good v g"
  shows "queue_good v g'" "human_life\<^sup>*\<^sup>* (queue_life v g) (queue_life v g')"
proof -
  have some: "stored_queue v (g_files g) \<noteq> None" using assms(3) by (auto simp: queue_good_Some)
  note s = verb_step_queue [OF assms(2,1) some]
  show "queue_good v g'" using s assms(3) by (auto simp: queue_good_Some)
  show "human_life\<^sup>*\<^sup>* (queue_life v g) (queue_life v g')"
    using s by (auto simp: queue_life_def human_step_def)
qed

interpretation verbs: refined "\<lambda>g g'. env_ok v \<and> verb_step v g g'" "queue_good v" "queue_life v" "human_life\<^sup>*\<^sup>*"
  for v
  by unfold_locales (auto dest: verb_step_good)

text \<open>Every writer of the queue files: the daemon operations and the human verbs.\<close>

definition writer_step :: "env \<Rightarrow> garden \<Rightarrow> garden \<Rightarrow> bool" where
  "writer_step v g g' \<longleftrightarrow> daemon_step v g g' \<or> verb_step v g g'"

interpretation writers: machine "\<lambda>g g'. env_ok v \<and> writer_step v g g'" "queue_good v"
  for v
  by unfold_locales (auto simp: writer_step_def dest: verb_step_good daemon.step_good [OF conjI])

lemma env_run: "env_ok v \<Longrightarrow> R\<^sup>*\<^sup>* g g' \<Longrightarrow> (\<lambda>g g'. env_ok v \<and> R g g')\<^sup>*\<^sup>* g g'"
  by (erule rtranclp_mono [THEN predicate2D, rotated]) auto

text \<open>
  C1. Whatever daemon and humans ask, in any order and with any outcome, a valid queue stays
  valid: from a garden whose stored queue and archive pass validation, every garden the twelve
  writers of the queue files reach stores a queue and an archive that pass it again.
\<close>

theorem writers_keep_queue_valid:
  assumes "env_ok v" "(writer_step v)\<^sup>*\<^sup>* g g'"
    and "stored_queue v (g_files g) = Some (q, ar)" "validate q ar = Inr ()"
  shows "\<exists>q' ar'. stored_queue v (g_files g') = Some (q', ar') \<and> validate q' ar' = Inr ()"
proof -
  have "queue_good v g" using assms(3,4) validate_ok by (simp add: queue_good_def)
  from writers.run_good [OF env_run [OF assms(1,2)] this]
  show ?thesis unfolding queue_good_Some using validate_ok by (metis prod.collapse)
qed

lemma human_keeps_running:
  assumes "human_life\<^sup>*\<^sup>* m m'"
  shows "m i = Live EActive \<Longrightarrow> m' i = Live EActive" "m i = Filed f \<Longrightarrow> m' i = Filed f"
  using assms by (induction rule: rtranclp_induct) (auto elim!: human_life.cases split: if_splits)

text \<open>
  C2. A running session is never killed by a human verb: no run of the human verbs moves an active
  entry out of its status, whatever it edits, closes or drops, and none changes a filed one.
\<close>

theorem verbs_never_kill_running:
  assumes "env_ok v" "(verb_step v)\<^sup>*\<^sup>* g g'"
    and "stored_queue v (g_files g) = Some (q, ar)" "validate q ar = Inr ()"
    and "queue_life v g i = Live EActive \<or> queue_life v g i = Filed f"
  shows "queue_life v g' i = queue_life v g i"
proof -
  have good: "queue_good v g" using assms(3,4) validate_ok by (simp add: queue_good_def)
  show ?thesis
    by (rule verbs.run_fixes [where v = v and P = "\<lambda>m. m i = queue_life v g i",
          OF env_run [OF assms(1,2)] good])
      (use assms(5) human_keeps_running in fastforce)+
qed

text \<open>
  A placement respects the lanes: an entry inserted at the index computed for its lane, or
  moved there, leaves the urgent rows in front of the normal ones, whatever the keyword and the
  reference.
\<close>

lemma placement_keeps_lanes:
  assumes "lanes_ordered es" "place_entry es (e_lane e) pos = Inr i"
  shows "lanes_ordered (insert_at i e es) \<and> i \<le> length es"
  using lanes_insert [OF assms refl] place_entry_bound [OF assms(2)] by simp

section \<open>What an added entry looks like\<close>

lemma run_plan_lands:
  assumes "run_plan v m g = (Inr r, g')" "m = Inr (reply, Write i ws vs x)" "env_ok v"
    and "list_all (\<lambda>w. off_queue (w_host w)) vs" "offs (x_writes x)"
    and "stored_queue v (g_files g) = Some p" "writes_queue v ws p p'"
  shows "stored_queue v (g_files g') = Some p' \<and> (\<exists>h. r = reply h)"
proof -
  obtain h where h: "apply_writes v i ws vs x g = (Inr h, g')" "r = reply h"
    using assms(1,2) by (auto simp: run_plan_def split: prod.splits sum.splits)
  from h(1) assms(3-5) have "stored_queue v (g_files g') = Some p'"
  proof (cases rule: toml_effect)
    case staged
    show ?thesis by (rule stored_after_write [OF assms(3,6,7) staged])
  qed simp
  with h(2) show ?thesis by blast
qed

lemma add_milestone_keep:
  assumes "add_milestone_plan v g args = Inr (reply, p)"
  shows "p = Keep \<longleftrightarrow> ae_dry_run args"
proof -
  obtain slug title mission finish where et: "entry_text args = Inr (slug, title, mission, finish)"
    using assms by (auto simp: add_milestone_plan_def res_simps)
  obtain docs items n where
    "milestone_slices v (milestone_path slug @ ''/slices'') mission (ae_slices args) = (docs, items, n)"
    by (rule prod_cases3)
  with et show ?thesis using assms by (auto simp: add_milestone_plan_def res_simps Let_def split: if_splits)
qed

lemma add_entry_keep:
  "add_entry_plan v g member args = Inr (reply, p) \<Longrightarrow> p = Keep \<longleftrightarrow> ae_dry_run args"
  using add_milestone_keep [of v g args reply p]
  by (auto simp: add_entry_plan_def add_task_plan_def add_restack_plan_def res_simps Let_def
      split: if_splits entry_kind.splits)

text \<open>
  C4. A successful add lands exactly one new entry: the stored queue becomes the old one with one
  row inserted, queued, of the kind and the project asked for, under the id the reply names, which
  no live or archived row had; the archive does not change.
\<close>

theorem add_entry_lands:
  assumes "queue_add_entry v member args g = (Inr r, g')" "\<not> ae_dry_run args" "env_ok v"
  shows "\<exists>q ar i e. stored_queue v (g_files g) = Some (q, ar) \<and>
    stored_queue v (g_files g') = Some (insert_entry q i e, ar) \<and>
    queue_life v g (lr_id r) = Unlisted \<and> e_id e = lr_id r \<and> e_kind e = ae_kind args \<and>
    e_status e = EQueued \<and> e_project e = ae_project args"
proof -
  obtain reply p where m: "add_entry_plan v g member args = Inr (reply, p)"
    using assms(1) by (auto simp: queue_add_entry_def run_plan_def split: sum.splits prod.splits)
  obtain k ws vs x where p: "p = Write k ws vs x"
    using add_entry_keep [OF m] assms(2) by (cases p) auto
  obtain pr i e where ins: "inserts v (g_files g) args reply ws vs x pr i e"
    using add_entry_inserts m p by blast
  note i = ins [unfolded inserts_def]
  have "stored_queue v (g_files g') = Some (insert_entry (fst pr) i e, snd pr) \<and> (\<exists>h. r = reply h)"
    using assms(1) i by (intro run_plan_lands [OF _ m [unfolded p] assms(3)]) (auto simp: queue_add_entry_def)
  moreover have "life_of (fst pr, snd pr) (e_id e) = Unlisted"
    using i by (intro life_insert(2)) (auto simp: queue_ok_def)
  ultimately show ?thesis
    using i by (intro exI [of _ "fst pr"] exI [of _ "snd pr"] exI [of _ i] exI [of _ e])
      (auto simp: queue_life_def)
qed

section \<open>Dry runs\<close>

lemma never_writes:
  "(\<And>reply i ws vs x. m \<noteq> Inr (reply, Write i ws vs x)) \<Longrightarrow> snd (run_plan v m g) = g"
  by (auto simp: run_plan_def split: sum.splits plan.splits)

text \<open>
  A dry run of any human verb leaves the garden as it is: no file is staged, no number is
  taken and no commit is minted, whatever it answers.
\<close>

lemma dry_runs_change_nothing:
  "snd (queue_add_project v (p\<lparr>ap_dry_run := True\<rparr>) g) = g \<and>
   snd (queue_add_entry v member (a\<lparr>ae_dry_run := True\<rparr>) g) = g \<and>
   snd (queue_update_entry v (u\<lparr>ue_dry_run := True\<rparr>) g) = g \<and>
   snd (slice_insert v (i\<lparr>si_dry_run := True\<rparr>) g) = g \<and>
   snd (slice_update v (s\<lparr>su_dry_run := True\<rparr>) g) = g \<and>
   snd (queue_drop v order (d\<lparr>qd_dry_run := True\<rparr>) g) = g"
proof (intro conjI)
  show "snd (queue_add_project v (p\<lparr>ap_dry_run := True\<rparr>) g) = g"
    unfolding queue_add_project_def
    by (rule never_writes) (auto simp: add_project_plan_def res_simps Let_def)
  show "snd (queue_add_entry v member (a\<lparr>ae_dry_run := True\<rparr>) g) = g"
    unfolding queue_add_entry_def
    by (rule never_writes) (auto dest: add_entry_keep)
  show "snd (queue_update_entry v (u\<lparr>ue_dry_run := True\<rparr>) g) = g"
    unfolding queue_update_entry_def
    by (rule never_writes) (auto simp: update_entry_plan_def res_simps Let_def split: if_splits)
  show "snd (slice_insert v (i\<lparr>si_dry_run := True\<rparr>) g) = g"
    unfolding slice_insert_def
    by (rule never_writes) (auto simp: slice_insert_plan_def res_simps Let_def)
  show "snd (slice_update v (s\<lparr>su_dry_run := True\<rparr>) g) = g"
    unfolding slice_update_def
    by (rule never_writes) (auto simp: slice_update_plan_def res_simps Let_def split: if_splits)
  show "snd (queue_drop v order (d\<lparr>qd_dry_run := True\<rparr>) g) = g"
    unfolding queue_drop_def
    by (rule never_writes) (auto simp: drop_plan_def drop_row_def res_simps Let_def split: if_splits)
qed

section \<open>A concrete writer\<close>

definition task_drop :: drop_args where
  "task_drop = \<lparr>qd_id = ''001'', qd_reason = ''r'', qd_dry_run = False\<rparr>"

lemma drop_run:
  "(verb_step task_env)\<^sup>*\<^sup>* task_garden (snd (queue_drop task_env (\<lambda>ps. ps) task_drop task_garden))"
  by (rule r_into_rtranclp) (rule verb_step.drop)

lemma mixed_run: "(writer_step task_env)\<^sup>*\<^sup>* task_garden
    (snd (queue_drop task_env (\<lambda>ps. ps) task_drop (snd (queue_v2_claim task_env task_claim task_garden))))"
  using daemon_step.claim [of task_env task_garden task_claim]
    verb_step.drop [of task_env "snd (queue_v2_claim task_env task_claim task_garden)" "\<lambda>ps. ps" task_drop]
  by (intro converse_rtranclp_into_rtranclp [OF _ r_into_rtranclp]) (auto simp: writer_step_def)

theorem writers_keep_queue_valid_witness:
  "\<exists>q ar. stored_queue task_env (g_files (snd (queue_drop task_env (\<lambda>ps. ps) task_drop
       (snd (queue_v2_claim task_env task_claim task_garden))))) = Some (q, ar) \<and> validate q ar = Inr ()"
  by (rule writers_keep_queue_valid [OF task_env_ok mixed_run task_stored task_valid])

definition active_garden :: garden where
  "active_garden = \<lparr>g_state = Unlocked, g_files = [(queue_file, Utf8 ''a'')],
     g_head = [(queue_file, Utf8 ''a'')], g_log = []\<rparr>"

lemma active_stored: "stored_queue task_env (g_files active_garden) = Some (task_queue EActive, archive_new [])"
  by code_simp

lemma active_valid: "validate (task_queue EActive) (archive_new []) = Inr ()"
  by code_simp

lemma active_drop:
  "(verb_step task_env)\<^sup>*\<^sup>* active_garden (snd (queue_drop task_env (\<lambda>ps. ps) task_drop active_garden))"
  by (rule r_into_rtranclp) (rule verb_step.drop)

theorem verbs_never_kill_running_witness:
  "queue_life task_env (snd (queue_drop task_env (\<lambda>ps. ps) task_drop active_garden)) ''001'' = Live EActive"
proof -
  have "queue_life task_env active_garden ''001'' = Live EActive" by code_simp
  then show ?thesis
    using verbs_never_kill_running [OF task_env_ok active_drop active_stored active_valid] by simp
qed

lemma placement_keeps_lanes_instance:
  "lanes_ordered (insert_at 1 demo_task [demo_task]) \<and> 1 \<le> length [demo_task]"
proof -
  have "lanes_ordered [demo_task]" by (simp add: lanes_ordered_def)
  moreover have "place_entry [demo_task] (e_lane demo_task) PBack = Inr 1" by code_simp
  ultimately show ?thesis by (rule placement_keeps_lanes)
qed

text \<open>Adding a project's restack to the demo queue.\<close>

definition plain_queue :: queue_toml where
  "plain_queue = queue_new [\<lparr>p_name = ''p'', p_repo = ''r'', p_main = ''main''\<rparr>] []"

definition one_restack :: queue_toml where
  "one_restack = insert_entry plain_queue 0
     (new_entry task_env Restack ''001'' ''Restack p'' ''p'' Urgent [] [])"

definition add_env :: env where
  "add_env = plain_env (table_codec [(''q'', plain_queue), (''r'', one_restack)]) no_codec no_codec"

definition restack_args :: add_entry_args where
  "restack_args = \<lparr>ae_kind = Restack, ae_slug = None, ae_title = None, ae_mission = None,
     ae_finish_criteria = None, ae_project = ''p'', ae_lane = None, ae_after = [], ae_position = None,
     ae_ref = None, ae_slices = [], ae_dry_run = False\<rparr>"

lemma restack_added: "fst (queue_add_entry add_env None restack_args task_garden) =
    Inr \<lparr>lr_id = ''001'', lr_view = queue_view one_restack, lr_hash = ''1'', lr_path = ''growlight/backlog/tasks/001-restack-p.md''\<rparr>"
  by code_simp

lemma add_env_ok: "env_ok add_env"
proof -
  have "codec_round_trips (no_codec :: queue_archive_toml toml_codec)"
    by (simp add: codec_round_trips_def no_codec_def)
  then show ?thesis by (simp add: env_ok_def add_env_def plain_env_def table_codec_ok)
qed

theorem add_entry_lands_witness:
  "\<exists>q ar i e. stored_queue add_env (g_files task_garden) = Some (q, ar) \<and>
     stored_queue add_env (g_files (snd (queue_add_entry add_env None restack_args task_garden))) =
       Some (insert_entry q i e, ar) \<and> e_id e = ''001'' \<and> e_kind e = Restack \<and> e_project e = ''p''"
proof -
  let ?g = "snd (queue_add_entry add_env None restack_args task_garden)"
  have "queue_add_entry add_env None restack_args task_garden =
      (Inr \<lparr>lr_id = ''001'', lr_view = queue_view one_restack, lr_hash = ''1'',
        lr_path = ''growlight/backlog/tasks/001-restack-p.md''\<rparr>, ?g)"
    using restack_added by (metis prod.collapse)
  moreover have "\<not> ae_dry_run restack_args" by (simp add: restack_args_def)
  ultimately show ?thesis
    using add_entry_lands [OF _ _ add_env_ok] unfolding restack_args_def by fastforce
qed

end
