(* ===== verification/Sorted_Map.thy ===== *)
theory Sorted_Map
  imports Text_Lib "HOL-Library.List_Lexorder" "HOL-Library.Char_ord"
begin

text \<open>
  Ordered maps and paths of the standard library. A \<^verbatim>\<open>BTreeMap<K, V>\<close> is its list of
  entries in ascending key order; strings are compared byte by byte. A \<^verbatim>\<open>Path\<close> is the list
  of its components, which is also what its comparisons and prefix tests look at.
\<close>

section \<open>Ordered maps\<close>

fun bm_insert :: "'k::linorder \<Rightarrow> 'v \<Rightarrow> ('k \<times> 'v) list \<Rightarrow> ('k \<times> 'v) list" where
  "bm_insert k v [] = [(k, v)]"
| "bm_insert k v ((l, w) # xs) =
     (if k < l then (k, v) # (l, w) # xs
      else if k = l then (k, v) # xs
      else (l, w) # bm_insert k v xs)"

definition bm_remove :: "'k \<Rightarrow> ('k \<times> 'v) list \<Rightarrow> ('k \<times> 'v) list" where
  "bm_remove k xs = filter (\<lambda>(l, _). l \<noteq> k) xs"

definition bm_ok :: "('k::linorder \<times> 'v) list \<Rightarrow> bool" where
  "bm_ok xs \<longleftrightarrow> sorted_wrt (<) (map fst xs)"

lemma map_of_bm_insert [simp]: "map_of (bm_insert k v xs) = (map_of xs)(k \<mapsto> v)"
  by (induction xs) auto

lemma set_keys_bm_insert [simp]: "fst ` set (bm_insert k v xs) = insert k (fst ` set xs)"
  unfolding dom_map_of_conv_image_fst [symmetric] by auto

lemma bm_insert_not_Nil [simp]: "bm_insert k v xs \<noteq> []"
  by (cases xs) (auto split: if_splits)

lemma set_bm_insert: "set (bm_insert k v xs) \<subseteq> insert (k, v) (set xs)"
  by (induction xs) (auto split: if_splits)

lemma bm_ok_Nil [simp]: "bm_ok []"
  by (simp add: bm_ok_def)

lemma bm_ok_Cons: "bm_ok ((k, v) # xs) \<longleftrightarrow> (\<forall>l \<in> fst ` set xs. k < l) \<and> bm_ok xs"
  by (auto simp: bm_ok_def)

lemma bm_ok_insert [simp]: "bm_ok xs \<Longrightarrow> bm_ok (bm_insert k v xs)"
proof (induction xs)
  case (Cons x xs)
  obtain l w where x: "x = (l, w)" by fastforce
  have "\<forall>m \<in> fst ` set xs. l < m" and "bm_ok xs" using Cons.prems by (simp_all add: x bm_ok_Cons)
  moreover from this have "k < l \<Longrightarrow> \<forall>m \<in> fst ` set xs. k < m" by (meson less_trans)
  ultimately show ?case using Cons.IH by (auto simp: x bm_ok_Cons)
qed (simp add: bm_ok_def)

lemma bm_ok_distinct: "bm_ok xs \<Longrightarrow> distinct (map fst xs)"
  by (simp add: bm_ok_def strict_sorted_iff)

lemma bm_ok_mem: "bm_ok xs \<Longrightarrow> (k, v) \<in> set xs \<longleftrightarrow> map_of xs k = Some v"
  using bm_ok_distinct by (metis map_of_SomeD map_of_is_SomeI)

lemma map_of_filter_ok:
  assumes "bm_ok xs"
  shows "map_of (filter P xs) k = (case map_of xs k of Some v \<Rightarrow> if P (k, v) then Some v else None | None \<Rightarrow> None)"
proof -
  have "distinct (map fst xs)" by (rule bm_ok_distinct [OF assms])
  then show ?thesis by (induction xs) (auto simp: map_of_eq_None_iff split: option.split)
qed

lemma bm_ok_filter: "bm_ok xs \<Longrightarrow> bm_ok (filter P xs)"
  unfolding bm_ok_def by (induction xs) auto

lemma bm_ext:
  assumes "bm_ok xs" "bm_ok ys" "map_of xs = map_of ys"
  shows "xs = ys"
  using assms
proof (induction xs arbitrary: ys)
  case Nil
  then show ?case by (metis map_of_eq_empty_iff)
next
  case (Cons x xs)
  obtain k v where x: "x = (k, v)" by fastforce
  have keys: "fst ` set (x # xs) = fst ` set ys"
    using Cons.prems(3) by (metis dom_map_of_conv_image_fst)
  obtain l w zs where ys: "ys = (l, w) # zs" using keys by (cases ys) auto
  have "k = l"
  proof (rule antisym)
    show "k \<le> l" using keys Cons.prems(1) by (force simp: x ys bm_ok_Cons)
    show "l \<le> k" using keys Cons.prems(2) by (force simp: x ys bm_ok_Cons)
  qed
  have "v = w" using fun_cong [OF Cons.prems(3), of k] by (simp add: x ys \<open>k = l\<close>)
  have tail: "map_of xs m = map_of zs m" for m
  proof (cases "m = k")
    case True
    have "k \<notin> fst ` set xs" "k \<notin> fst ` set zs"
      using Cons.prems(1,2) by (auto simp: x ys bm_ok_Cons \<open>k = l\<close>)
    then show ?thesis unfolding True by (metis map_of_eq_None_iff)
  next
    case False
    then show ?thesis using fun_cong [OF Cons.prems(3), of m] by (simp add: x ys \<open>k = l\<close>)
  qed
  have "xs = zs"
    using Cons.prems tail by (intro Cons.IH) (auto simp: x ys bm_ok_Cons)
  then show ?case by (simp add: x ys \<open>k = l\<close> \<open>v = w\<close>)
qed

section \<open>Paths\<close>

type_synonym path = "string list"

text \<open>
  The components of a relative or absolute path text: empty parts vanish, a dot part only
  survives at the very front, the leading slash is a component of its own.
\<close>

definition components :: "string \<Rightarrow> path" where
  "components s =
     (let parts = split_on (CHR ''/'') s; plain = filter (\<lambda>c. c \<noteq> [] \<and> c \<noteq> ''.'') parts in
      if starts_with ''/'' s then ''/'' # plain
      else if hd parts = ''.'' then ''.'' # plain
      else plain)"

definition path_under :: "path \<Rightarrow> path \<Rightarrow> bool" where
  "path_under m p \<longleftrightarrow> take (length m) p = m"

lemma path_under_conv: "path_under m p \<longleftrightarrow> (\<exists>q. p = m @ q)"
  unfolding path_under_def by (metis append_eq_conv_conj append_take_drop_id)

lemma path_under_refl [simp]: "path_under p p"
  by (simp add: path_under_def)

lemma path_under_append [simp]: "path_under m (m @ q)"
  by (simp add: path_under_def)

lemma path_under_trans: "path_under a b \<Longrightarrow> path_under b c \<Longrightarrow> path_under a c"
  by (auto simp: path_under_conv)

lemma path_under_linear: "path_under a p \<Longrightarrow> path_under b p \<Longrightarrow> path_under a b \<or> path_under b a"
  unfolding path_under_conv by (metis append_eq_append_conv2)

lemma path_under_Cons [simp]: "path_under (c # m) (d # p) \<longleftrightarrow> c = d \<and> path_under m p"
  by (auto simp: path_under_def)

lemma path_under_Nil [simp]: "path_under [] p" "path_under (c # m) [] \<longleftrightarrow> False"
  by (simp_all add: path_under_def)

end
