(* ===== verification/Vcs_Snapshot.thy ===== *)
theory Vcs_Snapshot
  imports Sorted_Map
begin

text \<open>
  The working tree in memory (\<^verbatim>\<open>crates/softfig-vcs/src/walk.rs\<close>): the recursive tree a
  commit is built from, the one way files enter it, the pruning of empty directories and the
  listing of its files. The walk over the disk only calls these.
\<close>

unbundle bit_operations_syntax

section \<open>The tree\<close>

datatype tnode = File u32 string | Dir "(string \<times> tnode) list"

type_synonym children = "(string \<times> tnode) list"

text \<open>The root of a snapshot is always a directory, so it is kept as its entries.\<close>

record walk_snapshot =
  ws_root :: children
  ws_overlay_generation :: "u64 option"

definition mode_mask :: u32 where
  "mode_mask = 4095"

definition snapshot_empty :: walk_snapshot where
  "snapshot_empty = \<lparr>ws_root = [], ws_overlay_generation = None\<rparr>"

fun insert_file :: "children \<Rightarrow> path \<Rightarrow> u32 \<Rightarrow> string \<Rightarrow> children" where
  "insert_file ch [] m c = ch"
| "insert_file ch [n] m c = bm_insert n (File (m AND mode_mask) c) ch"
| "insert_file ch (n # p # ps) m c =
     (case map_of ch n of
        None \<Rightarrow> bm_insert n (Dir (insert_file [] (p # ps) m c)) ch
      | Some (Dir sub) \<Rightarrow> bm_insert n (Dir (insert_file sub (p # ps) m c)) ch
      | Some (File _ _) \<Rightarrow> ch)"

fun ensure_dir :: "children \<Rightarrow> path \<Rightarrow> children" where
  "ensure_dir ch [] = ch"
| "ensure_dir ch (n # ps) =
     (case map_of ch n of
        None \<Rightarrow> bm_insert n (Dir (ensure_dir [] ps)) ch
      | Some (Dir sub) \<Rightarrow> bm_insert n (Dir (ensure_dir sub ps)) ch
      | Some (File _ _) \<Rightarrow> ch)"

definition keep_file :: string where
  "keep_file = ''.keep''"

fun prune_empty_dirs :: "children \<Rightarrow> children" where
  "prune_empty_dirs [] = []"
| "prune_empty_dirs ((n, File m c) # xs) = (n, File m c) # prune_empty_dirs xs"
| "prune_empty_dirs ((n, Dir sub) # xs) =
     (let kept = prune_empty_dirs sub; has_keep = keep_file \<in> fst ` set kept in
      if kept = [] \<and> \<not> has_keep then prune_empty_dirs xs
      else (n, Dir kept) # prune_empty_dirs xs)"

fun collect_files :: "children \<Rightarrow> path \<Rightarrow> (path \<times> u32 \<times> string) list" where
  "collect_files [] pre = []"
| "collect_files ((n, File m c) # xs) pre = (pre @ [n], m, c) # collect_files xs pre"
| "collect_files ((n, Dir sub) # xs) pre =
     collect_files sub (pre @ [n]) @ collect_files xs pre"

definition snapshot_files :: "walk_snapshot \<Rightarrow> (path \<times> u32 \<times> string) list" where
  "snapshot_files s = collect_files (ws_root s) []"

fun node_at :: "children \<Rightarrow> path \<Rightarrow> tnode option" where
  "node_at ch [] = Some (Dir ch)"
| "node_at ch (n # ps) =
     (case map_of ch n of
        None \<Rightarrow> None
      | Some (File m c) \<Rightarrow> (if ps = [] then Some (File m c) else None)
      | Some (Dir sub) \<Rightarrow> node_at sub ps)"

definition file_content :: "walk_snapshot \<Rightarrow> path \<Rightarrow> string option" where
  "file_content s rel =
     (case node_at (ws_root s) rel of Some (File _ c) \<Rightarrow> Some c | _ \<Rightarrow> None)"

text \<open>The mutating methods of the snapshot.\<close>

definition snapshot_insert :: "path \<Rightarrow> u32 \<Rightarrow> string \<Rightarrow> walk_snapshot \<Rightarrow> walk_snapshot" where
  "snapshot_insert p m c s = s\<lparr>ws_root := insert_file (ws_root s) p m c\<rparr>"

definition snapshot_prune :: "walk_snapshot \<Rightarrow> walk_snapshot" where
  "snapshot_prune s = s\<lparr>ws_root := prune_empty_dirs (ws_root s)\<rparr>"

section \<open>Files by path\<close>

definition file_at :: "children \<Rightarrow> path \<Rightarrow> (u32 \<times> string) option" where
  "file_at ch p = (case node_at ch p of Some (File m c) \<Rightarrow> Some (m, c) | _ \<Rightarrow> None)"

lemma file_at_Nil [simp]: "file_at ch [] = None"
  by (simp add: file_at_def)

lemma file_at_empty [simp]: "file_at [] p = None"
  by (cases p) (simp_all add: file_at_def)

fun node_file :: "tnode \<Rightarrow> path \<Rightarrow> (u32 \<times> string) option" where
  "node_file (File m c) ps = (if ps = [] then Some (m, c) else None)"
| "node_file (Dir sub) ps = file_at sub ps"

lemma file_at_step:
  "map_of ch n = None \<Longrightarrow> file_at ch (n # ps) = None"
  "map_of ch n = Some x \<Longrightarrow> file_at ch (n # ps) = node_file x ps"
  by (cases x; simp add: file_at_def)+

lemma file_at_bm_insert:
  "file_at (bm_insert n x ch) (k # ks) = (if k = n then node_file x ks else file_at ch (k # ks))"
  by (cases x) (auto simp: file_at_def split: option.split tnode.split)

lemma file_at_entry:
  "file_at ((n, x) # xs) (k # ks) = (if k = n then node_file x ks else file_at xs (k # ks))"
  by (cases x) (auto simp: file_at_def split: option.split tnode.split)

lemma file_content_at: "file_content s p = map_option snd (file_at (ws_root s) p)"
  by (auto simp: file_content_def file_at_def split: option.split tnode.split)

lemma children_induct [case_names Nil File Dir]:
  assumes "P []" "\<And>n m c xs. P xs \<Longrightarrow> P ((n, File m c) # xs)"
    "\<And>n sub xs. P sub \<Longrightarrow> P xs \<Longrightarrow> P ((n, Dir sub) # xs)"
  shows "P ch"
  using assms by (rule collect_files.induct [of "\<lambda>ch pre. P ch" ch "[]"])

lemma prune_Dir [simp]:
  "prune_empty_dirs ((n, Dir sub) # xs) =
     (if prune_empty_dirs sub = [] then prune_empty_dirs xs
      else (n, Dir (prune_empty_dirs sub)) # prune_empty_dirs xs)"
  by simp

declare prune_empty_dirs.simps(3) [simp del]

text \<open>A well-formed tree: ordered directories, masked modes.\<close>

fun node_ok :: "tnode \<Rightarrow> bool" where
  "node_ok (File m c) \<longleftrightarrow> m AND mode_mask = m"
| "node_ok (Dir ch) \<longleftrightarrow> bm_ok ch \<and> list_all (node_ok \<circ> snd) ch"

abbreviation tree_ok :: "children \<Rightarrow> bool" where
  "tree_ok ch \<equiv> node_ok (Dir ch)"

lemma tree_ok_Nil [simp]: "tree_ok []"
  by simp

lemma tree_ok_Cons:
  "tree_ok ((n, x) # xs) \<longleftrightarrow> (\<forall>l \<in> fst ` set xs. n < l) \<and> node_ok x \<and> tree_ok xs"
  by (auto simp: bm_ok_Cons)

lemma tree_ok_sub: "tree_ok ch \<Longrightarrow> map_of ch n = Some x \<Longrightarrow> node_ok x"
  by (fastforce simp: list_all_iff dest: map_of_SomeD)

lemma tree_ok_insert: "tree_ok ch \<Longrightarrow> node_ok x \<Longrightarrow> tree_ok (bm_insert n x ch)"
  using set_bm_insert [of n x ch] by (auto simp: list_all_iff)

lemma node_ok_insert_file: "tree_ok ch \<Longrightarrow> tree_ok (insert_file ch p m c)"
  by (induction ch p m c rule: insert_file.induct)
    (auto intro!: tree_ok_insert dest: tree_ok_sub simp: and.assoc
      simp del: node_ok.simps(2) split: option.split tnode.split)


text \<open>
  A path can be written when no file stands above it and none below it; then the insertion
  changes the file at that path only.
\<close>

definition writable_at :: "children \<Rightarrow> path \<Rightarrow> bool" where
  "writable_at ch p \<longleftrightarrow>
     (\<forall>q. q \<noteq> p \<and> (path_under q p \<or> path_under p q) \<longrightarrow> file_at ch q = None)"

lemma writable_at_step:
  assumes "writable_at ch (n # ps)" "map_of ch n = Some (Dir sub)"
  shows "writable_at sub ps"
  unfolding writable_at_def
proof (intro allI impI)
  fix q
  assume "q \<noteq> ps \<and> (path_under q ps \<or> path_under ps q)"
  then have "file_at ch (n # q) = None" using assms(1) unfolding writable_at_def by simp
  then show "file_at sub q = None" by (simp add: file_at_step(2) [OF assms(2)])
qed

lemma writable_at_empty [simp]: "writable_at [] p"
  by (simp add: writable_at_def)

lemma writable_not_file: "writable_at ch (n # p # ps) \<Longrightarrow> map_of ch n \<noteq> Some (File m c)"
  unfolding writable_at_def by (auto simp: file_at_step(2) dest!: spec [of _ "[n]"])

lemma file_at_insert:
  "writable_at ch p \<Longrightarrow> p \<noteq> [] \<Longrightarrow>
     file_at (insert_file ch p m c) q = (if q = p then Some (m AND mode_mask, c) else file_at ch q)"
proof (induction ch p m c arbitrary: q rule: insert_file.induct)
  case (2 ch n m c)
  show ?case
  proof (cases q)
    case (Cons k ks)
    have "file_at ch q = None" if "k = n" "ks \<noteq> []"
      using that "2.prems"(1) Cons unfolding writable_at_def by (simp add: path_under_def)
    then show ?thesis by (auto simp: Cons file_at_bm_insert)
  qed simp
next
  case (3 ch n p ps m c)
  show ?case
  proof (cases "map_of ch n")
    case None
    have "file_at (insert_file [] (p # ps) m c) r =
        (if r = p # ps then Some (m AND mode_mask, c) else None)" for r
      using "3.IH"(1) [OF None] by simp
    then show ?thesis
      by (cases q) (auto simp: None file_at_bm_insert file_at_step(1) [OF None])
  next
    case (Some x)
    then obtain sub where x: "x = Dir sub"
      using writable_not_file [OF "3.prems"(1)] by (cases x) auto
    have "file_at (insert_file sub (p # ps) m c) r =
        (if r = p # ps then Some (m AND mode_mask, c) else file_at sub r)" for r
      using "3.IH"(2) [OF Some x] writable_at_step [OF "3.prems"(1)] Some x by simp
    then show ?thesis
      using Some x by (cases q) (auto simp: file_at_bm_insert file_at_step(2))
  qed
qed simp

lemma file_at_prune: "tree_ok ch \<Longrightarrow> file_at (prune_empty_dirs ch) p = file_at ch p"
proof (induction ch arbitrary: p rule: children_induct)
  case (File n m c xs)
  then show ?case
    by (cases p) (auto simp: file_at_entry tree_ok_Cons simp del: node_ok.simps(2))
next
  case (Dir n sub xs)
  have ok: "tree_ok sub" "tree_ok xs" "n \<notin> fst ` set xs"
    using Dir.prems by (auto simp: tree_ok_Cons simp del: node_ok.simps(2))
  have fresh: "file_at xs (n # r) = None" for r
    using ok(3) by (simp add: file_at_step(1) map_of_eq_None_iff)
  have sub: "file_at sub r = None" if "prune_empty_dirs sub = []" for r
    using Dir.IH(1) [OF ok(1), of r] that by simp
  show ?case
    using fresh sub by (cases p) (auto simp: file_at_entry Dir.IH(1) [OF ok(1)] Dir.IH(2) [OF ok(2)])
qed simp

section \<open>Pruned trees\<close>

fun no_empty_dirs :: "tnode \<Rightarrow> bool" where
  "no_empty_dirs (File m c) \<longleftrightarrow> True"
| "no_empty_dirs (Dir ch) \<longleftrightarrow> list_all (\<lambda>x. snd x \<noteq> Dir [] \<and> no_empty_dirs (snd x)) ch"

abbreviation pruned :: "children \<Rightarrow> bool" where
  "pruned ch \<equiv> no_empty_dirs (Dir ch)"

lemma keys_prune: "fst ` set (prune_empty_dirs ch) \<subseteq> fst ` set ch"
  by (induction ch rule: children_induct) auto

lemma prune_above: "\<forall>l \<in> fst ` set xs. n < l \<Longrightarrow> \<forall>l \<in> fst ` set (prune_empty_dirs xs). n < l"
  using keys_prune by blast

lemma tree_ok_prune: "tree_ok ch \<Longrightarrow> tree_ok (prune_empty_dirs ch)"
proof (induction ch rule: children_induct)
  case (File n m c xs)
  then show ?case
    using prune_above [of xs n] unfolding prune_empty_dirs.simps(2) tree_ok_Cons by blast
next
  case (Dir n sub xs)
  then have "tree_ok (prune_empty_dirs xs)" "tree_ok ((n, Dir (prune_empty_dirs sub)) # prune_empty_dirs xs)"
    using prune_above [of xs n] unfolding tree_ok_Cons by blast+
  then show ?case unfolding prune_Dir by presburger
qed simp

lemma pruned_prune: "pruned (prune_empty_dirs ch)"
  by (induction ch rule: children_induct) auto

lemma prune_pruned: "pruned ch \<Longrightarrow> prune_empty_dirs ch = ch"
  by (induction ch rule: children_induct) auto

lemma pruned_has_file: "no_empty_dirs x \<Longrightarrow> x \<noteq> Dir [] \<Longrightarrow> \<exists>p. node_file x p \<noteq> None"
proof (induction x)
  case (File m c)
  then show ?case by (auto intro: exI [of _ "[]"])
next
  case (Dir ch)
  then obtain n x xs where ch: "ch = (n, x) # xs" by (cases ch) auto
  then obtain p where "node_file x p \<noteq> None" using Dir.IH [of "(n, x)" x] Dir.prems by auto
  then have "file_at ch (n # p) \<noteq> None" by (simp add: ch file_at_entry)
  then show ?case by auto
qed

text \<open>Pruned trees are determined by their files.\<close>

lemma node_ext:
  "node_ok x \<Longrightarrow> node_ok y \<Longrightarrow> no_empty_dirs x \<Longrightarrow> no_empty_dirs y \<Longrightarrow>
     (\<And>p. node_file x p = node_file y p) \<Longrightarrow> x \<noteq> Dir [] \<Longrightarrow> y \<noteq> Dir [] \<Longrightarrow> x = y"
proof (induction x arbitrary: y)
  case (File m c)
  then show ?case by (cases y) (force dest: spec [of _ "[]"])+
next
  case (Dir ch)
  show ?case
  proof (cases y)
    case (File m c)
    then show ?thesis using Dir.prems(5) [of "[]"] by simp
  next
    case (Dir dh)
    have files: "file_at ch p = file_at dh p" for p using Dir.prems(5) [of p] by (simp add: Dir)
    have elem: "x = x'" if at: "map_of ch n = Some x" "map_of dh n = Some x'" for n x x'
    proof (rule Dir.IH [of "(n, x)" x])
      have "(n, x) \<in> set ch" "(n, x') \<in> set dh" using at by (auto dest: map_of_SomeD)
      then show "(n, x) \<in> set ch" "node_ok x" "node_ok x'" "no_empty_dirs x" "no_empty_dirs x'"
          "x \<noteq> Dir []" "x' \<noteq> Dir []"
        using Dir.prems(1-4) by (auto simp: Dir list_all_iff)
      show "node_file x p = node_file x' p" for p
        using files [of "n # p"] by (simp add: file_at_step(2) [OF at(1)] file_at_step(2) [OF at(2)])
    qed simp
    have keys: "\<exists>x'. map_of es' n = Some x'"
      if at: "map_of es n = Some x" and no_empty: "pruned es"
        and same: "\<And>p. file_at es p = file_at es' p" for es es' n x
    proof -
      have "(n, x) \<in> set es" using at by (auto dest: map_of_SomeD)
      then obtain p where "node_file x p \<noteq> None"
        using pruned_has_file [of x] no_empty by (fastforce simp: list_all_iff)
      then have "file_at es' (n # p) \<noteq> None" using same file_at_step(2) [OF at] by metis
      then show ?thesis using file_at_step(1) by (cases "map_of es' n") auto
    qed
    have pr: "pruned ch" "pruned dh" using Dir.prems(3,4) by (simp_all only: Dir)
    have "map_of ch n = map_of dh n" for n
    proof (cases "map_of ch n")
      case None
      then show ?thesis using keys [OF _ pr(2), of n _ ch] files by (cases "map_of dh n") auto
    next
      case (Some x)
      then show ?thesis using keys [OF Some pr(1) files] elem by auto
    qed
    then have "ch = dh" using Dir.prems(1,2) Dir by (intro bm_ext) auto
    then show ?thesis by (simp add: Dir)
  qed
qed

lemma snapshot_ext:
  assumes "tree_ok ch" "tree_ok dh" "pruned ch" "pruned dh" "\<And>p. file_at ch p = file_at dh p"
  shows "ch = dh"
proof (cases "ch = [] \<or> dh = []")
  case True
  have "es = []" if "\<And>p. file_at es p = None" "pruned es" for es
    using that pruned_has_file [of "Dir es"] by auto
  then show ?thesis using True assms by (metis file_at_empty)
next
  case False
  then show ?thesis using node_ext [of "Dir ch" "Dir dh"] assms by simp
qed

section \<open>The file list\<close>

lemma file_at_after: "tree_ok ((n, x) # xs) \<Longrightarrow> file_at xs (n # r) = None"
  by (rule file_at_step(1)) (auto simp: bm_ok_Cons map_of_eq_None_iff)

lemma ex_file_entry:
  assumes "tree_ok ((n, x) # xs)"
  shows "(\<exists>q. p = pre @ q \<and> file_at ((n, x) # xs) q = Some v) \<longleftrightarrow>
    (\<exists>r. p = (pre @ [n]) @ r \<and> node_file x r = Some v) \<or> (\<exists>q. p = pre @ q \<and> file_at xs q = Some v)"
    (is "?L \<longleftrightarrow> ?R")
proof
  assume ?L
  then obtain q where q: "p = pre @ q" "file_at ((n, x) # xs) q = Some v" by blast
  then obtain k ks where "q = k # ks" by (cases q) auto
  with q show ?R by (cases "k = n") (auto simp: file_at_entry)
next
  assume ?R
  then show ?L
  proof
    assume "\<exists>r. p = (pre @ [n]) @ r \<and> node_file x r = Some v"
    then obtain r where "p = pre @ n # r" "file_at ((n, x) # xs) (n # r) = Some v"
      by (auto simp: file_at_entry)
    then show ?L by blast
  next
    assume "\<exists>q. p = pre @ q \<and> file_at xs q = Some v"
    then obtain q where q: "p = pre @ q" "file_at xs q = Some v" by blast
    then obtain k ks where k: "q = k # ks" by (cases q) auto
    then have "k \<noteq> n" using q(2) file_at_after [OF assms] by auto
    then show ?L using q k by (auto simp: file_at_entry)
  qed
qed

lemma collect_files_mem:
  "tree_ok ch \<Longrightarrow>
     (p, m, c) \<in> set (collect_files ch pre) \<longleftrightarrow> (\<exists>q. p = pre @ q \<and> file_at ch q = Some (m, c))"
proof (induction ch arbitrary: pre rule: children_induct)
  case (File n m' c' xs)
  have "tree_ok xs" using File.prems by (simp add: bm_ok_Cons)
  then show ?case unfolding ex_file_entry [OF File.prems] using File.IH [of pre] by auto
next
  case (Dir n sub xs)
  have "tree_ok xs" "tree_ok sub" using Dir.prems by (simp_all add: bm_ok_Cons)
  then show ?case
    unfolding ex_file_entry [OF Dir.prems] using Dir.IH(1) [of "pre @ [n]"] Dir.IH(2) [of pre] by simp
qed simp

lemma files_mem:
  "tree_ok (ws_root s) \<Longrightarrow> (p, m, c) \<in> set (snapshot_files s) \<longleftrightarrow> file_at (ws_root s) p = Some (m, c)"
  by (simp add: snapshot_files_def collect_files_mem del: node_ok.simps(2))

lemma collect_files_distinct: "tree_ok ch \<Longrightarrow> distinct (map fst (collect_files ch pre))"
proof (induction ch arbitrary: pre rule: children_induct)
  case (File n m c xs)
  have "tree_ok xs" using File.prems by (simp add: bm_ok_Cons)
  then show ?case
    using File.IH [of pre] file_at_after [OF File.prems, of "[]"]
    by (auto simp: collect_files_mem simp del: node_ok.simps(2))
next
  case (Dir n sub xs)
  have ok: "tree_ok xs" "tree_ok sub" using Dir.prems by (simp_all add: bm_ok_Cons)
  have "fst ` set (collect_files sub (pre @ [n])) \<inter> fst ` set (collect_files xs pre) = {}"
    using file_at_after [OF Dir.prems] ok by (auto simp: collect_files_mem simp del: node_ok.simps(2))
  then show ?case using Dir.IH ok by simp
qed simp

lemma file_at_mode: "tree_ok ch \<Longrightarrow> file_at ch p = Some (m, c) \<Longrightarrow> m AND mode_mask = m"
proof (induction p arbitrary: ch)
  case (Cons n p)
  obtain x where x: "map_of ch n = Some x"
    using Cons.prems(2) by (cases "map_of ch n") (auto simp: file_at_step)
  have ok: "node_ok x" using tree_ok_sub [OF Cons.prems(1) x] .
  show ?case
  proof (cases x)
    case (File m' c')
    then show ?thesis using Cons.prems(2) x ok by (auto simp: file_at_step(2) split: if_splits)
  next
    case (Dir sub)
    have "file_at sub p = Some (m, c)" using Cons.prems(2) by (simp add: file_at_step(2) [OF x] Dir)
    then show ?thesis using Cons.IH ok Dir by blast
  qed
qed simp

lemma files_distinct: "tree_ok (ws_root s) \<Longrightarrow> distinct (map fst (snapshot_files s))"
  unfolding snapshot_files_def by (rule collect_files_distinct)

lemma map_of_files: "tree_ok (ws_root s) \<Longrightarrow> map_of (snapshot_files s) p = file_at (ws_root s) p"
  using files_distinct [of s] files_mem [of s p]
  by (cases "file_at (ws_root s) p"; cases "map_of (snapshot_files s) p")
    (auto simp: map_of_eq_None_iff simp del: node_ok.simps(2) dest!: map_of_SomeD)

lemma file_at_prefix_free:
  "file_at ch p = Some x \<Longrightarrow> file_at ch q = Some y \<Longrightarrow> path_under p q \<Longrightarrow> p = q"
proof (induction p arbitrary: ch q)
  case (Cons n p)
  obtain k ks where q: "q = k # ks" using Cons.prems(2) by (cases q) auto
  then have "k = n" "path_under p ks" using Cons.prems(3) by auto
  obtain z where z: "map_of ch n = Some z"
    using Cons.prems(1) by (cases "map_of ch n") (auto simp: file_at_step)
  show ?case
  proof (cases z)
    case (File m c)
    then show ?thesis
      using Cons.prems(1,2) z q \<open>k = n\<close> by (auto simp: file_at_step(2) split: if_splits)
  next
    case (Dir sub)
    then show ?thesis
      using Cons.IH [of sub ks] Cons.prems(1,2) z q \<open>k = n\<close> \<open>path_under p ks\<close>
      by (simp add: file_at_step(2))
  qed
qed simp


section \<open>Building a tree from a file list\<close>

definition insert_all :: "(path \<times> u32 \<times> string) list \<Rightarrow> children \<Rightarrow> children" where
  "insert_all fs ch = fold (\<lambda>(p, m, c) acc. insert_file acc p m c) fs ch"

lemma insert_all_simps [simp]:
  "insert_all [] ch = ch"
  "insert_all ((p, m, c) # fs) ch = insert_all fs (insert_file ch p m c)"
  by (simp_all add: insert_all_def)

definition prefix_free :: "path list \<Rightarrow> bool" where
  "prefix_free ps \<longleftrightarrow> distinct ps \<and> (\<forall>p \<in> set ps. \<forall>q \<in> set ps. path_under p q \<longrightarrow> p = q)"

lemma prefix_free_Cons:
  "prefix_free (p # ps) \<Longrightarrow> prefix_free ps"
  "prefix_free (p # ps) \<Longrightarrow> q \<in> set ps \<Longrightarrow> q \<noteq> p \<and> \<not> path_under p q \<and> \<not> path_under q p"
  by (auto simp: prefix_free_def)

lemma prefix_free_filter: "prefix_free (map f xs) \<Longrightarrow> prefix_free (map f (filter P xs))"
  unfolding prefix_free_def by (simp add: distinct_map_filter)

lemma prefix_free_strip: "prefix_free (map (append m) qs) \<Longrightarrow> prefix_free qs"
  by (auto simp: prefix_free_def path_under_conv distinct_map)

lemma files_prefix_free: "tree_ok (ws_root s) \<Longrightarrow> prefix_free (map fst (snapshot_files s))"
  using files_distinct [of s] file_at_prefix_free files_mem [of s]
  by (fastforce simp: prefix_free_def simp del: node_ok.simps(2))

lemma tree_ok_insert_all: "tree_ok ch \<Longrightarrow> tree_ok (insert_all fs ch)"
  by (induction fs arbitrary: ch) (auto simp: node_ok_insert_file simp del: node_ok.simps(2))

lemma file_at_insert_all:
  assumes "prefix_free (map fst fs)" "\<And>p. p \<in> fst ` set fs \<Longrightarrow> p \<noteq> [] \<Longrightarrow> writable_at ch p"
  shows "file_at (insert_all fs ch) q =
    (case map_of fs q of
       Some (m, c) \<Rightarrow> (if q = [] then None else Some (m AND mode_mask, c))
     | None \<Rightarrow> file_at ch q)"
  using assms
proof (induction fs arbitrary: ch)
  case (Cons f fs)
  obtain p m c where f: "f = (p, m, c)" by (cases f) auto
  have pf: "prefix_free (map fst fs)" using Cons.prems(1) prefix_free_Cons(1) by (simp add: f)
  have apart: "r \<noteq> p \<and> \<not> path_under p r \<and> \<not> path_under r p" if "r \<in> fst ` set fs" for r
    using prefix_free_Cons(2) [of p "map fst fs" r] Cons.prems(1) that by (simp add: f)
  have at: "file_at (insert_file ch p m c) r =
      (if r = p \<and> p \<noteq> [] then Some (m AND mode_mask, c) else file_at ch r)" for r
    using file_at_insert [of ch p m c r] Cons.prems(2) [of p] by (cases "p = []") (simp_all add: f)
  have "writable_at (insert_file ch p m c) r" if "r \<in> fst ` set fs" "r \<noteq> []" for r
    using apart [OF that(1)] Cons.prems(2) [of r] that by (auto simp: writable_at_def at f)
  note IH = Cons.IH [OF pf this]
  have "map_of fs p = None" using apart by (auto simp: map_of_eq_None_iff)
  then show ?case using IH by (auto simp: f at split: option.split)
qed simp

lemma insert_file_Cons_not_Nil [simp]: "insert_file ch (n # ps) m c \<noteq> []"
  by (cases ps) (auto simp: map_of_eq_None_iff dest: map_of_SomeD split: option.split tnode.split)

lemma pruned_bm_insert:
  "pruned ch \<Longrightarrow> x \<noteq> Dir [] \<Longrightarrow> no_empty_dirs x \<Longrightarrow> pruned (bm_insert n x ch)"
  using set_bm_insert [of n x ch] by (auto simp: list_all_iff)

lemma pruned_insert_file: "pruned ch \<Longrightarrow> pruned (insert_file ch p m c)"
proof (induction ch p m c rule: insert_file.induct)
  case (3 ch n p ps m c)
  have sub: "no_empty_dirs x" if "map_of ch n = Some x" for x
    using "3.prems" map_of_SomeD [OF that] by (auto simp: list_all_iff)
  show ?case
    using 3 sub by (auto intro!: pruned_bm_insert simp del: no_empty_dirs.simps(2)
        split: option.split tnode.split) (simp add: "3.IH")
qed (auto intro!: pruned_bm_insert simp del: no_empty_dirs.simps(2))

lemma pruned_insert_all: "pruned ch \<Longrightarrow> pruned (insert_all fs ch)"
  by (induction fs arbitrary: ch) (auto simp: pruned_insert_file simp del: no_empty_dirs.simps(2))

text \<open>A pruned snapshot is rebuilt from its file list.\<close>

lemma rebuild_files:
  assumes "tree_ok (ws_root s)" "pruned (ws_root s)"
  shows "insert_all (snapshot_files s) [] = ws_root s"
proof (rule snapshot_ext)
  note ok = assms(1)
  show "file_at (insert_all (snapshot_files s) []) p = file_at (ws_root s) p" for p
    using file_at_mode [OF ok, of p]
    by (cases p) (auto simp: file_at_insert_all [OF files_prefix_free [OF ok]] map_of_files [OF ok]
        split: option.split)
  show "pruned (insert_all (snapshot_files s) [])" by (rule pruned_insert_all) simp
qed (simp_all add: assms tree_ok_insert_all del: node_ok.simps(2) no_empty_dirs.simps(2))

end
