(* ===== verification/Vcs_Store.thy ===== *)
theory Vcs_Store
  imports Vcs_Snapshot
begin

text \<open>
  The store of a garden (\<^verbatim>\<open>crates/softfig-store/src/db.rs\<close>, \<^verbatim>\<open>objects.rs\<close>): the
  sqlite tables of refs, commits and trees with their constraints, and the directory of loose
  objects. A hash is the text of its 32 bytes; the digest itself is a parameter.
\<close>

type_synonym hash = string

section \<open>Rows\<close>

datatype tree_entry_kind = Blob | Tree

record tree_entry_row =
  te_name :: string
  te_kind :: tree_entry_kind
  te_mode :: u32
  te_target :: hash

record commit_row =
  cm_hash :: hash
  cm_parent :: "hash option"
  cm_root_tree :: hash
  cm_author_device :: string
  cm_author_pubkey :: string
  cm_timestamp :: "64 word"
  cm_intent :: string
  cm_payload :: string
  cm_master_key_id :: u32
  cm_signature :: string

datatype store_error =
    ObjectNotFound hash
  | ObjectCorrupt hash hash
  | CommitNotFound hash
  | TreeNotFound hash
  | RefNotSet string
  | RefCasMismatch string "hash option" "hash option"
  | Constraint string

text \<open>
  The tables. Rows of \<^verbatim>\<open>tree_entries\<close> are kept under their tree by name, in the order
  \<^verbatim>\<open>get_tree\<close> asks for; commits are kept in insertion order.
\<close>

record db =
  db_refs :: "(string \<times> hash) list"
  db_commits :: "(hash \<times> commit_row) list"
  db_trees :: "(hash \<times> (string \<times> tree_entry_row) list) list"

type_synonym objects = "(hash \<times> string) list"

definition db_empty :: db where
  "db_empty = \<lparr>db_refs = [], db_commits = [], db_trees = []\<rparr>"

text \<open>The ref of the device chain.\<close>

definition tip_ref :: string where "tip_ref = ''tip''"

section \<open>Reads\<close>

definition try_get_ref :: "db \<Rightarrow> string \<Rightarrow> hash option" where
  "try_get_ref d name = map_of (db_refs d) name"

definition get_ref :: "db \<Rightarrow> string \<Rightarrow> store_error + hash" where
  "get_ref d name = ok_or (RefNotSet name) (try_get_ref d name)"

definition list_refs :: "db \<Rightarrow> (string \<times> hash) list" where
  "list_refs d = db_refs d"

definition commit_exists :: "db \<Rightarrow> hash \<Rightarrow> bool" where
  "commit_exists d h \<longleftrightarrow> map_of (db_commits d) h \<noteq> None"

definition get_commit :: "db \<Rightarrow> hash \<Rightarrow> store_error + commit_row" where
  "get_commit d h = ok_or (CommitNotFound h) (map_of (db_commits d) h)"

definition list_commits :: "db \<Rightarrow> commit_row list" where
  "list_commits d = map snd (db_commits d)"

definition tree_exists :: "db \<Rightarrow> hash \<Rightarrow> bool" where
  "tree_exists d h \<longleftrightarrow> map_of (db_trees d) h \<noteq> None"

definition get_tree :: "db \<Rightarrow> hash \<Rightarrow> store_error + tree_entry_row list" where
  "get_tree d h = try_with (ok_or (TreeNotFound h) (map_of (db_trees d) h)) (\<lambda>rows. Inr (map snd rows))"

definition list_tree_hashes :: "db \<Rightarrow> hash list" where
  "list_tree_hashes d = map fst (db_trees d)"

section \<open>Writes\<close>

text \<open>The rows of a stored tree are replaced by name, a fresh tree starts empty.\<close>

definition put_tree :: "hash \<Rightarrow> tree_entry_row list \<Rightarrow> db \<Rightarrow> db" where
  "put_tree h es d =
     (let old = (case map_of (db_trees d) h of Some rows \<Rightarrow> rows | None \<Rightarrow> []);
          rows = fold (\<lambda>e. bm_insert (te_name e) e) es old in
      d\<lparr>db_trees := (if tree_exists d h
                     then map (\<lambda>(k, r). if k = h then (k, rows) else (k, r)) (db_trees d)
                     else db_trees d @ [(h, rows)])\<rparr>)"

text \<open>The primary key refuses a second row, the foreign key an unknown parent.\<close>

definition put_commit :: "commit_row \<Rightarrow> db \<Rightarrow> store_error + db" where
  "put_commit c d =
     (if commit_exists d (cm_hash c) then Inl (Constraint ''UNIQUE commits.hash'')
      else
        (case cm_parent c of
           Some p \<Rightarrow>
             (if commit_exists d p \<or> p = cm_hash c
              then Inr (d\<lparr>db_commits := db_commits d @ [(cm_hash c, c)]\<rparr>)
              else Inl (Constraint ''FOREIGN KEY commits.parent''))
         | None \<Rightarrow> Inr (d\<lparr>db_commits := db_commits d @ [(cm_hash c, c)]\<rparr>)))"

definition set_ref :: "string \<Rightarrow> hash \<Rightarrow> db \<Rightarrow> db" where
  "set_ref name h d = d\<lparr>db_refs := bm_insert name h (db_refs d)\<rparr>"

definition set_ref_cas :: "string \<Rightarrow> hash option \<Rightarrow> hash \<Rightarrow> db \<Rightarrow> store_error + db" where
  "set_ref_cas name expected h d =
     (if try_get_ref d name = expected then Inr (set_ref name h d)
      else Inl (RefCasMismatch name expected (try_get_ref d name)))"

text \<open>A transaction keeps the changes of a successful body and nothing of a failed one.\<close>

definition with_tx :: "(db \<Rightarrow> store_error + db) \<Rightarrow> db \<Rightarrow> (store_error + unit) \<times> db" where
  "with_tx body d = (case body d of Inl e \<Rightarrow> (Inl e, d) | Inr d' \<Rightarrow> (Inr (), d'))"

section \<open>Loose objects\<close>

definition object_put :: "(string \<Rightarrow> hash) \<Rightarrow> string \<Rightarrow> objects \<Rightarrow> hash \<times> objects" where
  "object_put hsh bytes os =
     (let h = hsh bytes in (h, if map_of os h \<noteq> None then os else os @ [(h, bytes)]))"

definition object_get :: "(string \<Rightarrow> hash) \<Rightarrow> hash \<Rightarrow> objects \<Rightarrow> store_error + string" where
  "object_get hsh h os =
     try_with (ok_or (ObjectNotFound h) (map_of os h)) (\<lambda>bytes.
     if hsh bytes \<noteq> h then Inl (ObjectCorrupt h (hsh bytes)) else Inr bytes)"

definition object_contains :: "hash \<Rightarrow> objects \<Rightarrow> bool" where
  "object_contains h os \<longleftrightarrow> map_of os h \<noteq> None"

definition object_remove :: "hash \<Rightarrow> objects \<Rightarrow> objects" where
  "object_remove h os = filter (\<lambda>(k, _). k \<noteq> h) os"

lemma object_contains_conv: "object_contains h os \<longleftrightarrow> h \<in> fst ` set os"
  by (metis map_of_eq_None_iff object_contains_def)

section \<open>What the writes do\<close>

lemma map_of_put_tree:
  "map_of (db_trees (put_tree h es d)) k =
     (if k = h then Some (fold (\<lambda>e. bm_insert (te_name e) e) es
        (case map_of (db_trees d) h of Some rows \<Rightarrow> rows | None \<Rightarrow> []))
      else map_of (db_trees d) k)"
proof -
  have upd: "map_of (map (\<lambda>(k, r). if k = h then (k, rows) else (k, r)) xs) k =
      (if k = h \<and> map_of xs h \<noteq> None then Some rows else map_of xs k)" for k rows and xs :: "(hash \<times> 'r) list"
    by (induction xs) auto
  show ?thesis
    by (auto simp: put_tree_def Let_def tree_exists_def upd map_add_def split: option.split)
qed

lemma put_tree_others [simp]:
  "db_refs (put_tree h es d) = db_refs d" "db_commits (put_tree h es d) = db_commits d"
  by (simp_all add: put_tree_def Let_def)

lemma put_tree_keys:
  "map fst (db_trees (put_tree h es d)) =
     map fst (db_trees d) @ (if tree_exists d h then [] else [h])"
  by (auto simp: put_tree_def Let_def case_prod_unfold comp_def cong: if_cong)

lemma put_commit_Inr [res_simps]:
  "put_commit c d = Inr d' \<longleftrightarrow>
     \<not> commit_exists d (cm_hash c) \<and>
     (case cm_parent c of Some p \<Rightarrow> commit_exists d p \<or> p = cm_hash c | None \<Rightarrow> True) \<and>
     d' = d\<lparr>db_commits := db_commits d @ [(cm_hash c, c)]\<rparr>"
  by (auto simp: put_commit_def split: option.split if_splits)

lemma set_ref_cas_Inr [res_simps]:
  "set_ref_cas name expected h d = Inr d' \<longleftrightarrow>
     try_get_ref d name = expected \<and> d' = d\<lparr>db_refs := bm_insert name h (db_refs d)\<rparr>"
  by (auto simp: set_ref_cas_def set_ref_def split: if_splits)

lemma with_tx_Inr [res_simps]: "with_tx body d = (Inr (), d') \<longleftrightarrow> body d = Inr d'"
  by (auto simp: with_tx_def split: sum.split)

lemma object_put_contains: "object_put hsh b os = (h, os') \<Longrightarrow> object_contains h os'"
  by (auto simp: object_put_def object_contains_def Let_def map_add_def split: if_splits)

lemma object_put_mono: "object_put hsh b os = (h, os') \<Longrightarrow> map_of os k = Some x \<Longrightarrow> map_of os' k = Some x"
  by (auto simp: object_put_def Let_def split: if_splits)

end
