(* ===== verification/Vcs_Chain.thy ===== *)
theory Vcs_Chain
  imports Vcs_Store
begin

text \<open>
  The chains of a garden (\<^verbatim>\<open>crates/softfig-vcs/src/chain.rs\<close>): the device chain at the
  root and shared chains at their mounts, the ownership of a path and the router that cuts one
  working tree into a snapshot per chain.
\<close>

section \<open>Chains and the registry\<close>

datatype chain_kind = Device | Shared

record chain =
  ch_id :: string
  ch_kind :: chain_kind
  ch_ref :: string
  ch_mount :: "path option"
  ch_key :: "string option"
  ch_enabled :: bool

definition device_chain_id :: string where "device_chain_id = ''device''"

definition chain_device :: chain where
  "chain_device = \<lparr>ch_id = device_chain_id, ch_kind = Device, ch_ref = tip_ref, ch_mount = None,
     ch_key = None, ch_enabled = True\<rparr>"

definition chain_shared :: "string \<Rightarrow> string \<Rightarrow> path \<Rightarrow> bool \<Rightarrow> chain" where
  "chain_shared ident r mount enabled =
     \<lparr>ch_id = ident, ch_kind = Shared, ch_ref = r, ch_mount = Some mount, ch_key = None,
      ch_enabled = enabled\<rparr>"

record chain_registry =
  cr_device :: chain
  cr_shared :: "chain list"

definition device_only :: chain_registry where
  "device_only = \<lparr>cr_device = chain_device, cr_shared = []\<rparr>"

text \<open>The loop keeps the last chain of the greatest depth seen so far.\<close>

fun owner_loop :: "path \<Rightarrow> chain list \<Rightarrow> chain option \<Rightarrow> nat \<Rightarrow> chain option" where
  "owner_loop p [] best depth = best"
| "owner_loop p (c # cs) best depth =
     (if \<not> ch_enabled c then owner_loop p cs best depth
      else
        (case ch_mount c of
           None \<Rightarrow> owner_loop p cs best depth
         | Some m \<Rightarrow>
             (if path_under m p \<and> depth \<le> length m then owner_loop p cs (Some c) (length m)
              else owner_loop p cs best depth)))"

definition owning_chain :: "chain_registry \<Rightarrow> path \<Rightarrow> chain" where
  "owning_chain reg p =
     (case owner_loop p (cr_shared reg) None 0 of Some c \<Rightarrow> c | None \<Rightarrow> cr_device reg)"

definition is_device_owned :: "chain_registry \<Rightarrow> path \<Rightarrow> bool" where
  "is_device_owned reg p \<longleftrightarrow> ch_kind (owning_chain reg p) = Device"

definition unkeyed_shared_owner :: "chain_registry \<Rightarrow> path \<Rightarrow> chain option" where
  "unkeyed_shared_owner reg p =
     (let c = owning_chain reg p in if ch_kind c = Shared \<and> ch_key c = None then Some c else None)"

definition is_enabled_mount_root :: "chain_registry \<Rightarrow> path \<Rightarrow> bool" where
  "is_enabled_mount_root reg p \<longleftrightarrow> list_ex (\<lambda>c. ch_enabled c \<and> ch_mount c = Some p) (cr_shared reg)"

definition enabled_chains :: "chain_registry \<Rightarrow> chain list" where
  "enabled_chains reg = cr_device reg # filter ch_enabled (cr_shared reg)"

definition all_chains :: "chain_registry \<Rightarrow> chain list" where
  "all_chains reg = cr_device reg # cr_shared reg"

section \<open>The write router\<close>

fun update_first :: "('a \<Rightarrow> bool) \<Rightarrow> ('a \<Rightarrow> 'a) \<Rightarrow> 'a list \<Rightarrow> 'a list" where
  "update_first P f [] = []"
| "update_first P f (x # xs) = (if P x then f x # xs else x # update_first P f xs)"

definition chain_relative :: "chain \<Rightarrow> path \<Rightarrow> path" where
  "chain_relative c p =
     (case ch_mount c of
        Some m \<Rightarrow> (if path_under m p then drop (length m) p else p)
      | None \<Rightarrow> p)"

definition route_file ::
  "chain_registry \<Rightarrow> path \<times> u32 \<times> string \<Rightarrow> (string \<times> walk_snapshot) list \<Rightarrow>
     (string \<times> walk_snapshot) list" where
  "route_file reg f snaps =
     (case f of (p, m, c) \<Rightarrow>
        let owner = owning_chain reg p in
        update_first (\<lambda>(r, _). r = ch_ref owner)
          (\<lambda>(r, s). (r, snapshot_insert (chain_relative owner p) m c s)) snaps)"

definition split_snapshot :: "chain_registry \<Rightarrow> walk_snapshot \<Rightarrow> (string \<times> walk_snapshot) list" where
  "split_snapshot reg unified =
     map (\<lambda>(r, s). (r, snapshot_prune
            (s\<lparr>ws_overlay_generation := ws_overlay_generation unified\<rparr>)))
       (fold (route_file reg) (snapshot_files unified)
         (map (\<lambda>c. (ch_ref c, snapshot_empty)) (enabled_chains reg)))"

section \<open>Ownership\<close>

definition mounted_over :: "path \<Rightarrow> chain \<Rightarrow> bool" where
  "mounted_over p c \<longleftrightarrow> ch_enabled c \<and> (\<exists>m. ch_mount c = Some m \<and> path_under m p)"

abbreviation mount_of :: "chain \<Rightarrow> path" where
  "mount_of c \<equiv> (case ch_mount c of Some m \<Rightarrow> m | None \<Rightarrow> [])"

lemma mounted_overD: "mounted_over p c \<Longrightarrow> p = mount_of c @ chain_relative c p"
  by (auto simp: mounted_over_def chain_relative_def path_under_conv)

text \<open>What the loop returns: its start value, or a mounted chain at least as deep as any other.\<close>

lemma owner_loop_spec:
  "case owner_loop p cs best depth of
     None \<Rightarrow> best = None \<and> (\<forall>c \<in> set cs. mounted_over p c \<longrightarrow> length (mount_of c) < depth)
   | Some c \<Rightarrow>
       (c \<in> set cs \<and> mounted_over p c \<and> depth \<le> length (mount_of c) \<and>
          (\<forall>d \<in> set cs. mounted_over p d \<longrightarrow> length (mount_of d) \<le> length (mount_of c)))
       \<or> (best = Some c \<and> (\<forall>d \<in> set cs. mounted_over p d \<longrightarrow> length (mount_of d) < depth))"
proof (induction cs arbitrary: best depth)
  case Nil
  then show ?case by (simp split: option.split)
next
  case (Cons c cs)
  consider (skip) "\<not> mounted_over p c" | (shallow) "mounted_over p c" "length (mount_of c) < depth"
    | (take) m where "mounted_over p c" "ch_mount c = Some m" "path_under m p" "ch_enabled c"
        "depth \<le> length m"
    by (cases "mounted_over p c"; cases "length (mount_of c) < depth")
      (auto simp: mounted_over_def not_less)
  then show ?case
  proof cases
    case skip
    then have "owner_loop p (c # cs) best depth = owner_loop p cs best depth"
      by (auto simp: mounted_over_def split: option.split)
    then show ?thesis using Cons.IH [of best depth] skip by (auto split: option.splits)
  next
    case shallow
    then have "owner_loop p (c # cs) best depth = owner_loop p cs best depth"
      by (auto simp: mounted_over_def)
    then show ?thesis using Cons.IH [of best depth] shallow by (auto split: option.splits)
  next
    case take
    then have "owner_loop p (c # cs) best depth = owner_loop p cs (Some c) (length m)" by simp
    then show ?thesis using Cons.IH [of "Some c" "length m"] take
      by (auto split: option.splits intro: less_imp_le)
  qed
qed

text \<open>
  A path belongs to the device chain when no enabled mount is above it, and otherwise to an
  enabled shared chain with a mount above it of the greatest depth.
\<close>

lemma owning_chain_deepest:
  "if list_ex (mounted_over p) (cr_shared reg)
   then owning_chain reg p \<in> set (cr_shared reg) \<and> mounted_over p (owning_chain reg p) \<and>
     length (mount_of (owning_chain reg p)) =
       Max (set (map (length \<circ> (\<lambda>c. mount_of c)) (filter (mounted_over p) (cr_shared reg))))
   else owning_chain reg p = cr_device reg"
proof (cases "owner_loop p (cr_shared reg) None 0")
  case None
  then show ?thesis
    using owner_loop_spec [where p = p and cs = "cr_shared reg" and best = None and depth = 0]
    by (auto simp: owning_chain_def list_ex_iff)
next
  case (Some c)
  then have c: "c \<in> set (cr_shared reg)" "mounted_over p c"
      "\<forall>d \<in> set (cr_shared reg). mounted_over p d \<longrightarrow> length (mount_of d) \<le> length (mount_of c)"
    using owner_loop_spec [where p = p and cs = "cr_shared reg" and best = None and depth = 0] by auto
  then have "Max (set (map (length \<circ> (\<lambda>c. mount_of c)) (filter (mounted_over p) (cr_shared reg)))) =
      length (mount_of c)"
    by (intro Max_eqI) auto
  then show ?thesis using c Some by (auto simp: owning_chain_def list_ex_iff)
qed

lemma owner_enabled: "owning_chain reg p \<in> set (enabled_chains reg)"
  using owning_chain_deepest [of p reg]
  by (auto simp: enabled_chains_def mounted_over_def split: if_splits)

section \<open>What the router does\<close>

definition registry_ok :: "chain_registry \<Rightarrow> bool" where
  "registry_ok reg \<longleftrightarrow> distinct (map ch_ref (enabled_chains reg)) \<and> ch_mount (cr_device reg) = None"

lemma map_of_update_first:
  "map_of (update_first (\<lambda>(r, _). r = k) (\<lambda>(r, s). (r, g s)) xs) r =
     (if r = k then map_option g (map_of xs r) else map_of xs r)"
  by (induction xs) auto

lemma map_of_route:
  "map_of (route_file reg (p, m, c) snaps) r =
     (if r = ch_ref (owning_chain reg p)
      then map_option (snapshot_insert (chain_relative (owning_chain reg p) p) m c) (map_of snaps r)
      else map_of snaps r)"
  by (simp add: route_file_def Let_def map_of_update_first)

definition carve :: "chain_registry \<Rightarrow> string \<Rightarrow> (path \<times> u32 \<times> string) list \<Rightarrow> (path \<times> u32 \<times> string) list" where
  "carve reg r fs =
     map (\<lambda>(p, v). (chain_relative (owning_chain reg p) p, v))
       (filter (\<lambda>(p, _). ch_ref (owning_chain reg p) = r) fs)"

lemma map_of_route_all:
  "map_of (fold (route_file reg) fs snaps) r =
     map_option (\<lambda>s. s\<lparr>ws_root := insert_all (carve reg r fs) (ws_root s)\<rparr>) (map_of snaps r)"
proof (induction fs arbitrary: snaps)
  case Nil
  then show ?case by (simp add: carve_def option.map_ident)
next
  case (Cons f fs)
  obtain p m c where f: "f = (p, m, c)" by (cases f) auto
  show ?case
    by (cases "map_of snaps r") (auto simp: f Cons.IH map_of_route carve_def snapshot_insert_def)
qed

lemma owner_by_ref:
  "registry_ok reg \<Longrightarrow> c \<in> set (enabled_chains reg) \<Longrightarrow>
     ch_ref (owning_chain reg p) = ch_ref c \<longleftrightarrow> owning_chain reg p = c"
  unfolding registry_ok_def using owner_enabled [of reg p] by (metis distinct_map inj_onD)

lemma owner_relative:
  assumes "registry_ok reg"
  shows "mount_of (owning_chain reg p) @ chain_relative (owning_chain reg p) p = p"
proof (cases "list_ex (mounted_over p) (cr_shared reg)")
  case True
  then show ?thesis using owning_chain_deepest [of p reg] mounted_overD by metis
next
  case False
  then show ?thesis
    using owning_chain_deepest [of p reg] assms by (simp add: registry_ok_def chain_relative_def)
qed

lemma carve_mem:
  assumes "registry_ok reg" "c \<in> set (enabled_chains reg)"
  shows "(q, v) \<in> set (carve reg (ch_ref c) fs) \<longleftrightarrow>
    (mount_of c @ q, v) \<in> set fs \<and> owning_chain reg (mount_of c @ q) = c"
proof
  assume "(q, v) \<in> set (carve reg (ch_ref c) fs)"
  then obtain p where p: "(p, v) \<in> set fs" "owning_chain reg p = c"
      "q = chain_relative (owning_chain reg p) p"
    using owner_by_ref [OF assms] by (auto simp: carve_def)
  moreover have "mount_of c @ q = p" using owner_relative [OF assms(1), of p] p by simp
  ultimately show "(mount_of c @ q, v) \<in> set fs \<and> owning_chain reg (mount_of c @ q) = c" by simp
next
  assume at: "(mount_of c @ q, v) \<in> set fs \<and> owning_chain reg (mount_of c @ q) = c"
  then have "chain_relative c (mount_of c @ q) = q"
    using owner_relative [OF assms(1), of "mount_of c @ q"] by simp
  then show "(q, v) \<in> set (carve reg (ch_ref c) fs)" using at by (force simp: carve_def)
qed

lemma carve_paths:
  assumes "registry_ok reg" "c \<in> set (enabled_chains reg)"
  shows "map (append (mount_of c)) (map fst (carve reg (ch_ref c) fs)) =
    map fst (filter (\<lambda>(p, _). ch_ref (owning_chain reg p) = ch_ref c) fs)"
  using owner_relative [OF assms(1)] owner_by_ref [OF assms] by (auto simp: carve_def)

lemma carve_prefix_free:
  assumes "registry_ok reg" "c \<in> set (enabled_chains reg)" "prefix_free (map fst fs)"
  shows "prefix_free (map fst (carve reg (ch_ref c) fs))"
  by (rule prefix_free_strip [of "mount_of c"], unfold carve_paths [OF assms(1,2)])
    (rule prefix_free_filter [OF assms(3)])

definition snapshot_of :: "(string \<times> walk_snapshot) list \<Rightarrow> chain \<Rightarrow> walk_snapshot" where
  "snapshot_of snaps c = the (map_of snaps (ch_ref c))"

lemma split_snapshot_at:
  assumes "c \<in> set (enabled_chains reg)"
  shows "map_of (split_snapshot reg u) (ch_ref c) = Some
    \<lparr>ws_root = prune_empty_dirs (insert_all (carve reg (ch_ref c) (snapshot_files u)) []),
     ws_overlay_generation = ws_overlay_generation u\<rparr>"
proof -
  have "map_of (map (\<lambda>c. (ch_ref c, snapshot_empty)) cs) (ch_ref c) = Some snapshot_empty"
    if "c \<in> set cs" for cs
    using that by (induction cs) auto
  moreover have "map_of (map (\<lambda>(r, s). (r, g s)) xs) r = map_option g (map_of xs r)"
    for g :: "walk_snapshot \<Rightarrow> walk_snapshot" and xs and r :: string
    by (induction xs) auto
  ultimately show ?thesis
    using assms by (simp add: split_snapshot_def map_of_route_all snapshot_prune_def snapshot_empty_def)
qed

text \<open>
  The router loses and leaks nothing: the snapshot of an enabled chain holds, relative to its
  mount, exactly the files of the working tree that the chain owns, unchanged, in a well-formed
  tree without empty directories that carries the overlay generation of the working tree. Only a
  file that stands at a mount itself is dropped.
\<close>

lemma split_snapshot_routes:
  assumes "registry_ok reg" "tree_ok (ws_root u)" "c \<in> set (enabled_chains reg)"
  shows "let s = snapshot_of (split_snapshot reg u) c in
    tree_ok (ws_root s) \<and> pruned (ws_root s) \<and> ws_overlay_generation s = ws_overlay_generation u \<and>
    file_at (ws_root s) q =
      (if q \<noteq> [] \<and> owning_chain reg (mount_of c @ q) = c then file_at (ws_root u) (mount_of c @ q)
       else None)"
proof -
  let ?fs = "carve reg (ch_ref c) (snapshot_files u)"
  have pf: "prefix_free (map fst ?fs)"
    by (rule carve_prefix_free [OF assms(1,3) files_prefix_free [OF assms(2)]])
  have ok: "tree_ok (insert_all ?fs [])" by (rule tree_ok_insert_all) simp
  have at: "file_at (insert_all ?fs []) q =
      (if q \<noteq> [] \<and> owning_chain reg (mount_of c @ q) = c then file_at (ws_root u) (mount_of c @ q)
       else None)"
  proof (cases "map_of ?fs q")
    case None
    then have "(q, v) \<notin> set ?fs" for v by (force simp: map_of_eq_None_iff)
    then have "owning_chain reg (mount_of c @ q) = c \<Longrightarrow> (mount_of c @ q, v) \<notin> set (snapshot_files u)" for v
      unfolding carve_mem [OF assms(1,3)] by blast
    then have "owning_chain reg (mount_of c @ q) = c \<Longrightarrow> file_at (ws_root u) (mount_of c @ q) = None"
      using files_mem [OF assms(2), of "mount_of c @ q"]
      by (cases "file_at (ws_root u) (mount_of c @ q)") auto
    then show ?thesis using None by (simp add: file_at_insert_all [OF pf])
  next
    case (Some v)
    obtain m x where v: "v = (m, x)" by fastforce
    have owner: "owning_chain reg (mount_of c @ q) = c"
      and mem: "(mount_of c @ q, v) \<in> set (snapshot_files u)"
      using map_of_SomeD [OF Some] carve_mem [OF assms(1,3)] by blast+
    have whole: "file_at (ws_root u) (mount_of c @ q) = Some (m, x)"
      using mem by (simp only: v files_mem [OF assms(2)])
    have "m AND mode_mask = m" by (rule file_at_mode [OF assms(2) whole])
    then show ?thesis
      by (simp add: file_at_insert_all [OF pf] Some v owner whole)
  qed
  show ?thesis
    using at ok tree_ok_prune [OF ok] pruned_prune file_at_prune [OF ok]
    by (simp add: snapshot_of_def split_snapshot_at [OF assms(3)] Let_def
        del: node_ok.simps(2) no_empty_dirs.simps(2))
qed


lemma split_file_at:
  "registry_ok reg \<Longrightarrow> tree_ok (ws_root u) \<Longrightarrow> c \<in> set (enabled_chains reg) \<Longrightarrow>
     file_at (ws_root (snapshot_of (split_snapshot reg u) c)) q =
       (if q \<noteq> [] \<and> owning_chain reg (mount_of c @ q) = c then file_at (ws_root u) (mount_of c @ q)
        else None)"
  using split_snapshot_routes by metis

lemma split_tree_ok:
  "registry_ok reg \<Longrightarrow> tree_ok (ws_root u) \<Longrightarrow> c \<in> set (enabled_chains reg) \<Longrightarrow>
     tree_ok (ws_root (snapshot_of (split_snapshot reg u) c)) \<and>
     pruned (ws_root (snapshot_of (split_snapshot reg u) c))"
  using split_snapshot_routes by metis

text \<open>Without shares the router is the identity.\<close>

lemma split_device_only:
  assumes "tree_ok (ws_root u)" "pruned (ws_root u)"
  shows "split_snapshot device_only u = [(tip_ref, u)]"
proof -
  have owner: "owning_chain device_only p = chain_device" for p
    by (simp add: owning_chain_def device_only_def)
  have "carve device_only tip_ref fs = fs" for fs
    by (induction fs) (auto simp: carve_def owner chain_relative_def chain_device_def)
  moreover have "chain_device \<in> set (enabled_chains device_only)" "ch_ref chain_device = tip_ref"
    by (simp_all add: enabled_chains_def device_only_def chain_device_def)
  ultimately have "map_of (split_snapshot device_only u) tip_ref = Some
      \<lparr>ws_root = prune_empty_dirs (ws_root u), ws_overlay_generation = ws_overlay_generation u\<rparr>"
    using split_snapshot_at [of chain_device device_only u] rebuild_files [OF assms] by simp
  moreover have "prune_empty_dirs (ws_root u) = ws_root u" by (rule prune_pruned [OF assms(2)])
  moreover have "map fst (split_snapshot device_only u) = [tip_ref]"
  proof -
    have "map fst (update_first P (\<lambda>(r, s). (r, g s)) xs) = map fst xs"
      for P and g :: "walk_snapshot \<Rightarrow> walk_snapshot" and xs :: "(string \<times> walk_snapshot) list"
      by (induction xs) auto
    then have "map fst (fold (route_file device_only) fs xs) = map fst xs" for fs xs
      by (induction fs arbitrary: xs) (auto simp: route_file_def Let_def split: prod.split)
    then show ?thesis
      by (auto simp: split_snapshot_def enabled_chains_def device_only_def chain_device_def
          case_prod_unfold comp_def)
  qed
  ultimately show ?thesis by (cases "split_snapshot device_only u") auto
qed

end
