(* ===== verification/Shares.thy ===== *)
theory Shares
  imports Vcs_Chain Garden
begin

text \<open>
  The allow-list of shared subtrees (\<^verbatim>\<open>crates/softfig-vcs/src/shared_config.rs\<close>), the
  pending offers (\<^verbatim>\<open>crates/softfig-keeperd/src/pending_offers.rs\<close>) and the verbs that
  change them (\<^verbatim>\<open>handlers.rs\<close>, \<^verbatim>\<open>net.rs\<close>): add, accept, remove, enable,
  disable and the receipt of an offer. The registry of chains is derived from them.
\<close>

section \<open>Membership, toggles and offers\<close>

record subtree =
  st_id :: string
  st_mount_path :: string
  st_ref_name :: string
  st_key_id :: "string option"
  st_recommended_path :: "string option"

record pending_offer =
  po_id :: string
  po_ref_name :: string
  po_recommended_path :: "string option"
  po_offered_by :: string

definition machine_dirs :: "string list" where
  "machine_dirs = [''hardware'', ''services'', ''os'', ''storage'', ''snapshots'']"

definition reserved_top_dirs :: "string list" where
  "reserved_top_dirs = [''config'', ''growlight'', ''journal'', ''inbox'']"

definition infra_names :: "string list" where
  "infra_names = [''.softfig'', ''.claude'', ''.softfigignore'']"

definition contains_share :: "subtree list \<Rightarrow> string \<Rightarrow> bool" where
  "contains_share members ident \<longleftrightarrow> list_ex (\<lambda>s. st_id s = ident) members"

text \<open>The local toggles are the identities disabled on this device.\<close>

definition is_disabled :: "string list \<Rightarrow> string \<Rightarrow> bool" where
  "is_disabled disabled ident \<longleftrightarrow> ident \<in> set disabled"

definition disable_share :: "string \<Rightarrow> string list \<Rightarrow> bool \<times> string list" where
  "disable_share ident disabled =
     (if is_disabled disabled ident then (False, disabled) else (True, disabled @ [ident]))"

definition enable_share :: "string \<Rightarrow> string list \<Rightarrow> bool \<times> string list" where
  "enable_share ident disabled =
     (let kept = filter (\<lambda>d. d \<noteq> ident) disabled in (length kept \<noteq> length disabled, kept))"

datatype share_error =
    NotGardenRelative string
  | MachineDir string
  | ReservedPath string
  | Overlapping string string

definition clean_components :: "string \<Rightarrow> string list option" where
  "clean_components p =
     (if starts_with ''/'' p then None
      else
        (let comps = filter (\<lambda>c. c \<noteq> [] \<and> c \<noteq> ''.'') (split_on (CHR ''/'') p) in
         if comps = [] \<or> ''..'' \<in> set comps then None else Some comps))"

definition is_prefix :: "string list \<Rightarrow> string list \<Rightarrow> bool" where
  "is_prefix a b \<longleftrightarrow> length a \<le> length b \<and> list_all (\<lambda>(x, y). x = y) (zip a b)"

fun overlap_scan :: "string \<Rightarrow> string list \<Rightarrow> subtree list \<Rightarrow> share_error + unit" where
  "overlap_scan mount comps [] = Inr ()"
| "overlap_scan mount comps (e # es) =
     (case clean_components (st_mount_path e) of
        None \<Rightarrow> overlap_scan mount comps es
      | Some ex \<Rightarrow>
          (if is_prefix comps ex \<or> is_prefix ex comps then Inl (Overlapping mount (st_id e))
           else overlap_scan mount comps es))"

definition validate_share_add :: "subtree list \<Rightarrow> string \<Rightarrow> share_error + unit" where
  "validate_share_add members mount =
     try_with (ok_or (NotGardenRelative mount) (clean_components mount)) (\<lambda>comps.
     if hd comps \<in> set machine_dirs then Inl (MachineDir mount)
     else if hd comps \<in> set reserved_top_dirs \<or> list_ex (\<lambda>c. c \<in> set infra_names) comps
     then Inl (ReservedPath mount)
     else overlap_scan mount comps members)"

definition chain_of_subtree :: "string list \<Rightarrow> subtree \<Rightarrow> chain" where
  "chain_of_subtree disabled e =
     (chain_shared (st_id e) (st_ref_name e) (components (st_mount_path e))
        (\<not> is_disabled disabled (st_id e)))\<lparr>ch_key := st_key_id e\<rparr>"

definition from_shared_config :: "subtree list \<Rightarrow> string list \<Rightarrow> chain_registry" where
  "from_shared_config members disabled =
     \<lparr>cr_device = chain_device, cr_shared = map (chain_of_subtree disabled) members\<rparr>"

definition get_offer :: "string \<Rightarrow> pending_offer list \<Rightarrow> pending_offer option" where
  "get_offer ident offers = find (\<lambda>x. po_id x = ident) offers"

definition remove_offer :: "string \<Rightarrow> pending_offer list \<Rightarrow> bool \<times> pending_offer list" where
  "remove_offer ident offers =
     (let kept = filter (\<lambda>x. po_id x \<noteq> ident) offers in (length offers \<noteq> length kept, kept))"

definition upsert_offer :: "pending_offer \<Rightarrow> pending_offer list \<Rightarrow> pending_offer list" where
  "upsert_offer x offers = filter (\<lambda>y. po_id y \<noteq> po_id x) offers @ [x]"

definition chain_ref :: "string \<Rightarrow> string" where
  "chain_ref ident = ''chain/'' @ ident"

section \<open>The verbs\<close>

text \<open>
  The state the verbs change and what they observe: the lock, the mount, the composed view of
  device content, and whether the commits and the sidecar writes succeed.
\<close>

record share_state =
  sh_members :: "subtree list"
  sh_disabled :: "string list"
  sh_offers :: "pending_offer list"
  sh_refs :: "string list"

record share_env =
  sv_unlocked :: bool
  sv_fuse :: bool
  sv_exists :: "string \<Rightarrow> bool"
  sv_is_dir :: "string \<Rightarrow> bool"
  sv_genesis :: "op_error + unit"
  sv_commit :: "op_error + unit"
  sv_toggles_saved :: "op_error + unit"
  sv_offers_saved :: bool

abbreviation bad_share :: "string \<Rightarrow> op_error" where
  "bad_share msg \<equiv> Failed_with BadArgs msg"

definition share_id_ok :: "string \<Rightarrow> bool" where
  "share_id_ok ident \<longleftrightarrow>
     ident \<noteq> [] \<and> length ident \<le> 64 \<and>
     list_all (\<lambda>b. is_lower b \<or> is_digit b \<or> b = CHR ''-'') ident \<and> ident \<noteq> device_chain_id"

definition validate_share_id :: "string \<Rightarrow> op_error + string" where
  "validate_share_id raw =
     (let ident = trim raw in
      if share_id_ok ident then Inr ident else Inl (bad_share ''invalid share id''))"

definition trim_dashes :: "string \<Rightarrow> string" where
  "trim_dashes s = trim_end_matches (\<lambda>c. c = CHR ''-'') (dropWhile (\<lambda>c. c = CHR ''-'') s)"

text \<open>The derivation maps characters, that is the bytes that start one.\<close>

definition is_continuation :: "char \<Rightarrow> bool" where
  "is_continuation c \<longleftrightarrow> 128 \<le> (of_char c :: nat) \<and> (of_char c :: nat) < 192"

definition derive_share_id :: "string \<Rightarrow> op_error + string" where
  "derive_share_id mount =
     (let last_comp = (case find (\<lambda>c. c \<noteq> []) (rev (split_on (CHR ''/'') mount)) of
            Some c \<Rightarrow> c | None \<Rightarrow> []);
          slug = map (\<lambda>c. let l = lower_char c in if is_lower l \<or> is_digit l then l else CHR ''-'')
            (filter (\<lambda>c. \<not> is_continuation c) last_comp)
      in map_err (\<lambda>_. bad_share ''could not derive a share id'') (validate_share_id (trim_dashes slug)))"

definition normalize_mount_path :: "string \<Rightarrow> op_error + string" where
  "normalize_mount_path raw =
     (let trimmed = trim raw in
      if trimmed = [] \<or> starts_with ''/'' trimmed
      then Inl (bad_share ''mount_path must be a non-empty garden-relative path'')
      else
        (let comps = filter (\<lambda>c. c \<noteq> [] \<and> c \<noteq> ''.'') (split_on (CHR ''/'') trimmed) in
         if comps = [] \<or> ''..'' \<in> set comps
         then Inl (bad_share ''mount_path is not a clean garden-relative path'')
         else Inr (join ''/'' comps)))"

fun probe_ancestors :: "share_env \<Rightarrow> string \<Rightarrow> string \<Rightarrow> string list \<Rightarrow> op_error + unit" where
  "probe_ancestors v mount pre [] = Inr ()"
| "probe_ancestors v mount pre (c # cs) =
     (let pre' = (if pre = [] then c else pre @ ''/'' @ c) in
      if pre' = mount then Inr ()
      else if sv_exists v pre' \<and> \<not> sv_is_dir v pre'
      then Inl (bad_share ''ancestor is a device file'')
      else probe_ancestors v mount pre' cs)"

definition probe_placement_free :: "share_env \<Rightarrow> string \<Rightarrow> op_error + unit" where
  "probe_placement_free v mount =
     try_with (probe_ancestors v mount [] (split_on (CHR ''/'') mount)) (\<lambda>_.
     guard (\<not> sv_exists v mount)
       (Failed_with PathAlreadyExists ''already has device-chain content''))"

text \<open>The chain ref is born before the membership row that names it.\<close>

definition ensure_ref :: "share_env \<Rightarrow> string \<Rightarrow> share_state \<Rightarrow> op_error + share_state" where
  "ensure_ref v r st =
     (if r \<in> set (sh_refs st) then Inr st
      else try_with (sv_genesis v) (\<lambda>_. Inr (st\<lparr>sh_refs := sh_refs st @ [r]\<rparr>)))"

definition add_member ::
  "share_env \<Rightarrow> subtree \<Rightarrow> share_state \<Rightarrow> (op_error + subtree) \<times> share_state" where
  "add_member v e st =
     (case ensure_ref v (st_ref_name e) st of
        Inl err \<Rightarrow> (Inl err, st)
      | Inr st1 \<Rightarrow>
          (case sv_commit v of
             Inl err \<Rightarrow> (Inl err, st1)
           | Inr _ \<Rightarrow> (Inr e, st1\<lparr>sh_members := sh_members st1 @ [e]\<rparr>)))"


text \<open>
  The two verbs that add a row. The reply is the row; accepting a share that is already a member
  only answers it and drops the offer.
\<close>

definition save_offers :: "share_env \<Rightarrow> pending_offer list \<Rightarrow> share_state \<Rightarrow> share_state" where
  "save_offers v offers st = (if sv_offers_saved v then st\<lparr>sh_offers := offers\<rparr> else st)"

definition drop_offer :: "share_env \<Rightarrow> string \<Rightarrow> share_state \<Rightarrow> share_state" where
  "drop_offer v ident st =
     (case remove_offer ident (sh_offers st) of
        (removed, kept) \<Rightarrow> if removed then save_offers v kept st else st)"

definition share_add ::
  "share_env \<Rightarrow> string \<Rightarrow> string option \<Rightarrow> share_state \<Rightarrow> (op_error + subtree) \<times> share_state" where
  "share_add v mount_arg id_arg st =
     (case try_with (normalize_mount_path mount_arg) (\<lambda>mount.
           try_with (guard (sv_unlocked v) (Failed_with VaultLocked ''vault is locked'')) (\<lambda>_.
           try_with (guard (sv_fuse v) (bad_share ''requires the FUSE union mount'')) (\<lambda>_.
           try_with (map_err (\<lambda>_. bad_share ''share refused'') (validate_share_add (sh_members st) mount)) (\<lambda>_.
           try_with (case id_arg of Some raw \<Rightarrow> validate_share_id raw | None \<Rightarrow> derive_share_id mount) (\<lambda>ident.
           try_with (guard (\<not> contains_share (sh_members st) ident) (bad_share ''id already exists'')) (\<lambda>_.
           try_with (probe_placement_free v mount) (\<lambda>_.
           Inr \<lparr>st_id = ident, st_mount_path = mount, st_ref_name = chain_ref ident,
                st_key_id = None, st_recommended_path = Some mount\<rparr>))))))) of
        Inl e \<Rightarrow> (Inl e, st)
      | Inr e \<Rightarrow> add_member v e st)"

definition share_accept ::
  "share_env \<Rightarrow> string \<Rightarrow> string option \<Rightarrow> share_state \<Rightarrow> (op_error + subtree) \<times> share_state" where
  "share_accept v id_arg mount_arg st =
     (case try_with (validate_share_id id_arg) (\<lambda>ident.
           try_with (guard (sv_unlocked v) (Failed_with VaultLocked ''vault is locked'')) (\<lambda>_.
           try_with (guard (sv_fuse v) (bad_share ''requires the FUSE union mount'')) (\<lambda>_.
           try_with (ok_or (bad_share ''no pending share offer'') (get_offer ident (sh_offers st))) (\<lambda>x.
           Inr (ident, x))))) of
        Inl e \<Rightarrow> (Inl e, st)
      | Inr (ident, x) \<Rightarrow>
          (case find (\<lambda>e. st_id e = ident) (sh_members st) of
             Some e \<Rightarrow> (Inr e, drop_offer v ident st)
           | None \<Rightarrow>
               (case try_with (ok_or (bad_share ''pass a mount_path'')
                       (case mount_arg of Some m \<Rightarrow> Some m | None \<Rightarrow> po_recommended_path x)) (\<lambda>raw.
                     try_with (normalize_mount_path raw) (\<lambda>mount.
                     try_with (map_err (\<lambda>_. bad_share ''share refused'')
                       (validate_share_add (sh_members st) mount)) (\<lambda>_.
                     try_with (probe_placement_free v mount) (\<lambda>_.
                     Inr \<lparr>st_id = ident, st_mount_path = mount, st_ref_name = po_ref_name x,
                          st_key_id = None, st_recommended_path = po_recommended_path x\<rparr>)))) of
                  Inl e \<Rightarrow> (Inl e, st)
                | Inr e \<Rightarrow>
                    (case add_member v e st of
                       (Inl err, st1) \<Rightarrow> (Inl err, st1)
                     | (Inr e', st1) \<Rightarrow> (Inr e', drop_offer v ident st1)))))"

definition share_remove :: "share_env \<Rightarrow> string \<Rightarrow> share_state \<Rightarrow> (op_error + bool) \<times> share_state" where
  "share_remove v id_arg st =
     (let ident = trim id_arg in
      if \<not> sv_unlocked v then (Inl (Failed_with VaultLocked ''vault is locked''), st)
      else
        (let kept = filter (\<lambda>s. st_id s \<noteq> ident) (sh_members st);
             removed = length kept \<noteq> length (sh_members st) in
         if \<not> removed then (Inr False, st)
         else
           (case sv_commit v of
              Inl e \<Rightarrow> (Inl e, st)
            | Inr _ \<Rightarrow>
                (let st1 = st\<lparr>sh_members := kept\<rparr>;
                     (changed, disabled) = enable_share ident (sh_disabled st1) in
                 (Inr True,
                  if changed \<and> is_ok (sv_toggles_saved v) then st1\<lparr>sh_disabled := disabled\<rparr> else st1)))))"

definition share_toggle ::
  "share_env \<Rightarrow> string \<Rightarrow> bool \<Rightarrow> share_state \<Rightarrow> (op_error + bool) \<times> share_state" where
  "share_toggle v id_arg disable st =
     (let ident = trim id_arg in
      if \<not> sv_unlocked v then (Inl (Failed_with VaultLocked ''vault is locked''), st)
      else
        (case find (\<lambda>s. st_id s = ident) (sh_members st) of
           None \<Rightarrow> (Inl (Failed_with NotFound ''no shared subtree with that id''), st)
         | Some e \<Rightarrow>
             (if \<not> disable \<and> sv_exists v (st_mount_path e)
              then (Inl (Failed_with PathAlreadyExists ''holds device-chain content''), st)
              else
                (case (if disable then disable_share ident (sh_disabled st)
                       else enable_share ident (sh_disabled st)) of
                   (changed, disabled) \<Rightarrow>
                     if \<not> changed then (Inr False, st)
                     else
                       (case sv_toggles_saved v of
                          Inl err \<Rightarrow> (Inl err, st)
                        | Inr _ \<Rightarrow> (Inr True, st\<lparr>sh_disabled := disabled\<rparr>))))))"

text \<open>The receipt of an offer; \<open>authentic\<close> is the check of sender and signature.\<close>

definition receive_offer ::
  "share_env \<Rightarrow> bool \<Rightarrow> string \<Rightarrow> string \<Rightarrow> string \<Rightarrow> string \<Rightarrow> share_state \<Rightarrow> share_state" where
  "receive_offer v authentic chain_name ident recommended owner st =
     (if \<not> authentic then st
      else if \<not> is_ok (validate_share_id ident) \<or> chain_name \<noteq> chain_ref ident then st
      else if \<not> sv_unlocked v then st
      else if contains_share (sh_members st) ident then drop_offer v ident st
      else save_offers v
        (upsert_offer
          \<lparr>po_id = ident, po_ref_name = chain_name,
           po_recommended_path = (if recommended = [] then None else Some recommended),
           po_offered_by = owner\<rparr> (sh_offers st)) st)"

inductive share_step :: "share_state \<Rightarrow> share_state \<Rightarrow> bool" where
  step_add: "share_step st (snd (share_add v m i st))"
| step_accept: "share_step st (snd (share_accept v i m st))"
| step_remove: "share_step st (snd (share_remove v i st))"
| step_toggle: "share_step st (snd (share_toggle v i d st))"
| step_offer: "share_step st (receive_offer v a c i r w st)"

end
