(* ===== verification/Shares_Props.thy ===== *)
theory Shares_Props
  imports Shares Machine
begin

text \<open>
  What the verbs on shared subtrees guarantee: every row of the allow-list has a valid identity,
  its canonical ref and a clean mount outside the reserved directories, and the mounts are
  disjoint. So the derived registry routes every path to one chain, and the private directories of
  the device never leave the device chain.
\<close>

section \<open>The invariant of the allow-list\<close>

definition private_top :: "string \<Rightarrow> bool" where
  "private_top c \<longleftrightarrow> c \<in> set machine_dirs \<or> c \<in> set reserved_top_dirs"

definition row_ok :: "subtree \<Rightarrow> bool" where
  "row_ok e \<longleftrightarrow> share_id_ok (st_id e) \<and> st_ref_name e = chain_ref (st_id e) \<and>
     clean_components (st_mount_path e) = Some (components (st_mount_path e)) \<and>
     components (st_mount_path e) \<noteq> [] \<and> \<not> private_top (hd (components (st_mount_path e))) \<and>
     list_all (\<lambda>c. c \<notin> set infra_names) (components (st_mount_path e))"

definition apart :: "subtree \<Rightarrow> subtree \<Rightarrow> bool" where
  "apart a b \<longleftrightarrow> \<not> path_under (components (st_mount_path a)) (components (st_mount_path b)) \<and>
     \<not> path_under (components (st_mount_path b)) (components (st_mount_path a))"

definition members_ok :: "subtree list \<Rightarrow> bool" where
  "members_ok ms \<longleftrightarrow> list_all row_ok ms \<and> distinct (map st_id ms) \<and> sorted_wrt apart ms"

definition shares_ok :: "share_state \<Rightarrow> bool" where
  "shares_ok st \<longleftrightarrow> members_ok (sh_members st) \<and>
     list_all (\<lambda>x. po_ref_name x = chain_ref (po_id x)) (sh_offers st)"

section \<open>Clean mounts\<close>

definition clean_parts :: "string list \<Rightarrow> bool" where
  "clean_parts cs \<longleftrightarrow> cs \<noteq> [] \<and> ''..'' \<notin> set cs \<and>
     list_all (\<lambda>c. c \<noteq> [] \<and> c \<noteq> ''.'' \<and> CHR ''/'' \<notin> set c) cs"

lemma clean_parts_join:
  assumes "clean_parts cs"
  shows "split_on (CHR ''/'') (join ''/'' cs) = cs" "\<not> starts_with ''/'' (join ''/'' cs)"
    "filter (\<lambda>c. c \<noteq> [] \<and> c \<noteq> ''.'') cs = cs"
proof -
  show eq: "split_on (CHR ''/'') (join ''/'' cs) = cs"
    using assms by (intro split_on_join) (auto simp: clean_parts_def list_all_iff)
  show "filter (\<lambda>c. c \<noteq> [] \<and> c \<noteq> ''.'') cs = cs"
    using assms by (simp add: clean_parts_def list_all_iff filter_id_conv)
  show "\<not> starts_with ''/'' (join ''/'' cs)"
  proof
    assume "starts_with ''/'' (join ''/'' cs)"
    then obtain t where "join ''/'' cs = CHR ''/'' # t" by (auto simp: starts_with_conv)
    then have "split_on (CHR ''/'') (join ''/'' cs) = [] # split_on (CHR ''/'') t" by simp
    then have "[] \<in> set cs" by (metis eq list.set_intros(1))
    then show False using assms by (auto simp: clean_parts_def list_all_iff)
  qed
qed

lemma clean_parts_components:
  assumes "clean_parts cs"
  shows "components (join ''/'' cs) = cs" "clean_components (join ''/'' cs) = Some cs"
proof -
  have "hd cs \<noteq> ''.''" using assms by (cases cs) (auto simp: clean_parts_def)
  then show "components (join ''/'' cs) = cs" "clean_components (join ''/'' cs) = Some cs"
    using clean_parts_join [OF assms] assms
    by (simp_all add: components_def clean_components_def clean_parts_def)
qed

lemma normalized_clean:
  assumes "normalize_mount_path raw = Inr m"
  obtains cs where "clean_parts cs" "m = join ''/'' cs"
proof
  let ?cs = "filter (\<lambda>c. c \<noteq> [] \<and> c \<noteq> ''.'') (split_on (CHR ''/'') (trim raw))"
  show "m = join ''/'' ?cs"
    using assms by (simp add: normalize_mount_path_def Let_def split: if_splits)
  show "clean_parts ?cs"
    using assms split_on_no_sep [of _ "CHR ''/''" "trim raw"]
    by (auto simp: normalize_mount_path_def clean_parts_def list_all_iff Let_def split: if_splits)
qed

lemma is_prefix_path_under [simp]: "is_prefix a b \<longleftrightarrow> path_under a b"
  by (induction a b rule: list_induct2') (auto simp: is_prefix_def)

lemma overlap_scan_ok:
  "overlap_scan mount comps es = Inr () \<longleftrightarrow>
     (\<forall>e \<in> set es. \<forall>ex. clean_components (st_mount_path e) = Some ex \<longrightarrow>
        \<not> path_under comps ex \<and> \<not> path_under ex comps)"
  by (induction es) (auto split: option.split)

lemma placed_row:
  assumes "normalize_mount_path raw = Inr m" "validate_share_add ms m = Inr ()" "members_ok ms"
    and "share_id_ok i" "r = chain_ref i" "i \<notin> st_id ` set ms"
  shows "members_ok (ms @ [\<lparr>st_id = i, st_mount_path = m, st_ref_name = r, st_key_id = k,
    st_recommended_path = p\<rparr>])"
proof -
  obtain cs where cs: "clean_parts cs" "m = join ''/'' cs" using normalized_clean [OF assms(1)] .
  note comps = clean_parts_components [OF cs(1), folded cs(2)]
  have "cs \<noteq> []" using cs(1) by (simp add: clean_parts_def)
  moreover have "\<not> private_top (hd cs)" "list_all (\<lambda>c. c \<notin> set infra_names) cs" and scan: "overlap_scan m cs ms = Inr ()"
    using assms(2) comps hd_in_set [OF \<open>cs \<noteq> []\<close>]
    by (auto simp: validate_share_add_def private_top_def list_ex_iff list_all_iff split: if_splits)
  ultimately show ?thesis
    using assms(3-6) comps scan
    by (auto simp: members_ok_def row_ok_def sorted_wrt_append apart_def overlap_scan_ok list_all_iff)
qed

section \<open>Every verb keeps it\<close>

lemma validate_share_id_ok: "validate_share_id raw = Inr i \<Longrightarrow> share_id_ok i"
  by (auto simp: validate_share_id_def Let_def split: if_splits)

lemma derive_share_id_ok: "derive_share_id m = Inr i \<Longrightarrow> share_id_ok i"
  by (auto simp: derive_share_id_def Let_def map_err_Inr intro: validate_share_id_ok)

lemma add_member_keeps:
  "shares_ok st \<Longrightarrow> members_ok (sh_members st @ [e]) \<Longrightarrow> shares_ok (snd (add_member v e st))"
  by (auto simp: add_member_def ensure_ref_def shares_ok_def res_simps split: sum.splits if_splits)

lemma drop_offer_keeps [intro]: "shares_ok st \<Longrightarrow> shares_ok (drop_offer v i st)"
  by (auto simp: drop_offer_def remove_offer_def save_offers_def shares_ok_def list_all_iff Let_def)

lemma members_ok_filter: "members_ok ms \<Longrightarrow> members_ok (filter P ms)"
  by (auto simp: members_ok_def list_all_iff distinct_map_filter sorted_wrt_filter)

lemma share_add_keeps: "shares_ok st \<Longrightarrow> shares_ok (snd (share_add v m i st))"
  unfolding share_add_def
  by (auto simp: res_simps contains_share_def list_ex_iff shares_ok_def split: sum.split option.splits
      intro!: add_member_keeps [unfolded shares_ok_def] placed_row
      dest: validate_share_id_ok derive_share_id_ok)

lemma get_offer_ref: "shares_ok st \<Longrightarrow> get_offer i (sh_offers st) = Some x \<Longrightarrow> po_ref_name x = chain_ref i"
  by (auto simp: get_offer_def shares_ok_def list_all_iff dest!: find_in_set)

lemma find_None_ids: "find (\<lambda>e. st_id e = i) ms = None \<longleftrightarrow> i \<notin> st_id ` set ms"
  by (auto simp: find_None_iff)

lemma share_accept_keeps:
  assumes ok: "shares_ok st"
  shows "shares_ok (snd (share_accept v i m st))"
proof -
  have row: "members_ok (sh_members st @ [e])"
    if "share_id_ok ident" "get_offer ident (sh_offers st) = Some x"
      "find (\<lambda>e. st_id e = ident) (sh_members st) = None" "normalize_mount_path raw = Inr mount"
      "validate_share_add (sh_members st) mount = Inr ()"
      "e = \<lparr>st_id = ident, st_mount_path = mount, st_ref_name = po_ref_name x,
         st_key_id = None, st_recommended_path = po_recommended_path x\<rparr>" for ident x raw mount e
    using that ok get_offer_ref [OF ok that(2)]
    by (auto simp: shares_ok_def find_None_ids intro!: placed_row)
  have drop: "shares_ok (snd (case add_member v e st of
      (Inl err, st1) \<Rightarrow> (Inl err, st1) | (Inr e', st1) \<Rightarrow> (Inr e', drop_offer v ident st1)))"
    if "members_ok (sh_members st @ [e])" for e ident
    using add_member_keeps [OF ok that, of v] by (auto split: prod.split sum.split)
  show ?thesis
    unfolding share_accept_def
    using ok by (auto simp: res_simps split: sum.split option.split
        intro!: drop row dest: validate_share_id_ok)
qed

lemma share_remove_keeps: "shares_ok st \<Longrightarrow> shares_ok (snd (share_remove v i st))"
  by (auto simp: share_remove_def shares_ok_def Let_def members_ok_filter split: sum.split prod.split)

lemma share_toggle_keeps: "shares_ok st \<Longrightarrow> shares_ok (snd (share_toggle v i d st))"
  by (auto simp: share_toggle_def shares_ok_def Let_def split: sum.split prod.split option.split)

lemma receive_offer_keeps: "shares_ok st \<Longrightarrow> shares_ok (receive_offer v a c i r w st)"
  by (simp add: receive_offer_def drop_offer_keeps)
    (auto simp: save_offers_def upsert_offer_def shares_ok_def list_all_iff)

lemma share_step_keeps: "share_step st st' \<Longrightarrow> shares_ok st \<Longrightarrow> shares_ok st'"
  by (induction rule: share_step.induct)
    (simp_all add: share_add_keeps share_accept_keeps share_remove_keeps share_toggle_keeps
      receive_offer_keeps)

interpretation allow_list: machine share_step shares_ok
  by unfold_locales (rule share_step_keeps)

section \<open>The derived registry\<close>

lemma enabled_of_config:
  "set (enabled_chains (from_shared_config ms ds)) \<subseteq> insert chain_device (set (map (chain_of_subtree ds) ms))"
  by (auto simp: enabled_chains_def from_shared_config_def)

lemma chain_ref_inj: "chain_ref a = chain_ref b \<longleftrightarrow> a = b"
  by (simp add: chain_ref_def)

lemma chain_ref_not_tip: "chain_ref i \<noteq> tip_ref"
  by (simp add: chain_ref_def tip_ref_def)

lemma config_registry_ok: "members_ok ms \<Longrightarrow> registry_ok (from_shared_config ms ds)"
  unfolding registry_ok_def
proof
  assume ok: "members_ok ms"
  have refs: "map (ch_ref \<circ> chain_of_subtree ds) ms = map (chain_ref \<circ> st_id) ms"
    using ok by (auto simp: members_ok_def row_ok_def list_all_iff chain_of_subtree_def chain_shared_def)
  have "distinct (map (ch_ref \<circ> chain_of_subtree ds) ms)"
    unfolding refs using ok by (auto simp: members_ok_def distinct_map inj_on_def chain_ref_inj)
  moreover have "tip_ref \<notin> set (map (ch_ref \<circ> chain_of_subtree ds) ms)"
    unfolding refs using chain_ref_not_tip by (metis (no_types, lifting) comp_apply ex_map_conv)
  ultimately show "distinct (map ch_ref (enabled_chains (from_shared_config ms ds)))"
    by (auto simp: enabled_chains_def from_shared_config_def chain_device_def distinct_map_filter
        simp flip: map_map)
qed (simp add: from_shared_config_def chain_device_def)

lemma mounted_member:
  "c \<in> set (cr_shared (from_shared_config ms ds)) \<Longrightarrow> mounted_over p c \<Longrightarrow>
     \<exists>e \<in> set ms. c = chain_of_subtree ds e \<and> path_under (components (st_mount_path e)) p \<and>
       \<not> is_disabled ds (st_id e)"
  by (auto simp: from_shared_config_def mounted_over_def chain_of_subtree_def chain_shared_def)

lemma members_apart:
  assumes "members_ok ms" "a \<in> set ms" "b \<in> set ms" "path_under (components (st_mount_path a)) p"
    "path_under (components (st_mount_path b)) p"
  shows "a = b"
proof (rule ccontr)
  assume "a \<noteq> b"
  then have "apart a b \<or> apart b a"
    using assms(1-3) unfolding members_ok_def
    by (metis in_set_conv_nth linorder_neqE_nat sorted_wrt_iff_nth_less)
  then show False using path_under_linear [OF assms(4,5)] by (auto simp: apart_def)
qed

definition registry_of :: "share_state \<Rightarrow> chain_registry" where
  "registry_of st = from_shared_config (sh_members st) (sh_disabled st)"

text \<open>The share above a path: a row of the allow-list that is not switched off.\<close>

definition shared_over :: "share_state \<Rightarrow> path \<Rightarrow> subtree \<Rightarrow> bool" where
  "shared_over st p e \<longleftrightarrow> e \<in> set (sh_members st) \<and> st_id e \<notin> set (sh_disabled st) \<and>
     (\<exists>q. p = components (st_mount_path e) @ q)"

lemma mounted_iff_shared:
  "c \<in> set (cr_shared (registry_of st)) \<and> mounted_over p c \<longleftrightarrow>
     (\<exists>e. shared_over st p e \<and> c = chain_of_subtree (sh_disabled st) e)"
  by (auto simp: registry_of_def from_shared_config_def mounted_over_def chain_of_subtree_def
      chain_shared_def shared_over_def is_disabled_def path_under_conv)

lemma shared_over_unique:
  "members_ok (sh_members st) \<Longrightarrow> shared_over st p a \<Longrightarrow> shared_over st p b \<Longrightarrow> a = b"
  using members_apart [of "sh_members st" a b p] by (auto simp: shared_over_def path_under_conv)

lemma owner_is_share:
  assumes "members_ok (sh_members st)" "shared_over st p e"
  shows "owning_chain (registry_of st) p = chain_of_subtree (sh_disabled st) e"
proof -
  let ?c = "chain_of_subtree (sh_disabled st) e" and ?o = "owning_chain (registry_of st) p"
  have c: "?c \<in> set (cr_shared (registry_of st))" "mounted_over p ?c"
    using mounted_iff_shared [of ?c st p] assms(2) by auto
  then have "?o \<in> set (cr_shared (registry_of st)) \<and> mounted_over p ?o"
    using owning_chain_deepest [of p "registry_of st"] by (auto simp: list_ex_iff split: if_splits)
  then obtain f where "shared_over st p f" "?o = chain_of_subtree (sh_disabled st) f"
    using mounted_iff_shared by blast
  then show ?thesis using shared_over_unique [OF assms] by simp
qed

lemma owner_is_device:
  assumes "\<nexists>e. shared_over st p e"
  shows "owning_chain (registry_of st) p = chain_device"
proof -
  have "\<not> list_ex (mounted_over p) (cr_shared (registry_of st))"
    using assms mounted_iff_shared [of _ st p] by (auto simp: list_ex_iff)
  then show ?thesis
    using owning_chain_deepest [of p "registry_of st"] by (simp add: registry_of_def from_shared_config_def)
qed

text \<open>
  The private places of a device: everything below its machine and reserved directories, and, at any
  depth, everything below an infrastructure name that is not itself inside a share.
\<close>

definition private_place :: "share_state \<Rightarrow> path \<Rightarrow> bool" where
  "private_place st p \<longleftrightarrow>
     (\<exists>c vs. p = c # vs \<and> (c \<in> set machine_dirs \<or> c \<in> set reserved_top_dirs)) \<or>
     (\<exists>us c vs. p = us @ c # vs \<and> c \<in> set infra_names \<and> (\<nexists>e. shared_over st us e))"

lemma private_unshared:
  assumes "members_ok (sh_members st)" "private_place st p"
  shows "\<nexists>e. shared_over st p e"
proof
  assume "\<exists>e. shared_over st p e"
  then obtain e q where e: "e \<in> set (sh_members st)" "st_id e \<notin> set (sh_disabled st)"
    and p: "p = components (st_mount_path e) @ q" by (auto simp: shared_over_def)
  let ?m = "components (st_mount_path e)"
  have "row_ok e" using assms(1) e(1) by (auto simp: members_ok_def list_all_iff)
  then have m: "?m \<noteq> []" "\<not> private_top (hd ?m)" "list_all (\<lambda>c. c \<notin> set infra_names) ?m"
    by (simp_all add: row_ok_def)
  consider (top) c vs where "p = c # vs" "c \<in> set machine_dirs \<or> c \<in> set reserved_top_dirs"
    | (deep) us c vs where "p = us @ c # vs" "c \<in> set infra_names" "\<nexists>e. shared_over st us e"
    using assms(2) unfolding private_place_def by blast
  then show False
  proof cases
    case top
    then have "private_top (hd ?m)" using m(1) p by (cases ?m) (auto simp: private_top_def)
    then show False using m(2) by simp
  next
    case deep
    note split = deep(1) and c = deep(2) and none = deep(3)
    show False
    proof (cases "length ?m \<le> length us")
      case True
      then have "us = ?m @ drop (length ?m) us" using p split by (metis append_eq_append_conv_if append_take_drop_id)
      then have "shared_over st us e" using e by (auto simp: shared_over_def)
      then show False using none by blast
    next
      case False
      then have "?m ! length us = c" using p split by (metis nth_append nth_append_length not_le)
      then have "c \<in> set ?m" using False by (metis not_le nth_mem)
      then show False using m(3) c by (auto simp: list_all_iff)
    qed
  qed
qed

text \<open>
  C7. Whatever the order and the outcomes of the verbs on shares, starting from a valid allow-list,
  every path has one owner: when an enabled share is mounted at or above it, that share is the only
  one and its chain, under the canonical ref of the share, owns the path; otherwise the device
  chain does. The refs of the enabled chains are distinct and none is the tip of the device. No
  mount is below a machine or reserved directory, and none goes through an infrastructure name at
  any depth, so those places belong to the device chain.
\<close>

theorem shares_route_one_way:
  assumes "share_step\<^sup>*\<^sup>* st st'" "shares_ok st"
  shows "registry_ok (registry_of st') \<and>
    (\<forall>e. shared_over st' p e \<longrightarrow>
       owning_chain (registry_of st') p = chain_of_subtree (sh_disabled st') e \<and>
       ch_ref (owning_chain (registry_of st') p) = chain_ref (st_id e) \<and>
       ch_kind (owning_chain (registry_of st') p) = Shared \<and>
       (\<forall>f. shared_over st' p f \<longrightarrow> f = e)) \<and>
    ((\<nexists>e. shared_over st' p e) \<longrightarrow> owning_chain (registry_of st') p = chain_device) \<and>
    (private_place st' p \<longrightarrow> owning_chain (registry_of st') p = chain_device)"
proof -
  have ok: "members_ok (sh_members st')"
    using allow_list.run_good [OF assms] by (simp add: shares_ok_def)
  have "ch_ref (chain_of_subtree (sh_disabled st') e) = chain_ref (st_id e)"
    "ch_kind (chain_of_subtree (sh_disabled st') e) = Shared" if "shared_over st' p e" for e
    using that ok
    by (auto simp: members_ok_def row_ok_def list_all_iff shared_over_def chain_of_subtree_def chain_shared_def)
  then show ?thesis
    using config_registry_ok [OF ok] owner_is_share [OF ok] owner_is_device [of st' p]
      shared_over_unique [OF ok] private_unshared [OF ok] by (auto simp: registry_of_def)
qed

text \<open>A garden that shares one folder.\<close>

definition demo_share_env :: share_env where
  "demo_share_env = \<lparr>sv_unlocked = True, sv_fuse = True, sv_exists = (\<lambda>_. False),
     sv_is_dir = (\<lambda>_. False), sv_genesis = Inr (), sv_commit = Inr (), sv_toggles_saved = Inr (),
     sv_offers_saved = True\<rparr>"

definition no_shares :: share_state where
  "no_shares = \<lparr>sh_members = [], sh_disabled = [], sh_offers = [], sh_refs = [tip_ref]\<rparr>"

definition one_share :: share_state where
  "one_share = snd (share_add demo_share_env ''./projects//Wiki/'' None no_shares)"

lemma one_share_members:
  "sh_members one_share = [\<lparr>st_id = ''wiki'', st_mount_path = ''projects/Wiki'',
     st_ref_name = ''chain/wiki'', st_key_id = None, st_recommended_path = Some ''projects/Wiki''\<rparr>]"
  "sh_disabled one_share = []"
  by code_simp+

lemma one_share_run: "share_step\<^sup>*\<^sup>* no_shares one_share" "shares_ok no_shares"
  by (auto simp: one_share_def no_shares_def shares_ok_def members_ok_def intro: share_step.intros)

theorem shares_route_one_way_witness:
  "owning_chain (registry_of one_share) [''config'', ''peers.toml''] = chain_device \<and>
   ch_ref (owning_chain (registry_of one_share) [''projects'', ''Wiki'', ''a.md'']) = ''chain/wiki''"
proof -
  have "shared_over one_share [''projects'', ''Wiki'', ''a.md''] (hd (sh_members one_share))"
  proof -
    have "components ''projects/Wiki'' = [''projects'', ''Wiki'']" by code_simp
    then show ?thesis by (simp add: shared_over_def one_share_members)
  qed
  moreover have "private_place one_share [''config'', ''peers.toml'']"
    by (simp add: private_place_def reserved_top_dirs_def)
  moreover have "chain_ref (st_id (hd (sh_members one_share))) = ''chain/wiki''"
    by (simp add: one_share_members chain_ref_def)
  ultimately show ?thesis
    using shares_route_one_way [OF one_share_run, of "[''config'', ''peers.toml'']"]
      shares_route_one_way [OF one_share_run, of "[''projects'', ''Wiki'', ''a.md'']"]
    by metis
qed

text \<open>
  C23. After any run of the verbs on shares from a valid allow-list, a file in a private place of
  the device (below a machine or reserved directory, or at any depth below an infrastructure name
  that is not inside a share) stays, unchanged, in the snapshot the router cuts for the device
  chain, and no enabled share's snapshot gets a file for that path.
\<close>

theorem private_files_stay_on_device:
  assumes "share_step\<^sup>*\<^sup>* st st'" "shares_ok st" "tree_ok (ws_root u)" "private_place st' p"
  shows "let reg = registry_of st'; snaps = split_snapshot reg u in
    file_at (ws_root (snapshot_of snaps chain_device)) p = file_at (ws_root u) p \<and>
    (c \<in> set (cr_shared reg) \<longrightarrow> ch_enabled c \<longrightarrow> mount_of c @ q = p \<longrightarrow>
       file_at (ws_root (snapshot_of snaps c)) q = None)"
proof -
  let ?reg = "registry_of st'"
  have ok: "members_ok (sh_members st')"
    using allow_list.run_good [OF assms(1,2)] by (simp add: shares_ok_def)
  have reg: "registry_ok ?reg" by (simp add: registry_of_def config_registry_ok [OF ok])
  have owner: "owning_chain ?reg p = chain_device"
    by (rule owner_is_device [OF private_unshared [OF ok assms(4)]])
  have "p \<noteq> []" using assms(4) by (auto simp: private_place_def)
  have dev: "chain_device \<in> set (enabled_chains ?reg)" "mount_of chain_device = []"
    by (simp_all add: enabled_chains_def registry_of_def from_shared_config_def chain_device_def)
  have "file_at (ws_root (snapshot_of (split_snapshot ?reg u) c)) q = None"
    if c: "c \<in> set (cr_shared ?reg)" "ch_enabled c" "mount_of c @ q = p"
  proof -
    have "c \<in> set (enabled_chains ?reg)" using c by (simp add: enabled_chains_def)
    moreover have "ch_kind c = Shared"
      using c(1) by (auto simp: registry_of_def from_shared_config_def chain_of_subtree_def chain_shared_def)
    then have "c \<noteq> chain_device" by (auto simp: chain_device_def)
    ultimately show ?thesis
      using split_file_at [OF reg assms(3), of c q] owner c(3) by simp
  qed
  then show ?thesis
    using split_file_at [OF reg assms(3) dev(1), of p] dev(2) owner \<open>p \<noteq> []\<close> by (simp add: Let_def)
qed


definition demo_tree :: walk_snapshot where
  "demo_tree = \<lparr>ws_root = [(''config'', Dir [(''peers.toml'', File 420 ''ring'')]),
     (''projects'', Dir [(''Wiki'', Dir [(''a.md'', File 420 ''a'')])])],
     ws_overlay_generation = None\<rparr>"

theorem private_files_stay_on_device_witness:
  "file_at (ws_root (snapshot_of (split_snapshot (registry_of one_share) demo_tree) chain_device))
     [''config'', ''peers.toml''] = Some (420, ''ring'')"
proof -
  have "private_place one_share [''config'', ''peers.toml'']"
    by (simp add: private_place_def reserved_top_dirs_def)
  then show ?thesis
    using private_files_stay_on_device
      [OF one_share_run, of demo_tree "[''config'', ''peers.toml'']" chain_device "[]"]
    by (simp add: demo_tree_def Let_def bm_ok_def mode_mask_def file_at_def)
qed

end
