(* ===== verification/Vcs_Commit.thy ===== *)
theory Vcs_Commit
  imports Vcs_Store
begin

text \<open>
  Commits (\<^verbatim>\<open>crates/softfig-vcs/src/tree.rs\<close>, \<^verbatim>\<open>commit.rs\<close>,
  \<^verbatim>\<open>intent.rs\<close>, \<^verbatim>\<open>repo.rs\<close>, \<^verbatim>\<open>log.rs\<close>): building the rows and blobs of a
  snapshot, the canonical form of a commit, the transactional writers with their same-tree guard,
  and the log. The digest, the canonical JSON printer, the encryptor and the signature scheme are
  parameters of the session.
\<close>

section \<open>The session\<close>

datatype json =
    JNull
  | JNum int
  | JStr string
  | JArr "json list"
  | JObj "(string \<times> json) list"

record vcs_env =
  ve_hash :: "string \<Rightarrow> hash"
  ve_hex :: "hash \<Rightarrow> string"
  ve_jcs :: "json \<Rightarrow> string"
  ve_parse :: "string \<Rightarrow> json option"
  ve_encrypt :: "string \<Rightarrow> string \<Rightarrow> string \<Rightarrow> string + string"
  ve_sign :: "string \<Rightarrow> string"
  ve_verify :: "string \<Rightarrow> string \<Rightarrow> string \<Rightarrow> bool"
  ve_pubkey :: string
  ve_device :: string
  ve_key_id :: u32

datatype vcs_error =
    Store store_error
  | CommitHashMismatch hash hash
  | BadSignature hash
  | UnknownIntent string
  | PayloadNotObject string
  | Vault_Error string
  | Json_Error

section \<open>Intents\<close>

definition known_intents :: "string list" where
  "known_intents =
    [''init'', ''memory_edit'', ''manual_edit'', ''snapshot_refresh'', ''decision_logged'',
    ''incident_logged'', ''note_added'', ''note_revised'', ''code_review_added'',
    ''code_review_revised'', ''monolith_split'', ''index_reindexed'', ''section_added'',
    ''section_edited'', ''section_appended'', ''reviewed_stamped'', ''text_patched'',
    ''section_removed'', ''file_unlinked'', ''batch_applied'', ''archive_move'',
    ''project_added'', ''project_archived'', ''baton_logged'', ''backlog_item_added'',
    ''queue_added'', ''slice_added'', ''item_status_set'', ''backlog_item_reordered'',
    ''growlight_initialized'', ''growlight_resources_set'', ''chat_message_posted'',
    ''inbox_read'', ''report_filed'', ''report_updated'', ''config_migrated'',
    ''peers_changed'', ''shared_subtrees_changed'', ''shared_ceremony'', ''shared_rekey'',
    ''shared_pull'', ''migrate_into_share'', ''migrate_into_share_carve'', ''sync_conflict'',
    ''schema_change'', ''rollback'', ''vault_seal'', ''vault_reveal'', ''queue_v2_updated'',
    ''queue_v2_claimed'', ''queue_v2_status_set'', ''queue_v2_follow_ups_set'',
    ''queue_v2_session_logged'', ''queue_v2_deferred_set'', ''queue_v2_sub_added'']"

type_synonym intent = "string \<times> json"

definition intent_new :: "string \<Rightarrow> json \<Rightarrow> vcs_error + intent" where
  "intent_new name payload =
     (if name \<notin> set known_intents then Inl (UnknownIntent name)
      else (case payload of JObj _ \<Rightarrow> Inr (name, payload) | _ \<Rightarrow> Inl (PayloadNotObject name)))"

definition intent_init :: "string \<Rightarrow> intent" where
  "intent_init summary = (''init'', JObj [(''summary'', JStr summary)])"

section \<open>Trees\<close>

fun kind_str :: "tree_entry_kind \<Rightarrow> string" where
  "kind_str Blob = ''blob''"
| "kind_str Tree = ''tree''"

definition entry_json :: "vcs_env \<Rightarrow> tree_entry_row \<Rightarrow> json" where
  "entry_json v e = JObj [(''name'', JStr (te_name e)), (''kind'', JStr (kind_str (te_kind e))),
     (''mode'', JNum (uint (te_mode e))), (''target'', JStr (ve_hex v (te_target e)))]"

definition canonical_tree_bytes :: "vcs_env \<Rightarrow> tree_entry_row list \<Rightarrow> string" where
  "canonical_tree_bytes v es = ve_jcs v (JObj [(''entries'', JArr (map (entry_json v) es))])"

definition tree_hash :: "vcs_env \<Rightarrow> tree_entry_row list \<Rightarrow> hash" where
  "tree_hash v es = ve_hash v (canonical_tree_bytes v es)"

definition dir_mode :: u32 where
  "dir_mode = 16877"

text \<open>A blueprint: the tree rows to insert, by hash, and the hash of the root.\<close>

type_synonym blueprint_trees = "(hash \<times> tree_entry_row list) list"

definition child_path :: "string \<Rightarrow> string \<Rightarrow> string" where
  "child_path pre name = (if pre = [] then name else pre @ ''/'' @ name)"

definition or_insert :: "hash \<Rightarrow> tree_entry_row list \<Rightarrow> blueprint_trees \<Rightarrow> blueprint_trees" where
  "or_insert h es ts = (if map_of ts h = None then bm_insert h es ts else ts)"

definition finish_node ::
  "vcs_env \<Rightarrow> tree_entry_row list \<Rightarrow> blueprint_trees \<Rightarrow> hash \<times> blueprint_trees" where
  "finish_node v es ts =
     (let sorted = sort_key te_name es; h = tree_hash v sorted in (h, or_insert h sorted ts))"

text \<open>
  The loop over the children of a directory. Blobs reach the object store as they are met, so an
  encryptor that fails leaves the earlier ones there.
\<close>

fun build_entries ::
  "vcs_env \<Rightarrow> string \<Rightarrow> children \<Rightarrow> string \<Rightarrow> blueprint_trees \<Rightarrow> objects \<Rightarrow>
     (vcs_error + (tree_entry_row list \<times> blueprint_trees)) \<times> objects" where
  "build_entries v r [] pre ts os = (Inr ([], ts), os)"
| "build_entries v r ((n, File m c) # xs) pre ts os =
     (case ve_encrypt v r (child_path pre n) c of
        Inl e \<Rightarrow> (Inl (Vault_Error e), os)
      | Inr cipher \<Rightarrow>
          (case object_put (ve_hash v) cipher os of
             (h, os1) \<Rightarrow>
               (case build_entries v r xs pre ts os1 of
                  (Inl e, os2) \<Rightarrow> (Inl e, os2)
                | (Inr (es, ts'), os2) \<Rightarrow>
                    (Inr (\<lparr>te_name = n, te_kind = Blob, te_mode = m, te_target = h\<rparr> # es, ts'), os2))))"
| "build_entries v r ((n, Dir sub) # xs) pre ts os =
     (case build_entries v r sub (child_path pre n) ts os of
        (Inl e, os1) \<Rightarrow> (Inl e, os1)
      | (Inr (ses, ts1), os1) \<Rightarrow>
          (case finish_node v ses ts1 of
             (h, ts2) \<Rightarrow>
               (case build_entries v r xs pre ts2 os1 of
                  (Inl e, os2) \<Rightarrow> (Inl e, os2)
                | (Inr (es, ts'), os2) \<Rightarrow>
                    (Inr (\<lparr>te_name = n, te_kind = Tree, te_mode = dir_mode, te_target = h\<rparr> # es, ts'),
                     os2))))"

definition build_with ::
  "vcs_env \<Rightarrow> string \<Rightarrow> children \<Rightarrow> objects \<Rightarrow> (vcs_error + (hash \<times> blueprint_trees)) \<times> objects" where
  "build_with v r root os =
     (case build_entries v r root [] [] os of
        (Inl e, os') \<Rightarrow> (Inl e, os')
      | (Inr (es, ts), os') \<Rightarrow> (Inr (finish_node v es ts), os'))"

section \<open>The canonical commit\<close>

record canonical_commit =
  cc_parent :: "hash option"
  cc_root_tree :: hash
  cc_author_device :: string
  cc_author_pubkey :: string
  cc_timestamp :: "64 word"
  cc_intent :: string
  cc_payload :: json
  cc_master_key_id :: u32
  cc_chain_id :: "string option"

definition commit_json :: "vcs_env \<Rightarrow> canonical_commit \<Rightarrow> json" where
  "commit_json v c = JObj
     ([(''author_device'', JStr (cc_author_device c)),
       (''author_pubkey'', JStr (ve_hex v (cc_author_pubkey c))),
       (''intent'', JStr (cc_intent c)),
       (''master_key_id'', JNum (uint (cc_master_key_id c))),
       (''parent'', (case cc_parent c of Some h \<Rightarrow> JStr (ve_hex v h) | None \<Rightarrow> JNull)),
       (''payload'', cc_payload c),
       (''root_tree'', JStr (ve_hex v (cc_root_tree c))),
       (''timestamp'', JNum (sint (cc_timestamp c)))] @
      (case cc_chain_id c of Some i \<Rightarrow> [(''chain_id'', JStr i)] | None \<Rightarrow> []))"

definition commit_digest :: "vcs_env \<Rightarrow> canonical_commit \<Rightarrow> hash" where
  "commit_digest v c = ve_hash v (ve_jcs v (commit_json v c))"

definition verify_commit :: "vcs_env \<Rightarrow> canonical_commit \<Rightarrow> hash \<Rightarrow> string \<Rightarrow> vcs_error + unit" where
  "verify_commit v c declared signature =
     (if commit_digest v c \<noteq> declared then Inl (CommitHashMismatch declared (commit_digest v c))
      else guard (ve_verify v (cc_author_pubkey c) declared signature) (BadSignature declared))"

section \<open>Authoring and writing\<close>

definition chain_id_of :: "string \<Rightarrow> string option" where
  "chain_id_of r = (if r \<noteq> tip_ref then Some r else None)"

definition author_commit_row ::
  "vcs_env \<Rightarrow> string \<Rightarrow> hash option \<Rightarrow> hash \<Rightarrow> intent \<Rightarrow> 64 word \<Rightarrow> vcs_error + commit_row" where
  "author_commit_row v r parent root it now =
     (let payload_str = ve_jcs v (snd it) in
      try_with (ok_or Json_Error (ve_parse v payload_str)) (\<lambda>payload.
      let c = \<lparr>cc_parent = parent, cc_root_tree = root, cc_author_device = ve_device v,
               cc_author_pubkey = ve_pubkey v, cc_timestamp = now, cc_intent = fst it,
               cc_payload = payload, cc_master_key_id = ve_key_id v,
               cc_chain_id = chain_id_of r\<rparr>;
          h = commit_digest v c in
      Inr \<lparr>cm_hash = h, cm_parent = parent, cm_root_tree = root, cm_author_device = ve_device v,
           cm_author_pubkey = ve_pubkey v, cm_timestamp = now, cm_intent = fst it,
           cm_payload = payload_str, cm_master_key_id = ve_key_id v, cm_signature = ve_sign v h\<rparr>))"

datatype same_tree_policy = Skip | Record

record commit_outcome =
  co_hash :: hash
  co_committed :: bool

definition is_same_tree :: "db \<Rightarrow> hash option \<Rightarrow> hash \<Rightarrow> store_error + bool" where
  "is_same_tree d parent root =
     (case parent of
        None \<Rightarrow> Inr False
      | Some p \<Rightarrow> try_with (get_commit d p) (\<lambda>c. Inr (cm_root_tree c = root)))"

definition land_commit ::
  "vcs_env \<Rightarrow> db \<Rightarrow> string \<Rightarrow> hash option \<Rightarrow> blueprint_trees \<Rightarrow> hash \<Rightarrow> intent \<Rightarrow> 64 word \<Rightarrow>
     (vcs_error + commit_outcome) \<times> db" where
  "land_commit v d r parent ts root it now =
     (case author_commit_row v r parent root it now of
        Inl e \<Rightarrow> (Inl e, d)
      | Inr row \<Rightarrow>
          (case with_tx (\<lambda>d. try_with (put_commit row (fold (\<lambda>(h, es). put_tree h es) ts d))
                  (set_ref_cas r parent (cm_hash row))) d of
             (Inl e, d') \<Rightarrow> (Inl (Store e), d')
           | (Inr _, d') \<Rightarrow> (Inr \<lparr>co_hash = cm_hash row, co_committed = True\<rparr>, d')))"

definition write_commit_tx ::
  "vcs_env \<Rightarrow> db \<Rightarrow> string \<Rightarrow> hash option \<Rightarrow> hash \<times> blueprint_trees \<Rightarrow> intent \<Rightarrow> 64 word \<Rightarrow>
     same_tree_policy \<Rightarrow> (vcs_error + commit_outcome) \<times> db" where
  "write_commit_tx v d r parent bp it now policy =
     (case bp of (root, ts) \<Rightarrow>
        (case (if policy = Skip then is_same_tree d parent root else Inr False) of
           Inl e \<Rightarrow> (Inl (Store e), d)
         | Inr True \<Rightarrow> (Inr \<lparr>co_hash = the parent, co_committed = False\<rparr>, d)
         | Inr False \<Rightarrow> land_commit v d r parent ts root it now))"

definition write_reauthor_tx ::
  "vcs_env \<Rightarrow> db \<Rightarrow> string \<Rightarrow> hash option \<Rightarrow> hash \<Rightarrow> intent \<Rightarrow> 64 word \<Rightarrow>
     (vcs_error + commit_outcome) \<times> db" where
  "write_reauthor_tx v d r parent root it now =
     (case is_same_tree d parent root of
        Inl e \<Rightarrow> (Inl (Store e), d)
      | Inr True \<Rightarrow> (Inr \<lparr>co_hash = the parent, co_committed = False\<rparr>, d)
      | Inr False \<Rightarrow> land_commit v d r parent [] root it now)"

section \<open>The repository\<close>

record repo =
  rp_db :: db
  rp_objects :: objects

text \<open>The callback of a tip change: the ref that moved, its tip and the overlay generation.\<close>

type_synonym tip_event = "string \<times> hash \<times> u64 option"

definition tip_of :: "repo \<Rightarrow> string \<Rightarrow> hash option" where
  "tip_of rp r = try_get_ref (rp_db rp) r"

definition notify :: "string \<Rightarrow> u64 option \<Rightarrow> vcs_error + commit_outcome \<Rightarrow> tip_event list" where
  "notify r gen res =
     (case res of Inr out \<Rightarrow> (if co_committed out then [(r, co_hash out, gen)] else []) | Inl _ \<Rightarrow> [])"

definition commit_snapshot_to_with ::
  "vcs_env \<Rightarrow> string \<Rightarrow> walk_snapshot \<Rightarrow> intent \<Rightarrow> 64 word \<Rightarrow> same_tree_policy \<Rightarrow> repo \<Rightarrow>
     (vcs_error + commit_outcome) \<times> tip_event list \<times> repo" where
  "commit_snapshot_to_with v r snapshot it now policy rp =
     (let parent = tip_of rp r in
      case build_with v r (ws_root snapshot) (rp_objects rp) of
        (Inl e, os) \<Rightarrow> (Inl e, [], rp\<lparr>rp_objects := os\<rparr>)
      | (Inr bp, os) \<Rightarrow>
          (case write_commit_tx v (rp_db rp) r parent bp it now policy of
             (res, d) \<Rightarrow>
               (res, notify r (ws_overlay_generation snapshot) res, \<lparr>rp_db = d, rp_objects = os\<rparr>)))"

definition commit_over_tree ::
  "vcs_env \<Rightarrow> string \<Rightarrow> hash \<Rightarrow> intent \<Rightarrow> 64 word \<Rightarrow> repo \<Rightarrow>
     (vcs_error + commit_outcome) \<times> tip_event list \<times> repo" where
  "commit_over_tree v r root it now rp =
     (case write_reauthor_tx v (rp_db rp) r (tip_of rp r) root it now of
        (res, d) \<Rightarrow> (res, notify r None res, rp\<lparr>rp_db := d\<rparr>))"

definition create_fresh ::
  "vcs_env \<Rightarrow> walk_snapshot \<Rightarrow> 64 word \<Rightarrow> (vcs_error + commit_outcome) \<times> repo" where
  "create_fresh v staging now =
     (case build_with v tip_ref (ws_root staging) [] of
        (Inl e, os) \<Rightarrow> (Inl e, \<lparr>rp_db = db_empty, rp_objects = os\<rparr>)
      | (Inr bp, os) \<Rightarrow>
          (case write_commit_tx v db_empty tip_ref None bp (intent_init ''garden initialized'') now Skip of
             (res, d) \<Rightarrow> (res, \<lparr>rp_db = d, rp_objects = os\<rparr>)))"

text \<open>The log follows the parents and need not end on a damaged store.\<close>

partial_function (option) log_collect :: "db \<Rightarrow> hash \<Rightarrow> (store_error + commit_row list) option" where
  "log_collect d start =
     (case get_commit d start of
        Inl e \<Rightarrow> Some (Inl e)
      | Inr row \<Rightarrow>
          (case cm_parent row of
             None \<Rightarrow> Some (Inr [row])
           | Some p \<Rightarrow>
               Option.bind (log_collect d p) (\<lambda>rest.
                 Some (try_with rest (\<lambda>rows. Inr (row # rows))))))"

end
