(* ===== verification/Vcs_Build.thy ===== *)
theory Vcs_Build
  imports Vcs_Commit
begin

text \<open>
  What building and persisting the rows of a snapshot achieves: the rows represent the snapshot,
  the blueprint is closed, and stored trees and objects only ever grow.
\<close>

section \<open>The laws of the session\<close>

text \<open>
  Distinct contents have distinct addresses: the digest does not collide and the canonical form
  of a list of tree rows determines it.
\<close>

definition addressing :: "vcs_env \<Rightarrow> bool" where
  "addressing v \<longleftrightarrow> inj (ve_hash v) \<and> inj (canonical_tree_bytes v)"

lemma tree_hash_eq: "addressing v \<Longrightarrow> tree_hash v es = tree_hash v es' \<longleftrightarrow> es = es'"
  by (auto simp: addressing_def tree_hash_def inj_def)

lemma object_hash_eq: "addressing v \<Longrightarrow> ve_hash v b = ve_hash v b' \<longleftrightarrow> b = b'"
  by (auto simp: addressing_def inj_def)

definition objects_ok :: "vcs_env \<Rightarrow> objects \<Rightarrow> bool" where
  "objects_ok v os \<longleftrightarrow> distinct (map fst os) \<and> (\<forall>(h, b) \<in> set os. ve_hash v b = h)"

lemma objects_ok_put:
  "objects_ok v os \<Longrightarrow> object_put (ve_hash v) b os = (h, os') \<Longrightarrow> objects_ok v os'"
proof (cases "map_of os (ve_hash v b)")
  case None
  then show "objects_ok v os \<Longrightarrow> object_put (ve_hash v) b os = (h, os') \<Longrightarrow> ?thesis"
    by (force simp: objects_ok_def object_put_def Let_def map_of_eq_None_iff)
qed (simp add: object_put_def)

lemma object_put_at:
  assumes "addressing v" "objects_ok v os" "object_put (ve_hash v) b os = (h, os')"
  shows "map_of os' h = Some b"
proof (cases "map_of os (ve_hash v b)")
  case None
  then show ?thesis using assms(3) by (auto simp: object_put_def Let_def map_add_def)
next
  case (Some b')
  then have "ve_hash v b' = ve_hash v b"
    using assms(2) by (auto simp: objects_ok_def dest!: map_of_SomeD)
  then show ?thesis using Some assms(1,3) by (auto simp: object_put_def Let_def object_hash_eq)
qed

section \<open>The rows of a directory\<close>

definition names_sorted :: "tree_entry_row list \<Rightarrow> bool" where
  "names_sorted es \<longleftrightarrow> sorted_wrt (<) (map te_name es)"

text \<open>Rows represent the children of a directory, over the trees and objects stored so far.\<close>

fun represents ::
  "vcs_env \<Rightarrow> string \<Rightarrow> (hash \<Rightarrow> tree_entry_row list option) \<Rightarrow> (hash \<Rightarrow> string option) \<Rightarrow>
     string \<Rightarrow> children \<Rightarrow> tree_entry_row list \<Rightarrow> bool" where
  "represents v r tm om pre [] es \<longleftrightarrow> es = []"
| "represents v r tm om pre ((n, File m c) # xs) es \<longleftrightarrow>
     (\<exists>h cipher es'. es = \<lparr>te_name = n, te_kind = Blob, te_mode = m, te_target = h\<rparr> # es' \<and>
        ve_encrypt v r (child_path pre n) c = Inr cipher \<and> om h = Some cipher \<and>
        represents v r tm om pre xs es')"
| "represents v r tm om pre ((n, Dir sub) # xs) es \<longleftrightarrow>
     (\<exists>h ses es'. es = \<lparr>te_name = n, te_kind = Tree, te_mode = dir_mode, te_target = h\<rparr> # es' \<and>
        tm h = Some ses \<and> represents v r tm om (child_path pre n) sub ses \<and>
        represents v r tm om pre xs es')"

lemma represents_mono:
  "represents v r tm om pre ch es \<Longrightarrow> tm \<subseteq>\<^sub>m tm' \<Longrightarrow> om \<subseteq>\<^sub>m om' \<Longrightarrow> represents v r tm' om' pre ch es"
proof (induction ch arbitrary: pre es rule: children_induct)
  case (File n m c xs)
  then show ?case by (fastforce simp: map_le_def dom_def)
next
  case (Dir n sub xs)
  then show ?case by (fastforce simp: map_le_def dom_def)
qed simp

lemma represents_names: "represents v r tm om pre ch es \<Longrightarrow> map te_name es = map fst ch"
  by (induction ch arbitrary: pre es rule: children_induct) auto

text \<open>Rows are closed when their targets exist.\<close>

definition rows_closed :: "(hash \<Rightarrow> tree_entry_row list option) \<Rightarrow> (hash \<Rightarrow> string option) \<Rightarrow>
    tree_entry_row list \<Rightarrow> bool" where
  "rows_closed tm om es \<longleftrightarrow>
     list_all (\<lambda>e. (case te_kind e of Tree \<Rightarrow> tm (te_target e) \<noteq> None
        | Blob \<Rightarrow> om (te_target e) \<noteq> None)) es"

lemma rows_closed_mono: "rows_closed tm om es \<Longrightarrow> tm \<subseteq>\<^sub>m tm' \<Longrightarrow> om \<subseteq>\<^sub>m om' \<Longrightarrow> rows_closed tm' om' es"
  by (fastforce simp: rows_closed_def list_all_iff map_le_def dom_def split: tree_entry_kind.splits)

lemma represents_closed: "represents v r tm om pre ch es \<Longrightarrow> rows_closed tm om es"
  by (induction ch arbitrary: pre es rule: children_induct) (auto simp: rows_closed_def)

definition blueprint_ok :: "vcs_env \<Rightarrow> blueprint_trees \<Rightarrow> objects \<Rightarrow> bool" where
  "blueprint_ok v ts os \<longleftrightarrow> bm_ok ts \<and>
     (\<forall>(h, es) \<in> set ts. tree_hash v es = h \<and> names_sorted es \<and> rows_closed (map_of ts) (map_of os) es)"

lemma finish_node_sorted:
  "names_sorted es \<Longrightarrow> finish_node v es ts = (tree_hash v es, or_insert (tree_hash v es) es ts)"
proof -
  assume "names_sorted es"
  then have "sort_key te_name es = es"
    unfolding names_sorted_def by (intro sort_key_id_if_sorted strict_sorted_imp_sorted)
  then show ?thesis by (simp add: finish_node_def Let_def)
qed


lemma map_le_trans' [trans]: "(a :: 'k \<Rightarrow> 'v option) \<subseteq>\<^sub>m b \<Longrightarrow> b \<subseteq>\<^sub>m c \<Longrightarrow> a \<subseteq>\<^sub>m c"
  by (rule map_le_trans)

lemma blueprint_ok_objects:
  "blueprint_ok v ts os \<Longrightarrow> map_of os \<subseteq>\<^sub>m map_of os' \<Longrightarrow> blueprint_ok v ts os'"
  by (auto simp: blueprint_ok_def intro: rows_closed_mono)

lemma or_insert_le: "map_of ts \<subseteq>\<^sub>m map_of (or_insert h es ts)"
  by (auto simp: or_insert_def map_le_def)

lemma or_insert_at:
  assumes "addressing v" "blueprint_ok v ts os"
  shows "map_of (or_insert (tree_hash v es) es ts) (tree_hash v es) = Some es"
proof (cases "map_of ts (tree_hash v es)")
  case (Some es')
  then have "tree_hash v es' = tree_hash v es"
    using assms(2) by (auto simp: blueprint_ok_def dest!: map_of_SomeD)
  then show ?thesis using Some assms(1) by (simp add: tree_hash_eq or_insert_def)
qed (simp add: or_insert_def)

lemma blueprint_ok_or_insert:
  assumes "blueprint_ok v ts os" "names_sorted es" "rows_closed (map_of ts) (map_of os) es"
  shows "blueprint_ok v (or_insert (tree_hash v es) es ts) os"
proof (cases "map_of ts (tree_hash v es)")
  case None
  let ?ts = "bm_insert (tree_hash v es) es ts"
  have le: "map_of ts \<subseteq>\<^sub>m map_of ?ts" using or_insert_le [of ts "tree_hash v es" es] None
    by (simp add: or_insert_def)
  have "bm_ok ?ts" using assms(1) by (simp add: blueprint_ok_def)
  moreover have "tree_hash v x = h \<and> names_sorted x \<and> rows_closed (map_of ?ts) (map_of os) x"
    if "(h, x) \<in> set ?ts" for h x
  proof (cases "(h, x) = (tree_hash v es, es)")
    case True
    then show ?thesis using assms(2,3) rows_closed_mono [OF _ le] by auto
  next
    case False
    then have "(h, x) \<in> set ts" using that set_bm_insert [of "tree_hash v es" es ts] by blast
    then show ?thesis using assms(1) rows_closed_mono [OF _ le] by (auto simp: blueprint_ok_def)
  qed
  ultimately show ?thesis using None by (auto simp: blueprint_ok_def or_insert_def)
qed (simp add: or_insert_def assms)

section \<open>Building\<close>

lemma build_objects:
  "build_entries v r ch pre ts os = (res, os') \<Longrightarrow> objects_ok v os \<Longrightarrow>
     objects_ok v os' \<and> map_of os \<subseteq>\<^sub>m map_of os'"
proof (induction ch arbitrary: pre ts os res os' rule: children_induct)
  case (File n m c xs)
  show ?case
  proof (cases "ve_encrypt v r (child_path pre n) c")
    case (Inr cipher)
    obtain h os1 where put: "object_put (ve_hash v) cipher os = (h, os1)" by fastforce
    obtain res2 os2 where rest: "build_entries v r xs pre ts os1 = (res2, os2)" by fastforce
    have "os' = os2" using File.prems(1) Inr put rest by (auto split: sum.splits)
    moreover have "objects_ok v os1" by (rule objects_ok_put [OF File.prems(2) put])
    moreover have "map_of os \<subseteq>\<^sub>m map_of os1"
      using object_put_mono [OF put] by (fastforce simp: map_le_def dom_def)
    ultimately show ?thesis using File.IH [OF rest] map_le_trans by blast
  qed (use File in auto)
next
  case (Dir n sub xs)
  obtain res1 os1 where sub: "build_entries v r sub (child_path pre n) ts os = (res1, os1)" by fastforce
  note IH1 = Dir.IH(1) [OF sub Dir.prems(2)]
  show ?case
  proof (cases res1)
    case (Inl e)
    then show ?thesis using Dir.prems(1) sub IH1 by auto
  next
    case (Inr p)
    obtain ses ts1 where p: "p = (ses, ts1)" by fastforce
    obtain h ts2 where fin: "finish_node v ses ts1 = (h, ts2)" by fastforce
    obtain res2 os2 where rest: "build_entries v r xs pre ts2 os1 = (res2, os2)" by fastforce
    have "os' = os2" using Dir.prems(1) sub Inr p fin rest by (auto split: sum.splits)
    then show ?thesis using Dir.IH(2) [OF rest] IH1 map_le_trans by blast
  qed
qed simp

definition tree_edge :: "(hash \<Rightarrow> tree_entry_row list option) \<Rightarrow> (hash \<times> hash) set" where
  "tree_edge tm = {(h, k). \<exists>es e. tm h = Some es \<and> e \<in> set es \<and> te_kind e = Tree \<and> te_target e = k}"

lemma tree_edge_mono: "tm \<subseteq>\<^sub>m tm' \<Longrightarrow> tree_edge tm \<subseteq> tree_edge tm'"
  by (fastforce simp: tree_edge_def map_le_def dom_def)

text \<open>The trees a build adds hang off the rows it returns.\<close>

definition hangs_off :: "blueprint_trees \<Rightarrow> blueprint_trees \<Rightarrow> tree_entry_row list \<Rightarrow> bool" where
  "hangs_off ts ts' es \<longleftrightarrow>
     (\<forall>k. map_of ts' k \<noteq> None \<longrightarrow> map_of ts k = None \<longrightarrow>
        (\<exists>e \<in> set es. te_kind e = Tree \<and> (te_target e, k) \<in> (tree_edge (map_of ts'))\<^sup>*))"


lemma hangs_off_Cons:
  assumes "hangs_off ts ts1 es" "map_of ts1 \<subseteq>\<^sub>m map_of ts'" "hangs_off ts1 ts' es'"
  shows "hangs_off ts ts' (es @ es')"
  unfolding hangs_off_def
proof (intro allI impI)
  fix k
  assume k: "map_of ts' k \<noteq> None" "map_of ts k = None"
  show "\<exists>e \<in> set (es @ es'). te_kind e = Tree \<and> (te_target e, k) \<in> (tree_edge (map_of ts'))\<^sup>*"
  proof (cases "map_of ts1 k")
    case None
    then show ?thesis using assms(3) k by (auto simp: hangs_off_def)
  next
    case (Some x)
    then obtain e where "e \<in> set es" "te_kind e = Tree" "(te_target e, k) \<in> (tree_edge (map_of ts1))\<^sup>*"
      using assms(1) k unfolding hangs_off_def by fastforce
    then show ?thesis using rtrancl_mono [OF tree_edge_mono [OF assms(2)]] by auto
  qed
qed

lemma hangs_off_node:
  assumes "hangs_off ts ts1 ses" "map_of (or_insert h ses ts1) h = Some ses"
    and "te_kind e = Tree" "te_target e = h"
  shows "hangs_off ts (or_insert h ses ts1) [e]"
  unfolding hangs_off_def
proof (intro allI impI)
  fix k
  let ?ts = "or_insert h ses ts1"
  assume k: "map_of ?ts k \<noteq> None" "map_of ts k = None"
  have "(h, k) \<in> (tree_edge (map_of ?ts))\<^sup>*"
  proof (cases "map_of ts1 k")
    case None
    then have "k = h" using k by (auto simp: or_insert_def split: if_splits)
    then show ?thesis by simp
  next
    case (Some x)
    then obtain e' where e': "e' \<in> set ses" "te_kind e' = Tree"
        "(te_target e', k) \<in> (tree_edge (map_of ts1))\<^sup>*"
      using assms(1) k unfolding hangs_off_def by fastforce
    have "(h, te_target e') \<in> tree_edge (map_of ?ts)" using assms(2) e' by (auto simp: tree_edge_def)
    moreover have "(te_target e', k) \<in> (tree_edge (map_of ?ts))\<^sup>*"
      using e'(3) rtrancl_mono [OF tree_edge_mono [OF or_insert_le]] by blast
    ultimately show ?thesis by simp
  qed
  then show "\<exists>e \<in> set [e]. te_kind e = Tree \<and> (te_target e, k) \<in> (tree_edge (map_of ?ts))\<^sup>*"
    using assms(3,4) by simp
qed

lemma build_represents:
  assumes "addressing v"
  shows "build_entries v r ch pre ts os = (Inr (es, ts'), os') \<Longrightarrow> tree_ok ch \<Longrightarrow> objects_ok v os \<Longrightarrow>
     blueprint_ok v ts os \<Longrightarrow>
     blueprint_ok v ts' os' \<and> map_of ts \<subseteq>\<^sub>m map_of ts' \<and> hangs_off ts ts' es \<and>
     represents v r (map_of ts') (map_of os') pre ch es"
proof (induction ch arbitrary: pre ts os es ts' os' rule: children_induct)
  case Nil
  then show ?case by (auto simp: hangs_off_def)
next
  case (File n m c xs)
  obtain cipher where enc: "ve_encrypt v r (child_path pre n) c = Inr cipher"
    using File.prems(1) by (auto split: sum.splits)
  obtain h os1 where put: "object_put (ve_hash v) cipher os = (h, os1)" by fastforce
  obtain es2 where rest: "build_entries v r xs pre ts os1 = (Inr (es2, ts'), os')"
      and es: "es = \<lparr>te_name = n, te_kind = Blob, te_mode = m, te_target = h\<rparr> # es2"
    using File.prems(1) by (auto simp: enc put split: sum.splits prod.splits)
  have ok1: "objects_ok v os1" by (rule objects_ok_put [OF File.prems(3) put])
  have "map_of os \<subseteq>\<^sub>m map_of os1" using object_put_mono [OF put] by (fastforce simp: map_le_def dom_def)
  then have "blueprint_ok v ts os1" using File.prems(4) blueprint_ok_objects by blast
  then have IH: "blueprint_ok v ts' os' \<and> map_of ts \<subseteq>\<^sub>m map_of ts' \<and> hangs_off ts ts' es2 \<and>
      represents v r (map_of ts') (map_of os') pre xs es2"
    using File.IH [OF rest _ ok1] File.prems(2) by (simp add: bm_ok_Cons)
  have "map_of os' h = Some cipher"
    using object_put_at [OF assms File.prems(3) put] build_objects [OF rest ok1]
    by (force simp: map_le_def dom_def)
  moreover have "hangs_off ts ts' es" using IH by (auto simp: es hangs_off_def)
  ultimately show ?case using IH enc es by simp
next
  case (Dir n sub xs)
  have ok: "tree_ok sub" "tree_ok xs" using Dir.prems(2) by (simp_all add: bm_ok_Cons)
  obtain ses ts1 os1 where sub: "build_entries v r sub (child_path pre n) ts os = (Inr (ses, ts1), os1)"
    using Dir.prems(1) by (auto split: sum.splits prod.splits)
  note IH1 = Dir.IH(1) [OF sub ok(1) Dir.prems(3,4)]
  note ob1 = build_objects [OF sub Dir.prems(3)]
  let ?h = "tree_hash v ses"
  let ?ts2 = "or_insert ?h ses ts1"
  have names: "names_sorted ses"
    using represents_names IH1 ok(1) by (metis bm_ok_def names_sorted_def node_ok.simps(2))
  then have fin: "finish_node v ses ts1 = (?h, ?ts2)" by (rule finish_node_sorted)
  obtain es2 where rest: "build_entries v r xs pre ?ts2 os1 = (Inr (es2, ts'), os')"
      and es: "es = \<lparr>te_name = n, te_kind = Tree, te_mode = dir_mode, te_target = ?h\<rparr> # es2"
    using Dir.prems(1) by (auto simp: sub fin split: sum.splits prod.splits)
  have at: "map_of ?ts2 ?h = Some ses" using or_insert_at [OF assms] IH1 by blast
  have "blueprint_ok v ?ts2 os1"
    using IH1 names represents_closed by (intro blueprint_ok_or_insert) blast+
  note IH2 = Dir.IH(2) [OF rest ok(2) conjunct1 [OF ob1] this]
  note ob2 = build_objects [OF rest conjunct1 [OF ob1]]
  have le: "map_of ts1 \<subseteq>\<^sub>m map_of ts'" using IH2 or_insert_le map_le_trans by blast
  have "represents v r (map_of ts') (map_of os') (child_path pre n) sub ses"
    using IH1 represents_mono le ob2 by blast
  moreover have "map_of ts' ?h = Some ses" using at IH2 by (force simp: map_le_def dom_def)
  moreover have "hangs_off ts ?ts2 [\<lparr>te_name = n, te_kind = Tree, te_mode = dir_mode, te_target = ?h\<rparr>]"
    using IH1 at by (intro hangs_off_node) auto
  then have "hangs_off ts ts' es"
    using hangs_off_Cons [of ts ?ts2 "[\<lparr>te_name = n, te_kind = Tree, te_mode = dir_mode, te_target = ?h\<rparr>]"
        ts' es2] IH2 by (simp add: es)
  ultimately show ?case using IH1 IH2 le es map_le_trans by auto
qed

end
