(* ===== verification/Vcs_Invariant.thy ===== *)
theory Vcs_Invariant
  imports Vcs_Build Machine
begin

text \<open>
  The invariant of a store: trees and objects sit under the digest of their contents, nothing
  dangles, every commit follows its parent and verifies on the chain of each ref above it, and
  everything stored hangs off some ref. Every writer keeps it.
\<close>

section \<open>Stored trees\<close>

definition tree_of :: "db \<Rightarrow> hash \<Rightarrow> tree_entry_row list option" where
  "tree_of d h = map_option (map snd) (map_of (db_trees d) h)"

lemma get_tree_Inr [res_simps]: "get_tree d h = Inr es \<longleftrightarrow> tree_of d h = Some es"
  by (auto simp: get_tree_def tree_of_def res_simps)

lemma tree_exists_conv: "tree_exists d h \<longleftrightarrow> tree_of d h \<noteq> None"
  by (simp add: tree_exists_def tree_of_def)

definition by_name :: "tree_entry_row list \<Rightarrow> (string \<times> tree_entry_row) list" where
  "by_name es = map (\<lambda>e. (te_name e, e)) es"

lemma by_name_ok: "names_sorted es \<Longrightarrow> bm_ok (by_name es)"
  by (simp add: by_name_def bm_ok_def names_sorted_def comp_def)

lemma snd_by_name [simp]: "map snd (by_name es) = es"
  by (simp add: by_name_def comp_def)

definition tree_rows_ok :: "vcs_env \<Rightarrow> db \<Rightarrow> bool" where
  "tree_rows_ok v d \<longleftrightarrow> distinct (map fst (db_trees d)) \<and>
     (\<forall>(h, rows) \<in> set (db_trees d). rows = by_name (map snd rows) \<and>
        names_sorted (map snd rows) \<and> tree_hash v (map snd rows) = h)"

definition trees_closed :: "db \<Rightarrow> objects \<Rightarrow> bool" where
  "trees_closed d os \<longleftrightarrow>
     (\<forall>h es. tree_of d h = Some es \<longrightarrow> rows_closed (tree_of d) (map_of os) es)"

lemma tree_rows_at:
  assumes "tree_rows_ok v d" "map_of (db_trees d) h = Some rows"
  shows "rows = by_name (map snd rows)" "names_sorted (map snd rows)" "tree_hash v (map snd rows) = h"
  using assms map_of_SomeD [OF assms(2)] by (auto simp: tree_rows_ok_def)

lemma fold_rows_map:
  "map_of (fold (\<lambda>e. bm_insert (te_name e) e) es rows) k =
     (case map_of (rev (by_name es)) k of Some e \<Rightarrow> Some e | None \<Rightarrow> map_of rows k)"
  by (induction es arbitrary: rows) (auto simp: by_name_def map_add_def split: option.split)

lemma fold_rows_ok: "bm_ok rows \<Longrightarrow> bm_ok (fold (\<lambda>e. bm_insert (te_name e) e) es rows)"
  by (induction es arbitrary: rows) auto

lemma fold_rows_sorted:
  assumes "names_sorted es" "rows = [] \<or> rows = by_name es"
  shows "fold (\<lambda>e. bm_insert (te_name e) e) es rows = by_name es"
proof (rule bm_ext)
  have ok: "bm_ok rows" using assms by_name_ok by auto
  show "bm_ok (fold (\<lambda>e. bm_insert (te_name e) e) es rows)" by (rule fold_rows_ok [OF ok])
  show "bm_ok (by_name es)" by (rule by_name_ok [OF assms(1)])
  have "distinct (map fst (by_name es))" using bm_ok_distinct [OF by_name_ok [OF assms(1)]] .
  then have "map_of (rev (by_name es)) = map_of (by_name es)"
    by (subst map_of_inject_set) (simp_all flip: rev_map)
  then show "map_of (fold (\<lambda>e. bm_insert (te_name e) e) es rows) = map_of (by_name es)"
    using assms(2) by (auto simp: fold_rows_map fun_eq_iff split: option.split)
qed

lemma put_tree_of:
  assumes "addressing v" "tree_rows_ok v d" "names_sorted es" "tree_hash v es = h"
  shows "tree_rows_ok v (put_tree h es d)"
    "tree_of (put_tree h es d) k = (if k = h then Some es else tree_of d k)"
proof -
  let ?old = "case map_of (db_trees d) h of Some rows \<Rightarrow> rows | None \<Rightarrow> []"
  have "?old = [] \<or> ?old = by_name es"
  proof (cases "map_of (db_trees d) h")
    case (Some rows)
    then have "map snd rows = es"
      using tree_rows_at(3) [OF assms(2) Some] tree_hash_eq [OF assms(1)] assms(4) by metis
    then show ?thesis using tree_rows_at(1) [OF assms(2) Some] Some by simp
  qed simp
  then have rows: "fold (\<lambda>e. bm_insert (te_name e) e) es ?old = by_name es"
    by (rule fold_rows_sorted [OF assms(3)])
  show "tree_of (put_tree h es d) k = (if k = h then Some es else tree_of d k)"
    by (simp add: tree_of_def map_of_put_tree rows)
  have keys: "distinct (map fst (db_trees (put_tree h es d)))"
    using assms(2) by (auto simp: put_tree_keys tree_rows_ok_def tree_exists_def map_of_eq_None_iff)
  have "(k, rows') \<in> set (db_trees (put_tree h es d)) \<Longrightarrow>
      rows' = (if k = h then by_name es else rows') \<and> (k \<noteq> h \<longrightarrow> (k, rows') \<in> set (db_trees d))" for k rows'
    using rows by (auto simp: put_tree_def Let_def tree_exists_def split: if_splits
        dest: weak_map_of_SomeI)
  then show "tree_rows_ok v (put_tree h es d)"
    using keys assms(2-4) unfolding tree_rows_ok_def by fastforce
qed

lemma put_trees_of:
  assumes "addressing v" "\<forall>(h, es) \<in> set ts. names_sorted es \<and> tree_hash v es = h"
  shows "tree_rows_ok v d \<Longrightarrow> tree_rows_ok v (fold (\<lambda>(h, es). put_tree h es) ts d)"
    "tree_rows_ok v d \<Longrightarrow> tree_of (fold (\<lambda>(h, es). put_tree h es) ts d) k =
       (case map_of ts k of Some es \<Rightarrow> Some es | None \<Rightarrow> tree_of d k)"
  using assms(2)
proof (induction ts arbitrary: d)
  case (Cons t ts)
  obtain h es where t: "t = (h, es)" by fastforce
  {
    case 1
    then show ?case using Cons.IH(1) put_tree_of(1) [OF assms(1), of d es h] by (simp add: t)
  next
    case 2
    have same: "es' = es" if "map_of ts h = Some es'" for es'
      using 2(2) map_of_SomeD [OF that] assms(1) by (auto simp: t tree_hash_eq)
    show ?case
      using 2 Cons.IH(2) [of "put_tree h es d"] put_tree_of [OF assms(1), of d es h] same
      by (auto simp: t split: option.split)
  }
qed simp_all


section \<open>Commits and refs\<close>

definition commit_of :: "db \<Rightarrow> hash \<Rightarrow> commit_row option" where
  "commit_of d h = map_of (db_commits d) h"

lemma get_commit_Inr [res_simps]: "get_commit d h = Inr c \<longleftrightarrow> commit_of d h = Some c"
  by (simp add: get_commit_def commit_of_def res_simps)

lemma commit_exists_conv: "commit_exists d h \<longleftrightarrow> commit_of d h \<noteq> None"
  by (simp add: commit_exists_def commit_of_def)

definition parent_edge :: "db \<Rightarrow> (hash \<times> hash) set" where
  "parent_edge d = {(h, p). \<exists>c. commit_of d h = Some c \<and> cm_parent c = Some p}"

text \<open>The canonical form a verifier rebuilds from a row.\<close>

definition canonical_row :: "string option \<Rightarrow> commit_row \<Rightarrow> json \<Rightarrow> canonical_commit" where
  "canonical_row chain c payload =
     \<lparr>cc_parent = cm_parent c, cc_root_tree = cm_root_tree c, cc_author_device = cm_author_device c,
      cc_author_pubkey = cm_author_pubkey c, cc_timestamp = cm_timestamp c, cc_intent = cm_intent c,
      cc_payload = payload, cc_master_key_id = cm_master_key_id c, cc_chain_id = chain\<rparr>"

definition row_verifies :: "vcs_env \<Rightarrow> string option \<Rightarrow> commit_row \<Rightarrow> bool" where
  "row_verifies v chain c \<longleftrightarrow>
     (case ve_parse v (cm_payload c) of
        None \<Rightarrow> False
      | Some payload \<Rightarrow>
          verify_commit v (canonical_row chain c payload) (cm_hash c) (cm_signature c) = Inr ())"

definition signing :: "vcs_env \<Rightarrow> bool" where
  "signing v \<longleftrightarrow> (\<forall>msg. ve_verify v (ve_pubkey v) msg (ve_sign v msg))"

lemma authored_row:
  assumes "author_commit_row v r parent root it now = Inr row" "signing v"
  shows "row_verifies v (chain_id_of r) row" "cm_parent row = parent" "cm_root_tree row = root"
  using assms
  by (auto simp: author_commit_row_def row_verifies_def canonical_row_def verify_commit_def
      signing_def Let_def res_simps)

text \<open>Commits in insertion order, each after its parent.\<close>

fun parents_first :: "hash set \<Rightarrow> (hash \<times> commit_row) list \<Rightarrow> bool" where
  "parents_first seen [] \<longleftrightarrow> True"
| "parents_first seen ((h, c) # cs) \<longleftrightarrow>
     h \<notin> seen \<and> cm_hash c = h \<and> (case cm_parent c of Some p \<Rightarrow> p \<in> seen | None \<Rightarrow> True) \<and>
     parents_first (insert h seen) cs"

lemma parents_first_append:
  "parents_first seen (cs @ ds) \<longleftrightarrow> parents_first seen cs \<and> parents_first (seen \<union> fst ` set cs) ds"
  by (induction cs arbitrary: seen) (auto simp: insert_commute split: option.splits)

lemma parents_first_distinct: "parents_first seen cs \<Longrightarrow> distinct (map fst cs) \<and> seen \<inter> fst ` set cs = {}"
proof (induction cs arbitrary: seen)
  case (Cons x cs)
  then show ?case using Cons.IH [of "insert (fst x) seen"] by (cases x) auto
qed simp

lemma parents_first_parent:
  "parents_first seen cs \<Longrightarrow> map_of cs h = Some c \<Longrightarrow> cm_parent c = Some p \<Longrightarrow>
     p \<in> seen \<union> fst ` set cs"
proof (induction cs arbitrary: seen)
  case (Cons x cs)
  then show ?case using Cons.IH [of "insert (fst x) seen"] by (cases x) (auto split: if_splits)
qed simp

definition commits_ok :: "db \<Rightarrow> bool" where
  "commits_ok d \<longleftrightarrow> parents_first {} (db_commits d) \<and>
     (\<forall>h c. commit_of d h = Some c \<longrightarrow> tree_exists d (cm_root_tree c))"

definition refs_ok :: "vcs_env \<Rightarrow> db \<Rightarrow> bool" where
  "refs_ok v d \<longleftrightarrow> bm_ok (db_refs d) \<and>
     (\<forall>(r, t) \<in> set (db_refs d). commit_exists d t \<and>
        (\<forall>h c. (t, h) \<in> (parent_edge d)\<^sup>* \<longrightarrow> commit_of d h = Some c \<longrightarrow>
           row_verifies v (chain_id_of r) c))"

text \<open>Everything stored is needed: a commit by a ref, a tree by a commit.\<close>

definition all_reached :: "db \<Rightarrow> bool" where
  "all_reached d \<longleftrightarrow>
     (\<forall>h. commit_exists d h \<longrightarrow> (\<exists>(r, t) \<in> set (db_refs d). (t, h) \<in> (parent_edge d)\<^sup>*)) \<and>
     (\<forall>k. tree_exists d k \<longrightarrow>
        (\<exists>h c. commit_of d h = Some c \<and> (cm_root_tree c, k) \<in> (tree_edge (tree_of d))\<^sup>*))"

definition store_ok :: "vcs_env \<Rightarrow> repo \<Rightarrow> bool" where
  "store_ok v rp \<longleftrightarrow>
     objects_ok v (rp_objects rp) \<and> tree_rows_ok v (rp_db rp) \<and>
     trees_closed (rp_db rp) (rp_objects rp) \<and> commits_ok (rp_db rp) \<and> refs_ok v (rp_db rp) \<and>
     all_reached (rp_db rp)"

lemma commits_hash: "commits_ok d \<Longrightarrow> commit_of d h = Some c \<Longrightarrow> cm_hash c = h"
proof -
  have "parents_first seen cs \<Longrightarrow> map_of cs h = Some c \<Longrightarrow> cm_hash c = h" for seen cs
    by (induction cs arbitrary: seen) (auto split: if_splits)
  then show "commits_ok d \<Longrightarrow> commit_of d h = Some c \<Longrightarrow> cm_hash c = h"
    by (auto simp: commits_ok_def commit_of_def)
qed

lemma parent_exists:
  "commits_ok d \<Longrightarrow> (h, p) \<in> parent_edge d \<Longrightarrow> commit_exists d p"
  using parents_first_parent [of "{}" "db_commits d" h]
  by (fastforce simp: commits_ok_def parent_edge_def commit_of_def commit_exists_def
      dest: weak_map_of_SomeI)

lemma ancestor_exists:
  assumes "commits_ok d" "(t, h) \<in> (parent_edge d)\<^sup>*" "commit_exists d t"
  shows "commit_exists d h"
  using assms(2,3) by (induction rule: rtrancl_induct) (auto intro: parent_exists [OF assms(1)])


section \<open>Every writer keeps it\<close>

lemma trees_grow:
  assumes "addressing v" "tree_rows_ok v d" "\<forall>(h, es) \<in> set ts. names_sorted es \<and> tree_hash v es = h"
  shows "tree_of d \<subseteq>\<^sub>m tree_of (fold (\<lambda>(h, es). put_tree h es) ts d)"
  unfolding map_le_def
proof
  fix k
  assume "k \<in> dom (tree_of d)"
  then obtain rows where rows: "map_of (db_trees d) k = Some rows" by (auto simp: tree_of_def)
  have "es = map snd rows" if "map_of ts k = Some es" for es
    using assms(3) map_of_SomeD [OF that] tree_rows_at(3) [OF assms(2) rows] tree_hash_eq [OF assms(1)]
    by fastforce
  moreover have at: "tree_of d k = Some (map snd rows)" by (simp add: tree_of_def rows)
  ultimately show "tree_of d k = tree_of (fold (\<lambda>(h, es). put_tree h es) ts d) k"
    using at by (auto simp: put_trees_of(2) [OF assms(1,3,2)] split: option.split)
qed

lemma fold_put_tree_others [simp]:
  "db_refs (fold (\<lambda>(h, es). put_tree h es) ts d) = db_refs d"
  "db_commits (fold (\<lambda>(h, es). put_tree h es) ts d) = db_commits d"
  by (induction ts arbitrary: d) auto

definition with_commit :: "string \<Rightarrow> commit_row \<Rightarrow> db \<Rightarrow> db" where
  "with_commit r row d =
     d\<lparr>db_commits := db_commits d @ [(cm_hash row, row)],
       db_refs := bm_insert r (cm_hash row) (db_refs d)\<rparr>"

lemma with_commit_of:
  "\<not> commit_exists d (cm_hash row) \<Longrightarrow>
     commit_of (with_commit r row d) h = (if h = cm_hash row then Some row else commit_of d h)"
  "tree_of (with_commit r row d) = tree_of d"
  by (auto simp: with_commit_def commit_of_def commit_exists_def tree_of_def map_add_def fun_eq_iff
      split: option.split)

lemma with_commit_edges:
  assumes "\<not> commit_exists d (cm_hash row)"
  shows "parent_edge (with_commit r row d) =
    parent_edge d \<union> {(cm_hash row, p) | p. cm_parent row = Some p}"
  using assms by (auto simp: parent_edge_def with_commit_of commit_exists_conv split: if_splits)

lemma old_ancestors:
  assumes "commits_ok d" "\<not> commit_exists d (cm_hash row)" "commit_exists d t"
    and "(t, h) \<in> (parent_edge (with_commit r row d))\<^sup>*"
  shows "(t, h) \<in> (parent_edge d)\<^sup>*"
  using assms(4)
proof (induction rule: rtrancl_induct)
  case (step y z)
  then have "commit_exists d y" using ancestor_exists [OF assms(1) _ assms(3)] by blast
  then have "(y, z) \<in> parent_edge d"
    using step(2) assms(2) by (auto simp: with_commit_edges [OF assms(2)])
  then show ?case using step(3) by simp
qed simp

lemma with_commit_ok:
  assumes ok: "commits_ok d" "refs_ok v d" "all_reached d" and new: "\<not> commit_exists d (cm_hash row)"
    and parent: "cm_parent row = try_get_ref d r" and verifies: "row_verifies v (chain_id_of r) row"
    and grow: "tree_of d \<subseteq>\<^sub>m tree_of d1" "db_commits d1 = db_commits d" "db_refs d1 = db_refs d"
    and root: "tree_exists d1 (cm_root_tree row)"
    and hang: "\<And>k. tree_exists d1 k \<Longrightarrow> \<not> tree_exists d k \<Longrightarrow>
      (cm_root_tree row, k) \<in> (tree_edge (tree_of d1))\<^sup>*"
  shows "commits_ok (with_commit r row d1)" "refs_ok v (with_commit r row d1)"
    "all_reached (with_commit r row d1)"
proof -
  let ?h = "cm_hash row" and ?d = "with_commit r row d1"
  have same: "commit_of d1 = commit_of d" "parent_edge d1 = parent_edge d" "commit_exists d1 = commit_exists d"
    using grow(2) by (simp_all add: commit_of_def [abs_def] parent_edge_def commit_exists_def [abs_def])
  have new1: "\<not> commit_exists d1 ?h" using new same by simp
  have ok1: "commits_ok d1"
    using ok(1) grow same by (auto simp: commits_ok_def tree_exists_conv map_le_def dom_def)
  note view = with_commit_of(1) [OF new1] with_commit_of(2)
  have tip: "commit_exists d p" "(r, p) \<in> set (db_refs d)" if "cm_parent row = Some p" for p
  proof -
    have "map_of (db_refs d) r = Some p" using parent that by (simp add: try_get_ref_def)
    then show "(r, p) \<in> set (db_refs d)" by (rule map_of_SomeD)
    then show "commit_exists d p" using ok(2) by (auto simp: refs_ok_def)
  qed
  have old: "(t, k) \<in> (parent_edge d)\<^sup>*" if "commit_exists d t" "(t, k) \<in> (parent_edge ?d)\<^sup>*" for t k
    using old_ancestors [OF ok1 new1 _ that(2)] that(1) same by simp
  have edges: "parent_edge ?d = parent_edge d \<union> {(?h, p) | p. cm_parent row = Some p}"
    using with_commit_edges [OF new1] same by simp
  show "commits_ok ?d"
    unfolding commits_ok_def
  proof
    have "case cm_parent row of Some p \<Rightarrow> p \<in> fst ` set (db_commits d) | None \<Rightarrow> True"
      using tip(1) by (auto simp: commit_exists_def split: option.split) (metis fst_conv image_eqI map_of_SomeD)
    moreover have "?h \<notin> fst ` set (db_commits d)"
      using new by (auto simp: commit_exists_def map_of_eq_None_iff)
    ultimately show "parents_first {} (db_commits ?d)"
      using ok(1) by (simp add: with_commit_def grow(2) parents_first_append commits_ok_def)
    show "\<forall>h c. commit_of ?d h = Some c \<longrightarrow> tree_exists ?d (cm_root_tree c)"
      using ok1 root by (auto simp: view commits_ok_def tree_exists_conv split: if_splits)
  qed
  have refs: "(q, t) \<in> set (db_refs ?d) \<longleftrightarrow> (if q = r then t = ?h else (q, t) \<in> set (db_refs d))" for q t
  proof -
    have "bm_ok (db_refs d)" using ok(2) by (simp add: refs_ok_def)
    then show ?thesis
      using bm_ok_mem [of "db_refs d" q t] bm_ok_mem [of "bm_insert r ?h (db_refs d)" q t]
      by (auto simp: with_commit_def grow(3))
  qed
  show "refs_ok v ?d"
    unfolding refs_ok_def
  proof (intro conjI ballI)
    show "bm_ok (db_refs ?d)" using ok(2) by (simp add: with_commit_def grow(3) refs_ok_def)
    fix qt assume in_refs: "qt \<in> set (db_refs ?d)"
    obtain q t where qt: "qt = (q, t)" by fastforce
    have mem: "(q, t) \<in> set (db_refs ?d)" using in_refs qt by simp
    have below: "row_verifies v (chain_id_of q) c"
      if "(q, t') \<in> set (db_refs d)" "(t', h) \<in> (parent_edge ?d)\<^sup>*" "commit_of ?d h = Some c" for t' h c
    proof -
      have t': "commit_exists d t'" using ok(2) that(1) by (auto simp: refs_ok_def)
      have anc: "(t', h) \<in> (parent_edge d)\<^sup>*" using old [OF t' that(2)] .
      have "h \<noteq> ?h" using ancestor_exists [OF ok(1) anc t'] new by auto
      then have "commit_of d h = Some c" using that(3) by (simp add: view same)
      then show ?thesis using ok(2) that(1) anc by (auto simp: refs_ok_def)
    qed
    show "case qt of (q, t) \<Rightarrow> commit_exists ?d t \<and> (\<forall>h c. (t, h) \<in> (parent_edge ?d)\<^sup>* \<longrightarrow>
        commit_of ?d h = Some c \<longrightarrow> row_verifies v (chain_id_of q) c)"
    proof (cases "q = r")
      case False
      then have "(q, t) \<in> set (db_refs d)" using mem refs by simp
      then show ?thesis using below ok(2) by (auto simp: qt refs_ok_def commit_exists_conv view same)
    next
      case True
      then have t: "t = ?h" using mem refs by simp
      have "row_verifies v (chain_id_of r) c" if "(?h, h) \<in> (parent_edge ?d)\<^sup>*" "commit_of ?d h = Some c" for h c
        using that(1)
      proof (cases rule: converse_rtranclE)
        case base
        then show ?thesis using that(2) verifies by (simp add: view)
      next
        case (step p)
        have "cm_parent row = Some p" using step(1) by (simp add: parent_edge_def view)
        then show ?thesis using below tip(2) True step(2) that(2) by blast
      qed
      then show ?thesis by (simp add: qt t True commit_exists_conv view)
    qed
  qed
  have mono: "(parent_edge d)\<^sup>* \<subseteq> (parent_edge ?d)\<^sup>*" by (rule rtrancl_mono) (auto simp: edges)
  have commits: "\<exists>(q, t) \<in> set (db_refs ?d). (t, h) \<in> (parent_edge ?d)\<^sup>*" if "commit_exists ?d h" for h
  proof (cases "h = ?h")
    case True
    then show ?thesis using refs [of r ?h] by auto
  next
    case False
    then have "commit_exists d h" using that by (simp add: commit_exists_conv view same)
    then obtain q t where q: "(q, t) \<in> set (db_refs d)" "(t, h) \<in> (parent_edge d)\<^sup>*"
      using ok(3) unfolding all_reached_def by blast
    show ?thesis
    proof (cases "q = r")
      case True
      then have "try_get_ref d r = Some t"
        using q(1) ok(2) by (simp add: try_get_ref_def refs_ok_def bm_ok_mem)
      then have "(?h, t) \<in> parent_edge ?d" using parent by (simp add: edges)
      then have "(?h, h) \<in> (parent_edge ?d)\<^sup>*" using q(2) mono by (meson converse_rtrancl_into_rtrancl subsetD)
      then show ?thesis using refs [of r ?h] by auto
    next
      case False
      then have "(q, t) \<in> set (db_refs ?d)" using q(1) refs by simp
      then show ?thesis using q(2) mono by blast
    qed
  qed
  have trees: "\<exists>h c. commit_of ?d h = Some c \<and> (cm_root_tree c, k) \<in> (tree_edge (tree_of ?d))\<^sup>*"
    if k: "tree_exists ?d k" for k
  proof (cases "tree_exists d k")
    case True
    then obtain h c where "commit_of d h = Some c" "(cm_root_tree c, k) \<in> (tree_edge (tree_of d))\<^sup>*"
      using ok(3) unfolding all_reached_def by blast
    moreover have "h \<noteq> ?h" using calculation(1) new by (auto simp: commit_exists_conv)
    ultimately show ?thesis
      using rtrancl_mono [OF tree_edge_mono [OF grow(1)]] by (fastforce simp: view same)
  next
    case False
    then show ?thesis using hang [of k] k by (auto simp: view tree_exists_conv)
  qed
  show "all_reached ?d" unfolding all_reached_def using commits trees by blast
qed


lemma land_commit_cases:
  assumes "land_commit v d r parent ts root it now = (res, d')"
  obtains (refused) e where "res = Inl e" "d' = d"
  | (landed) row where "author_commit_row v r parent root it now = Inr row"
      "\<not> commit_exists (fold (\<lambda>(h, es). put_tree h es) ts d) (cm_hash row)"
      "try_get_ref d r = parent" "res = Inr \<lparr>co_hash = cm_hash row, co_committed = True\<rparr>"
      "d' = with_commit r row (fold (\<lambda>(h, es). put_tree h es) ts d)"
proof (cases "author_commit_row v r parent root it now")
  case (Inl e)
  then show ?thesis using assms refused by (auto simp: land_commit_def)
next
  case (Inr row)
  let ?d1 = "fold (\<lambda>(h, es). put_tree h es) ts d"
  show ?thesis
  proof (cases "try_with (put_commit row ?d1) (set_ref_cas r parent (cm_hash row))")
    case (Inl e)
    then show ?thesis using assms refused Inr by (auto simp: land_commit_def with_tx_def)
  next
    case (Inr d2)
    then have "\<not> commit_exists ?d1 (cm_hash row)" "try_get_ref d r = parent"
        "d2 = with_commit r row ?d1"
      by (auto simp: res_simps with_commit_def try_get_ref_def)
    then show ?thesis
      using assms landed Inr \<open>author_commit_row v r parent root it now = Inr row\<close>
      by (auto simp: land_commit_def with_tx_def)
  qed
qed

lemma trees_closed_grow:
  "trees_closed d os \<Longrightarrow> map_of os \<subseteq>\<^sub>m map_of os' \<Longrightarrow> trees_closed d os'"
  unfolding trees_closed_def using rows_closed_mono map_le_refl by blast

lemma land_commit_keeps:
  assumes env: "addressing v" "signing v"
    and ok: "store_ok v \<lparr>rp_db = d, rp_objects = os\<rparr>"
    and grow: "objects_ok v os'" "map_of os \<subseteq>\<^sub>m map_of os'"
    and ts: "blueprint_ok v ts os'"
    and hang: "tree_of d root \<noteq> None \<or> map_of ts root \<noteq> None"
      "\<forall>k. map_of ts k \<noteq> None \<longrightarrow> (root, k) \<in> (tree_edge (map_of ts))\<^sup>*"
    and land: "land_commit v d r parent ts root it now = (res, d')"
  shows "store_ok v \<lparr>rp_db = d', rp_objects = os'\<rparr>"
  using land
proof (cases rule: land_commit_cases)
  case refused
  then show ?thesis using ok grow trees_closed_grow [of d os os'] by (simp add: store_ok_def)
next
  case (landed row)
  let ?d1 = "fold (\<lambda>(h, es). put_tree h es) ts d"
  have hts: "\<forall>(h, es) \<in> set ts. names_sorted es \<and> tree_hash v es = h"
    using ts by (auto simp: blueprint_ok_def)
  have rows: "tree_rows_ok v d" using ok by (simp add: store_ok_def)
  have rows1: "tree_rows_ok v ?d1" by (rule put_trees_of(1) [OF env(1) hts rows])
  note at1 = put_trees_of(2) [OF env(1) hts rows]
  have le: "tree_of d \<subseteq>\<^sub>m tree_of ?d1" by (rule trees_grow [OF env(1) rows hts])
  have le_ts: "map_of ts \<subseteq>\<^sub>m tree_of ?d1" by (auto simp: map_le_def at1 dom_def)
  have closed: "trees_closed ?d1 os'"
    unfolding trees_closed_def
  proof (intro allI impI)
    fix h es assume "tree_of ?d1 h = Some es"
    then consider "map_of ts h = Some es" | "tree_of d h = Some es"
      by (auto simp: at1 split: option.splits)
    then show "rows_closed (tree_of ?d1) (map_of os') es"
    proof cases
      case 1
      then have "rows_closed (map_of ts) (map_of os') es"
        using ts by (auto simp: blueprint_ok_def dest!: map_of_SomeD)
      then show ?thesis using rows_closed_mono le_ts map_le_refl by blast
    next
      case 2
      then have "rows_closed (tree_of d) (map_of os) es"
        using ok by (simp add: store_ok_def trees_closed_def)
      then show ?thesis using rows_closed_mono le grow(2) by blast
    qed
  qed
  have row: "row_verifies v (chain_id_of r) row" "cm_parent row = parent" "cm_root_tree row = root"
    using authored_row [OF landed(1) env(2)] by auto
  have new: "\<not> commit_exists d (cm_hash row)"
    using landed(2) by (simp add: commit_exists_def)
  have "tree_exists ?d1 (cm_root_tree row)"
    using hang(1) row(3) by (auto simp: tree_exists_conv at1 split: option.split)
  moreover have "(cm_root_tree row, k) \<in> (tree_edge (tree_of ?d1))\<^sup>*"
    if "tree_exists ?d1 k" "\<not> tree_exists d k" for k
  proof -
    have "map_of ts k \<noteq> None" using that by (auto simp: tree_exists_conv at1 split: option.splits)
    then show ?thesis using hang(2) row(3) rtrancl_mono [OF tree_edge_mono [OF le_ts]] by blast
  qed
  ultimately have "commits_ok d'" "refs_ok v d'" "all_reached d'"
    using with_commit_ok [of d v row r ?d1] ok new row landed(3,5) le
    by (simp_all add: store_ok_def)
  moreover have "tree_rows_ok v d'" "trees_closed d' os'"
    using rows1 closed
    by (simp_all add: landed(5) with_commit_def tree_rows_ok_def trees_closed_def tree_of_def [abs_def])
  ultimately show ?thesis using grow(1) by (simp add: store_ok_def)
qed

lemma root_of_build:
  assumes "addressing v" "build_with v r ch os = (Inr (root, ts), os')" "tree_ok ch" "objects_ok v os"
  obtains es where "blueprint_ok v ts os'" "map_of ts root = Some es" "objects_ok v os'"
    "map_of os \<subseteq>\<^sub>m map_of os'" "represents v r (map_of ts) (map_of os') [] ch es"
    "\<forall>k. map_of ts k \<noteq> None \<longrightarrow> (root, k) \<in> (tree_edge (map_of ts))\<^sup>*"
proof -
  obtain es ts1 where build: "build_entries v r ch [] [] os = (Inr (es, ts1), os')"
      and fin: "finish_node v es ts1 = (root, ts)"
    using assms(2) by (auto simp: build_with_def split: sum.splits prod.splits)
  have "blueprint_ok v [] os" by (simp add: blueprint_ok_def)
  note b = build_represents [OF assms(1) build assms(3,4) this]
  note ob = build_objects [OF build assms(4)]
  have "names_sorted es"
    using represents_names b assms(3) by (metis bm_ok_def names_sorted_def node_ok.simps(2))
  then have ts: "root = tree_hash v es" "ts = or_insert (tree_hash v es) es ts1"
    and names: "names_sorted es"
    using fin finish_node_sorted by auto
  have at: "map_of ts root = Some es" using or_insert_at [OF assms(1)] b ts by blast
  have "map_of ts1 \<subseteq>\<^sub>m map_of ts" using or_insert_le ts by blast
  then have rep: "represents v r (map_of ts) (map_of os') [] ch es"
    using b represents_mono map_le_refl by blast
  have "hangs_off [] ts [\<lparr>te_name = [], te_kind = Tree, te_mode = 0, te_target = root\<rparr>]"
    using b at unfolding ts by (intro hangs_off_node) auto
  then have "\<forall>k. map_of ts k \<noteq> None \<longrightarrow> (root, k) \<in> (tree_edge (map_of ts))\<^sup>*"
    by (auto simp: hangs_off_def)
  moreover have "blueprint_ok v ts os'"
    unfolding ts using b names represents_closed by (intro blueprint_ok_or_insert) blast+
  ultimately show ?thesis using that at rep ob by blast
qed

lemma repo_eta [simp]: "\<lparr>rp_db = rp_db rp, rp_objects = rp_objects rp\<rparr> = rp"
  by (cases rp) simp

lemma commit_snapshot_keeps:
  assumes env: "addressing v" "signing v" and ok: "store_ok v rp" and tree: "tree_ok (ws_root s)"
  shows "store_ok v (snd (snd (commit_snapshot_to_with v r s it now policy rp)))"
proof -
  have os: "objects_ok v (rp_objects rp)" using ok by (simp add: store_ok_def)
  have same: "store_ok v (rp\<lparr>rp_objects := os'\<rparr>)"
    if "objects_ok v os'" "map_of (rp_objects rp) \<subseteq>\<^sub>m map_of os'" for os'
    using ok that trees_closed_grow by (auto simp: store_ok_def)
  show ?thesis
  proof (cases "build_with v r (ws_root s) (rp_objects rp)")
    case (Pair res os')
    show ?thesis
    proof (cases res)
      case (Inl e)
      then have "objects_ok v os' \<and> map_of (rp_objects rp) \<subseteq>\<^sub>m map_of os'"
        using Pair build_objects [OF _ os]
        by (auto simp: build_with_def split: sum.splits prod.splits)
      then show ?thesis using Inl Pair same by (simp add: commit_snapshot_to_with_def)
    next
      case (Inr bp)
      obtain root ts where bp: "bp = (root, ts)" by fastforce
      obtain es where b: "blueprint_ok v ts os'" "map_of ts root = Some es" "objects_ok v os'"
          "map_of (rp_objects rp) \<subseteq>\<^sub>m map_of os'"
          "\<forall>k. map_of ts k \<noteq> None \<longrightarrow> (root, k) \<in> (tree_edge (map_of ts))\<^sup>*"
        using root_of_build [OF env(1) Pair [unfolded Inr bp] tree os] by metis
      obtain out d' where w: "write_commit_tx v (rp_db rp) r (tip_of rp r) bp it now policy = (out, d')"
        by fastforce
      have "store_ok v \<lparr>rp_db = d', rp_objects = os'\<rparr>"
      proof (cases "d' = rp_db rp")
        case True
        then show ?thesis using same [OF b(3,4)] by (cases rp) simp
      next
        case False
        then have "land_commit v (rp_db rp) r (tip_of rp r) ts root it now = (out, d')"
          using w by (auto simp: write_commit_tx_def bp split: sum.splits bool.splits if_splits)
        then show ?thesis
          using land_commit_keeps [OF env _ b(3,4,1), of "rp_db rp" root r "tip_of rp r" it now out d']
            ok b(2,5) by simp
      qed
      then show ?thesis using Pair Inr w by (simp add: commit_snapshot_to_with_def)
    qed
  qed
qed

lemma commit_over_tree_keeps:
  assumes env: "addressing v" "signing v" and ok: "store_ok v rp" and root: "tree_exists (rp_db rp) root"
  shows "store_ok v (snd (snd (commit_over_tree v r root it now rp)))"
proof -
  obtain out d' where w: "write_reauthor_tx v (rp_db rp) r (tip_of rp r) root it now = (out, d')"
    by fastforce
  have "store_ok v \<lparr>rp_db = d', rp_objects = rp_objects rp\<rparr>"
  proof (cases "d' = rp_db rp")
    case False
    then have "land_commit v (rp_db rp) r (tip_of rp r) [] root it now = (out, d')"
      using w by (auto simp: write_reauthor_tx_def split: sum.splits bool.splits)
    moreover have "blueprint_ok v [] (rp_objects rp)" "objects_ok v (rp_objects rp)"
      using ok by (simp_all add: blueprint_ok_def store_ok_def)
    ultimately show ?thesis
      using land_commit_keeps [OF env, of "rp_db rp" "rp_objects rp" "rp_objects rp" "[]" root] ok root
      by (simp add: tree_exists_conv)
  qed (use ok in simp)
  moreover have "rp\<lparr>rp_db := d'\<rparr> = \<lparr>rp_db = d', rp_objects = rp_objects rp\<rparr>" by (cases rp) simp
  ultimately show ?thesis by (simp only: commit_over_tree_def w prod.case snd_conv)
qed

end
