(* ===== verification/Vcs_Gc.thy ===== *)
theory Vcs_Gc
  imports Vcs_Invariant
begin

text \<open>
  Reachability and garbage collection (\<^verbatim>\<open>crates/softfig-vcs/src/gc.rs\<close>): the two work
  lists over commits and trees, the union of the live blobs of all refs, and the sweep. The work
  lists compute exactly the closure of the parent and subtree edges, so the sweep keeps every
  reachable blob and nothing else.
\<close>

section \<open>The walks\<close>

record reachable =
  re_commits :: "hash set"
  re_trees :: "hash set"
  re_blobs :: "hash set"

definition nothing_reached :: reachable where
  "nothing_reached = \<lparr>re_commits = {}, re_trees = {}, re_blobs = {}\<rparr>"

definition tree_targets :: "tree_entry_row list \<Rightarrow> hash list" where
  "tree_targets es = map te_target (filter (\<lambda>e. te_kind e = Tree) es)"

definition blob_targets :: "tree_entry_row list \<Rightarrow> hash list" where
  "blob_targets es = map te_target (filter (\<lambda>e. te_kind e = Blob) es)"

text \<open>The stack is a list with its top in front, so the pushes of one row list come reversed.\<close>

lemma try_with_cong [fundef_cong]:
  "m = m' \<Longrightarrow> (\<And>x. m' = Inr x \<Longrightarrow> k x = k' x) \<Longrightarrow> try_with m k = try_with m' k'"
  by (cases m') auto

lemma unseen_less:
  assumes "map_of xs h = Some x" "h \<notin> seen"
  shows "card (fst ` set xs - insert h seen) < card (fst ` set xs - seen)"
proof (rule psubset_card_mono)
  have "h \<in> fst ` set xs" using map_of_SomeD [OF assms(1)] by force
  then show "fst ` set xs - insert h seen \<subset> fst ` set xs - seen" using assms(2) by blast
qed simp

lemma unseen_le: "card (fst ` set xs - insert h seen) \<le> card (fst ` set xs - seen)"
  by (rule card_mono) auto

function walk_trees :: "db \<Rightarrow> hash list \<Rightarrow> reachable \<Rightarrow> store_error + reachable" where
  "walk_trees d [] r = Inr r"
| "walk_trees d (th # stack) r =
     (if th \<in> re_trees r then walk_trees d stack r
      else try_with (get_tree d th) (\<lambda>es.
        walk_trees d (rev (tree_targets es) @ stack)
          (r\<lparr>re_trees := insert th (re_trees r), re_blobs := re_blobs r \<union> set (blob_targets es)\<rparr>)))"
  by pat_completeness auto

termination
proof (relation "measures [\<lambda>(d, stack, r). card (fst ` set (db_trees d) - re_trees r),
    \<lambda>(d, stack, r). length stack]")
  fix d th stack r es
  assume new: "th \<notin> re_trees r" and es: "get_tree d th = Inr es"
  obtain rows where "map_of (db_trees d) th = Some rows" using es by (auto simp: res_simps tree_of_def)
  from unseen_less [OF this new] show "((d, rev (tree_targets es) @ stack,
      r\<lparr>re_trees := insert th (re_trees r), re_blobs := re_blobs r \<union> set (blob_targets es)\<rparr>),
      d, th # stack, r) \<in> measures [\<lambda>(d, stack, r). card (fst ` set (db_trees d) - re_trees r),
    \<lambda>(d, stack, r). length stack]"
    by simp
qed auto

declare walk_trees.simps(2) [simp del]

lemma walk_trees_commits: "walk_trees d stack r = Inr r' \<Longrightarrow> re_commits r' = re_commits r"
  by (induction d stack r rule: walk_trees.induct)
    (auto simp: walk_trees.simps(2) res_simps split: if_splits)

function reach_loop :: "db \<Rightarrow> hash list \<Rightarrow> reachable \<Rightarrow> store_error + reachable" where
  "reach_loop d [] r = Inr r"
| "reach_loop d (ch # stack) r =
     (if ch \<in> re_commits r then reach_loop d stack r
      else try_with (get_commit d ch) (\<lambda>c.
        try_with (walk_trees d [cm_root_tree c] (r\<lparr>re_commits := insert ch (re_commits r)\<rparr>)) (\<lambda>r'.
        reach_loop d (case cm_parent c of Some p \<Rightarrow> p # stack | None \<Rightarrow> stack) r')))"
  by pat_completeness auto

termination
proof (relation "measures [\<lambda>(d, stack, r). card (fst ` set (db_commits d) - re_commits r),
    \<lambda>(d, stack, r). length stack]")
  fix d ch stack r c r'
  assume new: "ch \<notin> re_commits r" and c: "get_commit d ch = Inr c"
    and r': "walk_trees d [cm_root_tree c] (r\<lparr>re_commits := insert ch (re_commits r)\<rparr>) = Inr r'"
  have "map_of (db_commits d) ch = Some c" using c by (simp add: res_simps commit_of_def)
  from unseen_less [OF this new] show "((d, case cm_parent c of Some p \<Rightarrow> p # stack | None \<Rightarrow> stack, r'), d, ch # stack, r)
      \<in> measures [\<lambda>(d, stack, r). card (fst ` set (db_commits d) - re_commits r),
        \<lambda>(d, stack, r). length stack]"
    using walk_trees_commits [OF r'] by simp
qed auto

declare reach_loop.simps(2) [simp del]

definition reachable_from :: "db \<Rightarrow> hash \<Rightarrow> store_error + reachable" where
  "reachable_from d tip = reach_loop d [tip] nothing_reached"

definition reachable_from_tree :: "db \<Rightarrow> hash \<Rightarrow> store_error + reachable" where
  "reachable_from_tree d root = walk_trees d [root] nothing_reached"

fun live_blobs :: "db \<Rightarrow> hash list \<Rightarrow> store_error + hash set" where
  "live_blobs d [] = Inr {}"
| "live_blobs d (t # ts) =
     try_with (reachable_from d t) (\<lambda>r. try_with (live_blobs d ts) (\<lambda>live. Inr (re_blobs r \<union> live)))"

section \<open>The sweep\<close>

record gc_report =
  gr_scanned :: nat
  gr_kept :: nat
  gr_collected :: "hash list"

definition gc :: "db \<Rightarrow> objects \<Rightarrow> hash list \<Rightarrow> (store_error + gc_report) \<times> objects" where
  "gc d os tips =
     (case live_blobs d tips of
        Inl e \<Rightarrow> (Inl e, os)
      | Inr live \<Rightarrow>
          (let doomed = filter (\<lambda>h. h \<notin> live) (map fst os) in
           (Inr \<lparr>gr_scanned = length os, gr_kept = length (filter (\<lambda>h. h \<in> live) (map fst os)),
              gr_collected = doomed\<rparr>,
            fold object_remove doomed os)))"

definition live_tips :: "repo \<Rightarrow> hash list" where
  "live_tips rp = map snd (list_refs (rp_db rp))"

definition repo_gc :: "repo \<Rightarrow> (store_error + gc_report) \<times> repo" where
  "repo_gc rp =
     (case gc (rp_db rp) (rp_objects rp) (live_tips rp) of (res, os) \<Rightarrow> (res, rp\<lparr>rp_objects := os\<rparr>))"

section \<open>What is reachable\<close>

definition tree_closure :: "db \<Rightarrow> hash set \<Rightarrow> hash set" where
  "tree_closure d S = (tree_edge (tree_of d))\<^sup>* `` S"

definition blobs_in :: "db \<Rightarrow> hash set \<Rightarrow> hash set" where
  "blobs_in d V = {b. \<exists>h \<in> V. \<exists>es. tree_of d h = Some es \<and> b \<in> set (blob_targets es)}"

definition commit_closure :: "db \<Rightarrow> hash set \<Rightarrow> hash set" where
  "commit_closure d S = (parent_edge d)\<^sup>* `` S"

definition roots_of :: "db \<Rightarrow> hash set \<Rightarrow> hash set" where
  "roots_of d C = {cm_root_tree c | h c. h \<in> C \<and> commit_of d h = Some c}"

text \<open>A blob is live when some tip has an ancestor whose tree names it.\<close>

definition live :: "db \<Rightarrow> hash set \<Rightarrow> hash set" where
  "live d tips = blobs_in d (tree_closure d (roots_of d (commit_closure d tips)))"

lemma closure_step:
  assumes "E `` V \<subseteq> V \<union> S"
  shows "E\<^sup>* `` V \<subseteq> V \<union> E\<^sup>* `` S"
proof
  fix k assume "k \<in> E\<^sup>* `` V"
  then obtain h where "h \<in> V" "(h, k) \<in> E\<^sup>*" by blast
  from this(2,1) show "k \<in> V \<union> E\<^sup>* `` S"
  proof (induction rule: rtrancl_induct)
    case (step y z)
    then consider "y \<in> V" | "y \<in> E\<^sup>* `` S" by blast
    then show ?case
    proof cases
      case 1
      then have "z \<in> V \<union> S" using step(2) assms by blast
      then show ?thesis by blast
    next
      case 2
      then show ?thesis using step(2) by (meson Image_iff UnI2 rtrancl.rtrancl_into_rtrancl)
    qed
  qed simp
qed

lemma closure_visit: "E\<^sup>* `` insert h S = insert h (E\<^sup>* `` (E `` {h} \<union> S))"
  by (auto elim: converse_rtranclE intro: converse_rtrancl_into_rtrancl)

lemma tree_edge_targets: "tree_of d h = Some es \<Longrightarrow> tree_edge (tree_of d) `` {h} = set (tree_targets es)"
  by (auto simp: tree_edge_def tree_targets_def)

lemma blobs_in_insert: "tree_of d h = Some es \<Longrightarrow> blobs_in d (insert h V) = blobs_in d V \<union> set (blob_targets es)"
  by (auto simp: blobs_in_def)

definition trees_exist :: "db \<Rightarrow> bool" where
  "trees_exist d \<longleftrightarrow> (\<forall>h es. tree_of d h = Some es \<longrightarrow> (\<forall>k \<in> set (tree_targets es). tree_of d k \<noteq> None))"

lemma walk_trees_spec:
  "trees_exist d \<Longrightarrow> \<forall>h \<in> set stack. tree_of d h \<noteq> None \<Longrightarrow>
     tree_edge (tree_of d) `` re_trees r \<subseteq> re_trees r \<union> set stack \<Longrightarrow> re_blobs r = blobs_in d (re_trees r) \<Longrightarrow>
     \<exists>r'. walk_trees d stack r = Inr r' \<and> re_trees r' = re_trees r \<union> tree_closure d (set stack) \<and>
       re_blobs r' = blobs_in d (re_trees r') \<and> re_commits r' = re_commits r"
proof (induction d stack r rule: walk_trees.induct)
  case (1 d r)
  then show ?case by (simp add: tree_closure_def)
next
  case (2 d th stack r)
  show ?case
  proof (cases "th \<in> re_trees r")
    case True
    have sub: "tree_edge (tree_of d) `` re_trees r \<subseteq> re_trees r \<union> set stack" using "2.prems"(3) True by auto
    obtain r' where r': "walk_trees d stack r = Inr r'" "re_trees r' = re_trees r \<union> tree_closure d (set stack)"
        "re_blobs r' = blobs_in d (re_trees r')" "re_commits r' = re_commits r"
      using "2.IH"(1) [OF True] "2.prems" sub by auto
    have "tree_closure d {th} \<subseteq> re_trees r \<union> tree_closure d (set stack)"
      using closure_step [OF sub] True unfolding tree_closure_def by blast
    then have "re_trees r' = re_trees r \<union> tree_closure d (set (th # stack))"
      using r'(2) unfolding tree_closure_def by auto
    then show ?thesis using r' True by (simp add: walk_trees.simps(2))
  next
    case False
    obtain es where es: "tree_of d th = Some es" using "2.prems"(2) by auto
    then have get: "get_tree d th = Inr es" by (simp add: res_simps)
    let ?r = "r\<lparr>re_trees := insert th (re_trees r), re_blobs := re_blobs r \<union> set (blob_targets es)\<rparr>"
    have "\<forall>h \<in> set (rev (tree_targets es) @ stack). tree_of d h \<noteq> None"
      using "2.prems"(1,2) es by (auto simp: trees_exist_def)
    moreover have "tree_edge (tree_of d) `` re_trees ?r \<subseteq> re_trees ?r \<union> set (rev (tree_targets es) @ stack)"
      using "2.prems"(3) tree_edge_targets [OF es] by auto
    moreover have "re_blobs ?r = blobs_in d (re_trees ?r)"
      using "2.prems"(4) by (simp add: blobs_in_insert [OF es])
    ultimately obtain r' where r': "walk_trees d (rev (tree_targets es) @ stack) ?r = Inr r'"
        "re_trees r' = re_trees ?r \<union> tree_closure d (set (rev (tree_targets es) @ stack))"
        "re_blobs r' = blobs_in d (re_trees r')" "re_commits r' = re_commits ?r"
      using "2.IH"(2) [OF False get "2.prems"(1)] by metis
    have "tree_closure d (set (th # stack)) = insert th (tree_closure d (set (rev (tree_targets es) @ stack)))"
      unfolding tree_closure_def using closure_visit [of "tree_edge (tree_of d)" th "set stack"]
      by (simp add: tree_edge_targets [OF es])
    then have "re_trees r' = re_trees r \<union> tree_closure d (set (th # stack))" using r'(2) by auto
    then show ?thesis using r' False get by (simp add: walk_trees.simps(2))
  qed
qed


lemma tree_closure_insert: "tree_closure d (insert h S) = tree_closure d {h} \<union> tree_closure d S"
  by (auto simp: tree_closure_def)

lemma tree_closure_closed: "tree_edge (tree_of d) `` tree_closure d S \<subseteq> tree_closure d S"
  by (auto simp: tree_closure_def intro: rtrancl_into_rtrancl)

lemma roots_of_insert: "commit_of d h = Some c \<Longrightarrow> roots_of d (insert h C) = insert (cm_root_tree c) (roots_of d C)"
  by (auto simp: roots_of_def)

lemma parent_edge_at: "commit_of d h = Some c \<Longrightarrow> parent_edge d `` {h} = set_option (cm_parent c)"
  by (auto simp: parent_edge_def)

text \<open>What both work lists rely on: no row points at a row that is not there.\<close>

definition commits_known :: "db \<Rightarrow> bool" where
  "commits_known d \<longleftrightarrow>
     (\<forall>h c. commit_of d h = Some c \<longrightarrow> tree_of d (cm_root_tree c) \<noteq> None \<and>
        (\<forall>p. cm_parent c = Some p \<longrightarrow> commit_of d p \<noteq> None))"

definition reach_inv :: "db \<Rightarrow> hash list \<Rightarrow> reachable \<Rightarrow> bool" where
  "reach_inv d stack r \<longleftrightarrow>
     (\<forall>h \<in> set stack. commit_of d h \<noteq> None) \<and>
     parent_edge d `` re_commits r \<subseteq> re_commits r \<union> set stack \<and>
     re_trees r = tree_closure d (roots_of d (re_commits r)) \<and>
     re_blobs r = blobs_in d (re_trees r)"

lemma visit_commit:
  assumes "trees_exist d" "commits_known d" "reach_inv d (h # stack) r" "h \<notin> re_commits r"
    and c: "commit_of d h = Some c"
  obtains r' where "walk_trees d [cm_root_tree c] (r\<lparr>re_commits := insert h (re_commits r)\<rparr>) = Inr r'"
    "re_commits r' = insert h (re_commits r)"
    "reach_inv d (case cm_parent c of Some p \<Rightarrow> p # stack | None \<Rightarrow> stack) r'"
proof -
  let ?r = "r\<lparr>re_commits := insert h (re_commits r)\<rparr>"
  have "tree_edge (tree_of d) `` re_trees ?r \<subseteq> re_trees ?r \<union> set [cm_root_tree c]"
    using assms(3) tree_closure_closed [of d "roots_of d (re_commits r)"] by (auto simp: reach_inv_def)
  moreover have "\<forall>k \<in> set [cm_root_tree c]. tree_of d k \<noteq> None"
    using assms(2) c by (simp add: commits_known_def)
  moreover have "re_blobs ?r = blobs_in d (re_trees ?r)" using assms(3) by (simp add: reach_inv_def)
  ultimately obtain r' where r': "walk_trees d [cm_root_tree c] ?r = Inr r'"
      "re_trees r' = re_trees ?r \<union> tree_closure d (set [cm_root_tree c])"
      "re_blobs r' = blobs_in d (re_trees r')" "re_commits r' = re_commits ?r"
    using walk_trees_spec [OF assms(1)] by blast
  have "re_trees r' = tree_closure d (roots_of d (insert h (re_commits r)))"
    using r'(2) assms(3) tree_closure_insert [of d "cm_root_tree c" "roots_of d (re_commits r)"]
    by (auto simp: roots_of_insert [OF c] reach_inv_def)
  moreover have "parent_edge d `` insert h (re_commits r) \<subseteq>
      insert h (re_commits r) \<union> set (case cm_parent c of Some p \<Rightarrow> p # stack | None \<Rightarrow> stack)"
    using assms(3) parent_edge_at [OF c]
    by (auto simp: reach_inv_def Image_def split: option.splits)
  moreover have "\<forall>k \<in> set (case cm_parent c of Some p \<Rightarrow> p # stack | None \<Rightarrow> stack). commit_of d k \<noteq> None"
    using assms(2,3) c by (auto simp: commits_known_def reach_inv_def split: option.splits)
  ultimately show ?thesis using r' by (intro that [of r']) (simp_all add: reach_inv_def)
qed

lemma commit_closure_visit:
  "commit_of d h = Some c \<Longrightarrow>
     commit_closure d (set (h # stack)) =
       insert h (commit_closure d (set (case cm_parent c of Some p \<Rightarrow> p # stack | None \<Rightarrow> stack)))"
  using closure_visit [of "parent_edge d" h "set stack"]
  by (simp add: commit_closure_def parent_edge_at split: option.split)

lemma reach_loop_spec:
  "trees_exist d \<Longrightarrow> commits_known d \<Longrightarrow> reach_inv d stack r \<Longrightarrow>
     \<exists>r'. reach_loop d stack r = Inr r' \<and> re_commits r' = re_commits r \<union> commit_closure d (set stack) \<and>
       reach_inv d [] r'"
proof (induction d stack r rule: reach_loop.induct)
  case (1 d r)
  then show ?case by (simp add: commit_closure_def)
next
  case (2 d h stack r)
  show ?case
  proof (cases "h \<in> re_commits r")
    case True
    then have inv: "reach_inv d stack r" using "2.prems"(3) by (auto simp: reach_inv_def)
    then have "parent_edge d `` re_commits r \<subseteq> re_commits r \<union> set stack" by (simp add: reach_inv_def)
    from closure_step [OF this]
    have "commit_closure d {h} \<subseteq> re_commits r \<union> commit_closure d (set stack)"
      using True by (auto simp: commit_closure_def)
    moreover have "commit_closure d (set (h # stack)) = commit_closure d {h} \<union> commit_closure d (set stack)"
      by (auto simp: commit_closure_def)
    ultimately show ?thesis
      using "2.IH"(1) [OF True "2.prems"(1,2) inv] True by (auto simp: reach_loop.simps(2))
  next
    case False
    obtain c where c: "commit_of d h = Some c" using "2.prems"(3) by (auto simp: reach_inv_def)
    obtain r1 where r1: "walk_trees d [cm_root_tree c] (r\<lparr>re_commits := insert h (re_commits r)\<rparr>) = Inr r1"
        "re_commits r1 = insert h (re_commits r)"
        "reach_inv d (case cm_parent c of Some p \<Rightarrow> p # stack | None \<Rightarrow> stack) r1"
      using visit_commit [OF "2.prems" False c] .
    have get: "get_commit d h = Inr c" using c by (simp add: res_simps)
    obtain r' where "reach_loop d (case cm_parent c of Some p \<Rightarrow> p # stack | None \<Rightarrow> stack) r1 = Inr r'"
        "re_commits r' = re_commits r1 \<union>
          commit_closure d (set (case cm_parent c of Some p \<Rightarrow> p # stack | None \<Rightarrow> stack))"
        "reach_inv d [] r'"
      using "2.IH"(2) [OF False get r1(1) "2.prems"(1,2) r1(3)] by blast
    then show ?thesis
      using False get r1 commit_closure_visit [OF c] by (auto simp: reach_loop.simps(2))
  qed
qed

lemma reachable_from_spec:
  assumes "trees_exist d" "commits_known d" "commit_of d t \<noteq> None"
  obtains r where "reachable_from d t = Inr r" "re_commits r = commit_closure d {t}"
    "re_trees r = tree_closure d (roots_of d (commit_closure d {t}))" "re_blobs r = live d {t}"
proof -
  have "reach_inv d [t] nothing_reached"
    using assms(3) by (simp add: reach_inv_def nothing_reached_def tree_closure_def roots_of_def blobs_in_def)
  from reach_loop_spec [OF assms(1,2) this]
  show ?thesis using that by (auto simp: reachable_from_def reach_inv_def live_def nothing_reached_def)
qed

lemma closures_Un:
  "commit_closure d (S \<union> T) = commit_closure d S \<union> commit_closure d T"
  "tree_closure d (S \<union> T) = tree_closure d S \<union> tree_closure d T"
  "roots_of d (S \<union> T) = roots_of d S \<union> roots_of d T"
  "blobs_in d (S \<union> T) = blobs_in d S \<union> blobs_in d T"
  by (auto simp: commit_closure_def tree_closure_def roots_of_def blobs_in_def)

lemma live_split: "live d (insert t T) = live d {t} \<union> live d T"
  using closures_Un(1) [of d "{t}" T] by (simp add: live_def closures_Un)

lemma live_blobs_spec:
  "trees_exist d \<Longrightarrow> commits_known d \<Longrightarrow> \<forall>t \<in> set ts. commit_of d t \<noteq> None \<Longrightarrow>
     live_blobs d ts = Inr (live d (set ts))"
proof (induction ts)
  case Nil
  then show ?case by (simp add: live_def blobs_in_def tree_closure_def roots_of_def commit_closure_def)
next
  case (Cons t ts)
  obtain r where "reachable_from d t = Inr r" "re_blobs r = live d {t}"
    using reachable_from_spec [OF Cons.prems(1,2)] Cons.prems(3) by (metis list.set_intros(1))
  then show ?case using Cons by (simp add: live_split [of d t "set ts"])
qed

section \<open>The sweep is exact\<close>

lemma fold_object_remove: "fold object_remove hs os = filter (\<lambda>(h, b). h \<notin> set hs) os"
  by (induction hs arbitrary: os) (auto simp: object_remove_def intro!: filter_cong)

lemma gc_spec:
  assumes "live_blobs d tips = Inr L"
  shows "gc d os tips =
    (Inr \<lparr>gr_scanned = length os, gr_kept = length (filter (\<lambda>(h, b). h \<in> L) os),
       gr_collected = filter (\<lambda>h. h \<notin> L) (map fst os)\<rparr>, filter (\<lambda>(h, b). h \<in> L) os)"
  unfolding gc_def assms
  by (auto simp: Let_def fold_object_remove filter_map comp_def case_prod_unfold intro!: filter_cong)

lemma map_of_filter_keys: "map_of (filter (\<lambda>(h, b). h \<in> L) os) k = (if k \<in> L then map_of os k else None)"
  by (induction os) auto

lemma store_ok_known:
  assumes "store_ok v rp"
  shows "trees_exist (rp_db rp)" "commits_known (rp_db rp)"
    "\<forall>t \<in> set (live_tips rp). commit_of (rp_db rp) t \<noteq> None"
proof -
  have ok: "trees_closed (rp_db rp) (rp_objects rp)" "commits_ok (rp_db rp)" "refs_ok v (rp_db rp)"
    using assms by (simp_all add: store_ok_def)
  show "trees_exist (rp_db rp)"
    using ok(1) by (force simp: trees_exist_def trees_closed_def rows_closed_def tree_targets_def list_all_iff)
  show "commits_known (rp_db rp)"
    unfolding commits_known_def
  proof (intro allI impI conjI)
    fix h c assume c: "commit_of (rp_db rp) h = Some c"
    then show "tree_of (rp_db rp) (cm_root_tree c) \<noteq> None"
      using ok(2) by (simp add: commits_ok_def tree_exists_conv)
    fix p assume "cm_parent c = Some p"
    then have "(h, p) \<in> parent_edge (rp_db rp)" using c by (simp add: parent_edge_def)
    then show "commit_of (rp_db rp) p \<noteq> None" using parent_exists [OF ok(2)] commit_exists_conv by blast
  qed
  show "\<forall>t \<in> set (live_tips rp). commit_of (rp_db rp) t \<noteq> None"
    using ok(3) by (fastforce simp: live_tips_def list_refs_def refs_ok_def commit_exists_conv)
qed

abbreviation live_in :: "repo \<Rightarrow> hash set" where
  "live_in rp \<equiv> live (rp_db rp) (set (live_tips rp))"

lemma repo_gc_spec:
  assumes "store_ok v rp"
  shows "repo_gc rp =
    (Inr \<lparr>gr_scanned = length (rp_objects rp),
       gr_kept = length (filter (\<lambda>(h, b). h \<in> live_in rp) (rp_objects rp)),
       gr_collected = filter (\<lambda>h. h \<notin> live_in rp) (map fst (rp_objects rp))\<rparr>,
     rp\<lparr>rp_objects := filter (\<lambda>(h, b). h \<in> live_in rp) (rp_objects rp)\<rparr>)"
  unfolding repo_gc_def gc_spec [OF live_blobs_spec [OF store_ok_known [OF assms]]] by simp

text \<open>In a sound store every blob a stored tree names is live.\<close>

lemma named_blob_live:
  assumes "store_ok v rp" "tree_of (rp_db rp) k = Some es" "b \<in> set (blob_targets es)"
  shows "b \<in> live_in rp"
proof -
  let ?d = "rp_db rp"
  have reached: "all_reached ?d" using assms(1) by (simp add: store_ok_def)
  then obtain h c where c: "commit_of ?d h = Some c" "(cm_root_tree c, k) \<in> (tree_edge (tree_of ?d))\<^sup>*"
    using assms(2) unfolding all_reached_def tree_exists_conv by blast
  obtain r t where rt: "(r, t) \<in> set (db_refs ?d)" and th: "(t, h) \<in> (parent_edge ?d)\<^sup>*"
    using reached c(1) unfolding all_reached_def commit_exists_conv by blast
  have "t \<in> set (live_tips rp)" using rt by (force simp: live_tips_def list_refs_def)
  then have "h \<in> commit_closure ?d (set (live_tips rp))" using th by (auto simp: commit_closure_def)
  then have "cm_root_tree c \<in> roots_of ?d (commit_closure ?d (set (live_tips rp)))"
    using c(1) by (auto simp: roots_of_def)
  then have "k \<in> tree_closure ?d (roots_of ?d (commit_closure ?d (set (live_tips rp))))"
    using c(2) unfolding tree_closure_def by blast
  then show ?thesis using assms(2,3) unfolding live_def blobs_in_def by blast
qed

lemma repo_gc_keeps:
  assumes "store_ok v rp"
  shows "store_ok v (snd (repo_gc rp))"
proof -
  let ?os = "filter (\<lambda>(h, b). h \<in> live_in rp) (rp_objects rp)"
  have ok: "objects_ok v (rp_objects rp)" "trees_closed (rp_db rp) (rp_objects rp)"
    using assms by (simp_all add: store_ok_def)
  have "objects_ok v ?os" using ok(1) by (auto simp: objects_ok_def distinct_map_filter)
  moreover have "trees_closed (rp_db rp) ?os"
    unfolding trees_closed_def
  proof (intro allI impI)
    fix h es assume es: "tree_of (rp_db rp) h = Some es"
    then have "rows_closed (tree_of (rp_db rp)) (map_of (rp_objects rp)) es"
      using ok(2) by (simp add: trees_closed_def)
    moreover have "te_target e \<in> live_in rp" if "e \<in> set es" "te_kind e = Blob" for e
      using that named_blob_live [OF assms es] by (auto simp: blob_targets_def)
    ultimately show "rows_closed (tree_of (rp_db rp)) (map_of ?os) es"
      by (auto simp: rows_closed_def list_all_iff map_of_filter_keys split: tree_entry_kind.splits)
  qed
  ultimately show ?thesis using assms by (simp add: repo_gc_spec [OF assms] store_ok_def)
qed

text \<open>
  C14. Over a sound store garbage collection succeeds and is exact. The objects that stay are
  those some tree of some ancestor of some ref names, byte for byte, whatever chain the ref
  belongs to; everything else is collected; the tables are not touched; the store stays sound
  (no tree loses a blob); and a second pass collects nothing.
\<close>

theorem gc_exact:
  assumes "store_ok v rp"
  shows "\<exists>report rp'. repo_gc rp = (Inr report, rp') \<and> rp_db rp' = rp_db rp \<and>
    (\<forall>h. map_of (rp_objects rp') h =
       (if h \<in> live (rp_db rp) (snd ` set (list_refs (rp_db rp))) then map_of (rp_objects rp) h else None)) \<and>
    set (gr_collected report) = fst ` set (rp_objects rp) - fst ` set (rp_objects rp') \<and>
    gr_scanned report = gr_kept report + length (gr_collected report) \<and>
    store_ok v rp' \<and> (\<exists>again. repo_gc rp' = (Inr again, rp') \<and> gr_collected again = [])"
proof -
  let ?L = "live_in rp" let ?os = "filter (\<lambda>(h, b). h \<in> ?L) (rp_objects rp)"
  let ?rp = "rp\<lparr>rp_objects := ?os\<rparr>"
  have tips: "set (live_tips rp) = snd ` set (list_refs (rp_db rp))" by (simp add: live_tips_def)
  have gone: "length (rp_objects rp) = length ?os + length (filter (\<lambda>h. h \<notin> ?L) (map fst (rp_objects rp)))"
    using sum_length_filter_compl [of "\<lambda>(h, b). h \<in> ?L" "rp_objects rp"]
    by (simp add: filter_map comp_def case_prod_unfold)
  have keep: "store_ok v ?rp" using repo_gc_keeps [OF assms] by (simp add: repo_gc_spec [OF assms])
  have "live_in ?rp = ?L" by (simp add: live_tips_def)
  then have again: "repo_gc ?rp = (Inr \<lparr>gr_scanned = length ?os, gr_kept = length ?os, gr_collected = []\<rparr>, ?rp)"
    using repo_gc_spec [OF keep] by (simp add: case_prod_unfold filter_empty_conv)
  show ?thesis
    using gone keep again
    by (intro exI conjI) (rule repo_gc_spec [OF assms], auto simp: map_of_filter_keys tips [symmetric])
qed

end
