(* ===== verification/Vcs_Fsck_Props.thy ===== *)
theory Vcs_Fsck_Props
  imports Vcs_Fsck
begin

text \<open>
  What the consistency check finds: the sweep is silent exactly on an intact store and reports
  exactly the unnamed objects; on a sound store both checks are silent.
\<close>

section \<open>The owner of a commit\<close>

text \<open>The primary keys of the tables.\<close>

definition keyed :: "db \<Rightarrow> bool" where
  "keyed d \<longleftrightarrow> distinct (map fst (db_commits d)) \<and> (\<forall>(h, c) \<in> set (db_commits d). cm_hash c = h) \<and>
     distinct (map fst (db_trees d))"

definition up_edge :: "(hash \<times> hash option) list \<Rightarrow> (hash \<times> hash) set" where
  "up_edge ps = {(h, p). map_of ps h = Some (Some p)}"

lemma up_edge_at: "up_edge ps `` {h} = set_option (Option.bind (map_of ps h) (\<lambda>p. p))"
  by (cases "map_of ps h") (auto simp: up_edge_def)

lemma mark_chain_spec:
  "up_edge ps `` dom m \<subseteq> dom m \<union> set_option cursor \<Longrightarrow>
     mark_chain r ps cursor m =
       (\<lambda>h. if m h \<noteq> None then m h else if h \<in> (up_edge ps)\<^sup>* `` set_option cursor then Some r else None)"
proof (induction r ps cursor m rule: mark_chain.induct)
  case (1 r ps m)
  then show ?case by auto
next
  case (2 r ps t m)
  show ?case
  proof (cases "m t = None")
    case False
    then have "up_edge ps `` dom m \<subseteq> dom m \<union> {}" using "2.prems" by auto
    from closure_step [OF this] have "(up_edge ps)\<^sup>* `` {t} \<subseteq> dom m" using False by auto
    then show ?thesis using False by (auto simp: mark_chain.simps(2) fun_eq_iff)
  next
    case True
    let ?next = "Option.bind (map_of ps t) (\<lambda>p. p)"
    have sub: "up_edge ps `` dom (m(t \<mapsto> r)) \<subseteq> dom (m(t \<mapsto> r)) \<union> set_option ?next"
      using "2.prems" up_edge_at [of ps t] by auto
    have visit: "(up_edge ps)\<^sup>* `` {t} = insert t ((up_edge ps)\<^sup>* `` set_option ?next)"
      using closure_visit [of "up_edge ps" t "{}"] by (simp add: up_edge_at)
    have new: "\<not> m t \<noteq> None" using True by simp
    have "mark_chain r ps (Some t) m = mark_chain r ps ?next (m(t \<mapsto> r))"
      using new by (simp only: mark_chain.simps(2) if_False)
    also note "2.IH" [OF new sub]
    also have "(\<lambda>h. if (m(t \<mapsto> r)) h \<noteq> None then (m(t \<mapsto> r)) h
          else if h \<in> (up_edge ps)\<^sup>* `` set_option ?next then Some r else None) =
        (\<lambda>h. if m h \<noteq> None then m h
          else if h \<in> (up_edge ps)\<^sup>* `` set_option (Some t) then Some r else None)" (is "?l = ?r")
    proof
      fix h show "?l h = ?r h" using True by (cases "h = t") (simp_all only: visit option.set, simp_all)
    qed
    finally show ?thesis .
  qed
qed

definition owner :: "db \<Rightarrow> hash \<Rightarrow> string option" where
  "owner d h = map_option fst
     (find (\<lambda>(r, t). r \<noteq> tip_ref \<and> (t, h) \<in> (parent_edge d)\<^sup>*) (db_refs d))"

lemma parents_of_commits:
  assumes "keyed d"
  shows "up_edge (map (\<lambda>c. (cm_hash c, cm_parent c)) (list_commits d)) = parent_edge d"
proof -
  have "map_of (map (\<lambda>c. (cm_hash c, cm_parent c)) (map snd cs)) h = map_option cm_parent (map_of cs h)"
    if "\<forall>(h, c) \<in> set cs. cm_hash c = h" for cs h
    using that by (induction cs) auto
  from this [of "db_commits d"] show ?thesis
    using assms by (auto simp: up_edge_def parent_edge_def keyed_def list_commits_def commit_of_def)
qed

lemma find_append_single:
  "find P (xs @ [x]) = (case find P xs of Some y \<Rightarrow> Some y | None \<Rightarrow> if P x then Some x else None)"
  by (induction xs) auto

lemma chains_of_spec:
  assumes "keyed d"
  shows "chains_of d (list_commits d) h = owner d h"
proof -
  let ?ps = "map (\<lambda>c. (cm_hash c, cm_parent c)) (list_commits d)"
  let ?mark = "fold (\<lambda>(r, t) m. if r = tip_ref then m else mark_chain r ?ps (Some t) m)"
  let ?first = "\<lambda>rs h. map_option fst (find (\<lambda>(r, t). r \<noteq> tip_ref \<and> (t, h) \<in> (parent_edge d)\<^sup>*) rs)"
  have "?mark rs Map.empty = ?first rs" for rs
  proof (induction rs rule: rev_induct)
    case (snoc x rs)
    obtain r t where x: "x = (r, t)" by fastforce
    have dom: "dom (?first rs) = (parent_edge d)\<^sup>* `` {t. \<exists>r. (r, t) \<in> set rs \<and> r \<noteq> tip_ref}"
      by (auto simp: dom_def find_Some_iff find_None_iff split: option.splits)
    have "up_edge ?ps `` dom (?first rs) \<subseteq> dom (?first rs) \<union> set_option (Some t)"
      unfolding dom parents_of_commits [OF assms] by (auto intro: rtrancl_into_rtrancl)
    from mark_chain_spec [OF this, of r] show ?case
      unfolding x parents_of_commits [OF assms]
      by (auto simp: snoc.IH find_append_single fun_eq_iff split: option.splits)
  qed simp
  from this [of "db_refs d"] show ?thesis by (simp add: chains_of_def list_refs_def owner_def)
qed

section \<open>The verdict of the sweep\<close>

lemma get_tree_keyed: "th \<in> set (list_tree_hashes d) \<longleftrightarrow> tree_of d th \<noteq> None"
  by (simp add: list_tree_hashes_def tree_of_def map_of_eq_None_iff)

lemma entry_problems_Nil:
  "concat (map (entry_problems (list_tree_hashes d) os th) es) = [] \<longleftrightarrow>
     rows_closed (tree_of d) (map_of os) es"
  by (auto simp: entry_problems_def rows_closed_def list_all_iff object_contains_def get_tree_keyed
      split: tree_entry_kind.splits if_splits)

lemma check_trees_spec:
  "\<forall>th \<in> set ths. tree_of d th \<noteq> None \<Longrightarrow>
     \<exists>ps. check_trees v d os (list_tree_hashes d) ths = Inr (ps, blobs_in d (set ths)) \<and>
       (ps = [] \<longleftrightarrow> (\<forall>th \<in> set ths. \<forall>es. tree_of d th = Some es \<longrightarrow>
          tree_hash v es = th \<and> rows_closed (tree_of d) (map_of os) es))"
proof (induction ths)
  case Nil
  then show ?case by (simp add: blobs_in_def)
next
  case (Cons th ths)
  then obtain es ps where es: "tree_of d th = Some es"
      and ps: "check_trees v d os (list_tree_hashes d) ths = Inr (ps, blobs_in d (set ths))"
        "ps = [] \<longleftrightarrow> (\<forall>th \<in> set ths. \<forall>es. tree_of d th = Some es \<longrightarrow>
          tree_hash v es = th \<and> rows_closed (tree_of d) (map_of os) es)"
    by auto
  have get: "get_tree d th = Inr es" using es by (simp add: res_simps)
  have "hash_problems v th es = [] \<longleftrightarrow> tree_hash v es = th"
    by (simp add: hash_problems_def tree_hash_def Let_def)
  then show ?case
    using es ps by (simp add: get blobs_in_insert Un_commute entry_problems_Nil conj_ac del: concat_eq_Nil_conv)
qed

text \<open>What the sweep is silent on.\<close>

definition intact :: "vcs_env \<Rightarrow> db \<Rightarrow> objects \<Rightarrow> bool" where
  "intact v d os \<longleftrightarrow>
     (\<forall>(h, bytes) \<in> set os. ve_hash v bytes = h) \<and>
     (\<forall>h es. tree_of d h = Some es \<longrightarrow> tree_hash v es = h) \<and> trees_closed d os \<and>
     (\<forall>h c. commit_of d h = Some c \<longrightarrow> row_verifies v (owner d h) c \<and> tree_exists d (cm_root_tree c) \<and>
        (\<forall>p. cm_parent c = Some p \<longrightarrow> commit_exists d p))"

lemma verify_problems_Nil:
  "ve_parse v (cm_payload c) = Some payload \<Longrightarrow>
     verify_problems v chain c payload = [] \<longleftrightarrow> row_verifies v chain c"
  by (auto simp: verify_problems_def row_verifies_def canonical_row_def split: sum.split)

lemma commit_problems_Nil:
  "commit_problems v d hashes chain_of c = [] \<longleftrightarrow>
     row_verifies v (chain_of (cm_hash c)) c \<and> tree_exists d (cm_root_tree c) \<and>
     (\<forall>p. cm_parent c = Some p \<longrightarrow> p \<in> set hashes)"
proof (cases "ve_parse v (cm_payload c)")
  case (Some payload)
  then show ?thesis
    by (auto simp: commit_problems_def verify_problems_Nil split: option.split)
qed (auto simp: commit_problems_def row_verifies_def)

lemma keyed_commits:
  assumes "keyed d"
  shows "(\<forall>c \<in> set (list_commits d). P (cm_hash c) c) \<longleftrightarrow> (\<forall>h c. commit_of d h = Some c \<longrightarrow> P h c)"
    and "set (map cm_hash (list_commits d)) = {h. commit_exists d h}"
proof -
  have at: "commit_of d h = Some c \<longleftrightarrow> (h, c) \<in> set (db_commits d)" for h c
    using assms by (simp add: keyed_def commit_of_def)
  have row: "(h, c) \<in> set (db_commits d) \<Longrightarrow> cm_hash c = h" for h c
    using assms by (auto simp: keyed_def)
  show "(\<forall>c \<in> set (list_commits d). P (cm_hash c) c) \<longleftrightarrow> (\<forall>h c. commit_of d h = Some c \<longrightarrow> P h c)"
    unfolding at list_commits_def using row by fastforce
  show "set (map cm_hash (list_commits d)) = {h. commit_exists d h}"
  proof -
    have "set (map cm_hash (list_commits d)) = fst ` set (db_commits d)"
      unfolding list_commits_def list.set_map image_image by (rule image_cong) (auto simp: row)
    then show ?thesis by (auto simp: commit_exists_def map_of_eq_None_iff)
  qed
qed

lemma fsck_run_spec:
  assumes "keyed d"
  shows "\<exists>rep. fsck_run v d os = Inr rep \<and> (report_ok rep \<longleftrightarrow> intact v d os) \<and>
    set (fr_orphans rep) = fst ` set os - blobs_in d {h. tree_exists d h} \<and>
    fr_commits rep = length (db_commits d) \<and> fr_trees rep = length (db_trees d) \<and>
    fr_objects rep = length os"
proof -
  let ?ths = "list_tree_hashes d" let ?cs = "list_commits d"
  have ths: "set ?ths = {h. tree_exists d h}" by (auto simp: get_tree_keyed tree_exists_conv)
  then obtain ps where ps: "check_trees v d os ?ths ?ths = Inr (ps, blobs_in d {h. tree_exists d h})"
      "ps = [] \<longleftrightarrow> (\<forall>th es. tree_of d th = Some es \<longrightarrow>
         tree_hash v es = th \<and> rows_closed (tree_of d) (map_of os) es)"
    using check_trees_spec [of ?ths d v os] by (auto simp: tree_exists_conv)
  have objs: "concat (map (object_problems v) os) = [] \<longleftrightarrow> (\<forall>(h, bytes) \<in> set os. ve_hash v bytes = h)"
    by (auto simp: object_problems_def split: if_splits)
  have "concat (map (commit_problems v d (map cm_hash ?cs) (chains_of d ?cs)) ?cs) = [] \<longleftrightarrow>
      (\<forall>c \<in> set ?cs. row_verifies v (owner d (cm_hash c)) c \<and> tree_exists d (cm_root_tree c) \<and>
        (\<forall>p. cm_parent c = Some p \<longrightarrow> commit_exists d p))"
    using keyed_commits(2) [OF assms]
    by (simp add: commit_problems_Nil chains_of_spec [OF assms])
  then have commits: "concat (map (commit_problems v d (map cm_hash ?cs) (chains_of d ?cs)) ?cs) = [] \<longleftrightarrow>
      (\<forall>h c. commit_of d h = Some c \<longrightarrow> row_verifies v (owner d h) c \<and> tree_exists d (cm_root_tree c) \<and>
        (\<forall>p. cm_parent c = Some p \<longrightarrow> commit_exists d p))"
    using keyed_commits(1) [OF assms, of "\<lambda>h c. row_verifies v (owner d h) c \<and>
      tree_exists d (cm_root_tree c) \<and> (\<forall>p. cm_parent c = Some p \<longrightarrow> commit_exists d p)"] by simp
  have lengths: "length ?cs = length (db_commits d)" "length ?ths = length (db_trees d)"
    by (simp_all add: list_commits_def list_tree_hashes_def)
  let ?ps = "concat (map (commit_problems v d (map cm_hash ?cs) (chains_of d ?cs)) ?cs) @ ps @
      concat (map (object_problems v) os)"
  have "?ps = [] \<longleftrightarrow> intact v d os"
    unfolding append_is_Nil_conv commits ps(2) objs intact_def trees_closed_def by blast
  moreover have "fsck_run v d os =
      Inr \<lparr>fr_commits = length ?cs, fr_trees = length ?ths, fr_objects = length os,
        fr_orphans = filter (\<lambda>h. h \<notin> blobs_in d {h. tree_exists d h}) (map fst os), fr_problems = ?ps\<rparr>"
    unfolding fsck_run_def Let_def ps(1) by simp
  ultimately show ?thesis
    by (intro exI conjI) (assumption, simp_all only: report_ok_def fsck_report.simps lengths, auto)
qed

text \<open>
  C16. The sweep over a store never fails, it is silent exactly when the store is intact, and its
  orphans are exactly the objects no stored tree names. Intact means: every object and every tree
  sits under the digest of its content, every row points at a row or an object that exists, and
  every commit verifies on the chain of the first ref, in name order and the device ref aside,
  that has it as an ancestor, and on the device chain when there is none.
\<close>

theorem fsck_verdict:
  assumes "keyed d"
  shows "\<exists>rep. fsck_run v d os = Inr rep \<and> (report_ok rep \<longleftrightarrow> intact v d os) \<and>
    set (fr_orphans rep) = fst ` set os - blobs_in d {h. tree_exists d h} \<and>
    fr_commits rep = length (db_commits d) \<and> fr_trees rep = length (db_trees d) \<and>
    fr_objects rep = length os"
  by (rule fsck_run_spec [OF assms])

section \<open>A sound store is silent\<close>

lemma store_ok_keyed:
  assumes "store_ok v rp"
  shows "keyed (rp_db rp)"
proof -
  have "commits_ok (rp_db rp)" "tree_rows_ok v (rp_db rp)" using assms by (simp_all add: store_ok_def)
  moreover then have dist: "distinct (map fst (db_commits (rp_db rp)))"
    by (auto simp: commits_ok_def dest: parents_first_distinct)
  moreover have "\<forall>(h, c) \<in> set (db_commits (rp_db rp)). cm_hash c = h"
    using commits_hash [OF calculation(1)] dist by (auto simp: commit_of_def)
  ultimately show ?thesis by (simp add: keyed_def tree_rows_ok_def)
qed

lemma owner_verifies:
  assumes refs: "refs_ok v d" and reached: "all_reached d" and c: "commit_of d h = Some c"
  shows "row_verifies v (owner d h) c"
proof -
  have verifies: "row_verifies v (chain_id_of r) c" if "(r, t) \<in> set (db_refs d)" "(t, h) \<in> (parent_edge d)\<^sup>*" for r t
    using refs that c by (auto simp: refs_ok_def)
  show ?thesis
  proof (cases "find (\<lambda>(r, t). r \<noteq> tip_ref \<and> (t, h) \<in> (parent_edge d)\<^sup>*) (db_refs d)")
    case None
    have "commit_exists d h" using c by (simp add: commit_exists_conv)
    then obtain r t where rt: "(r, t) \<in> set (db_refs d)" "(t, h) \<in> (parent_edge d)\<^sup>*"
      using reached unfolding all_reached_def by blast
    then have "r = tip_ref" using None by (auto simp: find_None_iff)
    then show ?thesis using verifies [OF rt] None by (simp add: owner_def chain_id_of_def)
  next
    case (Some rt)
    obtain r t where rt: "rt = (r, t)" by fastforce
    have "rt \<in> set (db_refs d)" "r \<noteq> tip_ref" "(t, h) \<in> (parent_edge d)\<^sup>*"
      using find_in_set [OF Some] by (auto simp: rt)
    then show ?thesis using verifies [of r t] Some by (simp add: owner_def chain_id_of_def rt)
  qed
qed

lemma store_ok_intact:
  assumes "store_ok v rp"
  shows "intact v (rp_db rp) (rp_objects rp)"
proof -
  let ?d = "rp_db rp"
  have ok: "objects_ok v (rp_objects rp)" "tree_rows_ok v ?d" "trees_closed ?d (rp_objects rp)"
      "commits_ok ?d" "refs_ok v ?d" "all_reached ?d"
    using assms by (simp_all add: store_ok_def)
  have "tree_hash v es = h" if "tree_of ?d h = Some es" for h es
    using that tree_rows_at(3) [OF ok(2)] by (auto simp: tree_of_def)
  moreover have "tree_exists ?d (cm_root_tree c)" if "commit_of ?d h = Some c" for h c
    using that ok(4) by (simp add: commits_ok_def)
  moreover have "commit_exists ?d p" if "commit_of ?d h = Some c" "cm_parent c = Some p" for h c p
    using that parent_exists [OF ok(4), of h p] by (auto simp: parent_edge_def)
  ultimately show ?thesis
    using ok(1,3) owner_verifies [OF ok(5,6)] by (auto simp: intact_def objects_ok_def)
qed

section \<open>The check of one chain\<close>

lemma sweep_entries_clean:
  "\<forall>b \<in> set (blob_targets es). object_contains b os \<Longrightarrow> finite (tw_blobs w) \<Longrightarrow>
     tw_objects w = card (tw_blobs w) \<Longrightarrow>
     tw_blobs (sweep_entries os th es w) = tw_blobs w \<union> set (blob_targets es) \<and>
     tw_objects (sweep_entries os th es w) = card (tw_blobs (sweep_entries os th es w)) \<and>
     tw_problems (sweep_entries os th es w) = tw_problems w \<and>
     tw_trees (sweep_entries os th es w) = tw_trees w"
  by (induction os th es w rule: sweep_entries.induct)
    (auto simp: blob_targets_def split: tree_entry_kind.splits if_splits)

definition sweep_inv :: "db \<Rightarrow> hash list \<Rightarrow> tree_sweep \<Rightarrow> bool" where
  "sweep_inv d stack w \<longleftrightarrow>
     (\<forall>h \<in> set stack. tree_of d h \<noteq> None) \<and> tree_edge (tree_of d) `` tw_seen w \<subseteq> tw_seen w \<union> set stack \<and>
     finite (tw_seen w) \<and> tw_trees w = card (tw_seen w) \<and>
     tw_blobs w = blobs_in d (tw_seen w) \<and> finite (tw_blobs w) \<and> tw_objects w = card (tw_blobs w)"

lemma chain_trees_clean:
  "\<forall>h es. tree_of d h = Some es \<longrightarrow> tree_hash v es = h \<Longrightarrow> trees_closed d os \<Longrightarrow> sweep_inv d stack w \<Longrightarrow>
     sweep_inv d [] (chain_trees v d os stack w) \<and>
     tw_seen (chain_trees v d os stack w) = tw_seen w \<union> tree_closure d (set stack) \<and>
     tw_problems (chain_trees v d os stack w) = tw_problems w"
proof (induction v d os stack w rule: chain_trees.induct)
  case (1 v d os w)
  then show ?case by (simp add: tree_closure_def)
next
  case (2 v d os th stack w)
  show ?case
  proof (cases "th \<in> tw_seen w")
    case True
    then have inv: "sweep_inv d stack w" using "2.prems"(3) by (auto simp: sweep_inv_def)
    then have "tree_edge (tree_of d) `` tw_seen w \<subseteq> tw_seen w \<union> set stack" by (simp add: sweep_inv_def)
    from closure_step [OF this] have "tree_closure d {th} \<subseteq> tw_seen w \<union> tree_closure d (set stack)"
      using True by (auto simp: tree_closure_def)
    then have "tw_seen w \<union> tree_closure d (set (th # stack)) = tw_seen w \<union> tree_closure d (set stack)"
      using tree_closure_insert [of d th "set stack"] by auto
    then show ?thesis using "2.IH"(1) [OF True "2.prems"(1,2) inv] True by (simp add: chain_trees.simps(2))
  next
    case False
    obtain es where es: "tree_of d th = Some es" using "2.prems"(3) by (auto simp: sweep_inv_def)
    let ?w1 = "w\<lparr>tw_seen := insert th (tw_seen w), tw_trees := tw_trees w + 1\<rparr>"
    let ?w2 = "sweep_entries os th es (?w1\<lparr>tw_problems := tw_problems ?w1 @ hash_problems v th es\<rparr>)"
    have get: "get_tree d th = Inr es" using es by (simp add: res_simps)
    have closed: "rows_closed (tree_of d) (map_of os) es" using "2.prems"(2) es by (simp add: trees_closed_def)
    have "tree_hash v es = th" using "2.prems"(1) es by simp
    then have hash: "hash_problems v th es = []" by (simp add: hash_problems_def tree_hash_def)
    have "\<forall>b \<in> set (blob_targets es). object_contains b os"
      using closed by (auto simp: blob_targets_def rows_closed_def list_all_iff object_contains_def)
    from sweep_entries_clean [OF this, of "?w1\<lparr>tw_problems := tw_problems ?w1 @ hash_problems v th es\<rparr>" th]
    have w2: "tw_blobs ?w2 = tw_blobs w \<union> set (blob_targets es)" "tw_objects ?w2 = card (tw_blobs ?w2)"
        "tw_problems ?w2 = tw_problems w" "tw_trees ?w2 = tw_trees w + 1"
        "tw_seen ?w2 = insert th (tw_seen w)"
      using "2.prems"(3) hash by (auto simp: sweep_inv_def)
    have targets: "\<forall>h \<in> set (tree_targets es). tree_of d h \<noteq> None"
      using closed by (auto simp: tree_targets_def rows_closed_def list_all_iff)
    have inv: "sweep_inv d (rev (tree_targets es) @ stack) ?w2"
      using "2.prems"(3) w2 False targets tree_edge_targets [OF es]
      by (auto simp: sweep_inv_def blobs_in_insert [OF es])
    have "tree_closure d (set (th # stack)) = insert th (tree_closure d (set (rev (tree_targets es) @ stack)))"
      unfolding tree_closure_def using closure_visit [of "tree_edge (tree_of d)" th "set stack"]
      by (simp add: tree_edge_targets [OF es])
    moreover have "chain_trees v d os (th # stack) w = chain_trees v d os (rev (tree_targets es) @ stack) ?w2"
      using False get by (simp add: chain_trees.simps(2))
    ultimately show ?thesis
      using "2.IH"(3) [OF False refl get "2.prems"(1,2) inv] w2 by (simp add: Un_commute)
  qed
qed

text \<open>The commits above a tip that all verify on the chain.\<close>

definition sound_line :: "vcs_env \<Rightarrow> db \<Rightarrow> string option \<Rightarrow> hash set \<Rightarrow> bool" where
  "sound_line v d chain X \<longleftrightarrow>
     (\<forall>h \<in> X. \<exists>c. commit_of d h = Some c \<and> row_verifies v chain c \<and> set_option (cm_parent c) \<subseteq> X)"

definition walk_inv :: "db \<Rightarrow> hash set \<Rightarrow> hash list \<Rightarrow> chain_walk \<Rightarrow> bool" where
  "walk_inv d X stack w \<longleftrightarrow>
     set stack \<subseteq> X \<and> parent_edge d `` cw_seen w \<subseteq> cw_seen w \<union> set stack \<and> finite (cw_seen w) \<and>
     cw_commits w = card (cw_seen w) \<and> set (cw_roots w) = roots_of d (cw_seen w)"

lemma chain_commits_clean:
  "sound_line v d chain X \<Longrightarrow> walk_inv d X stack w \<Longrightarrow>
     walk_inv d X [] (chain_commits v d chain stack w) \<and>
     cw_seen (chain_commits v d chain stack w) = cw_seen w \<union> commit_closure d (set stack) \<and>
     cw_problems (chain_commits v d chain stack w) = cw_problems w"
proof (induction v d chain stack w rule: chain_commits.induct)
  case (1 v d chain w)
  then show ?case by (simp add: commit_closure_def)
next
  case (2 v d chain h stack w)
  show ?case
  proof (cases "h \<in> cw_seen w")
    case True
    then have inv: "walk_inv d X stack w" using "2.prems"(2) by (auto simp: walk_inv_def)
    then have "parent_edge d `` cw_seen w \<subseteq> cw_seen w \<union> set stack" by (simp add: walk_inv_def)
    from closure_step [OF this] have "commit_closure d {h} \<subseteq> cw_seen w \<union> commit_closure d (set stack)"
      using True by (auto simp: commit_closure_def)
    then have "cw_seen w \<union> commit_closure d (set (h # stack)) = cw_seen w \<union> commit_closure d (set stack)"
      using closures_Un(1) [of d "{h}" "set stack"] by auto
    then show ?thesis using "2.IH"(1) [OF True "2.prems"(1) inv] True by (simp add: chain_commits.simps(2))
  next
    case False
    obtain c where c: "commit_of d h = Some c" "row_verifies v chain c" "set_option (cm_parent c) \<subseteq> X"
      using "2.prems" by (auto simp: sound_line_def walk_inv_def)
    obtain payload where payload: "ve_parse v (cm_payload c) = Some payload"
      using c(2) by (auto simp: row_verifies_def split: option.splits)
    let ?w1 = "w\<lparr>cw_seen := insert h (cw_seen w), cw_commits := cw_commits w + 1\<rparr>"
    let ?w2 = "?w1\<lparr>cw_roots := cm_root_tree c # cw_roots ?w1,
        cw_problems := cw_problems ?w1 @ verify_problems v chain c payload\<rparr>"
    let ?stack = "case cm_parent c of Some p \<Rightarrow> p # stack | None \<Rightarrow> stack"
    have get: "get_commit d h = Inr c" using c by (simp add: res_simps)
    have clean: "verify_problems v chain c payload = []" using verify_problems_Nil [OF payload] c(2) by simp
    have inv: "walk_inv d X ?stack ?w2"
      using "2.prems"(2) False c(3) parent_edge_at [OF c(1)] roots_of_insert [OF c(1)]
      by (auto simp: walk_inv_def Image_def split: option.splits)
    have "chain_commits v d chain (h # stack) w = chain_commits v d chain ?stack ?w2"
      using False get payload by (simp add: chain_commits.simps(2))
    then show ?thesis
      using "2.IH"(4) [OF False refl get payload "2.prems"(1) inv] commit_closure_visit [OF c(1)] clean by simp
  qed
qed

lemma fsck_chain_spec:
  assumes "store_ok v rp" "tip_of rp r = Some t"
  shows "report_ok (fsck_chain v rp r) \<and>
    fr_commits (fsck_chain v rp r) = card (commit_closure (rp_db rp) {t}) \<and>
    fr_trees (fsck_chain v rp r) =
      card (tree_closure (rp_db rp) (roots_of (rp_db rp) (commit_closure (rp_db rp) {t}))) \<and>
    fr_objects (fsck_chain v rp r) = card (live (rp_db rp) {t}) \<and>
    (\<exists>rep. fsck_run v (rp_db rp) (rp_objects rp) = Inr rep \<and> report_ok rep)"
proof -
  let ?d = "rp_db rp" let ?C = "commit_closure ?d {t}"
  have ok: "trees_closed ?d (rp_objects rp)" "commits_ok ?d" "refs_ok v ?d"
    using assms(1) by (simp_all add: store_ok_def)
  have int: "intact v ?d (rp_objects rp)" by (rule store_ok_intact [OF assms(1)])
  have ref: "(r, t) \<in> set (db_refs ?d)" using assms(2) by (auto simp: tip_of_def try_get_ref_def map_of_SomeD)
  have exists: "commit_exists ?d h" if "h \<in> ?C" for h
    using that ref ok(3) ancestor_exists [OF ok(2), of t h] by (auto simp: commit_closure_def refs_ok_def)
  have line: "sound_line v ?d (chain_id_of r) ?C"
    unfolding sound_line_def
  proof
    fix h assume h: "h \<in> ?C"
    then obtain c where c: "commit_of ?d h = Some c" using exists by (auto simp: commit_exists_conv)
    have "row_verifies v (chain_id_of r) c"
      using ok(3) ref h c by (auto simp: refs_ok_def commit_closure_def)
    moreover have "set_option (cm_parent c) \<subseteq> ?C"
      using h c by (auto simp: commit_closure_def parent_edge_def intro: rtrancl_into_rtrancl)
    ultimately show "\<exists>c. commit_of ?d h = Some c \<and> row_verifies v (chain_id_of r) c \<and> set_option (cm_parent c) \<subseteq> ?C"
      using c by blast
  qed
  let ?w = "\<lparr>cw_seen = {}, cw_commits = 0, cw_roots = [], cw_problems = []\<rparr>"
  let ?cw = "chain_commits v ?d (chain_id_of r) [t] ?w"
  have "walk_inv ?d ?C [t] ?w" by (auto simp: walk_inv_def commit_closure_def roots_of_def)
  from chain_commits_clean [OF line this]
  have cw: "cw_commits ?cw = card ?C" "set (cw_roots ?cw) = roots_of ?d ?C" "cw_problems ?cw = []"
    by (simp_all add: walk_inv_def)
  let ?t = "\<lparr>tw_seen = {}, tw_trees = 0, tw_blobs = {}, tw_objects = 0, tw_problems = cw_problems ?cw\<rparr>"
  let ?tw = "chain_trees v ?d (rp_objects rp) (cw_roots ?cw) ?t"
  have hashes: "\<forall>h es. tree_of ?d h = Some es \<longrightarrow> tree_hash v es = h" using int by (simp add: intact_def)
  have "\<forall>h \<in> roots_of ?d ?C. tree_of ?d h \<noteq> None"
    using ok(2) by (auto simp: roots_of_def commits_ok_def tree_exists_conv)
  then have "sweep_inv ?d (cw_roots ?cw) ?t" by (simp add: sweep_inv_def cw blobs_in_def)
  from chain_trees_clean [OF hashes ok(1) this]
  have tw: "tw_trees ?tw = card (tree_closure ?d (roots_of ?d ?C))" "tw_objects ?tw = card (live ?d {t})"
      "tw_problems ?tw = []"
    by (simp_all add: sweep_inv_def cw live_def)
  have "\<exists>rep. fsck_run v ?d (rp_objects rp) = Inr rep \<and> report_ok rep"
    using fsck_run_spec [OF store_ok_keyed [OF assms(1)], of v "rp_objects rp"] int by blast
  moreover have "fsck_chain v rp r =
      \<lparr>fr_commits = cw_commits ?cw, fr_trees = tw_trees ?tw, fr_objects = tw_objects ?tw, fr_orphans = [],
        fr_problems = tw_problems ?tw\<rparr>"
    by (simp add: fsck_chain_def run_chain_def assms(2) Let_def)
  ultimately show ?thesis by (simp only: report_ok_def fsck_report.simps cw(1) tw simp_thms)
qed

lemma fsck_chain_clean: "store_ok v rp \<Longrightarrow> tip_of rp r = Some t \<Longrightarrow> report_ok (fsck_chain v rp r)"
  using fsck_chain_spec by blast

text \<open>
  Over a sound store the check of a chain from the tip of its ref is silent, and it has looked
  at exactly what the chain needs: every ancestor commit once, every tree below their roots once,
  and every blob those trees name once. The sweep over the whole store is silent too.
\<close>

lemma fsck_chain_covers:
  assumes "store_ok v rp" "tip_of rp r = Some t"
  shows "report_ok (fsck_chain v rp r) \<and>
    fr_commits (fsck_chain v rp r) = card (commit_closure (rp_db rp) {t}) \<and>
    fr_trees (fsck_chain v rp r) =
      card (tree_closure (rp_db rp) (roots_of (rp_db rp) (commit_closure (rp_db rp) {t}))) \<and>
    fr_objects (fsck_chain v rp r) = card (live (rp_db rp) {t}) \<and>
    (\<exists>rep. fsck_run v (rp_db rp) (rp_objects rp) = Inr rep \<and> report_ok rep)"
  by (rule fsck_chain_spec [OF assms])

end
