(* ===== verification/Vcs_Runs.thy ===== *)
theory Vcs_Runs
  imports Vcs_Fsck_Props
begin

text \<open>
  The store as a machine: commits to any ref, re-authored trees and garbage collections in any
  order keep it sound. The log of a ref, its termination, and what one commit does to it.
\<close>

section \<open>Runs\<close>

text \<open>
  A session that writes: its environment does not change. A snapshot is a tree of ordered maps; a
  re-authored root is a tree the store holds.
\<close>

inductive repo_step :: "vcs_env \<times> repo \<Rightarrow> vcs_env \<times> repo \<Rightarrow> bool" where
  commit_step: "tree_ok (ws_root s) \<Longrightarrow>
     repo_step (v, rp) (v, snd (snd (commit_snapshot_to_with v r s it now policy rp)))"
| reauthor_step: "tree_exists (rp_db rp) root \<Longrightarrow>
     repo_step (v, rp) (v, snd (snd (commit_over_tree v r root it now rp)))"
| gc_step: "repo_step (v, rp) (v, snd (repo_gc rp))"

inductive_cases repo_stepE: "repo_step s s'"

fun session_ok :: "vcs_env \<times> repo \<Rightarrow> bool" where
  "session_ok (v, rp) \<longleftrightarrow> addressing v \<and> signing v \<and> store_ok v rp"

lemma repo_step_keeps: "repo_step s s' \<Longrightarrow> session_ok s \<Longrightarrow> session_ok s'"
  by (erule repo_stepE) (auto intro: commit_snapshot_keeps commit_over_tree_keeps repo_gc_keeps)

interpretation store: machine repo_step session_ok
  by unfold_locales (rule repo_step_keeps)

lemma empty_store_ok: "store_ok v \<lparr>rp_db = db_empty, rp_objects = []\<rparr>"
  by (simp add: store_ok_def db_empty_def objects_ok_def tree_rows_ok_def trees_closed_def tree_of_def
      commits_ok_def commit_of_def refs_ok_def all_reached_def commit_exists_def tree_exists_def)

text \<open>The first commit of a fresh repository is a commit to the device ref of an empty store.\<close>

lemma create_fresh_commit:
  "snd (create_fresh v staging now) =
     snd (snd (commit_snapshot_to_with v tip_ref staging (intent_init ''garden initialized'') now Skip
       \<lparr>rp_db = db_empty, rp_objects = []\<rparr>))"
  by (auto simp: create_fresh_def commit_snapshot_to_with_def tip_of_def try_get_ref_def db_empty_def
      split: sum.split prod.split)

lemma store_run_sound:
  assumes "addressing v" "signing v" "tree_ok (ws_root staging)"
    and "repo_step\<^sup>*\<^sup>* (v, snd (create_fresh v staging now)) (v, rp)"
  shows "store_ok v rp"
  using store.run_good [OF assms(4)] assms(1-3) empty_store_ok
  by (simp add: create_fresh_commit commit_snapshot_keeps)

text \<open>
  C6. Whatever a session does to a fresh garden, its store passes the consistency checks at every
  moment: after any sequence of commits of any snapshots to any refs, re-authored trees and
  garbage collections, failed ones included, the sweep over the whole store and the check of
  every chain report no problem.
\<close>

theorem store_always_passes_fsck:
  assumes "addressing v" "signing v" "tree_ok (ws_root staging)"
    and "repo_step\<^sup>*\<^sup>* (v, snd (create_fresh v staging now)) (v, rp)"
  shows "(\<exists>rep. fsck_run v (rp_db rp) (rp_objects rp) = Inr rep \<and> report_ok rep) \<and>
    (\<forall>r. report_ok (fsck_chain v rp r))"
proof -
  have ok: "store_ok v rp" by (rule store_run_sound [OF assms])
  have "report_ok (fsck_chain v rp r)" for r
  proof (cases "tip_of rp r")
    case None
    then show ?thesis by (simp add: fsck_chain_def run_chain_def empty_report_def report_ok_def)
  qed (rule fsck_chain_clean [OF ok])
  then show ?thesis
    using fsck_run_spec [OF store_ok_keyed [OF ok], of v "rp_objects rp"] store_ok_intact [OF ok] by blast
qed

section \<open>The log\<close>

text \<open>The history of a commit: its row and those of its parents, down to a root.\<close>

fun history :: "db \<Rightarrow> hash \<Rightarrow> commit_row list \<Rightarrow> bool" where
  "history d h [] \<longleftrightarrow> False"
| "history d h (c # rest) \<longleftrightarrow>
     commit_of d h = Some c \<and> (case cm_parent c of None \<Rightarrow> rest = [] | Some p \<Rightarrow> history d p rest)"

lemma log_collect_history: "history d h rows \<Longrightarrow> log_collect d h = Some (Inr rows)"
proof (induction rows arbitrary: h)
  case (Cons c rest)
  then have get: "get_commit d h = Inr c" by (simp add: res_simps)
  show ?case
  proof (cases "cm_parent c")
    case (Some p)
    then have "log_collect d p = Some (Inr rest)" using Cons by simp
    then show ?thesis using Some get by (simp add: log_collect.simps [of d h])
  qed (use get Cons.prems in \<open>simp add: log_collect.simps [of d h]\<close>)
qed simp

lemma history_before:
  assumes "parents_first {} (db_commits d)"
  shows "db_commits d = xs @ (h, c) # ys \<Longrightarrow>
    \<exists>rows. history d h rows \<and> distinct (map cm_hash rows) \<and> cm_hash ` set rows \<subseteq> insert h (fst ` set xs)"
proof (induction "length xs" arbitrary: xs h c ys rule: less_induct)
  case less
  have first: "parents_first (fst ` set xs) ((h, c) # ys)"
    using assms less.prems by (simp add: parents_first_append)
  have at: "commit_of d h = Some c"
    unfolding commit_of_def
    using parents_first_distinct [OF assms] less.prems by (intro map_of_is_SomeI) auto
  show ?case
  proof (cases "cm_parent c")
    case None
    then have "history d h [c]" using at by simp
    then show ?thesis using first by (intro exI [of _ "[c]"]) simp
  next
    case (Some p)
    then have "p \<in> fst ` set xs" using first by simp
    then obtain pc where "(p, pc) \<in> set xs" by auto
    then obtain us vs where xs: "xs = us @ (p, pc) # vs" by (meson split_list)
    obtain rows where rows: "history d p rows" "distinct (map cm_hash rows)"
        "cm_hash ` set rows \<subseteq> insert p (fst ` set us)"
      using less.hyps [of us p pc "vs @ (h, c) # ys"] less.prems xs by auto
    have "history d h (c # rows)" using at Some rows(1) by simp
    moreover have "cm_hash ` set rows \<subseteq> fst ` set xs" using rows(3) xs by auto
    moreover have "cm_hash c = h" "h \<notin> fst ` set xs" using first by auto
    ultimately show ?thesis using rows(2) by (intro exI [of _ "c # rows"]) auto
  qed
qed

lemma history_exists:
  assumes "commits_ok d" "commit_exists d h"
  obtains rows where "history d h rows" "distinct (map cm_hash rows)"
proof -
  obtain c where "(h, c) \<in> set (db_commits d)" using assms(2) by (auto simp: commit_exists_def dest: map_of_SomeD)
  then obtain xs ys where "db_commits d = xs @ (h, c) # ys" by (meson split_list)
  with history_before [of d xs h c ys] assms(1) show ?thesis using that by (auto simp: commits_ok_def)
qed

lemma history_closure: "commits_ok d \<Longrightarrow> history d h rows \<Longrightarrow> cm_hash ` set rows = commit_closure d {h}"
proof (induction rows arbitrary: h)
  case (Cons c rest)
  then have c: "commit_of d h = Some c" "cm_hash c = h" using commits_hash by auto
  note visit = commit_closure_visit [OF c(1), of "[]"]
  show ?case
  proof (cases "cm_parent c")
    case None
    then show ?thesis using Cons.prems c visit by (simp add: commit_closure_def)
  next
    case (Some p)
    then show ?thesis using Cons.IH [of p] Cons.prems c visit by simp
  qed
qed simp

text \<open>
  C22. The log of a ref always ends on a sound store: following the parents from the tip returns,
  and returns exactly the ancestors of the tip, each once and each before its parent.
\<close>

theorem log_terminates:
  assumes "store_ok v rp" "tip_of rp r = Some t"
  shows "\<exists>rows. log_collect (rp_db rp) t = Some (Inr rows) \<and> history (rp_db rp) t rows \<and>
    distinct (map cm_hash rows) \<and> cm_hash ` set rows = commit_closure (rp_db rp) {t}"
proof -
  have ok: "commits_ok (rp_db rp)" "refs_ok v (rp_db rp)" using assms(1) by (simp_all add: store_ok_def)
  have "commit_exists (rp_db rp) t"
    using assms(2) ok(2) by (auto simp: tip_of_def try_get_ref_def refs_ok_def dest!: map_of_SomeD)
  then obtain rows where "history (rp_db rp) t rows" "distinct (map cm_hash rows)"
    using history_exists [OF ok(1)] by blast
  then show ?thesis using log_collect_history history_closure [OF ok(1)] by blast
qed

section \<open>One commit\<close>

lemma history_unique: "history d h rows \<Longrightarrow> history d h rows' \<Longrightarrow> rows = rows'"
  using log_collect_history [of d h rows] log_collect_history [of d h rows'] by simp

lemma history_grow:
  assumes "\<And>h c. commit_of d h = Some c \<Longrightarrow> commit_of d' h = Some c"
  shows "history d h rows \<Longrightarrow> history d' h rows"
  using assms by (induction rows arbitrary: h) (auto split: option.splits)

text \<open>What a transaction that lands a commit over a root leaves in the tables.\<close>

definition commit_landed ::
  "vcs_env \<Rightarrow> string \<Rightarrow> hash \<Rightarrow> intent \<Rightarrow> 64 word \<Rightarrow> repo \<Rightarrow> hash \<Rightarrow> repo \<Rightarrow> bool" where
  "commit_landed v r root it now rp h rp' \<longleftrightarrow>
     tip_of rp' r = Some h \<and> (\<forall>q. q \<noteq> r \<longrightarrow> tip_of rp' q = tip_of rp q) \<and>
     (\<exists>row. cm_hash row = h \<and> cm_intent row = fst it \<and> cm_timestamp row = now \<and>
        cm_root_tree row = root \<and> cm_parent row = tip_of rp r \<and> \<not> commit_exists (rp_db rp) h \<and>
        (\<forall>k. commit_of (rp_db rp') k = (if k = h then Some row else commit_of (rp_db rp) k)))"

lemma land_commit_landed:
  assumes "land_commit v d r (try_get_ref d r) ts root it now = (Inr out, d')"
  shows "co_committed out \<and> commit_landed v r root it now \<lparr>rp_db = d, rp_objects = os\<rparr> (co_hash out)
    \<lparr>rp_db = d', rp_objects = os'\<rparr>"
  using assms
proof (cases rule: land_commit_cases)
  case (landed row)
  let ?d1 = "fold (\<lambda>(h, es). put_tree h es) ts d"
  have row: "cm_parent row = try_get_ref d r" "cm_root_tree row = root" "cm_intent row = fst it"
      "cm_timestamp row = now"
    using landed(1) by (auto simp: author_commit_row_def Let_def res_simps)
  have same: "commit_of ?d1 = commit_of d" "commit_exists ?d1 = commit_exists d"
    by (simp_all add: commit_of_def [abs_def] commit_exists_def [abs_def])
  have refs: "try_get_ref d' q = (if q = r then Some (cm_hash row) else try_get_ref d q)" for q
    by (simp add: landed(5) with_commit_def try_get_ref_def)
  have "commit_of d' k = (if k = cm_hash row then Some row else commit_of d k)" for k
    by (simp add: landed(5) with_commit_of(1) [OF landed(2)] same)
  then have "commit_landed v r root it now \<lparr>rp_db = d, rp_objects = os\<rparr> (cm_hash row)
      \<lparr>rp_db = d', rp_objects = os'\<rparr>"
    unfolding commit_landed_def using row landed(2) same refs
    by (intro conjI exI [of _ row]) (simp_all add: tip_of_def)
  then show ?thesis using landed(4) by simp
qed simp

lemma landed_log:
  assumes "commits_ok (rp_db rp)" "refs_ok v (rp_db rp)" "commit_landed v r root it now rp h rp'"
  shows "\<exists>row. cm_hash row = h \<and> cm_intent row = fst it \<and> cm_timestamp row = now \<and> cm_root_tree row = root \<and>
    (\<exists>old. (case tip_of rp r of None \<Rightarrow> old = [] | Some t \<Rightarrow> log_collect (rp_db rp) t = Some (Inr old)) \<and>
       log_collect (rp_db rp') h = Some (Inr (row # old)))" (is ?extended)
    and "\<And>q t. q \<noteq> r \<Longrightarrow> tip_of rp q = Some t \<Longrightarrow> tip_of rp' q = Some t \<and>
      log_collect (rp_db rp') t = log_collect (rp_db rp) t"
proof -
  obtain row where row: "cm_hash row = h" "cm_intent row = fst it" "cm_timestamp row = now"
      "cm_root_tree row = root" "cm_parent row = tip_of rp r" "\<not> commit_exists (rp_db rp) h"
      "\<And>k. commit_of (rp_db rp') k = (if k = h then Some row else commit_of (rp_db rp) k)"
    using assms(3) unfolding commit_landed_def by blast
  have grow: "history (rp_db rp) k rows \<Longrightarrow> history (rp_db rp') k rows" for k rows
    by (rule history_grow) (use row(6) in \<open>auto simp: row(7) commit_exists_conv\<close>)
  have known: "\<exists>old. history (rp_db rp) t old" if "tip_of rp q = Some t" for q t
  proof -
    have "commit_exists (rp_db rp) t"
      using that assms(2) by (auto simp: tip_of_def try_get_ref_def refs_ok_def dest!: map_of_SomeD)
    then show ?thesis using history_exists [OF assms(1)] by blast
  qed
  have at: "commit_of (rp_db rp') h = Some row" by (simp add: row(7))
  have "\<exists>old. (case tip_of rp r of None \<Rightarrow> old = [] | Some t \<Rightarrow> log_collect (rp_db rp) t = Some (Inr old)) \<and>
       log_collect (rp_db rp') h = Some (Inr (row # old))"
  proof (cases "tip_of rp r")
    case None
    then have "history (rp_db rp') h [row]" using at row(5) by simp
    then show ?thesis using None log_collect_history by auto
  next
    case (Some t)
    then obtain old where old: "history (rp_db rp) t old" using known by blast
    then have "history (rp_db rp') h (row # old)" using at row(5) Some grow by simp
    then show ?thesis using Some old log_collect_history by auto
  qed
  then show ?extended using row by blast
  show "tip_of rp' q = Some t \<and> log_collect (rp_db rp') t = log_collect (rp_db rp) t"
    if "q \<noteq> r" "tip_of rp q = Some t" for q t
    using known [OF that(2)] grow log_collect_history that assms(3) unfolding commit_landed_def by metis
qed

text \<open>Why a commit is refused on a sound store.\<close>

definition refusal :: "vcs_error \<Rightarrow> bool" where
  "refusal e \<longleftrightarrow> (\<exists>m. e = Vault_Error m) \<or> e = Json_Error \<or> e = Store (Constraint ''UNIQUE commits.hash'')"

lemma build_entries_refusal: "build_entries v r ch pre ts os = (Inl e, os') \<Longrightarrow> refusal e"
proof (induction ch arbitrary: pre ts os os' rule: children_induct)
  case (File n m c xs)
  then show ?case by (auto simp: refusal_def split: sum.splits prod.splits)
next
  case (Dir n sub xs)
  then show ?case by (auto split: sum.splits prod.splits)
qed simp

lemma build_with_refusal: "build_with v r ch os = (Inl e, os') \<Longrightarrow> refusal e"
  by (auto simp: build_with_def split: sum.splits prod.splits dest: build_entries_refusal)

lemma land_commit_refusal:
  assumes "land_commit v d r (try_get_ref d r) ts root it now = (Inl e, d')"
    and known: "\<And>t. try_get_ref d r = Some t \<Longrightarrow> commit_exists d t"
  shows "refusal e"
proof (cases "author_commit_row v r (try_get_ref d r) root it now")
  case (Inl e')
  then have "e' = Json_Error" by (auto simp: author_commit_row_def Let_def ok_or_def split: option.splits)
  then show ?thesis using assms(1) Inl by (auto simp: land_commit_def refusal_def)
next
  case (Inr row)
  let ?d1 = "fold (\<lambda>(h, es). put_tree h es) ts d"
  have parent: "cm_parent row = try_get_ref d r" using Inr by (auto simp: author_commit_row_def Let_def res_simps)
  have same: "commit_exists ?d1 = commit_exists d" "try_get_ref ?d1 = try_get_ref d"
    by (simp_all add: commit_exists_def [abs_def] try_get_ref_def [abs_def])
  show ?thesis
  proof (cases "commit_exists d (cm_hash row)")
    case True
    then show ?thesis using assms(1) Inr same
      by (auto simp: land_commit_def with_tx_def put_commit_def refusal_def)
  next
    case False
    have "put_commit row ?d1 = Inr (?d1\<lparr>db_commits := db_commits ?d1 @ [(cm_hash row, row)]\<rparr>)"
      using False same parent known by (auto simp: put_commit_def split: option.split)
    then have "\<exists>out d''. land_commit v d r (try_get_ref d r) ts root it now = (Inr out, d'')"
      using Inr same by (simp add: land_commit_def with_tx_def set_ref_cas_def try_get_ref_def)
    then show ?thesis using assms(1) by simp
  qed
qed

text \<open>
  C17. A commit of a snapshot to a ref has three outcomes and no other. It is refused, because a
  blob does not seal, the payload does not read back, or a commit with the same digest exists, and
  for no other reason: the tables stay as they were and nobody is notified. It is skipped, only under the policy that skips: the
  tables stay, and the tip of the ref already has the root of the snapshot. It lands: the log of
  the ref is the new row, with the intent and the time asked for and the root of the snapshot, in
  front of the old log; the log and the tip of every other ref are unchanged; listeners hear of
  exactly this ref and hash; and under the skipping policy the old tip had another root.
\<close>

theorem commit_outcomes:
  assumes "store_ok v rp" "commit_snapshot_to_with v r s it now policy rp = (res, events, rp')"
  shows "case res of
      Inl e \<Rightarrow> refusal e \<and> rp_db rp' = rp_db rp \<and> events = []
    | Inr out \<Rightarrow>
        (\<exists>root ts os. build_with v r (ws_root s) (rp_objects rp) = (Inr (root, ts), os) \<and>
          (if co_committed out
           then tip_of rp' r = Some (co_hash out) \<and>
             (\<exists>row. cm_hash row = co_hash out \<and> cm_intent row = fst it \<and> cm_timestamp row = now \<and>
                cm_root_tree row = root \<and>
                (\<exists>old. (case tip_of rp r of None \<Rightarrow> old = []
                   | Some t \<Rightarrow> log_collect (rp_db rp) t = Some (Inr old)) \<and>
                   log_collect (rp_db rp') (co_hash out) = Some (Inr (row # old)))) \<and>
             (\<forall>q t. q \<noteq> r \<longrightarrow> tip_of rp q = Some t \<longrightarrow>
                tip_of rp' q = Some t \<and> log_collect (rp_db rp') t = log_collect (rp_db rp) t) \<and>
             events = [(r, co_hash out, ws_overlay_generation s)] \<and>
             (\<forall>t c. policy = Skip \<longrightarrow> tip_of rp r = Some t \<longrightarrow> commit_of (rp_db rp) t = Some c \<longrightarrow>
                cm_root_tree c \<noteq> root)
           else policy = Skip \<and> rp_db rp' = rp_db rp \<and> events = [] \<and> tip_of rp r = Some (co_hash out) \<and>
             (\<exists>c. commit_of (rp_db rp) (co_hash out) = Some c \<and> cm_root_tree c = root)))"
proof -
  have ok: "commits_ok (rp_db rp)" "refs_ok v (rp_db rp)" using assms(1) by (simp_all add: store_ok_def)
  have known: "commit_exists (rp_db rp) t" if "tip_of rp r = Some t" for t
    using that ok(2) by (auto simp: tip_of_def try_get_ref_def refs_ok_def dest!: map_of_SomeD)
  obtain bp os where build: "build_with v r (ws_root s) (rp_objects rp) = (bp, os)" by fastforce
  show ?thesis
  proof (cases bp)
    case (Inl e)
    then show ?thesis
      using assms(2) build build_with_refusal [of v r "ws_root s" "rp_objects rp" e os]
      by (auto simp: commit_snapshot_to_with_def)
  next
    case (Inr b)
    obtain root ts where b: "b = (root, ts)" by fastforce
    obtain res' d' where w: "write_commit_tx v (rp_db rp) r (tip_of rp r) b it now policy = (res', d')" by fastforce
    then have out: "res = res'" "events = notify r (ws_overlay_generation s) res'"
        "rp' = \<lparr>rp_db = d', rp_objects = os\<rparr>"
      using assms(2) build Inr by (auto simp: commit_snapshot_to_with_def)
    let ?same = "if policy = Skip then is_same_tree (rp_db rp) (tip_of rp r) root else Inr False"
    show ?thesis
    proof (cases ?same)
      case (Inl e)
      then have "\<exists>t. tip_of rp r = Some t \<and> commit_of (rp_db rp) t = None"
        by (auto simp: is_same_tree_def get_commit_def commit_of_def ok_or_def split: if_splits option.splits)
      then show ?thesis using known by (auto simp: commit_exists_conv)
    next
      case same: (Inr eq)
      show ?thesis
      proof (cases eq)
        case True
        then obtain t c where "policy = Skip" "tip_of rp r = Some t" "commit_of (rp_db rp) t = Some c"
            "cm_root_tree c = root"
          using same by (auto simp: is_same_tree_def res_simps split: if_splits option.splits)
        moreover then have "res' = Inr \<lparr>co_hash = t, co_committed = False\<rparr>" "d' = rp_db rp"
          using w same True by (auto simp: write_commit_tx_def b)
        ultimately show ?thesis using out build Inr by (simp add: b notify_def)
      next
        case False
        then have land: "land_commit v (rp_db rp) r (tip_of rp r) ts root it now = (res', d')"
          using w same by (auto simp: write_commit_tx_def b)
        have other: "\<forall>t c. policy = Skip \<longrightarrow> tip_of rp r = Some t \<longrightarrow> commit_of (rp_db rp) t = Some c \<longrightarrow>
            cm_root_tree c \<noteq> root"
          using same False by (auto simp: is_same_tree_def res_simps)
        show ?thesis
        proof (cases res')
          case (Inl e)
          with land have "d' = rp_db rp" by (cases rule: land_commit_cases) auto
          moreover have "refusal e"
            using land_commit_refusal [of v "rp_db rp" r ts root it now e d'] land Inl known by (simp add: tip_of_def)
          ultimately show ?thesis using Inl out by (simp add: notify_def)
        next
          case finished: (Inr o')
          have "co_committed o' \<and> commit_landed v r root it now rp (co_hash o') rp'"
            using land_commit_landed [of v "rp_db rp" r ts root it now o' d' "rp_objects rp" os]
              land finished out(3) by (simp add: tip_of_def)
          then have committed: "co_committed o'" and landed: "commit_landed v r root it now rp (co_hash o') rp'"
            by simp_all
          have tip: "tip_of rp' r = Some (co_hash o')" using landed by (simp add: commit_landed_def)
          have res: "res = Inr o'" "events = [(r, co_hash o', ws_overlay_generation s)]"
            using out finished committed by (simp_all add: notify_def)
          obtain row old where row: "cm_hash row = co_hash o'" "cm_intent row = fst it" "cm_timestamp row = now"
              "cm_root_tree row = root"
              "case tip_of rp r of None \<Rightarrow> old = [] | Some t \<Rightarrow> log_collect (rp_db rp) t = Some (Inr old)"
              "log_collect (rp_db rp') (co_hash o') = Some (Inr (row # old))"
            using landed_log(1) [OF ok landed] by blast
          show ?thesis
            unfolding res sum.case
            by (rule exI [of _ root], rule exI [of _ ts], rule exI [of _ os], simp only: committed if_True)
              (intro conjI exI [of _ row] exI [of _ old] allI impI row tip other [rule_format]
                landed_log(2) [OF ok landed, THEN conjunct1] landed_log(2) [OF ok landed, THEN conjunct2] refl,
               simp_all add: build Inr b)
        qed
      qed
    qed
  qed
qed

end
