(* ===== verification/Vcs_View.thy ===== *)
theory Vcs_View
  imports Vcs_Runs Vcs_Chain
begin

text \<open>
  The view the mount serves (\<^verbatim>\<open>crates/softfig-fuse/src/tree_view.rs\<close>): the entries of a
  stored tree by path, and the union of the chains. A committed snapshot reads back through it.
\<close>

section \<open>Entries by path\<close>

datatype view_kind = EBlob | EDir

record view_entry =
  en_kind :: view_kind
  en_mode :: u32
  en_target :: hash

type_synonym path_view = "(path \<times> view_entry) list"

definition dir_entry :: "hash \<Rightarrow> view_entry" where
  "dir_entry h = \<lparr>en_kind = EDir, en_mode = dir_mode, en_target = h\<rparr>"

definition view_empty :: "vcs_env \<Rightarrow> path_view" where
  "view_empty v = [([], dir_entry (ve_hash v []))]"

text \<open>
  The expansion of a tree row into the entries below a path. On a damaged store it need not end,
  so not returning is a value.
\<close>

partial_function (option) expand_rows ::
  "db \<Rightarrow> path \<Rightarrow> tree_entry_row list \<Rightarrow> path_view \<Rightarrow> (store_error + path_view) option" where
  "expand_rows d parent rows out =
     (case rows of
        [] \<Rightarrow> Some (Inr out)
      | e # es \<Rightarrow>
          (case te_kind e of
             Blob \<Rightarrow> expand_rows d parent es
               (bm_insert (parent @ [te_name e]) \<lparr>en_kind = EBlob, en_mode = te_mode e, en_target = te_target e\<rparr> out)
           | Tree \<Rightarrow>
               (case get_tree d (te_target e) of
                  Inl err \<Rightarrow> Some (Inl err)
                | Inr sub \<Rightarrow>
                    Option.bind
                      (expand_rows d (parent @ [te_name e]) sub
                        (bm_insert (parent @ [te_name e])
                          \<lparr>en_kind = EDir, en_mode = te_mode e, en_target = te_target e\<rparr> out))
                      (\<lambda>res. case res of Inl err \<Rightarrow> Some (Inl err) | Inr out' \<Rightarrow> expand_rows d parent es out'))))"

definition view_build :: "db \<Rightarrow> hash \<Rightarrow> (store_error + path_view) option" where
  "view_build d root =
     (case get_tree d root of
        Inl err \<Rightarrow> Some (Inl err)
      | Inr rows \<Rightarrow> expand_rows d [] rows [([], dir_entry root)])"

definition view_children :: "path_view \<Rightarrow> path \<Rightarrow> path_view" where
  "view_children view dir = filter (\<lambda>(p, e). p \<noteq> dir \<and> p \<noteq> [] \<and> butlast p = dir) view"

section \<open>The union of the chains\<close>

definition proper_ancestors :: "path \<Rightarrow> path list" where
  "proper_ancestors p = map (\<lambda>k. take k p) (rev [1..<length p])"

definition graft :: "vcs_env \<Rightarrow> path_view \<Rightarrow> path \<Rightarrow> path_view \<Rightarrow> path_view" where
  "graft v other pre view =
     (let kept = filter (\<lambda>(p, e). \<not> path_under pre p) view;
          bridged = fold (\<lambda>a out. if map_of out a = None then bm_insert a (dir_entry (ve_hash v [])) out else out)
            (proper_ancestors pre) kept
      in fold (\<lambda>(p, e). bm_insert (pre @ p) e) other bridged)"

definition chain_view :: "db \<Rightarrow> hash \<Rightarrow> (store_error + path_view) option" where
  "chain_view d h =
     (case get_commit d h of Inl err \<Rightarrow> Some (Inl err) | Inr c \<Rightarrow> view_build d (cm_root_tree c))"

fun graft_chains :: "vcs_env \<Rightarrow> db \<Rightarrow> chain list \<Rightarrow> path_view \<Rightarrow> (store_error + path_view) option" where
  "graft_chains v d [] view = Some (Inr view)"
| "graft_chains v d (c # cs) view =
     (if \<not> ch_enabled c then graft_chains v d cs view
      else
        (case ch_mount c of
           None \<Rightarrow> graft_chains v d cs view
         | Some mount \<Rightarrow>
             (case try_get_ref d (ch_ref c) of
                None \<Rightarrow> graft_chains v d cs view
              | Some h \<Rightarrow>
                  Option.bind (chain_view d h) (\<lambda>res. case res of
                    Inl err \<Rightarrow> Some (Inl err)
                  | Inr sub \<Rightarrow> graft_chains v d cs (graft v sub mount view)))))"

definition build_union :: "vcs_env \<Rightarrow> db \<Rightarrow> chain_registry \<Rightarrow> (store_error + path_view) option" where
  "build_union v d reg =
     Option.bind
       (case try_get_ref d (ch_ref (cr_device reg)) of
          Some h \<Rightarrow> chain_view d h | None \<Rightarrow> Some (Inr (view_empty v)))
       (\<lambda>res. case res of Inl err \<Rightarrow> Some (Inl err) | Inr view \<Rightarrow> graft_chains v d (cr_shared reg) view)"

section \<open>A stored tree reads back\<close>

text \<open>The entry that serves a node: a blob whose object is the cipher of the content, a directory.\<close>

fun serves :: "vcs_env \<Rightarrow> string \<Rightarrow> (hash \<Rightarrow> string option) \<Rightarrow> string \<Rightarrow> tnode \<Rightarrow> view_entry \<Rightarrow> bool" where
  "serves v r om full (File m c) e \<longleftrightarrow>
     (\<exists>cipher. en_kind e = EBlob \<and> en_mode e = m \<and> ve_encrypt v r full c = Inr cipher \<and>
        om (en_target e) = Some cipher)"
| "serves v r om full (Dir sub) e \<longleftrightarrow> en_kind e = EDir \<and> en_mode e = dir_mode"

lemma node_at_Cons_step:
  "node_at ((n, x) # xs) (k # ks) =
     (if k = n then (case x of File m c \<Rightarrow> if ks = [] then Some x else None | Dir sub \<Rightarrow> node_at sub ks)
      else node_at xs (k # ks))"
  by (cases x) auto

lemma node_at_unknown: "n \<notin> fst ` set xs \<Longrightarrow> node_at xs (n # ks) = None"
  by (simp add: map_of_eq_None_iff [THEN iffD2])

text \<open>What an expansion adds below a path: the nodes of the directory, and nothing else moves.\<close>

definition expanded ::
  "vcs_env \<Rightarrow> string \<Rightarrow> (hash \<Rightarrow> string option) \<Rightarrow> string \<Rightarrow> children \<Rightarrow> path \<Rightarrow> path_view \<Rightarrow> path_view \<Rightarrow> bool" where
  "expanded v r om pre ch p out out' \<longleftrightarrow>
     (\<forall>k ks. case node_at ch (k # ks) of
        None \<Rightarrow> map_of out' (p @ k # ks) = map_of out (p @ k # ks)
      | Some x \<Rightarrow> \<exists>e. map_of out' (p @ k # ks) = Some e \<and> serves v r om (foldl child_path pre (k # ks)) x e) \<and>
     (\<forall>q. (\<nexists>k ks. q = p @ k # ks) \<longrightarrow> map_of out' q = map_of out q)"

lemma expandedD:
  assumes "expanded v r om pre ch p out out'"
  shows "node_at ch (k # ks) = None \<Longrightarrow> map_of out' (p @ k # ks) = map_of out (p @ k # ks)"
    and "node_at ch (k # ks) = Some x \<Longrightarrow>
      \<exists>e. map_of out' (p @ k # ks) = Some e \<and> serves v r om (foldl child_path pre (k # ks)) x e"
    and "(\<And>k ks. q \<noteq> p @ k # ks) \<Longrightarrow> map_of out' q = map_of out q"
  using assms [unfolded expanded_def, THEN conjunct1, rule_format, of k ks]
    assms [unfolded expanded_def, THEN conjunct2, rule_format, of q]
  by (simp_all del: node_at.simps)

lemma expandedI:
  assumes "\<And>k ks. node_at ch (k # ks) = None \<Longrightarrow> map_of out' (p @ k # ks) = map_of out (p @ k # ks)"
    and "\<And>k ks x. node_at ch (k # ks) = Some x \<Longrightarrow>
      \<exists>e. map_of out' (p @ k # ks) = Some e \<and> serves v r om (foldl child_path pre (k # ks)) x e"
    and "\<And>q. (\<And>k ks. q \<noteq> p @ k # ks) \<Longrightarrow> map_of out' q = map_of out q"
  shows "expanded v r om pre ch p out out'"
  unfolding expanded_def
proof (intro conjI allI impI)
  fix k ks
  show "case node_at ch (k # ks) of None \<Rightarrow> map_of out' (p @ k # ks) = map_of out (p @ k # ks)
      | Some x \<Rightarrow> \<exists>e. map_of out' (p @ k # ks) = Some e \<and> serves v r om (foldl child_path pre (k # ks)) x e"
    using assms(1,2) [of k ks] by (cases "node_at ch (k # ks)") (simp_all del: node_at.simps)
qed (use assms(3) in blast)

lemma expand_rows_represents:
  "represents v r tm om pre ch rows \<Longrightarrow> tm \<subseteq>\<^sub>m tree_of d \<Longrightarrow> distinct (map fst ch) \<Longrightarrow>
     list_all (node_ok \<circ> snd) ch \<Longrightarrow>
     \<exists>out'. expand_rows d p rows out = Some (Inr out') \<and> expanded v r om pre ch p out out'"
proof (induction ch arbitrary: pre rows p out rule: children_induct)
  case Nil
  then show ?case by (simp add: expand_rows.simps expanded_def)
next
  case (File n m c xs)
  then obtain h cipher es where rows: "rows = \<lparr>te_name = n, te_kind = Blob, te_mode = m, te_target = h\<rparr> # es"
      "ve_encrypt v r (child_path pre n) c = Inr cipher" "om h = Some cipher" "represents v r tm om pre xs es"
    by auto
  have rest: "distinct (map fst xs)" "list_all (node_ok \<circ> snd) xs" using File.prems(3,4) by (simp_all add: comp_def)
  let ?out = "bm_insert (p @ [n]) \<lparr>en_kind = EBlob, en_mode = m, en_target = h\<rparr> out"
  obtain out' where out': "expand_rows d p es ?out = Some (Inr out')" "expanded v r om pre xs p ?out out'"
    using File.IH [OF rows(4) File.prems(2) rest, of p ?out] by blast
  have new: "n \<notin> fst ` set xs" using File.prems(3) by simp
  have at_n: "map_of out' (p @ n # ks) = map_of ?out (p @ n # ks)" for ks
    using expandedD(1) [OF out'(2) node_at_unknown [OF new]] .
  have "expanded v r om pre ((n, File m c) # xs) p out out'"
  proof (rule expandedI)
    fix k ks assume "node_at ((n, File m c) # xs) (k # ks) = None"
    then show "map_of out' (p @ k # ks) = map_of out (p @ k # ks)"
      using at_n expandedD(1) [OF out'(2), of k ks] unfolding node_at_Cons_step by (auto split: if_splits)
  next
    fix k ks x assume x: "node_at ((n, File m c) # xs) (k # ks) = Some x"
    show "\<exists>e. map_of out' (p @ k # ks) = Some e \<and> serves v r om (foldl child_path pre (k # ks)) x e"
    proof (cases "k = n")
      case True
      then have "ks = []" "x = File m c" using x unfolding node_at_Cons_step by (auto split: if_splits)
      then show ?thesis using at_n [of "[]"] rows(2,3) True by simp
    qed (use x expandedD(2) [OF out'(2), of k ks x] in \<open>simp add: node_at_Cons_step del: node_at.simps\<close>)
  next
    fix q assume "\<And>k ks. q \<noteq> p @ k # ks"
    then show "map_of out' q = map_of out q" using expandedD(3) [OF out'(2)] by simp
  qed
  then show ?case using out'(1) rows(1) by (simp add: expand_rows.simps [of d p "_ # _"])
next
  case (Dir n sub xs)
  then obtain h ses es where rows: "rows = \<lparr>te_name = n, te_kind = Tree, te_mode = dir_mode, te_target = h\<rparr> # es"
      "tm h = Some ses" "represents v r tm om (child_path pre n) sub ses" "represents v r tm om pre xs es"
    by auto
  have get: "get_tree d h = Inr ses" using rows(2) Dir.prems(2) by (force simp: res_simps map_le_def)
  let ?out = "bm_insert (p @ [n]) \<lparr>en_kind = EDir, en_mode = dir_mode, en_target = h\<rparr> out"
  have rest: "distinct (map fst xs)" "list_all (node_ok \<circ> snd) xs" using Dir.prems(3,4) by (simp_all add: comp_def)
  have sub: "distinct (map fst sub)" "list_all (node_ok \<circ> snd) sub"
    using Dir.prems(4) bm_ok_distinct by auto
  obtain out1 where out1: "expand_rows d (p @ [n]) ses ?out = Some (Inr out1)"
      "expanded v r om (child_path pre n) sub (p @ [n]) ?out out1"
    using Dir.IH(1) [OF rows(3) Dir.prems(2) sub, of "p @ [n]" ?out] by blast
  obtain out' where out': "expand_rows d p es out1 = Some (Inr out')" "expanded v r om pre xs p out1 out'"
    using Dir.IH(2) [OF rows(4) Dir.prems(2) rest, of p out1] by blast
  have new: "n \<notin> fst ` set xs" using Dir.prems(3) by simp
  have at_n: "map_of out' (p @ n # ks) = map_of out1 ((p @ [n]) @ ks)" for ks
    using expandedD(1) [OF out'(2) node_at_unknown [OF new]] by simp
  have here: "map_of out1 (p @ [n]) = Some \<lparr>en_kind = EDir, en_mode = dir_mode, en_target = h\<rparr>"
    using expandedD(3) [OF out1(2), of "p @ [n]"] by simp
  have other: "map_of out1 (p @ k # ks) = map_of out (p @ k # ks)" if "k \<noteq> n" for k ks
    using expandedD(3) [OF out1(2), of "p @ k # ks"] that by simp
  have "expanded v r om pre ((n, Dir sub) # xs) p out out'"
  proof (rule expandedI)
    fix k ks assume none: "node_at ((n, Dir sub) # xs) (k # ks) = None"
    show "map_of out' (p @ k # ks) = map_of out (p @ k # ks)"
    proof (cases "k = n")
      case True
      then obtain l ls where ks: "ks = l # ls" "node_at sub (l # ls) = None"
        using none by (cases ks) (simp_all add: node_at_Cons_step del: node_at.simps(2))
      then show ?thesis using at_n [of ks] expandedD(1) [OF out1(2) ks(2)] True by simp
    qed (use none other expandedD(1) [OF out'(2), of k ks] in \<open>simp add: node_at_Cons_step del: node_at.simps\<close>)
  next
    fix k ks x assume x: "node_at ((n, Dir sub) # xs) (k # ks) = Some x"
    show "\<exists>e. map_of out' (p @ k # ks) = Some e \<and> serves v r om (foldl child_path pre (k # ks)) x e"
    proof (cases "k = n")
      case True
      show ?thesis
      proof (cases ks)
        case Nil
        then show ?thesis using x at_n [of "[]"] here True by (auto simp: node_at_Cons_step)
      next
        case (Cons l ls)
        then have "node_at sub (l # ls) = Some x" using x True by (simp add: node_at_Cons_step del: node_at.simps)
        from expandedD(2) [OF out1(2) this] show ?thesis using at_n [of ks] True Cons by simp
      qed
    qed (use x expandedD(2) [OF out'(2), of k ks x] in \<open>simp add: node_at_Cons_step del: node_at.simps\<close>)
  next
    fix q assume q: "\<And>k ks. q \<noteq> p @ k # ks"
    have "q \<noteq> p @ [n] @ k # ks" for k ks using q [of n "k # ks"] by simp
    then show "map_of out' q = map_of out q"
      using expandedD(3) [OF out'(2), of q] expandedD(3) [OF out1(2), of q] q by simp
  qed
  then show ?case using out1(1) out'(1) rows(1) get by (simp add: expand_rows.simps [of d p "_ # _"])
qed

text \<open>The view of a stored tree that represents a snapshot.\<close>

definition reads ::
  "vcs_env \<Rightarrow> string \<Rightarrow> (hash \<Rightarrow> string option) \<Rightarrow> children \<Rightarrow> path_view \<Rightarrow> bool" where
  "reads v r om ch view \<longleftrightarrow>
     (\<forall>k ks. case node_at ch (k # ks) of
        None \<Rightarrow> map_of view (k # ks) = None
      | Some x \<Rightarrow> \<exists>e. map_of view (k # ks) = Some e \<and> serves v r om (foldl child_path [] (k # ks)) x e)"

lemma view_of_represents:
  assumes "represents v r tm om [] ch rows" "tm \<subseteq>\<^sub>m tree_of d" "tree_of d root = Some rows" "tree_ok ch"
  shows "\<exists>view. view_build d root = Some (Inr view) \<and> reads v r om ch view"
proof -
  have "distinct (map fst ch)" "list_all (node_ok \<circ> snd) ch" using assms(4) bm_ok_distinct by auto
  from expand_rows_represents [OF assms(1,2) this, of "[]" "[([], dir_entry root)]"] obtain view where
    view: "expand_rows d [] rows [([], dir_entry root)] = Some (Inr view)"
      "expanded v r om [] ch [] [([], dir_entry root)] view" by blast
  have "get_tree d root = Inr rows" using assms(3) by (simp add: res_simps)
  moreover have "reads v r om ch view"
    unfolding reads_def
  proof (intro allI)
    fix k ks
    show "case node_at ch (k # ks) of None \<Rightarrow> map_of view (k # ks) = None
      | Some x \<Rightarrow> \<exists>e. map_of view (k # ks) = Some e \<and> serves v r om (foldl child_path [] (k # ks)) x e"
      using expandedD(1,2) [OF view(2), of k ks] by (cases "node_at ch (k # ks)") (simp_all del: node_at.simps)
  qed
  ultimately show ?thesis using view(1) by (simp add: view_build_def)
qed

section \<open>A commit reads back\<close>

text \<open>
  A blueprint whose root the store already holds is stored as a whole: trees sit under the digest
  of their rows and nothing dangles.
\<close>

lemma blueprint_stored:
  assumes "addressing v" "tree_rows_ok v d" "trees_closed d os" "blueprint_ok v ts os'"
    and "tree_of d root \<noteq> None" "\<forall>k. map_of ts k \<noteq> None \<longrightarrow> (root, k) \<in> (tree_edge (map_of ts))\<^sup>*"
  shows "map_of ts \<subseteq>\<^sub>m tree_of d"
proof -
  have same: "es' = es" if "map_of ts k = Some es" "tree_of d k = Some es'" for k es es'
  proof -
    have "tree_hash v es = k" using assms(4) map_of_SomeD [OF that(1)] by (auto simp: blueprint_ok_def)
    moreover have "tree_hash v es' = k" using tree_rows_at(3) [OF assms(2)] that(2) by (auto simp: tree_of_def)
    ultimately show ?thesis using tree_hash_eq [OF assms(1)] by metis
  qed
  have stored: "tree_of d k \<noteq> None" if "(root, k) \<in> (tree_edge (map_of ts))\<^sup>*" for k
    using that
  proof (induction rule: rtrancl_induct)
    case (step y z)
    then obtain es e es' where es: "map_of ts y = Some es" "e \<in> set es" "te_kind e = Tree" "te_target e = z"
        "tree_of d y = Some es'"
      by (auto simp: tree_edge_def)
    then have "rows_closed (tree_of d) (map_of os) es" using same [OF es(1,5)] assms(3) by (auto simp: trees_closed_def)
    then show ?case using es by (auto simp: rows_closed_def list_all_iff)
  qed (use assms(5) in simp)
  show ?thesis
    unfolding map_le_def
  proof
    fix k assume "k \<in> dom (map_of ts)"
    then obtain es where es: "map_of ts k = Some es" by blast
    then obtain es' where "tree_of d k = Some es'" using stored [of k] assms(6) by auto
    then show "map_of ts k = tree_of d k" using same [OF es] es by simp
  qed
qed

lemma object_get_stored: "objects_ok v os \<Longrightarrow> map_of os h = Some b \<Longrightarrow> object_get (ve_hash v) h os = Inr b"
  by (auto simp: object_get_def objects_ok_def dest!: map_of_SomeD)

text \<open>After a successful commit call the tip of the ref holds a tree that represents the snapshot.\<close>

lemma commit_represents:
  assumes env: "addressing v" "signing v" and ok: "store_ok v rp" and tree: "tree_ok (ws_root s)"
    and run: "commit_snapshot_to_with v r s it now policy rp = (Inr out, events, rp')"
  obtains c rows tm where "tip_of rp' r = Some (co_hash out)" "commit_of (rp_db rp') (co_hash out) = Some c"
    "tree_of (rp_db rp') (cm_root_tree c) = Some rows" "tm \<subseteq>\<^sub>m tree_of (rp_db rp')"
    "represents v r tm (map_of (rp_objects rp')) [] (ws_root s) rows"
proof -
  let ?d = "rp_db rp"
  have parts: "objects_ok v (rp_objects rp)" "tree_rows_ok v ?d" "trees_closed ?d (rp_objects rp)"
    using ok by (simp_all add: store_ok_def)
  obtain root ts os' where build: "build_with v r (ws_root s) (rp_objects rp) = (Inr (root, ts), os')"
    using run by (auto simp: commit_snapshot_to_with_def Let_def split: prod.splits sum.splits)
  obtain d' where w: "write_commit_tx v ?d r (tip_of rp r) (root, ts) it now policy = (Inr out, d')"
      and rp': "rp' = \<lparr>rp_db = d', rp_objects = os'\<rparr>"
    using run build by (auto simp: commit_snapshot_to_with_def Let_def split: prod.splits)
  obtain es where b: "blueprint_ok v ts os'" "map_of ts root = Some es"
      "represents v r (map_of ts) (map_of os') [] (ws_root s) es"
      "\<forall>k. map_of ts k \<noteq> None \<longrightarrow> (root, k) \<in> (tree_edge (map_of ts))\<^sup>*"
    using root_of_build [OF env(1) build tree parts(1)] by metis
  have hts: "\<forall>(h, es) \<in> set ts. names_sorted es \<and> tree_hash v es = h" using b(1) by (auto simp: blueprint_ok_def)
  have "\<exists>c. tip_of rp' r = Some (co_hash out) \<and> commit_of d' (co_hash out) = Some c \<and> cm_root_tree c = root \<and>
      map_of ts \<subseteq>\<^sub>m tree_of d'"
  proof (cases "land_commit v ?d r (tip_of rp r) ts root it now = (Inr out, d')")
    case True
    then show ?thesis
    proof (cases rule: land_commit_cases)
      case (landed row)
      let ?d1 = "fold (\<lambda>(h, es). put_tree h es) ts ?d"
      have "map_of ts \<subseteq>\<^sub>m tree_of ?d1"
        by (auto simp: map_le_def put_trees_of(2) [OF env(1) hts parts(2)] dom_def)
      moreover have "cm_root_tree row = root" using authored_row(3) [OF landed(1) env(2)] .
      ultimately show ?thesis
        using landed(4,5) with_commit_of(1) [OF landed(2), of r] with_commit_of(2) [of r row ?d1]
        by (simp add: rp' tip_of_def try_get_ref_def with_commit_def)
    qed simp
  next
    case False
    let ?same = "if policy = Skip then is_same_tree ?d (tip_of rp r) root else Inr False"
    have skip: "?same = Inr True"
    proof (cases ?same)
      case (Inl e)
      then show ?thesis using w by (simp add: write_commit_tx_def)
    next
      case (Inr eq)
      then show ?thesis using w False by (cases eq) (simp_all add: write_commit_tx_def)
    qed
    then have "is_same_tree ?d (tip_of rp r) root = Inr True" by (simp split: if_splits)
    then obtain t c where tip: "tip_of rp r = Some t" "commit_of ?d t = Some c" "cm_root_tree c = root"
      by (auto simp: is_same_tree_def res_simps split: option.splits)
    have "(Inr \<lparr>co_hash = the (tip_of rp r), co_committed = False\<rparr>, ?d) = (Inr out, d')"
      using w unfolding write_commit_tx_def prod.case skip by simp
    then have same: "tip_of rp r = Some t" "commit_of ?d t = Some c" "cm_root_tree c = root"
        "out = \<lparr>co_hash = t, co_committed = False\<rparr>" "d' = ?d"
      using tip by auto
    have "tree_of ?d root \<noteq> None" using same(2,3) ok by (auto simp: store_ok_def commits_ok_def tree_exists_conv)
    from blueprint_stored [OF env(1) parts(2,3) b(1) this b(4)] show ?thesis
      using same by (simp add: rp' tip_of_def)
  qed
  then obtain c where c: "tip_of rp' r = Some (co_hash out)" "commit_of d' (co_hash out) = Some c"
      "cm_root_tree c = root" "map_of ts \<subseteq>\<^sub>m tree_of d'" by blast
  have "tree_of d' root = Some es" using c(4) b(2) by (force simp: map_le_def)
  then show ?thesis using that [of c es "map_of ts"] b(3) c by (simp add: rp')
qed

lemma commit_served:
  assumes "addressing v" "signing v" "store_ok v rp" "tree_ok (ws_root s)"
    and "commit_snapshot_to_with v r s it now policy rp = (Inr out, events, rp')"
  shows "\<exists>view. tip_of rp' r = Some (co_hash out) \<and> chain_view (rp_db rp') (co_hash out) = Some (Inr view) \<and>
    (\<forall>k ks. case node_at (ws_root s) (k # ks) of
       None \<Rightarrow> map_of view (k # ks) = None
     | Some (Dir sub) \<Rightarrow> (\<exists>e. map_of view (k # ks) = Some e \<and> en_kind e = EDir)
     | Some (File m content) \<Rightarrow>
         (\<exists>e cipher. map_of view (k # ks) = Some e \<and> en_kind e = EBlob \<and> en_mode e = m \<and>
            ve_encrypt v r (foldl child_path [] (k # ks)) content = Inr cipher \<and>
            object_get (ve_hash v) (en_target e) (rp_objects rp') = Inr cipher))"
proof -
  obtain c rows tm where c: "tip_of rp' r = Some (co_hash out)" "commit_of (rp_db rp') (co_hash out) = Some c"
      "tree_of (rp_db rp') (cm_root_tree c) = Some rows" "tm \<subseteq>\<^sub>m tree_of (rp_db rp')"
      "represents v r tm (map_of (rp_objects rp')) [] (ws_root s) rows"
    using commit_represents [OF assms] .
  obtain view where view: "view_build (rp_db rp') (cm_root_tree c) = Some (Inr view)"
      "reads v r (map_of (rp_objects rp')) (ws_root s) view"
    using view_of_represents [OF c(5,4,3) assms(4)] by blast
  have "store_ok v rp'" using commit_snapshot_keeps [OF assms(1-4), of r it now policy] assms(5) by simp
  then have "objects_ok v (rp_objects rp')" by (simp add: store_ok_def)
  note stored = object_get_stored [OF this]
  have "chain_view (rp_db rp') (co_hash out) = Some (Inr view)"
    using c(2) view(1) by (simp add: chain_view_def get_commit_def commit_of_def)
  moreover have "case node_at (ws_root s) (k # ks) of
       None \<Rightarrow> map_of view (k # ks) = None
     | Some (Dir sub) \<Rightarrow> (\<exists>e. map_of view (k # ks) = Some e \<and> en_kind e = EDir)
     | Some (File m content) \<Rightarrow>
         (\<exists>e cipher. map_of view (k # ks) = Some e \<and> en_kind e = EBlob \<and> en_mode e = m \<and>
            ve_encrypt v r (foldl child_path [] (k # ks)) content = Inr cipher \<and>
            object_get (ve_hash v) (en_target e) (rp_objects rp') = Inr cipher)" for k ks
    using view(2) [unfolded reads_def, rule_format, of k ks] stored
    by (cases "node_at (ws_root s) (k # ks)") (auto split: tnode.splits simp del: node_at.simps)
  ultimately show ?thesis using c(1) by blast
qed

text \<open>
  C10. What is committed reads back. After a commit call that did not fail, landed or skipped, the
  view the mount builds from the tip of the ref ends, and serves exactly the snapshot: at the path
  of every file a blob entry with the mode of the file, whose object is in the store intact and is
  the cipher of its content for this ref and path; at the path of every directory a directory
  entry; and nothing at any other path.
\<close>

theorem commit_reads_back:
  assumes "addressing v" "signing v" "store_ok v rp" "tree_ok (ws_root s)"
    and "commit_snapshot_to_with v r s it now policy rp = (Inr out, events, rp')"
  shows "\<exists>view. tip_of rp' r = Some (co_hash out) \<and> chain_view (rp_db rp') (co_hash out) = Some (Inr view) \<and>
    (\<forall>k ks. case node_at (ws_root s) (k # ks) of
       None \<Rightarrow> map_of view (k # ks) = None
     | Some (Dir sub) \<Rightarrow> (\<exists>e. map_of view (k # ks) = Some e \<and> en_kind e = EDir)
     | Some (File m content) \<Rightarrow>
         (\<exists>e cipher. map_of view (k # ks) = Some e \<and> en_kind e = EBlob \<and> en_mode e = m \<and>
            ve_encrypt v r (foldl child_path [] (k # ks)) content = Inr cipher \<and>
            object_get (ve_hash v) (en_target e) (rp_objects rp') = Inr cipher))"
  by (rule commit_served [OF assms])

end
