(* ===== verification/Fuse_Overlay.thy ===== *)
theory Fuse_Overlay
  imports Vcs_View Item_Meta
begin

text \<open>
  The write overlay of the mount (\<^verbatim>\<open>crates/softfig-fuse/src/overlay.rs\<close>), the ignore
  file (\<^verbatim>\<open>crates/softfig-vcs/src/ignore.rs\<close>) and the state the handlers share
  (\<^verbatim>\<open>crates/softfig-fuse/src/fs.rs\<close>) with its lookups of overlay precedence.
\<close>

section \<open>Ignored names\<close>

definition ignored_top_level :: "string list" where
  "ignored_top_level = [''.softfig'', ''.claude'']"

definition ignore_file :: string where
  "ignore_file = ''.softfigignore''"

definition builtin_ignored :: "path \<Rightarrow> bool" where
  "builtin_ignored p = (case p of [] \<Rightarrow> False | c # _ \<Rightarrow> c \<in> set ignored_top_level)"

text \<open>The user names of an ignore file; the built-in names always apply.\<close>

definition parse_ignore :: "string \<Rightarrow> string list" where
  "parse_ignore contents =
     map (\<lambda>l. case strip_suffix ''/'' l of Some r \<Rightarrow> r | None \<Rightarrow> l)
       (filter (\<lambda>l. l \<noteq> [] \<and> \<not> starts_with ''#'' l) (map trim (text_lines contents)))"

definition is_ignored :: "string list \<Rightarrow> path \<Rightarrow> bool" where
  "is_ignored user p \<longleftrightarrow> builtin_ignored p \<or> (case p of [] \<Rightarrow> False | c # _ \<Rightarrow> c \<in> set user)"

section \<open>The overlay\<close>

datatype overlay_entry = OFile string u32 | ODir u32 | ORemoved

record slot =
  sl_gen :: u64
  sl_entry :: overlay_entry

record overlay =
  ov_slots :: "(path \<times> slot) list"
  ov_gen :: u64

definition overlay_new :: overlay where
  "overlay_new = \<lparr>ov_slots = [], ov_gen = 0\<rparr>"

definition ov_get :: "overlay \<Rightarrow> path \<Rightarrow> overlay_entry option" where
  "ov_get ov p = map_option sl_entry (map_of (ov_slots ov) p)"

definition ov_stage :: "path \<Rightarrow> overlay_entry \<Rightarrow> overlay \<Rightarrow> overlay" where
  "ov_stage p e ov =
     (let g = ov_gen ov + 1 in \<lparr>ov_slots = bm_insert p \<lparr>sl_gen = g, sl_entry = e\<rparr> (ov_slots ov), ov_gen = g\<rparr>)"

definition ov_insert_file :: "path \<Rightarrow> string \<Rightarrow> u32 \<Rightarrow> overlay \<Rightarrow> overlay" where
  "ov_insert_file p content m = ov_stage p (OFile content m)"

definition ov_insert_dir :: "path \<Rightarrow> u32 \<Rightarrow> overlay \<Rightarrow> overlay" where
  "ov_insert_dir p m = ov_stage p (ODir m)"

definition ov_mark_removed :: "path \<Rightarrow> overlay \<Rightarrow> overlay" where
  "ov_mark_removed p = ov_stage p ORemoved"

definition ov_rename :: "path \<Rightarrow> path \<Rightarrow> overlay \<Rightarrow> overlay" where
  "ov_rename from_path to_path ov =
     ov_mark_removed from_path
       (case map_of (ov_slots ov) from_path of
          Some s \<Rightarrow> ov_stage to_path (sl_entry s) (ov\<lparr>ov_slots := bm_remove from_path (ov_slots ov)\<rparr>)
        | None \<Rightarrow> ov)"

definition is_dir_marker :: "overlay_entry \<Rightarrow> bool" where
  "is_dir_marker e \<longleftrightarrow> (case e of ODir _ \<Rightarrow> True | _ \<Rightarrow> False)"

text \<open>
  The absorption. The first pass keeps what is newer, every directory marker and what another
  chain owns; the second drops absorbed markers with no survivor below.
\<close>

definition remove_absorbed :: "u64 \<Rightarrow> (path \<Rightarrow> bool) \<Rightarrow> overlay \<Rightarrow> overlay" where
  "remove_absorbed cutoff owned ov =
     (let kept = filter (\<lambda>(p, s). cutoff < sl_gen s \<or> is_dir_marker (sl_entry s) \<or> \<not> owned p) (ov_slots ov);
          survivors = map fst (filter (\<lambda>(p, s). \<not> is_dir_marker (sl_entry s)) kept)
      in ov\<lparr>ov_slots := filter (\<lambda>(p, s).
           \<not> is_dir_marker (sl_entry s) \<or> cutoff < sl_gen s \<or> \<not> owned p \<or>
           list_ex (\<lambda>f. path_under p f \<and> f \<noteq> p) survivors) kept\<rparr>)"

section \<open>The shared state\<close>

record mount_state =
  mt_view :: path_view
  mt_overlay :: overlay
  mt_registry :: chain_registry

text \<open>
  What the mount observes of the session: the vault session of the commits, the decryption of a
  tracked blob under its path, the one of a blob that is not sealed, and the sealed query (which paths are sealed as a whole, and the
  redaction of regions).
\<close>

record mount_env =
  me_vcs :: vcs_env
  me_decrypt :: "string \<Rightarrow> string \<Rightarrow> string option"
  me_decrypt_plain :: "string \<Rightarrow> string option"
  me_sealed :: "string \<Rightarrow> bool"
  me_redact :: "string \<Rightarrow> string \<Rightarrow> string"

datatype mount_error = Mount_Store store_error | Mount_Vault

definition rel_text :: "path \<Rightarrow> string" where
  "rel_text p = foldl child_path [] p"

definition file_mode :: u32 where "file_mode = 33188"

text \<open>Lookups: an overlay entry decides, a removal hides the tip.\<close>

definition entry_kind_of :: "mount_state \<Rightarrow> path \<Rightarrow> view_kind option" where
  "entry_kind_of st p =
     (case ov_get (mt_overlay st) p of
        Some (OFile _ _) \<Rightarrow> Some EBlob
      | Some (ODir _) \<Rightarrow> Some EDir
      | Some ORemoved \<Rightarrow> None
      | None \<Rightarrow> map_option en_kind (map_of (mt_view st) p))"

definition current_mode :: "mount_state \<Rightarrow> path \<Rightarrow> u32 option" where
  "current_mode st p =
     (case ov_get (mt_overlay st) p of
        Some (OFile _ m) \<Rightarrow> Some m
      | Some (ODir m) \<Rightarrow> Some m
      | Some ORemoved \<Rightarrow> None
      | None \<Rightarrow> map_option en_mode (map_of (mt_view st) p))"

definition path_exists :: "mount_state \<Rightarrow> path \<Rightarrow> bool" where
  "path_exists st p \<longleftrightarrow> entry_kind_of st p \<noteq> None"

definition path_is_dir :: "mount_state \<Rightarrow> path \<Rightarrow> bool" where
  "path_is_dir st p \<longleftrightarrow> p = [] \<or> entry_kind_of st p = Some EDir"

definition blob_text :: "mount_env \<Rightarrow> objects \<Rightarrow> path \<Rightarrow> hash \<Rightarrow> mount_error + string" where
  "blob_text v os p h =
     try_with (map_err Mount_Store (object_get (ve_hash (me_vcs v)) h os)) (\<lambda>cipher.
     ok_or Mount_Vault (me_decrypt v (rel_text p) cipher))"

definition read_workfile :: "mount_env \<Rightarrow> objects \<Rightarrow> mount_state \<Rightarrow> path \<Rightarrow> mount_error + string option" where
  "read_workfile v os st p =
     (case ov_get (mt_overlay st) p of
        Some (OFile content _) \<Rightarrow> Inr (Some content)
      | Some ORemoved \<Rightarrow> Inr None
      | Some (ODir _) \<Rightarrow> Inr None
      | None \<Rightarrow>
          (case map_of (mt_view st) p of
             Some e \<Rightarrow> (if en_kind e = EBlob
               then try_with (blob_text v os p (en_target e)) (\<lambda>b. Inr (Some b)) else Inr None)
           | None \<Rightarrow> Inr None))"

definition overlay_children :: "mount_state \<Rightarrow> path \<Rightarrow> (path \<times> overlay_entry) list" where
  "overlay_children st dir =
     map (\<lambda>(p, s). (p, sl_entry s)) (filter (\<lambda>(p, s). p \<noteq> [] \<and> butlast p = dir) (ov_slots (mt_overlay st)))"

definition read_dir_entries :: "mount_state \<Rightarrow> path \<Rightarrow> (string \<times> bool) list" where
  "read_dir_entries st dir =
     map (\<lambda>(p, e). (last p, en_kind e = EDir))
       (filter (\<lambda>(p, e). ov_get (mt_overlay st) p = None) (view_children (mt_view st) dir)) @
     map (\<lambda>(p, e). (last p, is_dir_marker e))
       (filter (\<lambda>(p, e). e \<noteq> ORemoved) (overlay_children st dir))"

end
