(* ===== verification/Fuse_Tree.thy ===== *)
theory Fuse_Tree
  imports Fuse_Overlay
begin

text \<open>
  The working tree of the mount (\<^verbatim>\<open>crates/softfig-fuse/src/fs.rs\<close>): the descent over tip
  and overlay, the snapshot a commit is cut from, the staging operations of the daemon, the
  handlers of the kernel, and the rotation after a commit.
\<close>

section \<open>The descent\<close>

text \<open>A bound on the length of every known path, for the descents to end.\<close>

definition longest :: "mount_state \<Rightarrow> nat" where
  "longest st = sum_list (map length (map fst (ov_slots (mt_overlay st)) @ map fst (mt_view st)))"

lemma butlast_shorter: "p \<noteq> [] \<Longrightarrow> length (butlast p) < length p"
  by (cases p rule: rev_cases) simp_all

lemma child_bounds:
  assumes "p \<noteq> []" "butlast p = dir"
    and "p \<in> fst ` set (ov_slots (mt_overlay st)) \<or> p \<in> fst ` set (mt_view st)"
  shows "length dir < length p" "length p \<le> longest st"
proof -
  show "length dir < length p" using butlast_shorter assms(1,2) by blast
  have "length p \<in> set (map length (map fst (ov_slots (mt_overlay st)) @ map fst (mt_view st)))"
    using assms(3) by auto
  then show "length p \<le> longest st" unfolding longest_def by (intro member_le_sum_list) simp_all
qed

lemma overlay_childD:
  "(p, e) \<in> set (overlay_children st dir) \<Longrightarrow>
     p \<noteq> [] \<and> butlast p = dir \<and> p \<in> fst ` set (ov_slots (mt_overlay st))"
  unfolding overlay_children_def by (auto intro: rev_image_eqI)

lemma view_childD:
  "(p, e) \<in> set (view_children view dir) \<Longrightarrow> p \<noteq> [] \<and> butlast p = dir \<and> p \<in> fst ` set view"
  unfolding view_children_def by (auto intro: rev_image_eqI)

lemma child_measure:
  "(p, e) \<in> set (overlay_children st dir) \<Longrightarrow> Suc (longest st) - length p < Suc (longest st) - length dir"
  "(p, e') \<in> set (view_children (mt_view st) dir) \<Longrightarrow> Suc (longest st) - length p < Suc (longest st) - length dir"
  using child_bounds [of p dir st] overlay_childD [of p e st dir] view_childD [of p e' "mt_view st" dir]
  by linarith+

text \<open>
  The live files of the working tree, ignored names left out. A file staged at an enabled mount
  root is skipped and shadows nothing.
\<close>

datatype content_source = From_Overlay string | From_Blob hash

definition shadowed :: "mount_state \<Rightarrow> path list \<Rightarrow> path \<Rightarrow> bool" where
  "shadowed st roots p =
     (case ov_get (mt_overlay st) p of
        None \<Rightarrow> False
      | Some (OFile _ _) \<Rightarrow> p \<notin> set roots
      | Some _ \<Rightarrow> True)"

function collect_live ::
  "mount_state \<Rightarrow> string list \<Rightarrow> path list \<Rightarrow> path \<Rightarrow> (path \<times> u32 \<times> content_source) list" where
  "collect_live st user roots dir =
     concat (map (\<lambda>(p, e).
         if is_ignored user p then []
         else (case e of
             ORemoved \<Rightarrow> []
           | OFile content m \<Rightarrow> (if p \<in> set roots then [] else [(p, m, From_Overlay content)])
           | ODir _ \<Rightarrow> collect_live st user roots p))
       (overlay_children st dir)) @
     concat (map (\<lambda>(p, e).
         if shadowed st roots p \<or> is_ignored user p then []
         else (case en_kind e of
             EBlob \<Rightarrow> [(p, en_mode e, From_Blob (en_target e))]
           | EDir \<Rightarrow> collect_live st user roots p))
       (view_children (mt_view st) dir))"
  by pat_completeness auto

termination
proof (relation "measure (\<lambda>(st, user, roots, dir). Suc (longest st) - length dir)")
  fix st :: mount_state and user :: "string list" and roots dir x p and e :: overlay_entry
  assume "x \<in> set (overlay_children st dir)" "(p, e) = x"
  then show "((st, user, roots, p), st, user, roots, dir) \<in> measure (\<lambda>(st, user, roots, dir). Suc (longest st) - length dir)"
    using child_measure(1) [of p e st dir] by (simp del: diff_Suc_Suc)
next
  fix st :: mount_state and user :: "string list" and roots dir x p and e :: view_entry
  assume "x \<in> set (view_children (mt_view st) dir)" "(p, e) = x"
  then show "((st, user, roots, p), st, user, roots, dir) \<in> measure (\<lambda>(st, user, roots, dir). Suc (longest st) - length dir)"
    using child_measure(2) [of p e st dir] by (simp del: diff_Suc_Suc)
qed simp

declare collect_live.simps [simp del]

text \<open>The same descent without ignored names and mount roots, files and directories in visit order.\<close>

function live_entries :: "mount_state \<Rightarrow> path \<Rightarrow> (path \<times> view_kind) list" where
  "live_entries st dir =
     concat (map (\<lambda>(p, e). (case e of
           ORemoved \<Rightarrow> []
         | OFile content m \<Rightarrow> [(p, EBlob)]
         | ODir _ \<Rightarrow> (p, EDir) # live_entries st p))
       (overlay_children st dir)) @
     concat (map (\<lambda>(p, e).
         if ov_get (mt_overlay st) p \<noteq> None then []
         else (case en_kind e of EBlob \<Rightarrow> [(p, EBlob)] | EDir \<Rightarrow> (p, EDir) # live_entries st p))
       (view_children (mt_view st) dir))"
  by pat_completeness auto

termination
proof (relation "measure (\<lambda>(st, dir). Suc (longest st) - length dir)")
  fix st :: mount_state and dir x p and e :: overlay_entry
  assume "x \<in> set (overlay_children st dir)" "(p, e) = x"
  then show "((st, p), st, dir) \<in> measure (\<lambda>(st, dir). Suc (longest st) - length dir)"
    using child_measure(1) [of p e st dir] by (simp del: diff_Suc_Suc)
next
  fix st :: mount_state and dir x p and e :: view_entry
  assume "x \<in> set (view_children (mt_view st) dir)" "(p, e) = x"
  then show "((st, p), st, dir) \<in> measure (\<lambda>(st, dir). Suc (longest st) - length dir)"
    using child_measure(2) [of p e st dir] by (simp del: diff_Suc_Suc)
qed simp

declare live_entries.simps [simp del]

section \<open>The snapshot\<close>

definition enabled_mount_roots :: "chain_registry \<Rightarrow> path list" where
  "enabled_mount_roots reg = concat (map (\<lambda>c. case ch_mount c of Some m \<Rightarrow> [m] | None \<Rightarrow> []) (enabled_chains reg))"

text \<open>The ignore file is read as a blob that is not sealed; a sealed one is an error.\<close>

definition plain_text :: "mount_env \<Rightarrow> objects \<Rightarrow> hash \<Rightarrow> mount_error + string" where
  "plain_text v os h =
     try_with (map_err Mount_Store (object_get (ve_hash (me_vcs v)) h os)) (\<lambda>cipher.
     ok_or Mount_Vault (me_decrypt_plain v cipher))"

definition inmem_ignore :: "mount_env \<Rightarrow> objects \<Rightarrow> mount_state \<Rightarrow> mount_error + string list" where
  "inmem_ignore v os st =
     (case ov_get (mt_overlay st) [ignore_file] of
        Some (OFile content _) \<Rightarrow> Inr (parse_ignore content)
      | Some _ \<Rightarrow> Inr []
      | None \<Rightarrow>
          (case map_of (mt_view st) [ignore_file] of
             Some e \<Rightarrow> (if en_kind e = EBlob
               then try_with (plain_text v os (en_target e)) (\<lambda>b. Inr (parse_ignore b)) else Inr [])
           | None \<Rightarrow> Inr []))"

fun resolve_content :: "mount_env \<Rightarrow> objects \<Rightarrow> path \<Rightarrow> content_source \<Rightarrow> mount_error + string" where
  "resolve_content v os p (From_Overlay content) = Inr content"
| "resolve_content v os p (From_Blob h) = blob_text v os p h"

fun assemble_files ::
  "mount_env \<Rightarrow> objects \<Rightarrow> (path \<times> u32 \<times> content_source) list \<Rightarrow> walk_snapshot \<Rightarrow> mount_error + walk_snapshot" where
  "assemble_files v os [] s = Inr s"
| "assemble_files v os ((p, m, src) # fs) s =
     try_with (resolve_content v os p src) (\<lambda>content. assemble_files v os fs (snapshot_insert p m content s))"

definition unified_snapshot :: "mount_env \<Rightarrow> objects \<Rightarrow> mount_state \<Rightarrow> mount_error + walk_snapshot" where
  "unified_snapshot v os st =
     try_with (inmem_ignore v os st) (\<lambda>user.
     try_with (assemble_files v os (collect_live st user (enabled_mount_roots (mt_registry st)) []) snapshot_empty) (\<lambda>s.
     Inr ((snapshot_prune s)\<lparr>ws_overlay_generation := Some (ov_gen (mt_overlay st))\<rparr>)))"

definition chain_snapshots :: "mount_env \<Rightarrow> objects \<Rightarrow> mount_state \<Rightarrow> mount_error + (string \<times> walk_snapshot) list" where
  "chain_snapshots v os st =
     try_with (unified_snapshot v os st) (\<lambda>u. Inr (split_snapshot (mt_registry st) u))"

definition workdir_snapshot :: "mount_env \<Rightarrow> objects \<Rightarrow> mount_state \<Rightarrow> mount_error + walk_snapshot" where
  "workdir_snapshot v os st =
     try_with (chain_snapshots v os st) (\<lambda>parts.
     Inr (case find (\<lambda>(r, _). r = tip_ref) parts of Some (_, s) \<Rightarrow> s | None \<Rightarrow> snapshot_empty))"

definition live_repo_paths :: "mount_env \<Rightarrow> objects \<Rightarrow> mount_state \<Rightarrow> mount_error + string list" where
  "live_repo_paths v os st =
     try_with (inmem_ignore v os st) (\<lambda>user.
     Inr (map (\<lambda>(p, _). rel_text p) (collect_live st user (enabled_mount_roots (mt_registry st)) [])))"

text \<open>The refs of the chains that own a staged file or removal, each once.\<close>

definition pending_chain_refs :: "mount_state \<Rightarrow> string list" where
  "pending_chain_refs st =
     fold (\<lambda>(p, s) refs.
        if is_dir_marker (sl_entry s) then refs
        else (let r = ch_ref (owning_chain (mt_registry st) p) in if r \<in> set refs then refs else refs @ [r]))
      (ov_slots (mt_overlay st)) []"

section \<open>The rotation\<close>

text \<open>
  A view that cannot be composed leaves everything as it was. The absorption belongs to a ref that
  advanced with a snapshot of this mount.
\<close>

definition rotate_tip :: "vcs_env \<Rightarrow> db \<Rightarrow> string option \<Rightarrow> u64 option \<Rightarrow> mount_state \<Rightarrow> mount_state" where
  "rotate_tip v d advanced cutoff st =
     (case build_union v d (mt_registry st) of
        Some (Inr view) \<Rightarrow>
          (let st' = st\<lparr>mt_view := view\<rparr> in
           case (advanced, cutoff) of
             (Some r, Some g) \<Rightarrow>
               st'\<lparr>mt_overlay := remove_absorbed g (\<lambda>p. ch_ref (owning_chain (mt_registry st) p) = r) (mt_overlay st)\<rparr>
           | _ \<Rightarrow> st')
      | _ \<Rightarrow> st)"

definition set_registry :: "vcs_env \<Rightarrow> db \<Rightarrow> chain_registry \<Rightarrow> mount_state \<Rightarrow> mount_state" where
  "set_registry v d reg st = rotate_tip v d None None (st\<lparr>mt_registry := reg\<rparr>)"

text \<open>The callback of the repository: one rotation for every ref that moved.\<close>

definition on_tip_changed :: "vcs_env \<Rightarrow> db \<Rightarrow> tip_event list \<Rightarrow> mount_state \<Rightarrow> mount_state" where
  "on_tip_changed v d events st = fold (\<lambda>(r, h, cutoff). rotate_tip v d (Some r) cutoff) events st"

section \<open>Staging by the daemon\<close>

definition with_overlay :: "(overlay \<Rightarrow> overlay) \<Rightarrow> mount_state \<Rightarrow> mount_state" where
  "with_overlay f st = st\<lparr>mt_overlay := f (mt_overlay st)\<rparr>"

text \<open>A marker for every ancestor that is neither staged in any way nor a directory of the tip.\<close>

definition ensure_overlay_dirs :: "path \<Rightarrow> mount_state \<Rightarrow> mount_state" where
  "ensure_overlay_dirs p st =
     fold (\<lambda>a st.
        if ov_get (mt_overlay st) a \<noteq> None then st
        else if map_option en_kind (map_of (mt_view st) a) = Some EDir then st
        else with_overlay (ov_insert_dir a dir_mode) st)
      (proper_ancestors p) st"

definition stage_write :: "path \<Rightarrow> string \<Rightarrow> mount_state \<Rightarrow> mount_state" where
  "stage_write p content st =
     (let m = (case current_mode st p of Some m \<Rightarrow> m | None \<Rightarrow> file_mode) in
      with_overlay (ov_insert_file p content m) (ensure_overlay_dirs p st))"

definition stage_mode :: "path \<Rightarrow> u32 \<Rightarrow> string \<Rightarrow> mount_state \<Rightarrow> bool \<times> mount_state" where
  "stage_mode p m bytes st =
     (if entry_kind_of st p = Some EDir then (False, st)
      else (True, with_overlay (ov_insert_file p bytes m) st))"

definition remap :: "path \<Rightarrow> path \<Rightarrow> path \<Rightarrow> path" where
  "remap from_path to_path src =
     (if path_under from_path src then to_path @ drop (length from_path) src else to_path)"

definition rename_movers :: "mount_state \<Rightarrow> path \<Rightarrow> path list \<times> path list" where
  "rename_movers st p =
     (let below = live_entries st p;
          of_kind = (\<lambda>k. map fst (filter (\<lambda>(_, k'). k' = k) below)) in
      case entry_kind_of st p of
        Some EBlob \<Rightarrow> ([p], [])
      | Some EDir \<Rightarrow> (of_kind EBlob, p # of_kind EDir)
      | None \<Rightarrow> ([], []))"

fun read_movers :: "mount_env \<Rightarrow> objects \<Rightarrow> mount_state \<Rightarrow> path list \<Rightarrow> mount_error + (path \<times> string) list" where
  "read_movers v os st [] = Inr []"
| "read_movers v os st (p # ps) =
     try_with (read_workfile v os st p) (\<lambda>b.
     try_with (read_movers v os st ps) (\<lambda>rest. Inr ((p, case b of Some c \<Rightarrow> c | None \<Rightarrow> []) # rest)))"

text \<open>Every read comes before the first change.\<close>

definition stage_rename :: "mount_env \<Rightarrow> objects \<Rightarrow> path \<Rightarrow> path \<Rightarrow> mount_state \<Rightarrow> (mount_error + unit) \<times> mount_state" where
  "stage_rename v os from_path to_path st =
     (case rename_movers st from_path of
        (fs, ds) \<Rightarrow>
          (case read_movers v os st fs of
             Inl e \<Rightarrow> (Inl e, st)
           | Inr contents \<Rightarrow>
               (let mode_or = (\<lambda>p m. case current_mode st p of Some m' \<Rightarrow> m' | None \<Rightarrow> m);
                    st1 = fold (\<lambda>(src, content) st1.
                        let dst = remap from_path to_path src in
                        with_overlay (ov_insert_file dst content (mode_or src file_mode))
                          (ensure_overlay_dirs dst (with_overlay (ov_mark_removed src) st1)))
                      contents st;
                    st2 = fold (\<lambda>src st2.
                        with_overlay (ov_insert_dir (remap from_path to_path src) (mode_or src dir_mode))
                          (with_overlay (ov_mark_removed src) st2))
                      ds st1
                in (Inr (), st2))))"

definition stage_remove :: "path \<Rightarrow> mount_state \<Rightarrow> mount_state" where
  "stage_remove p st =
     (case rename_movers st p of (fs, ds) \<Rightarrow> fold (\<lambda>src. with_overlay (ov_mark_removed src)) (fs @ ds) st)"

section \<open>The handlers of the kernel\<close>

text \<open>
  Paths stand for the inodes that resolve to them. A reader sees a sealed file as a placeholder
  and the regions of the others redacted; the handlers that rewrite a file read it the same way.
\<close>

datatype errno = ENOENT | EBUSY | EROFS | EIO | ENOTEMPTY | EISDIR | ENOSYS | EEXIST

definition sealed_placeholder :: "path \<Rightarrow> string" where
  "sealed_placeholder p = ''[sealed:'' @ rel_text p @ '']'' @ [CHR 0x0A]"

definition read_bytes :: "mount_env \<Rightarrow> objects \<Rightarrow> mount_state \<Rightarrow> path \<Rightarrow> mount_error + string" where
  "read_bytes v os st p =
     (case ov_get (mt_overlay st) p of
        Some (OFile content _) \<Rightarrow>
          Inr (if me_sealed v (rel_text p) then sealed_placeholder p else me_redact v (rel_text p) content)
      | Some _ \<Rightarrow> Inr []
      | None \<Rightarrow>
          (if me_sealed v (rel_text p) then Inr (sealed_placeholder p)
           else
             (case map_of (mt_view st) p of
                Some e \<Rightarrow> (if en_kind e = EBlob
                  then try_with (blob_text v os p (en_target e)) (\<lambda>b. Inr (me_redact v (rel_text p) b)) else Inr [])
              | None \<Rightarrow> Inr [])))"

abbreviation mount_root :: "mount_state \<Rightarrow> path \<Rightarrow> bool" where
  "mount_root st \<equiv> is_enabled_mount_root (mt_registry st)"

abbreviation unkeyed :: "mount_state \<Rightarrow> path \<Rightarrow> bool" where
  "unkeyed st p \<equiv> unkeyed_shared_owner (mt_registry st) p \<noteq> None"

definition k_create :: "path \<Rightarrow> u32 \<Rightarrow> mount_state \<Rightarrow> (errno + unit) \<times> mount_state" where
  "k_create p m st =
     (if mount_root st p then (Inl EBUSY, st)
      else if unkeyed st p then (Inl EROFS, st)
      else (Inr (), with_overlay (ov_insert_file p [] m) st))"

text \<open>The bytes of a write at an offset; a gap is filled with zero bytes.\<close>

definition splice :: "nat \<Rightarrow> string \<Rightarrow> string \<Rightarrow> string" where
  "splice start chunk buf =
     (let buf' = buf @ replicate (start + length chunk - length buf) (CHR 0x00) in
      take start buf' @ chunk @ drop (start + length chunk) buf')"

definition k_write :: "mount_env \<Rightarrow> objects \<Rightarrow> path \<Rightarrow> int \<Rightarrow> string \<Rightarrow> mount_state \<Rightarrow> (errno + nat) \<times> mount_state" where
  "k_write v os p offset chunk st =
     (if unkeyed st p then (Inl EROFS, st)
      else
        (case read_bytes v os st p of
           Inl _ \<Rightarrow> (Inl EIO, st)
         | Inr bytes \<Rightarrow>
             (let m = (case current_mode st p of Some m \<Rightarrow> m | None \<Rightarrow> file_mode) in
              (Inr (length chunk),
               with_overlay (ov_insert_file p (splice (nat (max offset 0)) chunk bytes) m) st))))"

definition k_mkdir :: "path \<Rightarrow> u32 \<Rightarrow> mount_state \<Rightarrow> (errno + unit) \<times> mount_state" where
  "k_mkdir p m st =
     (if unkeyed st p then (Inl EROFS, st) else (Inr (), with_overlay (ov_insert_dir p m) st))"

definition k_unlink :: "path \<Rightarrow> mount_state \<Rightarrow> (errno + unit) \<times> mount_state" where
  "k_unlink p st =
     (if entry_kind_of st p \<noteq> Some EBlob then (Inl ENOENT, st)
      else (Inr (), with_overlay (ov_mark_removed p) st))"

definition k_rmdir :: "path \<Rightarrow> mount_state \<Rightarrow> (errno + unit) \<times> mount_state" where
  "k_rmdir p st =
     (if mount_root st p then (Inl EBUSY, st)
      else if entry_kind_of st p \<noteq> Some EDir then (Inl ENOENT, st)
      else if read_dir_entries st p \<noteq> [] then (Inl ENOTEMPTY, st)
      else (Inr (), with_overlay (ov_mark_removed p) st))"

definition k_rename ::
  "mount_env \<Rightarrow> objects \<Rightarrow> bool \<Rightarrow> bool \<Rightarrow> path \<Rightarrow> path \<Rightarrow> mount_state \<Rightarrow> (errno + unit) \<times> mount_state" where
  "k_rename v os exchange noreplace from_path to_path st =
     (if entry_kind_of st from_path = None then (Inl ENOENT, st)
      else if mount_root st from_path \<or> mount_root st to_path then (Inl EBUSY, st)
      else if unkeyed st to_path then (Inl EROFS, st)
      else if exchange then (Inl ENOSYS, st)
      else if noreplace \<and> entry_kind_of st to_path \<noteq> None then (Inl EEXIST, st)
      else
        (case stage_rename v os from_path to_path st of
           (Inl _, st') \<Rightarrow> (Inl EIO, st')
         | (Inr _, st') \<Rightarrow> (Inr (), st')))"

definition unwrap_or_empty :: "mount_error + string \<Rightarrow> string" where
  "unwrap_or_empty r = (case r of Inr b \<Rightarrow> b | Inl _ \<Rightarrow> [])"

definition attr_reply :: "path \<Rightarrow> mount_state \<Rightarrow> (errno + unit) \<times> mount_state" where
  "attr_reply p st = (if p = [] \<or> path_exists st p then Inr () else Inl ENOENT, st)"

definition k_setattr ::
  "mount_env \<Rightarrow> objects \<Rightarrow> path \<Rightarrow> u32 option \<Rightarrow> nat option \<Rightarrow> mount_state \<Rightarrow> (errno + unit) \<times> mount_state" where
  "k_setattr v os p m len st =
     (if (m \<noteq> None \<or> len \<noteq> None) \<and> mount_root st p then (Inl EBUSY, st)
      else if (m \<noteq> None \<or> len \<noteq> None) \<and> unkeyed st p then (Inl EROFS, st)
      else
        (case len of
           Some n \<Rightarrow>
             (if entry_kind_of st p = Some EDir then (Inl EISDIR, st)
              else
                (let bytes = unwrap_or_empty (read_bytes v os st p);
                     resized = take n bytes @ replicate (n - length bytes) (CHR 0x00);
                     cur = (case current_mode st p of Some c \<Rightarrow> c | None \<Rightarrow> file_mode) in
                 attr_reply p
                   (with_overlay (ov_insert_file p resized (case m of Some k \<Rightarrow> k | None \<Rightarrow> cur)) st)))
         | None \<Rightarrow>
             (case m of
                Some k \<Rightarrow> attr_reply p (snd (stage_mode p k (unwrap_or_empty (read_bytes v os st p)) st))
              | None \<Rightarrow> attr_reply p st)))"

end
