(* ===== verification/Fuse_Spec.thy ===== *)
theory Fuse_Spec
  imports Fuse_Tree
begin

text \<open>
  What the descent of the mount collects: the files live at their paths whose ancestors all show
  as directories. The snapshot of a commit is exactly the working tree.
\<close>

section \<open>The working tree\<close>

text \<open>The keys of both maps, and a view whose inner nodes are directories.\<close>

definition mount_ok :: "mount_state \<Rightarrow> bool" where
  "mount_ok st \<longleftrightarrow> bm_ok (ov_slots (mt_overlay st)) \<and> bm_ok (mt_view st)"

text \<open>
  What the tip has at a path, and what the mount shows there: a staged directory is a directory, a
  staged file a file, a staged removal nothing, and a path with nothing staged is as in the tip. A
  file staged over a mount root does not count.
\<close>

definition tip_dir :: "mount_state \<Rightarrow> path \<Rightarrow> bool" where
  "tip_dir st p \<longleftrightarrow> (case map_of (mt_view st) p of Some e \<Rightarrow> en_kind e = EDir | None \<Rightarrow> False)"

definition tip_file :: "mount_state \<Rightarrow> path \<Rightarrow> (u32 \<times> content_source) option" where
  "tip_file st p =
     (case map_of (mt_view st) p of
        Some e \<Rightarrow> (if en_kind e = EBlob then Some (en_mode e, From_Blob (en_target e)) else None)
      | None \<Rightarrow> None)"

definition shows_dir :: "mount_state \<Rightarrow> path list \<Rightarrow> path \<Rightarrow> bool" where
  "shows_dir st roots p \<longleftrightarrow>
     (case ov_get (mt_overlay st) p of
        None \<Rightarrow> tip_dir st p
      | Some ORemoved \<Rightarrow> False
      | Some (ODir _) \<Rightarrow> True
      | Some (OFile _ _) \<Rightarrow> p \<in> set roots \<and> tip_dir st p)"

definition live_file :: "mount_state \<Rightarrow> path list \<Rightarrow> path \<Rightarrow> (u32 \<times> content_source) option" where
  "live_file st roots p =
     (case ov_get (mt_overlay st) p of
        None \<Rightarrow> tip_file st p
      | Some ORemoved \<Rightarrow> None
      | Some (ODir _) \<Rightarrow> None
      | Some (OFile c m) \<Rightarrow> (if p \<in> set roots then tip_file st p else Some (m, From_Overlay c)))"

text \<open>The descent decides the same by its shadowing test.\<close>

lemma shows_dir_shadowed:
  "shows_dir st roots p \<longleftrightarrow>
     (\<exists>m. ov_get (mt_overlay st) p = Some (ODir m)) \<or>
     \<not> shadowed st roots p \<and> map_option en_kind (map_of (mt_view st) p) = Some EDir"
  by (auto simp: shows_dir_def tip_dir_def shadowed_def split: option.split overlay_entry.split)

lemma live_file_shadowed:
  "live_file st roots p =
     (if shadowed st roots p
      then (case ov_get (mt_overlay st) p of Some (OFile c m) \<Rightarrow> Some (m, From_Overlay c) | _ \<Rightarrow> None)
      else (case map_of (mt_view st) p of
              Some e \<Rightarrow> (if en_kind e = EBlob then Some (en_mode e, From_Blob (en_target e)) else None)
            | None \<Rightarrow> None))"
  by (simp add: live_file_def tip_file_def shadowed_def split: option.split overlay_entry.split)

lemma file_not_dir: "live_file st roots p = Some x \<Longrightarrow> \<not> shows_dir st roots p"
  by (auto simp: live_file_shadowed shows_dir_shadowed shadowed_def
      split: if_splits option.splits overlay_entry.splits)

text \<open>Every proper ancestor below a start shows as a directory.\<close>

fun reaches :: "mount_state \<Rightarrow> path list \<Rightarrow> path \<Rightarrow> path \<Rightarrow> bool" where
  "reaches st roots dir [] \<longleftrightarrow> False"
| "reaches st roots dir [n] \<longleftrightarrow> True"
| "reaches st roots dir (n # m # ms) \<longleftrightarrow>
     shows_dir st roots (dir @ [n]) \<and> reaches st roots (dir @ [n]) (m # ms)"

lemma reaches_iff:
  "reaches st roots dir q \<longleftrightarrow> q \<noteq> [] \<and> (\<forall>k. 0 < k \<longrightarrow> k < length q \<longrightarrow> shows_dir st roots (dir @ take k q))"
proof (induction st roots dir q rule: reaches.induct)
  case (3 st roots dir n m ms)
  have "(\<forall>k. 0 < k \<longrightarrow> k < length (n # m # ms) \<longrightarrow> shows_dir st roots (dir @ take k (n # m # ms))) \<longleftrightarrow>
      shows_dir st roots (dir @ [n]) \<and>
      (\<forall>k. 0 < k \<longrightarrow> k < length (m # ms) \<longrightarrow> shows_dir st roots ((dir @ [n]) @ take k (m # ms)))" (is "?l \<longleftrightarrow> ?r")
  proof
    assume l: ?l
    have "shows_dir st roots ((dir @ [n]) @ take k (m # ms))" if "0 < k" "k < length (m # ms)" for k
      using l [rule_format, of "Suc k"] that by simp
    then show ?r using l [rule_format, of 1] by simp
  next
    assume r: ?r
    show ?l
    proof (intro allI impI)
      fix k assume "0 < k" "k < length (n # m # ms)"
      then obtain j where k: "k = Suc j" "j < length (m # ms)" by (cases k) auto
      show "shows_dir st roots (dir @ take k (n # m # ms))"
        using r [THEN conjunct2, rule_format, of j] r k by (cases j) auto
    qed
  qed
  then show ?case using 3 by simp
qed auto

text \<open>The working tree: the file a path shows, ignored names left out.\<close>

definition working :: "mount_state \<Rightarrow> string list \<Rightarrow> path \<Rightarrow> (u32 \<times> content_source) option" where
  "working st user p =
     (let roots = enabled_mount_roots (mt_registry st) in
      if reaches st roots [] p \<and> \<not> is_ignored user p then live_file st roots p else None)"

section \<open>What the descent collects\<close>

lemma bm_at: "bm_ok xs \<Longrightarrow> (k, x) \<in> set xs \<longleftrightarrow> map_of xs k = Some x"
  by (rule bm_ok_mem)

lemma overlay_children_at:
  assumes "bm_ok (ov_slots (mt_overlay st))"
  shows "(p, e) \<in> set (overlay_children st dir) \<longleftrightarrow>
    (p \<noteq> [] \<and> butlast p = dir \<and> ov_get (mt_overlay st) p = Some e)"
proof -
  have "(p, e) \<in> set (overlay_children st dir) \<longleftrightarrow>
      p \<noteq> [] \<and> butlast p = dir \<and> (\<exists>s. (p, s) \<in> set (ov_slots (mt_overlay st)) \<and> sl_entry s = e)"
    unfolding overlay_children_def by force
  then show ?thesis by (auto simp: bm_at [OF assms] ov_get_def)
qed

lemma view_children_at:
  assumes "bm_ok view"
  shows "(p, e) \<in> set (view_children view dir) \<longleftrightarrow> p \<noteq> [] \<and> butlast p = dir \<and> map_of view p = Some e"
  unfolding view_children_def using bm_at [OF assms] by (auto simp: butlast_shorter) (metis butlast_shorter less_irrefl)

lemma child_at:
  "(\<exists>p e. (p \<noteq> [] \<and> butlast p = dir \<and> A p e) \<and> B p e) \<longleftrightarrow> (\<exists>n e. A (dir @ [n]) e \<and> B (dir @ [n]) e)"
proof
  assume "\<exists>p e. (p \<noteq> [] \<and> butlast p = dir \<and> A p e) \<and> B p e"
  then obtain p e where "p \<noteq> []" "butlast p = dir" "A p e" "B p e" by blast
  then show "\<exists>n e. A (dir @ [n]) e \<and> B (dir @ [n]) e" by (cases p rule: rev_cases) auto
next
  assume "\<exists>n e. A (dir @ [n]) e \<and> B (dir @ [n]) e"
  then obtain n e where "A (dir @ [n]) e" "B (dir @ [n]) e" by blast
  then show "\<exists>p e. (p \<noteq> [] \<and> butlast p = dir \<and> A p e) \<and> B p e"
    by (intro exI [of _ "dir @ [n]"] exI [of _ e]) simp
qed

lemma concat_map_mem:
  "x \<in> set (concat (map (\<lambda>(p, e). f p e) xs)) \<longleftrightarrow> (\<exists>p e. (p, e) \<in> set xs \<and> x \<in> set (f p e))"
  by force

text \<open>One level: the files among the children and what lies below the child directories.\<close>

lemma collect_step:
  assumes "mount_ok st"
  shows "x \<in> set (collect_live st user roots dir) \<longleftrightarrow>
    (\<exists>n. \<not> is_ignored user (dir @ [n]) \<and>
       ((\<exists>m src. x = (dir @ [n], m, src) \<and> live_file st roots (dir @ [n]) = Some (m, src)) \<or>
        shows_dir st roots (dir @ [n]) \<and> x \<in> set (collect_live st user roots (dir @ [n]))))"
proof -
  let ?o = "\<lambda>p e. if is_ignored user p then []
         else (case e of
             ORemoved \<Rightarrow> []
           | OFile content m \<Rightarrow> (if p \<in> set roots then [] else [(p, m, From_Overlay content)])
           | ODir _ \<Rightarrow> collect_live st user roots p)"
  let ?v = "\<lambda>p e. if shadowed st roots p \<or> is_ignored user p then []
         else (case en_kind e of
             EBlob \<Rightarrow> [(p, en_mode e, From_Blob (en_target e))]
           | EDir \<Rightarrow> collect_live st user roots p)"
  have ok: "bm_ok (ov_slots (mt_overlay st))" "bm_ok (mt_view st)" using assms by (simp_all add: mount_ok_def)
  have eq: "collect_live st user roots dir =
      concat (map (\<lambda>(p, e). ?o p e) (overlay_children st dir)) @
      concat (map (\<lambda>(p, e). ?v p e) (view_children (mt_view st) dir))"
    by (rule collect_live.simps)
  have "x \<in> set (collect_live st user roots dir) \<longleftrightarrow>
      (\<exists>p e. (p, e) \<in> set (overlay_children st dir) \<and> x \<in> set (?o p e)) \<or>
      (\<exists>p e. (p, e) \<in> set (view_children (mt_view st) dir) \<and> x \<in> set (?v p e))"
    unfolding eq set_append Un_iff concat_map_mem ..
  also have "\<dots> \<longleftrightarrow> (\<exists>n e. ov_get (mt_overlay st) (dir @ [n]) = Some e \<and> x \<in> set (?o (dir @ [n]) e)) \<or>
      (\<exists>n e. map_of (mt_view st) (dir @ [n]) = Some e \<and> x \<in> set (?v (dir @ [n]) e))"
    unfolding overlay_children_at [OF ok(1)] view_children_at [OF ok(2)] child_at ..
  also have "\<dots> \<longleftrightarrow> (\<exists>n. (\<exists>e. ov_get (mt_overlay st) (dir @ [n]) = Some e \<and> x \<in> set (?o (dir @ [n]) e)) \<or>
      (\<exists>e. map_of (mt_view st) (dir @ [n]) = Some e \<and> x \<in> set (?v (dir @ [n]) e)))"
    by (rule ex_disj_distrib [symmetric])
  also have "\<dots> \<longleftrightarrow> (\<exists>n. \<not> is_ignored user (dir @ [n]) \<and>
       ((\<exists>m src. x = (dir @ [n], m, src) \<and> live_file st roots (dir @ [n]) = Some (m, src)) \<or>
        shows_dir st roots (dir @ [n]) \<and> x \<in> set (collect_live st user roots (dir @ [n]))))"
  proof (rule arg_cong [where f = Ex], rule ext)
    fix n
    show "((\<exists>e. ov_get (mt_overlay st) (dir @ [n]) = Some e \<and> x \<in> set (?o (dir @ [n]) e)) \<or>
        (\<exists>e. map_of (mt_view st) (dir @ [n]) = Some e \<and> x \<in> set (?v (dir @ [n]) e))) \<longleftrightarrow>
      (\<not> is_ignored user (dir @ [n]) \<and>
       ((\<exists>m src. x = (dir @ [n], m, src) \<and> live_file st roots (dir @ [n]) = Some (m, src)) \<or>
        shows_dir st roots (dir @ [n]) \<and> x \<in> set (collect_live st user roots (dir @ [n]))))"
      by (cases "ov_get (mt_overlay st) (dir @ [n])"; cases "map_of (mt_view st) (dir @ [n])")
        (auto simp: live_file_shadowed shows_dir_shadowed shadowed_def split: overlay_entry.splits view_kind.splits)
  qed
  finally show ?thesis .
qed

text \<open>Below a start, exactly the files all of whose ancestors show as directories.\<close>

lemma shown_known: "shows_dir st roots p \<Longrightarrow> length p \<le> longest st"
proof -
  assume "shows_dir st roots p"
  then have "p \<in> fst ` set (ov_slots (mt_overlay st)) \<or> p \<in> fst ` set (mt_view st)"
    by (auto simp: shows_dir_shadowed ov_get_def dest!: map_of_SomeD intro: rev_image_eqI)
  then have "length p \<in> set (map length (map fst (ov_slots (mt_overlay st)) @ map fst (mt_view st)))" by auto
  then show ?thesis unfolding longest_def by (intro member_le_sum_list) simp_all
qed

lemma is_ignored_below: "is_ignored user (dir @ n # q) \<longleftrightarrow> is_ignored user (dir @ [n])"
  by (cases dir) (simp_all add: is_ignored_def builtin_ignored_def)

lemma collect_live_mem:
  assumes "mount_ok st"
  shows "(p, m, src) \<in> set (collect_live st user roots dir) \<longleftrightarrow>
    (\<exists>q. p = dir @ q \<and> reaches st roots dir q \<and> \<not> is_ignored user p \<and> live_file st roots p = Some (m, src))"
proof (induction "Suc (longest st) - length dir" arbitrary: dir rule: less_induct)
  case less
  have IH: "shows_dir st roots (dir @ [n]) \<Longrightarrow>
      (p, m, src) \<in> set (collect_live st user roots (dir @ [n])) \<longleftrightarrow>
      (\<exists>q. p = dir @ n # q \<and> reaches st roots (dir @ [n]) q \<and> \<not> is_ignored user p \<and>
        live_file st roots p = Some (m, src))" for n
    using less [of "dir @ [n]"] shown_known [of st roots "dir @ [n]"] by simp
  show ?case
  proof
    assume "(p, m, src) \<in> set (collect_live st user roots dir)"
    then obtain n where n: "\<not> is_ignored user (dir @ [n])"
        "p = dir @ [n] \<and> live_file st roots p = Some (m, src) \<or>
         shows_dir st roots (dir @ [n]) \<and> (p, m, src) \<in> set (collect_live st user roots (dir @ [n]))"
      unfolding collect_step [OF assms, of _ user roots dir] by blast
    from n(2) show "\<exists>q. p = dir @ q \<and> reaches st roots dir q \<and> \<not> is_ignored user p \<and>
        live_file st roots p = Some (m, src)"
    proof
      assume "shows_dir st roots (dir @ [n]) \<and> (p, m, src) \<in> set (collect_live st user roots (dir @ [n]))"
      then obtain q where q: "p = dir @ n # q" "reaches st roots (dir @ [n]) q" "\<not> is_ignored user p"
          "live_file st roots p = Some (m, src)" "shows_dir st roots (dir @ [n])"
        using IH [of n] by blast
      then have "reaches st roots dir (n # q)" by (cases q) auto
      then show ?thesis using q by blast
    qed (use n(1) in \<open>auto intro!: exI [of _ "[n]"]\<close>)
  next
    assume "\<exists>q. p = dir @ q \<and> reaches st roots dir q \<and> \<not> is_ignored user p \<and> live_file st roots p = Some (m, src)"
    then obtain q where q: "p = dir @ q" "reaches st roots dir q" "\<not> is_ignored user p"
        "live_file st roots p = Some (m, src)" by blast
    then obtain n ns where qn: "q = n # ns" by (cases q) auto
    have ig: "\<not> is_ignored user (dir @ [n])" using q(1,3) qn is_ignored_below [of user dir n ns] by simp
    show "(p, m, src) \<in> set (collect_live st user roots dir)"
    proof (cases ns)
      case Nil
      then show ?thesis unfolding collect_step [OF assms, of _ user roots dir] using ig q qn by auto
    next
      case (Cons k ks)
      then have "shows_dir st roots (dir @ [n])" "reaches st roots (dir @ [n]) ns" using q(2) qn by simp_all
      then show ?thesis
        unfolding collect_step [OF assms, of _ user roots dir] using ig IH [of n] q qn by auto
    qed
  qed
qed

lemma collect_working:
  assumes "mount_ok st"
  shows "(p, m, src) \<in> set (collect_live st user (enabled_mount_roots (mt_registry st)) []) \<longleftrightarrow>
    working st user p = Some (m, src)"
  by (auto simp: collect_live_mem [OF assms] working_def Let_def)

lemma working_apart:
  assumes "working st user p = Some x" "working st user q = Some y" "path_under p q"
  shows "p = q"
proof (rule ccontr)
  assume ne: "p \<noteq> q"
  obtain r where r: "q = p @ r" using assms(3) by (auto simp: path_under_conv)
  let ?roots = "enabled_mount_roots (mt_registry st)"
  have "reaches st ?roots [] q" "live_file st ?roots p = Some x" "p \<noteq> []"
    using assms(1,2) by (auto simp: working_def Let_def split: if_splits)
  then have "shows_dir st ?roots p" using r ne by (force simp: reaches_iff)
  then show False using file_not_dir [OF \<open>live_file st ?roots p = Some x\<close>] by blast
qed

end
