(* ===== verification/Fuse_Props.thy ===== *)
theory Fuse_Props
  imports Fuse_Spec
begin

text \<open>
  The snapshot a commit is cut from is the working tree, and the rotation after the commit leaves
  the working tree as it was.
\<close>

section \<open>The snapshot is the working tree\<close>

text \<open>Files inserted in any order, a path more than once when it always carries the same file.\<close>

lemma file_at_insert_apart:
  assumes "\<And>p q. p \<in> fst ` set fs \<Longrightarrow> q \<in> fst ` set fs \<Longrightarrow> path_under p q \<Longrightarrow> p = q"
    and "\<And>p x y. (p, x) \<in> set fs \<Longrightarrow> (p, y) \<in> set fs \<Longrightarrow> x = y"
    and "\<And>p. p \<in> fst ` set fs \<Longrightarrow> p \<noteq> [] \<and> writable_at ch p"
  shows "file_at (insert_all fs ch) q =
    (case map_of fs q of Some (m, c) \<Rightarrow> Some (m AND mode_mask, c) | None \<Rightarrow> file_at ch q)"
  using assms
proof (induction fs arbitrary: ch)
  case Nil
  show ?case by simp
next
  case (Cons f fs)
  obtain p m c where f: "f = (p, m, c)" by (cases f) auto
  have pw: "p \<noteq> []" "writable_at ch p" using Cons.prems(3) [of p] by (simp_all add: f)
  have at: "file_at (insert_file ch p m c) r = (if r = p then Some (m AND mode_mask, c) else file_at ch r)" for r
    using file_at_insert pw by blast
  have ap: "r = p" if "r \<in> fst ` set fs" "path_under p r \<or> path_under r p" for r
    using Cons.prems(1) [of p r] Cons.prems(1) [of r p] that f by auto
  have "file_at (insert_all fs (insert_file ch p m c)) q =
      (case map_of fs q of Some (m, c) \<Rightarrow> Some (m AND mode_mask, c) | None \<Rightarrow> file_at (insert_file ch p m c) q)"
  proof (rule Cons.IH)
    fix r assume r: "r \<in> fst ` set fs"
    then have "r \<noteq> [] \<and> writable_at ch r" using Cons.prems(3) [of r] by simp
    then show "r \<noteq> [] \<and> writable_at (insert_file ch p m c) r"
      using ap [OF r] by (auto simp: writable_at_def at)
  next
    show "\<And>q r. q \<in> fst ` set fs \<Longrightarrow> r \<in> fst ` set fs \<Longrightarrow> path_under q r \<Longrightarrow> q = r"
      by (rule Cons.prems(1)) simp_all
    show "\<And>q x y. (q, x) \<in> set fs \<Longrightarrow> (q, y) \<in> set fs \<Longrightarrow> x = y" by (meson Cons.prems(2) list.set_intros(2))
  qed
  moreover have "map_of fs p = Some (m', c') \<Longrightarrow> m' = m \<and> c' = c" for m' c'
    using Cons.prems(2) [of p "(m, c)" "(m', c')"] by (auto simp: f dest: map_of_SomeD)
  ultimately show ?case by (auto simp: f at split: option.split)
qed

text \<open>The assembly resolves every source, the first that fails decides.\<close>

definition resolved :: "mount_env \<Rightarrow> objects \<Rightarrow> path \<times> u32 \<times> content_source \<Rightarrow> path \<times> u32 \<times> string" where
  "resolved v os f = (case f of (p, m, src) \<Rightarrow> (p, m, projr (resolve_content v os p src)))"

lemma assemble_ok:
  "assemble_files v os fs s = Inr s' \<Longrightarrow>
     (\<forall>(p, m, src) \<in> set fs. \<exists>c. resolve_content v os p src = Inr c) \<and>
     s' = s\<lparr>ws_root := insert_all (map (resolved v os) fs) (ws_root s)\<rparr>"
  by (induction v os fs s rule: assemble_files.induct)
    (auto simp: try_with_Inr resolved_def snapshot_insert_def)

lemma assemble_fails:
  "assemble_files v os fs s = Inl e \<Longrightarrow> \<exists>(p, m, src) \<in> set fs. resolve_content v os p src = Inl e"
  by (induction v os fs s rule: assemble_files.induct) (auto simp: try_with_Inl)

definition file_of ::
  "mount_env \<Rightarrow> objects \<Rightarrow> path \<Rightarrow> (u32 \<times> content_source) option \<Rightarrow> (u32 \<times> string) option" where
  "file_of v os p f = (case f of
     None \<Rightarrow> None | Some (m, src) \<Rightarrow> Some (m AND mode_mask, projr (resolve_content v os p src)))"

lemma unified_at:
  assumes "mount_ok st" "unified_snapshot v os st = Inr u"
  shows "\<exists>user. inmem_ignore v os st = Inr user \<and> tree_ok (ws_root u) \<and> pruned (ws_root u) \<and>
    ws_overlay_generation u = Some (ov_gen (mt_overlay st)) \<and>
    (\<forall>p. file_at (ws_root u) p = file_of v os p (working st user p) \<and>
       (\<forall>m src. working st user p = Some (m, src) \<longrightarrow> (\<exists>c. resolve_content v os p src = Inr c)))"
proof -
  let ?fs = "\<lambda>user. collect_live st user (enabled_mount_roots (mt_registry st)) []"
  obtain user s where ru: "inmem_ignore v os st = Inr user" "assemble_files v os (?fs user) snapshot_empty = Inr s"
      "u = (snapshot_prune s)\<lparr>ws_overlay_generation := Some (ov_gen (mt_overlay st))\<rparr>"
    using assms(2) by (auto simp: unified_snapshot_def try_with_Inr)
  note col = collect_working [OF assms(1), of _ _ _ user]
  let ?rs = "map (resolved v os) (?fs user)"
  have s: "ws_root s = insert_all ?rs []"
    using assemble_ok [OF ru(2)] by (simp add: snapshot_empty_def)
  have mem: "(p, m, c) \<in> set ?rs \<longleftrightarrow>
      (\<exists>src. working st user p = Some (m, src) \<and> c = projr (resolve_content v os p src))" for p m c
    using col by (force simp: resolved_def)
  have at: "file_at (insert_all ?rs []) p = file_of v os p (working st user p)" for p
  proof -
    have "file_at (insert_all ?rs []) p =
        (case map_of ?rs p of Some (m, c) \<Rightarrow> Some (m AND mode_mask, c) | None \<Rightarrow> file_at [] p)"
    proof (rule file_at_insert_apart)
      fix q r assume "q \<in> fst ` set ?rs" "r \<in> fst ` set ?rs" "path_under q r"
      moreover from this obtain x y where "(q, x) \<in> set ?rs" "(r, y) \<in> set ?rs" by fastforce
      ultimately show "q = r" using mem working_apart by (metis surj_pair)
    next
      fix q assume "q \<in> fst ` set ?rs"
      then obtain x where "(q, x) \<in> set ?rs" by fastforce
      then have "working st user q \<noteq> None" using mem [of q "fst x" "snd x"] by auto
      then show "q \<noteq> [] \<and> writable_at [] q"
        by (auto simp: working_def Let_def writable_at_def split: if_splits)
    next
      fix q x y assume "(q, x) \<in> set ?rs" "(q, y) \<in> set ?rs"
      then show "x = y" using mem [of q "fst x" "snd x"] mem [of q "fst y" "snd y"] by (auto simp: prod_eq_iff)
    qed
    also have "\<dots> = file_of v os p (working st user p)"
    proof (cases "map_of ?rs p")
      case None
      then have "(p, m, c) \<notin> set ?rs" for m c
        unfolding map_of_eq_None_iff by (metis fst_conv image_eqI)
      then have "working st user p = None" using mem [of p] by (metis not_Some_eq surj_pair)
      then show ?thesis using None by (simp add: file_of_def)
    next
      case (Some x)
      then have "(p, fst x, snd x) \<in> set ?rs" using map_of_SomeD [OF Some] by (simp only: prod.collapse)
      then show ?thesis using mem [of p "fst x" "snd x"] Some by (auto simp: file_of_def split_beta)
    qed
    finally show ?thesis .
  qed
  have ok: "tree_ok (insert_all ?rs [])" by (rule tree_ok_insert_all) simp
  have "\<exists>c. resolve_content v os p src = Inr c" if "working st user p = Some (m, src)" for p m src
    using assemble_ok [OF ru(2)] col [of p m src] that by blast
  then show ?thesis
    using ru(1,3) s at tree_ok_prune [OF ok] pruned_prune file_at_prune [OF ok]
    by (auto simp: snapshot_prune_def simp del: node_ok.simps(2) no_empty_dirs.simps(2))
qed

text \<open>
  C9. The snapshots a commit is cut from are the working tree. When the mount assembles them, every
  file of the working tree (a path whose ancestors all show as directories, that shows a file, and
  whose top name is not ignored) has readable content; and the snapshot of each enabled chain is a
  well-formed tree without empty directories, stamped with the overlay generation, that holds
  exactly the working files the chain owns, below its mount, with their permission bits and content
  as the overlay or the decrypted tip has them. No owned file is left out and nothing else gets in.
\<close>

theorem snapshot_is_working_tree:
  assumes "mount_ok st" "registry_ok (mt_registry st)" "chain_snapshots v os st = Inr parts"
  shows "\<exists>user. inmem_ignore v os st = Inr user \<and>
    (\<forall>p m src. working st user p = Some (m, src) \<longrightarrow> (\<exists>c. resolve_content v os p src = Inr c)) \<and>
    (\<forall>ch \<in> set (enabled_chains (mt_registry st)). let s = snapshot_of parts ch in
       tree_ok (ws_root s) \<and> pruned (ws_root s) \<and>
       ws_overlay_generation s = Some (ov_gen (mt_overlay st)) \<and>
       (\<forall>q. file_at (ws_root s) q =
          (let p = mount_of ch @ q in
           if q \<noteq> [] \<and> owning_chain (mt_registry st) p = ch then file_of v os p (working st user p) else None)))"
proof -
  obtain u where u: "unified_snapshot v os st = Inr u" "parts = split_snapshot (mt_registry st) u"
    using assms(3) by (auto simp: chain_snapshots_def try_with_Inr)
  obtain user where user: "inmem_ignore v os st = Inr user" "tree_ok (ws_root u)"
      "ws_overlay_generation u = Some (ov_gen (mt_overlay st))"
      "\<forall>p. file_at (ws_root u) p = file_of v os p (working st user p) \<and>
       (\<forall>m src. working st user p = Some (m, src) \<longrightarrow> (\<exists>c. resolve_content v os p src = Inr c))"
    using unified_at [OF assms(1) u(1)] by blast
  have "let s = snapshot_of parts ch in
       tree_ok (ws_root s) \<and> pruned (ws_root s) \<and> ws_overlay_generation s = Some (ov_gen (mt_overlay st)) \<and>
       (\<forall>q. file_at (ws_root s) q =
          (let p = mount_of ch @ q in
           if q \<noteq> [] \<and> owning_chain (mt_registry st) p = ch then file_of v os p (working st user p) else None))"
    if "ch \<in> set (enabled_chains (mt_registry st))" for ch
    using split_snapshot_routes [OF assms(2) user(2) that] user(3,4) unfolding u(2) Let_def by metis
  then show ?thesis using user(1,4) by blast
qed

end
