(* ===== verification/Fuse_Stage.thy ===== *)
theory Fuse_Stage
  imports Fuse_Props
begin

text \<open>
  What the handlers do to the overlay: every one of them is a sequence of staged entries, each
  newer than all before. What the absorption keeps of such an overlay.
\<close>

section \<open>Sequences of staged entries\<close>

definition stage_all :: "(path \<times> overlay_entry) list \<Rightarrow> mount_state \<Rightarrow> mount_state" where
  "stage_all es st = fold (\<lambda>(p, e). with_overlay (ov_stage p e)) es st"

lemma stage_all_simps [simp]:
  "stage_all [] st = st"
  "stage_all ((p, e) # es) st = stage_all es (with_overlay (ov_stage p e) st)"
  by (simp_all add: stage_all_def)

lemma stage_all_append: "stage_all (es @ es') st = stage_all es' (stage_all es st)"
  by (simp add: stage_all_def)

lemma stage_all_fields [simp]:
  "mt_view (stage_all es st) = mt_view st" "mt_registry (stage_all es st) = mt_registry st"
  by (induction es arbitrary: st) (auto simp: with_overlay_def)

lemma ov_get_stage [simp]: "ov_get (ov_stage p e ov) q = (if q = p then Some e else ov_get ov q)"
  by (simp add: ov_get_def ov_stage_def Let_def)

lemma overlay_stage [simp]: "mt_overlay (with_overlay f st) = f (mt_overlay st)"
  by (simp add: with_overlay_def)

definition stages_to :: "mount_state \<Rightarrow> mount_state \<Rightarrow> bool" where
  "stages_to st st' \<longleftrightarrow> (\<exists>es. st' = stage_all es st)"

lemma stages_refl [intro, simp]: "stages_to st st"
  unfolding stages_to_def by (intro exI [of _ "[]"]) simp

lemma stages_trans [trans]: "stages_to st st' \<Longrightarrow> stages_to st' st'' \<Longrightarrow> stages_to st st''"
  unfolding stages_to_def by (metis stage_all_append)

lemma stages_one [intro, simp]: "stages_to st (with_overlay (ov_stage p e) st)"
  unfolding stages_to_def by (intro exI [of _ "[(p, e)]"]) simp

lemma stages_ops [intro, simp]:
  "stages_to st (with_overlay (ov_insert_file p c m) st)"
  "stages_to st (with_overlay (ov_insert_dir p m) st)"
  "stages_to st (with_overlay (ov_mark_removed p) st)"
  by (simp_all add: ov_insert_file_def ov_insert_dir_def ov_mark_removed_def)

lemma stages_fold: "(\<And>x st. x \<in> set xs \<Longrightarrow> stages_to st (f x st)) \<Longrightarrow> stages_to st (fold f xs st)"
proof (induction xs arbitrary: st)
  case (Cons x xs)
  have "stages_to st (f x st)" by (rule Cons.prems) simp
  also have "stages_to (f x st) (fold f xs (f x st))" by (rule Cons.IH) (rule Cons.prems, simp)
  finally show ?case by simp
qed simp

lemma stages_dirs: "stages_to st (ensure_overlay_dirs p st)"
  unfolding ensure_overlay_dirs_def by (rule stages_fold) simp

lemma stages_write: "stages_to st (stage_write p c st)"
  unfolding stage_write_def Let_def using stages_dirs stages_trans stages_ops(1) by blast

lemma stages_remove: "stages_to st (stage_remove p st)"
  unfolding stage_remove_def by (simp only: fold_append o_apply split: prod.split) (auto intro!: stages_trans [OF stages_fold stages_fold])

lemma stages_rename: "stages_to st (snd (stage_rename v os p q st))"
proof -
  have "stages_to st0 (with_overlay (ov_insert_file d c m) (ensure_overlay_dirs d (with_overlay (ov_mark_removed a) st0)))"
    for st0 d c m a
    using stages_trans [OF stages_trans [OF stages_ops(3) stages_dirs] stages_ops(1)] .
  moreover have "stages_to st0 (with_overlay (ov_insert_dir d m) (with_overlay (ov_mark_removed a) st0))" for st0 d m a
    using stages_trans [OF stages_ops(3) stages_ops(2)] .
  ultimately show ?thesis
    unfolding stage_rename_def
    by (auto simp: Let_def split: prod.splits sum.splits intro!: stages_trans [OF stages_fold stages_fold])
qed

text \<open>Every operation of the daemon and every handler of the kernel only stages.\<close>

lemma handlers_stage:
  "stages_to st (snd (k_create p m st))"
  "stages_to st (snd (k_write v os p off c st))"
  "stages_to st (snd (k_mkdir p m st))"
  "stages_to st (snd (k_unlink p st))"
  "stages_to st (snd (k_rmdir p st))"
  "stages_to st (snd (k_rename v os x n p q st))"
  "stages_to st (snd (k_setattr v os p mo len st))"
  "stages_to st (snd (stage_mode p m c st))"
proof -
  show "stages_to st (snd (k_rename v os x n p q st))"
    unfolding k_rename_def using stages_rename [of st v os p q] by (auto split: prod.split sum.split)
qed (auto simp: k_create_def k_write_def k_mkdir_def k_unlink_def k_rmdir_def k_setattr_def attr_reply_def
    stage_mode_def Let_def split: sum.split option.split)

section \<open>Generations\<close>

text \<open>The counter is ahead of every entry.\<close>

definition gens_ok :: "overlay \<Rightarrow> bool" where
  "gens_ok ov \<longleftrightarrow> (\<forall>(p, s) \<in> set (ov_slots ov). sl_gen s \<le> ov_gen ov)"

lemma mount_ok_stage [simp]: "mount_ok st \<Longrightarrow> mount_ok (with_overlay (ov_stage p e) st)"
  by (simp add: mount_ok_def with_overlay_def ov_stage_def Let_def)

lemma mount_ok_stage_all: "mount_ok st \<Longrightarrow> mount_ok (stage_all es st)"
  by (induction es arbitrary: st) auto

lemma stage_generations:
  assumes "unat (ov_gen (mt_overlay st)) + length es < 2 ^ 64" "gens_ok (mt_overlay st)"
  shows "unat (ov_gen (mt_overlay (stage_all es st))) = unat (ov_gen (mt_overlay st)) + length es \<and>
    gens_ok (mt_overlay (stage_all es st)) \<and>
    (\<forall>p s. map_of (ov_slots (mt_overlay (stage_all es st))) p = Some s \<longrightarrow>
      (if p \<in> fst ` set es then ov_gen (mt_overlay st) < sl_gen s
       else map_of (ov_slots (mt_overlay st)) p = Some s))"
  using assms
proof (induction es arbitrary: st)
  case (Cons x es)
  obtain p e where x: "x = (p, e)" by fastforce
  let ?st = "with_overlay (ov_stage p e) st"
  let ?g = "ov_gen (mt_overlay st)"
  have g: "ov_gen (mt_overlay ?st) = ?g + 1" by (simp add: ov_stage_def Let_def)
  have u: "unat (?g + 1) = unat ?g + 1" using Cons.prems(1) by (simp add: unat_word_ariths)
  then have lt: "?g < ?g + 1" by (simp add: word_less_nat_alt)
  have ok: "gens_ok (mt_overlay ?st)"
    unfolding gens_ok_def
  proof clarify
    fix q s assume "(q, s) \<in> set (ov_slots (mt_overlay ?st))"
    then have "(q, s) = (p, \<lparr>sl_gen = ?g + 1, sl_entry = e\<rparr>) \<or> (q, s) \<in> set (ov_slots (mt_overlay st))"
      using set_bm_insert [of p "\<lparr>sl_gen = ?g + 1, sl_entry = e\<rparr>" "ov_slots (mt_overlay st)"]
      by (auto simp: ov_stage_def Let_def)
    then have "sl_gen s = ?g + 1 \<or> sl_gen s \<le> ?g" using Cons.prems(2) by (auto simp: gens_ok_def)
    then show "sl_gen s \<le> ov_gen (mt_overlay ?st)" using lt g by auto
  qed
  have "unat (ov_gen (mt_overlay ?st)) + length es < 2 ^ 64" using Cons.prems(1) u g by simp
  note IH = Cons.IH [OF this ok]
  have "map_of (ov_slots (mt_overlay (stage_all es ?st))) q = Some s \<Longrightarrow>
      (if q \<in> fst ` set (x # es) then ?g < sl_gen s else map_of (ov_slots (mt_overlay st)) q = Some s)" for q s
    using IH [THEN conjunct2, THEN conjunct2, rule_format, of q s] lt g
    by (auto simp: x ov_stage_def Let_def split: if_splits)
  then show ?case using IH u g by (auto simp: x)
qed (auto simp: gens_ok_def)

lemma stages_present: "p \<in> fst ` set es \<Longrightarrow> ov_get (mt_overlay (stage_all es st)) p \<noteq> None"
proof (induction es arbitrary: st)
  case (Cons x es)
  have keep: "ov_get (mt_overlay st) p \<noteq> None \<Longrightarrow> ov_get (mt_overlay (stage_all es st)) p \<noteq> None" for st
    by (induction es arbitrary: st) auto
  show ?case
  proof (cases "p = fst x")
    case True
    then show ?thesis using keep [of "with_overlay (ov_stage (fst x) (snd x)) st"] by (cases x) auto
  qed (use Cons in \<open>cases x; auto\<close>)
qed simp

lemma unstaged: "p \<notin> fst ` set es \<Longrightarrow> ov_get (mt_overlay (stage_all es st)) p = ov_get (mt_overlay st) p"
proof (induction es arbitrary: st)
  case (Cons x es)
  then show ?case by (cases x) auto
qed simp

section \<open>The absorption\<close>

text \<open>
  What survives: what is newer or not absorbed, and a marker with such an entry that is no marker
  strictly below.
\<close>

lemma absorbed_at:
  assumes "bm_ok (ov_slots ov)"
  shows "map_of (ov_slots (remove_absorbed cutoff owned ov)) p =
    (case map_of (ov_slots ov) p of
       None \<Rightarrow> None
     | Some s \<Rightarrow>
         (if cutoff < sl_gen s \<or> \<not> owned p \<or>
            is_dir_marker (sl_entry s) \<and>
            (\<exists>f t. map_of (ov_slots ov) f = Some t \<and> \<not> is_dir_marker (sl_entry t) \<and>
               (cutoff < sl_gen t \<or> \<not> owned f) \<and> path_under p f \<and> f \<noteq> p)
          then Some s else None))"
proof -
  let ?kept = "filter (\<lambda>(p, s). cutoff < sl_gen s \<or> is_dir_marker (sl_entry s) \<or> \<not> owned p) (ov_slots ov)"
  let ?surv = "map fst (filter (\<lambda>(p, s). \<not> is_dir_marker (sl_entry s)) ?kept)"
  have surv: "f \<in> set ?surv \<longleftrightarrow> (\<exists>t. map_of (ov_slots ov) f = Some t \<and> \<not> is_dir_marker (sl_entry t) \<and>
      (cutoff < sl_gen t \<or> \<not> owned f))" for f
    using bm_ok_mem [OF assms, of f] by force
  have "ov_slots (remove_absorbed cutoff owned ov) =
      filter (\<lambda>(p, s). \<not> is_dir_marker (sl_entry s) \<or> cutoff < sl_gen s \<or> \<not> owned p \<or>
         list_ex (\<lambda>f. path_under p f \<and> f \<noteq> p) ?surv) ?kept"
    by (simp add: remove_absorbed_def Let_def)
  then have "map_of (ov_slots (remove_absorbed cutoff owned ov)) p =
      (case map_of (ov_slots ov) p of
         None \<Rightarrow> None
       | Some s \<Rightarrow> (if (cutoff < sl_gen s \<or> is_dir_marker (sl_entry s) \<or> \<not> owned p) \<and>
            (\<not> is_dir_marker (sl_entry s) \<or> cutoff < sl_gen s \<or> \<not> owned p \<or>
              (\<exists>f \<in> set ?surv. path_under p f \<and> f \<noteq> p)) then Some s else None))"
    by (simp only: map_of_filter_ok [OF assms] map_of_filter_ok [OF bm_ok_filter [OF assms]] list_ex_iff)
      (auto split: option.split)
  then show ?thesis unfolding surv Bex_def by (auto split: option.split)
qed

lemma bm_ok_absorbed: "bm_ok (ov_slots ov) \<Longrightarrow> bm_ok (ov_slots (remove_absorbed cutoff owned ov))"
  by (simp add: remove_absorbed_def Let_def bm_ok_filter)

end
