(* ===== verification/Fuse_Rotation.thy ===== *)
theory Fuse_Rotation
  imports Fuse_Stage
begin

text \<open>
  The commit of a working tree and the rotation after it, with what was staged in between: what the
  commit took is served from the new tip as it was from the overlay, and no later entry is lost.
\<close>

section \<open>Without shares\<close>

definition no_shares_mounted :: "chain_registry \<Rightarrow> bool" where
  "no_shares_mounted reg \<longleftrightarrow> cr_device reg = chain_device \<and> list_all (\<lambda>c. \<not> ch_enabled c) (cr_shared reg)"

lemma unmounted:
  assumes "no_shares_mounted reg"
  shows "enabled_chains reg = [chain_device]" "owning_chain reg p = chain_device"
    "enabled_mount_roots reg = []" "registry_ok reg"
    "build_union v d reg = (case try_get_ref d tip_ref of Some h \<Rightarrow> chain_view d h | None \<Rightarrow> Some (Inr (view_empty v)))"
proof -
  have dev: "cr_device reg = chain_device" and off: "list_all (\<lambda>c. \<not> ch_enabled c) (cr_shared reg)"
    using assms by (simp_all add: no_shares_mounted_def)
  have "filter ch_enabled (cr_shared reg) = []" using off by (simp add: filter_empty_conv list_all_iff)
  then show en: "enabled_chains reg = [chain_device]" by (simp add: enabled_chains_def dev)
  then show "owning_chain reg p = chain_device" using owner_enabled [of reg p] by simp
  show "enabled_mount_roots reg = []" by (simp add: enabled_mount_roots_def en chain_device_def)
  show "registry_ok reg" by (simp add: registry_ok_def en dev chain_device_def)
  have graft: "list_all (\<lambda>c. \<not> ch_enabled c) cs \<Longrightarrow> graft_chains v d cs view = Some (Inr view)" for cs view
    by (induction cs) auto
  show "build_union v d reg = (case try_get_ref d tip_ref of Some h \<Rightarrow> chain_view d h | None \<Rightarrow> Some (Inr (view_empty v)))"
  proof -
    have "Option.bind m (\<lambda>res. case res of Inl err \<Rightarrow> Some (Inl err) | Inr view \<Rightarrow> graft_chains v d (cr_shared reg) view) = m"
      for m :: "(store_error + path_view) option"
      by (cases m) (auto simp: graft [OF off] split: sum.split)
    then show ?thesis by (simp add: build_union_def dev chain_device_def)
  qed
qed

text \<open>The snapshot of the device is the whole working tree.\<close>

lemma find_ref: "(case find (\<lambda>(r, _). r = k) xs of Some (_, s) \<Rightarrow> s | None \<Rightarrow> z) =
    (case map_of xs k of Some s \<Rightarrow> s | None \<Rightarrow> z)"
  by (induction xs) auto

lemma workdir_at:
  assumes "mount_ok st" "no_shares_mounted (mt_registry st)" "workdir_snapshot v os st = Inr s"
  shows "\<exists>user. inmem_ignore v os st = Inr user \<and> tree_ok (ws_root s) \<and> pruned (ws_root s) \<and>
    ws_overlay_generation s = Some (ov_gen (mt_overlay st)) \<and>
    (\<forall>p. file_at (ws_root s) p = file_of v os p (working st user p) \<and>
       (\<forall>m src. working st user p = Some (m, src) \<longrightarrow> (\<exists>c. resolve_content v os p src = Inr c)))"
proof -
  let ?reg = "mt_registry st"
  obtain u where u: "unified_snapshot v os st = Inr u"
      "s = (case map_of (split_snapshot ?reg u) tip_ref of Some s \<Rightarrow> s | None \<Rightarrow> snapshot_empty)"
    using assms(3) by (auto simp: workdir_snapshot_def chain_snapshots_def try_with_Inr find_ref)
  obtain user where user: "inmem_ignore v os st = Inr user" "tree_ok (ws_root u)"
      "ws_overlay_generation u = Some (ov_gen (mt_overlay st))"
      "\<forall>p. file_at (ws_root u) p = file_of v os p (working st user p) \<and>
       (\<forall>m src. working st user p = Some (m, src) \<longrightarrow> (\<exists>c. resolve_content v os p src = Inr c))"
    using unified_at [OF assms(1) u(1)] by blast
  note un = unmounted [OF assms(2)]
  have dev: "chain_device \<in> set (enabled_chains ?reg)" using un(1) by simp
  have k: "ch_ref chain_device = tip_ref" "ch_mount chain_device = None" by (simp_all add: chain_device_def)
  have "s = snapshot_of (split_snapshot ?reg u) chain_device"
    using u(2) split_snapshot_at [OF dev, of u] by (simp add: k snapshot_of_def)
  then have s: "tree_ok (ws_root s)" "pruned (ws_root s)" "ws_overlay_generation s = Some (ov_gen (mt_overlay st))"
      "file_at (ws_root s) p = (if p \<noteq> [] then file_at (ws_root u) p else None)" for p
    using split_snapshot_routes [OF un(4) user(2) dev] user(3) un(2) k
    by (auto simp: Let_def simp del: node_ok.simps(2) no_empty_dirs.simps(2))
  have "file_at (ws_root s) p = file_at (ws_root u) p" for p using s(4) [of p] by (cases p) auto
  then show ?thesis using user(1,4) s(1-3) by auto
qed

section \<open>The new view\<close>

lemma node_at_dir:
  "node_at ch (a @ k # ks) = Some x \<Longrightarrow> \<exists>sub. node_at ch a = Some (Dir sub)"
  by (induction ch a rule: node_at.induct) (auto split: option.splits tnode.splits)

lemma file_nodeD: "file_at ch p = Some (m, c) \<Longrightarrow> node_at ch p = Some (File m c)"
  by (auto simp: file_at_def split: option.splits tnode.splits)

lemma map_le_Some: "a \<subseteq>\<^sub>m b \<Longrightarrow> a k = Some x \<Longrightarrow> b k = Some x"
  by (metis domI map_le_def)

lemma object_get_grows: "object_get h k os = Inr b \<Longrightarrow> map_of os \<subseteq>\<^sub>m map_of os' \<Longrightarrow> object_get h k os' = Inr b"
  unfolding object_get_def by (cases "map_of os k") (simp_all add: map_le_Some)

lemma resolve_grows:
  "resolve_content v os p src = Inr c \<Longrightarrow> map_of os \<subseteq>\<^sub>m map_of os' \<Longrightarrow> resolve_content v os' p src = Inr c"
  by (cases src) (auto simp: blob_text_def res_simps intro: object_get_grows)

text \<open>The decryption of the mount inverts the encryption of the commits of the device.\<close>

definition decrypts :: "mount_env \<Rightarrow> bool" where
  "decrypts v \<longleftrightarrow> (\<forall>full c cipher.
     ve_encrypt (me_vcs v) tip_ref full c = Inr cipher \<longrightarrow> me_decrypt v full cipher = Some c)"

lemma commit_grows_objects:
  assumes "store_ok v rp" "commit_snapshot_to_with v r s it now policy rp = (Inr out, events, rp')"
  shows "map_of (rp_objects rp) \<subseteq>\<^sub>m map_of (rp_objects rp')"
proof -
  obtain bp os' where "build_with v r (ws_root s) (rp_objects rp) = (Inr bp, os')" "rp_objects rp' = os'"
    using assms(2) by (auto simp: commit_snapshot_to_with_def Let_def split: prod.splits sum.splits)
  then show ?thesis
    using build_objects [of v r "ws_root s" "[]" "[]" "rp_objects rp"] assms(1)
    by (auto simp: build_with_def store_ok_def split: sum.splits prod.splits)
qed

text \<open>A view that serves a tree, with the objects behind it.\<close>

definition serves_tree :: "mount_env \<Rightarrow> objects \<Rightarrow> children \<Rightarrow> path_view \<Rightarrow> bool" where
  "serves_tree v os ch view \<longleftrightarrow>
     (\<forall>k ks. case node_at ch (k # ks) of
        None \<Rightarrow> map_of view (k # ks) = None
      | Some (Dir sub) \<Rightarrow> (\<exists>e. map_of view (k # ks) = Some e \<and> en_kind e = EDir)
      | Some (File m c) \<Rightarrow>
          (\<exists>e. map_of view (k # ks) = Some e \<and> en_kind e = EBlob \<and> en_mode e = m \<and>
             resolve_content v os (k # ks) (From_Blob (en_target e)) = Inr c))"

lemma serves_treeD:
  assumes "serves_tree v os ch view" "p \<noteq> []"
  shows "file_at ch p = Some (m, c) \<Longrightarrow> \<exists>e. map_of view p = Some e \<and> en_kind e = EBlob \<and> en_mode e = m \<and>
      resolve_content v os p (From_Blob (en_target e)) = Inr c"
    and "node_at ch p = Some (Dir sub) \<Longrightarrow> \<exists>e. map_of view p = Some e \<and> en_kind e = EDir"
    and "map_of view p = Some e \<Longrightarrow> en_kind e = EBlob \<Longrightarrow> file_at ch p \<noteq> None"
proof -
  obtain k ks where p: "p = k # ks" using assms(2) by (cases p) auto
  note at = assms(1) [unfolded serves_tree_def, rule_format, of k ks, folded p]
  show "file_at ch p = Some (m, c) \<Longrightarrow> \<exists>e. map_of view p = Some e \<and> en_kind e = EBlob \<and> en_mode e = m \<and>
      resolve_content v os p (From_Blob (en_target e)) = Inr c"
    using at by (auto dest!: file_nodeD simp del: resolve_content.simps)
  show "node_at ch p = Some (Dir sub) \<Longrightarrow> \<exists>e. map_of view p = Some e \<and> en_kind e = EDir"
    using at by auto
  show "map_of view p = Some e \<Longrightarrow> en_kind e = EBlob \<Longrightarrow> file_at ch p \<noteq> None"
    using at by (auto simp: file_at_def split: option.splits tnode.splits)
qed

lemma commit_serves:
  assumes "addressing (me_vcs v)" "signing (me_vcs v)" "store_ok (me_vcs v) rp" "tree_ok (ws_root s)" "decrypts v"
    and "commit_snapshot_to_with (me_vcs v) tip_ref s it now policy rp = (Inr out, events, rp')"
  obtains view where "tip_of rp' tip_ref = Some (co_hash out)"
    "chain_view (rp_db rp') (co_hash out) = Some (Inr view)" "serves_tree v (rp_objects rp') (ws_root s) view"
proof -
  obtain view where view: "tip_of rp' tip_ref = Some (co_hash out)"
      "chain_view (rp_db rp') (co_hash out) = Some (Inr view)"
      "\<forall>k ks. case node_at (ws_root s) (k # ks) of
         None \<Rightarrow> map_of view (k # ks) = None
       | Some (Dir sub) \<Rightarrow> (\<exists>e. map_of view (k # ks) = Some e \<and> en_kind e = EDir)
       | Some (File m content) \<Rightarrow>
           (\<exists>e cipher. map_of view (k # ks) = Some e \<and> en_kind e = EBlob \<and> en_mode e = m \<and>
              ve_encrypt (me_vcs v) tip_ref (foldl child_path [] (k # ks)) content = Inr cipher \<and>
              object_get (ve_hash (me_vcs v)) (en_target e) (rp_objects rp') = Inr cipher)"
    using commit_served [OF assms(1-4,6)] by (elim exE conjE) (rule that)
  have "serves_tree v (rp_objects rp') (ws_root s) view"
    unfolding serves_tree_def
  proof (intro allI)
    fix k ks
    show "case node_at (ws_root s) (k # ks) of
        None \<Rightarrow> map_of view (k # ks) = None
      | Some (Dir sub) \<Rightarrow> (\<exists>e. map_of view (k # ks) = Some e \<and> en_kind e = EDir)
      | Some (File m c) \<Rightarrow>
          (\<exists>e. map_of view (k # ks) = Some e \<and> en_kind e = EBlob \<and> en_mode e = m \<and>
             resolve_content v (rp_objects rp') (k # ks) (From_Blob (en_target e)) = Inr c)"
    proof (cases "node_at (ws_root s) (k # ks)")
      case (Some x)
      have "resolve_content v (rp_objects rp') (k # ks) (From_Blob h) = Inr c"
        if "ve_encrypt (me_vcs v) tip_ref (rel_text (k # ks)) c = Inr cipher"
          "object_get (ve_hash (me_vcs v)) h (rp_objects rp') = Inr cipher" for h c cipher
        using assms(5) [unfolded decrypts_def, rule_format, OF that(1)] that(2) by (simp add: blob_text_def)
      then show ?thesis
        using view(3) [rule_format, of k ks] Some unfolding rel_text_def by (cases x) (auto simp del: node_at.simps resolve_content.simps foldl_Cons)
    qed (use view(3) [rule_format, of k ks] in simp)
  qed
  then show ?thesis using that view(1,2) by blast
qed

section \<open>The overlay after the rotation\<close>

definition rotated :: "mount_state \<Rightarrow> u64 \<Rightarrow> path_view \<Rightarrow> mount_state" where
  "rotated st g view = st\<lparr>mt_view := view, mt_overlay := remove_absorbed g (\<lambda>_. True) (mt_overlay st)\<rparr>"

lemma rotated_overlay:
  fixes view :: path_view
  assumes "mount_ok st" "gens_ok (mt_overlay st)" "unat (ov_gen (mt_overlay st)) + length es < 2 ^ 64"
  defines "st2 \<equiv> rotated (stage_all es st) (ov_gen (mt_overlay st)) view"
  shows "p \<in> fst ` set es \<Longrightarrow> ov_get (mt_overlay st2) p = ov_get (mt_overlay (stage_all es st)) p"
    and "p \<notin> fst ` set es \<Longrightarrow> ov_get (mt_overlay st2) p \<noteq> None \<Longrightarrow>
      \<exists>m. ov_get (mt_overlay st2) p = Some (ODir m) \<and> ov_get (mt_overlay st) p = Some (ODir m)"
    and "ov_get (mt_overlay (stage_all es st)) p = Some (ODir m) \<Longrightarrow> f \<in> fst ` set es \<Longrightarrow>
      ov_get (mt_overlay (stage_all es st)) f = Some (OFile c m') \<Longrightarrow> path_under p f \<Longrightarrow> f \<noteq> p \<Longrightarrow>
      ov_get (mt_overlay st2) p = Some (ODir m)"
proof -
  let ?st1 = "stage_all es st" let ?g = "ov_gen (mt_overlay st)"
  have ok1: "bm_ok (ov_slots (mt_overlay ?st1))"
    using mount_ok_stage_all [OF assms(1)] by (simp add: mount_ok_def)
  have slot: "map_of (ov_slots (mt_overlay ?st1)) q = Some s \<Longrightarrow>
      (if q \<in> fst ` set es then ?g < sl_gen s else map_of (ov_slots (mt_overlay st)) q = Some s)" for q s
    using stage_generations [OF assms(3,2)] by blast
  have old: "\<not> ?g < sl_gen s" if "map_of (ov_slots (mt_overlay st)) q = Some s" for q s
    using assms(2) map_of_SomeD [OF that] by (auto simp: gens_ok_def)
  have st2: "mt_overlay st2 = remove_absorbed ?g (\<lambda>_. True) (mt_overlay ?st1)" by (simp add: st2_def rotated_def)
  note at = absorbed_at [OF ok1, of ?g "\<lambda>_. True", folded st2]
  show "p \<in> fst ` set es \<Longrightarrow> ov_get (mt_overlay st2) p = ov_get (mt_overlay ?st1) p"
    unfolding ov_get_def at using slot [of p] by (auto split: option.split)
  show "p \<notin> fst ` set es \<Longrightarrow> ov_get (mt_overlay st2) p \<noteq> None \<Longrightarrow>
      \<exists>m. ov_get (mt_overlay st2) p = Some (ODir m) \<and> ov_get (mt_overlay st) p = Some (ODir m)"
  proof -
    assume new: "p \<notin> fst ` set es" and "ov_get (mt_overlay st2) p \<noteq> None"
    then obtain s where s: "map_of (ov_slots (mt_overlay st2)) p = Some s" by (auto simp: ov_get_def)
    then have s1: "map_of (ov_slots (mt_overlay ?st1)) p = Some s" "?g < sl_gen s \<or> is_dir_marker (sl_entry s)"
      using at [of p] by (auto split: option.splits if_splits)
    have st: "map_of (ov_slots (mt_overlay st)) p = Some s" using slot [OF s1(1)] new by simp
    then have "is_dir_marker (sl_entry s)" using old s1(2) by blast
    then obtain m where "sl_entry s = ODir m" by (cases "sl_entry s") (auto simp: is_dir_marker_def)
    then show "\<exists>m. ov_get (mt_overlay st2) p = Some (ODir m) \<and> ov_get (mt_overlay st) p = Some (ODir m)"
      using s st by (simp add: ov_get_def)
  qed
  assume prems: "ov_get (mt_overlay ?st1) p = Some (ODir m)" "f \<in> fst ` set es"
      "ov_get (mt_overlay ?st1) f = Some (OFile c m')" "path_under p f" "f \<noteq> p"
  obtain s t where s: "map_of (ov_slots (mt_overlay ?st1)) p = Some s" "sl_entry s = ODir m"
      and t: "map_of (ov_slots (mt_overlay ?st1)) f = Some t" "sl_entry t = OFile c m'"
    using prems(1,3) by (auto simp: ov_get_def)
  have "?g < sl_gen t" using slot [OF t(1)] prems(2) by simp
  then show "ov_get (mt_overlay st2) p = Some (ODir m)"
    unfolding ov_get_def at using s t prems(4,5) by (auto simp: is_dir_marker_def)
qed

text \<open>
  The directory an entry staged later hangs in: a marker of the overlay, or one that nothing was
  staged over and that has a file the commit took below it.
\<close>

definition carried :: "(path \<times> overlay_entry) list \<Rightarrow> mount_state \<Rightarrow> string list \<Rightarrow> path \<Rightarrow> bool" where
  "carried es st user a \<longleftrightarrow>
     (\<exists>m. ov_get (mt_overlay (stage_all es st)) a = Some (ODir m)) \<or>
     a \<notin> fst ` set es \<and> (\<exists>k ks. working st user (a @ k # ks) \<noteq> None)"

lemma workingI:
  "\<not> is_ignored user p \<Longrightarrow> p \<noteq> [] \<Longrightarrow> (\<And>k. 0 < k \<Longrightarrow> k < length p \<Longrightarrow> shows_dir st (enabled_mount_roots (mt_registry st)) (take k p)) \<Longrightarrow>
     working st user p = live_file st (enabled_mount_roots (mt_registry st)) p"
  by (simp add: working_def Let_def reaches_iff)

lemma workingD:
  assumes "working st user p = Some x"
  shows "p \<noteq> []" "\<not> is_ignored user p" "live_file st (enabled_mount_roots (mt_registry st)) p = Some x"
    "0 < k \<Longrightarrow> k < length p \<Longrightarrow> shows_dir st (enabled_mount_roots (mt_registry st)) (take k p)"
  using assms by (auto simp: working_def Let_def reaches_iff split: if_splits)

lemma shown_marker: "ov_get (mt_overlay st) a = Some (ODir m) \<Longrightarrow> shows_dir st roots a"
  by (simp add: shows_dir_def)

lemma shown_slot: "shows_dir st [] a \<Longrightarrow> ov_get (mt_overlay st) a = Some e \<Longrightarrow> \<exists>m. e = ODir m"
  by (cases e) (auto simp: shows_dir_shadowed shadowed_def)

lemma file_node: "file_at ch p \<noteq> None \<Longrightarrow> 0 < k \<Longrightarrow> k < length p \<Longrightarrow> \<exists>sub. node_at ch (take k p) = Some (Dir sub)"
proof -
  assume f: "file_at ch p \<noteq> None" and k: "0 < k" "k < length p"
  have "p = take k p @ p ! k # drop (Suc k) p" using k id_take_nth_drop by blast
  moreover obtain x where "node_at ch p = Some x" using f by (auto simp: file_at_def split: option.splits)
  ultimately show ?thesis using node_at_dir by metis
qed

text \<open>The rotation of a landed commit, path by path.\<close>

lemma rotated_working:
  assumes ok: "mount_ok st" "gens_ok (mt_overlay st)" "unat (ov_gen (mt_overlay st)) + length es < 2 ^ 64"
    and roots: "enabled_mount_roots (mt_registry st) = []"
    and view: "serves_tree v os' ch view"
    and files: "\<And>p. file_at ch p = file_of v os p (working st user p)"
  defines "st2 \<equiv> rotated (stage_all es st) (ov_gen (mt_overlay st)) view"
  shows "p \<notin> fst ` set es \<Longrightarrow> working (stage_all es st) user p = working st user p \<Longrightarrow>
      file_of v os' p (working st2 user p) = file_of v os p (working st user p)"
    and "ov_get (mt_overlay (stage_all es st)) p = Some (OFile c m) \<Longrightarrow> p \<in> fst ` set es \<Longrightarrow>
      p \<noteq> [] \<Longrightarrow> \<not> is_ignored user p \<Longrightarrow> (\<And>k. 0 < k \<Longrightarrow> k < length p \<Longrightarrow> carried es st user (take k p)) \<Longrightarrow>
      working st2 user p = Some (m, From_Overlay c)"
proof -
  let ?st1 = "stage_all es st"
  note ov = rotated_overlay [OF ok, where view = view, folded st2_def]
  have reg: "enabled_mount_roots (mt_registry st2) = []" "enabled_mount_roots (mt_registry ?st1) = []"
    "mt_view st2 = view" using roots by (simp_all add: st2_def rotated_def)
  have fresh: "shows_dir st2 [] a" if "a \<in> fst ` set es" "shows_dir ?st1 [] a" for a
    using stages_present [OF that(1), of st] shown_slot [OF that(2)] ov(1) [OF that(1)] shown_marker by fastforce
  have old: "shows_dir st2 [] a" if "a \<notin> fst ` set es" "a \<noteq> []" "node_at ch a = Some (Dir sub)" for a sub
    using ov(2) [OF that(1)] serves_treeD(2) [OF view that(2,3)]
    by (cases "ov_get (mt_overlay st2) a") (auto simp: shows_dir_shadowed shadowed_def reg)
  show "working st2 user p = Some (m, From_Overlay c)"
    if p: "ov_get (mt_overlay ?st1) p = Some (OFile c m)" "p \<in> fst ` set es" "p \<noteq> []" "\<not> is_ignored user p"
      and anc: "\<And>k. 0 < k \<Longrightarrow> k < length p \<Longrightarrow> carried es st user (take k p)"
  proof -
    have "shows_dir st2 [] (take k p)" if k: "0 < k" "k < length p" for k
      using anc [OF k] unfolding carried_def
    proof (elim disjE conjE exE)
      fix m' assume "ov_get (mt_overlay ?st1) (take k p) = Some (ODir m')"
      moreover have "path_under (take k p) p" "p \<noteq> take k p" using k by (auto simp: path_under_def) (metis length_take min.absorb4 less_irrefl)
      ultimately show ?thesis using ov(3) p(1,2) shown_marker by blast
    next
      fix j js assume new: "take k p \<notin> fst ` set es" and "working st user (take k p @ j # js) \<noteq> None"
      then have "file_at ch (take k p @ j # js) \<noteq> None" by (auto simp: files file_of_def)
      then have "\<exists>sub. node_at ch (take k p) = Some (Dir sub)"
        using node_at_dir by (force simp: file_at_def split: option.splits)
      then show ?thesis using old [OF new] k p(3) by auto
    qed
    then have "working st2 user p = live_file st2 [] p" using workingI [OF p(4,3), of st2] reg(1) by simp
    then show ?thesis using p(1) ov(1) [OF p(2)] by (simp add: live_file_shadowed shadowed_def)
  qed
  assume new: "p \<notin> fst ` set es" and same: "working ?st1 user p = working st user p"
  show "file_of v os' p (working st2 user p) = file_of v os p (working st user p)"
  proof (cases "working st user p")
    case None
    have "working st2 user p = None"
    proof (rule ccontr)
      assume "working st2 user p \<noteq> None"
      then obtain x where x: "working st2 user p = Some x" by blast
      have "live_file st2 [] p = Some x" "p \<noteq> []" using workingD [OF x] reg(1) by simp_all
      then obtain e where "map_of view p = Some e" "en_kind e = EBlob"
        using ov(2) [OF new] by (auto simp: live_file_shadowed shadowed_def reg(3) split: if_splits option.splits overlay_entry.splits)
      then have "file_at ch p \<noteq> None" using serves_treeD(3) [OF view \<open>p \<noteq> []\<close>] by blast
      then show False using None by (simp add: files file_of_def)
    qed
    then show ?thesis using None by (simp add: file_of_def)
  next
    case (Some x)
    obtain m src where x: "x = (m, src)" by fastforce
    note d = workingD [OF Some] and d1 = workingD [OF trans [OF same Some]]
    let ?c = "projr (resolve_content v os p src)"
    have f: "file_at ch p = Some (m AND mode_mask, ?c)" using Some by (simp add: files file_of_def x)
    obtain e where e: "map_of view p = Some e" "en_kind e = EBlob" "en_mode e = m AND mode_mask"
        "resolve_content v os' p (From_Blob (en_target e)) = Inr ?c"
      using serves_treeD(1) [OF view d(1) f] by blast
    have "ov_get (mt_overlay st2) p = None"
      using ov(2) [OF new] d(3) roots by (fastforce simp: live_file_shadowed shadowed_def split: if_splits)
    then have live: "live_file st2 [] p = Some (m AND mode_mask, From_Blob (en_target e))"
      using e by (simp add: live_file_shadowed shadowed_def reg(3))
    have "shows_dir st2 [] (take k p)" if k: "0 < k" "k < length p" for k
    proof (cases "take k p \<in> fst ` set es")
      case True
      then show ?thesis using fresh d1(4) [OF k] reg(2) by simp
    next
      case False
      then show ?thesis using old file_node [OF _ k] f d(1) k by (metis option.distinct(1) take_eq_Nil neq0_conv)
    qed
    then have "working st2 user p = Some (m AND mode_mask, From_Blob (en_target e))"
      using workingI [OF d(2,1), of st2] reg(1) live by simp
    then show ?thesis using Some x e(4) by (simp add: file_of_def and.assoc)
  qed
qed

section \<open>The commit cycle\<close>

lemma commit_events:
  "commit_snapshot_to_with v r s it now policy rp = (Inr out, events, rp') \<Longrightarrow>
     events = [] \<or> events = [(r, co_hash out, ws_overlay_generation s)]"
  by (auto simp: commit_snapshot_to_with_def Let_def notify_def split: prod.splits sum.splits)

lemma rotation_event:
  assumes "no_shares_mounted (mt_registry st)" "tip_of rp tip_ref = Some h" "chain_view (rp_db rp) h = Some (Inr view)"
  shows "on_tip_changed v (rp_db rp) [(tip_ref, h, Some g)] st = rotated st g view"
  using assms(2,3)
  by (simp add: on_tip_changed_def rotate_tip_def unmounted [OF assms(1)] tip_of_def rotated_def chain_device_def)

text \<open>Whatever is mounted, a rotation for one ref only drops what was staged before its cutoff on the paths of that ref.\<close>

lemma rotate_keeps:
  assumes "bm_ok (ov_slots (mt_overlay st))" "map_of (ov_slots (mt_overlay st)) p = Some s"
    and "ch_ref (owning_chain (mt_registry st) p) \<noteq> r \<or> (\<forall>g. cutoff = Some g \<longrightarrow> g < sl_gen s)"
  shows "map_of (ov_slots (mt_overlay (rotate_tip v d (Some r) cutoff st))) p = Some s"
  using assms(2,3)
  by (auto simp: rotate_tip_def Let_def absorbed_at [OF assms(1)] split: option.splits sum.splits)

lemma rotate_drops_only: 
  assumes "bm_ok (ov_slots (mt_overlay st))" "map_of (ov_slots (mt_overlay st)) p = None"
  shows "map_of (ov_slots (mt_overlay (rotate_tip v d (Some r) cutoff st))) p = None"
  using assms(2)
  by (auto simp: rotate_tip_def Let_def absorbed_at [OF assms(1)] split: option.splits sum.splits)

lemma rotate_ov_get:
  assumes "bm_ok (ov_slots (mt_overlay st))"
    and "\<And>s. map_of (ov_slots (mt_overlay st)) p = Some s \<Longrightarrow>
      ch_ref (owning_chain (mt_registry st) p) \<noteq> r \<or> (\<forall>g. cutoff = Some g \<longrightarrow> g < sl_gen s)"
  shows "ov_get (mt_overlay (rotate_tip v d (Some r) cutoff st)) p = ov_get (mt_overlay st) p"
  unfolding ov_get_def
  using rotate_keeps [OF assms(1), of p _ r cutoff v d] rotate_drops_only [OF assms(1), of p v d r cutoff] assms(2)
  by (cases "map_of (ov_slots (mt_overlay st)) p") simp_all

lemma workdir_generation:
  assumes "workdir_snapshot v os st = Inr s" "ws_overlay_generation s = Some g"
  shows "g = ov_gen (mt_overlay st)"
proof -
  have gen: "ws_overlay_generation t = ws_overlay_generation u" if "(r, t) \<in> set (split_snapshot reg u)" for r t reg u
    using that by (auto simp: split_snapshot_def snapshot_prune_def)
  obtain u where u: "unified_snapshot v os st = Inr u"
      "s = (case map_of (split_snapshot (mt_registry st) u) tip_ref of Some s \<Rightarrow> s | None \<Rightarrow> snapshot_empty)"
    using assms(1) by (auto simp: workdir_snapshot_def chain_snapshots_def try_with_Inr find_ref)
  have "ws_overlay_generation u = Some (ov_gen (mt_overlay st))"
    using u(1) by (auto simp: unified_snapshot_def try_with_Inr)
  then show ?thesis
    using u(2) assms(2) gen by (auto simp: snapshot_empty_def split: option.splits dest!: map_of_SomeD)
qed

lemma rotation_spares:
  assumes ok: "mount_ok st" "gens_ok (mt_overlay st)" "unat (ov_gen (mt_overlay st)) + length es < 2 ^ 64"
    and cut_at: "workdir_snapshot v os st = Inr s"
    and run: "commit_snapshot_to_with (me_vcs v) tip_ref s it now policy rp = (Inr out, events, rp')"
  shows "let st1 = stage_all es st; st2 = on_tip_changed (me_vcs v) (rp_db rp') events st1 in
    \<forall>p. ch_ref (owning_chain (mt_registry st) p) \<noteq> tip_ref \<or> p \<in> fst ` set es \<longrightarrow>
      ov_get (mt_overlay st2) p = ov_get (mt_overlay st1) p"
proof -
  let ?st1 = "stage_all es st"
  have bm: "bm_ok (ov_slots (mt_overlay ?st1))" using mount_ok_stage_all [OF ok(1)] by (simp add: mount_ok_def)
  have "ov_get (mt_overlay (rotate_tip (me_vcs v) (rp_db rp') (Some tip_ref) (ws_overlay_generation s) ?st1)) p =
      ov_get (mt_overlay ?st1) p"
    if p: "ch_ref (owning_chain (mt_registry st) p) \<noteq> tip_ref \<or> p \<in> fst ` set es" for p
  proof (rule rotate_ov_get [OF bm])
    fix sl assume "map_of (ov_slots (mt_overlay ?st1)) p = Some sl"
    then have "p \<in> fst ` set es \<Longrightarrow> ov_gen (mt_overlay st) < sl_gen sl"
      using stage_generations [OF ok(3,2)] by auto
    then show "ch_ref (owning_chain (mt_registry ?st1) p) \<noteq> tip_ref \<or>
        (\<forall>g. ws_overlay_generation s = Some g \<longrightarrow> g < sl_gen sl)"
      using p workdir_generation [OF cut_at] by auto
  qed
  note spared = this
  show ?thesis
    unfolding Let_def
  proof (intro allI impI)
    fix p assume p: "ch_ref (owning_chain (mt_registry st) p) \<noteq> tip_ref \<or> p \<in> fst ` set es"
    show "ov_get (mt_overlay (on_tip_changed (me_vcs v) (rp_db rp') events ?st1)) p = ov_get (mt_overlay ?st1) p"
      using commit_events [OF run] spared [OF p] by (elim disjE) (simp_all add: on_tip_changed_def)
  qed
qed

text \<open>The whole cycle without shares.\<close>

lemma unshared_cycle:
  assumes "addressing (me_vcs v)" "signing (me_vcs v)" "decrypts v" "store_ok (me_vcs v) rp"
    and ok: "mount_ok st" "gens_ok (mt_overlay st)" "unat (ov_gen (mt_overlay st)) + length es < 2 ^ 64"
    and shares: "no_shares_mounted (mt_registry st)"
    and cut_at: "workdir_snapshot v (rp_objects rp) st = Inr s"
    and run: "commit_snapshot_to_with (me_vcs v) tip_ref s it now policy rp = (Inr out, events, rp')"
  shows "\<exists>user. inmem_ignore v (rp_objects rp) st = Inr user \<and>
    (let st1 = stage_all es st; st2 = on_tip_changed (me_vcs v) (rp_db rp') events st1 in
      (\<forall>p. p \<notin> fst ` set es \<longrightarrow> working st1 user p = working st user p \<longrightarrow>
         file_of v (rp_objects rp') p (working st2 user p) = file_of v (rp_objects rp) p (working st user p)) \<and>
      (\<forall>p c m. p \<in> fst ` set es \<longrightarrow> ov_get (mt_overlay st1) p = Some (OFile c m) \<longrightarrow> p \<noteq> [] \<longrightarrow>
         \<not> is_ignored user p \<longrightarrow> (\<forall>k. 0 < k \<longrightarrow> k < length p \<longrightarrow> carried es st user (take k p)) \<longrightarrow>
         working st2 user p = Some (m, From_Overlay c)) \<and>
      (\<forall>p. events \<noteq> [] \<longrightarrow> p \<notin> fst ` set es \<longrightarrow> ov_get (mt_overlay st2) p \<noteq> None \<longrightarrow>
         (\<exists>m. ov_get (mt_overlay st2) p = Some (ODir m))))"
proof -
  obtain user where user: "inmem_ignore v (rp_objects rp) st = Inr user" and tree: "tree_ok (ws_root s)"
      and gen: "ws_overlay_generation s = Some (ov_gen (mt_overlay st))"
      and files: "\<And>p. file_at (ws_root s) p = file_of v (rp_objects rp) p (working st user p)"
      and res: "\<And>p m src. working st user p = Some (m, src) \<Longrightarrow> \<exists>c. resolve_content v (rp_objects rp) p src = Inr c"
    using workdir_at [OF ok(1) shares cut_at] by blast
  note roots = unmounted(3) [OF shares]
  show ?thesis
  proof (cases "events = []")
    case True
    note grow = commit_grows_objects [OF assms(4) run]
    have "file_of v (rp_objects rp') p (working st user p) = file_of v (rp_objects rp) p (working st user p)" for p
      using res [of p] resolve_grows [OF _ grow] by (fastforce simp: file_of_def split: option.split)
    moreover have "working (stage_all es st) user p = Some (m, From_Overlay c)"
      if p: "ov_get (mt_overlay (stage_all es st)) p = Some (OFile c m)" "p \<noteq> []" "\<not> is_ignored user p"
        and anc: "\<And>k. 0 < k \<Longrightarrow> k < length p \<Longrightarrow> carried es st user (take k p)" for p c m
    proof -
      have "shows_dir (stage_all es st) [] (take k p)" if k: "0 < k" "k < length p" for k
        using anc [OF k] unfolding carried_def
      proof (elim disjE conjE exE)
        fix j js assume new: "take k p \<notin> fst ` set es" and "working st user (take k p @ j # js) \<noteq> None"
        then have "shows_dir st [] (take k p)"
          using workingD(4) [of st user "take k p @ j # js" _ "length (take k p)"] roots k by force
        then show ?thesis using unstaged [OF new, of st] by (simp add: shows_dir_shadowed shadowed_def)
      qed (rule shown_marker)
      then show ?thesis
        using workingI [OF p(3,2), of "stage_all es st"] roots p(1) by (simp add: live_file_shadowed shadowed_def)
    qed
    ultimately show ?thesis using user True by (auto simp: on_tip_changed_def Let_def)
  next
    case False
    then have ev: "events = [(tip_ref, co_hash out, Some (ov_gen (mt_overlay st)))]"
      using commit_events [OF run] gen by simp
    obtain view where view: "tip_of rp' tip_ref = Some (co_hash out)"
        "chain_view (rp_db rp') (co_hash out) = Some (Inr view)" "serves_tree v (rp_objects rp') (ws_root s) view"
      using commit_serves [OF assms(1,2,4) tree assms(3) run] .
    let ?st2 = "rotated (stage_all es st) (ov_gen (mt_overlay st)) view"
    have st2: "on_tip_changed (me_vcs v) (rp_db rp') events (stage_all es st) = ?st2"
      using rotation_event [of "stage_all es st", OF _ view(1,2)] shares ev by simp
    show ?thesis
      unfolding st2 Let_def
      using user rotated_working [OF ok roots view(3) files] rotated_overlay(2) [OF ok, where view = view] by blast
  qed
qed

text \<open>
  C8. What a commit of the device and the rotation its event causes do to the mount, with entries
  staged between the cut of the snapshot and the rotation. Whatever shares are mounted, the rotation
  leaves alone every overlay entry of a path another chain owns and every entry staged since the cut.
  With no share mounted, every path that nothing was staged at since, and whose visibility the later
  entries did not change, shows the same file with the same mode and content as at the cut, now read
  back through the store; a file staged since still shows with its content, provided its name is not
  ignored and each of its directories is a marker of the overlay or keeps a committed file; and of
  the older entries a landed commit leaves directory markers only. The hash addresses, the
  signatures verify, and the decryption of the mount inverts the encryption of the commits.
\<close>

theorem commit_absorbs:
  assumes "addressing (me_vcs v)" "signing (me_vcs v)" "decrypts v" "store_ok (me_vcs v) rp"
    and ok: "mount_ok st" "gens_ok (mt_overlay st)" "unat (ov_gen (mt_overlay st)) + length es < 2 ^ 64"
    and cut_at: "workdir_snapshot v (rp_objects rp) st = Inr s"
    and run: "commit_snapshot_to_with (me_vcs v) tip_ref s it now policy rp = (Inr out, events, rp')"
  shows "(let st1 = stage_all es st; st2 = on_tip_changed (me_vcs v) (rp_db rp') events st1 in
      \<forall>p. ch_ref (owning_chain (mt_registry st) p) \<noteq> tip_ref \<or> p \<in> fst ` set es \<longrightarrow>
        ov_get (mt_overlay st2) p = ov_get (mt_overlay st1) p) \<and>
    (no_shares_mounted (mt_registry st) \<longrightarrow> (\<exists>user. inmem_ignore v (rp_objects rp) st = Inr user \<and>
    (let st1 = stage_all es st; st2 = on_tip_changed (me_vcs v) (rp_db rp') events st1 in
      (\<forall>p. p \<notin> fst ` set es \<longrightarrow> working st1 user p = working st user p \<longrightarrow>
         file_of v (rp_objects rp') p (working st2 user p) = file_of v (rp_objects rp) p (working st user p)) \<and>
      (\<forall>p c m. p \<in> fst ` set es \<longrightarrow> ov_get (mt_overlay st1) p = Some (OFile c m) \<longrightarrow> p \<noteq> [] \<longrightarrow>
         \<not> is_ignored user p \<longrightarrow> (\<forall>k. 0 < k \<longrightarrow> k < length p \<longrightarrow> carried es st user (take k p)) \<longrightarrow>
         working st2 user p = Some (m, From_Overlay c)) \<and>
      (\<forall>p. events \<noteq> [] \<longrightarrow> p \<notin> fst ` set es \<longrightarrow> ov_get (mt_overlay st2) p \<noteq> None \<longrightarrow>
         (\<exists>m. ov_get (mt_overlay st2) p = Some (ODir m))))))"
proof
  show "let st1 = stage_all es st; st2 = on_tip_changed (me_vcs v) (rp_db rp') events st1 in
      \<forall>p. ch_ref (owning_chain (mt_registry st) p) \<noteq> tip_ref \<or> p \<in> fst ` set es \<longrightarrow>
        ov_get (mt_overlay st2) p = ov_get (mt_overlay st1) p"
    by (rule rotation_spares [OF ok cut_at run])
  show "no_shares_mounted (mt_registry st) \<longrightarrow> (\<exists>user. inmem_ignore v (rp_objects rp) st = Inr user \<and>
    (let st1 = stage_all es st; st2 = on_tip_changed (me_vcs v) (rp_db rp') events st1 in
      (\<forall>p. p \<notin> fst ` set es \<longrightarrow> working st1 user p = working st user p \<longrightarrow>
         file_of v (rp_objects rp') p (working st2 user p) = file_of v (rp_objects rp) p (working st user p)) \<and>
      (\<forall>p c m. p \<in> fst ` set es \<longrightarrow> ov_get (mt_overlay st1) p = Some (OFile c m) \<longrightarrow> p \<noteq> [] \<longrightarrow>
         \<not> is_ignored user p \<longrightarrow> (\<forall>k. 0 < k \<longrightarrow> k < length p \<longrightarrow> carried es st user (take k p)) \<longrightarrow>
         working st2 user p = Some (m, From_Overlay c)) \<and>
      (\<forall>p. events \<noteq> [] \<longrightarrow> p \<notin> fst ` set es \<longrightarrow> ov_get (mt_overlay st2) p \<noteq> None \<longrightarrow>
         (\<exists>m. ov_get (mt_overlay st2) p = Some (ODir m)))))"
    by (intro impI) (rule unshared_cycle [OF assms(1-4) ok _ cut_at run])
qed

end
