(* ===== verification/Vcs_Witness.thy ===== *)
theory Vcs_Witness
  imports Vcs_View
begin

text \<open>
  A concrete session for the theorems of the store: an injective text for the canonical forms, the
  text itself as its digest, and a garden with two files committed to the device chain.
\<close>

section \<open>An injective text\<close>

fun text_of :: "string \<Rightarrow> string" where
  "text_of [] = ''.''"
| "text_of (c # s) = CHR ''+'' # c # text_of s"

definition int_text :: "int \<Rightarrow> string" where
  "int_text i = text_of ((if i < 0 then ''-'' else []) @ show_nat (nat \<bar>i\<bar>))"

fun json_text :: "json \<Rightarrow> string" where
  "json_text JNull = ''n''"
| "json_text (JNum i) = CHR ''i'' # int_text i"
| "json_text (JStr s) = CHR ''s'' # text_of s"
| "json_text (JArr js) = CHR ''a'' # concat (map (\<lambda>j. CHR '','' # json_text j) js) @ '']''"
| "json_text (JObj ms) = CHR ''o'' # concat (map (\<lambda>(k, j). CHR '','' # text_of k @ json_text j) ms) @ '']''"

lemma text_of_inj: "text_of a @ x = text_of b @ y \<Longrightarrow> a = b \<and> x = y"
proof (induction a arbitrary: b)
  case Nil
  then show ?case by (cases b) auto
next
  case (Cons c a)
  then show ?case by (cases b) auto
qed

lemma show_nat_inj: "show_nat m = show_nat n \<Longrightarrow> m = n"
  by (metis digits_val_show_nat)

lemma show_nat_sign: "show_nat n \<noteq> CHR ''-'' # s"
proof
  assume "show_nat n = CHR ''-'' # s"
  then have "is_digit (CHR ''-'')" using show_nat_digits [of n] by simp
  then show False by (simp add: is_digit_def)
qed

lemma int_text_inj: "int_text a @ x = int_text b @ y \<Longrightarrow> a = b \<and> x = y"
  unfolding int_text_def
  using text_of_inj [of _ x _ y] show_nat_sign show_nat_inj
  by (smt (verit) append_Cons append_Nil int_nat_eq list.inject show_nat_sign)

lemma concat_text_inj:
  assumes "\<And>u w x y. u \<in> set us \<Longrightarrow> f u @ x = f w @ y \<Longrightarrow> u = w \<and> x = y"
    and "concat (map (\<lambda>u. CHR '','' # f u) us) @ CHR '']'' # x = concat (map (\<lambda>u. CHR '','' # f u) ws) @ CHR '']'' # y"
  shows "us = ws \<and> x = y"
  using assms
proof (induction us arbitrary: ws)
  case Nil
  then show ?case by (cases ws) auto
next
  case (Cons u us)
  then obtain w ws' where ws: "ws = w # ws'" by (cases ws) auto
  then have "f u @ concat (map (\<lambda>u. CHR '','' # f u) us) @ CHR '']'' # x =
      f w @ concat (map (\<lambda>u. CHR '','' # f u) ws') @ CHR '']'' # y"
    using Cons.prems(2) by simp
  then have "u = w" "concat (map (\<lambda>u. CHR '','' # f u) us) @ CHR '']'' # x =
      concat (map (\<lambda>u. CHR '','' # f u) ws') @ CHR '']'' # y"
    using Cons.prems(1) [of u] by auto
  then show ?case using Cons.IH [of ws'] Cons.prems(1) ws by auto
qed

lemma json_text_inj: "json_text a @ x = json_text b @ y \<Longrightarrow> a = b \<and> x = y"
proof (induction a arbitrary: b x y)
  case JNull
  then show ?case by (cases b) auto
next
  case (JNum i)
  then obtain k where "b = JNum k" "int_text i @ x = int_text k @ y" by (cases b) auto
  then show ?case using int_text_inj [of i x k y] by simp
next
  case (JStr s)
  then obtain t where "b = JStr t" "text_of s @ x = text_of t @ y" by (cases b) auto
  then show ?case using text_of_inj [of s x t y] by simp
next
  case (JArr js)
  then obtain ks where b: "b = JArr ks"
      "concat (map (\<lambda>j. CHR '','' # json_text j) js) @ CHR '']'' # x =
       concat (map (\<lambda>j. CHR '','' # json_text j) ks) @ CHR '']'' # y"
    by (cases b) auto
  have "js = ks \<and> x = y" using JArr.IH by (intro concat_text_inj [OF _ b(2)]) blast
  then show ?case using b(1) by simp
next
  case (JObj ms)
  let ?f = "\<lambda>(k, j). text_of k @ json_text j"
  have member: "u = w \<and> x = y" if "u \<in> set ms" "?f u @ x = ?f w @ y" for u w x y
  proof -
    obtain k j l i where uw: "u = (k, j)" "w = (l, i)" by (metis surj_pair)
    then have "k = l" "json_text j @ x = json_text i @ y"
      using that(2) text_of_inj [of k "json_text j @ x" l "json_text i @ y"] by auto
    moreover have "j \<in> Basic_BNFs.snds u" using uw by auto
    ultimately show ?thesis using JObj.IH [OF that(1)] uw by blast
  qed
  obtain ws where b: "b = JObj ws" using JObj.prems by (cases b) auto
  have "concat (map (\<lambda>u. CHR '','' # ?f u) ms) @ CHR '']'' # x = concat (map (\<lambda>u. CHR '','' # ?f u) ws) @ CHR '']'' # y"
    using JObj.prems b by (simp add: case_prod_unfold)
  from concat_text_inj [OF member this] show ?case using b by simp
qed

lemma json_text_eq: "json_text a = json_text b \<longleftrightarrow> a = b"
  using json_text_inj [of a "[]" b "[]"] by auto

section \<open>A session\<close>

definition demo_session :: vcs_env where
  "demo_session = \<lparr>ve_hash = \<lambda>s. s, ve_hex = \<lambda>h. h, ve_jcs = json_text, ve_parse = \<lambda>s. Some (JStr s),
     ve_encrypt = \<lambda>r p s. Inr (r @ p @ s), ve_sign = \<lambda>m. m, ve_verify = \<lambda>k m s. m = s,
     ve_pubkey = ''key'', ve_device = ''laptop'', ve_key_id = 1\<rparr>"

lemma demo_session_ok: "addressing demo_session" "signing demo_session"
proof -
  have "entry_json demo_session e = entry_json demo_session e' \<Longrightarrow> e = e'" for e e'
    by (cases e; cases e'; cases "te_kind e"; cases "te_kind e'") (auto simp: entry_json_def demo_session_def intro: word_uint_eqI)
  then have "inj (entry_json demo_session)" by (auto intro: injI)
  then have "canonical_tree_bytes demo_session es = canonical_tree_bytes demo_session es' \<longleftrightarrow> es = es'" for es es'
    by (simp add: canonical_tree_bytes_def inj_map_eq_map json_text_eq demo_session_def del: json_text.simps)
  then have "inj (canonical_tree_bytes demo_session)" by (simp add: inj_def)
  then show "addressing demo_session" by (simp add: addressing_def demo_session_def inj_def)
  show "signing demo_session" by (simp add: signing_def demo_session_def)
qed

definition demo_files :: walk_snapshot where
  "demo_files = \<lparr>ws_root = [(''a.md'', File 420 ''one''), (''notes'', Dir [(''b.md'', File 420 ''two'')])],
     ws_overlay_generation = Some 3\<rparr>"

lemma demo_files_ok: "tree_ok (ws_root demo_files)"
  by code_simp

definition demo_garden :: repo where
  "demo_garden = snd (create_fresh demo_session demo_files 7)"

lemma demo_garden_ok: "store_ok demo_session demo_garden"
  unfolding demo_garden_def by (rule store_run_sound [OF demo_session_ok demo_files_ok rtranclp.rtrancl_refl])

text \<open>A first commit whose blobs seal and whose payload reads back lands.\<close>

lemma first_commit_lands:
  assumes "build_with v r (ws_root s) [] = (Inr (root, ts), os)" "ve_parse v (ve_jcs v (snd it)) \<noteq> None"
  shows "\<exists>out. fst (commit_snapshot_to_with v r s it now policy \<lparr>rp_db = db_empty, rp_objects = []\<rparr>) = Inr out"
proof -
  obtain payload where payload: "ve_parse v (ve_jcs v (snd it)) = Some payload" using assms(2) by blast
  have none: "db_commits (fold (\<lambda>(h, es). put_tree h es) ts db_empty) = []"
    "db_refs (fold (\<lambda>(h, es). put_tree h es) ts db_empty) = []"
    by (simp_all add: db_empty_def)
  show ?thesis
    using assms(1) payload none
    by (simp add: commit_snapshot_to_with_def tip_of_def try_get_ref_def write_commit_tx_def is_same_tree_def
        land_commit_def author_commit_row_def Let_def with_tx_def put_commit_def commit_exists_def
        set_ref_cas_def set_ref_def db_empty_def)
qed

lemma demo_commit_lands:
  obtains out events where "commit_snapshot_to_with demo_session tip_ref demo_files
    (intent_init ''garden initialized'') 7 Skip \<lparr>rp_db = db_empty, rp_objects = []\<rparr> = (Inr out, events, demo_garden)"
proof -
  let ?run = "commit_snapshot_to_with demo_session tip_ref demo_files
    (intent_init ''garden initialized'') 7 Skip \<lparr>rp_db = db_empty, rp_objects = []\<rparr>"
  have "\<exists>root ts os. build_with demo_session tip_ref (ws_root demo_files) [] = (Inr (root, ts), os)"
    by (simp add: build_with_def demo_files_def demo_session_def finish_node_def object_put_def Let_def
        split: prod.splits)
  then obtain root ts os where "build_with demo_session tip_ref (ws_root demo_files) [] = (Inr (root, ts), os)" by blast
  moreover have "ve_parse demo_session t \<noteq> None" for t by (simp add: demo_session_def)
  ultimately obtain out where "fst ?run = Inr out" using first_commit_lands by blast
  moreover have "snd (snd ?run) = demo_garden" by (simp add: demo_garden_def create_fresh_commit)
  ultimately show ?thesis using that by (metis prod.collapse)
qed

lemma demo_garden_tip:
  obtains t where "tip_of demo_garden tip_ref = Some t"
proof -
  obtain out events where run: "commit_snapshot_to_with demo_session tip_ref demo_files
    (intent_init ''garden initialized'') 7 Skip \<lparr>rp_db = db_empty, rp_objects = []\<rparr> = (Inr out, events, demo_garden)"
    using demo_commit_lands .
  show ?thesis using commit_represents [OF demo_session_ok empty_store_ok demo_files_ok run] that by blast
qed

section \<open>The theorems at work\<close>

theorem gc_exact_witness:
  "\<exists>report rp'. repo_gc demo_garden = (Inr report, rp') \<and> rp_db rp' = rp_db demo_garden \<and>
    (\<forall>h. map_of (rp_objects rp') h =
       (if h \<in> live (rp_db demo_garden) (snd ` set (list_refs (rp_db demo_garden)))
        then map_of (rp_objects demo_garden) h else None)) \<and>
    set (gr_collected report) = fst ` set (rp_objects demo_garden) - fst ` set (rp_objects rp') \<and>
    gr_scanned report = gr_kept report + length (gr_collected report) \<and>
    store_ok demo_session rp' \<and> (\<exists>again. repo_gc rp' = (Inr again, rp') \<and> gr_collected again = [])"
  by (rule gc_exact [OF demo_garden_ok])

theorem fsck_verdict_witness:
  "\<exists>rep. fsck_run demo_session db_empty [(''a'', ''b'')] = Inr rep \<and>
    (report_ok rep \<longleftrightarrow> intact demo_session db_empty [(''a'', ''b'')]) \<and>
    set (fr_orphans rep) = fst ` set [(''a'', ''b'')] - blobs_in db_empty {h. tree_exists db_empty h} \<and>
    fr_commits rep = length (db_commits db_empty) \<and> fr_trees rep = length (db_trees db_empty) \<and>
    fr_objects rep = length [(''a'', ''b'')]"
  by (rule fsck_verdict) (simp add: keyed_def db_empty_def)

lemma fsck_chain_covers_instance:
  "\<exists>t. tip_of demo_garden tip_ref = Some t \<and> report_ok (fsck_chain demo_session demo_garden tip_ref) \<and>
    fr_commits (fsck_chain demo_session demo_garden tip_ref) = card (commit_closure (rp_db demo_garden) {t})"
proof -
  obtain t where t: "tip_of demo_garden tip_ref = Some t" using demo_garden_tip .
  then show ?thesis using fsck_chain_covers [OF demo_garden_ok t] by blast
qed

text \<open>A second commit to another ref, then a collection.\<close>

definition demo_run :: repo where
  "demo_run = snd (repo_gc (snd (snd (commit_snapshot_to_with demo_session ''chain/x'' demo_files
     (intent_init ''again'') 8 Record demo_garden))))"

theorem store_always_passes_fsck_witness:
  "(\<exists>rep. fsck_run demo_session (rp_db demo_run) (rp_objects demo_run) = Inr rep \<and> report_ok rep) \<and>
    (\<forall>r. report_ok (fsck_chain demo_session demo_run r))"
proof (rule store_always_passes_fsck [OF demo_session_ok demo_files_ok])
  show "repo_step\<^sup>*\<^sup>* (demo_session, snd (create_fresh demo_session demo_files 7)) (demo_session, demo_run)"
    unfolding demo_run_def demo_garden_def
    by (rule converse_rtranclp_into_rtranclp, rule commit_step [OF demo_files_ok], rule r_into_rtranclp, rule gc_step)
qed

theorem log_terminates_witness:
  "\<exists>t rows. tip_of demo_garden tip_ref = Some t \<and> log_collect (rp_db demo_garden) t = Some (Inr rows) \<and>
    distinct (map cm_hash rows)"
proof -
  obtain t where t: "tip_of demo_garden tip_ref = Some t" using demo_garden_tip .
  then show ?thesis using log_terminates [OF demo_garden_ok t] by blast
qed

theorem commit_reads_back_witness:
  "\<exists>t view. tip_of demo_garden tip_ref = Some t \<and> chain_view (rp_db demo_garden) t = Some (Inr view) \<and>
    (\<exists>e. map_of view [''notes'', ''b.md''] = Some e \<and> en_kind e = EBlob \<and>
       object_get (ve_hash demo_session) (en_target e) (rp_objects demo_garden) = Inr ''tipnotes/b.mdtwo'')"
proof -
  obtain out events where run: "commit_snapshot_to_with demo_session tip_ref demo_files
    (intent_init ''garden initialized'') 7 Skip \<lparr>rp_db = db_empty, rp_objects = []\<rparr> = (Inr out, events, demo_garden)"
    using demo_commit_lands .
  have node: "node_at (ws_root demo_files) [''notes'', ''b.md''] = Some (File 420 ''two'')"
    by (simp add: demo_files_def)
  have cipher: "ve_encrypt demo_session tip_ref (foldl child_path [] [''notes'', ''b.md'']) ''two'' = Inr ''tipnotes/b.mdtwo''"
    by (simp add: demo_session_def child_path_def tip_ref_def)
  from commit_reads_back [OF demo_session_ok empty_store_ok demo_files_ok run] obtain view where
    view: "tip_of demo_garden tip_ref = Some (co_hash out)"
      "chain_view (rp_db demo_garden) (co_hash out) = Some (Inr view)"
    and at: "\<And>k ks. case node_at (ws_root demo_files) (k # ks) of
       None \<Rightarrow> map_of view (k # ks) = None
     | Some (Dir sub) \<Rightarrow> (\<exists>e. map_of view (k # ks) = Some e \<and> en_kind e = EDir)
     | Some (File m content) \<Rightarrow>
         (\<exists>e cipher. map_of view (k # ks) = Some e \<and> en_kind e = EBlob \<and> en_mode e = m \<and>
            ve_encrypt demo_session tip_ref (foldl child_path [] (k # ks)) content = Inr cipher \<and>
            object_get (ve_hash demo_session) (en_target e) (rp_objects demo_garden) = Inr cipher)"
    by blast
  from at [of "''notes''" "[''b.md'']", unfolded node option.case tnode.case cipher] view
  show ?thesis by auto
qed

theorem commit_outcomes_witness:
  "\<exists>out events row. commit_snapshot_to_with demo_session tip_ref demo_files (intent_init ''garden initialized'') 7 Skip
      \<lparr>rp_db = db_empty, rp_objects = []\<rparr> = (Inr out, events, demo_garden) \<and>
    log_collect (rp_db demo_garden) (co_hash out) = Some (Inr [row]) \<and> cm_timestamp row = 7 \<and>
    events = [(tip_ref, co_hash out, Some 3)]"
proof -
  obtain out events where run: "commit_snapshot_to_with demo_session tip_ref demo_files
    (intent_init ''garden initialized'') 7 Skip \<lparr>rp_db = db_empty, rp_objects = []\<rparr> = (Inr out, events, demo_garden)"
    using demo_commit_lands .
  have none: "tip_of \<lparr>rp_db = db_empty, rp_objects = []\<rparr> tip_ref = None"
    by (simp add: tip_of_def try_get_ref_def db_empty_def)
  from commit_outcomes [OF empty_store_ok run] none run show ?thesis
    by (auto simp: demo_files_def split: if_splits)
qed

end
