(* ===== verification/Fuse_Cases.thy ===== *)
theory Fuse_Cases
  imports Fuse_Rotation Vcs_Witness
begin

text \<open>
  Where a file goes missing: writes through the kernel to a sealed file, writes below a removed
  directory, files under an ignored name, files created in a directory that a commit in flight
  empties. And a concrete commit cycle.
\<close>

section \<open>Sealed files\<close>

text \<open>
  The handlers that rewrite a file start from what a reader sees. For a sealed file that is the
  placeholder: a write at the start keeps its tail, a change of mode stages it as the content.
\<close>

lemma sealed_read:
  "me_sealed v (rel_text p) \<Longrightarrow> entry_kind_of st p = Some EBlob \<Longrightarrow> read_bytes v os st p = Inr (sealed_placeholder p)"
  by (auto simp: read_bytes_def entry_kind_of_def split: option.splits overlay_entry.splits)

lemma sealed_write:
  assumes "me_sealed v (rel_text p)" "entry_kind_of st p = Some EBlob" "\<not> unkeyed st p"
  shows "\<exists>m. ov_get (mt_overlay (snd (k_write v os p 0 chunk st))) p =
    Some (OFile (chunk @ drop (length chunk) (sealed_placeholder p)) m)"
  using assms(3) sealed_read [OF assms(1,2)]
  by (auto simp: k_write_def Let_def splice_def ov_insert_file_def)

lemma sealed_chmod:
  assumes "me_sealed v (rel_text p)" "entry_kind_of st p = Some EBlob" "\<not> unkeyed st p" "\<not> mount_root st p"
  shows "ov_get (mt_overlay (snd (k_setattr v os p (Some m) None st))) p = Some (OFile (sealed_placeholder p) m)"
  using assms(3,4) sealed_read [OF assms(1,2)]
  by (simp add: k_setattr_def assms(2) unwrap_or_empty_def stage_mode_def attr_reply_def ov_insert_file_def)

section \<open>Removed directories\<close>

lemma ensure_keeps: "ov_get (mt_overlay st) a \<noteq> None \<Longrightarrow> ov_get (mt_overlay (ensure_overlay_dirs p st)) a = ov_get (mt_overlay st) a"
proof -
  have "ov_get (mt_overlay st) a \<noteq> None \<Longrightarrow> ov_get (mt_overlay (fold (\<lambda>a st.
        if ov_get (mt_overlay st) a \<noteq> None then st
        else if map_option en_kind (map_of (mt_view st) a) = Some EDir then st
        else with_overlay (ov_insert_dir a dir_mode) st) ds st)) a = ov_get (mt_overlay st) a" for ds
    by (induction ds arbitrary: st) (auto simp: ov_insert_dir_def)
  then show "ov_get (mt_overlay st) a \<noteq> None \<Longrightarrow> ?thesis" by (simp add: ensure_overlay_dirs_def)
qed

text \<open>A file staged below a directory whose removal is staged is in no snapshot.\<close>

lemma write_below_removed:
  assumes "ov_get (mt_overlay st) a = Some ORemoved" "a \<noteq> []"
  shows "working (stage_write (a @ k # ks) c st) user (a @ k # ks) = None"
proof (rule ccontr)
  let ?st = "stage_write (a @ k # ks) c st"
  assume "working ?st user (a @ k # ks) \<noteq> None"
  then obtain x where "working ?st user (a @ k # ks) = Some x" by blast
  from workingD(4) [OF this, of "length a"]
  have "shows_dir ?st (enabled_mount_roots (mt_registry ?st)) a" using assms(2) by simp
  moreover have "ov_get (mt_overlay ?st) a = Some ORemoved"
    using ensure_keeps [of st a] assms(1) by (simp add: stage_write_def Let_def ov_insert_file_def)
  ultimately show False by (simp add: shows_dir_shadowed shadowed_def)
qed

section \<open>What a landed commit leaves behind\<close>

lemma landed_rotation:
  assumes "addressing (me_vcs v)" "signing (me_vcs v)" "decrypts v" "store_ok (me_vcs v) rp"
    and "mount_ok st" "no_shares_mounted (mt_registry st)"
    and "workdir_snapshot v (rp_objects rp) st = Inr s"
    and "commit_snapshot_to_with (me_vcs v) tip_ref s it now policy rp = (Inr out, events, rp')" "events \<noteq> []"
  obtains user view where "inmem_ignore v (rp_objects rp) st = Inr user"
    "\<forall>st1. mt_registry st1 = mt_registry st \<longrightarrow>
       on_tip_changed (me_vcs v) (rp_db rp') events st1 = rotated st1 (ov_gen (mt_overlay st)) view"
    "serves_tree v (rp_objects rp') (ws_root s) view" "pruned (ws_root s)"
    "\<forall>p. file_at (ws_root s) p = file_of v (rp_objects rp) p (working st user p)"
proof -
  obtain user where user: "inmem_ignore v (rp_objects rp) st = Inr user" and tree: "tree_ok (ws_root s)"
      and gen: "pruned (ws_root s)" "ws_overlay_generation s = Some (ov_gen (mt_overlay st))"
      and files: "\<And>p. file_at (ws_root s) p = file_of v (rp_objects rp) p (working st user p)"
    using workdir_at [OF assms(5-7)] by blast
  have ev: "events = [(tip_ref, co_hash out, Some (ov_gen (mt_overlay st)))]"
    using commit_events [OF assms(8)] assms(9) gen(2) by simp
  obtain view where view: "tip_of rp' tip_ref = Some (co_hash out)"
      "chain_view (rp_db rp') (co_hash out) = Some (Inr view)" "serves_tree v (rp_objects rp') (ws_root s) view"
    using commit_serves [OF assms(1,2,4) tree assms(3,8)] .
  have "on_tip_changed (me_vcs v) (rp_db rp') events st1 = rotated st1 (ov_gen (mt_overlay st)) view"
    if "mt_registry st1 = mt_registry st" for st1
    using rotation_event [of st1, OF _ view(1,2)] assms(6) ev that by simp
  then show ?thesis using that [OF user _ view(3) gen(1)] files by blast
qed

lemma empty_dir_gone:
  assumes "serves_tree v os ch view" "pruned ch" "a \<noteq> []" "\<And>k ks. file_at ch (a @ k # ks) = None"
  shows "map_option en_kind (map_of view a) \<noteq> Some EDir"
proof
  assume d: "map_option en_kind (map_of view a) = Some EDir"
  obtain k ks where a: "a = k # ks" using assms(3) by (cases a) auto
  obtain sub where sub: "node_at ch a = Some (Dir sub)"
    using assms(1) [unfolded serves_tree_def, rule_format, of k ks] d
    by (auto simp: a simp del: node_at.simps split: option.splits tnode.splits)
  have ne: "node_at ch a = Some x \<Longrightarrow> a \<noteq> [] \<Longrightarrow> pruned ch \<Longrightarrow> no_empty_dirs x \<and> x \<noteq> Dir []" for x
  proof (induction ch a rule: node_at.induct)
    case (2 ch n ps)
    have at: "map_of ch n = Some y \<Longrightarrow> no_empty_dirs y \<and> y \<noteq> Dir []" for y
      using "2.prems"(3) by (auto simp: list_all_iff dest!: map_of_SomeD)
    show ?case
    proof (cases "map_of ch n")
      case (Some y)
      show ?thesis
      proof (cases y)
        case (File m c)
        then show ?thesis using "2.prems"(1) Some by (auto split: if_splits)
      next
        case (Dir sub')
        then show ?thesis using "2.IH" [OF Some Dir] "2.prems"(1) at [OF Some] Some by (cases ps) auto
      qed
    qed (use "2.prems"(1) in simp)
  qed simp
  obtain p where p: "node_file (Dir sub) p \<noteq> None" using pruned_has_file ne [OF sub assms(3,2)] by blast
  then obtain j js where j: "p = j # js" by (cases p) auto
  have "node_at ch (a @ q) = node_at sub q" for q
    using sub by (induction ch a rule: node_at.induct) (auto split: option.splits tnode.splits if_splits)
  then have "file_at ch (a @ p) = file_at sub p" by (simp add: file_at_def)
  then show False using p assms(4) j by simp
qed

text \<open>
  A file created, after the snapshot was cut, in a directory that the commit leaves without files
  is not in the working tree after the rotation, nor is anything below that directory.
\<close>

lemma orphaned_by_rotation:
  assumes cycle: "addressing (me_vcs v)" "signing (me_vcs v)" "decrypts v" "store_ok (me_vcs v) rp"
      "mount_ok st" "no_shares_mounted (mt_registry st)" "workdir_snapshot v (rp_objects rp) st = Inr s"
      "commit_snapshot_to_with (me_vcs v) tip_ref s it now policy rp = (Inr out, events, rp')" "events \<noteq> []"
    and gens: "gens_ok (mt_overlay st)" "unat (ov_gen (mt_overlay st)) + length es < 2 ^ 64"
    and a: "a \<noteq> []" "a \<notin> fst ` set es" "ov_get (mt_overlay st) a = None"
      "\<And>user k ks. inmem_ignore v (rp_objects rp) st = Inr user \<Longrightarrow> working st user (a @ k # ks) = None"
  shows "working (on_tip_changed (me_vcs v) (rp_db rp') events (stage_all es st)) user (a @ k # ks) = None"
proof (rule ccontr)
  obtain user' view where c: "inmem_ignore v (rp_objects rp) st = Inr user'"
      "\<forall>st1. mt_registry st1 = mt_registry st \<longrightarrow>
         on_tip_changed (me_vcs v) (rp_db rp') events st1 = rotated st1 (ov_gen (mt_overlay st)) view"
      "serves_tree v (rp_objects rp') (ws_root s) view" "pruned (ws_root s)"
      "\<forall>p. file_at (ws_root s) p = file_of v (rp_objects rp) p (working st user' p)"
    using landed_rotation [OF cycle] .
  let ?st2 = "rotated (stage_all es st) (ov_gen (mt_overlay st)) view"
  have st2: "on_tip_changed (me_vcs v) (rp_db rp') events (stage_all es st) = ?st2" using c(2) by simp
  assume "working (on_tip_changed (me_vcs v) (rp_db rp') events (stage_all es st)) user (a @ k # ks) \<noteq> None"
  then obtain x where "working ?st2 user (a @ k # ks) = Some x" unfolding st2 by blast
  from workingD(4) [OF this, of "length a"]
  have "shows_dir ?st2 (enabled_mount_roots (mt_registry ?st2)) a" using a(1) by simp
  moreover have "ov_get (mt_overlay ?st2) a = None"
    using rotated_overlay(2) [OF cycle(5) gens a(2), where view = view] a(3) by (cases "ov_get (mt_overlay ?st2) a") auto
  moreover have "map_option en_kind (map_of view a) \<noteq> Some EDir"
    using a(4) [OF c(1)] c(5) by (intro empty_dir_gone [OF c(3,4) a(1)]) (simp add: file_of_def)
  ultimately show False by (auto simp: shows_dir_shadowed shadowed_def rotated_def)
qed

text \<open>A staged file under an ignored name is dropped by the rotation, though no commit contains it.\<close>

lemma ignored_dropped:
  assumes cycle: "addressing (me_vcs v)" "signing (me_vcs v)" "decrypts v" "store_ok (me_vcs v) rp"
      "mount_ok st" "no_shares_mounted (mt_registry st)" "workdir_snapshot v (rp_objects rp) st = Inr s"
      "commit_snapshot_to_with (me_vcs v) tip_ref s it now policy rp = (Inr out, events, rp')" "events \<noteq> []"
    and gens: "gens_ok (mt_overlay st)" "unat (ov_gen (mt_overlay st)) < 2 ^ 64"
    and p: "ov_get (mt_overlay st) p = Some (OFile c m)" "builtin_ignored p"
  shows "file_at (ws_root s) p = None" "\<not> path_exists (on_tip_changed (me_vcs v) (rp_db rp') events st) p"
proof -
  obtain user view where c: "inmem_ignore v (rp_objects rp) st = Inr user"
      "\<forall>st1. mt_registry st1 = mt_registry st \<longrightarrow>
         on_tip_changed (me_vcs v) (rp_db rp') events st1 = rotated st1 (ov_gen (mt_overlay st)) view"
      "serves_tree v (rp_objects rp') (ws_root s) view" "pruned (ws_root s)"
      "\<forall>p. file_at (ws_root s) p = file_of v (rp_objects rp) p (working st user p)"
    using landed_rotation [OF cycle] .
  have ne: "p \<noteq> []" using p(2) by (auto simp: builtin_ignored_def)
  have "builtin_ignored (p @ q)" for q using p(2) by (cases p) (auto simp: builtin_ignored_def)
  then have none: "file_at (ws_root s) (p @ q) = None" for q
    using c(5) by (simp add: working_def Let_def is_ignored_def file_of_def)
  then show "file_at (ws_root s) p = None" by (metis append_Nil2)
  let ?st2 = "rotated st (ov_gen (mt_overlay st)) view"
  have "ov_get (mt_overlay ?st2) p = None"
    using rotated_overlay(2) [OF cycle(5) gens(1), where es = "[]" and p = p and view = view] gens(2) p(1) by (cases "ov_get (mt_overlay ?st2) p") auto
  moreover have "map_of view p = None"
  proof (cases "map_of view p")
    case (Some e)
    have "en_kind e \<noteq> EDir" using empty_dir_gone [OF c(3,4) ne none] Some by simp
    then have "en_kind e = EBlob" by (cases "en_kind e") auto
    then show ?thesis using serves_treeD(3) [OF c(3) ne Some] none [of "[]"] by simp
  qed simp
  ultimately show "\<not> path_exists (on_tip_changed (me_vcs v) (rp_db rp') events st) p"
    using c(2) by (simp add: path_exists_def entry_kind_of_def rotated_def)
qed

section \<open>A concrete cycle\<close>

definition demo_mount_env :: mount_env where
  "demo_mount_env = \<lparr>me_vcs = demo_session, me_decrypt = \<lambda>p c. Some (drop (length tip_ref + length p) c),
     me_decrypt_plain = \<lambda>c. Some c,
     me_sealed = \<lambda>p. p = ''secret.md'', me_redact = \<lambda>p b. b\<rparr>"

definition demo_mount :: mount_state where
  "demo_mount = \<lparr>mt_view = view_empty demo_session,
     mt_overlay = ov_insert_file [''a.md''] ''one'' 420 overlay_new, mt_registry = device_only\<rparr>"

abbreviation empty_garden :: repo where
  "empty_garden \<equiv> \<lparr>rp_db = db_empty, rp_objects = []\<rparr>"

definition demo_cut :: walk_snapshot where
  "demo_cut = \<lparr>ws_root = [(''a.md'', File 420 ''one'')], ws_overlay_generation = Some 1\<rparr>"

lemma demo_mount_facts:
  "mount_ok demo_mount" "gens_ok (mt_overlay demo_mount)" "no_shares_mounted (mt_registry demo_mount)"
  "decrypts demo_mount_env" "ov_gen (mt_overlay demo_mount) = 1"
proof -
  show "mount_ok demo_mount" by code_simp
  show "gens_ok (mt_overlay demo_mount)" by code_simp
  show "no_shares_mounted (mt_registry demo_mount)"
    by (simp add: no_shares_mounted_def demo_mount_def device_only_def)
  show "decrypts demo_mount_env" by (auto simp: decrypts_def demo_mount_env_def demo_session_def)
  show "ov_gen (mt_overlay demo_mount) = 1" by code_simp
qed

lemma demo_snapshot: "workdir_snapshot demo_mount_env [] demo_mount = Inr demo_cut"
  by code_simp

lemma demo_cut_lands:
  obtains out events rp' where "commit_snapshot_to_with demo_session tip_ref demo_cut (intent_init ''first'') 7 Skip
    empty_garden = (Inr out, events, rp')"
proof -
  have "\<exists>root ts os. build_with demo_session tip_ref (ws_root demo_cut) [] = (Inr (root, ts), os)"
    by (simp add: build_with_def demo_cut_def demo_session_def finish_node_def object_put_def Let_def split: prod.splits)
  then obtain root ts os where "build_with demo_session tip_ref (ws_root demo_cut) [] = (Inr (root, ts), os)" by blast
  moreover have "ve_parse demo_session t \<noteq> None" for t by (simp add: demo_session_def)
  ultimately show ?thesis using first_commit_lands that by (metis prod.collapse)
qed

theorem snapshot_is_working_tree_witness:
  "chain_snapshots demo_mount_env [] demo_mount = Inr [(tip_ref, demo_cut)] \<and>
    file_at (ws_root demo_cut) [''a.md''] = file_of demo_mount_env [] [''a.md''] (working demo_mount [] [''a.md''])"
proof
  show run: "chain_snapshots demo_mount_env [] demo_mount = Inr [(tip_ref, demo_cut)]" by code_simp
  have reg: "registry_ok (mt_registry demo_mount)" "chain_device \<in> set (enabled_chains (mt_registry demo_mount))"
    using unmounted [OF demo_mount_facts(3)] by simp_all
  have own: "owning_chain (mt_registry demo_mount) p = chain_device" for p by (rule unmounted(2) [OF demo_mount_facts(3)])
  have ign: "inmem_ignore demo_mount_env [] demo_mount = Inr []" by code_simp
  have "snapshot_of [(tip_ref, demo_cut)] chain_device = demo_cut" by (simp add: snapshot_of_def chain_device_def)
  then show "file_at (ws_root demo_cut) [''a.md''] = file_of demo_mount_env [] [''a.md''] (working demo_mount [] [''a.md''])"
    using snapshot_is_working_tree [OF demo_mount_facts(1) reg(1) run] reg(2) own ign
    by (auto simp: Let_def chain_device_def)
qed

theorem commit_absorbs_witness:
  "\<exists>out events rp'. commit_snapshot_to_with demo_session tip_ref demo_cut (intent_init ''first'') 7 Skip empty_garden
      = (Inr out, events, rp') \<and>
    working (on_tip_changed demo_session (rp_db rp') events
      (stage_all [([''b.md''], OFile ''two'' 420)] demo_mount)) [] [''b.md''] = Some (420, From_Overlay ''two'') \<and>
    file_of demo_mount_env (rp_objects rp') [''a.md''] (working (on_tip_changed demo_session (rp_db rp') events
      (stage_all [([''b.md''], OFile ''two'' 420)] demo_mount)) [] [''a.md'']) = Some (420, ''one'')"
proof -
  let ?es = "[([''b.md''], OFile ''two'' 420)]" and ?st1 = "stage_all [([''b.md''], OFile ''two'' 420)] demo_mount"
  obtain out events rp' where run: "commit_snapshot_to_with demo_session tip_ref demo_cut (intent_init ''first'') 7 Skip
    empty_garden = (Inr out, events, rp')" using demo_cut_lands .
  have env: "me_vcs demo_mount_env = demo_session" by (simp add: demo_mount_env_def)
  note f = demo_mount_facts
  have ign: "inmem_ignore demo_mount_env [] demo_mount = Inr []" by code_simp
  have same: "working ?st1 [] [''a.md''] = Some (420, From_Overlay ''one'')"
    "working demo_mount [] [''a.md''] = Some (420, From_Overlay ''one'')" by code_simp+
  have new: "ov_get (mt_overlay ?st1) [''b.md''] = Some (OFile ''two'' 420)" by simp
  have len: "unat (ov_gen (mt_overlay demo_mount)) + length ?es < 2 ^ 64" by (simp add: f(5))
  have "\<not> is_ignored [] [''b.md'']" by code_simp
  then show ?thesis
    using commit_absorbs [of demo_mount_env empty_garden demo_mount ?es demo_cut "intent_init ''first''" 7 Skip out events rp',
        unfolded env, OF demo_session_ok f(4) empty_store_ok f(1,2) len _ run] f(3) run demo_snapshot ign same new
    by (auto simp: Let_def file_of_def mode_mask_def)
qed

end
