(* ===== verification/Fleet_Admission.thy ===== *)
theory Fleet_Admission
  imports Sorted_Map
begin

text \<open>
  What the fleet daemon may start and where (\<^verbatim>\<open>crates/softfig-growlightd/src/\<close>):
  the admission governor (\<^verbatim>\<open>admission.rs\<close>), the readings of the budget windows
  (\<^verbatim>\<open>softfig-ipc/src/usage.rs\<close>, \<^verbatim>\<open>profile_budget.rs\<close>), the holds of the login slots
  (\<^verbatim>\<open>rate_limit_holds.rs\<close>) and the picker of a slot (\<^verbatim>\<open>profile_pin.rs\<close>). Times are seconds
  as integers; percentages and rates keep their width.
\<close>

type_synonym u8 = "8 word"

section \<open>The governor\<close>

record policy =
  po_max_agents :: u32
  po_ctx_roll :: u8
  po_ctx_handoff :: u8
  po_halt_5h :: u8
  po_halt_7d :: u8

definition policy_default :: policy where
  "policy_default = \<lparr>po_max_agents = 2, po_ctx_roll = 50, po_ctx_handoff = 60, po_halt_5h = 85, po_halt_7d = 90\<rparr>"

datatype admit_intent = Start | Roll

record budget_usage =
  bu_5h :: u8
  bu_7d :: u8

record rate_state =
  ra_tpm_used :: u32
  ra_rpm_used :: u32
  ra_tpm_limit :: u32
  ra_rpm_limit :: u32
  ra_tpm_per_agent :: u32
  ra_rpm_per_agent :: u32

definition saturating_add :: "u32 \<Rightarrow> u32 \<Rightarrow> u32" where
  "saturating_add a b = (if a + b < a then - 1 else a + b)"

definition tpm_would_exceed :: "rate_state \<Rightarrow> bool" where
  "tpm_would_exceed r \<longleftrightarrow> ra_tpm_limit r < saturating_add (ra_tpm_used r) (ra_tpm_per_agent r)"

definition rpm_would_exceed :: "rate_state \<Rightarrow> bool" where
  "rpm_would_exceed r \<longleftrightarrow> ra_rpm_limit r < saturating_add (ra_rpm_used r) (ra_rpm_per_agent r)"

datatype refuse_reason = Budget5h | Budget7d | Tpm | Rpm

datatype admission = Admit | Wait_Slot u32 u32 | Refuse refuse_reason

definition decide :: "policy \<Rightarrow> admit_intent \<Rightarrow> u32 \<Rightarrow> budget_usage \<Rightarrow> rate_state \<Rightarrow> admission" where
  "decide p intent fleet budget rate =
     (if po_halt_5h p \<le> bu_5h budget then Refuse Budget5h
      else if po_halt_7d p \<le> bu_7d budget then Refuse Budget7d
      else if tpm_would_exceed rate then Refuse Tpm
      else if rpm_would_exceed rate then Refuse Rpm
      else if intent = Start \<and> po_max_agents p \<le> fleet then Wait_Slot fleet (po_max_agents p)
      else Admit)"

section \<open>Readings of the windows\<close>

record rate_window =
  rw_used :: "u8 option"
  rw_resets_at :: "int option"
  rw_status :: "string option"

record usage_snapshot =
  us_five_hour :: rate_window
  us_seven_day :: rate_window
  us_ts :: int

definition window_reset_by :: "rate_window \<Rightarrow> int \<Rightarrow> bool" where
  "window_reset_by w now \<longleftrightarrow> (case rw_resets_at w of Some at \<Rightarrow> at \<le> now | None \<Rightarrow> False)"

definition vouchable_pct_at :: "rate_window \<Rightarrow> int \<Rightarrow> u8 option" where
  "vouchable_pct_at w now = (if window_reset_by w now then None else rw_used w)"

definition stale_floor_secs :: int where "stale_floor_secs = 21600"

record headroom =
  hr_pct :: u8
  hr_resets_at :: "int option"

definition headroom_full :: headroom where
  "headroom_full = \<lparr>hr_pct = 100, hr_resets_at = None\<rparr>"

definition window_headroom :: "rate_window \<Rightarrow> int \<Rightarrow> headroom" where
  "window_headroom w now =
     (if window_reset_by w now then headroom_full
      else
        (let from_pct = map_option (\<lambda>used. 100 - min used 100) (vouchable_pct_at w now);
             from_status = map_option (\<lambda>s. if s = ''allowed'' then 100 else if s = ''rejected'' then 0 else 5)
               (rw_status w);
             pct = (case (from_pct, from_status) of
                 (Some a, Some b) \<Rightarrow> min a b
               | (Some p, None) \<Rightarrow> p
               | (None, Some p) \<Rightarrow> p
               | (None, None) \<Rightarrow> 100)
         in \<lparr>hr_pct = pct, hr_resets_at = rw_resets_at w\<rparr>))"

definition binding_headroom :: "headroom \<Rightarrow> headroom \<Rightarrow> headroom" where
  "binding_headroom five seven =
     (if hr_pct five < hr_pct seven then five
      else if hr_pct seven < hr_pct five then seven
      else \<lparr>hr_pct = hr_pct five,
             hr_resets_at =
               (case (hr_resets_at five, hr_resets_at seven) of
                  (Some a, Some b) \<Rightarrow> Some (max a b)
                | (Some a, None) \<Rightarrow> Some a
                | (None, b) \<Rightarrow> b)\<rparr>)"

definition headroom_from :: "usage_snapshot option \<Rightarrow> int \<Rightarrow> headroom" where
  "headroom_from reading now =
     (case reading of
        None \<Rightarrow> headroom_full
      | Some snap \<Rightarrow>
          (if stale_floor_secs < now - us_ts snap then headroom_full
           else binding_headroom (window_headroom (us_five_hour snap) now) (window_headroom (us_seven_day snap) now)))"

text \<open>
  The readings on disk: a slot has no file, a file that parses, or one that does not (also after
  the one retry).
\<close>

datatype slot_file = No_File | Reading usage_snapshot | Torn

definition slot_headroom :: "slot_file \<Rightarrow> int \<Rightarrow> headroom" where
  "slot_headroom f now =
     (case f of
        No_File \<Rightarrow> headroom_full
      | Reading snap \<Rightarrow> headroom_from (Some snap) now
      | Torn \<Rightarrow> \<lparr>hr_pct = 5, hr_resets_at = None\<rparr>)"

definition pool_headroom :: "(string \<Rightarrow> slot_file) \<Rightarrow> string list \<Rightarrow> int \<Rightarrow> (string \<times> headroom) list" where
  "pool_headroom files pool now = map (\<lambda>slot. (slot, slot_headroom (files slot) now)) pool"

section \<open>Holds of the slots\<close>

type_synonym holds = "(string \<times> int) list"

definition extend_hold :: "string \<Rightarrow> int \<Rightarrow> holds \<Rightarrow> bool \<times> holds" where
  "extend_hold profile until hs =
     (case map_of hs profile of
        Some existing \<Rightarrow> (if until \<le> existing then (False, hs) else (True, bm_insert profile until hs))
      | None \<Rightarrow> (True, bm_insert profile until hs))"

definition clear_elapsed :: "int \<Rightarrow> holds \<Rightarrow> holds" where
  "clear_elapsed now hs = filter (\<lambda>(_, until). now < until) hs"

definition is_held :: "string \<Rightarrow> holds \<Rightarrow> bool" where
  "is_held profile hs \<longleftrightarrow> map_of hs profile \<noteq> None"

definition member_fully_held :: "string list \<Rightarrow> holds \<Rightarrow> bool" where
  "member_fully_held profiles hs \<longleftrightarrow> profiles \<noteq> [] \<and> list_all (\<lambda>p. is_held p hs) profiles"

definition earliest_hold :: "holds \<Rightarrow> int option" where
  "earliest_hold hs = (if hs = [] then None else Some (foldl min (snd (hd hs)) (map snd (tl hs))))"

definition headroom_warn_pct :: u8 where "headroom_warn_pct = 10"
definition headroom_stall_pct :: u8 where "headroom_stall_pct = 2"

text \<open>One file of the directory; the directory is the list of its slots in listing order.\<close>

definition rescan_slot :: "(string \<Rightarrow> slot_file) \<Rightarrow> int \<Rightarrow> string \<Rightarrow> nat \<times> holds \<Rightarrow> nat \<times> holds" where
  "rescan_slot files now slot acc =
     (case acc of (n, hs) \<Rightarrow>
        let hr = slot_headroom (files slot) now in
        if headroom_stall_pct < hr_pct hr then (n, hs)
        else
          (case hr_resets_at hr of
             Some at \<Rightarrow>
               (if now < at
                then (case extend_hold slot at hs of (changed, hs') \<Rightarrow> (if changed then n + 1 else n, hs'))
                else (n, hs))
           | None \<Rightarrow> (n, hs)))"

definition rescan_from_disk :: "(string \<Rightarrow> slot_file) \<Rightarrow> string list \<Rightarrow> int \<Rightarrow> holds \<Rightarrow> nat \<times> holds" where
  "rescan_from_disk files slots now hs = fold (rescan_slot files now) slots (0, hs)"

section \<open>The picker of a slot\<close>

record profile_pin =
  pp_profile :: string
  pp_picked_at :: int
  pp_session :: string
  pp_slice :: "string option"

definition history_cap :: nat where "history_cap = 64"

definition push_history :: "profile_pin \<Rightarrow> profile_pin list \<Rightarrow> profile_pin list" where
  "push_history pin history = (let h = history @ [pin] in drop (length h - history_cap) h)"

text \<open>The recency of a slot: the running maximum of the times with the line, latest first.\<close>

type_synonym recency = "(string \<times> (int \<times> nat)) list"

definition later :: "int \<times> nat \<Rightarrow> int \<times> nat \<Rightarrow> int \<times> nat" where
  "later a b = (if fst a < fst b \<or> fst a = fst b \<and> snd a \<le> snd b then b else a)"

fun used_in :: "profile_pin list \<Rightarrow> nat \<Rightarrow> int option \<Rightarrow> recency \<Rightarrow> recency" where
  "used_in [] line floor seen = seen"
| "used_in (p # ps) line floor seen =
     (let f = (case floor of None \<Rightarrow> pp_picked_at p | Some x \<Rightarrow> max x (pp_picked_at p));
          key = (f, line);
          new = (case map_of seen (pp_profile p) of None \<Rightarrow> key | Some k \<Rightarrow> later k key)
      in used_in ps (line + 1) (Some f) (bm_insert (pp_profile p) new seen))"

definition last_used :: "profile_pin list list \<Rightarrow> recency" where
  "last_used histories = fold (\<lambda>h seen. used_in h 0 None seen) histories []"

text \<open>Never picked sorts first, then the older key; the first of equal slots wins.\<close>

definition before_key :: "(int \<times> nat) option \<Rightarrow> (int \<times> nat) option \<Rightarrow> bool" where
  "before_key a b =
     (case (a, b) of
        (None, None) \<Rightarrow> False
      | (None, Some _) \<Rightarrow> True
      | (Some _, None) \<Rightarrow> False
      | (Some x, Some y) \<Rightarrow> fst x < fst y \<or> fst x = fst y \<and> snd x < snd y)"

fun min_by_recency :: "recency \<Rightarrow> string \<Rightarrow> string list \<Rightarrow> string" where
  "min_by_recency used best [] = best"
| "min_by_recency used best (s # ss) =
     (if before_key (map_of used s) (map_of used best) then min_by_recency used s ss
      else min_by_recency used best ss)"

definition pick_round_robin :: "string list \<Rightarrow> recency \<Rightarrow> string option" where
  "pick_round_robin pool used = (case pool of [] \<Rightarrow> None | s # ss \<Rightarrow> Some (min_by_recency used s ss))"

datatype pick_result = Chose string u8 | Warn string u8 | Stall "int option"

definition earliest_reset :: "headroom list \<Rightarrow> int option" where
  "earliest_reset hs =
     (case concat (map (\<lambda>h. case hr_resets_at h of Some a \<Rightarrow> [a] | None \<Rightarrow> []) hs) of
        [] \<Rightarrow> None | a # as \<Rightarrow> Some (foldl min a as))"

definition max_pct :: "(string \<times> headroom) list \<Rightarrow> u8" where
  "max_pct cs = (case cs of [] \<Rightarrow> 100 | c # cs' \<Rightarrow> foldl max (hr_pct (snd c)) (map (hr_pct \<circ> snd) cs'))"

definition pick_candidates :: "string list \<Rightarrow> string list \<Rightarrow> headroom list \<Rightarrow> (string \<times> headroom) list" where
  "pick_candidates pool live hs =
     (let open_slots = filter (\<lambda>(_, h). headroom_stall_pct < hr_pct h) (zip pool hs);
          free = filter (\<lambda>(s, _). s \<notin> set live) open_slots
      in if free = [] then open_slots else free)"

definition pick_with_budget ::
  "string list \<Rightarrow> recency \<Rightarrow> string list \<Rightarrow> headroom list \<Rightarrow> pick_result option" where
  "pick_with_budget pool used live hs =
     (if pool = [] then None
      else if list_all (\<lambda>h. hr_pct h \<le> headroom_stall_pct) hs then Some (Stall (earliest_reset hs))
      else
        (let candidates = pick_candidates pool live hs;
             top = max_pct candidates;
             tier = map fst (filter (\<lambda>(_, h). hr_pct h = top) candidates);
             chosen = (case pick_round_robin tier used of Some s \<Rightarrow> s | None \<Rightarrow> hd tier)
         in Some (if top < headroom_warn_pct then Warn chosen top else Chose chosen top)))"

end
