(* ===== verification/Fleet_Pool.thy ===== *)
theory Fleet_Pool
  imports Fleet_Admission
begin

text \<open>
  What the picker of a login slot and the holds promise: the best open slot wins, an exhausted one
  never, and a hold lasts until its window reopens whatever is reported in between.
\<close>

section \<open>Extremes\<close>

lemma foldl_min_le: "foldl min (a :: 'a :: linorder) as \<in> set (a # as) \<and> (\<forall>x \<in> set (a # as). foldl min a as \<le> x)"
proof (induction as arbitrary: a)
  case (Cons x as)
  show ?case using Cons.IH [of "min a x"] by (auto simp: min_def split: if_splits)
qed simp

lemma foldl_max_ge: "foldl max (a :: 'a :: linorder) as \<in> set (a # as) \<and> (\<forall>x \<in> set (a # as). x \<le> foldl max a as)"
proof (induction as arbitrary: a)
  case (Cons x as)
  show ?case using Cons.IH [of "max a x"] by (auto simp: max_def split: if_splits)
qed simp

lemma foldl_min_Min: "foldl min (a :: 'a :: linorder) as = Min (set (a # as))"
  using foldl_min_le [of a as] by (intro Min_eqI [symmetric]) blast+

lemma foldl_max_Max: "foldl max (a :: 'a :: linorder) as = Max (set (a # as))"
  using foldl_max_ge [of a as] by (intro Max_eqI [symmetric]) blast+

lemma max_pct_Max: "cs \<noteq> [] \<Longrightarrow> max_pct cs = Max (hr_pct ` snd ` set cs)"
  by (cases cs) (auto simp: max_pct_def foldl_max_Max image_image)

lemma earliest_reset_spec:
  "earliest_reset hs = (let R = {a. \<exists>h \<in> set hs. hr_resets_at h = Some a} in if R = {} then None else Some (Min R))"
proof -
  let ?l = "concat (map (\<lambda>h. case hr_resets_at h of Some a \<Rightarrow> [a] | None \<Rightarrow> []) hs)"
  have R: "{a. \<exists>h \<in> set hs. hr_resets_at h = Some a} = set ?l" by (force split: option.splits)
  have "(case l of [] \<Rightarrow> None | a # as \<Rightarrow> Some (foldl min a as)) = (if set l = {} then None else Some (Min (set l)))"
    for l :: "int list"
    by (cases l) (simp_all add: foldl_min_Min)
  then show ?thesis unfolding R Let_def earliest_reset_def .
qed

section \<open>The least recent slot\<close>

lemma before_key_total: "\<not> before_key a b \<Longrightarrow> \<not> before_key b c \<Longrightarrow> \<not> before_key a c"
  by (auto simp: before_key_def split: option.splits)

lemma min_by_recency_spec:
  "min_by_recency used s ss \<in> set (s # ss) \<and>
     (\<forall>t \<in> set (s # ss). \<not> before_key (map_of used t) (map_of used (min_by_recency used s ss)))"
proof (induction ss arbitrary: s)
  case Nil
  show ?case by (auto simp: before_key_def split: option.splits)
next
  case (Cons t ss)
  have flip: "before_key a b \<Longrightarrow> \<not> before_key b a" for a b by (auto simp: before_key_def split: option.splits)
  show ?case
  proof (cases "before_key (map_of used t) (map_of used s)")
    case True
    let ?m = "min_by_recency used t ss"
    have m: "?m \<in> set (t # ss)" "\<And>u. u \<in> set (t # ss) \<Longrightarrow> \<not> before_key (map_of used u) (map_of used ?m)"
      using Cons.IH [of t] by blast+
    have "\<not> before_key (map_of used s) (map_of used ?m)" using before_key_total [OF flip [OF True] m(2)] by simp
    then show ?thesis using True m by auto
  next
    case False
    let ?m = "min_by_recency used s ss"
    have m: "?m \<in> set (s # ss)" "\<And>u. u \<in> set (s # ss) \<Longrightarrow> \<not> before_key (map_of used u) (map_of used ?m)"
      using Cons.IH [of s] by blast+
    have "\<not> before_key (map_of used t) (map_of used ?m)" using before_key_total [OF False m(2)] by simp
    then show ?thesis using False m by auto
  qed
qed

section \<open>The pick\<close>

text \<open>The open slots, and whether all of them are taken by live sessions.\<close>

definition open_slot :: "string list \<Rightarrow> headroom list \<Rightarrow> string \<Rightarrow> headroom \<Rightarrow> bool" where
  "open_slot pool hs s h \<longleftrightarrow> (s, h) \<in> set (zip pool hs) \<and> headroom_stall_pct < hr_pct h"

definition eligible_slot :: "string list \<Rightarrow> string list \<Rightarrow> headroom list \<Rightarrow> string \<Rightarrow> headroom \<Rightarrow> bool" where
  "eligible_slot pool live hs s h \<longleftrightarrow>
     open_slot pool hs s h \<and> (s \<notin> set live \<or> (\<forall>t k. open_slot pool hs t k \<longrightarrow> t \<in> set live))"

lemma candidates_eligible: "(s, h) \<in> set (pick_candidates pool live hs) \<longleftrightarrow> eligible_slot pool live hs s h"
  by (auto simp: pick_candidates_def Let_def eligible_slot_def open_slot_def filter_empty_conv)

lemma candidates_exist:
  assumes "length hs = length pool" "\<not> list_all (\<lambda>h. hr_pct h \<le> headroom_stall_pct) hs"
  shows "pick_candidates pool live hs \<noteq> []"
proof -
  obtain h where h: "h \<in> set hs" "headroom_stall_pct < hr_pct h" using assms(2) by (auto simp: list_all_iff)
  then obtain i where i: "i < length hs" "hs ! i = h" by (auto simp: in_set_conv_nth)
  then have "(pool ! i, h) \<in> set (zip pool hs)" using assms(1) by (auto simp: set_zip)
  then have "open_slot pool hs (pool ! i) h" using h(2) by (simp add: open_slot_def)
  then have "\<exists>s k. eligible_slot pool live hs s k" unfolding eligible_slot_def by metis
  then show ?thesis using candidates_eligible by (metis list.set(1) empty_iff)
qed

lemma pick_with_budget_spec:
  assumes "pool \<noteq> []" "length hs = length pool" "pick_with_budget pool used live hs = Some r"
  shows "case r of
      Stall until \<Rightarrow> (\<forall>h \<in> set hs. hr_pct h \<le> headroom_stall_pct) \<and> until = earliest_reset hs
    | Chose s p \<Rightarrow> headroom_warn_pct \<le> p \<and> (\<exists>h. eligible_slot pool live hs s h \<and> hr_pct h = p) \<and>
        (\<forall>t k. eligible_slot pool live hs t k \<longrightarrow>
           hr_pct k < p \<or> hr_pct k = p \<and> \<not> before_key (map_of used t) (map_of used s))
    | Warn s p \<Rightarrow> p < headroom_warn_pct \<and> (\<exists>h. eligible_slot pool live hs s h \<and> hr_pct h = p) \<and>
        (\<forall>t k. eligible_slot pool live hs t k \<longrightarrow>
           hr_pct k < p \<or> hr_pct k = p \<and> \<not> before_key (map_of used t) (map_of used s))"
proof (cases "list_all (\<lambda>h. hr_pct h \<le> headroom_stall_pct) hs")
  case True
  then show ?thesis using assms(1,3) by (auto simp: pick_with_budget_def list_all_iff)
next
  case False
  let ?cs = "pick_candidates pool live hs"
  let ?top = "max_pct ?cs"
  let ?tier = "map fst (filter (\<lambda>(_, h). hr_pct h = ?top) ?cs)"
  have ne: "?cs \<noteq> []" using candidates_exist [OF assms(2) False] .
  have top: "?top \<in> hr_pct ` snd ` set ?cs" "\<And>t k. (t, k) \<in> set ?cs \<Longrightarrow> hr_pct k \<le> ?top"
    unfolding max_pct_Max [OF ne] using ne by (auto intro!: Max_in Max_ge rev_image_eqI)
  then obtain s0 h0 where "(s0, h0) \<in> set ?cs" "hr_pct h0 = ?top" by force
  then obtain t0 ts where tier: "?tier = t0 # ts" by (cases ?tier) (auto simp: filter_empty_conv)
  let ?s = "min_by_recency used t0 ts"
  have s: "?s \<in> set ?tier" "\<And>t. t \<in> set ?tier \<Longrightarrow> \<not> before_key (map_of used t) (map_of used ?s)"
    using min_by_recency_spec [of used t0 ts] unfolding tier by blast+
  have r: "r = (if ?top < headroom_warn_pct then Warn ?s ?top else Chose ?s ?top)"
    using assms(1,3) False unfolding pick_with_budget_def Let_def tier by (auto simp: pick_round_robin_def)
  have "\<exists>h. eligible_slot pool live hs ?s h \<and> hr_pct h = ?top"
    using s(1) candidates_eligible [of _ _ pool live hs] by force
  moreover have "hr_pct k < ?top \<or> hr_pct k = ?top \<and> \<not> before_key (map_of used t) (map_of used ?s)"
    if "eligible_slot pool live hs t k" for t k
  proof -
    have mem: "(t, k) \<in> set ?cs" using that candidates_eligible by blast
    have "t \<in> set ?tier" if "hr_pct k = ?top" using mem that by force
    then show ?thesis using top(2) [OF mem] s(2) by fastforce
  qed
  ultimately show ?thesis unfolding r by auto
qed

section \<open>Rejected windows\<close>

lemma rejected_window: "rw_status w = Some ''rejected'' \<Longrightarrow> \<not> window_reset_by w now \<Longrightarrow> hr_pct (window_headroom w now) = 0"
  by (auto simp: window_headroom_def Let_def split: option.split)

lemma binding_min: "hr_pct (binding_headroom a b) = min (hr_pct a) (hr_pct b)"
  by (auto simp: binding_headroom_def min_def)

text \<open>A fresh reading with a window that the account has closed.\<close>

definition shut :: "slot_file \<Rightarrow> int \<Rightarrow> bool" where
  "shut f now \<longleftrightarrow> (\<exists>snap. f = Reading snap \<and> now - us_ts snap \<le> stale_floor_secs \<and>
     (\<exists>w \<in> {us_five_hour snap, us_seven_day snap}. rw_status w = Some ''rejected'' \<and> \<not> window_reset_by w now))"

text \<open>A reading past the staleness floor.\<close>

definition outdated :: "slot_file \<Rightarrow> int \<Rightarrow> bool" where
  "outdated f now \<longleftrightarrow> (\<exists>snap. f = Reading snap \<and> stale_floor_secs < now - us_ts snap)"

lemma outdated_headroom: "outdated f now \<Longrightarrow> hr_pct (slot_headroom f now) = 100"
  by (auto simp: outdated_def slot_headroom_def headroom_from_def headroom_full_def)

lemma shut_headroom: "shut f now \<Longrightarrow> hr_pct (slot_headroom f now) = 0"
  by (auto simp: shut_def slot_headroom_def headroom_from_def binding_min rejected_window min_def)

definition slot_pct :: "(string \<Rightarrow> slot_file) \<Rightarrow> int \<Rightarrow> string \<Rightarrow> u8" where
  "slot_pct files now s = hr_pct (slot_headroom (files s) now)"

definition usable :: "(string \<Rightarrow> slot_file) \<Rightarrow> string list \<Rightarrow> int \<Rightarrow> string list \<Rightarrow> string \<Rightarrow> bool" where
  "usable files live now pool s \<longleftrightarrow> s \<in> set pool \<and> headroom_stall_pct < slot_pct files now s \<and>
     (s \<notin> set live \<or> (\<forall>t \<in> set pool. headroom_stall_pct < slot_pct files now t \<longrightarrow> t \<in> set live))"

lemma eligible_usable:
  "eligible_slot pool live (map snd (pool_headroom files pool now)) s h \<longleftrightarrow>
     usable files live now pool s \<and> h = slot_headroom (files s) now"
proof -
  have "(t, k) \<in> set (zip pool (map snd (pool_headroom files pool now))) \<longleftrightarrow>
      t \<in> set pool \<and> k = slot_headroom (files t) now" for t k
    by (induction pool) (auto simp: pool_headroom_def)
  then show ?thesis by (auto simp: eligible_slot_def open_slot_def usable_def slot_pct_def)
qed

text \<open>
  C31. The login slot a session starts on. From the readings on disk the picker either stalls or
  chooses. It stalls only when no slot of the pool has more than the stall floor left, and names
  the earliest known reopening. Otherwise the slot it chooses belongs to the pool, has more than
  the floor left, is not on a live session unless every open slot is on one, and no slot that
  qualifies the same way has more left, nor as much and a longer rest since its last pick. The
  warning is raised exactly below the warning mark. A slot whose reading is at most six hours old
  and shows a rejected window that is still closed is never chosen; an older reading, whatever it
  shows, counts as full headroom, so a slot with a closed window and such a reading can be.
\<close>

theorem pick_best_open_slot:
  assumes "pool \<noteq> []" "pick_with_budget pool used live (map snd (pool_headroom files pool now)) = Some r"
  shows "case r of
      Stall until \<Rightarrow> (\<forall>s \<in> set pool. slot_pct files now s \<le> headroom_stall_pct) \<and>
        until = (let R = {a. \<exists>s \<in> set pool. hr_resets_at (slot_headroom (files s) now) = Some a} in
                 if R = {} then None else Some (Min R))
    | Chose s p \<Rightarrow> headroom_warn_pct \<le> p \<and> usable files live now pool s \<and> slot_pct files now s = p \<and>
        \<not> shut (files s) now \<and> (outdated (files s) now \<longrightarrow> p = 100) \<and>
        (\<forall>t. usable files live now pool t \<longrightarrow> slot_pct files now t < p \<or>
           slot_pct files now t = p \<and> \<not> before_key (map_of used t) (map_of used s))
    | Warn s p \<Rightarrow> p < headroom_warn_pct \<and> usable files live now pool s \<and> slot_pct files now s = p \<and>
        \<not> shut (files s) now \<and>
        (\<forall>t. usable files live now pool t \<longrightarrow> slot_pct files now t < p \<or>
           slot_pct files now t = p \<and> \<not> before_key (map_of used t) (map_of used s))"
proof -
  let ?hs = "map snd (pool_headroom files pool now)"
  have len: "length ?hs = length pool" and hs: "set ?hs = (\<lambda>s. slot_headroom (files s) now) ` set pool"
    by (auto simp: pool_headroom_def image_image)
  note spec = pick_with_budget_spec [OF assms(1) len assms(2), unfolded eligible_usable]
  have open_up: "\<not> shut (files s) now" if "usable files live now pool s" for s
    using that shut_headroom [of "files s" now] by (auto simp: usable_def slot_pct_def)
  show ?thesis
  proof (cases r)
    case (Stall until)
    then show ?thesis using spec unfolding earliest_reset_spec hs by (simp add: slot_pct_def)
  next
    case (Chose s p)
    then show ?thesis using spec open_up outdated_headroom by (auto simp: slot_pct_def)
  next
    case (Warn s p)
    then show ?thesis using spec open_up by (auto simp: slot_pct_def)
  qed
qed

definition demo_reading :: "string \<Rightarrow> slot_file" where
  "demo_reading s =
     (let w = \<lparr>rw_used = Some 40, rw_resets_at = Some 5000, rw_status = Some ''allowed''\<rparr>;
          shut_w = \<lparr>rw_used = Some 10, rw_resets_at = Some 5000, rw_status = Some ''rejected''\<rparr> in
      if s = ''slot1'' then Reading \<lparr>us_five_hour = w, us_seven_day = shut_w, us_ts = 900\<rparr>
      else Reading \<lparr>us_five_hour = w, us_seven_day = w, us_ts = 900\<rparr>)"

theorem pick_best_open_slot_witness:
  "pick_with_budget [''slot1'', ''slot2''] [] [''slot2''] (map snd (pool_headroom demo_reading [''slot1'', ''slot2''] 1000))
     = Some (Chose ''slot2'' 60) \<and> usable demo_reading [''slot2''] 1000 [''slot1'', ''slot2''] ''slot2'' \<and>
   \<not> shut (demo_reading ''slot2'') 1000"
proof -
  have run: "pick_with_budget [''slot1'', ''slot2''] [] [''slot2'']
      (map snd (pool_headroom demo_reading [''slot1'', ''slot2''] 1000)) = Some (Chose ''slot2'' 60)"
    by code_simp
  show ?thesis using pick_best_open_slot [OF _ run] run by simp
qed

section \<open>Holds last\<close>

datatype hold_op = Extend_Hold string int | Clear_Elapsed int | Rescan "string \<Rightarrow> slot_file" "string list" int

fun hold_step :: "hold_op \<Rightarrow> holds \<Rightarrow> holds" where
  "hold_step (Extend_Hold p u) hs = snd (extend_hold p u hs)"
| "hold_step (Clear_Elapsed now) hs = clear_elapsed now hs"
| "hold_step (Rescan files slots now) hs = snd (rescan_from_disk files slots now hs)"

lemma extend_at:
  "map_of (snd (extend_hold p u hs)) q =
     (if q = p then Some (case map_of hs p of Some e \<Rightarrow> max e u | None \<Rightarrow> u) else map_of hs q)"
  by (auto simp: extend_hold_def max_def split: option.split)

definition held_from :: "int \<Rightarrow> string \<Rightarrow> holds \<Rightarrow> bool" where
  "held_from u p hs \<longleftrightarrow> (\<exists>v. map_of hs p = Some v \<and> u \<le> v)"

lemma extend_keeps: "held_from u p hs \<Longrightarrow> held_from u p (snd (extend_hold q w hs))"
  by (auto simp: held_from_def extend_at)

lemma rescan_slot_holds:
  "snd (rescan_slot files now s acc) =
     (if hr_pct (slot_headroom (files s) now) \<le> headroom_stall_pct then
        (case hr_resets_at (slot_headroom (files s) now) of
           Some u \<Rightarrow> if now < u then snd (extend_hold s u (snd acc)) else snd acc
         | None \<Rightarrow> snd acc)
      else snd acc)"
proof (cases acc)
  case (Pair n hs)
  then show ?thesis
    by (cases "headroom_stall_pct < hr_pct (slot_headroom (files s) now)")
      (simp_all add: rescan_slot_def Let_def not_less [symmetric] split: option.split prod.split)
qed

lemma rescan_slot_cases:
  assumes "P (snd acc)" and "\<And>u. P (snd (extend_hold s u (snd acc)))"
  shows "P (snd (rescan_slot files now s acc))"
  using assms by (simp add: rescan_slot_holds split: option.split)

lemma fold_rescan:
  "P (snd acc) \<Longrightarrow> (\<And>s u hs. P hs \<Longrightarrow> P (snd (extend_hold s u hs))) \<Longrightarrow>
     P (snd (fold (rescan_slot files now) slots acc))"
proof (induction slots arbitrary: acc)
  case (Cons s ss)
  have "P (snd (rescan_slot files now s acc))" by (rule rescan_slot_cases) (use Cons.prems in auto)
  then show ?case using Cons.IH Cons.prems(2) by simp
qed simp

lemma rescan_keeps: "held_from u p hs \<Longrightarrow> held_from u p (snd (rescan_from_disk files slots now hs))"
  unfolding rescan_from_disk_def by (rule fold_rescan) (simp_all add: extend_keeps)

lemma extend_ok: "bm_ok hs \<Longrightarrow> bm_ok (snd (extend_hold p u hs))"
  by (auto simp: extend_hold_def split: option.split)

lemma rescan_ok: "bm_ok hs \<Longrightarrow> bm_ok (snd (rescan_from_disk files slots now hs))"
  unfolding rescan_from_disk_def by (rule fold_rescan) (simp_all add: extend_ok)

lemma clear_at:
  "bm_ok hs \<Longrightarrow> map_of (clear_elapsed now hs) p =
     (case map_of hs p of Some u \<Rightarrow> if now < u then Some u else None | None \<Rightarrow> None)"
  by (auto simp: clear_elapsed_def map_of_filter_ok split: option.split)

lemma hold_ops_keep:
  "bm_ok hs \<Longrightarrow> held_from u p hs \<Longrightarrow> (\<And>now. Clear_Elapsed now \<in> set ops \<Longrightarrow> now < u) \<Longrightarrow>
     held_from u p (fold hold_step ops hs)"
proof (induction ops arbitrary: hs)
  case (Cons x ops)
  have ok: "bm_ok (hold_step x hs)"
    using Cons.prems(1) extend_ok rescan_ok by (cases x) (auto simp: clear_elapsed_def bm_ok_filter)
  have "held_from u p (hold_step x hs)"
  proof (cases x)
    case (Clear_Elapsed now)
    then have "now < u" using Cons.prems(3) by simp
    then show ?thesis using Cons.prems(2) Clear_Elapsed by (auto simp: held_from_def clear_at [OF Cons.prems(1)])
  qed (use Cons.prems(2) extend_keeps rescan_keeps in auto)
  then show ?case using Cons.IH [OF ok] Cons.prems(3) by simp
qed simp

text \<open>What reports that a slot is shut until a time: an event, or a rescan that finds it on disk.\<close>

fun reports :: "hold_op \<Rightarrow> string \<Rightarrow> int \<Rightarrow> bool" where
  "reports (Extend_Hold q w) p u \<longleftrightarrow> q = p \<and> w = u"
| "reports (Clear_Elapsed now) p u \<longleftrightarrow> False"
| "reports (Rescan files slots now) p u \<longleftrightarrow> p \<in> set slots \<and> slot_pct files now p \<le> headroom_stall_pct \<and>
     hr_resets_at (slot_headroom (files p) now) = Some u \<and> now < u"

lemma rescan_slot_reports:
  "reports (Rescan files [s] now) s u \<Longrightarrow> held_from u s (snd (rescan_slot files now s acc))"
  by (auto simp: rescan_slot_holds slot_pct_def held_from_def extend_at split: option.split)

lemma rescan_slot_source:
  "map_of (snd (rescan_slot files now s acc)) p = Some v \<Longrightarrow>
     map_of (snd acc) p = Some v \<or> reports (Rescan files [s] now) p v"
  by (auto simp: rescan_slot_holds slot_pct_def extend_at max_def split: option.splits if_splits)

lemma rescan_reports:
  "reports (Rescan files slots now) p u \<Longrightarrow> held_from u p (snd (fold (rescan_slot files now) slots acc))"
proof (induction slots arbitrary: acc)
  case (Cons s ss)
  show ?case
  proof (cases "s = p")
    case True
    then have "held_from u p (snd (rescan_slot files now s acc))"
      using Cons.prems rescan_slot_reports [of files p now u acc] by simp
    then have "held_from u p (snd (fold (rescan_slot files now) ss (rescan_slot files now s acc)))"
      by (rule fold_rescan) (rule extend_keeps)
    then show ?thesis by simp
  qed (use Cons in auto)
qed simp

lemma rescan_source:
  "map_of (snd (fold (rescan_slot files now) slots acc)) p = Some v \<Longrightarrow>
     map_of (snd acc) p = Some v \<or> reports (Rescan files slots now) p v"
proof (induction slots arbitrary: acc)
  case (Cons s ss)
  have "map_of (snd (fold (rescan_slot files now) ss (rescan_slot files now s acc))) p = Some v"
    using Cons.prems by simp
  from Cons.IH [OF this] show ?case using rescan_slot_source [of files now s acc p v] by auto
qed simp

lemma step_reports: "reports op p u \<Longrightarrow> held_from u p (hold_step op hs)"
proof (cases op)
  case (Rescan files slots now)
  then show "reports op p u \<Longrightarrow> ?thesis" using rescan_reports by (auto simp: rescan_from_disk_def)
qed (auto simp: held_from_def extend_at split: option.split)

lemma step_source:
  "bm_ok hs \<Longrightarrow> map_of (hold_step op hs) p = Some v \<Longrightarrow> map_of hs p = Some v \<or> reports op p v"
proof (cases op)
  case (Rescan files slots now)
  then show "map_of (hold_step op hs) p = Some v \<Longrightarrow> ?thesis"
    using rescan_source [of files now slots "(0, hs)" p v] by (simp add: rescan_from_disk_def)
qed (auto simp: extend_at clear_at max_def split: option.splits if_splits)

lemma step_ok: "bm_ok hs \<Longrightarrow> bm_ok (hold_step op hs)"
  using extend_ok rescan_ok by (cases op) (auto simp: clear_elapsed_def bm_ok_filter)

lemma steps_ok: "bm_ok hs \<Longrightarrow> bm_ok (fold hold_step ops hs)"
  by (induction ops arbitrary: hs) (auto simp: step_ok)

text \<open>A report of a reopening that no later clearing has passed.\<close>

definition standing :: "hold_op list \<Rightarrow> string \<Rightarrow> int \<Rightarrow> bool" where
  "standing ops p u \<longleftrightarrow> (\<exists>before op after. ops = before @ op # after \<and> reports op p u \<and>
     (\<forall>now. Clear_Elapsed now \<in> set after \<longrightarrow> now < u))"

lemma standing_last: "reports op p u \<Longrightarrow> standing (ops @ [op]) p u"
  unfolding standing_def by (intro exI [of _ ops] exI [of _ op] exI [of _ "[]"]) simp

lemma standing_snoc:
  assumes "standing ops p u" "\<And>now. op = Clear_Elapsed now \<Longrightarrow> now < u"
  shows "standing (ops @ [op]) p u"
proof -
  obtain before r after where o: "ops = before @ r # after" "reports r p u"
      "\<forall>now. Clear_Elapsed now \<in> set after \<longrightarrow> now < u"
    using assms(1) unfolding standing_def by blast
  show ?thesis
    unfolding standing_def
    by (intro exI [of _ before] exI [of _ r] exI [of _ "after @ [op]"]) (use o assms(2) in auto)
qed

lemma standing_held: "standing ops p u \<Longrightarrow> held_from u p (fold hold_step ops [])"
proof -
  assume "standing ops p u"
  then obtain before op after where o: "ops = before @ op # after" "reports op p u"
      "\<forall>now. Clear_Elapsed now \<in> set after \<longrightarrow> now < u"
    unfolding standing_def by blast
  have ok: "bm_ok (fold hold_step before [])" by (rule steps_ok) simp
  have "held_from u p (fold hold_step after (hold_step op (fold hold_step before [])))"
    by (rule hold_ops_keep [OF step_ok [OF ok] step_reports [OF o(2)]]) (use o(3) in simp)
  then show ?thesis by (simp only: o(1) fold_append fold_Cons comp_apply)
qed

lemma held_standing: "map_of (fold hold_step ops []) p = Some v \<Longrightarrow> standing ops p v"
proof (induction ops rule: rev_induct)
  case (snoc op ops)
  let ?hs = "fold hold_step ops []"
  have ok: "bm_ok ?hs" by (rule steps_ok) simp
  have after: "map_of (hold_step op ?hs) p = Some v" using snoc.prems by simp
  show ?case
  proof (cases "reports op p v")
    case True
    then show ?thesis by (rule standing_last)
  next
    case False
    then have "map_of ?hs p = Some v" using step_source [OF ok after] by simp
    moreover have "now < v" if "op = Clear_Elapsed now" for now
      using after that by (auto simp: clear_at [OF ok] split: option.splits if_splits)
    ultimately show ?thesis using snoc.IH standing_snoc by blast
  qed
qed simp

text \<open>
  C32. A rate limit holds exactly as long as it must. After any sequence of rate-limit events,
  rescans of the readings on disk and clearings, a slot is held until a time exactly when that time
  is the latest among the reopenings that an event or a reading reported for it and that no later
  clearing has reached. So earlier or shorter boundaries never shorten a hold, a hold nobody
  reported does not exist, and the first clearing at or after the latest report ends it. A member is
  held back exactly when it has slots and each of them is held that way.
\<close>

theorem holds_last:
  "(\<forall>p v. map_of (fold hold_step ops []) p = Some v \<longleftrightarrow>
      standing ops p v \<and> (\<forall>u. standing ops p u \<longrightarrow> u \<le> v)) \<and>
   (\<forall>profiles. member_fully_held profiles (fold hold_step ops []) \<longleftrightarrow>
      profiles \<noteq> [] \<and> (\<forall>p \<in> set profiles. \<exists>u. standing ops p u))"
proof -
  have up: "u \<le> v" if "map_of (fold hold_step ops []) p = Some v" "standing ops p u" for p u v
    using standing_held [OF that(2)] that(1) by (auto simp: held_from_def)
  have "map_of (fold hold_step ops []) p = Some v \<longleftrightarrow> standing ops p v \<and> (\<forall>u. standing ops p u \<longrightarrow> u \<le> v)" for p v
  proof
    assume v: "standing ops p v \<and> (\<forall>u. standing ops p u \<longrightarrow> u \<le> v)"
    then obtain w where w: "map_of (fold hold_step ops []) p = Some w" "v \<le> w"
      using standing_held [of ops p v] by (auto simp: held_from_def)
    then have "w \<le> v" using v held_standing [of ops p w] by simp
    then show "map_of (fold hold_step ops []) p = Some v" using w by simp
  qed (use up held_standing in blast)
  moreover have "is_held p (fold hold_step ops []) \<longleftrightarrow> (\<exists>u. standing ops p u)" for p
    using held_standing [of ops p] standing_held [of ops p]
    by (cases "map_of (fold hold_step ops []) p") (auto simp: is_held_def held_from_def)
  ultimately show ?thesis by (simp add: member_fully_held_def list_all_iff)
qed

theorem holds_last_witness:
  "(\<exists>u. standing [Extend_Hold ''slot1'' 900, Clear_Elapsed 500, Extend_Hold ''slot1'' 700] ''slot1'' u) \<and>
   \<not> (\<exists>u. standing [Extend_Hold ''slot1'' 900, Clear_Elapsed 900] ''slot1'' u)"
proof -
  let ?ops = "[Extend_Hold ''slot1'' 900, Clear_Elapsed 500, Extend_Hold ''slot1'' 700]"
    and ?done = "[Extend_Hold ''slot1'' 900, Clear_Elapsed 900]"
  have "member_fully_held [''slot1''] (fold hold_step ?ops [])"
    "\<not> member_fully_held [''slot1''] (fold hold_step ?done [])"
    by code_simp+
  then show ?thesis
    using spec [OF conjunct2 [OF holds_last [of ?ops]], of "[''slot1'']"]
      spec [OF conjunct2 [OF holds_last [of ?done]], of "[''slot1'']"] by simp
qed

end
