(* ===== verification/Baton.thy ===== *)
theory Baton
  imports Item_Meta Fleet_Admission
begin

text \<open>
  The batons of the fleet: the handoff text a session writes at its boundary, its head, its status
  vocabulary and its classification (\<^verbatim>\<open>crates/softfig-ipc/src/baton.rs\<close>); the seeded batons
  and the reads of the stores (\<^verbatim>\<open>crates/softfig-growlightd/src/baton_store.rs\<close>). A file is
  its text and its modification time; the file system around them is not part of the model.
\<close>

section \<open>Statuses\<close>

definition is_continue_status :: "string \<Rightarrow> bool" where
  "is_continue_status status \<longleftrightarrow> status = ''IN_PROGRESS''"

datatype disposition = Continue | Item_Boundary | Queue_Empty | Rate_Limited | Blocked_On_Human | Stuck string

definition classify_status :: "string option \<Rightarrow> disposition" where
  "classify_status status =
     (let s = (case status of Some x \<Rightarrow> x | None \<Rightarrow> ''UNKNOWN'') in
      if s = ''HALTED_RATE_LIMIT'' then Rate_Limited
      else if s = ''BLOCKED_ON_HUMAN'' then Blocked_On_Human
      else if s = ''QUEUE_EMPTY'' then Queue_Empty
      else if s = ''ITEM_COMPLETE'' \<or> s = ''ITEM_DEFERRED'' then Item_Boundary
      else if is_continue_status s then Continue
      else Stuck s)"

definition status_vocabulary :: "string list" where
  "status_vocabulary =
     [''IN_PROGRESS'', ''ITEM_COMPLETE'', ''ITEM_DEFERRED'', ''QUEUE_EMPTY'', ''HALTED_RATE_LIMIT'',
      ''BLOCKED_ON_HUMAN'', ''STUCK'']"

section \<open>The parser\<close>

record baton_view =
  bv_status :: "string option"
  bv_item :: "string option"
  bv_slice :: "string option"
  bv_iteration :: "nat option"
  bv_next_action :: "string option"

definition empty_view :: baton_view where
  "empty_view = \<lparr>bv_status = None, bv_item = None, bv_slice = None, bv_iteration = None, bv_next_action = None\<rparr>"

definition parse_u64 :: "string \<Rightarrow> nat option" where
  "parse_u64 s =
     (let ds = (case s of (c # cs) \<Rightarrow> (if c = CHR ''+'' then cs else s) | [] \<Rightarrow> s)
      in if ds \<noteq> [] \<and> list_all is_digit ds \<and> digits_val ds < 2 ^ 64
         then Some (digits_val ds) else None)"

definition head_field :: "string \<Rightarrow> baton_view \<Rightarrow> baton_view" where
  "head_field line view =
     (case strip_prefix ''status:'' line of
        Some r \<Rightarrow> (let v = trim r in if v \<noteq> [] then view\<lparr>bv_status := Some v\<rparr> else view)
      | None \<Rightarrow>
     (case strip_prefix ''item:'' line of
        Some r \<Rightarrow> (let v = trim r in if v \<noteq> [] \<and> v \<noteq> ''null'' then view\<lparr>bv_item := Some v\<rparr> else view)
      | None \<Rightarrow>
     (case strip_prefix ''slice:'' line of
        Some r \<Rightarrow> (let v = trim r in if v \<noteq> [] \<and> v \<noteq> ''null'' then view\<lparr>bv_slice := Some v\<rparr> else view)
      | None \<Rightarrow>
     (case strip_prefix ''iteration:'' line of
        Some r \<Rightarrow> view\<lparr>bv_iteration := parse_u64 (trim r)\<rparr>
      | None \<Rightarrow> view))))"

definition fence :: string where "fence = ''---''"

definition head_lines :: "string list \<Rightarrow> string list" where
  "head_lines ls =
     (case ls of [] \<Rightarrow> []
      | l # rest \<Rightarrow> (if trim l = fence then map trim (takeWhile (\<lambda>l. trim l \<noteq> fence) rest) else []))"

definition section_lines :: "string \<Rightarrow> string list \<Rightarrow> string list" where
  "section_lines heading ls =
     (case dropWhile (\<lambda>l. trim l \<noteq> heading) ls of
        [] \<Rightarrow> []
      | _ # rest \<Rightarrow> takeWhile (\<lambda>l. \<not> starts_with ''# '' l) rest)"

definition extract_section :: "string \<Rightarrow> string \<Rightarrow> string option" where
  "extract_section baton heading =
     (let trimmed = trim (join [newline] (section_lines heading (text_lines baton)))
      in if trimmed = [] then None else Some trimmed)"

definition parse_baton :: "string \<Rightarrow> baton_view" where
  "parse_baton baton =
     (fold head_field (head_lines (text_lines baton)) empty_view)
       \<lparr>bv_next_action := extract_section baton ''# NEXT ACTION''\<rparr>"

section \<open>The head check of a handoff\<close>

datatype head_error = No_Head | Missing_Status | Unknown_Status string | Wrong_Status string string | Missing_Item

definition validate_head :: "string \<Rightarrow> string list \<Rightarrow> head_error + baton_view" where
  "validate_head baton expected =
     (let ls = text_lines baton;
          opened = (case ls of l # _ \<Rightarrow> trim l = fence | [] \<Rightarrow> False);
          closed = list_ex (\<lambda>l. trim l = fence) (tl ls) in
      if \<not> opened \<or> \<not> closed then Inl No_Head
      else
        (let view = parse_baton baton in
         case bv_status view of
           None \<Rightarrow> Inl Missing_Status
         | Some status \<Rightarrow>
             (if status \<notin> set status_vocabulary then Inl (Unknown_Status status)
              else if status \<notin> set expected
                then Inl (Wrong_Status status (join [CHR 0x60, CHR '' '', CHR ''o'', CHR ''r'', CHR '' '', CHR 0x60] expected))
              else if bv_item view = None then Inl Missing_Item
              else Inr view)))"

section \<open>Seeds\<close>

definition unlines :: "string list \<Rightarrow> string" where
  "unlines ls = concat (map (\<lambda>l. l @ [newline]) ls)"

definition quoted_code :: "string \<Rightarrow> string" where
  "quoted_code s = [CHR 0x60] @ s @ [CHR 0x60]"

definition long_dash :: string where "long_dash = [CHR 0xE2, CHR 0x80, CHR 0x94]"

definition seed_action :: "string \<Rightarrow> string \<Rightarrow> string \<Rightarrow> string list" where
  "seed_action agent queue part =
     [''You are fleet member '' @ quoted_code agent @ '', assigned backlog item '' @ quoted_code part @
        '' on queue '' @ quoted_code queue @ ''.'',
      ''Read its spec (the item doc under '' @ quoted_code ''growlight/backlog/'' @ '') and the protocol injected'',
      ''above, reseed this baton from that spec (mission + finish criteria + the first'',
      ''slice/step), then execute one coherent chunk of work. Hand off by rewriting your'',
      ''baton at the path in '' @ quoted_code ''baton-path:'' @ '' / the 'YOUR BATON FILE' anchor above (your'',
      ''per-member '' @ quoted_code ''agents/<id>/baton.md'' @ '' '' @ long_dash @ '' NEVER the legacy root '' @
        quoted_code ''baton.md'' @ ''): set'',
      quoted_code ''status:'' @ '' to the right value from the growlight baton vocabulary'',
      ''('' @ join '' / '' status_vocabulary @ '') '' @ long_dash @ '' '' @ quoted_code ''IN_PROGRESS'' @
        '' carries the SAME part forward; at an item boundary'',
      ''('' @ quoted_code ''ITEM_COMPLETE'' @ '' / '' @ quoted_code ''ITEM_DEFERRED'' @ '') run '' @
        quoted_code ''set_item_status'' @ '' then EXIT and the'',
      ''orchestrator claims your next part (a fleet member never self-pulls).'']"

definition seed_head :: "string \<Rightarrow> string \<Rightarrow> string \<Rightarrow> string \<Rightarrow> string \<Rightarrow> string list" where
  "seed_head garden agent queue part baton_path =
     [''loop: '' @ garden, ''mode: fleet'', ''agent: '' @ agent, ''status: IN_PROGRESS'', ''item: '' @ part,
      ''queue: '' @ queue, ''iteration: 0'', ''baton-path: '' @ baton_path]"

definition seed_rest :: "string \<Rightarrow> string \<Rightarrow> string list" where
  "seed_rest agent part =
     [''Drive backlog item '' @ quoted_code part @ '' to completion, handing off via this baton instead of'',
      quoted_code ''/compact'' @ ''.'', [],
      ''# FINISH CRITERIA'', ''(reseed from the item's spec on your first iteration)'', [],
      ''# READ FIRST'', ''- the item doc for '' @ quoted_code part @ '' (its mission + finish criteria)'',
      ''- '' @ quoted_code ''growlight/backlog/CLAUDE.md'' @ '' '' @ long_dash @ '' the queue table (status + order)'',
      ''- '' @ quoted_code ''growlight/protocol.md'' @ '' '' @ long_dash @ '' your operating contract'', [],
      ''# STATE'',
      ''Seeded by growlightd on spawn (fleet member '' @ quoted_code agent @ '', item '' @ quoted_code part @ '').'']"

definition seed_lines :: "string \<Rightarrow> string \<Rightarrow> string \<Rightarrow> string \<Rightarrow> string \<Rightarrow> string list" where
  "seed_lines garden agent queue part baton_path =
     (fence # seed_head garden agent queue part baton_path @ [fence, [],
      ''> YOUR BATON FILE '' @ long_dash @ '' rewrite THIS exact path at every handoff: '' @ baton_path, [],
      ''# NEXT ACTION''] @ seed_action agent queue part @ [[], ''# MISSION'']) @
     seed_rest agent part"

definition seed_baton :: "string \<Rightarrow> string \<Rightarrow> string \<Rightarrow> string \<Rightarrow> string \<Rightarrow> string" where
  "seed_baton garden agent queue part baton_path = unlines (seed_lines garden agent queue part baton_path)"

definition entry_action :: string where
  "entry_action = ''(placeholder '' @ long_dash @ '' reseed this baton from the entry's doc on your first iteration)''"

definition seed_entry_head :: "string \<Rightarrow> string \<Rightarrow> string \<Rightarrow> string list" where
  "seed_entry_head garden entry_id baton_path =
     [''loop: '' @ garden, ''mode: fleet'', ''status: IN_PROGRESS'', ''item: '' @ entry_id, ''iteration: 0'',
      ''baton-path: '' @ baton_path]"

definition entry_notes :: "string \<Rightarrow> string \<Rightarrow> string list" where
  "entry_notes entry_id path =
     [[], ''> ENTRY BATON for '' @ quoted_code entry_id @ '' '' @ long_dash @ '' growlightd's stored copy at '' @
        quoted_code path @ ''. A member'',
      ''> hands off through the roll verb's '' @ quoted_code ''baton'' @ '' field (spec '' @ [CHR 0xC2, CHR 0xA7] @
        ''6.3), which growlightd stores'',
      ''> here; at spawn this file is copied into the member's own '' @ quoted_code ''agents/<id>/baton.md'' @ '', the'',
      ''> file the SessionStart hook reads.'', []]"

definition seed_entry_rest :: "string \<Rightarrow> string option \<Rightarrow> string option \<Rightarrow> string list" where
  "seed_entry_rest entry_id branch base =
     (let branch = (case branch of Some b \<Rightarrow> b | None \<Rightarrow> ''<branch>'');
          base = (case base of Some b \<Rightarrow> b | None \<Rightarrow> ''<base>'') in
        [''create '' @ branch @ '' from '' @ base, [],
         ''# MISSION'',
         ''Drive backlog entry '' @ quoted_code entry_id @ '' to completion, handing off via this baton instead of'',
         quoted_code ''/compact'' @ ''.'', [],
         ''# FINISH CRITERIA'', ''(reseed from the entry's spec on your first iteration)'', [],
         ''# READ FIRST'', ''- the entry doc for '' @ quoted_code entry_id @ '' (its mission + finish criteria)'',
         ''- '' @ quoted_code ''growlight/backlog/CLAUDE.md'' @ '' '' @ long_dash @ '' the queue table (status + order)'',
         ''- '' @ quoted_code ''growlight/protocol-fleet-v2.md'' @ '' '' @ long_dash @ '' your operating contract'', [],
         ''# STATE'', ''Seeded by growlightd (entry '' @ quoted_code entry_id @ '').''])"

definition seed_entry_lines :: "string \<Rightarrow> string \<Rightarrow> string option \<Rightarrow> string option \<Rightarrow> string \<Rightarrow> string list" where
  "seed_entry_lines garden entry_id branch base baton_path =
     (fence # seed_entry_head garden entry_id baton_path @ fence # entry_notes entry_id baton_path @ [
      ''# NEXT ACTION'', entry_action, [], ''# FIRST STEP'']) @
     seed_entry_rest entry_id branch base"

definition seed_entry_baton :: "string \<Rightarrow> string \<Rightarrow> string option \<Rightarrow> string option \<Rightarrow> string \<Rightarrow> string" where
  "seed_entry_baton garden entry_id branch base baton_path =
     unlines (seed_entry_lines garden entry_id branch base baton_path)"

section \<open>The stores\<close>

text \<open>What reading a path yields: its text and its modification time, each when it can be read; an
  absent file yields neither.\<close>

record baton_file =
  bf_text :: "string option"
  bf_mtime :: "int option"

datatype seed_outcome = Kept "int option" | Fresh string

definition member_seed :: "string \<Rightarrow> string \<Rightarrow> string \<Rightarrow> string \<Rightarrow> string \<Rightarrow> baton_file \<Rightarrow> seed_outcome" where
  "member_seed garden agent queue part baton_path existing =
     (case bf_text existing of
        Some t \<Rightarrow> (if bv_item (parse_baton t) = Some part then Kept (bf_mtime existing)
                  else Fresh (seed_baton garden agent queue part baton_path))
      | None \<Rightarrow> Fresh (seed_baton garden agent queue part baton_path))"

text \<open>
  The files of the two stores, by agent and by entry, for paths that can be read and written: the
  seeds, the writes and the copy of an entry's baton to the member that starts on it. A member's
  seed keeps a baton of the same item; a seed of an entry always writes.
\<close>

record baton_stores =
  bs_members :: "string \<rightharpoonup> baton_file"
  bs_entries :: "string \<rightharpoonup> string"

definition member_file :: "baton_stores \<Rightarrow> string \<Rightarrow> baton_file" where
  "member_file st agent =
     (case bs_members st agent of Some f \<Rightarrow> f | None \<Rightarrow> \<lparr>bf_text = None, bf_mtime = None\<rparr>)"

definition member_write :: "string \<Rightarrow> string \<Rightarrow> int \<Rightarrow> baton_stores \<Rightarrow> baton_stores" where
  "member_write agent baton now st =
     st\<lparr>bs_members := (bs_members st)(agent \<mapsto> \<lparr>bf_text = Some baton, bf_mtime = Some now\<rparr>)\<rparr>"

definition store_seed ::
  "string \<Rightarrow> (string \<Rightarrow> string) \<Rightarrow> string \<Rightarrow> string \<Rightarrow> string \<Rightarrow> int \<Rightarrow> baton_stores \<Rightarrow> seed_outcome \<times> baton_stores" where
  "store_seed garden member_path agent queue part now st =
     (case member_seed garden agent queue part (member_path agent) (member_file st agent) of
        Kept handoff \<Rightarrow> (Kept handoff, st)
      | Fresh body \<Rightarrow> (Fresh body, member_write agent body now st))"

definition entry_write :: "string \<Rightarrow> string \<Rightarrow> baton_stores \<Rightarrow> baton_stores" where
  "entry_write entry_id baton st = st\<lparr>bs_entries := (bs_entries st)(entry_id \<mapsto> baton)\<rparr>"

definition entry_seed ::
  "string \<Rightarrow> (string \<Rightarrow> string) \<Rightarrow> string \<Rightarrow> string option \<Rightarrow> string option \<Rightarrow> baton_stores \<Rightarrow> baton_stores" where
  "entry_seed garden entry_path entry_id branch base st =
     entry_write entry_id (seed_entry_baton garden entry_id branch base (entry_path entry_id)) st"

definition copy_entry_baton ::
  "string \<Rightarrow> (string \<Rightarrow> string) \<Rightarrow> string \<Rightarrow> string \<Rightarrow> int \<Rightarrow> baton_stores \<Rightarrow> string + baton_stores" where
  "copy_entry_baton garden entry_path entry_top agent now st =
     (case bs_entries st entry_top of
        Some baton \<Rightarrow> Inr (member_write agent baton now st)
      | None \<Rightarrow>
          (let st1 = entry_seed garden entry_path entry_top None None st in
           case bs_entries st1 entry_top of
             Some baton \<Rightarrow> Inr (member_write agent baton now st1)
           | None \<Rightarrow> Inl (''entry baton for '' @ entry_top @ '' unreadable after seed'')))"

definition frontmatter_agent :: "string \<Rightarrow> string option" where
  "frontmatter_agent baton =
     find_map (\<lambda>line. case strip_prefix ''agent:'' line of
          Some r \<Rightarrow> (let v = trim r in if v \<noteq> [] then Some v else None)
        | None \<Rightarrow> None)
       (head_lines (text_lines baton))"

definition legacy_is_fresher :: "baton_file \<Rightarrow> baton_file \<Rightarrow> bool" where
  "legacy_is_fresher legacy own =
     (case (bf_mtime legacy, bf_mtime own) of
        (Some l, Some pm) \<Rightarrow> pm < l
      | (Some _, None) \<Rightarrow> True
      | _ \<Rightarrow> False)"

record baton_read =
  br_status :: "string option"
  br_next_action :: "string option"
  br_misroute :: bool

definition baton_status :: "string \<Rightarrow> baton_file \<Rightarrow> baton_file \<Rightarrow> baton_read" where
  "baton_status agent own legacy =
     (let view = (case bf_text own of Some t \<Rightarrow> parse_baton t | None \<Rightarrow> empty_view);
          plain = \<lparr>br_status = bv_status view, br_next_action = bv_next_action view, br_misroute = False\<rparr> in
      case bf_text legacy of
        None \<Rightarrow> plain
      | Some t \<Rightarrow>
          (let lv = parse_baton t;
               item_matches = (case (bv_item view, bv_item lv) of (Some a, Some b) \<Rightarrow> a = b | _ \<Rightarrow> True) in
           if frontmatter_agent t = Some agent \<and> bv_status lv \<noteq> None \<and>
              legacy_is_fresher legacy own \<and> item_matches
           then \<lparr>br_status = bv_status lv, br_next_action = bv_next_action lv, br_misroute = True\<rparr>
           else plain))"

end
