(* ===== verification/Supervisor.thy ===== *)
theory Supervisor
  imports Baton Model_Choice
begin

text \<open>
  The fleet supervisor (\<^verbatim>\<open>crates/softfig-growlightd/src/supervisor.rs\<close>): its members with
  their children, the start of a member behind the governor and the claim, the reading of one health
  observation, the spin guard, and the re-rolls of one tick. Times are seconds of the 64-bit clock
  with its saturating arithmetic written out, counters keep their 32 bits. A child is its process
  identifier; what the backend, the claim and the classifiers of the drive loop answer are arguments
  of the operation that asks, and what an operation does to the outside is its list of effects.
\<close>

section \<open>Backoff and health\<close>

definition i64_max :: int where "i64_max = 2 ^ 63 - 1"
definition i64_min :: int where "i64_min = - (2 ^ 63)"

definition sat64 :: "int \<Rightarrow> int" where
  "sat64 x = (if i64_max < x then i64_max else if x < i64_min then i64_min else x)"

record backoff =
  bk_base :: int
  bk_cap :: int

definition backoff_default :: backoff where
  "backoff_default = \<lparr>bk_base = 5, bk_cap = 300\<rparr>"

definition default_hang_secs :: int where "default_hang_secs = 600"

definition delay :: "backoff \<Rightarrow> u32 \<Rightarrow> int" where
  "delay b failures =
     (if failures = 0 then 0
      else
        (let exponent = min (unat (failures - 1)) 62;
             doubled = sat64 (bk_base b * 2 ^ exponent)
         in min doubled (bk_cap b)))"

datatype agent_health = Alive int | Exited int

datatype verdict = Healthy_V | Clean_Exit_V | Crashed_V

definition classify :: "agent_health \<Rightarrow> int \<Rightarrow> int \<Rightarrow> verdict" where
  "classify h hang now =
     (case h of
        Exited code \<Rightarrow> (if code = 0 then Clean_Exit_V else Crashed_V)
      | Alive active \<Rightarrow> (if hang \<le> sat64 (now - active) then Crashed_V else Healthy_V))"

section \<open>State\<close>

type_synonym child = nat
type_synonym progress_key = "string option \<times> 64 word"

record agent_spec =
  sp_agent :: string
  sp_loop_settings :: string
  sp_mcp_config :: string
  sp_model :: "model_choice option"

record supervised =
  su_spec :: agent_spec
  su_child :: "child option"
  su_failures :: u32
  su_not_before :: int
  su_next_action :: "string option"
  su_streak :: u32
  su_seen_repo :: "progress_key list"
  su_excused :: u32
  su_refused_model :: "model_choice option"

record supervisor =
  sv_policy :: policy
  sv_backoff :: backoff
  sv_hang :: int
  sv_agents :: "(string \<times> supervised) list"

definition supervisor_new :: "policy \<Rightarrow> supervisor" where
  "supervisor_new p = \<lparr>sv_policy = p, sv_backoff = backoff_default, sv_hang = default_hang_secs, sv_agents = []\<rparr>"

definition agent_of :: "supervisor \<Rightarrow> string \<Rightarrow> supervised option" where
  "agent_of s a = map_of (sv_agents s) a"

definition put_agent :: "string \<Rightarrow> supervised \<Rightarrow> supervisor \<Rightarrow> supervisor" where
  "put_agent a m s = s\<lparr>sv_agents := bm_insert a m (sv_agents s)\<rparr>"

definition drop_agent :: "string \<Rightarrow> supervisor \<Rightarrow> supervisor" where
  "drop_agent a s = s\<lparr>sv_agents := bm_remove a (sv_agents s)\<rparr>"

definition live_count :: "supervisor \<Rightarrow> u32" where
  "live_count s = of_nat (length (filter (\<lambda>(_, m). su_child m \<noteq> None) (sv_agents s)))"

definition committed_count :: "supervisor \<Rightarrow> u32" where
  "committed_count s = of_nat (length (sv_agents s))"

definition is_running :: "supervisor \<Rightarrow> string \<Rightarrow> bool" where
  "is_running s a \<longleftrightarrow> (case agent_of s a of Some m \<Rightarrow> su_child m \<noteq> None | None \<Rightarrow> False)"

definition is_registered :: "supervisor \<Rightarrow> string \<Rightarrow> bool" where
  "is_registered s a \<longleftrightarrow> agent_of s a \<noteq> None"

definition failures_of :: "supervisor \<Rightarrow> string \<Rightarrow> u32" where
  "failures_of s a = (case agent_of s a of Some m \<Rightarrow> su_failures m | None \<Rightarrow> 0)"

definition set_policy :: "policy \<Rightarrow> supervisor \<Rightarrow> supervisor" where
  "set_policy p s = s\<lparr>sv_policy := p\<rparr>"

definition retire :: "string \<Rightarrow> supervisor \<Rightarrow> child option \<times> supervisor" where
  "retire a s = (Option.bind (agent_of s a) su_child, drop_agent a s)"

definition agents_in_model_refused_park :: "supervisor \<Rightarrow> string list" where
  "agents_in_model_refused_park s = map fst (filter (\<lambda>(_, m). su_refused_model m \<noteq> None) (sv_agents s))"

definition refused_model :: "supervisor \<Rightarrow> string \<Rightarrow> model_choice option" where
  "refused_model s a = Option.bind (agent_of s a) su_refused_model"

definition clear_model_refused_park :: "string \<Rightarrow> int \<Rightarrow> supervisor \<Rightarrow> supervisor" where
  "clear_model_refused_park a now s =
     (case agent_of s a of
        Some m \<Rightarrow>
          (if su_refused_model m \<noteq> None
           then put_agent a (m\<lparr>su_not_before := now, su_refused_model := None\<rparr>) s
           else s)
      | None \<Rightarrow> s)"

section \<open>Starts\<close>

datatype effect = Claim_Made string | Spawned string child | Killed string child | Pre_Spawn string

datatype spawn_kind = Spawn_Failed string | Spawn_Hold "string list" "int option"

datatype start_outcome =
    Started
  | Queued_Start u32 u32
  | Refused_Start refuse_reason
  | Claim_Failed string
  | Start_Spawn_Failed string
  | Start_Hold "string list" "int option"

definition new_member :: "agent_spec \<Rightarrow> child \<Rightarrow> int \<Rightarrow> supervised" where
  "new_member spec c now =
     \<lparr>su_spec = spec, su_child = Some c, su_failures = 0, su_not_before = now, su_next_action = None,
      su_streak = 0, su_seen_repo = [], su_excused = 0, su_refused_model = None\<rparr>"

definition start_claiming ::
  "agent_spec \<Rightarrow> budget_usage \<Rightarrow> rate_state \<Rightarrow> int \<Rightarrow> (string + unit) \<Rightarrow> (agent_spec \<Rightarrow> spawn_kind + child) \<Rightarrow>
     supervisor \<Rightarrow> start_outcome \<times> effect list \<times> supervisor" where
  "start_claiming spec budget rate now claim spawn s =
     (case decide (sv_policy s) Start (committed_count s) budget rate of
        Admit \<Rightarrow>
          (case claim of
             Inr _ \<Rightarrow>
               (case spawn spec of
                  Inr c \<Rightarrow> (Started, [Claim_Made (sp_agent spec), Spawned (sp_agent spec) c],
                            put_agent (sp_agent spec) (new_member spec c now) s)
                | Inl (Spawn_Hold slots until) \<Rightarrow> (Start_Hold slots until, [Claim_Made (sp_agent spec)], s)
                | Inl (Spawn_Failed e) \<Rightarrow>
                    (Start_Spawn_Failed (''agent spawn failed: '' @ e), [Claim_Made (sp_agent spec)], s))
           | Inl reason \<Rightarrow> (Claim_Failed reason, [], s))
      | Wait_Slot active cap \<Rightarrow> (Queued_Start active cap, [], s)
      | Refuse reason \<Rightarrow> (Refused_Start reason, [], s))"

definition start_agent ::
  "agent_spec \<Rightarrow> budget_usage \<Rightarrow> rate_state \<Rightarrow> int \<Rightarrow> (agent_spec \<Rightarrow> spawn_kind + child) \<Rightarrow>
     supervisor \<Rightarrow> start_outcome \<times> effect list \<times> supervisor" where
  "start_agent spec budget rate now spawn s = start_claiming spec budget rate now (Inr ()) spawn s"

section \<open>Observations\<close>

text \<open>
  What the drive loop brings to one observation: the health, the status and next action of the
  baton, the time, and the answers of its classifiers.
\<close>

record observation =
  ob_health :: agent_health
  ob_status :: "string option"
  ob_next_action :: "string option"
  ob_now :: int
  ob_network :: bool
  ob_rate_limit :: bool
  ob_model_refused :: "string option"
  ob_repo :: "progress_key option"

datatype poll_outcome =
    Healthy
  | Rolling
  | Retired
  | Completed
  | Parked_Rate_Limited
  | Rate_Limit_Death
  | Blocked string bool
  | Crashed string u32 int
  | Model_Refused string string
  | Reconnecting
  | Down
  | Unknown

definition kill_hung :: "string \<Rightarrow> agent_health \<Rightarrow> supervised \<Rightarrow> effect list" where
  "kill_hung a h m =
     (case su_child m of
        Some c \<Rightarrow> (case h of Alive _ \<Rightarrow> [Killed a c] | Exited _ \<Rightarrow> [])
      | None \<Rightarrow> [])"

definition reset_spin :: "supervised \<Rightarrow> supervised" where
  "reset_spin m = m\<lparr>su_next_action := None, su_streak := 0, su_seen_repo := [], su_excused := 0\<rparr>"

type_synonym polled = "poll_outcome \<times> effect list \<times> supervisor"

definition back_off :: "backoff \<Rightarrow> int \<Rightarrow> supervised \<Rightarrow> supervised" where
  "back_off b now m =
     (let f = saturating_add (su_failures m) 1
      in m\<lparr>su_failures := f, su_not_before := sat64 (now + delay b f)\<rparr>)"

definition on_crash :: "string \<Rightarrow> supervised \<Rightarrow> agent_health \<Rightarrow> int \<Rightarrow> supervisor \<Rightarrow> polled" where
  "on_crash a m h now s =
     (let m' = back_off (sv_backoff s) now (m\<lparr>su_child := None\<rparr>)
      in (Crashed a (su_failures m') (su_not_before m'), kill_hung a h m, put_agent a m' s))"

definition on_network_exit :: "string \<Rightarrow> supervised \<Rightarrow> agent_health \<Rightarrow> int \<Rightarrow> supervisor \<Rightarrow> polled" where
  "on_network_exit a m h now s =
     (Reconnecting, kill_hung a h m, put_agent a (m\<lparr>su_child := None, su_not_before := now\<rparr>) s)"

definition on_rate_limit_exit :: "string \<Rightarrow> supervised \<Rightarrow> int \<Rightarrow> supervisor \<Rightarrow> polled" where
  "on_rate_limit_exit a m now s =
     (Rate_Limit_Death, [], put_agent a (reset_spin (m\<lparr>su_child := None, su_not_before := now\<rparr>)) s)"

definition on_model_refused_exit :: "string \<Rightarrow> supervised \<Rightarrow> string \<Rightarrow> supervisor \<Rightarrow> polled" where
  "on_model_refused_exit a m reason s =
     (let latch = (case sp_model (su_spec m) of Some c \<Rightarrow> c | None \<Rightarrow> claude_default);
          m' = (reset_spin (m\<lparr>su_child := None, su_not_before := i64_max\<rparr>))\<lparr>su_refused_model := Some latch\<rparr>
      in (Model_Refused a reason, [], put_agent a m' s))"

definition roll :: "string \<Rightarrow> supervised \<Rightarrow> int \<Rightarrow> supervisor \<Rightarrow> polled" where
  "roll a m now s = (Rolling, [], put_agent a (m\<lparr>su_child := None, su_failures := 0, su_not_before := now\<rparr>) s)"

definition stall_limit :: u32 where "stall_limit = 2"
definition repo_excuse_limit :: u32 where "repo_excuse_limit = 3"

definition spin_streak :: "string option \<Rightarrow> progress_key option \<Rightarrow> supervised \<Rightarrow> supervised" where
  "spin_streak action repo m =
     (let key = (case action of Some _ \<Rightarrow> repo | None \<Rightarrow> None);
          same = (action \<noteq> None \<and> su_next_action m = action);
          m' = (if \<not> same
                then m\<lparr>su_streak := 1, su_seen_repo := (case key of Some k \<Rightarrow> [k] | None \<Rightarrow> []), su_excused := 0\<rparr>
                else
                  (case key of
                     Some k \<Rightarrow>
                       (if k \<notin> set (su_seen_repo m) \<and> su_excused m < repo_excuse_limit
                        then m\<lparr>su_streak := 1, su_seen_repo := su_seen_repo m @ [k], su_excused := su_excused m + 1\<rparr>
                        else m\<lparr>su_streak := saturating_add (su_streak m) 1\<rparr>)
                   | None \<Rightarrow> m\<lparr>su_streak := saturating_add (su_streak m) 1\<rparr>))
      in m'\<lparr>su_next_action := action\<rparr>)"

definition spin_reason :: "u32 \<Rightarrow> string" where
  "spin_reason streak =
     ''STUCK (spin guard): NEXT ACTION unchanged across '' @ show_nat (unat streak) @ '' consecutive re-rolls''"

definition roll_or_spin ::
  "string \<Rightarrow> supervised \<Rightarrow> string option \<Rightarrow> progress_key option \<Rightarrow> int \<Rightarrow> supervisor \<Rightarrow> polled" where
  "roll_or_spin a m action repo now s =
     (let m' = spin_streak action repo m in
      if stall_limit \<le> su_streak m' then (Blocked (spin_reason (su_streak m')) True, [], drop_agent a s)
      else roll a m' now s)"

definition on_clean_exit :: "string \<Rightarrow> supervised \<Rightarrow> observation \<Rightarrow> supervisor \<Rightarrow> polled" where
  "on_clean_exit a m ob s =
     (case ob_status ob of
        None \<Rightarrow> roll_or_spin a m (ob_next_action ob) (ob_repo ob) (ob_now ob) s
      | Some status \<Rightarrow>
          (case classify_status (Some status) of
             Continue \<Rightarrow> roll_or_spin a m (ob_next_action ob) (ob_repo ob) (ob_now ob) s
           | Item_Boundary \<Rightarrow> (Completed, [], drop_agent a s)
           | Queue_Empty \<Rightarrow> (Retired, [], drop_agent a s)
           | Rate_Limited \<Rightarrow> (Parked_Rate_Limited, [], put_agent a (reset_spin (m\<lparr>su_child := None\<rparr>)) s)
           | Blocked_On_Human \<Rightarrow> (Blocked status False, [], drop_agent a s)
           | Stuck _ \<Rightarrow> (Blocked status False, [], drop_agent a s)))"

definition poll_with_progress :: "string \<Rightarrow> observation \<Rightarrow> supervisor \<Rightarrow> polled" where
  "poll_with_progress a ob s =
     (case agent_of s a of
        None \<Rightarrow> (Unknown, [], s)
      | Some m \<Rightarrow>
          (case classify (ob_health ob) (sv_hang s) (ob_now ob) of
             Healthy_V \<Rightarrow> (Healthy, [], s)
           | Clean_Exit_V \<Rightarrow> (if su_child m = None then (Down, [], s) else on_clean_exit a m ob s)
           | Crashed_V \<Rightarrow>
               (if ob_network ob then on_network_exit a m (ob_health ob) (ob_now ob) s
                else if su_child m = None then (Down, [], s)
                else if ob_rate_limit ob then on_rate_limit_exit a m (ob_now ob) s
                else
                  (case ob_model_refused ob of
                     Some reason \<Rightarrow> on_model_refused_exit a m reason s
                   | None \<Rightarrow> on_crash a m (ob_health ob) (ob_now ob) s))))"

section \<open>The lifecycle a member is shown with\<close>

datatype member_lifecycle =
    Running | Exited_Clean | Down_Between | Crashed_L | Reconnecting_L | Rate_Limited_Held | Parked_Model_Refused

definition int_show :: "int \<Rightarrow> string" where
  "int_show i = (if i < 0 then ''-'' @ show_nat (nat (- i)) else show_nat (nat i))"

fun status_label :: "member_lifecycle \<Rightarrow> agent_health option \<Rightarrow> string option" where
  "status_label Rate_Limited_Held _ = Some ''held (rate-limited)''"
| "status_label Reconnecting_L _ = Some ''reconnecting (transient network)''"
| "status_label Parked_Model_Refused _ = Some ''parked (model refused)''"
| "status_label Crashed_L h =
     Some (case h of Some (Exited code) \<Rightarrow> ''crashed ('' @ int_show code @ '')'' | _ \<Rightarrow> ''crashed'')"
| "status_label Running _ = None"
| "status_label Exited_Clean _ = None"
| "status_label Down_Between _ = None"

fun poll_outcome_lifecycle :: "poll_outcome \<Rightarrow> member_lifecycle option" where
  "poll_outcome_lifecycle Healthy = Some Running"
| "poll_outcome_lifecycle Rolling = Some Exited_Clean"
| "poll_outcome_lifecycle Retired = Some Exited_Clean"
| "poll_outcome_lifecycle Completed = Some Exited_Clean"
| "poll_outcome_lifecycle (Blocked _ _) = Some Exited_Clean"
| "poll_outcome_lifecycle Parked_Rate_Limited = Some Rate_Limited_Held"
| "poll_outcome_lifecycle Rate_Limit_Death = Some Rate_Limited_Held"
| "poll_outcome_lifecycle (Model_Refused _ _) = Some Parked_Model_Refused"
| "poll_outcome_lifecycle (Crashed _ _ _) = Some Crashed_L"
| "poll_outcome_lifecycle Reconnecting = Some Reconnecting_L"
| "poll_outcome_lifecycle Down = None"
| "poll_outcome_lifecycle Unknown = None"

section \<open>The re-rolls of a tick\<close>

datatype reroll_outcome =
    Rerolled string
  | Held_For_Backoff string int
  | Held_No_Work string
  | Held_For_Admission string admission
  | Reroll_Failed string string
  | Held_For_Slot string "string list" "int option"

record tick_env =
  te_budget :: "string \<Rightarrow> budget_usage"
  te_rate :: rate_state
  te_now :: int
  te_workable :: "string \<Rightarrow> bool"
  te_spawn :: "agent_spec \<Rightarrow> spawn_kind + child"

definition reroll_one :: "tick_env \<Rightarrow> string \<Rightarrow> supervised \<Rightarrow> supervisor \<Rightarrow> reroll_outcome \<times> effect list \<times> supervisor" where
  "reroll_one env a m s =
     (if te_now env < su_not_before m then (Held_For_Backoff a (su_not_before m), [], s)
      else if \<not> te_workable env a then (Held_No_Work a, [], s)
      else
        (let decision = decide (sv_policy s) Roll (live_count s) (te_budget env a) (te_rate env) in
         if decision \<noteq> Admit then (Held_For_Admission a decision, [], s)
         else
           (case te_spawn env (su_spec m) of
              Inr c \<Rightarrow> (Rerolled a, [Pre_Spawn a, Spawned a c], put_agent a (m\<lparr>su_child := Some c\<rparr>) s)
            | Inl (Spawn_Hold slots until) \<Rightarrow> (Held_For_Slot a slots until, [Pre_Spawn a], s)
            | Inl (Spawn_Failed e) \<Rightarrow>
                (Reroll_Failed a (''agent spawn failed: '' @ e), [Pre_Spawn a],
                 put_agent a (back_off (sv_backoff s) (te_now env) m) s))))"

fun reroll_all ::
  "tick_env \<Rightarrow> string list \<Rightarrow> supervisor \<Rightarrow> reroll_outcome list \<times> effect list \<times> supervisor" where
  "reroll_all env [] s = ([], [], s)"
| "reroll_all env (a # as) s =
     (case agent_of s a of
        None \<Rightarrow> reroll_all env as s
      | Some m \<Rightarrow>
          (case reroll_one env a m s of (out, fx, s1) \<Rightarrow>
             (case reroll_all env as s1 of (outs, fxs, s2) \<Rightarrow> (out # outs, fx @ fxs, s2))))"

definition down_members :: "supervisor \<Rightarrow> string list" where
  "down_members s = map fst (filter (\<lambda>(_, m). su_child m = None) (sv_agents s))"

definition tick_with :: "tick_env \<Rightarrow> supervisor \<Rightarrow> reroll_outcome list \<times> effect list \<times> supervisor" where
  "tick_with env s = reroll_all env (down_members s) s"

end
