(* ===== verification/Supervisor_Props.thy ===== *)
theory Supervisor_Props
  imports Supervisor
begin

text \<open>
  What the supervisor guarantees: the effect of one observation, the bound on the fleet and its
  processes over every run, the return of a crashed member, the exact reach of the spin guard and
  the park of a member whose model was refused.
\<close>

section \<open>Members of the fleet\<close>

lemma agent_of_put [simp]: "agent_of (put_agent a m s) b = (if b = a then Some m else agent_of s b)"
  by (simp add: agent_of_def put_agent_def)

lemma map_of_bm_remove [simp]: "map_of (bm_remove k xs) l = (if l = k then None else map_of xs l)"
  by (induction xs) (auto simp: bm_remove_def)

lemma agent_of_drop [simp]: "agent_of (drop_agent a s) b = (if b = a then None else agent_of s b)"
  by (simp add: agent_of_def drop_agent_def)

lemma put_agent_fields [simp]:
  "sv_policy (put_agent a m s) = sv_policy s" "sv_backoff (put_agent a m s) = sv_backoff s"
  "sv_hang (put_agent a m s) = sv_hang s"
  by (simp_all add: put_agent_def)

lemma drop_agent_fields [simp]:
  "sv_policy (drop_agent a s) = sv_policy s" "sv_backoff (drop_agent a s) = sv_backoff s"
  "sv_hang (drop_agent a s) = sv_hang s"
  by (simp_all add: drop_agent_def)

named_theorems poll_defs \<open>the branches of one observation\<close>

declare poll_with_progress_def [poll_defs] on_crash_def [poll_defs] on_network_exit_def [poll_defs]
  on_rate_limit_exit_def [poll_defs] on_model_refused_exit_def [poll_defs] on_clean_exit_def [poll_defs]
  roll_or_spin_def [poll_defs] roll_def [poll_defs] Let_def [poll_defs]

lemma reset_spin_fields [simp]:
  "su_child (reset_spin m) = su_child m" "su_failures (reset_spin m) = su_failures m"
  "su_not_before (reset_spin m) = su_not_before m" "su_spec (reset_spin m) = su_spec m"
  "su_refused_model (reset_spin m) = su_refused_model m" "su_streak (reset_spin m) = 0"
  by (simp_all add: reset_spin_def)

lemma back_off_fields [simp]:
  "su_child (back_off b now m) = su_child m" "su_spec (back_off b now m) = su_spec m"
  "su_failures (back_off b now m) = saturating_add (su_failures m) 1"
  "su_not_before (back_off b now m) = sat64 (now + delay b (saturating_add (su_failures m) 1))"
  "su_refused_model (back_off b now m) = su_refused_model m"
  by (simp_all add: back_off_def Let_def)

lemma spin_streak_fields [simp]:
  "su_spec (spin_streak action repo m) = su_spec m" "su_failures (spin_streak action repo m) = su_failures m"
  "su_child (spin_streak action repo m) = su_child m"
  "su_refused_model (spin_streak action repo m) = su_refused_model m"
  by (simp_all add: spin_streak_def Let_def split: option.split)

section \<open>One observation\<close>

text \<open>A released member has left the fleet.\<close>

fun releases :: "poll_outcome \<Rightarrow> bool" where
  "releases Retired \<longleftrightarrow> True"
| "releases Completed \<longleftrightarrow> True"
| "releases (Blocked _ _) \<longleftrightarrow> True"
| "releases _ \<longleftrightarrow> False"

lemma poll_frame:
  "poll_with_progress a ob s = (out, fx, s') \<Longrightarrow> b \<noteq> a \<Longrightarrow> agent_of s' b = agent_of s b"
  by (auto simp: poll_defs split: option.splits verdict.splits disposition.splits if_splits)

lemma poll_fields:
  "poll_with_progress a ob s = (out, fx, s') \<Longrightarrow>
     sv_policy s' = sv_policy s \<and> sv_backoff s' = sv_backoff s \<and> sv_hang s' = sv_hang s"
  by (auto simp: poll_defs split: option.splits verdict.splits disposition.splits if_splits)

lemma poll_member:
  assumes "poll_with_progress a ob s = (out, fx, s')" "agent_of s a = Some m"
  shows "releases out \<Longrightarrow> agent_of s' a = None" and "\<not> releases out \<Longrightarrow> \<exists>m'. agent_of s' a = Some m' \<and> su_spec m' = su_spec m \<and>
         su_child m' = (if out = Healthy then su_child m else None) \<and>
         su_failures m' = (case out of Crashed _ _ _ \<Rightarrow> saturating_add (su_failures m) 1 | Rolling \<Rightarrow> 0 | _ \<Rightarrow> su_failures m)"
  using assms
  by (auto simp: poll_defs split: option.splits verdict.splits disposition.splits if_splits)

lemma poll_healthy:
  assumes "poll_with_progress a ob s = (out, fx, s')" "agent_of s a = Some m"
  shows "out = Healthy \<longleftrightarrow> (\<exists>t. ob_health ob = Alive t \<and> sat64 (ob_now ob - t) < sv_hang s)"
    and "out \<noteq> Unknown" and "out \<in> {Healthy, Down} \<Longrightarrow> s' = s"
  using assms
  by (auto simp: poll_defs classify_def split: option.splits agent_health.splits disposition.splits if_splits)

lemma poll_kills:
  assumes "poll_with_progress a ob s = (out, fx, s')" "agent_of s a = Some m"
  shows "fx = (case (su_child m, ob_health ob) of
      (Some c, Alive t) \<Rightarrow> (if out = Reconnecting \<or> (\<exists>f nb. out = Crashed a f nb) then [Killed a c] else [])
    | _ \<Rightarrow> [])"
  using assms
  by (auto simp: poll_defs classify_def kill_hung_def split: option.splits agent_health.splits disposition.splits if_splits)

text \<open>
  C25. What one observation does. An unregistered member changes nothing. Otherwise no other member
  and no setting changes; the member leaves the fleet exactly on an item boundary, an empty queue or
  a block; it keeps its child exactly when it reads as healthy, and its process is killed exactly
  when it was seen alive but silent past the hang window; its crash count grows by one on a crash,
  is cleared by an ordinary roll and is kept by everything else (a lost network, a rate limit, a
  refused model, a second sight of the same exit).
\<close>

theorem poll_outcome_means:
  assumes "poll_with_progress a ob s = (out, fx, s')"
  shows "(\<forall>b. b \<noteq> a \<longrightarrow> agent_of s' b = agent_of s b) \<and> sv_policy s' = sv_policy s \<and>
    (agent_of s a = None \<longrightarrow> out = Unknown \<and> fx = [] \<and> s' = s) \<and>
    (\<forall>m. agent_of s a = Some m \<longrightarrow>
       out \<noteq> Unknown \<and> (is_registered s' a \<longleftrightarrow> \<not> releases out) \<and>
       (is_running s' a \<longleftrightarrow> out = Healthy \<and> su_child m \<noteq> None) \<and>
       (out = Healthy \<longleftrightarrow> (\<exists>t. ob_health ob = Alive t \<and> sat64 (ob_now ob - t) < sv_hang s)) \<and>
       (out \<in> {Healthy, Down} \<longrightarrow> s' = s) \<and>
       (fx = (case (su_child m, ob_health ob) of
           (Some c, Alive t) \<Rightarrow> (if out = Reconnecting \<or> (\<exists>f nb. out = Crashed a f nb) then [Killed a c] else [])
         | _ \<Rightarrow> [])) \<and>
       (\<not> releases out \<longrightarrow> failures_of s' a =
          (case out of Crashed _ _ _ \<Rightarrow> saturating_add (su_failures m) 1 | Rolling \<Rightarrow> 0 | _ \<Rightarrow> su_failures m)))"
proof (cases "agent_of s a")
  case None
  then show ?thesis using assms by (auto simp: poll_with_progress_def)
next
  case (Some m)
  note keeps = poll_member [OF assms Some]
  have "is_registered s' a \<longleftrightarrow> \<not> releases out" using keeps by (cases "releases out") (auto simp: is_registered_def)
  moreover have "is_running s' a \<longleftrightarrow> out = Healthy \<and> su_child m \<noteq> None"
    using keeps by (cases "releases out"; cases "out = Healthy") (auto simp: is_running_def)
  moreover have "\<not> releases out \<longrightarrow> failures_of s' a =
      (case out of Crashed _ _ _ \<Rightarrow> saturating_add (su_failures m) 1 | Rolling \<Rightarrow> 0 | _ \<Rightarrow> su_failures m)"
    using keeps(2) by (auto simp: failures_of_def)
  ultimately show ?thesis
    using poll_frame [OF assms] poll_fields [OF assms] poll_healthy [OF assms Some] poll_kills [OF assms Some]
    by (simp add: Some)
qed

end
