(* ===== verification/Fleet_Runs.thy ===== *)
theory Fleet_Runs
  imports Supervisor_Props
begin

text \<open>
  Runs of the fleet: the operations the drive loop performs on the supervisor, the processes they
  start and end, and the bound both keep over every run.
\<close>

section \<open>Operations and processes\<close>

datatype fleet_op =
    Do_Start agent_spec budget_usage rate_state int "string + unit" "spawn_kind + child"
  | Do_Poll string observation
  | Do_Tick tick_env
  | Do_Retire string
  | Do_Policy policy
  | Do_Clear string int
  | Process_Exit child

text \<open>The supervisor with the processes that run.\<close>

type_synonym fleet = "supervisor \<times> child list"

fun on_processes :: "effect \<Rightarrow> child list \<Rightarrow> child list" where
  "on_processes (Spawned a c) ps = c # ps"
| "on_processes (Killed a c) ps = removeAll c ps"
| "on_processes (Claim_Made a) ps = ps"
| "on_processes (Pre_Spawn a) ps = ps"

text \<open>A retired member's child is handed back and killed by the drive loop.\<close>

fun fleet_do :: "fleet_op \<Rightarrow> fleet \<Rightarrow> fleet" where
  "fleet_do (Do_Start spec budget rate now claim answer) (s, ps) =
     (case start_claiming spec budget rate now claim (\<lambda>_. answer) s of (out, fx, s') \<Rightarrow> (s', fold on_processes fx ps))"
| "fleet_do (Do_Poll a ob) (s, ps) =
     (case poll_with_progress a ob s of (out, fx, s') \<Rightarrow> (s', fold on_processes fx ps))"
| "fleet_do (Do_Tick env) (s, ps) =
     (case tick_with env s of (outs, fx, s') \<Rightarrow> (s', fold on_processes fx ps))"
| "fleet_do (Do_Retire a) (s, ps) =
     (case retire a s of (c, s') \<Rightarrow> (s', case c of Some x \<Rightarrow> removeAll x ps | None \<Rightarrow> ps))"
| "fleet_do (Do_Policy p) (s, ps) = (set_policy p s, ps)"
| "fleet_do (Do_Clear a now) (s, ps) = (clear_model_refused_park a now s, ps)"
| "fleet_do (Process_Exit c) (s, ps) = (s, removeAll c ps)"

definition child_of :: "supervisor \<Rightarrow> string \<Rightarrow> child option" where
  "child_of s a = Option.bind (agent_of s a) su_child"

definition held_children :: "supervisor \<Rightarrow> child list" where
  "held_children s = concat (map (\<lambda>(_, m). case su_child m of Some c \<Rightarrow> [c] | None \<Rightarrow> []) (sv_agents s))"

definition spawn_pids :: "tick_env \<Rightarrow> string list \<Rightarrow> supervisor \<Rightarrow> child list" where
  "spawn_pids env as s =
     concat (map (\<lambda>a. case agent_of s a of
          Some m \<Rightarrow> (case te_spawn env (su_spec m) of Inr c \<Rightarrow> [c] | Inl _ \<Rightarrow> [])
        | None \<Rightarrow> []) as)"

text \<open>
  When the drive loop performs an operation: a start only of a member that is not registered, a
  spawn yields a handle no one holds, an exit is observed only of a process that has exited, the
  classifiers of an exit answer only about an exit, and the caps stay below the bound.
\<close>

fun op_ok :: "u32 \<Rightarrow> fleet_op \<Rightarrow> fleet \<Rightarrow> bool" where
  "op_ok lim (Do_Start spec budget rate now claim answer) (s, ps) \<longleftrightarrow>
     \<not> is_registered s (sp_agent spec) \<and>
     (case answer of Inr c \<Rightarrow> c \<notin> set ps \<and> c \<notin> set (held_children s) | Inl _ \<Rightarrow> True)"
| "op_ok lim (Do_Poll a ob) (s, ps) \<longleftrightarrow>
     (case ob_health ob of
        Exited _ \<Rightarrow> (case child_of s a of Some c \<Rightarrow> c \<notin> set ps | None \<Rightarrow> True)
      | Alive _ \<Rightarrow> \<not> ob_network ob \<and> \<not> ob_rate_limit ob \<and> ob_model_refused ob = None)"
| "op_ok lim (Do_Tick env) (s, ps) \<longleftrightarrow>
     distinct (spawn_pids env (down_members s) s @ ps) \<and>
     set (spawn_pids env (down_members s) s) \<inter> set (held_children s) = {}"
| "op_ok lim (Do_Retire a) (s, ps) \<longleftrightarrow> True"
| "op_ok lim (Do_Policy p) (s, ps) \<longleftrightarrow> po_max_agents p \<le> lim"
| "op_ok lim (Do_Clear a now) (s, ps) \<longleftrightarrow> True"
| "op_ok lim (Process_Exit c) (s, ps) \<longleftrightarrow> True"

inductive fleet_reach :: "u32 \<Rightarrow> fleet \<Rightarrow> bool" for lim where
  boot: "po_max_agents p \<le> lim \<Longrightarrow> fleet_reach lim (supervisor_new p, [])"
| step: "fleet_reach lim st \<Longrightarrow> op_ok lim op st \<Longrightarrow> fleet_reach lim (fleet_do op st)"

section \<open>The invariant\<close>

definition fleet_wf :: "u32 \<Rightarrow> fleet \<Rightarrow> bool" where
  "fleet_wf lim st \<longleftrightarrow> (case st of (s, ps) \<Rightarrow>
     bm_ok (sv_agents s) \<and> (\<forall>a m. agent_of s a = Some m \<longrightarrow> sp_agent (su_spec m) = a) \<and> distinct ps \<and>
     (\<forall>c \<in> set ps. \<exists>a m. agent_of s a = Some m \<and> su_child m = Some c) \<and>
     length (sv_agents s) \<le> unat lim \<and> po_max_agents (sv_policy s) \<le> lim)"

lemma fleet_wfI:
  "bm_ok (sv_agents s) \<Longrightarrow> (\<And>a m. agent_of s a = Some m \<Longrightarrow> sp_agent (su_spec m) = a) \<Longrightarrow> distinct ps \<Longrightarrow>
     (\<And>c. c \<in> set ps \<Longrightarrow> \<exists>a m. agent_of s a = Some m \<and> su_child m = Some c) \<Longrightarrow>
     length (sv_agents s) \<le> unat lim \<Longrightarrow> po_max_agents (sv_policy s) \<le> lim \<Longrightarrow> fleet_wf lim (s, ps)"
  by (auto simp: fleet_wf_def)

lemma fleet_wfD:
  assumes "fleet_wf lim (s, ps)"
  shows "bm_ok (sv_agents s)" "agent_of s a = Some m \<Longrightarrow> sp_agent (su_spec m) = a" "distinct ps"
    "c \<in> set ps \<Longrightarrow> \<exists>a m. agent_of s a = Some m \<and> su_child m = Some c"
    "length (sv_agents s) \<le> unat lim" "po_max_agents (sv_policy s) \<le> lim"
  using assms by (auto simp: fleet_wf_def)

lemma length_bm_insert:
  "bm_ok xs \<Longrightarrow> length (bm_insert k v xs) = (if map_of xs k = None then Suc (length xs) else length xs)"
proof (induction xs)
  case (Cons x xs)
  obtain l w where x: "x = (l, w)" by fastforce
  have "map_of xs k = None" if "k < l"
    using Cons.prems that by (force simp: x bm_ok_Cons map_of_eq_None_iff)
  then show ?case using Cons by (auto simp: x bm_ok_Cons)
qed simp

lemma bm_ok_put: "bm_ok (sv_agents s) \<Longrightarrow> bm_ok (sv_agents (put_agent a m s))"
  by (simp add: put_agent_def)

lemma bm_ok_drop: "bm_ok (sv_agents s) \<Longrightarrow> bm_ok (sv_agents (drop_agent a s))"
  by (simp add: drop_agent_def bm_remove_def bm_ok_filter)

lemma wf_put:
  assumes wf: "fleet_wf lim (s, ps)" and a: "agent_of s a = Some m" "su_spec m' = su_spec m"
    and ps: "distinct qs" "\<And>c. c \<in> set qs \<Longrightarrow> c \<in> set ps \<and> su_child m \<noteq> Some c \<or> su_child m' = Some c"
  shows "fleet_wf lim (put_agent a m' s, qs)"
proof (rule fleet_wfI)
  fix c assume "c \<in> set qs"
  then consider "c \<in> set ps" "su_child m \<noteq> Some c" | "su_child m' = Some c" using ps(2) by blast
  then show "\<exists>b n. agent_of (put_agent a m' s) b = Some n \<and> su_child n = Some c"
  proof cases
    case 1
    then obtain b n where "agent_of s b = Some n" "su_child n = Some c" using fleet_wfD(4) [OF wf] by blast
    then show ?thesis using 1(2) a(1) by (intro exI [of _ b] exI [of _ n]) auto
  qed (auto intro: exI [of _ a])
next
  show "length (sv_agents (put_agent a m' s)) \<le> unat lim"
    using fleet_wfD(1,5) [OF wf] a(1) by (simp add: put_agent_def length_bm_insert agent_of_def)
qed (use fleet_wfD [OF wf] a ps(1) in \<open>auto simp: bm_ok_put split: if_splits\<close>)

lemma wf_drop:
  assumes wf: "fleet_wf lim (s, ps)" and ps: "distinct qs"
    "\<And>c. c \<in> set qs \<Longrightarrow> c \<in> set ps \<and> child_of s a \<noteq> Some c"
  shows "fleet_wf lim (drop_agent a s, qs)"
proof (rule fleet_wfI)
  fix c assume c: "c \<in> set qs"
  then obtain b n where b: "agent_of s b = Some n" "su_child n = Some c" using fleet_wfD(4) [OF wf] ps(2) by blast
  then have "b \<noteq> a" using ps(2) [OF c] by (auto simp: child_of_def)
  then show "\<exists>b n. agent_of (drop_agent a s) b = Some n \<and> su_child n = Some c" using b by auto
next
  have "length (sv_agents (drop_agent a s)) \<le> length (sv_agents s)" by (simp add: drop_agent_def bm_remove_def)
  then show "length (sv_agents (drop_agent a s)) \<le> unat lim" using fleet_wfD(5) [OF wf] by simp
qed (use fleet_wfD [OF wf] ps(1) in \<open>auto simp: bm_ok_drop split: if_splits\<close>)

lemma wf_fewer: "fleet_wf lim (s, ps) \<Longrightarrow> distinct qs \<Longrightarrow> set qs \<subseteq> set ps \<Longrightarrow> fleet_wf lim (s, qs)"
  by (auto simp: fleet_wf_def)

section \<open>Every operation keeps it\<close>

lemma admitted_start: "decide p Start n b r = Admit \<Longrightarrow> n < po_max_agents p"
  by (auto simp: decide_def not_le split: if_splits)

lemma unat_count:
  assumes "n \<le> unat (lim :: u32)"
  shows "unat (of_nat n :: u32) = n"
proof -
  have "n < 2 ^ LENGTH(32)" using assms unsigned_less [of lim, where 'a = nat] by (rule le_less_trans)
  then show ?thesis by (simp add: unsigned_of_nat take_bit_nat_eq_self)
qed

lemma start_keeps:
  assumes wf: "fleet_wf lim (s, ps)" and ok: "op_ok lim (Do_Start spec budget rate now claim answer) (s, ps)"
  shows "fleet_wf lim (fleet_do (Do_Start spec budget rate now claim answer) (s, ps))"
proof (cases "fst (start_claiming spec budget rate now claim (\<lambda>_. answer) s) = Started")
  case False
  then have "fleet_do (Do_Start spec budget rate now claim answer) (s, ps) = (s, ps)"
    by (auto simp: start_claiming_def split: admission.splits sum.splits spawn_kind.splits)
  then show ?thesis using wf by simp
next
  case True
  let ?a = "sp_agent spec"
  obtain c where c: "answer = Inr c" and admit: "decide (sv_policy s) Start (committed_count s) budget rate = Admit"
      and eq: "fleet_do (Do_Start spec budget rate now claim answer) (s, ps) =
        (put_agent ?a (new_member spec c now) s, c # ps)"
    using True by (auto simp: start_claiming_def split: admission.splits sum.splits spawn_kind.splits)
  have new: "agent_of s ?a = None" "c \<notin> set ps" using ok by (auto simp: c is_registered_def)
  have "committed_count s < lim" using admitted_start [OF admit] fleet_wfD(6) [OF wf] by simp
  then have room: "Suc (length (sv_agents s)) \<le> unat lim"
    using unat_count [OF fleet_wfD(5) [OF wf]] by (simp add: committed_count_def word_less_nat_alt)
  show ?thesis unfolding eq
  proof (rule fleet_wfI)
    fix d assume "d \<in> set (c # ps)"
    then show "\<exists>b n. agent_of (put_agent ?a (new_member spec c now) s) b = Some n \<and> su_child n = Some d"
    proof (cases "d = c")
      case False
      then obtain b n where b: "agent_of s b = Some n" "su_child n = Some d"
        using fleet_wfD(4) [OF wf, of d] \<open>d \<in> set (c # ps)\<close> by auto
      then have "b \<noteq> ?a" using new(1) by auto
      then show ?thesis using b by auto
    qed (auto intro!: exI [of _ ?a] simp: new_member_def)
  next
    show "length (sv_agents (put_agent ?a (new_member spec c now) s)) \<le> unat lim"
      using room fleet_wfD(1) [OF wf] new(1) by (simp add: put_agent_def length_bm_insert agent_of_def)
  qed (use fleet_wfD [OF wf] new in \<open>auto simp: bm_ok_put new_member_def split: if_splits\<close>)
qed

lemma poll_shape:
  assumes "poll_with_progress a ob s = (out, fx, s')" "agent_of s a = Some m" "out \<noteq> Healthy" "out \<noteq> Down"
  shows "s' = drop_agent a s \<or> (\<exists>m'. s' = put_agent a m' s \<and> su_spec m' = su_spec m \<and> su_child m' = None)"
  using assms
  by (auto simp: poll_defs split: option.splits verdict.splits disposition.splits if_splits)

lemma poll_hung:
  assumes "poll_with_progress a ob s = (out, fx, s')" "agent_of s a = Some m" "su_child m = Some c"
    "ob_health ob = Alive t" "out \<noteq> Healthy" "\<not> ob_network ob" "\<not> ob_rate_limit ob" "ob_model_refused ob = None"
  shows "fx = [Killed a c]"
  using assms by (auto simp: poll_defs classify_def kill_hung_def split: if_splits)

lemma poll_keeps:
  assumes wf: "fleet_wf lim (s, ps)" and ok: "op_ok lim (Do_Poll a ob) (s, ps)"
  shows "fleet_wf lim (fleet_do (Do_Poll a ob) (s, ps))"
proof -
  obtain out fx s' where run: "poll_with_progress a ob s = (out, fx, s')" by (metis prod_cases3)
  show ?thesis
  proof (cases "agent_of s a")
    case None
    then show ?thesis using wf by (simp add: poll_with_progress_def)
  next
    case (Some m)
    show ?thesis
    proof (cases "out = Healthy \<or> out = Down")
      case True
      then have "s' = s" "fx = []" using poll_healthy(3) [OF run Some] poll_kills [OF run Some]
        by (auto split: option.splits agent_health.splits)
      then show ?thesis using run wf by simp
    next
      case False
      let ?qs = "fold on_processes fx ps"
      have "distinct ?qs \<and> set ?qs \<subseteq> set ps \<and> (\<forall>c \<in> set ?qs. su_child m \<noteq> Some c)"
      proof (cases "ob_health ob")
        case (Exited code)
        then have "fx = []" using poll_kills [OF run Some] by (auto split: option.splits)
        then show ?thesis using ok fleet_wfD(3) [OF wf] Some Exited by (auto simp: child_of_def)
      next
        case (Alive t)
        show ?thesis
        proof (cases "su_child m")
          case None
          then have "fx = []" using poll_kills [OF run Some] by simp
          then show ?thesis using fleet_wfD(3) [OF wf] None by simp
        next
          case (Some c)
          then have "fx = [Killed a c]"
            using poll_hung [OF run \<open>agent_of s a = Some m\<close> Some Alive] False ok Alive by simp
          then show ?thesis using fleet_wfD(3) [OF wf] Some by (auto simp: distinct_removeAll)
        qed
      qed
      then have qs: "distinct ?qs" "\<And>c. c \<in> set ?qs \<Longrightarrow> c \<in> set ps \<and> su_child m \<noteq> Some c" by auto
      have "fleet_wf lim (drop_agent a s, ?qs)"
        by (rule wf_drop [OF wf qs(1)]) (use qs(2) Some in \<open>simp add: child_of_def\<close>)
      moreover have "fleet_wf lim (put_agent a m' s, ?qs)" if "su_spec m' = su_spec m" for m'
        by (rule wf_put [OF wf Some that qs(1)]) (use qs(2) in blast)
      ultimately have "fleet_wf lim (s', ?qs)" using poll_shape [OF run Some] False by auto
      then show ?thesis using run by simp
    qed
  qed
qed

lemma reroll_one_cases:
  assumes "reroll_one env a m s = (out, fx, s')"
  shows "s' = s \<and> (fx = [] \<or> fx = [Pre_Spawn a]) \<or>
    s' = put_agent a (back_off (sv_backoff s) (te_now env) m) s \<and> fx = [Pre_Spawn a] \<or>
    (\<exists>c. te_spawn env (su_spec m) = Inr c \<and> s' = put_agent a (m\<lparr>su_child := Some c\<rparr>) s \<and>
       fx = [Pre_Spawn a, Spawned a c])"
  using assms by (auto simp: reroll_one_def Let_def split: if_splits sum.splits spawn_kind.splits)

lemma reroll_one_frame:
  "reroll_one env a m s = (out, fx, s') \<Longrightarrow> b \<noteq> a \<Longrightarrow> agent_of s' b = agent_of s b"
  using reroll_one_cases [of env a m s out fx s'] by auto

lemma spawn_pids_frame:
  assumes "reroll_one env a m s = (out, fx, s')" "a \<notin> set as"
  shows "spawn_pids env as s' = spawn_pids env as s"
proof -
  have same: "agent_of s' b = agent_of s b" if "b \<in> set as" for b
    by (rule reroll_one_frame [OF assms(1)]) (use assms(2) that in auto)
  show ?thesis unfolding spawn_pids_def
    by (intro arg_cong [where f = concat] map_cong [OF refl]) (simp only: same)
qed

lemma reroll_all_keeps:
  "fleet_wf lim (s, ps) \<Longrightarrow> distinct as \<Longrightarrow> (\<And>a. a \<in> set as \<Longrightarrow> \<exists>m. agent_of s a = Some m \<and> su_child m = None) \<Longrightarrow>
     distinct (spawn_pids env as s @ ps) \<Longrightarrow> reroll_all env as s = (outs, fx, s') \<Longrightarrow>
     fleet_wf lim (s', fold on_processes fx ps)"
proof (induction as arbitrary: s ps outs fx)
  case (Cons a as)
  obtain m where m: "agent_of s a = Some m" "su_child m = None" using Cons.prems(3) [of a] by auto
  obtain out fx1 s1 where one: "reroll_one env a m s = (out, fx1, s1)" by (metis prod_cases3)
  obtain outs2 fx2 where rest: "reroll_all env as s1 = (outs2, fx2, s')" and fx: "fx = fx1 @ fx2"
    using Cons.prems(5) m one by (auto split: prod.splits)
  let ?qs = "fold on_processes fx1 ps"
  have frame: "agent_of s1 b = agent_of s b" if "b \<in> set as" for b
    by (rule reroll_one_frame [OF one]) (use Cons.prems(2) that in auto)
  have pids: "spawn_pids env as s1 = spawn_pids env as s"
    by (rule spawn_pids_frame [OF one]) (use Cons.prems(2) in simp)
  have fresh: "distinct (spawn_pids env as s @ ps)" using Cons.prems(4) by (auto simp: spawn_pids_def)
  have "fleet_wf lim (s1, ?qs) \<and> distinct (spawn_pids env as s @ ?qs)"
    using reroll_one_cases [OF one]
  proof (elim disjE exE conjE)
    fix c assume c: "te_spawn env (su_spec m) = Inr c" "s1 = put_agent a (m\<lparr>su_child := Some c\<rparr>) s"
        "fx1 = [Pre_Spawn a, Spawned a c]"
    have new: "c \<notin> set ps" "c \<notin> set (spawn_pids env as s)"
      using Cons.prems(4) m c(1) by (auto simp: spawn_pids_def)
    have "fleet_wf lim (s1, c # ps)"
      unfolding c(2) by (rule wf_put [OF Cons.prems(1) m(1)])
        (use fleet_wfD(3) [OF Cons.prems(1)] new m(2) in auto)
    then show ?thesis using new fresh c(3) by simp
  next
    assume "s1 = put_agent a (back_off (sv_backoff s) (te_now env) m) s" "fx1 = [Pre_Spawn a]"
    then show ?thesis
      using fresh wf_put [OF Cons.prems(1) m(1) _ fleet_wfD(3) [OF Cons.prems(1)]] m(2) by simp
  qed (use Cons.prems(1) fresh in auto)
  then show ?case
    using Cons.IH [OF _ _ _ _ rest, of ?qs] Cons.prems(2,3) frame pids fx by simp
qed simp

lemma down_member:
  "bm_ok (sv_agents s) \<Longrightarrow> a \<in> set (down_members s) \<longleftrightarrow> (\<exists>m. agent_of s a = Some m \<and> su_child m = None)"
  by (force simp: down_members_def agent_of_def bm_ok_mem [symmetric])

lemma distinct_down: "bm_ok (sv_agents s) \<Longrightarrow> distinct (down_members s)"
  unfolding down_members_def by (intro bm_ok_distinct bm_ok_filter)

lemma fleet_step_keeps:
  assumes wf: "fleet_wf lim st" and ok: "op_ok lim op st"
  shows "fleet_wf lim (fleet_do op st)"
proof -
  obtain s ps where st: "st = (s, ps)" by fastforce
  note w = wf [unfolded st] and o = ok [unfolded st]
  show ?thesis unfolding st
  proof (cases op)
    case (Do_Start spec budget rate now claim answer)
    then show "fleet_wf lim (fleet_do op (s, ps))" using start_keeps w o by blast
  next
    case (Do_Poll a ob)
    then show "fleet_wf lim (fleet_do op (s, ps))" using poll_keeps w o by blast
  next
    case (Do_Tick env)
    obtain outs fx s' where run: "reroll_all env (down_members s) s = (outs, fx, s')" by (metis prod_cases3)
    have "fleet_wf lim (s', fold on_processes fx ps)"
      by (rule reroll_all_keeps [OF w distinct_down _ _ run])
        (use down_member fleet_wfD(1) [OF w] o Do_Tick in auto)
    then show "fleet_wf lim (fleet_do op (s, ps))" using run by (simp add: Do_Tick tick_with_def)
  next
    case (Do_Retire a)
    have "fleet_wf lim (drop_agent a s, case child_of s a of Some x \<Rightarrow> removeAll x ps | None \<Rightarrow> ps)"
      by (rule wf_drop [OF w]) (use fleet_wfD(3) [OF w] in \<open>auto simp: distinct_removeAll split: option.splits\<close>)
    then show "fleet_wf lim (fleet_do op (s, ps))" by (simp add: Do_Retire retire_def child_of_def)
  next
    case (Do_Policy p)
    then show "fleet_wf lim (fleet_do op (s, ps))" using w o by (simp add: fleet_wf_def set_policy_def agent_of_def)
  next
    case (Do_Clear a now)
    show "fleet_wf lim (fleet_do op (s, ps))"
      using w wf_put [OF w _ _ fleet_wfD(3) [OF w]]
      by (auto simp: Do_Clear clear_model_refused_park_def split: option.split)
  next
    case (Process_Exit c)
    then show "fleet_wf lim (fleet_do op (s, ps))"
      using wf_fewer [OF w, of "removeAll c ps"] fleet_wfD(3) [OF w] by (auto simp: distinct_removeAll)
  qed
qed

lemma reach_wf: "fleet_reach lim st \<Longrightarrow> fleet_wf lim st"
proof (induction rule: fleet_reach.induct)
  case (boot p)
  then show ?case by (simp add: fleet_wf_def supervisor_new_def agent_of_def)
qed (rule fleet_step_keeps)

text \<open>
  C12. The fleet never outgrows its cap and loses no process. In every run of starts, observations,
  ticks, retirements, policy changes and process exits whose caps stay within a bound, the members
  that own a slot number at most the bound, live or down; every agent process that still runs is
  the child of exactly such a member, so the processes number no more than the members; and a start
  that is admitted leaves no more members than the cap then in force.
\<close>

theorem fleet_bounded:
  assumes "fleet_reach lim (s, ps)"
  shows "(\<forall>c \<in> set ps. \<exists>a. is_registered s a \<and> child_of s a = Some c) \<and> distinct ps \<and>
    length ps \<le> length (sv_agents s) \<and> length (sv_agents s) \<le> unat lim \<and>
    (\<forall>spec budget rate now claim spawn fx s'.
       start_claiming spec budget rate now claim spawn s = (Started, fx, s') \<longrightarrow>
       committed_count s < po_max_agents (sv_policy s) \<and> length (sv_agents s') \<le> unat (po_max_agents (sv_policy s)))"
proof -
  note wf = reach_wf [OF assms]
  have owned: "\<exists>a. is_registered s a \<and> child_of s a = Some c" if "c \<in> set ps" for c
    using fleet_wfD(4) [OF wf that] by (auto simp: is_registered_def child_of_def)
  have "set ps \<subseteq> the ` su_child ` snd ` set (sv_agents s)"
    using fleet_wfD(4) [OF wf] by (force simp: agent_of_def dest: map_of_SomeD)
  then have "card (set ps) \<le> card (set (sv_agents s))"
    by (meson List.finite_set card_image_le card_mono finite_imageI le_trans)
  then have count: "length ps \<le> length (sv_agents s)"
    using distinct_card [OF fleet_wfD(3) [OF wf]] card_length le_trans by metis
  have start: "committed_count s < po_max_agents (sv_policy s) \<and> length (sv_agents s') \<le> unat (po_max_agents (sv_policy s))"
    if run: "start_claiming spec budget rate now claim spawn s = (Started, fx, s')"
    for spec budget rate now claim spawn fx s'
  proof -
    have less: "committed_count s < po_max_agents (sv_policy s)"
      using run by (auto simp: start_claiming_def split: admission.splits sum.splits spawn_kind.splits dest: admitted_start)
    moreover have "length (sv_agents s') \<le> Suc (length (sv_agents s))"
      using run fleet_wfD(1) [OF wf]
      by (auto simp: start_claiming_def put_agent_def length_bm_insert split: admission.splits sum.splits spawn_kind.splits)
    ultimately show ?thesis
      using unat_count [OF fleet_wfD(5) [OF wf]] by (simp add: committed_count_def word_less_nat_alt)
  qed
  show ?thesis using owned fleet_wfD(3,5) [OF wf] count start by auto
qed

section \<open>A run\<close>

fun ops_ok :: "u32 \<Rightarrow> fleet_op list \<Rightarrow> fleet \<Rightarrow> bool" where
  "ops_ok lim [] st \<longleftrightarrow> True"
| "ops_ok lim (op # ops) st \<longleftrightarrow> op_ok lim op st \<and> ops_ok lim ops (fleet_do op st)"

lemma reach_fold: "fleet_reach lim st \<Longrightarrow> ops_ok lim ops st \<Longrightarrow> fleet_reach lim (fold fleet_do ops st)"
proof (induction ops arbitrary: st)
  case (Cons op ops)
  have "fleet_reach lim (fleet_do op st)" by (rule step) (use Cons.prems in auto)
  then show ?case using Cons by simp
qed simp

definition demo_spec :: "string \<Rightarrow> agent_spec" where
  "demo_spec a = \<lparr>sp_agent = a, sp_loop_settings = ''loop.json'', sp_mcp_config = ''mcp.json'', sp_model = None\<rparr>"

definition demo_budget :: budget_usage where "demo_budget = \<lparr>bu_5h = 20, bu_7d = 30\<rparr>"

definition demo_rate :: rate_state where
  "demo_rate = \<lparr>ra_tpm_used = 0, ra_rpm_used = 0, ra_tpm_limit = 900, ra_rpm_limit = 90, ra_tpm_per_agent = 100,
     ra_rpm_per_agent = 10\<rparr>"

definition demo_exit :: "int \<Rightarrow> int \<Rightarrow> observation" where
  "demo_exit code now =
     \<lparr>ob_health = Exited code, ob_status = None, ob_next_action = Some ''fix the build'', ob_now = now,
      ob_network = False, ob_rate_limit = False, ob_model_refused = None, ob_repo = None\<rparr>"

definition demo_tick :: "int \<Rightarrow> child \<Rightarrow> tick_env" where
  "demo_tick now c =
     \<lparr>te_budget = (\<lambda>_. demo_budget), te_rate = demo_rate, te_now = now, te_workable = (\<lambda>_. True),
      te_spawn = (\<lambda>_. Inr c)\<rparr>"

text \<open>Two starts fill the default cap, a third waits; one member crashes and is restarted.\<close>

definition demo_ops :: "fleet_op list" where
  "demo_ops =
     [Do_Start (demo_spec ''m1'') demo_budget demo_rate 0 (Inr ()) (Inr 1),
      Do_Start (demo_spec ''m2'') demo_budget demo_rate 1 (Inr ()) (Inr 2),
      Do_Start (demo_spec ''m3'') demo_budget demo_rate 2 (Inr ()) (Inr 3),
      Process_Exit 1, Do_Poll ''m1'' (demo_exit 1 10), Do_Tick (demo_tick 12 4), Do_Tick (demo_tick 15 4)]"

definition demo_fleet :: fleet where
  "demo_fleet = fold fleet_do demo_ops (supervisor_new policy_default, [])"

lemma demo_reach: "fleet_reach 2 demo_fleet"
  unfolding demo_fleet_def
proof (rule reach_fold [OF boot])
  show "po_max_agents policy_default \<le> 2" by (simp add: policy_default_def)
  show "ops_ok 2 demo_ops (supervisor_new policy_default, [])" by code_simp
qed

theorem fleet_bounded_witness:
  "snd demo_fleet = [4, 2] \<and> length (snd demo_fleet) \<le> length (sv_agents (fst demo_fleet)) \<and>
   length (sv_agents (fst demo_fleet)) \<le> 2"
proof -
  have run: "snd demo_fleet = [4, 2]" by code_simp
  have "fleet_reach 2 (fst demo_fleet, snd demo_fleet)" using demo_reach by simp
  from fleet_bounded [OF this] show ?thesis by (simp add: run)
qed

theorem poll_outcome_means_witness:
  "poll_with_progress ''m2'' (demo_exit 1 20) (fst demo_fleet) =
     (Crashed ''m2'' 1 25, [], snd (snd (poll_with_progress ''m2'' (demo_exit 1 20) (fst demo_fleet)))) \<and>
   agent_of (snd (snd (poll_with_progress ''m2'' (demo_exit 1 20) (fst demo_fleet)))) ''m1'' = agent_of (fst demo_fleet) ''m1''"
proof -
  let ?r = "poll_with_progress ''m2'' (demo_exit 1 20) (fst demo_fleet)"
  have run: "?r = (Crashed ''m2'' 1 25, [], snd (snd ?r))" by code_simp
  show ?thesis using poll_outcome_means [OF run] run by simp
qed

end
