(* ===== verification/Fleet_Return.thy ===== *)
theory Fleet_Return
  imports Fleet_Runs
begin

text \<open>
  What becomes of a member that is down: a crashed one comes back once its backoff has passed
  whatever happens in between, one whose model was refused stays down until the park is cleared,
  and one that hands off the same next action again and again is released.
\<close>

section \<open>One member in a tick\<close>

lemma decide_roll: "decide p Roll n b r = decide p Roll 0 b r"
  by (simp add: decide_def)

lemma reroll_one_fields:
  "reroll_one env a m s = (out, fx, s') \<Longrightarrow> sv_policy s' = sv_policy s \<and> sv_backoff s' = sv_backoff s \<and> sv_hang s' = sv_hang s"
  using reroll_one_cases [of env a m s out fx s'] by auto

lemma reroll_all_frame:
  "reroll_all env as s = (outs, fx, s') \<Longrightarrow>
     (a \<notin> set as \<longrightarrow> agent_of s' a = agent_of s a) \<and>
     sv_policy s' = sv_policy s \<and> sv_backoff s' = sv_backoff s \<and> sv_hang s' = sv_hang s"
proof (induction as arbitrary: s outs fx)
  case (Cons b as)
  show ?case
  proof (cases "agent_of s b")
    case None
    then show ?thesis using Cons by simp
  next
    case (Some m)
    obtain out fx1 s1 where one: "reroll_one env b m s = (out, fx1, s1)" by (metis prod_cases3)
    obtain outs2 fx2 where rest: "reroll_all env as s1 = (outs2, fx2, s')"
      using Cons.prems Some one by (auto split: prod.splits)
    have "a \<noteq> b \<Longrightarrow> agent_of s1 a = agent_of s a" by (rule reroll_one_frame [OF one])
    then show ?thesis using Cons.IH [OF rest] reroll_one_fields [OF one] by simp
  qed
qed simp

lemma reroll_all_member:
  "reroll_all env as s = (outs, fx, s') \<Longrightarrow> distinct as \<Longrightarrow> a \<in> set as \<Longrightarrow> agent_of s a = Some m \<Longrightarrow>
     \<exists>s0 out fx1 s1. reroll_one env a m s0 = (out, fx1, s1) \<and> out \<in> set outs \<and> agent_of s' a = agent_of s1 a \<and>
       agent_of s0 a = Some m \<and> sv_policy s0 = sv_policy s \<and> sv_backoff s0 = sv_backoff s"
proof (induction as arbitrary: s outs fx)
  case (Cons b as)
  show ?case
  proof (cases "agent_of s b")
    case None
    then show ?thesis using Cons.prems Cons.IH [of s outs fx] by (cases "a = b") auto
  next
    case (Some n)
    obtain out fx1 s1 where one: "reroll_one env b n s = (out, fx1, s1)" by (metis prod_cases3)
    obtain outs2 fx2 where rest: "reroll_all env as s1 = (outs2, fx2, s')" and outs: "outs = out # outs2"
      using Cons.prems(1) Some one by (auto split: prod.splits)
    show ?thesis
    proof (cases "a = b")
      case True
      then have "n = m" "agent_of s' a = agent_of s1 a"
        using Some Cons.prems(2,4) reroll_all_frame [OF rest, of a] by auto
      then show ?thesis using one True outs Cons.prems(4) by auto
    next
      case False
      have "agent_of s1 a = Some m" using reroll_one_frame [OF one False] Cons.prems(4) by simp
      then show ?thesis
        using Cons.IH [OF rest] Cons.prems(2,3) False outs reroll_one_fields [OF one] by auto
    qed
  qed
qed simp

lemma tick_frame: "tick_with env s = (outs, fx, s') \<Longrightarrow> a \<notin> set (down_members s) \<Longrightarrow> agent_of s' a = agent_of s a"
  using reroll_all_frame unfolding tick_with_def by blast

lemma tick_member:
  assumes "tick_with env s = (outs, fx, s')" "bm_ok (sv_agents s)" "agent_of s a = Some m" "su_child m = None"
  obtains s0 out fx1 s1 where "reroll_one env a m s0 = (out, fx1, s1)" "out \<in> set outs"
    "agent_of s' a = agent_of s1 a" "agent_of s0 a = Some m" "sv_policy s0 = sv_policy s"
  using reroll_all_member [OF assms(1) [unfolded tick_with_def] distinct_down [OF assms(2)] _ assms(3)]
    down_member [OF assms(2)] assms(3,4) by blast

lemma tick_restarts:
  assumes "tick_with env s = (outs, fx, s')" "bm_ok (sv_agents s)" "agent_of s a = Some m" "su_child m = None"
    and "su_not_before m \<le> te_now env" "te_workable env a"
    and "decide (sv_policy s) Roll 0 (te_budget env a) (te_rate env) = Admit" "te_spawn env (su_spec m) = Inr c"
  shows "Rerolled a \<in> set outs \<and> agent_of s' a = Some (m\<lparr>su_child := Some c\<rparr>)"
proof -
  obtain s0 out fx1 s1 where one: "reroll_one env a m s0 = (out, fx1, s1)" "out \<in> set outs"
      "agent_of s' a = agent_of s1 a" "agent_of s0 a = Some m" "sv_policy s0 = sv_policy s"
    using tick_member [OF assms(1-4)] .
  have "decide (sv_policy s0) Roll (live_count s0) (te_budget env a) (te_rate env) = Admit"
    using assms(7) by (simp add: one(5) decide_roll [of _ "live_count s0"])
  then have "reroll_one env a m s0 = (Rerolled a, [Pre_Spawn a, Spawned a c], put_agent a (m\<lparr>su_child := Some c\<rparr>) s0)"
    using assms(5,6,8) by (simp add: reroll_one_def Let_def)
  then show ?thesis using one by simp
qed

section \<open>A member that waits\<close>

text \<open>
  Anything that may happen to a fleet while a member waits until a time: other members are started,
  observed and retired, its own exit is observed again by classifiers that see no network loss, and
  ticks run before that time.
\<close>

fun waits :: "string \<Rightarrow> int \<Rightarrow> fleet_op \<Rightarrow> bool" where
  "waits a t (Do_Start spec _ _ _ _ _) \<longleftrightarrow> sp_agent spec \<noteq> a"
| "waits a t (Do_Poll b ob) \<longleftrightarrow> b \<noteq> a \<or> \<not> ob_network ob"
| "waits a t (Do_Tick env) \<longleftrightarrow> te_now env < t"
| "waits a t (Do_Retire b) \<longleftrightarrow> b \<noteq> a"
| "waits a t (Do_Policy p) \<longleftrightarrow> True"
| "waits a t (Do_Clear b now) \<longleftrightarrow> b \<noteq> a"
| "waits a t (Process_Exit c) \<longleftrightarrow> True"

lemma start_frame:
  "start_claiming spec budget rate now claim spawn s = (out, fx, s') \<Longrightarrow> sp_agent spec \<noteq> a \<Longrightarrow>
     agent_of s' a = agent_of s a"
  by (auto simp: start_claiming_def split: admission.splits sum.splits spawn_kind.splits)

lemma poll_waiting:
  "poll_with_progress a ob s = (out, fx, s') \<Longrightarrow> agent_of s a = Some m \<Longrightarrow> su_child m = None \<Longrightarrow> \<not> ob_network ob \<Longrightarrow>
     s' = s"
  by (auto simp: poll_with_progress_def split: verdict.splits)

lemma waits_keeps:
  assumes "waits a t op" "bm_ok (sv_agents s)" "agent_of s a = Some m" "su_child m = None" "t \<le> su_not_before m"
    "fleet_do op (s, ps) = (s', qs)"
  shows "agent_of s' a = Some m"
proof (cases op)
  case (Do_Start spec budget rate now claim answer)
  obtain out fx where "start_claiming spec budget rate now claim (\<lambda>_. answer) s = (out, fx, s')"
    using assms(6) by (auto simp: Do_Start split: prod.splits)
  then show ?thesis using start_frame assms(1,3) by (simp add: Do_Start)
next
  case (Do_Poll b ob)
  obtain out fx where run: "poll_with_progress b ob s = (out, fx, s')"
    using assms(6) by (auto simp: Do_Poll split: prod.splits)
  show ?thesis
  proof (cases "b = a")
    case True
    have "s' = s" by (rule poll_waiting [OF _ assms(3,4)]) (use run True assms(1) Do_Poll in auto)
    then show ?thesis using assms(3) by simp
  next
    case False
    then show ?thesis using poll_frame [OF run] assms(3) by simp
  qed
next
  case (Do_Tick env)
  obtain outs fx where run: "tick_with env s = (outs, fx, s')"
    using assms(6) by (auto simp: Do_Tick split: prod.splits)
  obtain s0 out fx1 s1 where one: "reroll_one env a m s0 = (out, fx1, s1)" "agent_of s' a = agent_of s1 a"
      "agent_of s0 a = Some m"
    using tick_member [OF run assms(2-4)] by metis
  have "te_now env < su_not_before m" using assms(1,5) by (simp add: Do_Tick)
  then have "s1 = s0" using one(1) by (simp add: reroll_one_def)
  then show ?thesis using one by simp
next
  case (Do_Clear b now)
  then show ?thesis using assms(1,3,6) by (auto simp: clear_model_refused_park_def split: option.splits if_splits)
qed (use assms(1,3,6) in \<open>auto simp: retire_def set_policy_def agent_of_def drop_agent_def\<close>)

lemma ok_start:
  "start_claiming spec budget rate now claim spawn s = (out, fx, s') \<Longrightarrow> bm_ok (sv_agents s) \<Longrightarrow> bm_ok (sv_agents s')"
  by (auto simp: start_claiming_def bm_ok_put split: admission.splits sum.splits spawn_kind.splits)

lemma ok_poll: "poll_with_progress a ob s = (out, fx, s') \<Longrightarrow> bm_ok (sv_agents s) \<Longrightarrow> bm_ok (sv_agents s')"
proof (cases "agent_of s a")
  case (Some m)
  assume run: "poll_with_progress a ob s = (out, fx, s')" and ok: "bm_ok (sv_agents s)"
  show ?thesis
    using poll_shape [OF run Some] poll_healthy(3) [OF run Some] ok bm_ok_put bm_ok_drop by (auto; blast)
qed (simp add: poll_with_progress_def)

lemma ok_reroll: "reroll_all env as s = (outs, fx, s') \<Longrightarrow> bm_ok (sv_agents s) \<Longrightarrow> bm_ok (sv_agents s')"
proof (induction as arbitrary: s outs fx)
  case (Cons b as)
  show ?case
  proof (cases "agent_of s b")
    case (Some m)
    obtain out fx1 s1 where one: "reroll_one env b m s = (out, fx1, s1)" by (metis prod_cases3)
    obtain outs2 fx2 where rest: "reroll_all env as s1 = (outs2, fx2, s')"
      using Cons.prems(1) Some one by (auto split: prod.splits)
    have "bm_ok (sv_agents s1)" using reroll_one_cases [OF one] Cons.prems(2) bm_ok_put by auto
    then show ?thesis using Cons.IH [OF rest] by simp
  qed (use Cons in auto)
qed simp

lemma ok_step: "fleet_do op (s, ps) = (s', qs) \<Longrightarrow> bm_ok (sv_agents s) \<Longrightarrow> bm_ok (sv_agents s')"
  by (cases op)
    (auto simp: tick_with_def retire_def set_policy_def clear_model_refused_park_def bm_ok_drop bm_ok_put
       split: prod.splits option.splits if_splits dest: ok_start ok_poll ok_reroll)

lemma waiting_run:
  "fold fleet_do ops (s, ps) = (s', qs) \<Longrightarrow> (\<forall>op \<in> set ops. waits a t op) \<Longrightarrow> bm_ok (sv_agents s) \<Longrightarrow>
     agent_of s a = Some m \<Longrightarrow> su_child m = None \<Longrightarrow> t \<le> su_not_before m \<Longrightarrow>
     agent_of s' a = Some m \<and> bm_ok (sv_agents s')"
proof (induction ops arbitrary: s ps)
  case (Cons op ops)
  obtain s1 ps1 where one: "fleet_do op (s, ps) = (s1, ps1)" by fastforce
  have "agent_of s1 a = Some m" by (rule waits_keeps [OF _ Cons.prems(3-6) one]) (use Cons.prems(2) in simp)
  moreover have "bm_ok (sv_agents s1)" by (rule ok_step [OF one Cons.prems(3)])
  ultimately show ?case using Cons.IH [of s1 ps1] Cons.prems one by simp
qed simp

section \<open>A crashed member comes back\<close>



lemma sat64_nonneg: "0 \<le> x \<Longrightarrow> sat64 x = min x i64_max"
  by (simp add: sat64_def i64_min_def i64_max_def min_def)

lemma delay_doubles:
  "delay backoff_default f = (if f = 0 then 0 else min (5 * 2 ^ min (unat (f - 1)) 62) 300)"
  by (simp add: delay_def backoff_default_def Let_def sat64_nonneg min.assoc) (simp add: i64_max_def)


lemma network_member:
  assumes "agent_of s a = Some m" "ob_health ob = Exited code" "code \<noteq> 0" "ob_network ob"
    "poll_with_progress a ob s = (out, fx, s1)"
  shows "out = Reconnecting \<and> agent_of s1 a = Some (m\<lparr>su_child := None, su_not_before := ob_now ob\<rparr>)"
  using assms by (auto simp: poll_defs classify_def)



section \<open>A refused model\<close>

lemma refused_member:
  assumes "poll_with_progress a ob s = (Model_Refused b reason, fx, s1)" "agent_of s a = Some m"
  shows "\<exists>m1. agent_of s1 a = Some m1 \<and> su_child m1 = None \<and> su_spec m1 = su_spec m \<and> su_not_before m1 = i64_max \<and>
     su_refused_model m1 = Some (case sp_model (su_spec m) of Some c \<Rightarrow> c | None \<Rightarrow> claude_default)"
  using assms by (auto simp: poll_defs split: option.splits verdict.splits disposition.splits if_splits)

lemma parked_listed: "agent_of s a = Some m \<Longrightarrow> su_refused_model m \<noteq> None \<Longrightarrow> a \<in> set (agents_in_model_refused_park s)"
  unfolding agents_in_model_refused_park_def agent_of_def by (force dest: map_of_SomeD)

text \<open>
  C26. A member whose model was refused. Through everything that may happen while no classifier
  blames the network, short of its own retirement or the clearing of the park, it stays down,
  listed as parked with the model that was refused, and no tick of a representable time starts it.
  One later sight of the same exit that the classifier blames on the network ends this: the member
  stays listed as parked, and the next tick with work and an open budget starts it again on the
  model that was refused.
\<close>

theorem refused_model_park:
  assumes "poll_with_progress a ob s = (Model_Refused a reason, fx, s1)" "agent_of s a = Some m" "bm_ok (sv_agents s)"
    and "fold fleet_do ops (s1, ps) = (s2, qs)" "\<forall>op \<in> set ops. waits a i64_max op"
  shows "\<not> is_running s2 a \<and> a \<in> set (agents_in_model_refused_park s2) \<and>
    refused_model s2 a = Some (case sp_model (su_spec m) of Some c \<Rightarrow> c | None \<Rightarrow> claude_default) \<and>
    (\<forall>ob2 code out fx2 s3 env outs fx3 s4 c.
       ob_health ob2 = Exited code \<and> code \<noteq> 0 \<and> ob_network ob2 \<and>
       poll_with_progress a ob2 s2 = (out, fx2, s3) \<and> tick_with env s3 = (outs, fx3, s4) \<and>
       ob_now ob2 \<le> te_now env \<and> te_workable env a \<and> te_spawn env (su_spec m) = Inr c \<and>
       decide (sv_policy s3) Roll 0 (te_budget env a) (te_rate env) = Admit \<longrightarrow>
       child_of s4 a = Some c \<and> a \<in> set (agents_in_model_refused_park s4))"
proof -
  obtain m1 where m1: "agent_of s1 a = Some m1" "su_child m1 = None" "su_spec m1 = su_spec m" "su_not_before m1 = i64_max"
      "su_refused_model m1 = Some (case sp_model (su_spec m) of Some c \<Rightarrow> c | None \<Rightarrow> claude_default)"
    using refused_member [OF assms(1,2)] by blast
  have later: "agent_of s2 a = Some m1" "bm_ok (sv_agents s2)"
    using waiting_run [OF assms(4,5) ok_poll [OF assms(1,3)] m1(1,2)] m1(4) by simp_all
  have "child_of s4 a = Some c \<and> a \<in> set (agents_in_model_refused_park s4)"
    if h: "ob_health ob2 = Exited code" "code \<noteq> 0" "ob_network ob2"
       "poll_with_progress a ob2 s2 = (out, fx2, s3)" "tick_with env s3 = (outs, fx3, s4)"
       "ob_now ob2 \<le> te_now env" "te_workable env a" "te_spawn env (su_spec m) = Inr c"
       "decide (sv_policy s3) Roll 0 (te_budget env a) (te_rate env) = Admit"
    for ob2 code out fx2 s3 env outs fx3 s4 c
  proof -
    have net: "agent_of s3 a = Some (m1\<lparr>su_child := None, su_not_before := ob_now ob2\<rparr>)"
      using network_member [OF later(1) h(1-4)] by simp
    have "agent_of s4 a = Some (m1\<lparr>su_child := Some c, su_not_before := ob_now ob2\<rparr>)"
      using tick_restarts [OF h(5) ok_poll [OF h(4) later(2)] net] h(6-9) m1(3) by simp
    then show ?thesis using parked_listed m1(5) by (simp add: child_of_def)
  qed
  then show ?thesis using later m1 parked_listed by (auto simp: is_running_def refused_model_def)
qed

section \<open>Examples\<close>

definition demo_polled :: "observation \<Rightarrow> polled" where
  "demo_polled ob = poll_with_progress ''m2'' ob (fst demo_fleet)"

definition demo_wait :: "fleet_op list" where
  "demo_wait = [Do_Poll ''m2'' (demo_exit 1 21), Do_Tick (demo_tick 22 9), Do_Policy policy_default]"

definition demo_after :: "observation \<Rightarrow> fleet" where
  "demo_after ob = fold fleet_do demo_wait (snd (snd (demo_polled ob)), [])"

definition demo_refused :: observation where
  "demo_refused = (demo_exit 1 20)\<lparr>ob_model_refused := Some ''model_not_found''\<rparr>"

lemma demo_fleet_ok: "bm_ok (sv_agents (fst demo_fleet))"
  using fleet_wfD(1) [of 2 "fst demo_fleet" "snd demo_fleet"] reach_wf [OF demo_reach] by simp

lemma demo_member: "agent_of (fst demo_fleet) ''m2'' = Some (new_member (demo_spec ''m2'') 2 1)"
  by code_simp

lemma demo_waits: "22 < t \<Longrightarrow> \<forall>op \<in> set demo_wait. waits ''m2'' t op"
  by (simp add: demo_wait_def demo_exit_def demo_tick_def)


theorem refused_model_park_witness:
  "demo_polled demo_refused = (Model_Refused ''m2'' ''model_not_found'', [], snd (snd (demo_polled demo_refused))) \<and>
   \<not> is_running (fst (demo_after demo_refused)) ''m2'' \<and>
   refused_model (fst (demo_after demo_refused)) ''m2'' = Some claude_default"
proof -
  let ?p = "demo_polled demo_refused" and ?st = "demo_after demo_refused"
  have run: "?p = (Model_Refused ''m2'' ''model_not_found'', [], snd (snd ?p))" by code_simp
  have "\<not> is_running (fst ?st) ''m2'' \<and> refused_model (fst ?st) ''m2'' = Some claude_default"
    using refused_model_park [OF run [unfolded demo_polled_def] demo_member demo_fleet_ok,
        where ops = demo_wait and ps = "[]", of "fst ?st" "snd ?st"] demo_waits [of i64_max]
    by (simp add: demo_after_def demo_polled_def new_member_def demo_spec_def i64_max_def)
  then show ?thesis using run by simp
qed

end
