(* ===== verification/Spin_Guard.thy ===== *)
theory Spin_Guard
  imports Fleet_Return
begin

text \<open>
  The spin guard over the sessions of one member: each session ends on a continue status with the
  same next action and the member is started again in the next tick, until the guard releases it.
\<close>

section \<open>Sessions\<close>

fun spin_sessions :: "string \<Rightarrow> (observation \<times> tick_env) list \<Rightarrow> supervisor \<Rightarrow> poll_outcome list \<times> supervisor" where
  "spin_sessions a [] s = ([], s)"
| "spin_sessions a ((ob, env) # rest) s =
     (case poll_with_progress a ob s of (out, fx, s1) \<Rightarrow>
        if out = Rolling
        then (case tick_with env s1 of (rs, fx2, s2) \<Rightarrow>
                (case spin_sessions a rest s2 of (outs, s3) \<Rightarrow> (out # outs, s3)))
        else ([out], s1))"

definition continues_on :: "string \<Rightarrow> observation \<Rightarrow> bool" where
  "continues_on act ob \<longleftrightarrow> ob_health ob = Exited 0 \<and> ob_next_action ob = Some act \<and>
     ob_status ob \<in> {None, Some ''IN_PROGRESS''}"

definition restarts_in :: "string \<Rightarrow> agent_spec \<Rightarrow> policy \<Rightarrow> observation \<Rightarrow> tick_env \<Rightarrow> bool" where
  "restarts_in a spec p ob env \<longleftrightarrow> ob_now ob \<le> te_now env \<and> te_workable env a \<and>
     decide p Roll 0 (te_budget env a) (te_rate env) = Admit \<and> is_ok (te_spawn env spec)"

text \<open>
  The rule the guard promises: given the repository keys of the sessions so far, a further session
  with the same next action is stuck when its repository cannot be read, when it shows a state one of
  those sessions already showed, or when the repository has excused it three times.
\<close>

definition stuck_after :: "progress_key option list \<Rightarrow> progress_key option \<Rightarrow> bool" where
  "stuck_after pre k \<longleftrightarrow> pre \<noteq> [] \<and> (k = None \<or> k \<in> set pre \<or> 4 \<le> length pre)"

fun first_stuck :: "progress_key option list \<Rightarrow> progress_key option list \<Rightarrow> nat option" where
  "first_stuck pre [] = None"
| "first_stuck pre (k # ks) =
     (if stuck_after pre k then Some 0 else map_option Suc (first_stuck (pre @ [k]) ks))"

lemma first_stuck_bound:
  "length pre \<le> 4 \<Longrightarrow>
     (case first_stuck pre ks of Some n \<Rightarrow> length pre + n \<le> 4 | None \<Rightarrow> length pre + length ks \<le> 4)"
proof (induction ks arbitrary: pre)
  case (Cons k ks)
  show ?case
  proof (cases "stuck_after pre k")
    case False
    then have "length (pre @ [k]) \<le> 4" using Cons.prems by (auto simp: stuck_after_def)
    from Cons.IH [OF this] show ?thesis using False by (auto split: option.splits)
  qed (use Cons.prems in simp)
qed simp

section \<open>The streak\<close>

definition spin_inv :: "string \<Rightarrow> progress_key option list \<Rightarrow> supervised \<Rightarrow> bool" where
  "spin_inv act pre m \<longleftrightarrow>
     (if pre = [] then su_next_action m \<noteq> Some act
      else su_next_action m = Some act \<and> su_streak m = 1 \<and> Some ` set (su_seen_repo m) = set pre - {None} \<and>
        length pre \<le> 4 \<and> su_excused m = of_nat (length pre - 1))"

lemma excused_room: "length pre \<le> 4 \<Longrightarrow> pre \<noteq> [] \<Longrightarrow>
    (of_nat (length pre - 1) :: u32) < repo_excuse_limit \<longleftrightarrow> length pre < 4"
proof -
  assume "length pre \<le> 4" "pre \<noteq> []"
  then have "length pre - 1 = 0 \<or> length pre - 1 = 1 \<or> length pre - 1 = 2 \<or> length pre - 1 = 3" by auto
  moreover have "0 < length pre" using \<open>pre \<noteq> []\<close> by simp
  ultimately show ?thesis by (auto simp: repo_excuse_limit_def)
qed

lemma saturating_one: "saturating_add 1 1 = 2"
  by (simp add: saturating_add_def)

lemma seen_iff:
  assumes "Some ` set xs = set pre - {None}"
  shows "k \<in> set xs \<longleftrightarrow> Some k \<in> set pre"
proof -
  have "k \<in> set xs \<longleftrightarrow> Some k \<in> Some ` set xs" by auto
  then show ?thesis by (simp add: assms)
qed

lemma streak_fresh:
  assumes "su_next_action m \<noteq> Some act"
  shows "spin_streak (Some act) k m =
    m\<lparr>su_streak := 1, su_seen_repo := (case k of Some x \<Rightarrow> [x] | None \<Rightarrow> []), su_excused := 0, su_next_action := Some act\<rparr>"
  using assms by (simp add: spin_streak_def Let_def)

lemma streak_excused:
  assumes "su_next_action m = Some act" "x \<notin> set (su_seen_repo m)" "su_excused m < repo_excuse_limit"
  shows "spin_streak (Some act) (Some x) m =
    m\<lparr>su_streak := 1, su_seen_repo := su_seen_repo m @ [x], su_excused := su_excused m + 1, su_next_action := Some act\<rparr>"
  using assms by (simp add: spin_streak_def Let_def)

lemma streak_repeated:
  assumes "su_next_action m = Some act" "\<And>x. k = Some x \<Longrightarrow> x \<in> set (su_seen_repo m) \<or> \<not> su_excused m < repo_excuse_limit"
  shows "su_streak (spin_streak (Some act) k m) = saturating_add (su_streak m) 1"
  using assms by (cases k) (auto simp: spin_streak_def Let_def)

lemma spin_invD:
  assumes "spin_inv act pre m" "pre \<noteq> []"
  shows "su_next_action m = Some act" "su_streak m = 1" "x \<in> set (su_seen_repo m) \<longleftrightarrow> Some x \<in> set pre"
    "Some ` set (su_seen_repo m) = set pre - {None}" "length pre \<le> 4" "su_excused m = of_nat (length pre - 1)"
    "su_excused m < repo_excuse_limit \<longleftrightarrow> length pre < 4"
  using assms seen_iff [of "su_seen_repo m" pre] excused_room [of pre] by (simp_all add: spin_inv_def)

lemma spin_step_stuck:
  assumes "spin_inv act pre m" "stuck_after pre k"
  shows "su_streak (spin_streak (Some act) k m) = 2"
proof -
  have pre: "pre \<noteq> []" using assms(2) by (simp add: stuck_after_def)
  note inv = spin_invD [OF assms(1) pre]
  have "su_streak (spin_streak (Some act) k m) = saturating_add (su_streak m) 1"
    by (rule streak_repeated [OF inv(1)]) (use assms(2) inv(3,7) in \<open>auto simp: stuck_after_def\<close>)
  then show ?thesis by (simp only: inv(2) saturating_one)
qed

lemma spin_step_roll:
  assumes "spin_inv act pre m" "\<not> stuck_after pre k"
  shows "su_streak (spin_streak (Some act) k m) = 1 \<and> spin_inv act (pre @ [k]) (spin_streak (Some act) k m)"
proof (cases "pre = []")
  case True
  then have "su_next_action m \<noteq> Some act" using assms(1) by (simp add: spin_inv_def)
  then show ?thesis unfolding True by (cases k) (simp_all add: streak_fresh spin_inv_def)
next
  case False
  note inv = spin_invD [OF assms(1) False]
  obtain x where x: "k = Some x" "Some x \<notin> set pre" "length pre < 4"
    using assms(2) False by (cases k) (auto simp: stuck_after_def)
  have eq: "spin_streak (Some act) k m =
      m\<lparr>su_streak := 1, su_seen_repo := su_seen_repo m @ [x], su_excused := su_excused m + 1, su_next_action := Some act\<rparr>"
    unfolding x(1) by (rule streak_excused [OF inv(1)]) (use x(2,3) inv(3,7) in auto)
  have count: "(of_nat (length pre - 1) :: u32) + 1 = of_nat (length pre)"
    using False by (metis Suc_pred' add.commute length_greater_0_conv of_nat_Suc)
  show ?thesis unfolding eq using False x count inv(4,6) by (auto simp: spin_inv_def)
qed

lemma spin_inv_cong:
  "su_next_action m' = su_next_action m \<Longrightarrow> su_streak m' = su_streak m \<Longrightarrow> su_seen_repo m' = su_seen_repo m \<Longrightarrow>
     su_excused m' = su_excused m \<Longrightarrow> spin_inv act pre m' = spin_inv act pre m"
  by (simp add: spin_inv_def)

lemma continue_poll:
  assumes "agent_of s a = Some m" "su_child m \<noteq> None" "continues_on act ob"
  shows "poll_with_progress a ob s = roll_or_spin a m (Some act) (ob_repo ob) (ob_now ob) s"
  using assms
  by (auto simp: poll_with_progress_def classify_def continues_on_def on_clean_exit_def classify_status_def
      is_continue_status_def)

lemma spin_run:
  "agent_of s a = Some m \<Longrightarrow> su_child m \<noteq> None \<Longrightarrow> bm_ok (sv_agents s) \<Longrightarrow> spin_inv act pre m \<Longrightarrow>
     (\<forall>(ob, env) \<in> set runs. continues_on act ob \<and> restarts_in a (su_spec m) (sv_policy s) ob env) \<Longrightarrow>
     spin_sessions a runs s = (outs, s') \<Longrightarrow>
     (case first_stuck pre (map (ob_repo \<circ> fst) runs) of
        None \<Rightarrow> outs = replicate (length runs) Rolling \<and> is_running s' a
      | Some n \<Rightarrow> outs = replicate n Rolling @ [Blocked (spin_reason 2) True] \<and> \<not> is_registered s' a)"
proof (induction runs arbitrary: s m pre outs)
  case Nil
  then show ?case by (auto simp: is_running_def)
next
  case (Cons r rest)
  obtain ob env where r: "r = (ob, env)" by fastforce
  have ok: "continues_on act ob" "restarts_in a (su_spec m) (sv_policy s) ob env"
    using Cons.prems(5) by (simp_all add: r)
  let ?m = "spin_streak (Some act) (ob_repo ob) m"
  note poll = continue_poll [OF Cons.prems(1,2) ok(1)]
  show ?case
  proof (cases "stuck_after pre (ob_repo ob)")
    case True
    then have "poll_with_progress a ob s = (Blocked (spin_reason 2) True, [], drop_agent a s)"
      using poll spin_step_stuck [OF Cons.prems(4)] by (simp add: roll_or_spin_def Let_def stall_limit_def)
    then show ?thesis using Cons.prems(6) True by (auto simp: r is_registered_def)
  next
    case False
    let ?m1 = "?m\<lparr>su_child := None, su_failures := 0, su_not_before := ob_now ob\<rparr>"
    have p1: "poll_with_progress a ob s = (Rolling, [], put_agent a ?m1 s)"
      using poll spin_step_roll [OF Cons.prems(4) False] by (simp add: roll_or_spin_def Let_def stall_limit_def roll_def word_le_nat_alt)
    let ?s1 = "put_agent a ?m1 s"
    obtain rs fx2 s2 where t: "tick_with env ?s1 = (rs, fx2, s2)" by (metis prod_cases3)
    obtain outs2 where rec: "spin_sessions a rest s2 = (outs2, s')" "outs = Rolling # outs2"
      using Cons.prems(6) p1 t by (auto simp: r split: prod.splits)
    obtain c where c: "te_spawn env (su_spec m) = Inr c" using ok(2) by (auto simp: restarts_in_def is_ok_conv split: sum.splits)
    let ?m2 = "?m1\<lparr>su_child := Some c\<rparr>"
    have two: "agent_of s2 a = Some ?m2"
      using tick_restarts [OF t, of a ?m1 c] ok(2) c Cons.prems(3) by (simp add: restarts_in_def bm_ok_put)
    have policy: "sv_policy s2 = sv_policy s"
      using reroll_all_frame [of env "down_members ?s1" ?s1] t by (simp add: tick_with_def)
    have inv: "spin_inv act (pre @ [ob_repo ob]) ?m2"
      using spin_step_roll [OF Cons.prems(4) False, THEN conjunct2] by (rule spin_inv_cong [THEN iffD2, rotated -1]) simp_all
    have "bm_ok (sv_agents s2)"
      using ok_reroll [of env "down_members ?s1" ?s1] t Cons.prems(3) by (simp add: tick_with_def bm_ok_put)
    from Cons.IH [OF two _ this inv _ rec(1)]
    show ?thesis using Cons.prems(5) policy False rec(2) by (auto simp: r split: option.splits)
  qed
qed

text \<open>
  C15. The spin guard, exactly. A running member ends one session after the other on a continue status
  with one and the same next action and is restarted in between. It is rolled until the first
  session whose repository cannot be read, or shows a state an earlier session of this run already
  showed, or is the fifth; that session releases it as stuck. So the guard never trips on the first
  session, trips on the second without a repository signal, and no member runs more than five
  sessions on an unchanged next action whatever its repository does.
\<close>

theorem spin_guard_exact:
  assumes "agent_of s a = Some m" "su_child m \<noteq> None" "bm_ok (sv_agents s)" "su_next_action m \<noteq> Some act"
    and "\<forall>(ob, env) \<in> set runs. continues_on act ob \<and> restarts_in a (su_spec m) (sv_policy s) ob env"
    and "spin_sessions a runs s = (outs, s')"
  shows "(case first_stuck [] (map (ob_repo \<circ> fst) runs) of
       None \<Rightarrow> outs = replicate (length runs) Rolling \<and> is_running s' a
     | Some n \<Rightarrow> outs = replicate n Rolling @ [Blocked (spin_reason 2) True] \<and> \<not> is_registered s' a) \<and>
    length outs \<le> 5 \<and> (4 < length runs \<longrightarrow> \<not> is_registered s' a)"
  using spin_run [OF assms(1-3) _ assms(5,6), of "[]"] assms(4) first_stuck_bound [of "[]" "map (ob_repo \<circ> fst) runs"]
  by (auto simp: spin_inv_def split: option.splits)

definition demo_stint :: "64 word \<Rightarrow> int \<Rightarrow> child \<Rightarrow> observation \<times> tick_env" where
  "demo_stint k now c = ((demo_exit 0 now)\<lparr>ob_repo := Some (Some ''c0ffee'', k)\<rparr>, demo_tick now c)"

definition demo_stints :: "(observation \<times> tick_env) list" where
  "demo_stints = [demo_stint 1 30 11, demo_stint 2 40 12, demo_stint 1 50 13, demo_stint 3 60 14]"

theorem spin_guard_exact_witness:
  "fst (spin_sessions ''m2'' demo_stints (fst demo_fleet)) = [Rolling, Rolling, Blocked (spin_reason 2) True] \<and>
   \<not> is_registered (snd (spin_sessions ''m2'' demo_stints (fst demo_fleet))) ''m2''"
proof -
  let ?m = "new_member (demo_spec ''m2'') 2 1"
  let ?r = "spin_sessions ''m2'' demo_stints (fst demo_fleet)"
  have policy: "sv_policy (fst demo_fleet) = policy_default" by code_simp
  have admit: "decide policy_default Roll 0 demo_budget demo_rate = Admit" by code_simp
  have runs: "\<forall>(ob, env) \<in> set demo_stints. continues_on ''fix the build'' ob \<and>
      restarts_in ''m2'' (su_spec ?m) (sv_policy (fst demo_fleet)) ob env"
    unfolding policy
    by (simp add: demo_stints_def demo_stint_def continues_on_def restarts_in_def demo_exit_def demo_tick_def admit)
  have keys: "first_stuck [] (map (ob_repo \<circ> fst) demo_stints) = Some 2" by code_simp
  show ?thesis
    using spin_guard_exact [OF demo_member _ demo_fleet_ok _ runs, of "fst ?r" "snd ?r"] keys
    by (simp add: new_member_def numeral_2_eq_2)
qed

end
