(* ===== verification/Baton_Props.thy ===== *)
theory Baton_Props
  imports Baton
begin

text \<open>
  What the batons guarantee: a seeded baton reads back as its fields, passes the head check, is kept
  by a second seed and classifies as a continue; the head check accepts exactly the heads the
  supervisor can act on.
\<close>

section \<open>Texts of whole lines\<close>

definition plain_line :: "string \<Rightarrow> bool" where
  "plain_line s \<longleftrightarrow> newline \<notin> set s \<and> CHR 0x0D \<notin> set s"

lemma plain_line_simps [simp]:
  "plain_line []" "plain_line (c # s) \<longleftrightarrow> c \<noteq> newline \<and> c \<noteq> CHR 0x0D \<and> plain_line s"
  "plain_line (s @ t) \<longleftrightarrow> plain_line s \<and> plain_line t"
  by (auto simp: plain_line_def)

lemma strip_cr_plain_line: "plain_line l \<Longrightarrow> strip_cr l = l"
  by (auto simp: strip_cr_def plain_line_def dest: last_in_set)

lemma text_lines_unlines: "list_all plain_line ls \<Longrightarrow> text_lines (unlines (ls @ rest)) = ls @ text_lines (unlines rest)"
proof (induction ls)
  case (Cons l ls)
  have "newline \<notin> set l" using Cons.prems by (simp add: plain_line_def)
  then have "text_lines (l @ newline # unlines (ls @ rest)) = strip_cr l # text_lines (unlines (ls @ rest))"
    by (rule text_lines_cons)
  then show ?case using Cons by (simp add: unlines_def strip_cr_plain_line)
qed simp

lemma trim_end_keep [simp]: "\<not> p c \<Longrightarrow> trim_end_matches p (c # s) = c # trim_end_matches p s"
  by (simp add: trim_end_matches_def dropWhile_append)

lemma trim_end_space [simp]:
  assumes "p c"
  shows "trim_end_matches p (c # s) = (case trim_end_matches p s of [] \<Rightarrow> [] | d # r \<Rightarrow> c # d # r)"
proof (cases "dropWhile p (rev s) = []")
  case True
  then have "\<forall>x \<in> set s. p x" by (simp add: dropWhile_eq_Nil_conv)
  then show ?thesis by (simp add: trim_end_matches_def dropWhile_append True assms)
next
  case False
  then have "\<exists>x \<in> set s. \<not> p x" by (simp add: dropWhile_eq_Nil_conv)
  then show ?thesis using False by (auto simp: trim_end_matches_def dropWhile_append split: list.split)
qed

lemma trim_end_Nil [simp]: "trim_end_matches p [] = []"
  by (simp add: trim_end_matches_def)

lemma trim_Cons [simp]:
  "is_space c \<Longrightarrow> trim (c # s) = trim s" "\<not> is_space c \<Longrightarrow> trim (c # s) = c # trim_end_matches is_space s"
  by (simp_all add: trim_def trim_start_def)

lemma trim_Nil [simp]: "trim [] = []"
  by (simp add: trim_def trim_start_def)

lemma strip_prefix_Cons [simp]:
  "strip_prefix [] s = Some s" "strip_prefix (p # ps) [] = None"
  "strip_prefix (p # ps) (c # cs) = (if p = c then strip_prefix ps cs else None)"
  by (auto simp: strip_prefix_def starts_with_def)

lemma starts_with_Cons [simp]:
  "starts_with [] s" "\<not> starts_with (p # ps) []" "starts_with (p # ps) (c # cs) \<longleftrightarrow> p = c \<and> starts_with ps cs"
  by (auto simp: starts_with_def)

definition field_value :: "string \<Rightarrow> bool" where
  "field_value v \<longleftrightarrow> plain_line v \<and> trimmed v \<and> v \<noteq> ''null''"

lemma field_value_cases:
  assumes "field_value v"
  obtains d r where "v = d # r" "\<not> is_space d" "trim_end_matches is_space r = r" "d # r \<noteq> ''null''" "plain_line (d # r)"
proof -
  have trimmed_end: "trim_end_matches is_space v = v"
    using assms by (simp add: field_value_def trimmed_def trim_end_matches_def dropWhile_not_hd hd_rev)
  obtain d r where v: "v = d # r" "\<not> is_space d" using assms by (cases v) (auto simp: field_value_def trimmed_def)
  have "trim_end_matches is_space r = r" using trimmed_end v by simp
  then show ?thesis using that v assms by (simp add: field_value_def)
qed

lemma join_snoc: "ls \<noteq> [] \<Longrightarrow> join sep (ls @ [l]) = join sep ls @ sep @ l"
  by (induction sep ls rule: join.induct) auto

lemma hd_join: "ls \<noteq> [] \<Longrightarrow> hd ls \<noteq> [] \<Longrightarrow> join sep ls \<noteq> [] \<and> hd (join sep ls) = hd (hd ls)"
  by (induction sep ls rule: join.induct) auto

lemma last_join: "ls \<noteq> [] \<Longrightarrow> last ls \<noteq> [] \<Longrightarrow> join sep ls \<noteq> [] \<and> last (join sep ls) = last (last ls)"
  by (induction sep ls rule: join.induct) (auto simp: last_append split: if_splits)

text \<open>A section body whose last line is blank is its other lines.\<close>

lemma trim_section:
  assumes "ls \<noteq> []" "hd ls \<noteq> []" "\<not> is_space (hd (hd ls))" "last ls \<noteq> []" "\<not> is_space (last (last ls))"
  shows "trim (join [newline] (ls @ [[]])) = join [newline] ls" and "join [newline] ls \<noteq> []"
proof -
  have t: "trimmed (join [newline] ls)"
    using assms hd_join [of ls "[newline]"] last_join [of ls "[newline]"] by (simp add: trimmed_def)
  then have "trim_start (join [newline] ls @ [newline]) = join [newline] ls @ [newline]"
    by (simp add: trimmed_def trim_start_def dropWhile_not_hd)
  then show "trim (join [newline] (ls @ [[]])) = join [newline] ls" and "join [newline] ls \<noteq> []"
    using t assms(1)
    by (simp_all add: join_snoc trim_def trimmed_def trim_end_matches_def is_space_def newline_def dropWhile_not_hd hd_rev)
qed

section \<open>Seeds\<close>

lemma plain_line_code [simp]: "plain_line (quoted_code s) \<longleftrightarrow> plain_line s" "plain_line long_dash"
  by (simp_all add: quoted_code_def long_dash_def newline_def)

lemma vocabulary_line: "plain_line (join '' / '' status_vocabulary)"
  by (simp add: status_vocabulary_def newline_def)

lemma action_lines: "plain_line agent \<Longrightarrow> plain_line queue \<Longrightarrow> plain_line part \<Longrightarrow> list_all plain_line (seed_action agent queue part)"
  by (simp add: seed_action_def vocabulary_line newline_def del: join.simps)

lemma action_plain:
  "takeWhile (\<lambda>l. \<not> starts_with ''# '' l) (seed_action agent queue part @ [] # (CHR ''#'' # CHR '' '' # l) # ls) =
     seed_action agent queue part @ [[]]"
  by (simp add: seed_action_def quoted_code_def)

lemma action_trim:
  "trim (join [newline] (seed_action agent queue part @ [[]])) = join [newline] (seed_action agent queue part)"
  "join [newline] (seed_action agent queue part) \<noteq> []"
  by (intro trim_section; simp add: seed_action_def is_space_def del: join.simps)+

definition member_view :: "string \<Rightarrow> string \<Rightarrow> string \<Rightarrow> baton_view" where
  "member_view agent queue part =
     \<lparr>bv_status = Some ''IN_PROGRESS'', bv_item = Some part, bv_slice = None, bv_iteration = Some 0,
      bv_next_action = Some (join [newline] (seed_action agent queue part))\<rparr>"

definition entry_view_of_seed :: "string \<Rightarrow> baton_view" where
  "entry_view_of_seed entry_id =
     \<lparr>bv_status = Some ''IN_PROGRESS'', bv_item = Some entry_id, bv_slice = None, bv_iteration = Some 0,
      bv_next_action = Some entry_action\<rparr>"

text \<open>
  The readers of a text that opens with a head, goes on with plain lines to the heading of the next
  action and closes that section with another heading.
\<close>

lemma head_lines_split:
  "list_all (\<lambda>l. trim l \<noteq> fence) head \<Longrightarrow> head_lines (fence # head @ fence # rest) = map trim head"
  by (simp add: head_lines_def takeWhile_append2 list_all_iff fence_def is_space_def)

lemma section_split:
  "list_all (\<lambda>l. trim l \<noteq> heading) pre \<Longrightarrow> trim h = heading \<Longrightarrow> list_all (\<lambda>l. \<not> starts_with ''# '' l) body \<Longrightarrow>
     starts_with ''# '' l \<Longrightarrow> section_lines heading (pre @ h # body @ l # rest) = body"
  by (simp add: section_lines_def dropWhile_append2 takeWhile_append2 list_all_iff)

lemma read_zero: "parse_u64 ''0'' = Some 0"
  by (simp add: parse_u64_def is_digit_def digits_val_def digit_val_def)

lemma seed_fields:
  assumes "field_value part"
  shows "fold head_field (map trim (seed_head garden agent queue part path)) empty_view =
     \<lparr>bv_status = Some ''IN_PROGRESS'', bv_item = Some part, bv_slice = None, bv_iteration = Some 0, bv_next_action = None\<rparr>"
proof -
  obtain d r where "part = d # r" "\<not> is_space d" "trim_end_matches is_space r = r" "d # r \<noteq> ''null''"
    using assms by (rule field_value_cases)
  then show ?thesis by (simp add: seed_head_def head_field_def empty_view_def is_space_def read_zero)
qed

lemma seed_head_plain:
  "list_all (\<lambda>l. trim l \<noteq> fence \<and> trim l \<noteq> ''# NEXT ACTION'') (seed_head garden agent queue part path)"
  by (simp add: seed_head_def fence_def is_space_def)

lemma action_no_heading: "list_all (\<lambda>l. \<not> starts_with ''# '' l) (seed_action agent queue part @ [[]])"
  by (simp add: seed_action_def quoted_code_def)

lemma seed_text:
  assumes "plain_line garden" "plain_line agent" "plain_line queue" "plain_line part" "plain_line path"
  shows "text_lines (seed_baton garden agent queue part path) =
    (fence # seed_head garden agent queue part path @ fence #
      [[], ''> YOUR BATON FILE '' @ long_dash @ '' rewrite THIS exact path at every handoff: '' @ path, []] @
      ''# NEXT ACTION'' # (seed_action agent queue part @ [[]]) @ ''# MISSION'' # text_lines (unlines (seed_rest agent part)))"
proof -
  have "list_all plain_line (fence # seed_head garden agent queue part path @ [fence, [],
      ''> YOUR BATON FILE '' @ long_dash @ '' rewrite THIS exact path at every handoff: '' @ path, [],
      ''# NEXT ACTION''] @ seed_action agent queue part @ [[], ''# MISSION''])"
    using assms by (simp add: seed_head_def action_lines fence_def newline_def)
  from text_lines_unlines [OF this, of "seed_rest agent part"] show ?thesis
    by (simp add: seed_baton_def seed_lines_def del: append_Cons)
qed

lemma seed_parses:
  assumes "plain_line garden" "plain_line agent" "plain_line queue" "field_value part" "plain_line path"
  shows "parse_baton (seed_baton garden agent queue part path) = member_view agent queue part"
proof -
  have read: "text_lines (seed_baton garden agent queue part path) =
    (fence # seed_head garden agent queue part path @ fence #
      [[], ''> YOUR BATON FILE '' @ long_dash @ '' rewrite THIS exact path at every handoff: '' @ path, []] @
      ''# NEXT ACTION'' # (seed_action agent queue part @ [[]]) @ ''# MISSION'' # text_lines (unlines (seed_rest agent part)))"
    by (rule seed_text) (use assms in \<open>simp_all add: field_value_def\<close>)
  let ?anchor = "''> YOUR BATON FILE '' @ long_dash @ '' rewrite THIS exact path at every handoff: '' @ path"
  let ?pre = "fence # seed_head garden agent queue part path @ [fence, [], ?anchor, []]"
  have "list_all (\<lambda>l. trim l \<noteq> ''# NEXT ACTION'') ?pre"
    using seed_head_plain [of garden agent queue part path]
    by (simp add: list_all_iff fence_def is_space_def)
  from section_split [OF this _ action_no_heading, where h = "''# NEXT ACTION''" and l = "''# MISSION''"
      and rest = "text_lines (unlines (seed_rest agent part))"]
  have sec: "section_lines ''# NEXT ACTION'' (text_lines (seed_baton garden agent queue part path)) =
      seed_action agent queue part @ [[]]"
    unfolding read by (simp add: is_space_def)
  have head: "head_lines (text_lines (seed_baton garden agent queue part path)) =
      map trim (seed_head garden agent queue part path)"
    unfolding read by (rule head_lines_split) (use seed_head_plain in \<open>simp add: list_all_iff\<close>)
  show ?thesis
    by (simp only: parse_baton_def extract_section_def sec head seed_fields [OF assms(4)] action_trim Let_def if_False)
      (simp add: member_view_def)
qed

text \<open>The seed of an entry, by the same readers.\<close>

lemma entry_fields:
  assumes "field_value entry_id"
  shows "fold head_field (map trim (seed_entry_head garden entry_id path)) empty_view =
     \<lparr>bv_status = Some ''IN_PROGRESS'', bv_item = Some entry_id, bv_slice = None, bv_iteration = Some 0,
      bv_next_action = None\<rparr>"
proof -
  obtain d r where "entry_id = d # r" "\<not> is_space d" "trim_end_matches is_space r = r" "d # r \<noteq> ''null''"
    using assms by (rule field_value_cases)
  then show ?thesis by (simp add: seed_entry_head_def head_field_def empty_view_def is_space_def read_zero)
qed

lemma entry_head_plain:
  "list_all (\<lambda>l. trim l \<noteq> fence \<and> trim l \<noteq> ''# NEXT ACTION'') (seed_entry_head garden entry_id path)"
  by (simp add: seed_entry_head_def fence_def is_space_def)

lemma entry_notes_plain: "list_all (\<lambda>l. trim l \<noteq> ''# NEXT ACTION'') (entry_notes entry_id path)"
  by (simp add: entry_notes_def is_space_def)

lemma entry_action_line: "plain_line entry_action" "trim (join [newline] [entry_action, []]) = entry_action" "entry_action \<noteq> []"
    "\<not> starts_with ''# '' entry_action"
  by (simp_all add: entry_action_def long_dash_def newline_def is_space_def)

lemma seed_entry_text:
  assumes "plain_line garden" "plain_line entry_id" "plain_line path"
  shows "text_lines (seed_entry_baton garden entry_id branch base path) =
    (fence # seed_entry_head garden entry_id path @ fence # entry_notes entry_id path) @
      ''# NEXT ACTION'' # [entry_action, []] @ ''# FIRST STEP'' # text_lines (unlines (seed_entry_rest entry_id branch base))"
proof -
  have "list_all plain_line (fence # seed_entry_head garden entry_id path @ fence # entry_notes entry_id path @
      [''# NEXT ACTION'', entry_action, [], ''# FIRST STEP''])"
    using assms by (simp add: seed_entry_head_def entry_notes_def fence_def newline_def entry_action_line)
  from text_lines_unlines [OF this, of "seed_entry_rest entry_id branch base"] show ?thesis
    by (simp add: seed_entry_baton_def seed_entry_lines_def del: append_Cons)
qed

lemma seed_entry_parses:
  assumes "plain_line garden" "field_value entry_id" "plain_line path"
  shows "parse_baton (seed_entry_baton garden entry_id branch base path) = entry_view_of_seed entry_id"
proof -
  have read: "text_lines (seed_entry_baton garden entry_id branch base path) =
    (fence # seed_entry_head garden entry_id path @ fence # entry_notes entry_id path) @
      ''# NEXT ACTION'' # [entry_action, []] @ ''# FIRST STEP'' # text_lines (unlines (seed_entry_rest entry_id branch base))"
    by (rule seed_entry_text) (use assms in \<open>simp_all add: field_value_def\<close>)
  have "list_all (\<lambda>l. trim l \<noteq> ''# NEXT ACTION'')
      (fence # seed_entry_head garden entry_id path @ fence # entry_notes entry_id path)"
    using entry_head_plain [of garden entry_id path] entry_notes_plain [of entry_id path]
    by (auto simp: list_all_iff fence_def is_space_def)
  from section_split [OF this, where h = "''# NEXT ACTION''" and l = "''# FIRST STEP''" and body = "[entry_action, []]"
      and rest = "text_lines (unlines (seed_entry_rest entry_id branch base))"]
  have sec: "section_lines ''# NEXT ACTION'' (text_lines (seed_entry_baton garden entry_id branch base path)) =
      [entry_action, []]"
    unfolding read by (simp add: is_space_def entry_action_line)
  have head: "head_lines (text_lines (seed_entry_baton garden entry_id branch base path)) =
      map trim (seed_entry_head garden entry_id path)"
    unfolding read append_Cons append_assoc by (rule head_lines_split) (use entry_head_plain in \<open>simp add: list_all_iff\<close>)
  show ?thesis
    by (simp only: parse_baton_def extract_section_def sec head entry_fields [OF assms(2)] entry_action_line Let_def if_False)
      (simp add: entry_view_of_seed_def)
qed

section \<open>The head check\<close>

lemma validate_head_Inr:
  "validate_head baton expected = Inr view \<longleftrightarrow>
     (\<exists>l rest. text_lines baton = l # rest \<and> trim l = fence \<and> (\<exists>r \<in> set rest. trim r = fence)) \<and>
     view = parse_baton baton \<and> bv_item view \<noteq> None \<and>
     (\<exists>s. bv_status view = Some s \<and> s \<in> set status_vocabulary \<and> s \<in> set expected)"
proof (cases "text_lines baton")
  case (Cons l rest)
  then show ?thesis
    by (cases "trim l = fence"; cases "list_ex (\<lambda>l. trim l = fence) rest"; cases "bv_status (parse_baton baton)")
      (auto simp: validate_head_def Let_def list_ex_iff simp del: join.simps split: if_split_asm)
qed (simp add: validate_head_def Let_def)

section \<open>The stores\<close>

lemma member_write_file [simp]:
  "bf_text (member_file (member_write agent b now st) agent) = Some b"
  "bs_entries (member_write agent b now st) = bs_entries st"
  by (simp_all add: member_write_def member_file_def)

lemma store_seed_keeps:
  assumes "bf_text (member_file st agent) = Some b" "bv_item (parse_baton b) = Some part"
  shows "store_seed garden mp agent queue part now st = (Kept (bf_mtime (member_file st agent)), st)"
  using assms by (simp add: store_seed_def member_seed_def)

lemma store_seed_replaces:
  assumes "bf_text (member_file st agent) = Some b" "bv_item (parse_baton b) \<noteq> Some part"
  shows "bf_text (member_file (snd (store_seed garden mp agent queue part now st)) agent) =
    Some (seed_baton garden agent queue part (mp agent))"
  using assms by (simp add: store_seed_def member_seed_def)

lemma store_seed_item:
  assumes "store_seed garden mp agent queue part now st = (out, st')"
    and "bv_item (parse_baton (seed_baton garden agent queue part (mp agent))) = Some part"
  shows "\<exists>b. bf_text (member_file st' agent) = Some b \<and> bv_item (parse_baton b) = Some part"
  using assms by (auto simp: store_seed_def member_seed_def split: option.splits if_splits)

text \<open>
  C40. A seeded baton is a baton, and the seeds keep what they should. Let the names of the garden,
  the agent, the queue and the two paths be single lines, and let the item be readable from a head
  line: one line, no space at its ends, not the word null. Then the text seeded for a member and the
  text seeded for an entry of that name read back as exactly their fields and next action, pass the
  head check of a continuing handoff, and classify as a continue, so a member that exits before
  writing anything is rolled on the same item. After a member's seed a second seed of the same item
  leaves both stores as they are, on whatever queue, and a seed of another item replaces the file. A
  seed of an entry always overwrites that entry's baton and touches nothing else. A start on an
  entry hands the member the entry's stored baton, or the seeded text when there was none.
\<close>

theorem seeded_baton_continues:
  assumes "plain_line garden" "plain_line agent" "plain_line queue" "field_value part"
    "plain_line (mp agent)" "plain_line (ep part)"
    and seeded: "store_seed garden mp agent queue part now st = (out, st')"
  shows "parse_baton (seed_baton garden agent queue part (mp agent)) = member_view agent queue part \<and>
    parse_baton (seed_entry_baton garden part branch base (ep part)) = entry_view_of_seed part \<and>
    validate_head (seed_baton garden agent queue part (mp agent)) [''IN_PROGRESS''] = Inr (member_view agent queue part) \<and>
    validate_head (seed_entry_baton garden part branch base (ep part)) [''IN_PROGRESS''] = Inr (entry_view_of_seed part) \<and>
    classify_status (bv_status (member_view agent queue part)) = Continue \<and>
    store_seed garden mp agent queue2 part now2 st' = (Kept (bf_mtime (member_file st' agent)), st') \<and>
    (part2 \<noteq> part \<longrightarrow> bf_text (member_file (snd (store_seed garden mp agent queue2 part2 now2 st')) agent) =
       Some (seed_baton garden agent queue2 part2 (mp agent))) \<and>
    entry_seed garden ep part branch base st =
      st\<lparr>bs_entries := (bs_entries st)(part \<mapsto> seed_entry_baton garden part branch base (ep part))\<rparr> \<and>
    copy_entry_baton garden ep part agent now st =
      (case bs_entries st part of
         Some b \<Rightarrow> Inr (member_write agent b now st)
       | None \<Rightarrow> Inr (member_write agent (seed_entry_baton garden part None None (ep part)) now
           (entry_seed garden ep part None None st)))"
proof -
  note m = seed_parses [OF assms(1-5)]
  note e = seed_entry_parses [OF assms(1,4,6), of branch base]
  have part: "plain_line part" using assms(4) by (simp add: field_value_def)
  have head: "validate_head (seed_baton garden agent queue part (mp agent)) [''IN_PROGRESS''] = Inr (member_view agent queue part)"
    unfolding validate_head_Inr m seed_text [OF assms(1-3) part assms(5)]
    by (simp add: fence_def member_view_def status_vocabulary_def is_space_def)
  have entry: "validate_head (seed_entry_baton garden part branch base (ep part)) [''IN_PROGRESS''] = Inr (entry_view_of_seed part)"
    unfolding validate_head_Inr e seed_entry_text [OF assms(1) part assms(6)]
    by (simp add: fence_def entry_view_of_seed_def status_vocabulary_def is_space_def)
  have rolls: "classify_status (bv_status (member_view agent queue part)) = Continue"
    by (simp add: member_view_def classify_status_def is_continue_status_def)
  obtain b where b: "bf_text (member_file st' agent) = Some b" "bv_item (parse_baton b) = Some part"
    using store_seed_item [OF seeded] by (auto simp: m member_view_def)
  note keep = store_seed_keeps [OF b]
  have fresh: "part2 \<noteq> part \<longrightarrow> bf_text (member_file (snd (store_seed garden mp agent queue2 part2 now2 st')) agent) =
      Some (seed_baton garden agent queue2 part2 (mp agent))"
    using store_seed_replaces [OF b(1)] b(2) by simp
  show ?thesis
    using m e head entry rolls keep fresh
    by (simp add: entry_seed_def entry_write_def copy_entry_baton_def split: option.split)
qed

definition demo_stores :: baton_stores where
  "demo_stores = \<lparr>bs_members = Map.empty, bs_entries = Map.empty\<rparr>"

theorem seeded_baton_continues_witness:
  "parse_baton (seed_baton ''garden'' ''m1'' ''core'' ''astro-view'' ''/run/m1/baton.md'') =
     member_view ''m1'' ''core'' ''astro-view'' \<and>
   classify_status (bv_status (member_view ''m1'' ''core'' ''astro-view'')) = Continue \<and>
   fst (store_seed ''garden'' (\<lambda>_. ''/run/m1/baton.md'') ''m1'' ''core'' ''astro-view'' 9
     (snd (store_seed ''garden'' (\<lambda>_. ''/run/m1/baton.md'') ''m1'' ''core'' ''astro-view'' 5 demo_stores))) = Kept (Some 5)"
proof -
  let ?seed = "\<lambda>now st. store_seed ''garden'' (\<lambda>_. ''/run/m1/baton.md'') ''m1'' ''core'' ''astro-view'' now st"
  have plain: "plain_line ''garden''" "plain_line ''m1''" "plain_line ''core''" "plain_line ''/run/m1/baton.md''"
    by (simp_all add: newline_def)
  have item: "field_value ''astro-view''" by (simp add: field_value_def newline_def trimmed_def is_space_def)
  have run: "?seed 5 demo_stores = (fst (?seed 5 demo_stores), snd (?seed 5 demo_stores))" by simp
  note all = seeded_baton_continues [OF plain(1-3) item plain(4) plain(4) run, where ?queue2.0 = "''core''" and ?now2.0 = 9]
  have "bf_mtime (member_file (snd (?seed 5 demo_stores)) ''m1'') = Some 5"
    by (simp add: store_seed_def member_seed_def member_file_def demo_stores_def member_write_def)
  with all show ?thesis by simp
qed

end
