(* ===== verification/Leases.thy ===== *)
theory Leases
  imports Sorted_Map
begin

text \<open>
  The lease table of the fleet daemon (\<^verbatim>\<open>crates/softfig-growlightd/src/leases.rs\<close>): one
  holder and a queue of waiters per key. The interface of a first-come line per key is a locale;
  what it promises over any sequence of operations is proved inside it and holds of the code's
  table by interpretation.
\<close>

section \<open>The table\<close>

datatype lease_decision = Granted | Queued nat
datatype release_outcome = Released "string option" | Not_Holder
datatype drain_outcome = Drained "string list" | Drain_Not_Holder

record lease =
  ls_holder :: string
  ls_waiters :: "string list"

type_synonym lease_table = "(string \<times> lease) list"

definition lease_request :: "string \<Rightarrow> string \<Rightarrow> lease_table \<Rightarrow> lease_decision \<times> lease_table" where
  "lease_request key agent t =
     (case map_of t key of
        None \<Rightarrow> (Granted, bm_insert key \<lparr>ls_holder = agent, ls_waiters = []\<rparr> t)
      | Some l \<Rightarrow>
          (if ls_holder l = agent then (Granted, t)
           else
             (case position (\<lambda>w. w = agent) (ls_waiters l) of
                Some pos \<Rightarrow> (Queued (pos + 1), t)
              | None \<Rightarrow>
                  (let ws = ls_waiters l @ [agent]
                   in (Queued (length ws), bm_insert key (l\<lparr>ls_waiters := ws\<rparr>) t)))))"

definition lease_release :: "string \<Rightarrow> string \<Rightarrow> lease_table \<Rightarrow> release_outcome \<times> lease_table" where
  "lease_release key agent t =
     (case map_of t key of
        Some l \<Rightarrow>
          (if ls_holder l = agent then
             (case ls_waiters l of
                w # ws \<Rightarrow> (Released (Some w), bm_insert key \<lparr>ls_holder = w, ls_waiters = ws\<rparr> t)
              | [] \<Rightarrow> (Released None, bm_remove key t))
           else (Not_Holder, t))
      | None \<Rightarrow> (Not_Holder, t))"

definition lease_drain :: "string \<Rightarrow> string \<Rightarrow> lease_table \<Rightarrow> drain_outcome \<times> lease_table" where
  "lease_drain key agent t =
     (case map_of t key of
        Some l \<Rightarrow> (if ls_holder l = agent then (Drained (ls_waiters l), bm_remove key t) else (Drain_Not_Holder, t))
      | None \<Rightarrow> (Drain_Not_Holder, t))"

definition lease_holder :: "lease_table \<Rightarrow> string \<Rightarrow> string option" where
  "lease_holder t key = map_option ls_holder (map_of t key)"

definition waiter_count :: "lease_table \<Rightarrow> string \<Rightarrow> nat" where
  "waiter_count t key = (case map_of t key of Some l \<Rightarrow> length (ls_waiters l) | None \<Rightarrow> 0)"

section \<open>First come, first served\<close>

text \<open>
  What any table of leases promises, told by the line of each key: its holder, then the waiters.
\<close>

locale lease_line =
  fixes line :: "'t \<Rightarrow> string \<Rightarrow> string list"
    and new_table :: 't
    and request :: "string \<Rightarrow> string \<Rightarrow> 't \<Rightarrow> lease_decision \<times> 't"
    and release :: "string \<Rightarrow> string \<Rightarrow> 't \<Rightarrow> release_outcome \<times> 't"
    and drain :: "string \<Rightarrow> string \<Rightarrow> 't \<Rightarrow> drain_outcome \<times> 't"
  assumes line_new: "line new_table k = []"
    and line_request: "line (snd (request k a t)) = (line t)(k := if a \<in> set (line t k) then line t k else line t k @ [a])"
    and request_granted: "fst (request k a t) = Granted \<longleftrightarrow> hd (line (snd (request k a t)) k) = a"
    and request_queued: "fst (request k a t) = Queued n \<Longrightarrow>
      0 < n \<and> n < length (line (snd (request k a t)) k) \<and> line (snd (request k a t)) k ! n = a"
    and line_release: "line (snd (release k a t)) =
      (if line t k \<noteq> [] \<and> hd (line t k) = a then (line t)(k := tl (line t k)) else line t)"
    and release_outcome: "fst (release k a t) =
      (if line t k \<noteq> [] \<and> hd (line t k) = a
       then Released (case tl (line t k) of [] \<Rightarrow> None | w # _ \<Rightarrow> Some w) else Not_Holder)"
    and line_drain: "line (snd (drain k a t)) =
      (if line t k \<noteq> [] \<and> hd (line t k) = a then (line t)(k := []) else line t)"

datatype lease_op = Request string string | Release string string | Drain string string

context lease_line begin

fun lease_do :: "lease_op \<Rightarrow> 't \<Rightarrow> 't" where
  "lease_do (Request k a) t = snd (request k a t)"
| "lease_do (Release k a) t = snd (release k a t)"
| "lease_do (Drain k a) t = snd (drain k a t)"

fun hands_on :: "string \<Rightarrow> lease_op \<Rightarrow> 't \<Rightarrow> bool" where
  "hands_on k (Release k' a) t \<longleftrightarrow> k' = k \<and> fst (release k' a t) \<noteq> Not_Holder"
| "hands_on k _ t \<longleftrightarrow> False"

fun served :: "string \<Rightarrow> lease_op list \<Rightarrow> 't \<Rightarrow> nat" where
  "served k [] t = 0"
| "served k (op # ops) t = (if hands_on k op t then 1 else 0) + served k ops (lease_do op t)"

lemma distinct_step: "distinct (line t k) \<Longrightarrow> distinct (line (lease_do op t) k)"
  by (cases op) (auto simp: line_request line_release line_drain distinct_tl)

lemma distinct_run: "distinct (line (fold lease_do ops new_table) k)"
proof -
  have "distinct (line t k) \<Longrightarrow> distinct (line (fold lease_do ops t) k)" for t
    by (induction ops arbitrary: t) (auto simp: distinct_step)
  then show ?thesis by (simp add: line_new)
qed

lemma line_step:
  assumes "\<forall>a. op \<noteq> Drain k a"
  shows "\<exists>extra. line (lease_do op t) k = drop (if hands_on k op t then 1 else 0) (line t k) @ extra"
  using assms by (cases op) (auto simp: line_request line_release line_drain release_outcome drop_Suc)

lemma in_order:
  "(\<forall>a. Drain k a \<notin> set ops) \<Longrightarrow> \<exists>extra. line (fold lease_do ops t) k = drop (served k ops t) (line t k) @ extra"
proof (induction ops arbitrary: t)
  case (Cons op ops)
  let ?n = "if hands_on k op t then 1 else 0" and ?m = "served k ops (lease_do op t)"
  have nodrain: "\<forall>a. op \<noteq> Drain k a" "\<forall>a. Drain k a \<notin> set ops" using Cons.prems by auto
  obtain e1 where e1: "line (lease_do op t) k = drop ?n (line t k) @ e1" using line_step [OF nodrain(1)] by blast
  obtain e2 where e2: "line (fold lease_do ops (lease_do op t)) k = drop ?m (line (lease_do op t) k) @ e2"
    using Cons.IH [OF nodrain(2)] by blast
  have "drop ?m (drop ?n (line t k) @ e1) = drop (?n + ?m) (line t k) @ drop (?m - length (drop ?n (line t k))) e1"
    by (simp add: add.commute)
  then show ?case using e1 e2 by simp
qed simp

lemma turn_comes:
  assumes "\<forall>a. Drain k a \<notin> set ops" "i < length (line t k)" "served k ops t = i"
  shows "line (fold lease_do ops t) k \<noteq> [] \<and> hd (line (fold lease_do ops t) k) = line t k ! i"
proof -
  obtain extra where "line (fold lease_do ops t) k = drop i (line t k) @ extra"
    using in_order [OF assms(1), of t] assms(3) by auto
  then show ?thesis using assms(2) by (simp add: hd_append hd_drop_conv_nth)
qed

end

section \<open>The code's table\<close>

definition lease_line_of :: "lease_table \<Rightarrow> string \<Rightarrow> string list" where
  "lease_line_of t k = (case map_of t k of Some l \<Rightarrow> ls_holder l # ls_waiters l | None \<Rightarrow> [])"

lemma map_of_removed: "map_of (bm_remove k xs) = (map_of xs)(k := None)"
  by (induction xs) (auto simp: bm_remove_def fun_eq_iff)

interpretation lt: lease_line lease_line_of "[]" lease_request lease_release lease_drain
proof unfold_locales
  show "fst (lease_request k a t) = Queued n \<Longrightarrow>
      0 < n \<and> n < length (lease_line_of (snd (lease_request k a t)) k) \<and>
      lease_line_of (snd (lease_request k a t)) k ! n = a" for k a t n
    by (auto simp: lease_request_def lease_line_of_def Let_def nth_append dest: position_Some
        split: option.splits if_splits)
qed (auto simp: lease_request_def lease_release_def lease_drain_def lease_line_of_def Let_def map_of_removed
    position_None fun_eq_iff dest: position_Some split: option.splits if_splits list.splits)

fun lease_step :: "lease_op \<Rightarrow> lease_table \<Rightarrow> lease_table" where
  "lease_step (Request k a) t = snd (lease_request k a t)"
| "lease_step (Release k a) t = snd (lease_release k a t)"
| "lease_step (Drain k a) t = snd (lease_drain k a t)"

text \<open>How often a run hands the lease of a key on or frees it.\<close>

fun releases_of :: "string \<Rightarrow> lease_op list \<Rightarrow> lease_table \<Rightarrow> nat" where
  "releases_of k [] t = 0"
| "releases_of k (op # ops) t =
     (case op of
        Release k' a \<Rightarrow> (if k' = k \<and> fst (lease_release k' a t) \<noteq> Not_Holder then 1 else 0)
      | _ \<Rightarrow> 0) + releases_of k ops (lease_step op t)"

lemma step_line: "lease_step = lt.lease_do"
proof (intro ext)
  show "lease_step op t = lt.lease_do op t" for op t by (cases op) simp_all
qed

lemma releases_served: "releases_of k ops t = lt.served k ops t"
  by (induction ops arbitrary: t) (auto simp: step_line split: lease_op.split)

lemma holder_line: "lease_holder t k = (case lease_line_of t k of [] \<Rightarrow> None | h # _ \<Rightarrow> Some h)"
  by (simp add: lease_holder_def lease_line_of_def split: option.split)

text \<open>
  C27. Leases are handed out first come, first served. In any table the operations produce, the
  holder and the waiters of a key are all different. A request answered with a grant makes the
  requester the holder; one answered with a position makes it the holder after exactly that many
  further releases of the key, whatever else is requested, released or drained in between, as long
  as the key itself is not drained. Nobody overtakes anybody and nobody waits twice.
\<close>

theorem leases_first_come:
  assumes "t = fold lease_step ops []"
  shows "distinct (lease_line_of t k) \<and>
    (fst (lease_request k a t) = Granted \<longleftrightarrow> lease_holder (snd (lease_request k a t)) k = Some a) \<and>
    (\<forall>n more. fst (lease_request k a t) = Queued n \<and> (\<forall>b. Drain k b \<notin> set more) \<and>
       releases_of k more (snd (lease_request k a t)) = n \<longrightarrow>
       lease_holder (fold lease_step more (snd (lease_request k a t))) k = Some a)"
proof (intro conjI allI impI)
  show "distinct (lease_line_of t k)" unfolding assms step_line by (rule lt.distinct_run)
  have "lease_line_of (snd (lease_request k a t)) k \<noteq> []" by (simp add: lt.line_request) (metis empty_iff set_empty)
  then show "fst (lease_request k a t) = Granted \<longleftrightarrow> lease_holder (snd (lease_request k a t)) k = Some a"
    using lt.request_granted [of k a t] by (simp add: holder_line split: list.split)
next
  fix n more
  assume h: "fst (lease_request k a t) = Queued n \<and> (\<forall>b. Drain k b \<notin> set more) \<and>
      releases_of k more (snd (lease_request k a t)) = n"
  let ?t = "snd (lease_request k a t)"
  have at: "n < length (lease_line_of ?t k)" "lease_line_of ?t k ! n = a" using lt.request_queued h by blast+
  show "lease_holder (fold lease_step more ?t) k = Some a"
    using lt.turn_comes [OF _ at(1), of more] h at(2)
    by (auto simp: step_line releases_served holder_line split: list.split)
qed

definition demo_table :: lease_table where
  "demo_table = fold lease_step [Request ''dock'' ''a'', Request ''dock'' ''b''] []"

definition demo_line :: "lease_op list" where
  "demo_line = [Release ''dock'' ''a'', Request ''dock'' ''a'', Release ''dock'' ''b'']"

theorem leases_first_come_witness:
  "fst (lease_request ''dock'' ''c'' demo_table) = Queued 2 \<and>
   lease_holder (fold lease_step demo_line (snd (lease_request ''dock'' ''c'' demo_table))) ''dock'' = Some ''c''"
proof -
  have told: "fst (lease_request ''dock'' ''c'' demo_table) = Queued 2" by code_simp
  have count: "releases_of ''dock'' demo_line (snd (lease_request ''dock'' ''c'' demo_table)) = 2" by code_simp
  have "\<forall>b. Drain ''dock'' b \<notin> set demo_line" by (simp add: demo_line_def)
  then show ?thesis
    using leases_first_come [OF demo_table_def, where k = "''dock''" and a = "''c''"] told count by blast
qed

end
