(* ===== verification/Notify.thy ===== *)
theory Notify
  imports Text_Lib "HOL-Library.Word"
begin

text \<open>
  The alerts of the fleet daemon (\<^verbatim>\<open>crates/softfig-growlightd/src/notifications.rs\<close>,
  \<^verbatim>\<open>notify_dispatch.rs\<close>): the events, their channels and identities, the cooldown of each
  identity with its growing reminders for a standing block, and the dispatch to the notifiers.
\<close>

section \<open>Events\<close>

datatype channel = Gui | Log | Phone

datatype notify_event =
    Usage "8 word"
  | Blocked_Item string
  | Spin_Guard_Parked string "32 word" "nat option"
  | Queue_Drained string
  | Slice_Complete string
  | Agent_Crashed string "string list" "string option"
  | Thrash_Detected string
  | Lease_Denied string string
  | Network_Offline int
  | Network_Recovered
  | Fleet_Parked nat

definition agent_crashed :: "string \<Rightarrow> notify_event" where
  "agent_crashed agent = Agent_Crashed agent [] None"

fun with_stderr_tail :: "string list \<Rightarrow> notify_event \<Rightarrow> notify_event" where
  "with_stderr_tail tail (Agent_Crashed a _ e) = Agent_Crashed a tail e"
| "with_stderr_tail tail ev = ev"

fun with_stdout_error :: "string option \<Rightarrow> notify_event \<Rightarrow> notify_event" where
  "with_stdout_error err (Agent_Crashed a t _) = Agent_Crashed a t err"
| "with_stdout_error err ev = ev"

fun is_human_attention :: "notify_event \<Rightarrow> bool" where
  "is_human_attention (Slice_Complete _) \<longleftrightarrow> False"
| "is_human_attention (Thrash_Detected _) \<longleftrightarrow> False"
| "is_human_attention (Lease_Denied _ _) \<longleftrightarrow> False"
| "is_human_attention Network_Recovered \<longleftrightarrow> False"
| "is_human_attention _ \<longleftrightarrow> True"

definition event_channels :: "notify_event \<Rightarrow> channel list" where
  "event_channels ev = [Gui, Log] @ (if is_human_attention ev then [Phone] else [])"

fun dedup_key :: "notify_event \<Rightarrow> string" where
  "dedup_key (Usage _) = ''usage''"
| "dedup_key (Blocked_Item item) = ''blocked:'' @ item"
| "dedup_key (Spin_Guard_Parked item _ _) = ''stuck:'' @ item"
| "dedup_key (Queue_Drained queue) = ''queue-empty:'' @ queue"
| "dedup_key (Slice_Complete part) = ''slice-complete:'' @ part"
| "dedup_key (Agent_Crashed agent _ _) = ''agent-crashed:'' @ agent"
| "dedup_key (Thrash_Detected target) = ''thrash:'' @ target"
| "dedup_key (Lease_Denied key agent) = ''lease-denied:'' @ key @ '':'' @ agent"
| "dedup_key (Network_Offline _) = ''network-offline''"
| "dedup_key Network_Recovered = ''network-recovered''"
| "dedup_key (Fleet_Parked _) = ''fleet-parked''"

definition tick_quoted :: "string \<Rightarrow> string" where
  "tick_quoted s = [CHR 0x60] @ s @ [CHR 0x60]"

definition alert_dash :: string where "alert_dash = [CHR '' '', CHR 0xE2, CHR 0x80, CHR 0x94, CHR '' '']"

definition show_signed :: "int \<Rightarrow> string" where
  "show_signed i = (if i < 0 then ''-'' @ show_nat (nat (- i)) else show_nat (nat i))"

fun summary :: "notify_event \<Rightarrow> string" where
  "summary (Usage pct) = ''5h budget at '' @ show_nat (unat pct) @ ''%''"
| "summary (Blocked_Item item) = tick_quoted item @ '' is blocked on a human decision''"
| "summary (Spin_Guard_Parked item sessions dirty) =
     tick_quoted item @ '' stuck (spin guard): '' @ show_nat (unat sessions) @
     '' sessions ended with no new handoff'' @ alert_dash @
     (case dirty of
        None \<Rightarrow> ''repo unknown''
      | Some k \<Rightarrow> (if k = 0 then ''repo clean'' else if k = 1 then ''repo dirty: 1 file''
                  else ''repo dirty: '' @ show_nat k @ '' files''))"
| "summary (Queue_Drained queue) = ''queue '' @ tick_quoted queue @ '' is empty'' @ alert_dash @ ''no workable part''"
| "summary (Slice_Complete part) = ''slice '' @ tick_quoted part @ '' complete''"
| "summary (Agent_Crashed agent tail err) =
     (let ls = (case err of Some e \<Rightarrow> [e] | None \<Rightarrow> []) @ tail in
      if ls = [] then ''agent '' @ tick_quoted agent @ '' crashed''
      else ''agent '' @ tick_quoted agent @ '' crashed: '' @
        join [CHR '' '', CHR 0xE2, CHR 0x8F, CHR 0x8E, CHR '' ''] ls)"
| "summary (Thrash_Detected target) = ''thrash detected on '' @ target"
| "summary (Lease_Denied key agent) = ''lease '' @ tick_quoted key @ '' denied to '' @ tick_quoted agent"
| "summary (Network_Offline secs) = ''network offline for '' @ show_signed secs @ ''s'' @ alert_dash @ ''fleet spawns held''"
| "summary Network_Recovered = ''network recovered'' @ alert_dash @ ''fleet spawns resumed''"
| "summary (Fleet_Parked members) =
     ''growlightd stopped while the fleet was armed'' @ alert_dash @ show_nat members @
     '' member(s) parked; Restart=on-failure will NOT revive it, so restart softfig-growlightd or unlock the garden to re-arm''"

section \<open>The policy\<close>

definition default_cooldown_secs :: int where "default_cooldown_secs = 1800"

definition blocked_ladder :: "int list" where
  "blocked_ladder = [1800, 7200, 28800, 86400]"

record fire_stamp =
  fi_at :: int
  fi_times :: "32 word"

record notify_policy =
  np_cooldown :: int
  np_fired :: "string \<rightharpoonup> fire_stamp"

definition notify_policy_new :: "int \<Rightarrow> notify_policy" where
  "notify_policy_new cooldown = \<lparr>np_cooldown = cooldown, np_fired = (\<lambda>_. None)\<rparr>"

fun is_block :: "notify_event \<Rightarrow> bool" where
  "is_block (Blocked_Item _) \<longleftrightarrow> True"
| "is_block (Spin_Guard_Parked _ _ _) \<longleftrightarrow> True"
| "is_block _ \<longleftrightarrow> False"

definition cooldown_for :: "notify_policy \<Rightarrow> notify_event \<Rightarrow> 32 word \<Rightarrow> int" where
  "cooldown_for np ev n =
     (if is_block ev then blocked_ladder ! min (if n = 0 then 0 else unat (n - 1)) 3
      else np_cooldown np)"

definition bump :: "32 word \<Rightarrow> 32 word" where
  "bump n = (if n = - 1 then n else n + 1)"

definition notify_decide :: "notify_event \<Rightarrow> int \<Rightarrow> notify_policy \<Rightarrow> channel list \<times> notify_policy" where
  "notify_decide ev now np =
     (let key = dedup_key ev;
          fire = (\<lambda>n. (event_channels ev,
            np\<lparr>np_fired := (np_fired np)(key \<mapsto> \<lparr>fi_at = now, fi_times = n\<rparr>)\<rparr>)) in
      case np_fired np key of
        Some st \<Rightarrow>
          (if now - fi_at st < cooldown_for np ev (fi_times st) then ([], np)
           else fire (bump (fi_times st)))
      | None \<Rightarrow> fire 1)"

definition blocked_key :: "string \<Rightarrow> string option" where
  "blocked_key key = (case strip_prefix ''blocked:'' key of Some i \<Rightarrow> Some i | None \<Rightarrow> strip_prefix ''stuck:'' key)"

definition reconcile_blocked :: "string list \<Rightarrow> notify_policy \<Rightarrow> notify_policy" where
  "reconcile_blocked current np =
     np\<lparr>np_fired := (\<lambda>key.
       case blocked_key key of
         Some i \<Rightarrow> if i \<in> set current then np_fired np key else None
       | None \<Rightarrow> np_fired np key)\<rparr>"

section \<open>The dispatcher\<close>

text \<open>Notifiers in the order of their registration, each known by its channel.\<close>

record dispatcher =
  di_policy :: notify_policy
  di_notifiers :: "channel list"
  di_bus :: bool

datatype bus_message = Bus_Message string string string string

datatype delivery = To_Hub bus_message | To_Log string | To_Phone string | To_Chat bus_message

definition alert_kind :: string where "alert_kind = ''alert''"

definition alert_from :: string where "alert_from = ''growlightd''"

fun deliver :: "channel \<Rightarrow> notify_event \<Rightarrow> delivery" where
  "deliver Gui ev =
     To_Hub (Bus_Message alert_from (if is_human_attention ev then ''human'' else ''all'') alert_kind (summary ev))"
| "deliver Log ev = To_Log (''growlightd alert: '' @ summary ev)"
| "deliver Phone ev = To_Phone (summary ev)"

definition alert_to_addr :: "notify_event \<Rightarrow> string" where
  "alert_to_addr ev = (if is_human_attention ev then ''@human'' else ''@all'')"

definition alert_post_args :: "notify_event \<Rightarrow> bus_message" where
  "alert_post_args ev = Bus_Message alert_from (alert_to_addr ev) alert_kind (summary ev)"

definition dispatcher_new :: "notify_policy \<Rightarrow> dispatcher" where
  "dispatcher_new np = \<lparr>di_policy = np, di_notifiers = [], di_bus = False\<rparr>"

definition register :: "channel \<Rightarrow> dispatcher \<Rightarrow> dispatcher" where
  "register c d = d\<lparr>di_notifiers := di_notifiers d @ [c]\<rparr>"

definition deregister :: "channel \<Rightarrow> dispatcher \<Rightarrow> nat \<times> dispatcher" where
  "deregister c d =
     (let kept = filter (\<lambda>n. n \<noteq> c) (di_notifiers d)
      in (length (di_notifiers d) - length kept, d\<lparr>di_notifiers := kept\<rparr>))"

definition set_bus_emit :: "dispatcher \<Rightarrow> dispatcher" where
  "set_bus_emit d = d\<lparr>di_bus := True\<rparr>"

definition notifier_count :: "channel \<Rightarrow> dispatcher \<Rightarrow> nat" where
  "notifier_count c d = length (filter (\<lambda>n. n = c) (di_notifiers d))"

definition fan_out :: "channel list \<Rightarrow> notify_event \<Rightarrow> dispatcher \<Rightarrow> delivery list" where
  "fan_out channels ev d =
     map (\<lambda>c. deliver c ev) (filter (\<lambda>c. c \<in> set channels) (di_notifiers d)) @
     (if di_bus d then [To_Chat (alert_post_args ev)] else [])"

definition notify_alert :: "notify_event \<Rightarrow> int \<Rightarrow> dispatcher \<Rightarrow> channel list \<times> delivery list \<times> dispatcher" where
  "notify_alert ev now d =
     (case notify_decide ev now (di_policy d) of (channels, np) \<Rightarrow>
        (channels, if channels = [] then [] else fan_out channels ev d, d\<lparr>di_policy := np\<rparr>))"

definition reconcile_alerts :: "string list \<Rightarrow> dispatcher \<Rightarrow> dispatcher" where
  "reconcile_alerts current d = d\<lparr>di_policy := reconcile_blocked current (di_policy d)\<rparr>"

section \<open>A run of the dispatcher\<close>

datatype alert_op =
    Raise notify_event int
  | Reconcile "string list"
  | Register channel
  | Deregister channel
  | Bind_Bus

type_synonym alert_entry = "alert_op \<times> channel list \<times> delivery list"

fun alert_step :: "alert_op \<Rightarrow> dispatcher \<Rightarrow> channel list \<times> delivery list \<times> dispatcher" where
  "alert_step (Raise ev now) d = notify_alert ev now d"
| "alert_step (Reconcile current) d = ([], [], reconcile_alerts current d)"
| "alert_step (Register c) d = ([], [], register c d)"
| "alert_step (Deregister c) d = ([], [], snd (deregister c d))"
| "alert_step Bind_Bus d = ([], [], set_bus_emit d)"

fun alert_run :: "alert_op list \<Rightarrow> dispatcher \<Rightarrow> alert_entry list \<times> dispatcher" where
  "alert_run [] d = ([], d)"
| "alert_run (x # xs) d =
     (case alert_step x d of (channels, sent, d') \<Rightarrow>
        (case alert_run xs d' of (log, d'') \<Rightarrow> ((x, channels, sent) # log, d'')))"

section \<open>Identities\<close>

text \<open>
  What an alert is about. A denied lease is about its key and the refused agent, told apart only
  as far as the text with the colon between them does.
\<close>

datatype alert_subject =
    The_Budget | A_Block string | A_Spin string | A_Queue string | A_Part string
  | An_Agent string | A_Target string | A_Lease string | The_Outage | The_Recovery | The_Fleet

fun subject_of :: "notify_event \<Rightarrow> alert_subject" where
  "subject_of (Usage _) = The_Budget"
| "subject_of (Blocked_Item i) = A_Block i"
| "subject_of (Spin_Guard_Parked i _ _) = A_Spin i"
| "subject_of (Queue_Drained q) = A_Queue q"
| "subject_of (Slice_Complete p) = A_Part p"
| "subject_of (Agent_Crashed a _ _) = An_Agent a"
| "subject_of (Thrash_Detected t) = A_Target t"
| "subject_of (Lease_Denied k a) = A_Lease (k @ '':'' @ a)"
| "subject_of (Network_Offline _) = The_Outage"
| "subject_of Network_Recovered = The_Recovery"
| "subject_of (Fleet_Parked _) = The_Fleet"

definition same_subject :: "notify_event \<Rightarrow> notify_event \<Rightarrow> bool" where
  "same_subject e f \<longleftrightarrow> subject_of e = subject_of f"

lemma dedup_key_subject: "dedup_key e = dedup_key f \<longleftrightarrow> same_subject e f"
  unfolding same_subject_def by (cases e; cases f) simp_all

end
