(* ===== verification/Notify_Props.thy ===== *)
theory Notify_Props
  imports Notify
begin

text \<open>
  What the cooldowns promise over any run of the dispatcher: whether an alert fires is a function
  of the earlier pages about the same subject, and the pages of a standing block thin out along
  the reminder ladder.
\<close>

section \<open>The pages of a standing subject\<close>

fun block_item :: "notify_event \<Rightarrow> string option" where
  "block_item (Blocked_Item i) = Some i"
| "block_item (Spin_Guard_Parked i _ _) = Some i"
| "block_item _ = None"

text \<open>The times of the pages since the subject was last reported gone, oldest first.\<close>

fun standing_page :: "notify_event \<Rightarrow> alert_entry \<Rightarrow> int list \<Rightarrow> int list" where
  "standing_page e (Raise f t, channels, _) fs = (if same_subject e f \<and> channels \<noteq> [] then fs @ [t] else fs)"
| "standing_page e (Reconcile current, _, _) fs =
     (case block_item e of Some i \<Rightarrow> if i \<in> set current then fs else [] | None \<Rightarrow> fs)"
| "standing_page e _ fs = fs"

definition page_times :: "notify_event \<Rightarrow> alert_entry list \<Rightarrow> int list" where
  "page_times e log = fold (standing_page e) log []"

text \<open>The wait between page n and the next one.\<close>

definition reminder_wait :: "int \<Rightarrow> notify_event \<Rightarrow> nat \<Rightarrow> int" where
  "reminder_wait cooldown e n =
     (if block_item e = None then cooldown
      else if n \<le> 1 then 1800 else if n = 2 then 7200 else if n = 3 then 28800 else 86400)"

definition page_due :: "int \<Rightarrow> notify_event \<Rightarrow> int list \<Rightarrow> int \<Rightarrow> bool" where
  "page_due cooldown e fs now \<longleftrightarrow> fs = [] \<or> reminder_wait cooldown e (length fs) \<le> now - last fs"

section \<open>The stamps are the history\<close>

definition count32 :: "nat \<Rightarrow> 32 word" where
  "count32 n = word_of_nat (min n 4294967295)"

definition stamp_of :: "int list \<Rightarrow> fire_stamp option" where
  "stamp_of fs = (if fs = [] then None else Some \<lparr>fi_at = last fs, fi_times = count32 (length fs)\<rparr>)"

definition stamps_agree :: "int \<Rightarrow> alert_entry list \<Rightarrow> notify_policy \<Rightarrow> bool" where
  "stamps_agree c log np \<longleftrightarrow>
     np_cooldown np = c \<and> (\<forall>e. np_fired np (dedup_key e) = stamp_of (page_times e log))"

lemma unat_count32 [simp]: "unat (count32 n) = min n 4294967295"
  by (simp add: count32_def unat_of_nat take_bit_eq_mod)

lemma count32_eq: "count32 m = w \<longleftrightarrow> min m 4294967295 = unat w"
  by (metis unat_count32 word_unat_eq_iff)

lemma count32_0: "count32 n = 0 \<longleftrightarrow> n = 0"
  by (cases n) (simp_all add: count32_eq)

lemma unat_max32: "unat (- 1 :: 32 word) = 4294967295"
  by (simp add: unsigned_minus_1_eq_mask mask_eq_exp_minus_1)

lemma bump_count32 [simp]: "bump (count32 n) = count32 (Suc n)"
proof (cases "n < 4294967295")
  case True
  then have "unat (count32 n + 1) = Suc n" by (simp add: unat_word_ariths)
  moreover have "count32 n \<noteq> - 1" using True by (simp add: count32_eq unat_max32)
  ultimately show ?thesis using True by (simp add: bump_def word_unat_eq_iff)
next
  case False
  then show ?thesis by (simp add: bump_def count32_eq unat_max32 eq_commute [of "- 1"])
qed

lemma is_block_item: "is_block e \<longleftrightarrow> block_item e \<noteq> None"
  by (cases e) simp_all

lemma ladder_nth: "blocked_ladder ! min n 3 = (if n = 0 then 1800 else if n = 1 then 7200 else if n = 2 then 28800 else 86400)"
proof -
  consider "n = 0" | "n = 1" | "n = 2" | "3 \<le> n" by linarith
  then show ?thesis by cases (simp_all add: blocked_ladder_def numeral_3_eq_3 min_def)
qed

lemma cooldown_for_count: "0 < n \<Longrightarrow> cooldown_for np e (count32 n) = reminder_wait (np_cooldown np) e n"
proof -
  assume n: "0 < n"
  then have "unat (count32 n - 1) = min n 4294967295 - 1"
    by (subst unat_sub_if') (simp add: word_le_nat_alt Suc_le_eq)
  moreover have "count32 n \<noteq> 0" using n by (simp add: count32_0)
  ultimately show ?thesis
    by (auto simp: cooldown_for_def reminder_wait_def is_block_item ladder_nth)
qed

lemma blocked_key_dedup: "blocked_key (dedup_key e) = block_item e"
  by (cases e) (simp_all add: blocked_key_def strip_prefix_def starts_with_def)

lemma same_subject_block_item: "same_subject e f \<Longrightarrow> block_item e = block_item f"
  unfolding same_subject_def by (cases e; cases f) simp_all

lemma standing_page_same: "same_subject e f \<Longrightarrow> standing_page e x fs = standing_page f x fs"
  using same_subject_block_item [of e f]
  by (cases "(e, x, fs)" rule: standing_page.cases) (auto simp: same_subject_def)

lemma page_times_same: "same_subject e f \<Longrightarrow> page_times e log = page_times f log"
  unfolding page_times_def by (intro fold_cong) (auto simp: fun_eq_iff standing_page_same)

lemma same_subject_iff: "same_subject e f \<longleftrightarrow> dedup_key e = dedup_key f"
  by (simp add: dedup_key_subject)

lemma event_channels_not_Nil [simp]: "event_channels e \<noteq> []"
  by (simp add: event_channels_def)

section \<open>One step\<close>

lemma notify_decide_due:
  assumes "stamps_agree c log np"
  shows "notify_decide e now np =
    (if page_due c e (page_times e log) now
     then (event_channels e, np\<lparr>np_fired := (np_fired np)(dedup_key e \<mapsto>
             \<lparr>fi_at = now, fi_times = count32 (Suc (length (page_times e log)))\<rparr>)\<rparr>)
     else ([], np))"
proof -
  have np: "np_cooldown np = c" "np_fired np (dedup_key e) = stamp_of (page_times e log)"
    using assms by (auto simp: stamps_agree_def)
  have one: "count32 (Suc 0) = 1" by (simp add: count32_eq)
  show ?thesis
    by (auto simp: notify_decide_def np stamp_of_def page_due_def cooldown_for_count one Let_def)
qed

lemma page_times_snoc: "page_times e (log @ [x]) = standing_page e x (page_times e log)"
  by (simp add: page_times_def)

lemma alert_step_agree:
  assumes "stamps_agree c log (di_policy d)" "alert_step x d = (channels, sent, d')"
  shows "stamps_agree c (log @ [(x, channels, sent)]) (di_policy d')"
proof (cases x)
  case (Raise f t)
  let ?fs = "page_times f log"
  show ?thesis
  proof (cases "page_due c f ?fs t")
    case True
    then have ch: "channels = event_channels f"
      and np: "di_policy d' = (di_policy d)\<lparr>np_fired := (np_fired (di_policy d))(dedup_key f \<mapsto>
        \<lparr>fi_at = t, fi_times = count32 (Suc (length ?fs))\<rparr>)\<rparr>"
      using assms by (auto simp: Raise notify_alert_def notify_decide_due)
    have "np_fired (di_policy d') (dedup_key e) = stamp_of (page_times e (log @ [(x, channels, sent)]))" for e
    proof (cases "same_subject e f")
      case True
      then show ?thesis
        by (simp add: np ch Raise page_times_snoc page_times_same [OF True] stamp_of_def flip: dedup_key_subject)
    next
      case False
      then show ?thesis
        using assms(1) by (simp add: np Raise page_times_snoc stamps_agree_def flip: dedup_key_subject)
    qed
    then show ?thesis using assms(1) by (simp add: stamps_agree_def np)
  next
    case False
    then have "channels = []" "di_policy d' = di_policy d"
      using assms by (auto simp: Raise notify_alert_def notify_decide_due)
    then show ?thesis using assms(1) by (simp add: stamps_agree_def page_times_snoc Raise)
  qed
next
  case (Reconcile current)
  then show ?thesis
    using assms by (auto simp: stamps_agree_def page_times_snoc reconcile_alerts_def reconcile_blocked_def
        blocked_key_dedup stamp_of_def split: option.split)
qed (use assms in \<open>auto simp: stamps_agree_def page_times_snoc register_def deregister_def Let_def set_bus_emit_def\<close>)

lemma alert_run_agree:
  assumes "stamps_agree c pre (di_policy d)" "alert_run ops d = (log, d')"
  shows "stamps_agree c (pre @ log) (di_policy d')"
  using assms
proof (induction ops arbitrary: pre d log)
  case (Cons x xs)
  obtain channels sent d1 where s: "alert_step x d = (channels, sent, d1)" by (metis prod_cases3)
  obtain l where r: "alert_run xs d1 = (l, d')" and l: "log = (x, channels, sent) # l"
    using Cons.prems(2) by (auto simp: s split: prod.splits)
  show ?case
    using Cons.IH [OF alert_step_agree [OF Cons.prems(1) s] r] by (simp add: l)
qed simp

lemma stamps_agree_new: "stamps_agree c [] (di_policy (dispatcher_new (notify_policy_new c)))"
  by (simp add: stamps_agree_def dispatcher_new_def notify_policy_new_def page_times_def stamp_of_def)

section \<open>The distance of pages\<close>

definition paced :: "int \<Rightarrow> notify_event \<Rightarrow> int list \<Rightarrow> bool" where
  "paced c e fs \<longleftrightarrow> (\<forall>i. Suc i < length fs \<longrightarrow> reminder_wait c e (Suc i) \<le> fs ! Suc i - fs ! i)"

lemma paced_snoc:
  assumes "paced c e fs" "page_due c e fs t"
  shows "paced c e (fs @ [t])"
  unfolding paced_def
proof (intro allI impI)
  fix i
  assume i: "Suc i < length (fs @ [t])"
  show "reminder_wait c e (Suc i) \<le> (fs @ [t]) ! Suc i - (fs @ [t]) ! i"
  proof (cases "Suc i < length fs")
    case True
    then show ?thesis using assms(1) by (simp add: paced_def nth_append)
  next
    case False
    then have "length fs = Suc i" using i by simp
    moreover from this have "fs \<noteq> []" by auto
    ultimately show ?thesis using assms(2) by (auto simp: page_due_def nth_append last_conv_nth)
  qed
qed

lemma alert_step_paced:
  assumes "stamps_agree c log (di_policy d)" "alert_step x d = (channels, sent, d')" "paced c e (page_times e log)"
  shows "paced c e (page_times e (log @ [(x, channels, sent)]))"
proof (cases x)
  case (Raise f t)
  show ?thesis
  proof (cases "same_subject e f \<and> channels \<noteq> []")
    case True
    then have "page_due c f (page_times f log) t"
      using assms(1,2) by (auto simp: Raise notify_alert_def notify_decide_due split: if_splits)
    then have "page_due c e (page_times e log) t"
      using True same_subject_block_item [of e f] page_times_same [of e f log]
      by (simp add: page_due_def reminder_wait_def)
    then show ?thesis using True by (simp add: page_times_snoc Raise paced_snoc assms(3))
  qed (use assms(3) in \<open>auto simp: page_times_snoc Raise\<close>)
qed (use assms(3) in \<open>auto simp: page_times_snoc paced_def split: option.split\<close>)

lemma alert_run_paced:
  assumes "stamps_agree c pre (di_policy d)" "alert_run ops d = (log, d')" "paced c e (page_times e pre)"
  shows "paced c e (page_times e (pre @ log))"
  using assms
proof (induction ops arbitrary: pre d log)
  case (Cons x xs)
  obtain channels sent d1 where s: "alert_step x d = (channels, sent, d1)" by (metis prod_cases3)
  obtain l where r: "alert_run xs d1 = (l, d')" and l: "log = (x, channels, sent) # l"
    using Cons.prems(2) by (auto simp: s split: prod.splits)
  show ?case
    using Cons.IH [OF alert_step_agree [OF Cons.prems(1) s] r alert_step_paced [OF Cons.prems(1) s Cons.prems(3)]]
    by (simp add: l)
qed simp

text \<open>A standing block gets at most three reminders in its first day and one a day from then on.\<close>

lemma paced_daily:
  assumes "paced c e fs" "block_item e \<noteq> None" "n < length fs"
  shows "86400 * (int n - 3) \<le> fs ! n - fs ! 0 \<and> 0 \<le> fs ! n - fs ! 0 \<and>
    (1 \<le> n \<longrightarrow> 1800 \<le> fs ! n - fs ! 0) \<and> (2 \<le> n \<longrightarrow> 9000 \<le> fs ! n - fs ! 0) \<and>
    (3 \<le> n \<longrightarrow> 37800 \<le> fs ! n - fs ! 0)"
  using assms(3)
proof (induction n)
  case (Suc n)
  have gap: "reminder_wait c e (Suc n) \<le> fs ! Suc n - fs ! n"
    using assms(1) Suc.prems by (simp add: paced_def)
  consider "n = 0" | "n = 1" | "n = 2" | "3 \<le> n" by linarith
  then show ?case
    using gap Suc.IH Suc.prems assms(2) by cases (auto simp: reminder_wait_def)
qed simp

text \<open>
  C30. Whether an alert goes out is a function of the pages about its subject since the subject was
  last reported gone, whatever else was raised, registered or reconciled in between: it goes out,
  to every registered transport of its channels and to the chat store, when there is no such page
  or the wait after the last one is over. The phone is among the channels exactly when a human is
  needed. The pages of a standing block are at least half an hour, two hours, eight hours and then
  a day apart, so it gets at most four in its first day and one per day from then on; the counter's
  32 bits never shorten a wait.
\<close>

theorem alerts_paced:
  fixes e :: notify_event
  assumes "alert_run ops (dispatcher_new (notify_policy_new c)) = (log, d)"
  defines "fs \<equiv> page_times e log"
  shows "fst (notify_alert e now d) = (if page_due c e fs now then event_channels e else []) \<and>
    fst (snd (notify_alert e now d)) = (if page_due c e fs now then fan_out (event_channels e) e d else []) \<and>
    (Phone \<in> set (event_channels e) \<longleftrightarrow> is_human_attention e) \<and>
    (\<forall>i. Suc i < length fs \<longrightarrow> reminder_wait c e (Suc i) \<le> fs ! Suc i - fs ! i) \<and>
    (block_item e \<noteq> None \<longrightarrow> fs \<noteq> [] \<longrightarrow> 86400 * (int (length fs) - 4) \<le> last fs - hd fs)"
proof -
  have agree: "stamps_agree c log (di_policy d)"
    using alert_run_agree [OF stamps_agree_new assms(1)] by simp
  have "page_times e [] = []" by (simp add: page_times_def)
  then have paced: "paced c e fs"
    using alert_run_paced [OF stamps_agree_new assms(1), of e] by (simp add: fs_def paced_def)
  have "86400 * (int (length fs) - 4) \<le> last fs - hd fs" if "block_item e \<noteq> None" "fs \<noteq> []"
    using paced_daily [OF paced that(1), of "length fs - 1"] that(2)
    by (simp add: last_conv_nth hd_conv_nth of_nat_diff Suc_le_eq)
  then show ?thesis
    using paced notify_decide_due [OF agree, of e now]
    by (auto simp: notify_alert_def fs_def event_channels_def paced_def)
qed

definition paced_demo :: "alert_op list" where
  "paced_demo =
     [Register Gui, Register Phone, Bind_Bus, Raise (Blocked_Item ''m1'') 0, Reconcile [''m1''],
      Raise (Blocked_Item ''m1'') 1800, Raise (Blocked_Item ''m2'') 2000, Raise (Blocked_Item ''m1'') 8000]"

theorem alerts_paced_witness:
  "page_times (Blocked_Item ''m1'') (fst (alert_run paced_demo (dispatcher_new (notify_policy_new 600)))) = [0, 1800] \<and>
   fst (notify_alert (Blocked_Item ''m1'') 9000 (snd (alert_run paced_demo (dispatcher_new (notify_policy_new 600))))) =
     [Gui, Log, Phone]"
proof -
  let ?r = "alert_run paced_demo (dispatcher_new (notify_policy_new 600))"
  have h: "page_times (Blocked_Item ''m1'') (fst ?r) = [0, 1800]" by code_simp
  have "fst (notify_alert (Blocked_Item ''m1'') 9000 (snd ?r)) =
     (if page_due 600 (Blocked_Item ''m1'') (page_times (Blocked_Item ''m1'') (fst ?r)) 9000
      then event_channels (Blocked_Item ''m1'') else [])"
    using alerts_paced [of paced_demo 600 "fst ?r" "snd ?r" "Blocked_Item ''m1''" 9000] by simp
  also have "\<dots> = [Gui, Log, Phone]" unfolding h by code_simp
  finally show ?thesis using h by simp
qed

end
