(* ===== verification/Notify_Loop.thy ===== *)
theory Notify_Loop
  imports Notify_Props Supervisor Scheduler Sorted_Map
begin

text \<open>
  The alerts of one tick of the drive loop (\<^verbatim>\<open>drive_loop.rs\<close>, \<^verbatim>\<open>dispatch\<close>): what a tick
  reports, in the order it is raised, and the watch on the network link.
\<close>

section \<open>One tick\<close>

record tick_report =
  tr_crashes :: "notify_event list"
  tr_held_starts :: "(string \<times> start_outcome) list"
  tr_rerolls :: "reroll_outcome list"
  tr_parked :: "(string \<times> string) list"
  tr_v2_handoffs :: "string option list"
  tr_v2_parked :: "string list"
  tr_v2_walk_blocked :: "string list"
  tr_waiting :: bool

type_synonym spin_parks = "string \<times> string \<rightharpoonup> 32 word \<times> nat option"

record alert_loop =
  al_dispatcher :: dispatcher
  al_spin_parks :: spin_parks
  al_offline_since :: "int option"
  al_offline_alerted :: bool

definition usage_alert_reached :: "8 word \<Rightarrow> bool" where
  "usage_alert_reached pct \<longleftrightarrow> 97 \<le> pct"

definition offline_alert_threshold_secs :: int where
  "offline_alert_threshold_secs = 180"

fun failed_start :: "string \<times> start_outcome \<Rightarrow> notify_event list" where
  "failed_start (agent, Start_Spawn_Failed _) = [agent_crashed agent]"
| "failed_start _ = []"

fun failed_reroll :: "reroll_outcome \<Rightarrow> notify_event list" where
  "failed_reroll (Reroll_Failed agent _) = [agent_crashed agent]"
| "failed_reroll _ = []"

definition keep_spins :: "(string \<times> string) list \<Rightarrow> spin_parks \<Rightarrow> spin_parks" where
  "keep_spins parked spins = (\<lambda>key. if key \<in> set parked then spins key else None)"

definition parked_event :: "spin_parks \<Rightarrow> string \<times> string \<Rightarrow> notify_event" where
  "parked_event spins key =
     (case spins key of
        Some (sessions, dirty) \<Rightarrow> Spin_Guard_Parked (snd key) sessions dirty
      | None \<Rightarrow> Blocked_Item (snd key))"

definition v2_alerts :: "tick_report \<Rightarrow> string list" where
  "v2_alerts r = List.map_filter (\<lambda>a. a) (tr_v2_handoffs r) @ tr_v2_parked r @ tr_v2_walk_blocked r"

definition early_events :: "tick_report \<Rightarrow> notify_event list" where
  "early_events r =
     tr_crashes r @ concat (map failed_start (tr_held_starts r)) @ concat (map failed_reroll (tr_rerolls r))"

definition late_events :: "tick_report \<Rightarrow> spin_parks \<Rightarrow> 8 word \<Rightarrow> notify_event list" where
  "late_events r spins pct =
     map (parked_event spins) (tr_parked r) @ map Blocked_Item (v2_alerts r) @
     (if usage_alert_reached pct then [Usage pct] else [])"

fun link_watch :: "bool \<Rightarrow> int \<Rightarrow> int option \<times> bool \<Rightarrow> notify_event list \<times> int option \<times> bool" where
  "link_watch waiting now (since, alerted) =
     (if waiting then
        let start = (case since of Some s \<Rightarrow> s | None \<Rightarrow> now); secs = sat64 (now - start) in
        if \<not> alerted \<and> offline_alert_threshold_secs \<le> secs
        then ([Network_Offline secs], Some start, True)
        else ([], Some start, alerted)
      else if since \<noteq> None then
        (if alerted then ([Network_Recovered], None, False) else ([], None, alerted))
      else ([], since, alerted))"

definition tick_ops :: "tick_report \<Rightarrow> 8 word \<Rightarrow> int \<Rightarrow> spin_parks \<Rightarrow> notify_event list \<Rightarrow> alert_op list" where
  "tick_ops r pct now spins link =
     map (\<lambda>e. Raise e now) (early_events r) @ [Reconcile (map snd (tr_parked r))] @
     map (\<lambda>e. Raise e now) (late_events r spins pct @ link)"

definition dispatch :: "tick_report \<Rightarrow> 8 word \<Rightarrow> int \<Rightarrow> alert_loop \<Rightarrow> alert_entry list \<times> alert_loop" where
  "dispatch r pct now st =
     (let spins = keep_spins (tr_parked r) (al_spin_parks st) in
      case link_watch (tr_waiting r) now (al_offline_since st, al_offline_alerted st) of
        (link, since, alerted) \<Rightarrow>
          (case alert_run (tick_ops r pct now spins link) (al_dispatcher st) of
             (log, d) \<Rightarrow>
               (log, st\<lparr>al_dispatcher := d, al_spin_parks := spins,
                        al_offline_since := since, al_offline_alerted := alerted\<rparr>)))"

text \<open>Between two ticks a released member parks its part: a spin park is recorded, another park forgets it.\<close>

definition note_spin_park :: "string \<times> string \<Rightarrow> bool \<Rightarrow> nat option \<Rightarrow> alert_loop \<Rightarrow> alert_loop" where
  "note_spin_park key spin_guard dirty st =
     st\<lparr>al_spin_parks := (al_spin_parks st)(key := if spin_guard then Some (stall_limit, dirty) else None)\<rparr>"

definition alert_loop_new :: "dispatcher \<Rightarrow> alert_loop" where
  "alert_loop_new d =
     \<lparr>al_dispatcher = d, al_spin_parks = (\<lambda>_. None), al_offline_since = None, al_offline_alerted = False\<rparr>"

datatype loop_op = Tick tick_report "8 word" int | Spin_Park "string \<times> string" bool "nat option"

fun dispatch_run :: "loop_op list \<Rightarrow> alert_loop \<Rightarrow> alert_entry list \<times> alert_loop" where
  "dispatch_run [] st = ([], st)"
| "dispatch_run (Tick r pct now # xs) st =
     (case dispatch r pct now st of (log, st') \<Rightarrow>
        (case dispatch_run xs st' of (log', st'') \<Rightarrow> (log @ log', st'')))"
| "dispatch_run (Spin_Park key spin_guard dirty # xs) st = dispatch_run xs (note_spin_park key spin_guard dirty st)"

section \<open>Blocked walks\<close>

text \<open>
  The entries whose walk stops at a blocked item, with the item, and the alerts: an entry whose
  stop is not the one seen last tick.
\<close>

definition walk_stops :: "snapshot \<Rightarrow> (string \<times> string) list" where
  "walk_stops s =
     fold (\<lambda>e m.
       if ev_status e \<in> {EQueued, EActive, EPaused}
       then (case next_unit s e of WBlocked item \<Rightarrow> bm_insert (ev_id e) item m | _ \<Rightarrow> m)
       else m) (sn_entries s) []"

definition note_v2_blocked_walks :: "snapshot \<Rightarrow> (string \<times> string) list \<Rightarrow> string list \<times> (string \<times> string) list" where
  "note_v2_blocked_walks s seen =
     (let stopped = walk_stops s
      in (map snd (filter (\<lambda>(entry, item). map_of seen entry \<noteq> Some item) stopped), stopped))"

lemma walk_stops_ok: "bm_ok (walk_stops s)"
proof -
  have "bm_ok m \<Longrightarrow> bm_ok (fold (\<lambda>e m.
       if ev_status e \<in> {EQueued, EActive, EPaused}
       then (case next_unit s e of WBlocked item \<Rightarrow> bm_insert (ev_id e) item m | _ \<Rightarrow> m)
       else m) es m)" for es m
    by (induction es arbitrary: m) (auto split: walk_outcome.split)
  then show ?thesis by (simp add: walk_stops_def)
qed

text \<open>A block that persists from one tick to the next is not alerted again.\<close>

lemma blocked_walk_alerted_once:
  assumes "(entry, item) \<in> set (walk_stops s)" "(entry, item) \<in> set (snd (note_v2_blocked_walks s' seen))"
    "item \<in> set (fst (note_v2_blocked_walks s (snd (note_v2_blocked_walks s' seen))))"
  shows "\<exists>other. other \<noteq> entry \<and> (other, item) \<in> set (walk_stops s)"
proof -
  obtain e where e: "(e, item) \<in> set (walk_stops s)" "map_of (walk_stops s') e \<noteq> Some item"
    using assms(3) by (auto simp: note_v2_blocked_walks_def Let_def)
  moreover have "map_of (walk_stops s') entry = Some item"
    using assms(2) by (simp add: note_v2_blocked_walks_def Let_def bm_ok_mem [OF walk_stops_ok])
  ultimately show ?thesis by metis
qed

end
