(* ===== verification/Outage.thy ===== *)
theory Outage
  imports Notify_Loop
begin

text \<open>
  What the drive loop's alerts come to: the page of a network outage, and the alerts of a block
  under queue v2, which the reconcile of the parked parts does not know.
\<close>

section \<open>Runs\<close>

lemma alert_run_append:
  "alert_run (xs @ ys) d =
     (case alert_run xs d of (l, d1) \<Rightarrow> (case alert_run ys d1 of (m, d2) \<Rightarrow> (l @ m, d2)))"
  by (induction xs arbitrary: d) (auto split: prod.splits)

lemma alert_run_ops: "alert_run xs d = (log, d') \<Longrightarrow> map fst log = xs"
  by (induction xs arbitrary: d log) (auto split: prod.splits)

lemma dispatch_agree:
  assumes "stamps_agree c pre (di_policy (al_dispatcher st))" "dispatch r pct now st = (log, st')"
  shows "stamps_agree c (pre @ log) (di_policy (al_dispatcher st'))"
  using assms(2) by (auto simp: dispatch_def Let_def split: prod.splits intro: alert_run_agree [OF assms(1)])

lemma dispatch_alerted:
  assumes "al_offline_alerted st \<longrightarrow> al_offline_since st \<noteq> None" "dispatch r pct now st = (log, st')"
  shows "al_offline_alerted st' \<longrightarrow> al_offline_since st' \<noteq> None"
  using assms by (auto simp: dispatch_def Let_def split: prod.splits if_splits)

lemma dispatch_run_inv:
  assumes "stamps_agree c pre (di_policy (al_dispatcher st))"
    "al_offline_alerted st \<longrightarrow> al_offline_since st \<noteq> None" "dispatch_run xs st = (log, st')"
  shows "stamps_agree c (pre @ log) (di_policy (al_dispatcher st')) \<and>
    (al_offline_alerted st' \<longrightarrow> al_offline_since st' \<noteq> None)"
  using assms
proof (induction xs arbitrary: pre st log)
  case (Cons x xs)
  show ?case
  proof (cases x)
    case (Tick r pct now)
    obtain l st1 where d: "dispatch r pct now st = (l, st1)" by fastforce
    obtain m where r: "dispatch_run xs st1 = (m, st')" and log: "log = l @ m"
      using Cons.prems(3) by (auto simp: Tick d split: prod.splits)
    show ?thesis
      using Cons.IH [OF dispatch_agree [OF Cons.prems(1) d] dispatch_alerted [OF Cons.prems(2) d] r] by (simp add: log)
  next
    case (Spin_Park key g dirty)
    then show ?thesis
      using Cons.IH [of pre "note_spin_park key g dirty st" log] Cons.prems by (simp add: note_spin_park_def)
  qed
qed simp

section \<open>The page of an outage\<close>

fun is_crash :: "notify_event \<Rightarrow> bool" where
  "is_crash (Agent_Crashed _ _ _) \<longleftrightarrow> True"
| "is_crash _ \<longleftrightarrow> False"

definition the_outage :: notify_event where "the_outage = Network_Offline 0"

fun outage_page :: "alert_entry \<Rightarrow> int list" where
  "outage_page (Raise (Network_Offline _) t, channels, _) = (if channels = [] then [] else [t])"
| "outage_page _ = []"

definition outage_pages :: "alert_entry list \<Rightarrow> int list" where
  "outage_pages log = concat (map outage_page log)"

text \<open>The ticks of an outage: the link is down in each, and its crashes are crashes.\<close>

fun down_tick :: "loop_op \<Rightarrow> bool" where
  "down_tick (Tick r _ _) \<longleftrightarrow> tr_waiting r \<and> list_all is_crash (tr_crashes r)"
| "down_tick (Spin_Park _ _ _) \<longleftrightarrow> True"

fun tick_time :: "loop_op \<Rightarrow> int list" where
  "tick_time (Tick _ _ now) = [now]"
| "tick_time (Spin_Park _ _ _) = []"

definition tick_times :: "loop_op list \<Rightarrow> int list" where
  "tick_times xs = concat (map tick_time xs)"

fun about_outage :: "alert_op \<Rightarrow> bool" where
  "about_outage (Raise (Network_Offline _) _) \<longleftrightarrow> True"
| "about_outage _ \<longleftrightarrow> False"

lemma outage_page_quiet: "\<not> about_outage (fst x) \<Longrightarrow> outage_page x = []"
  by (cases x rule: outage_page.cases) simp_all

lemma subject_outage: "The_Outage = subject_of f \<Longrightarrow> about_outage (Raise f t)"
  by (cases f) simp_all

lemma outage_quiet:
  assumes "\<forall>x \<in> set log. \<not> about_outage (fst x)"
  shows "outage_pages log = []" "page_times the_outage (pre @ log) = page_times the_outage pre"
proof -
  show "outage_pages log = []"
    using assms unfolding outage_pages_def by (auto intro: outage_page_quiet)
  have "standing_page the_outage x fs = fs" if "\<not> about_outage (fst x)" for x fs
    using that by (cases "(the_outage, x, fs)" rule: standing_page.cases)
      (auto simp: the_outage_def same_subject_def dest: subject_outage)
  then show "page_times the_outage (pre @ log) = page_times the_outage pre"
    using assms unfolding page_times_def by (induction log arbitrary: pre rule: rev_induct) simp_all
qed

lemma tick_ops_quiet:
  assumes "list_all is_crash (tr_crashes r)" "x \<in> set (tick_ops r pct now spins [])"
  shows "\<not> about_outage x"
proof -
  have "\<not> about_outage (Raise e now)" if "is_crash e" for e using that by (cases e) simp_all
  moreover have "\<not> about_outage (Raise e now)" if "e \<in> set (failed_start h)" for e h
    using that by (cases h rule: failed_start.cases) (simp_all add: agent_crashed_def)
  moreover have "\<not> about_outage (Raise e now)" if "e \<in> set (failed_reroll h)" for e h
    using that by (cases h) (simp_all add: agent_crashed_def)
  moreover have "\<not> about_outage (Raise (parked_event spins k) now)" for k
    by (simp add: parked_event_def split: option.split)
  ultimately show ?thesis
    using assms by (auto simp: tick_ops_def early_events_def late_events_def list_all_iff split: if_splits)
qed

lemma tick_ops_link: "tick_ops r pct now spins link = tick_ops r pct now spins [] @ map (\<lambda>e. Raise e now) link"
  by (simp add: tick_ops_def)

lemma sat64_le: "180 \<le> sat64 x \<longleftrightarrow> 180 \<le> x"
  by (simp add: sat64_def i64_max_def i64_min_def)

text \<open>One tick without the link.\<close>

lemma down_dispatch:
  assumes "stamps_agree c pre (di_policy (al_dispatcher st))" "dispatch r pct now st = (log, st')"
    "tr_waiting r" "list_all is_crash (tr_crashes r)" "al_offline_since st = None \<longrightarrow> s = now"
    "\<forall>t. al_offline_since st = Some t \<longrightarrow> t = s"
  defines "due \<equiv> \<not> al_offline_alerted st \<and> 180 \<le> now - s"
  shows "al_offline_since st' = Some s" "al_offline_alerted st' \<longleftrightarrow> al_offline_alerted st \<or> due"
    "outage_pages log = (if due \<and> page_due c the_outage (page_times the_outage pre) now then [now] else [])"
    "\<not> due \<Longrightarrow> page_times the_outage (pre @ log) = page_times the_outage pre"
proof -
  let ?spins = "keep_spins (tr_parked r) (al_spin_parks st)"
  let ?link = "if due then [Network_Offline (sat64 (now - s))] else []"
  have watch: "link_watch (tr_waiting r) now (al_offline_since st, al_offline_alerted st) =
      (?link, Some s, al_offline_alerted st \<or> due)"
    using assms(3,5,6) by (auto simp: due_def Let_def offline_alert_threshold_secs_def sat64_le split: option.split)
  obtain l d1 where l: "alert_run (tick_ops r pct now ?spins []) (al_dispatcher st) = (l, d1)" by fastforce
  obtain m d2 where m: "alert_run (map (\<lambda>e. Raise e now) ?link) d1 = (m, d2)" by fastforce
  have log: "log = l @ m" and st': "al_offline_since st' = Some s" "al_offline_alerted st' \<longleftrightarrow> al_offline_alerted st \<or> due"
    using assms(2) by (auto simp: dispatch_def Let_def watch tick_ops_link [of r pct now ?spins ?link] alert_run_append l m
        simp del: link_watch.simps split: if_splits)
  show "al_offline_since st' = Some s" "al_offline_alerted st' \<longleftrightarrow> al_offline_alerted st \<or> due" by fact+
  have "\<forall>x \<in> set l. \<not> about_outage (fst x)"
    using alert_run_ops [OF l] tick_ops_quiet [OF assms(4)] by (metis imageI list.set_map)
  note quiet = outage_quiet [OF this]
  have agree: "stamps_agree c (pre @ l) (di_policy d1)" by (rule alert_run_agree [OF assms(1) l])
  have same: "same_subject (Network_Offline x) the_outage" for x by (simp add: the_outage_def same_subject_def)
  have "outage_pages m = (if due \<and> page_due c the_outage (page_times the_outage pre) now then [now] else [])"
  proof (cases due)
    case True
    have "page_due c (Network_Offline x) fs now = page_due c the_outage fs now" for x fs
      by (simp add: page_due_def reminder_wait_def the_outage_def)
    then show ?thesis
      using m True by (auto simp: notify_alert_def notify_decide_due [OF agree] page_times_same [OF same] quiet outage_pages_def
          split: prod.splits)
  qed (use m in \<open>simp add: outage_pages_def\<close>)
  moreover have "outage_pages log = outage_pages l @ outage_pages m" by (simp add: outage_pages_def log)
  ultimately show "outage_pages log = (if due \<and> page_due c the_outage (page_times the_outage pre) now then [now] else [])"
    by (simp add: quiet)
  show "page_times the_outage (pre @ log) = page_times the_outage pre" if "\<not> due"
    using m that quiet by (simp add: log)
qed

lemma up_dispatch:
  assumes "al_offline_alerted st" "al_offline_since st \<noteq> None" "\<not> tr_waiting r" "dispatch r pct now st = (log, st')"
  shows "al_offline_since st' = None \<and> \<not> al_offline_alerted st' \<and> Raise Network_Recovered now \<in> set (map fst log)"
proof -
  have watch: "link_watch (tr_waiting r) now (al_offline_since st, al_offline_alerted st) = ([Network_Recovered], None, False)"
    using assms(1-3) by simp
  let ?ops = "tick_ops r pct now (keep_spins (tr_parked r) (al_spin_parks st)) [Network_Recovered]"
  obtain l d where run: "alert_run ?ops (al_dispatcher st) = (l, d)" by fastforce
  have "log = l" "al_offline_since st' = None" "\<not> al_offline_alerted st'"
    using assms(4) by (auto simp: dispatch_def watch run simp del: link_watch.simps)
  moreover have "Raise Network_Recovered now \<in> set ?ops" by (simp add: tick_ops_def)
  ultimately show ?thesis using alert_run_ops [OF run] by simp
qed

text \<open>The rest of an outage that started at s.\<close>

lemma outage_pages_append: "outage_pages (l @ m) = outage_pages l @ outage_pages m"
  by (simp add: outage_pages_def)

lemma down_run:
  assumes "stamps_agree c pre (di_policy (al_dispatcher st))" "dispatch_run xs st = (log, st')"
    "list_all down_tick xs" "al_offline_since st = Some s"
  shows "outage_pages log =
      (if al_offline_alerted st then []
       else (case find (\<lambda>t. 180 \<le> t - s) (tick_times xs) of
               None \<Rightarrow> []
             | Some t \<Rightarrow> if page_due c the_outage (page_times the_outage pre) t then [t] else [])) \<and>
    (al_offline_alerted st' \<longleftrightarrow> al_offline_alerted st \<or> (\<exists>t \<in> set (tick_times xs). 180 \<le> t - s))"
  using assms
proof (induction xs arbitrary: pre st log)
  case Nil
  then show ?case by (simp add: outage_pages_def tick_times_def)
next
  case (Cons x xs)
  show ?case
  proof (cases x)
    case (Tick r pct now)
    obtain l st1 where d: "dispatch r pct now st = (l, st1)" by fastforce
    obtain m where r: "dispatch_run xs st1 = (m, st')" and log: "log = l @ m"
      using Cons.prems(2) by (auto simp: Tick d split: prod.splits)
    have t: "tr_waiting r" "list_all is_crash (tr_crashes r)" "list_all down_tick xs"
      using Cons.prems(3) by (simp_all add: Tick)
    have since: "al_offline_since st = None \<longrightarrow> s = now" "\<forall>u. al_offline_since st = Some u \<longrightarrow> u = s"
      using Cons.prems(4) by simp_all
    note step = down_dispatch [OF Cons.prems(1) d t(1,2) since]
    note IH = Cons.IH [OF dispatch_agree [OF Cons.prems(1) d] r t(3) step(1)]
    have times: "tick_times (x # xs) = now # tick_times xs" by (simp add: Tick tick_times_def)
    have st1: "al_offline_alerted st1 \<longleftrightarrow> al_offline_alerted st \<or> 180 \<le> now - s" unfolding step(2) by blast
    consider "al_offline_alerted st" | "\<not> al_offline_alerted st" "180 \<le> now - s"
      | "\<not> al_offline_alerted st" "\<not> 180 \<le> now - s" by blast
    then show ?thesis
    proof cases
      case 1
      then show ?thesis using IH by (simp add: st1 step(3) log outage_pages_append)
    next
      case 2
      then show ?thesis using IH by (simp add: st1 step(3) log outage_pages_append times)
    next
      case 3
      then have same: "page_times the_outage (pre @ l) = page_times the_outage pre" using step(4) by blast
      show ?thesis using 3 IH [unfolded same] by (simp add: st1 step(3) log outage_pages_append times)
    qed
  next
    case (Spin_Park key g dirty)
    then show ?thesis
      using Cons.IH [of pre "note_spin_park key g dirty st" log] Cons.prems
      by (simp add: note_spin_park_def tick_times_def)
  qed
qed

text \<open>
  C29. A run of ticks with the link up, then an outage: over all its ticks the outage is paged at
  most once, at the first tick three minutes or more after its first, and only when the cooldown
  since the last page of an earlier outage is over by then. In that case the loop notes the alert
  as raised without a page having gone out, so however long this outage lasts it is never paged.
\<close>

theorem outage_pages_once:
  assumes "dispatch_run before (alert_loop_new d) = (log, st)" "di_policy d = notify_policy_new c"
    and "al_offline_since st = None"
    and "list_all down_tick (Tick r pct s # ticks)" "dispatch_run (Tick r pct s # ticks) st = (log', st')"
  shows "outage_pages log' =
      (case find (\<lambda>t. 180 \<le> t - s) (tick_times ticks) of
         None \<Rightarrow> []
       | Some t \<Rightarrow> if page_due c the_outage (page_times the_outage log) t then [t] else []) \<and>
    (al_offline_alerted st' \<longleftrightarrow> (\<exists>t \<in> set (tick_times ticks). 180 \<le> t - s)) \<and>
    (\<forall>r2 pct2 now2 l2 st2. al_offline_alerted st' \<longrightarrow> \<not> tr_waiting r2 \<longrightarrow> dispatch r2 pct2 now2 st' = (l2, st2) \<longrightarrow>
       al_offline_since st2 = None \<and> \<not> al_offline_alerted st2 \<and> Raise Network_Recovered now2 \<in> set (map fst l2))"
proof -
  have "stamps_agree c [] (di_policy (al_dispatcher (alert_loop_new d)))"
    using stamps_agree_new [of c] by (simp add: alert_loop_new_def assms(2) dispatcher_new_def)
  note inv = dispatch_run_inv [OF this _ assms(1)]
  have agree: "stamps_agree c log (di_policy (al_dispatcher st))" and "\<not> al_offline_alerted st"
    using inv assms(3) by (simp_all add: alert_loop_new_def)
  obtain l st1 where d: "dispatch r pct s st = (l, st1)" by fastforce
  obtain m where r: "dispatch_run ticks st1 = (m, st')" and log': "log' = l @ m"
    using assms(5) by (auto simp: d split: prod.splits)
  have "tr_waiting r" "list_all is_crash (tr_crashes r)" "list_all down_tick ticks" using assms(4) by simp_all
  note step = down_dispatch [OF agree d this(1,2), of s]
    and rest = down_run [OF dispatch_agree [OF agree d] r this(3), of s]
  have st1: "al_offline_since st1 = Some s" "\<not> al_offline_alerted st1" "outage_pages l = []"
    "page_times the_outage (log @ l) = page_times the_outage log"
    using step assms(3) \<open>\<not> al_offline_alerted st\<close> by simp_all
  have since: "al_offline_alerted st' \<longrightarrow> al_offline_since st' \<noteq> None"
    using dispatch_run_inv [OF dispatch_agree [OF agree d] _ r] st1 by simp
  have "al_offline_since st2 = None \<and> \<not> al_offline_alerted st2 \<and> Raise Network_Recovered now2 \<in> set (map fst l2)"
    if "al_offline_alerted st'" "\<not> tr_waiting r2" "dispatch r2 pct2 now2 st' = (l2, st2)" for r2 pct2 now2 l2 st2
    using up_dispatch [OF that(1) _ that(2,3)] since that(1) by blast
  then show ?thesis using rest [unfolded st1(4)] st1 by (simp add: log' outage_pages_append)
qed

definition quiet_report :: "bool \<Rightarrow> tick_report" where
  "quiet_report waiting =
     \<lparr>tr_crashes = [], tr_held_starts = [], tr_rerolls = [], tr_parked = [], tr_v2_handoffs = [],
      tr_v2_parked = [], tr_v2_walk_blocked = [], tr_waiting = waiting\<rparr>"

definition link_demo :: "(bool \<times> int) list \<Rightarrow> loop_op list" where
  "link_demo xs = map (\<lambda>(waiting, now). Tick (quiet_report waiting) 10 now) xs"

text \<open>An outage paged at 200, the link back at 300, and a second outage from 400 to 5000 without a page.\<close>

definition first_outage :: "loop_op list" where
  "first_outage = link_demo [(True, 0), (True, 200), (False, 300)]"

definition second_outage :: "loop_op list" where
  "second_outage = link_demo [(True, 400), (True, 600), (True, 5000)]"

theorem outage_pages_once_witness:
  "page_times the_outage (fst (dispatch_run first_outage (alert_loop_new (dispatcher_new (notify_policy_new 1800))))) = [200] \<and>
   outage_pages (fst (dispatch_run second_outage
     (snd (dispatch_run first_outage (alert_loop_new (dispatcher_new (notify_policy_new 1800))))))) = []"
proof -
  let ?d = "dispatcher_new (notify_policy_new 1800)"
  let ?a = "dispatch_run first_outage (alert_loop_new ?d)"
  let ?b = "dispatch_run second_outage (snd ?a)"
  have h: "page_times the_outage (fst ?a) = [200]" "al_offline_since (snd ?a) = None"
    by code_simp+
  have "list_all down_tick (Tick (quiet_report True) 10 400 # link_demo [(True, 600), (True, 5000)])"
    by code_simp
  moreover have "second_outage = Tick (quiet_report True) 10 400 # link_demo [(True, 600), (True, 5000)]"
    by (simp add: second_outage_def link_demo_def)
  ultimately have "outage_pages (fst ?b) =
      (case find (\<lambda>t. 180 \<le> t - 400) (tick_times (link_demo [(True, 600), (True, 5000)])) of
         None \<Rightarrow> []
       | Some t \<Rightarrow> if page_due 1800 the_outage (page_times the_outage (fst ?a)) t then [t] else [])"
    using outage_pages_once [of first_outage ?d "fst ?a" "snd ?a" 1800 "quiet_report True" 10 400
        "link_demo [(True, 600), (True, 5000)]" "fst ?b" "snd ?b"] h(2)
    by (simp add: dispatcher_new_def)
  also have "\<dots> = []" unfolding h(1) by code_simp
  finally show ?thesis using h(1) by simp
qed

section \<open>Blocks under queue v2\<close>

text \<open>
  The reconcile of a tick knows the parked parts of the legacy queues only, so it forgets the
  identity of a block the v2 lists report: such a block is paged in every tick that reports it,
  whatever the reminder ladder says.
\<close>

lemma raise_all:
  assumes "stamps_agree c pre (di_policy d)" "alert_run (map (\<lambda>f. Raise f now) fs) d = (log, d')"
    "page_times e pre \<in> {[], [now]}" "0 < reminder_wait c e 1"
  shows "page_times e (pre @ log) =
    (if page_times e pre = [now] \<or> (\<exists>f \<in> set fs. same_subject e f) then [now] else [])"
  using assms
proof (induction fs arbitrary: pre d log)
  case (Cons f fs)
  obtain channels sent d1 where s: "alert_step (Raise f now) d = (channels, sent, d1)" by (metis prod_cases3)
  obtain m where m: "alert_run (map (\<lambda>f. Raise f now) fs) d1 = (m, d')"
    and log: "log = (Raise f now, channels, sent) # m"
    using Cons.prems(2) s by (auto split: prod.splits)
  let ?pre = "pre @ [(Raise f now, channels, sent)]"
  have "page_times e ?pre = (if page_times e pre = [now] \<or> same_subject e f then [now] else [])"
  proof (cases "same_subject e f")
    case True
    have "channels \<noteq> [] \<longleftrightarrow> page_due c f (page_times f pre) now"
      using s by (auto simp: notify_alert_def notify_decide_due [OF Cons.prems(1)] split: if_splits)
    moreover have "page_due c f (page_times f pre) now \<longleftrightarrow> page_times e pre = []"
      using Cons.prems(3,4) same_subject_block_item [OF True]
      by (auto simp: page_due_def reminder_wait_def page_times_same [OF True])
    ultimately show ?thesis using True Cons.prems(3) by (auto simp: page_times_snoc)
  qed (use Cons.prems(3) in \<open>auto simp: page_times_snoc\<close>)
  moreover from this have "page_times e ?pre \<in> {[], [now]}" by simp
  note Cons.IH [OF alert_step_agree [OF Cons.prems(1) s] m this Cons.prems(4)]
  ultimately show ?case by (auto simp: log)
qed auto

lemma v2_block_paged_per_report:
  assumes "stamps_agree c pre (di_policy (al_dispatcher st))" "dispatch r pct now st = (log, st')"
    "i \<notin> snd ` set (tr_parked r)"
  shows "page_times (Blocked_Item i) (pre @ log) = (if i \<in> set (v2_alerts r) then [now] else [])"
proof -
  let ?spins = "keep_spins (tr_parked r) (al_spin_parks st)" and ?e = "Blocked_Item i"
  obtain link since alerted where w: "link_watch (tr_waiting r) now (al_offline_since st, al_offline_alerted st) = (link, since, alerted)"
    by (metis prod_cases3)
  have link: "\<not> same_subject ?e f" if "f \<in> set link" for f
    using w that by (auto simp: same_subject_def Let_def split: if_splits)
  obtain l1 d1 where l1: "alert_run (map (\<lambda>e. Raise e now) (early_events r)) (al_dispatcher st) = (l1, d1)" by fastforce
  let ?rec = "(Reconcile (map snd (tr_parked r)), [], [])"
  obtain l2 d2 where l2: "alert_run (map (\<lambda>e. Raise e now) (late_events r ?spins pct @ link))
      (reconcile_alerts (map snd (tr_parked r)) d1) = (l2, d2)" by fastforce
  have log: "log = l1 @ ?rec # l2"
    using assms(2) l1 l2 by (auto simp: dispatch_def Let_def w tick_ops_def alert_run_append simp del: link_watch.simps split: prod.splits)
  have agree: "stamps_agree c ((pre @ l1) @ [?rec]) (di_policy (reconcile_alerts (map snd (tr_parked r)) d1))"
    by (rule alert_step_agree [OF alert_run_agree [OF assms(1) l1]]) simp
  have "page_times ?e ((pre @ l1) @ [?rec]) = []"
    using assms(3) by (simp add: page_times_snoc del: append_assoc)
  then have "page_times ?e (((pre @ l1) @ [?rec]) @ l2) =
      (if \<exists>f \<in> set (late_events r ?spins pct @ link). same_subject ?e f then [now] else [])"
    using raise_all [OF agree l2, of ?e] by (simp add: reminder_wait_def)
  moreover have "\<not> same_subject ?e (parked_event ?spins k)" if "k \<in> set (tr_parked r)" for k
    using assms(3) that by (auto simp: parked_event_def same_subject_def split: option.split)
  then have "(\<exists>f \<in> set (late_events r ?spins pct @ link). same_subject ?e f) \<longleftrightarrow> i \<in> set (v2_alerts r)"
    using link by (auto simp: late_events_def bex_Un same_subject_def)
  ultimately show ?thesis by (simp add: log)
qed

end
