(* ===== verification/Queue_Pick.thy ===== *)
theory Queue_Pick
  imports Supervisor
begin

text \<open>
  The fleet's pick over the legacy queues (\<^verbatim>\<open>crates/softfig-growlightd/src/scheduler.rs\<close>):
  the head of a queue, the pinned pick with its fallback, the marks of one tick; and the loop of
  the drive loop that claims parts for the free members over one working copy of the snapshot.
\<close>

section \<open>The snapshot\<close>

datatype part_status = Part_Active | Part_Queued | Part_Blocked | Part_Deferred | Part_Done | Part_Other

definition part_status_parse :: "string \<Rightarrow> part_status" where
  "part_status_parse s =
     (if s = ''active'' then Part_Active
      else if s = ''queued'' then Part_Queued
      else if s = ''blocked'' then Part_Blocked
      else if s = ''deferred'' then Part_Deferred
      else if s = ''done'' then Part_Done
      else Part_Other)"

datatype claim_hold = Human_Only string | Unreadable string | Not_Yet string | Bad_Start_Time string

fun hold_reason :: "claim_hold \<Rightarrow> string" where
  "hold_reason (Human_Only v) = ''human-only (> Fleet: '' @ v @ '')''"
| "hold_reason (Unreadable e) = ''fleet marker unreadable: '' @ e"
| "hold_reason (Not_Yet v) = ''scheduled (> Not before: '' @ v @ '')''"
| "hold_reason (Bad_Start_Time e) = ''start time unreadable: '' @ e"

fun waits_for :: "claim_hold \<Rightarrow> string" where
  "waits_for (Not_Yet _) = ''its start time''"
| "waits_for _ = ''the human''"

record part_view =
  pa_id :: string
  pa_status :: part_status
  pa_hold :: "claim_hold option"

definition part_view_new :: "string \<Rightarrow> string \<Rightarrow> part_view" where
  "part_view_new i status = \<lparr>pa_id = i, pa_status = part_status_parse status, pa_hold = None\<rparr>"

definition part_claimable :: "part_view \<Rightarrow> bool" where
  "part_claimable p \<longleftrightarrow> pa_status p = Part_Queued \<and> pa_hold p = None"

record stream_view =
  qu_name :: string
  qu_parts :: "part_view list"

type_synonym queues = "stream_view list"

definition queue_of :: "string \<Rightarrow> queues \<Rightarrow> stream_view option" where
  "queue_of name s = find (\<lambda>q. qu_name q = name) s"

text \<open>A change of the first element that satisfies a test.\<close>

fun map_first :: "('a \<Rightarrow> bool) \<Rightarrow> ('a \<Rightarrow> 'a) \<Rightarrow> 'a list \<Rightarrow> 'a list" where
  "map_first P f [] = []"
| "map_first P f (x # xs) = (if P x then f x # xs else x # map_first P f xs)"

definition on_part :: "string \<Rightarrow> string \<Rightarrow> (part_view \<Rightarrow> part_view) \<Rightarrow> queues \<Rightarrow> queues" where
  "on_part queue part f =
     map_first (\<lambda>q. qu_name q = queue) (\<lambda>q. q\<lparr>qu_parts := map_first (\<lambda>p. pa_id p = part) f (qu_parts q)\<rparr>)"

definition mark_claimed :: "string \<Rightarrow> string \<Rightarrow> queues \<Rightarrow> queues" where
  "mark_claimed queue part = on_part queue part (\<lambda>p. p\<lparr>pa_status := Part_Active\<rparr>)"

definition mark_blocked :: "string \<Rightarrow> string \<Rightarrow> queues \<Rightarrow> queues" where
  "mark_blocked queue part = on_part queue part (\<lambda>p. p\<lparr>pa_status := Part_Blocked\<rparr>)"

definition mark_held :: "string \<Rightarrow> string \<Rightarrow> claim_hold \<Rightarrow> queues \<Rightarrow> queues" where
  "mark_held queue part h =
     on_part queue part (\<lambda>p. if pa_status p = Part_Queued then p\<lparr>pa_hold := Some h\<rparr> else p)"

section \<open>The pick\<close>

datatype stream_head = Head_Active string | Head_Ready string | Head_Blocked string | Head_Empty

fun classify_parts :: "part_view list \<Rightarrow> stream_head" where
  "classify_parts [] = Head_Empty"
| "classify_parts (p # ps) =
     (case pa_status p of
        Part_Active \<Rightarrow> Head_Active (pa_id p)
      | Part_Queued \<Rightarrow> if part_claimable p then Head_Ready (pa_id p) else classify_parts ps
      | Part_Blocked \<Rightarrow> Head_Blocked (pa_id p)
      | _ \<Rightarrow> classify_parts ps)"

definition classify_queue :: "stream_view \<Rightarrow> stream_head" where
  "classify_queue q = classify_parts (qu_parts q)"

fun pick_fallback :: "queues \<Rightarrow> string option \<Rightarrow> string set \<Rightarrow> (string \<times> string) option" where
  "pick_fallback [] pin reserved = None"
| "pick_fallback (q # qs) pin reserved =
     (if Some (qu_name q) = pin \<or> qu_name q \<in> reserved then pick_fallback qs pin reserved
      else (case classify_queue q of
              Head_Ready i \<Rightarrow> Some (qu_name q, i)
            | _ \<Rightarrow> pick_fallback qs pin reserved))"

definition pick_for :: "queues \<Rightarrow> string option \<Rightarrow> string set \<Rightarrow> (string \<times> string) option" where
  "pick_for s pin reserved =
     (case (case pin of
              None \<Rightarrow> None
            | Some name \<Rightarrow>
                (case queue_of name s of
                   None \<Rightarrow> None
                 | Some q \<Rightarrow>
                     (case classify_queue q of
                        Head_Active i \<Rightarrow> Some (name, i)
                      | Head_Ready i \<Rightarrow> Some (name, i)
                      | _ \<Rightarrow> None))) of
        Some r \<Rightarrow> Some r
      | None \<Rightarrow> pick_fallback s pin reserved)"

definition pick_part :: "queues \<Rightarrow> string option \<Rightarrow> (string \<times> string) option" where
  "pick_part s pin = pick_for s pin {}"

definition parked_heads :: "queues \<Rightarrow> (string \<times> string) list" where
  "parked_heads s =
     concat (map (\<lambda>q. case classify_queue q of Head_Blocked i \<Rightarrow> [(qu_name q, i)] | _ \<Rightarrow> []) s)"

definition held_parts :: "queues \<Rightarrow> (string \<times> string \<times> claim_hold) list" where
  "held_parts s =
     concat (map (\<lambda>q. concat (map (\<lambda>p.
       (case (pa_status p, pa_hold p) of
          (Part_Queued, Some h) \<Rightarrow> [(qu_name q, pa_id p, h)]
        | _ \<Rightarrow> [])) (qu_parts q))) s)"

section \<open>The claims of a tick\<close>

text \<open>
  The working state of the claim step: the marked snapshot, the parts spoken for, what has been
  announced, the holds with the time they were read, and what the tick reports.
\<close>

type_synonym part_key = "string \<times> string"

record claim_loop =
  cl_queues :: queues
  cl_spoken :: "part_key set"
  cl_announced_foreign :: "part_key set"
  cl_announced_holds :: "part_key \<rightharpoonup> claim_hold"
  cl_holds :: "part_key \<rightharpoonup> claim_hold \<times> int"
  cl_foreign :: "part_key list"
  cl_skipped :: "(part_key \<times> string \<times> string) list"
  cl_held_fresh :: "(string \<times> string) list"
  cl_claimed :: "(string \<times> part_key) list"

definition is_fresh :: "queues \<Rightarrow> part_key \<Rightarrow> bool" where
  "is_fresh s key =
     (case queue_of (fst key) s of
        None \<Rightarrow> False
      | Some q \<Rightarrow> list_ex (\<lambda>p. pa_id p = snd key \<and> pa_status p = Part_Queued) (qu_parts q))"

definition note_foreign :: "part_key \<Rightarrow> claim_loop \<Rightarrow> claim_loop" where
  "note_foreign key st =
     (if key \<in> cl_announced_foreign st then st
      else st\<lparr>cl_announced_foreign := insert key (cl_announced_foreign st), cl_foreign := cl_foreign st @ [key]\<rparr>)"

definition note_hold :: "part_key \<Rightarrow> claim_hold \<Rightarrow> int \<Rightarrow> claim_loop \<Rightarrow> claim_loop" where
  "note_hold key h now st =
     st\<lparr>cl_announced_holds := (cl_announced_holds st)(key \<mapsto> h),
        cl_skipped := (if cl_announced_holds st key = None
                       then cl_skipped st @ [(key, hold_reason h, waits_for h)] else cl_skipped st),
        cl_queues := mark_held (fst key) (snd key) h (cl_queues st),
        cl_holds := (cl_holds st)(key \<mapsto> (h, now))\<rparr>"

fun fresh_pick ::
  "nat \<Rightarrow> (part_key \<Rightarrow> claim_hold option) \<Rightarrow> string set \<Rightarrow> int \<Rightarrow> string option \<Rightarrow> claim_loop \<Rightarrow>
     (part_key option \<times> claim_loop) option" where
  "fresh_pick 0 hold_of reserved now pin st = None"
| "fresh_pick (Suc fuel) hold_of reserved now pin st =
     (case pick_for (cl_queues st) pin reserved of
        None \<Rightarrow> Some (None, st)
      | Some key \<Rightarrow>
          (if key \<in> cl_spoken st then Some (Some key, st)
           else if \<not> is_fresh (cl_queues st) key
           then fresh_pick fuel hold_of reserved now None (note_foreign key st)
           else (case hold_of key of
                   None \<Rightarrow> Some (Some key, st\<lparr>cl_announced_holds := (cl_announced_holds st)(key := None)\<rparr>)
                 | Some h \<Rightarrow> fresh_pick fuel hold_of reserved now pin (note_hold key h now st))))"

text \<open>Fuel: a pass gives up the pin or holds one more claimable part.\<close>

definition claimables :: "queues \<Rightarrow> nat" where
  "claimables s = sum_list (map (\<lambda>q. length (filter part_claimable (qu_parts q))) s)"

definition pick_fuel :: "string option \<Rightarrow> queues \<Rightarrow> nat" where
  "pick_fuel pin s = claimables s + (if pin = None then 1 else 2)"

fun claim_landed :: "start_outcome \<Rightarrow> bool" where
  "claim_landed Started \<longleftrightarrow> True"
| "claim_landed (Start_Spawn_Failed _) \<longleftrightarrow> True"
| "claim_landed (Start_Hold _ _) \<longleftrightarrow> True"
| "claim_landed _ \<longleftrightarrow> False"

definition fresh_start ::
  "(part_key \<Rightarrow> claim_hold option) \<Rightarrow> (string \<Rightarrow> part_key \<Rightarrow> start_outcome) \<Rightarrow> int \<Rightarrow>
     string \<Rightarrow> string option \<Rightarrow> string set \<Rightarrow> claim_loop \<Rightarrow> claim_loop option" where
  "fresh_start hold_of start now agent pin reserved st =
     (case fresh_pick (pick_fuel pin (cl_queues st)) hold_of reserved now pin st of
        None \<Rightarrow> None
      | Some (None, st1) \<Rightarrow> Some (st1\<lparr>cl_held_fresh := cl_held_fresh st1 @ [(agent, ''no workable part'')]\<rparr>)
      | Some (Some key, st1) \<Rightarrow>
          Some (if key \<in> cl_spoken st1
                then st1\<lparr>cl_held_fresh := cl_held_fresh st1 @ [(agent, ''part already claimed'')]\<rparr>
                else if claim_landed (start agent key)
                then st1\<lparr>cl_queues := mark_claimed (fst key) (snd key) (cl_queues st1),
                         cl_spoken := insert key (cl_spoken st1),
                         cl_claimed := cl_claimed st1 @ [(agent, key)]\<rparr>
                else st1))"

text \<open>The free members of the fleet in order, each with its pin and the queues reserved for others.\<close>

type_synonym free_member = "string \<times> string option \<times> string set"

fun fresh_round ::
  "(part_key \<Rightarrow> claim_hold option) \<Rightarrow> (string \<Rightarrow> part_key \<Rightarrow> start_outcome) \<Rightarrow> int \<Rightarrow>
     free_member list \<Rightarrow> claim_loop \<Rightarrow> claim_loop option" where
  "fresh_round hold_of start now [] st = Some st"
| "fresh_round hold_of start now ((agent, pin, reserved) # ms) st =
     Option.bind (fresh_start hold_of start now agent pin reserved st) (fresh_round hold_of start now ms)"

definition claim_loop_new :: "queues \<Rightarrow> part_key set \<Rightarrow> part_key set \<Rightarrow> (part_key \<rightharpoonup> claim_hold) \<Rightarrow>
    (part_key \<rightharpoonup> claim_hold \<times> int) \<Rightarrow> claim_loop" where
  "claim_loop_new s spoken foreign announced holds =
     \<lparr>cl_queues = s, cl_spoken = spoken, cl_announced_foreign = foreign, cl_announced_holds = announced,
      cl_holds = holds, cl_foreign = [], cl_skipped = [], cl_held_fresh = [], cl_claimed = []\<rparr>"

end
