(* ===== verification/Queue_Claims.thy ===== *)
theory Queue_Claims
  imports Queue_Pick
begin

text \<open>
  What the claim step of a tick hands out over the legacy queues: a claimable part that comes next
  in its queue, to one member only, from a queue that is the member's own or nobody else's.
\<close>

section \<open>Heads\<close>

definition passed_over :: "part_view \<Rightarrow> bool" where
  "passed_over p \<longleftrightarrow>
     pa_status p \<in> {Part_Deferred, Part_Done, Part_Other} \<or> (pa_status p = Part_Queued \<and> pa_hold p \<noteq> None)"

definition queues_ok :: "queues \<Rightarrow> bool" where
  "queues_ok s \<longleftrightarrow> distinct (map qu_name s) \<and> list_all (\<lambda>q. distinct (map pa_id (qu_parts q))) s"

lemma classify_Ready_split:
  "classify_parts ps = Head_Ready i \<Longrightarrow>
     \<exists>us p vs. ps = us @ p # vs \<and> pa_id p = i \<and> part_claimable p \<and> list_all passed_over us"
proof (induction ps)
  case (Cons p ps)
  show ?case
  proof (cases "part_claimable p \<and> pa_id p = i")
    case True
    then show ?thesis by (intro exI [of _ "[]"]) simp
  next
    case False
    then have p: "passed_over p" "classify_parts ps = Head_Ready i"
      using Cons.prems by (auto simp: passed_over_def part_claimable_def split: part_status.splits if_splits)
    obtain us q vs where "ps = us @ q # vs" "pa_id q = i" "part_claimable q" "list_all passed_over us"
      using Cons.IH [OF p(2)] by blast
    then show ?thesis using p(1) by (intro exI [of _ "p # us"]) simp
  qed
qed simp

lemma classify_Ready_intro:
  "list_all passed_over us \<Longrightarrow> part_claimable p \<Longrightarrow> classify_parts (us @ p # vs) = Head_Ready (pa_id p)"
  by (induction us) (auto simp: passed_over_def part_claimable_def split: part_status.splits)

lemma classify_Active_mem: "classify_parts ps = Head_Active i \<Longrightarrow> \<exists>p \<in> set ps. pa_id p = i \<and> pa_status p = Part_Active"
  by (induction ps) (auto split: part_status.splits if_splits)

lemma queue_of_Some: "queue_of n s = Some q \<Longrightarrow> q \<in> set s \<and> qu_name q = n"
  by (induction s) (auto simp: queue_of_def split: if_splits)

lemma queue_of_mem: "queues_ok s \<Longrightarrow> q \<in> set s \<Longrightarrow> queue_of (qu_name q) s = Some q"
  by (induction s) (auto simp: queue_of_def queues_ok_def)

lemma pick_fallback_Some:
  "pick_fallback s pin reserved = Some (n, i) \<Longrightarrow>
     \<exists>q \<in> set s. qu_name q = n \<and> classify_queue q = Head_Ready i \<and> Some n \<noteq> pin \<and> n \<notin> reserved"
  by (induction s) (auto split: stream_head.splits if_splits)

lemma pick_fallback_None:
  "pick_fallback s pin reserved = None \<Longrightarrow> q \<in> set s \<Longrightarrow> classify_queue q = Head_Ready i \<Longrightarrow>
     Some (qu_name q) = pin \<or> qu_name q \<in> reserved"
  by (induction s) (auto split: stream_head.splits if_splits)

lemma pick_for_Some:
  assumes "pick_for s pin reserved = Some (n, i)"
  shows "\<exists>q \<in> set s. qu_name q = n \<and>
    (classify_queue q = Head_Ready i \<and> (pin = Some n \<or> n \<notin> reserved) \<or>
     classify_queue q = Head_Active i \<and> pin = Some n)"
proof (cases "pick_fallback s pin reserved = Some (n, i)")
  case True
  then show ?thesis using pick_fallback_Some by blast
next
  case False
  then obtain q where "pin = Some n" "queue_of n s = Some q"
      "classify_queue q = Head_Ready i \<or> classify_queue q = Head_Active i"
    using assms by (auto simp: pick_for_def split: option.splits stream_head.splits)
  then show ?thesis using queue_of_Some by blast
qed

lemma pick_for_None:
  assumes "queues_ok s" "pick_for s pin reserved = None" "q \<in> set s" "classify_queue q = Head_Ready i"
  shows "qu_name q \<in> reserved"
proof (cases "Some (qu_name q) = pin")
  case True
  then show ?thesis using assms(2,4) queue_of_mem [OF assms(1,3)] by (auto simp: pick_for_def split: option.splits)
next
  case False
  moreover have "pick_fallback s pin reserved = None" using assms(2) by (auto simp: pick_for_def split: option.splits)
  ultimately show ?thesis using pick_fallback_None assms(3,4) by blast
qed

section \<open>The marks\<close>

lemma map_first_ids: "(\<And>x. g (f x) = g x) \<Longrightarrow> map g (map_first P f xs) = map g xs"
  by (induction xs) auto

lemma queues_ok_on_part:
  assumes "\<And>p. pa_id (f p) = pa_id p" "queues_ok s"
  shows "queues_ok (on_part n i f s)"
proof -
  have "map pa_id (map_first P f ps) = map pa_id ps" for P ps by (rule map_first_ids) (rule assms(1))
  then have "list_all (\<lambda>q. distinct (map pa_id (qu_parts q))) s \<Longrightarrow>
      list_all (\<lambda>q. distinct (map pa_id (qu_parts q))) (on_part n i f s)"
    by (induction s) (auto simp: on_part_def)
  moreover have "map qu_name (on_part n i f s) = map qu_name s"
    unfolding on_part_def by (rule map_first_ids) simp
  ultimately show ?thesis using assms(2) by (simp add: queues_ok_def)
qed

lemma queues_ok_marks [simp]:
  "queues_ok s \<Longrightarrow> queues_ok (mark_claimed n i s)" "queues_ok s \<Longrightarrow> queues_ok (mark_held n i h s)"
  by (simp_all add: mark_claimed_def mark_held_def queues_ok_on_part)

text \<open>The working copy against the snapshot: parts the markers hold, and parts claimed so far.\<close>

definition part_rel :: "(part_key \<Rightarrow> claim_hold option) \<Rightarrow> part_key set \<Rightarrow> string \<Rightarrow> part_view \<Rightarrow> part_view \<Rightarrow> bool" where
  "part_rel hold_of C n p p' \<longleftrightarrow> pa_id p' = pa_id p \<and>
     (pa_status p' = pa_status p \<or>
      pa_status p' = Part_Active \<and> (n, pa_id p) \<in> C) \<and>
     (pa_hold p' = pa_hold p \<or> pa_status p = Part_Queued \<and> hold_of (n, pa_id p) \<noteq> None \<and> pa_hold p' \<noteq> None)"

definition queue_rel :: "(part_key \<Rightarrow> claim_hold option) \<Rightarrow> part_key set \<Rightarrow> stream_view \<Rightarrow> stream_view \<Rightarrow> bool" where
  "queue_rel hold_of C q q' \<longleftrightarrow> qu_name q' = qu_name q \<and>
     list_all2 (part_rel hold_of C (qu_name q)) (qu_parts q) (qu_parts q')"

definition snap_rel :: "(part_key \<Rightarrow> claim_hold option) \<Rightarrow> part_key set \<Rightarrow> queues \<Rightarrow> queues \<Rightarrow> bool" where
  "snap_rel hold_of C = list_all2 (queue_rel hold_of C)"

lemma list_all2_map_first:
  assumes "list_all2 R xs ys" "\<And>x y. R x y \<Longrightarrow> P y \<Longrightarrow> R' x (f y)" "\<And>x y. R x y \<Longrightarrow> R' x y"
  shows "list_all2 R' xs (map_first P f ys)"
  using assms(1)
proof (induction rule: list_all2_induct)
  case (Cons x xs y ys)
  then show ?case using assms(2,3) by (auto elim: list.rel_mono_strong)
qed simp

lemma snap_rel_on_part:
  assumes "snap_rel hold_of C s t" "C \<subseteq> C'"
    and "\<And>p p'. part_rel hold_of C n p p' \<Longrightarrow> pa_id p' = i \<Longrightarrow> part_rel hold_of C' n p (f p')"
  shows "snap_rel hold_of C' s (on_part n i f t)"
proof -
  have mono: "part_rel hold_of C m p p' \<Longrightarrow> part_rel hold_of C' m p p'" for m p p'
    using assms(2) by (auto simp: part_rel_def)
  show ?thesis
    unfolding snap_rel_def on_part_def
  proof (rule list_all2_map_first [OF assms(1) [unfolded snap_rel_def]])
    show "queue_rel hold_of C q q' \<Longrightarrow> queue_rel hold_of C' q q'" for q q'
      using mono by (auto simp: queue_rel_def elim: list.rel_mono_strong)
    show "queue_rel hold_of C q q' \<Longrightarrow> qu_name q' = n \<Longrightarrow>
        queue_rel hold_of C' q (q'\<lparr>qu_parts := map_first (\<lambda>p. pa_id p = i) f (qu_parts q')\<rparr>)" for q q'
      using assms(3) mono by (auto simp: queue_rel_def intro!: list_all2_map_first)
  qed
qed

lemma snap_rel_held:
  assumes "snap_rel hold_of C s t" "hold_of (n, i) \<noteq> None"
  shows "snap_rel hold_of C s (mark_held n i h t)"
  unfolding mark_held_def
  by (rule snap_rel_on_part [OF assms(1)]) (use assms(2) in \<open>auto simp: part_rel_def\<close>)

lemma snap_rel_refl: "snap_rel hold_of C s s"
  by (auto simp: snap_rel_def queue_rel_def part_rel_def intro!: list.rel_refl)

section \<open>Fuel\<close>

lemma map_first_split: "\<forall>u \<in> set us. \<not> P u \<Longrightarrow> P p \<Longrightarrow> map_first P f (us @ p # vs) = us @ f p # vs"
  by (induction us) auto

lemma Ready_parts:
  assumes "distinct (map pa_id (qu_parts q))" "classify_queue q = Head_Ready i"
  obtains us p vs where "qu_parts q = us @ p # vs" "pa_id p = i" "part_claimable p" "list_all passed_over us"
    "\<forall>u \<in> set us. pa_id u \<noteq> i"
proof -
  obtain us p vs where *: "qu_parts q = us @ p # vs" "pa_id p = i" "part_claimable p" "list_all passed_over us"
    using classify_Ready_split assms(2) unfolding classify_queue_def by blast
  moreover have "\<forall>u \<in> set us. pa_id u \<noteq> i" using assms(1) *(1,2) by (force simp: image_iff)
  ultimately show ?thesis using that by blast
qed

lemma fresh_iff_Ready:
  assumes "queues_ok s" "q \<in> set s" "classify_queue q = Head_Ready i \<or> classify_queue q = Head_Active i"
  shows "is_fresh s (qu_name q, i) \<longleftrightarrow> classify_queue q = Head_Ready i"
proof -
  have d: "distinct (map pa_id (qu_parts q))" using assms(1,2) by (simp add: queues_ok_def list_all_iff)
  have q: "queue_of (qu_name q) s = Some q" by (rule queue_of_mem [OF assms(1,2)])
  show ?thesis
  proof
    assume ready: "classify_queue q = Head_Ready i"
    obtain us p vs where "qu_parts q = us @ p # vs" "pa_id p = i" "part_claimable p" by (rule Ready_parts [OF d ready])
    then show "is_fresh s (qu_name q, i)" by (simp add: is_fresh_def q part_claimable_def)
  next
    assume "is_fresh s (qu_name q, i)"
    then obtain p where p: "p \<in> set (qu_parts q)" "pa_id p = i" "pa_status p = Part_Queued"
      by (auto simp: is_fresh_def q list_ex_iff)
    show "classify_queue q = Head_Ready i"
    proof (rule ccontr)
      assume "classify_queue q \<noteq> Head_Ready i"
      then obtain p' where "p' \<in> set (qu_parts q)" "pa_id p' = i" "pa_status p' = Part_Active"
        using assms(3) classify_Active_mem unfolding classify_queue_def by blast
      then have "p = p'" using p d by (auto simp: distinct_map inj_on_def)
      then show False using p \<open>pa_status p' = Part_Active\<close> by simp
    qed
  qed
qed

lemma claimables_held:
  assumes "queues_ok s" "q \<in> set s" "classify_queue q = Head_Ready i"
  shows "claimables (mark_held (qu_name q) i h s) < claimables s"
  using assms(1,2)
proof (induction s)
  case (Cons r s)
  show ?case
  proof (cases "r = q")
    case True
    have d: "distinct (map pa_id (qu_parts q))" using Cons.prems True by (simp add: queues_ok_def)
    obtain us p vs where "qu_parts q = us @ p # vs" "pa_id p = i" "part_claimable p" "\<forall>u \<in> set us. pa_id u \<noteq> i"
      by (rule Ready_parts [OF d assms(3)])
    then show ?thesis
      by (simp add: True mark_held_def on_part_def claimables_def map_first_split part_claimable_def)
  next
    case False
    then have "q \<in> set s" "queues_ok s" "qu_name r \<noteq> qu_name q" using Cons.prems by (auto simp: queues_ok_def)
    then show ?thesis using Cons.IH by (simp add: mark_held_def on_part_def claimables_def)
  qed
qed simp

lemma note_hold_fields [simp]:
  "cl_queues (note_hold key h now st) = mark_held (fst key) (snd key) h (cl_queues st)"
  "cl_spoken (note_hold key h now st) = cl_spoken st"
  "cl_claimed (note_hold key h now st) = cl_claimed st"
  "cl_held_fresh (note_hold key h now st) = cl_held_fresh st"
  by (simp_all add: note_hold_def)

lemma note_foreign_fields [simp]:
  "cl_queues (note_foreign key st) = cl_queues st"
  "cl_spoken (note_foreign key st) = cl_spoken st"
  "cl_claimed (note_foreign key st) = cl_claimed st"
  "cl_held_fresh (note_foreign key st) = cl_held_fresh st"
  by (simp_all add: note_foreign_def)

lemma fresh_pick_returns:
  assumes "queues_ok (cl_queues st)" "pick_fuel pin (cl_queues st) \<le> fuel"
  shows "fresh_pick fuel hold_of reserved now pin st \<noteq> None"
  using assms
proof (induction fuel arbitrary: pin st)
  case 0
  then show ?case by (simp add: pick_fuel_def split: if_splits)
next
  case (Suc fuel)
  show ?case
  proof (cases "pick_for (cl_queues st) pin reserved")
    case (Some key)
    obtain n i where key: "key = (n, i)" by fastforce
    obtain q where q: "q \<in> set (cl_queues st)" "qu_name q = n"
      and head: "classify_queue q = Head_Ready i \<or> classify_queue q = Head_Active i \<and> pin = Some n"
      using pick_for_Some [OF Some [unfolded key]] by blast
    have fresh: "is_fresh (cl_queues st) key \<longleftrightarrow> classify_queue q = Head_Ready i"
      using fresh_iff_Ready [OF Suc.prems(1) q(1), of i] head by (auto simp: key q(2))
    show ?thesis
    proof (cases "is_fresh (cl_queues st) key")
      case True
      have fuel: "pick_fuel pin (mark_held n i h (cl_queues st)) \<le> fuel" for h
      proof -
        have "claimables (mark_held n i h (cl_queues st)) < claimables (cl_queues st)"
          using claimables_held [OF Suc.prems(1) q(1), of i h] fresh True by (simp add: q(2))
        then show ?thesis using Suc.prems(2) by (simp add: pick_fuel_def)
      qed
      have "fresh_pick fuel hold_of reserved now pin (note_hold key h now st) \<noteq> None" for h
        by (rule Suc.IH) (use Suc.prems(1) fuel in \<open>simp_all add: key\<close>)
      then show ?thesis using True by (simp add: Some split: option.split)
    next
      case False
      then have "pin = Some n" using fresh head by auto
      then have "pick_fuel None (cl_queues st) \<le> fuel" using Suc.prems(2) by (simp add: pick_fuel_def)
      then have "fresh_pick fuel hold_of reserved now None (note_foreign key st) \<noteq> None"
        by (intro Suc.IH) (use Suc.prems(1) in simp_all)
      then show ?thesis using False by (simp add: Some)
    qed
  qed simp
qed

section \<open>What is claimed\<close>

text \<open>
  A part of the snapshot that is next for the fleet: queued, held neither in the snapshot nor by
  its own document, and every earlier part of its queue is rolled past or held.
\<close>

definition skipped :: "(part_key \<Rightarrow> claim_hold option) \<Rightarrow> string \<Rightarrow> part_view \<Rightarrow> bool" where
  "skipped hold_of n u \<longleftrightarrow> passed_over u \<or> (pa_status u = Part_Queued \<and> hold_of (n, pa_id u) \<noteq> None)"

definition next_up :: "(part_key \<Rightarrow> claim_hold option) \<Rightarrow> queues \<Rightarrow> part_key \<Rightarrow> bool" where
  "next_up hold_of s key \<longleftrightarrow>
     (\<exists>q \<in> set s. \<exists>us p vs. qu_name q = fst key \<and> qu_parts q = us @ p # vs \<and> pa_id p = snd key \<and>
        part_claimable p \<and> hold_of key = None \<and> list_all (skipped hold_of (fst key)) us)"

lemma next_up_part:
  assumes "queues_ok s" "next_up hold_of s (qu_name q, pa_id p)" "q \<in> set s" "p \<in> set (qu_parts q)"
  shows "part_claimable p" "hold_of (qu_name q, pa_id p) = None"
proof -
  obtain r p' where r: "r \<in> set s" "qu_name r = qu_name q" "p' \<in> set (qu_parts r)" "pa_id p' = pa_id p" "part_claimable p'"
    and h: "hold_of (qu_name q, pa_id p) = None"
    using assms(2) unfolding next_up_def by (fastforce simp: in_set_conv_decomp)
  have "r = q" using queue_of_mem [OF assms(1)] r(1,2) assms(3) by (metis option.inject)
  moreover have "distinct (map pa_id (qu_parts q))" using assms(1,3) by (simp add: queues_ok_def list_all_iff)
  ultimately have "p' = p" using r(3,4) assms(4) by (auto simp: distinct_map inj_on_def)
  then show "part_claimable p" "hold_of (qu_name q, pa_id p) = None" using r(5) h by simp_all
qed

text \<open>A claimable head of the working copy is next in the snapshot.\<close>

lemma Ready_next_up:
  assumes "snap_rel hold_of C s t" "q' \<in> set t" "classify_queue q' = Head_Ready i" "hold_of (qu_name q', i) = None"
  shows "next_up hold_of s (qu_name q', i)"
proof -
  let ?n = "qu_name q'"
  obtain q where q: "q \<in> set s" "qu_name q = ?n" "list_all2 (part_rel hold_of C ?n) (qu_parts q) (qu_parts q')"
    using assms(1,2) unfolding snap_rel_def queue_rel_def
    by (smt (verit) list_all2_conv_all_nth in_set_conv_nth)
  obtain us' p' vs' where p': "qu_parts q' = us' @ p' # vs'" "pa_id p' = i" "part_claimable p'" "list_all passed_over us'"
    using classify_Ready_split assms(3) unfolding classify_queue_def by blast
  obtain us p vs where p: "qu_parts q = us @ p # vs" "list_all2 (part_rel hold_of C ?n) us us'" "part_rel hold_of C ?n p p'"
    using q(3) by (auto simp: p'(1) list_all2_append2 list_all2_Cons2)
  have "part_claimable p" "pa_id p = i" using p(3) p'(2,3) by (auto simp: part_rel_def part_claimable_def)
  moreover have "list_all (skipped hold_of ?n) us"
    using p(2) p'(4)
    by (induction us us' rule: list_all2_induct) (auto simp: part_rel_def passed_over_def skipped_def)
  ultimately show ?thesis
    unfolding next_up_def using q(1,2) p(1) assms(4) by (intro bexI [of _ q]) auto
qed

text \<open>As long as the next part of a queue is not claimed, the working copy has a claimable head there.\<close>

lemma Ready_or_skip:
  "list_all (\<lambda>u. passed_over u \<or> part_claimable u) us \<Longrightarrow> part_claimable p \<Longrightarrow> \<exists>j. classify_parts (us @ p # vs) = Head_Ready j"
  by (induction us) (auto simp: passed_over_def part_claimable_def split: part_status.splits)

lemma next_up_Ready:
  assumes "queues_ok s" "snap_rel hold_of C s t" "\<forall>key \<in> C. next_up hold_of s key"
    and "next_up hold_of s (n, i)" "(n, i) \<notin> C"
  shows "\<exists>q' \<in> set t. qu_name q' = n \<and> (\<exists>j. classify_queue q' = Head_Ready j)"
proof -
  obtain q us p vs where q: "q \<in> set s" "qu_name q = n" "qu_parts q = us @ p # vs" "pa_id p = i" "part_claimable p"
      "hold_of (n, i) = None" "list_all (skipped hold_of n) us"
    using assms(4) by (auto simp: next_up_def)
  obtain q' where q': "q' \<in> set t" "queue_rel hold_of C q q'"
    using assms(2) q(1) unfolding snap_rel_def by (metis list_all2_conv_all_nth in_set_conv_nth)
  obtain us' p' vs' where p': "qu_parts q' = us' @ p' # vs'" "list_all2 (part_rel hold_of C n) us us'" "part_rel hold_of C n p p'"
    using q'(2) q(2) by (auto simp: queue_rel_def q(3) list_all2_append1 list_all2_Cons1)
  have "part_claimable p'" using p'(3) q(4-6) assms(5) by (auto simp: part_rel_def part_claimable_def)
  moreover have "passed_over u' \<or> part_claimable u'"
    if "part_rel hold_of C n u u'" "u \<in> set (qu_parts q)" "skipped hold_of n u" for u u'
  proof -
    have "(n, pa_id u) \<notin> C"
    proof
      assume "(n, pa_id u) \<in> C"
      then have "part_claimable u" "hold_of (n, pa_id u) = None"
        using next_up_part [OF assms(1), of hold_of q u] assms(3) q(1,2) that(2) by auto
      then show False using that(3) by (auto simp: skipped_def passed_over_def part_claimable_def)
    qed
    then show ?thesis using that(1,3) by (auto simp: part_rel_def skipped_def passed_over_def part_claimable_def)
  qed
  then have "list_all (\<lambda>u. passed_over u \<or> part_claimable u) us'"
    using p'(2) q(7) by (fastforce simp: list_all_iff q(3) list_all2_conv_all_nth in_set_conv_nth)
  ultimately have "\<exists>j. classify_queue q' = Head_Ready j"
    unfolding classify_queue_def p'(1) by (intro Ready_or_skip)
  then show ?thesis using q' q(2) by (auto simp: queue_rel_def)
qed

lemma fresh_pick_finds:
  assumes "fresh_pick fuel hold_of reserved now pin st = Some (r, st')"
    and "queues_ok (cl_queues st)" "snap_rel hold_of C s (cl_queues st)"
  shows "queues_ok (cl_queues st') \<and> snap_rel hold_of C s (cl_queues st') \<and>
    cl_spoken st' = cl_spoken st \<and> cl_claimed st' = cl_claimed st \<and> cl_held_fresh st' = cl_held_fresh st \<and>
    (case r of
       Some key \<Rightarrow> key \<notin> cl_spoken st \<longrightarrow> next_up hold_of s key \<and> (pin = Some (fst key) \<or> fst key \<notin> reserved)
     | None \<Rightarrow> \<forall>q \<in> set (cl_queues st'). \<forall>i. classify_queue q = Head_Ready i \<longrightarrow> qu_name q \<in> reserved)"
  using assms
proof (induction fuel arbitrary: pin st)
  case (Suc fuel)
  show ?case
  proof (cases "pick_for (cl_queues st) pin reserved")
    case None
    then have "r = None" "st' = st" using Suc.prems(1) by simp_all
    then show ?thesis using Suc.prems(2,3) pick_for_None [OF Suc.prems(2) None] by simp
  next
    case (Some key)
    obtain n i where key: "key = (n, i)" by fastforce
    obtain q where q: "q \<in> set (cl_queues st)" "qu_name q = n"
      and head: "classify_queue q = Head_Ready i \<and> (pin = Some n \<or> n \<notin> reserved) \<or>
        classify_queue q = Head_Active i \<and> pin = Some n"
      using pick_for_Some [OF Some [unfolded key]] by blast
    have fresh: "is_fresh (cl_queues st) key \<longleftrightarrow> classify_queue q = Head_Ready i"
      using fresh_iff_Ready [OF Suc.prems(2) q(1), of i] head by (auto simp: key q(2))
    consider (spoken) "key \<in> cl_spoken st" | (foreign) "key \<notin> cl_spoken st" "\<not> is_fresh (cl_queues st) key"
      | (held) h where "key \<notin> cl_spoken st" "is_fresh (cl_queues st) key" "hold_of key = Some h"
      | (free) "key \<notin> cl_spoken st" "is_fresh (cl_queues st) key" "hold_of key = None"
      by (cases "hold_of key") blast+
    then show ?thesis
    proof cases
      case spoken
      then have "r = Some key" "st' = st" using Suc.prems(1) by (simp_all add: Some)
      then show ?thesis using spoken Suc.prems(2,3) by simp
    next
      case foreign
      then have "fresh_pick fuel hold_of reserved now None (note_foreign key st) = Some (r, st')"
        using Suc.prems(1) by (simp add: Some)
      from Suc.IH [OF this] Suc.prems(2,3) show ?thesis by (cases r) simp_all
    next
      case held
      then have "fresh_pick fuel hold_of reserved now pin (note_hold key h now st) = Some (r, st')"
        using Suc.prems(1) by (simp add: Some)
      moreover have "snap_rel hold_of C s (mark_held n i h (cl_queues st))"
        by (rule snap_rel_held [OF Suc.prems(3)]) (use held(3) key in simp)
      ultimately show ?thesis
        using Suc.IH [of pin "note_hold key h now st"] Suc.prems(2) by (cases r) (simp_all add: key)
    next
      case free
      have "next_up hold_of s key"
        using Ready_next_up [OF Suc.prems(3) q(1), of i] fresh free by (simp add: q(2) key)
      moreover have "pin = Some (fst key) \<or> fst key \<notin> reserved" using head by (auto simp: key)
      moreover have "r = Some key" "cl_queues st' = cl_queues st" "cl_spoken st' = cl_spoken st"
        "cl_claimed st' = cl_claimed st" "cl_held_fresh st' = cl_held_fresh st"
        using Suc.prems(1) free by (auto simp: Some)
      ultimately show ?thesis using Suc.prems(2,3) by simp
    qed
  qed
qed simp

section \<open>A round\<close>

text \<open>A claim is the next part of a queue that is the member's own or not reserved.\<close>

definition claim_ok ::
  "(part_key \<Rightarrow> claim_hold option) \<Rightarrow> (string \<Rightarrow> part_key \<Rightarrow> start_outcome) \<Rightarrow> queues \<Rightarrow>
     free_member list \<Rightarrow> string \<times> part_key \<Rightarrow> bool" where
  "claim_ok hold_of start s ms c \<longleftrightarrow>
     next_up hold_of s (snd c) \<and> claim_landed (start (fst c) (snd c)) \<and>
     (\<exists>pin reserved. (fst c, pin, reserved) \<in> set ms \<and> (pin = Some (fst (snd c)) \<or> fst (snd c) \<notin> reserved))"

text \<open>A member without work: every next part is reserved for others or claimed.\<close>

definition idle_ok :: "(part_key \<Rightarrow> claim_hold option) \<Rightarrow> queues \<Rightarrow> free_member list \<Rightarrow> part_key set \<Rightarrow> string \<Rightarrow> bool" where
  "idle_ok hold_of s ms C agent \<longleftrightarrow>
     (\<exists>pin reserved. (agent, pin, reserved) \<in> set ms \<and>
        (\<forall>key. next_up hold_of s key \<longrightarrow> fst key \<in> reserved \<or> key \<in> C))"

lemma claim_ok_mono: "claim_ok hold_of start s ms c \<Longrightarrow> claim_ok hold_of start s (ms @ ns) c"
  unfolding claim_ok_def by auto

lemma idle_ok_mono:
  assumes "idle_ok hold_of s ms C agent" "C \<subseteq> D"
  shows "idle_ok hold_of s (ms @ ns) D agent"
proof -
  obtain pin reserved where m: "(agent, pin, reserved) \<in> set ms"
    and "\<forall>key. next_up hold_of s key \<longrightarrow> fst key \<in> reserved \<or> key \<in> C"
    using assms(1) unfolding idle_ok_def by blast
  then have "\<forall>key. next_up hold_of s key \<longrightarrow> fst key \<in> reserved \<or> key \<in> D" using assms(2) by blast
  then show ?thesis unfolding idle_ok_def using m by (intro exI [of _ pin] exI [of _ reserved]) simp
qed

definition claims_inv ::
  "(part_key \<Rightarrow> claim_hold option) \<Rightarrow> (string \<Rightarrow> part_key \<Rightarrow> start_outcome) \<Rightarrow> queues \<Rightarrow> part_key set \<Rightarrow>
     free_member list \<Rightarrow> claim_loop \<Rightarrow> bool" where
  "claims_inv hold_of start s spoken ms st \<longleftrightarrow>
     queues_ok (cl_queues st) \<and> snap_rel hold_of (snd ` set (cl_claimed st)) s (cl_queues st) \<and>
     cl_spoken st = spoken \<union> snd ` set (cl_claimed st) \<and>
     distinct (map snd (cl_claimed st)) \<and> snd ` set (cl_claimed st) \<inter> spoken = {} \<and>
     (\<forall>c \<in> set (cl_claimed st). claim_ok hold_of start s ms c) \<and>
     (\<forall>(agent, why) \<in> set (cl_held_fresh st). why = ''no workable part'' \<longrightarrow>
        idle_ok hold_of s ms (snd ` set (cl_claimed st)) agent)"

lemma claims_inv_extend:
  assumes "claims_inv hold_of start s spoken ms st"
    and st': "cl_claimed st' = cl_claimed st @ cs" "cl_held_fresh st' = cl_held_fresh st @ hs"
      "queues_ok (cl_queues st')" "snap_rel hold_of (snd ` set (cl_claimed st')) s (cl_queues st')"
      "cl_spoken st' = cl_spoken st \<union> snd ` set cs"
    and "distinct (map snd cs)" "snd ` set cs \<inter> cl_spoken st = {}"
    and cs: "\<forall>c \<in> set cs. claim_ok hold_of start s (ms @ ns) c"
    and hs: "\<forall>(agent, why) \<in> set hs. why = ''no workable part'' \<longrightarrow>
      idle_ok hold_of s (ms @ ns) (snd ` set (cl_claimed st')) agent"
  shows "claims_inv hold_of start s spoken (ms @ ns) st'"
proof -
  note inv = assms(1) [unfolded claims_inv_def]
  have C: "snd ` set (cl_claimed st) \<subseteq> snd ` set (cl_claimed st')" by (auto simp: st'(1))
  have "claim_ok hold_of start s (ms @ ns) c" if "c \<in> set (cl_claimed st')" for c
  proof (cases "c \<in> set cs")
    case False
    then have "claim_ok hold_of start s ms c" using that inv by (simp add: st'(1))
    then show ?thesis by (rule claim_ok_mono)
  qed (use cs in blast)
  moreover have "idle_ok hold_of s (ms @ ns) (snd ` set (cl_claimed st')) agent"
    if "(agent, ''no workable part'') \<in> set (cl_held_fresh st')" for agent
  proof (cases "(agent, ''no workable part'') \<in> set hs")
    case False
    then have "idle_ok hold_of s ms (snd ` set (cl_claimed st)) agent" using that inv by (auto simp: st'(2))
    from idle_ok_mono [OF this C] show ?thesis .
  qed (use hs in auto)
  moreover have "distinct (map snd (cl_claimed st'))" "snd ` set (cl_claimed st') \<inter> spoken = {}"
    "cl_spoken st' = spoken \<union> snd ` set (cl_claimed st')"
    using inv assms(6-8) by (auto simp: st'(1))
  ultimately show ?thesis unfolding claims_inv_def using st'(3,4) by blast
qed

lemma claims_step:
  assumes "queues_ok s" "claims_inv hold_of start s spoken ms st"
  obtains st' where "fresh_start hold_of start now agent pin reserved st = Some st'"
    "claims_inv hold_of start s spoken (ms @ [(agent, pin, reserved)]) st'"
proof -
  let ?C = "snd ` set (cl_claimed st)"
  note inv = assms(2) [unfolded claims_inv_def]
  obtain r st1 where pick: "fresh_pick (pick_fuel pin (cl_queues st)) hold_of reserved now pin st = Some (r, st1)"
    using fresh_pick_returns [of st pin _ hold_of reserved now] inv by fastforce
  have found: "queues_ok (cl_queues st1)" "snap_rel hold_of ?C s (cl_queues st1)"
    "cl_spoken st1 = cl_spoken st" "cl_claimed st1 = cl_claimed st" "cl_held_fresh st1 = cl_held_fresh st"
    "case r of
       Some key \<Rightarrow> key \<notin> cl_spoken st \<longrightarrow> next_up hold_of s key \<and> (pin = Some (fst key) \<or> fst key \<notin> reserved)
     | None \<Rightarrow> \<forall>q \<in> set (cl_queues st1). \<forall>i. classify_queue q = Head_Ready i \<longrightarrow> qu_name q \<in> reserved"
    using fresh_pick_finds [OF pick, of ?C s] inv by auto
  have keep: "claims_inv hold_of start s spoken (ms @ [(agent, pin, reserved)])
      (st1\<lparr>cl_held_fresh := cl_held_fresh st1 @ [(agent, why)]\<rparr>)"
    if "why = ''no workable part'' \<Longrightarrow> idle_ok hold_of s (ms @ [(agent, pin, reserved)]) ?C agent" for why
    by (rule claims_inv_extend [OF assms(2), where cs = "[]" and hs = "[(agent, why)]"])
      (use found(1-5) that in simp_all)
  show ?thesis
  proof (cases r)
    case None
    have "fst key \<in> reserved \<or> key \<in> ?C" if up: "next_up hold_of s key" for key
    proof (rule ccontr)
      assume not: "\<not> (fst key \<in> reserved \<or> key \<in> ?C)"
      have "\<forall>key \<in> ?C. next_up hold_of s key" using inv by (auto simp: claim_ok_def)
      then obtain q j where "q \<in> set (cl_queues st1)" "qu_name q = fst key" "classify_queue q = Head_Ready j"
        using next_up_Ready [OF assms(1) found(2), of "fst key" "snd key"] up not by auto
      then show False using found(6) not by (auto simp: None)
    qed
    then have "idle_ok hold_of s (ms @ [(agent, pin, reserved)]) ?C agent"
      unfolding idle_ok_def by (intro exI [of _ pin] exI [of _ reserved]) simp
    then show ?thesis using that keep pick by (simp add: fresh_start_def None)
  next
    case (Some key)
    show ?thesis
    proof (cases "key \<in> cl_spoken st")
      case True
      then show ?thesis
        using that keep [of "''part already claimed''"] pick found(3) by (simp add: fresh_start_def Some)
    next
      case False
      show ?thesis
      proof (cases "claim_landed (start agent key)")
        case True
        have rel: "snap_rel hold_of (insert key ?C) s (mark_claimed (fst key) (snd key) (cl_queues st1))"
          unfolding mark_claimed_def
          by (rule snap_rel_on_part [OF found(2)]) (auto simp: part_rel_def prod_eq_iff)
        have ok: "claim_ok hold_of start s (ms @ [(agent, pin, reserved)]) (agent, key)"
          using found(6) True False by (auto simp: Some claim_ok_def)
        let ?st = "st1\<lparr>cl_queues := mark_claimed (fst key) (snd key) (cl_queues st1),
          cl_spoken := insert key (cl_spoken st1), cl_claimed := cl_claimed st1 @ [(agent, key)]\<rparr>"
        have "fresh_start hold_of start now agent pin reserved st = Some ?st"
          using pick False True by (simp add: fresh_start_def Some found(3))
        moreover have "claims_inv hold_of start s spoken (ms @ [(agent, pin, reserved)]) ?st"
          by (rule claims_inv_extend [OF assms(2), where cs = "[(agent, key)]" and hs = "[]"])
            (use found(1-5) rel False ok in simp_all)
        ultimately show ?thesis using that by blast
      next
        case noclaim: False
        have "claims_inv hold_of start s spoken (ms @ [(agent, pin, reserved)]) st1"
          by (rule claims_inv_extend [OF assms(2), where cs = "[]" and hs = "[]"]) (use found(1-5) in simp_all)
        then show ?thesis using that pick False noclaim by (simp add: fresh_start_def Some found(3))
      qed
    qed
  qed
qed

lemma claims_round:
  assumes "queues_ok s" "claims_inv hold_of start s spoken done st"
  shows "\<exists>st'. fresh_round hold_of start now ms st = Some st' \<and> claims_inv hold_of start s spoken (done @ ms) st'"
  using assms(2)
proof (induction ms arbitrary: "done" st)
  case (Cons m ms)
  obtain agent pin reserved where m: "m = (agent, pin, reserved)" by (metis prod_cases3)
  obtain st1 where st1: "fresh_start hold_of start now agent pin reserved st = Some st1"
    "claims_inv hold_of start s spoken (done @ [m]) st1"
    by (rule claims_step [OF assms(1) Cons.prems, of now agent pin reserved]) (simp add: m)
  from Cons.IH [OF st1(2)] show ?case using st1(1) by (simp add: m)
qed simp

text \<open>
  C28. Take any snapshot whose queue names are distinct and whose part ids are distinct within each
  queue. Then the claim step of a tick returns, whatever the parts' documents say and however the
  starts end. The parts it claims are distinct and none was spoken for before; each is the next
  part of its queue in the snapshot, queued and held neither there nor by its document, and its
  queue is the member's own or not reserved for another. A member it reports without work had no
  such part left: each was in a queue reserved for others or claimed in this tick.
\<close>

theorem fresh_claims_exclusive:
  assumes "queues_ok s"
  shows "\<exists>st. fresh_round hold_of start now ms (claim_loop_new s spoken foreign announced holds) = Some st \<and>
    distinct (map snd (cl_claimed st)) \<and> snd ` set (cl_claimed st) \<inter> spoken = {} \<and>
    list_all (claim_ok hold_of start s ms) (cl_claimed st) \<and>
    list_all (\<lambda>(agent, why). why = ''no workable part'' \<longrightarrow>
      idle_ok hold_of s ms (snd ` set (cl_claimed st)) agent) (cl_held_fresh st)"
proof -
  have "claims_inv hold_of start s spoken [] (claim_loop_new s spoken foreign announced holds)"
    using assms by (simp add: claims_inv_def claim_loop_new_def snap_rel_refl)
  from claims_round [OF assms this, of now ms] show ?thesis
    by (auto simp: claims_inv_def list_all_iff)
qed

text \<open>
  Distinct ids are needed: in a queue that lists the same id twice, once done and once queued, a hold
  lands on the done row, which ignores it, and the loop picks the queued row again for ever.
\<close>

definition twice_listed :: queues where
  "twice_listed = [\<lparr>qu_name = ''a'', qu_parts = [part_view_new ''1'' ''done'', part_view_new ''1'' ''queued'']\<rparr>]"

lemma twice_listed_never_ends:
  "cl_queues st = twice_listed \<Longrightarrow> cl_spoken st = {} \<Longrightarrow> hold_of (''a'', ''1'') = Some h \<Longrightarrow>
     fresh_pick n hold_of {} now None st = None"
proof (induction n arbitrary: st)
  case (Suc n)
  have pick: "pick_for twice_listed None {} = Some (''a'', ''1'')" "is_fresh twice_listed (''a'', ''1'')"
    by code_simp+
  have same: "mark_held ''a'' ''1'' h twice_listed = twice_listed"
    by (simp add: mark_held_def on_part_def twice_listed_def part_view_new_def part_status_parse_def)
  have "fresh_pick n hold_of {} now None (note_hold (''a'', ''1'') h now st) = None"
    by (rule Suc.IH) (use Suc.prems same in \<open>simp_all add: note_hold_def\<close>)
  then show ?case using Suc.prems pick by simp
qed simp

text \<open>
  Three members on two queues: the first part of the own queue is held by its document, the head of
  the other is a foreign active part, so the second member falls back and finds nothing.
\<close>

definition demo_queues :: queues where
  "demo_queues =
     [\<lparr>qu_name = ''a'', qu_parts = [part_view_new ''1'' ''done'', part_view_new ''2'' ''queued'', part_view_new ''3'' ''queued'']\<rparr>,
      \<lparr>qu_name = ''b'', qu_parts = [part_view_new ''1'' ''active'', part_view_new ''2'' ''queued'']\<rparr>]"

definition demo_hold :: "part_key \<Rightarrow> claim_hold option" where
  "demo_hold key = (if key = (''a'', ''2'') then Some (Human_Only ''no'') else None)"

definition demo_members :: "free_member list" where
  "demo_members = [(''x'', Some ''a'', {''b''}), (''y'', Some ''b'', {''a''})]"

theorem fresh_claims_exclusive_witness:
  "\<exists>st. fresh_round demo_hold (\<lambda>_ _. Started) 0 demo_members
      (claim_loop_new demo_queues {} {} (\<lambda>_. None) (\<lambda>_. None)) = Some st \<and>
    map snd (cl_claimed st) = [(''a'', ''3'')] \<and> map fst (cl_held_fresh st) = [''y''] \<and>
    list_all (claim_ok demo_hold (\<lambda>_ _. Started) demo_queues demo_members) (cl_claimed st)"
proof -
  let ?r = "fresh_round demo_hold (\<lambda>_ _. Started) 0 demo_members
      (claim_loop_new demo_queues {} {} (\<lambda>_. None) (\<lambda>_. None))"
  have "queues_ok demo_queues" by code_simp
  from fresh_claims_exclusive [OF this, of demo_hold "\<lambda>_ _. Started" 0 demo_members "{}" "{}" "\<lambda>_. None" "\<lambda>_. None"]
  obtain st where st: "?r = Some st"
    and ok: "list_all (claim_ok demo_hold (\<lambda>_ _. Started) demo_queues demo_members) (cl_claimed st)"
    by blast
  have "map_option (\<lambda>st. (map snd (cl_claimed st), map fst (cl_held_fresh st))) ?r = Some ([(''a'', ''3'')], [''y''])"
    by code_simp
  then show ?thesis using st ok by simp
qed

end
