(* ===== verification/Spec2Isabelle.thy ===== *)
theory Spec2Isabelle
  imports Queue_Invariant Model_Grammar Scheduler_Props V2_Source_Props Conventions Section_Edit
    Queue_Files Numbering Sub_Doc Queue_Ops_Props Pick_Claim Queue_Table Queue_Verbs_Props Shares_Props Fuse_Cases
    Fleet_Pool Spin_Guard Baton_Props Leases Outage Queue_Claims
begin

text \<open>
  Verification library of soft-fig.

  \<^bold>\<open>The program.\<close> A garden is a tree of documents that the keeper daemon
  (\<^verbatim>\<open>crates/softfig-keeperd\<close>) serves, edits and commits. The backlog of the garden is
  the queue v2: \<^verbatim>\<open>queue.toml\<close>, its archive, and one \<^verbatim>\<open>slices.toml\<close> per milestone.
  Their shape and rules live in \<^verbatim>\<open>crates/softfig-ipc\<close>. The fleet daemon
  (\<^verbatim>\<open>crates/softfig-growlightd\<close>) reads them each tick, picks the next unit of work for
  each member and asks the keeper to claim it and to write its status. Humans edit the same files
  through the verbs of the keeper. Every change is one write of the files, of their derived views
  and of the new documents, checked before it is staged and landed in one commit. A commit is an
  object of the version store (\<^verbatim>\<open>crates/softfig-vcs\<close>, \<^verbatim>\<open>crates/softfig-store\<close>);
  the parts of the tree that are shared with other devices live on chains of their own. The garden is
  worked on through a mount (\<^verbatim>\<open>crates/softfig-fuse\<close>): an overlay of staged changes over the
  tree of the tip, which every commit snapshots and then absorbs. The fleet daemon runs its members as
  child processes under a supervisor, within a cap, budgets and the login slots, and reads how a
  session ended from its exit and its baton.

  \<^bold>\<open>Theories and code.\<close>

  \<^item> \<open>Prelude\<close>, \<open>Text_Lib\<close>: what the code takes from Rust's standard library (results, vectors,
    strings as UTF-8 byte lists, integers at their width).
  \<^item> \<open>Item_Meta\<close> (\<^verbatim>\<open>ipc/item_meta.rs\<close>), \<open>Model_Choice\<close>, \<open>Model_Grammar\<close>
    (\<^verbatim>\<open>ipc/model_choice.rs\<close>), \<open>Sub_Doc\<close> (\<^verbatim>\<open>ipc/queue_v2/sub_doc.rs\<close>): the
    metadata lines of an item document, the grammar of model declarations and their resolution.
  \<^item> \<open>Queue_Model\<close> (\<^verbatim>\<open>ipc/queue_v2/mod.rs\<close>), \<open>Queue_Validate\<close>
    (\<^verbatim>\<open>validate.rs\<close>), \<open>Queue_Invariant\<close>: the typed files, the file check, and what
    the check means.
  \<^item> \<open>Scheduler\<close>, \<open>Scheduler_Props\<close> (\<^verbatim>\<open>growlightd/scheduler_v2.rs\<close>), \<open>V2_Source\<close>,
    \<open>V2_Source_Props\<close> (\<^verbatim>\<open>v2_source.rs\<close>): the pick and the reader of its snapshot.
    \<open>V2_Overlay\<close> (\<^verbatim>\<open>drive_loop.rs\<close>): the holders and accepted model changes the drive loop
    lays over the snapshot, and the claim a pick leads to; \<open>Pick_Claim\<close>: the keeper's answer to it.
  \<^item> \<open>Garden\<close> (\<^verbatim>\<open>keeperd/actions/worktree.rs\<close>, \<^verbatim>\<open>mod.rs\<close>,
    \<^verbatim>\<open>handlers.rs\<close>), \<open>Managed\<close>, \<open>Section_Edit\<close>, \<open>Conventions\<close>, \<open>Numbering\<close>
    (\<^verbatim>\<open>keeperd/actions\<close>): the overlay an action writes to, the managed regions and the
    section edits of documents, names and numbers.
  \<^item> \<open>Queue_Views\<close>, \<open>Queue_Files\<close>, \<open>Queue_Ops\<close>, \<open>Queue_Verbs\<close>
    (\<^verbatim>\<open>keeperd/actions/growlight/v2\<close>, \<^verbatim>\<open>queue_verbs.rs\<close>): the views, the
    loaders and the one writer, the operations of the daemon and the verbs of the human.
    \<open>Queue_Step\<close>, \<open>Queue_Ops_Props\<close>, \<open>Queue_Verbs_Props\<close> hold their properties. \<open>Queue_Table\<close>
    (\<^verbatim>\<open>queue.rs\<close>, \<^verbatim>\<open>queues.rs\<close>): the item table and the registry of the legacy queues.
  \<^item> \<open>Sorted_Map\<close>: ordered maps and path texts. \<open>Machine\<close>, \<open>Vcs_Store\<close> (\<^verbatim>\<open>softfig-store\<close>,
    \<^verbatim>\<open>vcs/repo.rs\<close>): the tables, the object store and the references; \<open>Vcs_Snapshot\<close>
    (\<^verbatim>\<open>vcs/walk.rs\<close>): the tree a commit is built from; \<open>Vcs_Commit\<close>, \<open>Vcs_Build\<close>,
    \<open>Vcs_Invariant\<close>: commits and what they keep; \<open>Vcs_Gc\<close>: garbage collection; \<open>Vcs_Fsck\<close>,
    \<open>Vcs_Fsck_Props\<close>: the consistency checks; \<open>Vcs_Runs\<close>: sequences of them; \<open>Vcs_View\<close>: the
    view of a tip; \<open>Vcs_Witness\<close>: their instances.
  \<^item> \<open>Vcs_Chain\<close> (\<^verbatim>\<open>vcs/chain.rs\<close>), \<open>Shares\<close>, \<open>Shares_Props\<close>: chains, the owner of a path,
    the split of a snapshot, and the verbs that place and remove shares.
  \<^item> \<open>Fuse_Overlay\<close> (\<^verbatim>\<open>fuse/overlay.rs\<close>), \<open>Fuse_Tree\<close> (\<^verbatim>\<open>fuse/fs.rs\<close>,
    \<^verbatim>\<open>vcs/ignore.rs\<close>): the overlay, the working tree of the mount, its snapshots, its rotation
    and the kernel handlers that change it; \<open>Fuse_Spec\<close>: the working tree as a function of paths;
    \<open>Fuse_Props\<close>, \<open>Fuse_Stage\<close>, \<open>Fuse_Rotation\<close>, \<open>Fuse_Cases\<close>: the snapshot is that tree, what
    a commit with its rotation keeps and under which conditions, and the cases where a handler surprises.
  \<^item> \<open>Fleet_Admission\<close> (\<^verbatim>\<open>growlightd/admission.rs\<close>, \<^verbatim>\<open>profile_budget.rs\<close>,
    \<^verbatim>\<open>rate_limit_holds.rs\<close>, \<^verbatim>\<open>profile_pin.rs\<close>, \<^verbatim>\<open>ipc/usage.rs\<close>), \<open>Fleet_Pool\<close>: the
    governor, the readings of the login slots, their holds and the picker.
  \<^item> \<open>Baton\<close>, \<open>Baton_Props\<close> (\<^verbatim>\<open>ipc/baton.rs\<close>, \<^verbatim>\<open>growlightd/baton_store.rs\<close>): the
    handoff texts and the two stores they live in. \<open>Leases\<close> (\<^verbatim>\<open>leases.rs\<close>): the lease table, behind the locale \<open>lease_line\<close>.
  \<^item> \<open>Supervisor\<close> (\<^verbatim>\<open>supervisor.rs\<close>): the members, one observation, one tick;
    \<open>Supervisor_Props\<close>, \<open>Fleet_Runs\<close>, \<open>Fleet_Return\<close>, \<open>Spin_Guard\<close>: what one observation does,
    runs with their processes, the return of a crashed member, the spin guard.
  \<^item> \<open>Notify\<close>, \<open>Notify_Props\<close> (\<^verbatim>\<open>notifications.rs\<close>, \<^verbatim>\<open>notify_dispatch.rs\<close>): the alerts,
    their cooldowns and their dispatch; \<open>Notify_Loop\<close>, \<open>Outage\<close> (\<^verbatim>\<open>drive_loop.rs\<close>,
    \<^verbatim>\<open>dispatch\<close>): what one tick raises, and what that comes to for an outage and for a block.
  \<^item> \<open>Queue_Pick\<close>, \<open>Queue_Claims\<close> (\<^verbatim>\<open>scheduler.rs\<close>, the claim step of
    \<^verbatim>\<open>drive_loop.rs\<close>): the pick over the legacy queues and the claims of one tick.

  \<^bold>\<open>State.\<close> A garden is the record of its files (the overlay over the committed tree), its
  head, its log and its lock. Operations take an environment (the codec of the toml crate, the
  clock, the hash of a version, the backlink refresh) and return an error or a reply with the next
  garden. A plan is everything an operation decides before its write; \<open>run_plan\<close> is the write.
  A repository is its tables and its objects; a mount is its overlay with a generation counter, its
  tip view and its registry, and every handler is one step of it. A fleet is the supervisor's record
  with the processes that run; its steps are the inductive relation \<open>fleet_reach\<close>.

  \<^bold>\<open>What is shown.\<close> The file check decides its invariant; every writer keeps it, whatever the
  order, the arguments and the outcomes of the writes (\<open>writers_keep_queue_valid\<close>). The daemon
  refines a three-state life cycle of entries, and no human verb moves a running or a filed entry.
  The pick is the first eligible entry of one preference order; over any holders and model changes the
  keeper refuses the claim of a pick only when another item of its tree is active; and a member left
  without work is told why for every entry. The writer is all-or-nothing with compare
  and swap. Plain section edits and regions keep what they do not own; parsers accept exactly their
  grammar; the next number of a folder is above its counter and above every number below 1000 in
  use there; the backlog tables read back what was rendered. Any sequence of commits and collections leaves a
  store on which the checks are silent; a commit reads back as the snapshot it was given; the
  collection keeps exactly what a reference can reach. Every path has one owning chain, the one of the share mounted above it or the device's,
  and a private file, at any depth outside a share, never reaches a shared one. The snapshot of a
  mount is its working tree, and a commit with its rotation keeps what others own and what was staged
  after the cut. The fleet stays within its cap and loses no process, a
  crashed member returns after its backoff, a member that makes no progress is released within five
  sessions, leases are served in order, the pages of a standing block thin out along the reminder
  ladder, an outage is paged at most once, one tick never claims a part twice or out of order, no login
  slot is used on a reading of the last six hours that shows a shut window, and a hold of a slot ends
  exactly when the last reported window has passed a clearing.

  \<^bold>\<open>Termination and fuel.\<close> The search for link cycles runs on fuel, one more than the number of
  rows, shown enough (\<open>dfs_fuel_enough\<close>): each step marks a new row. The pick of
  a free member runs on one more than its claimable parts, two with a pin: each pass gives up the pin or
  holds a part (\<open>fresh_pick_returns\<close>). The reader of slices trees
  and the unit walk recurse to depth three, by the measure of the slashes of an identity, which the
  depth check bounds. All other recursion is structural or on a length.

  \<^bold>\<open>Not modelled.\<close> The sockets and timers of both daemons, the drive loop around the supervisor
  (its alerts and its claim step apart),
  the agent backends, the network and its ceremonies, the cryptography of the vault, and the front
  ends: they are input, output and external crates around the state above. Of the mount, the inode
  table, the attributes, the cache of redacted content, the event sink and the reading callbacks; the
  theorem on rotations is about a mount whose tip view is built from its own device chain. The hash,
  the toml codec and the ciphers are arguments, with the laws a theorem needs as its hypotheses.
  Free prose of messages is left out; error values are kept. White space is the ASCII white space.
\<close>

end
